(* ===== verification/Mira_Prelude.thy ===== *)
theory Mira_Prelude
  imports Main "HOL-Library.Word" "HOL-Library.Char_ord" "HOL-Library.Multiset"
begin

text \<open>
  Shared vocabulary of the MiraOS development: names for the C integer types, the
  faults a kernel path can end in, the result type of fallible operations with its
  bind, and the generic list, option and word lemmas the component theories use.
\<close>

unbundle bit_operations_syntax

section \<open>Machine types\<close>

type_synonym u8 = "8 word"
type_synonym u16 = "16 word"
type_synonym u32 = "32 word"
type_synonym u64 = "64 word"

text \<open>Addresses are 64-bit values; a null pointer is the value 0.\<close>

type_synonym addr = u64

section \<open>Faults and results\<close>

text \<open>
  A path of the kernel that does not return normally ends in a fault: a call of
  \<open>panic\<close> (\<open>kernel/panic.c\<close> halts the machine), an access through a null or dangling
  pointer, an access outside an array, or a loop that never ends.
\<close>

datatype fault = Panic string | NullDeref | OutOfBounds | BadPointer | Diverges

type_synonym 'a res = "fault + 'a"

definition bindR :: "'a res \<Rightarrow> ('a \<Rightarrow> 'b res) \<Rightarrow> 'b res" where
  "bindR m f = (case m of Inl e \<Rightarrow> Inl e | Inr a \<Rightarrow> f a)"

section \<open>Byte-addressed memory\<close>

text \<open>
  Memory is a function from addresses to bytes. Multi-byte values are little-endian, as
  on x86-64: \<open>rd_nat n m a\<close> reads the \<open>n\<close> bytes at \<open>a\<close>, \<open>wr_nat n v m a\<close> stores the
  low \<open>n\<close> bytes of \<open>v\<close> there.
\<close>

type_synonym mem = "addr \<Rightarrow> u8"

primrec rd_nat :: "nat \<Rightarrow> mem \<Rightarrow> addr \<Rightarrow> nat" where
  "rd_nat 0 m a = 0"
| "rd_nat (Suc n) m a = unat (m a) + 256 * rd_nat n m (a + 1)"

primrec wr_nat :: "nat \<Rightarrow> nat \<Rightarrow> mem \<Rightarrow> addr \<Rightarrow> mem" where
  "wr_nat 0 v m a = m"
| "wr_nat (Suc n) v m a = wr_nat n (v div 256) (m(a := word_of_nat (v mod 256))) (a + 1)"

definition rd16 :: "mem \<Rightarrow> addr \<Rightarrow> u16" where "rd16 m a = word_of_nat (rd_nat 2 m a)"
definition rd32 :: "mem \<Rightarrow> addr \<Rightarrow> u32" where "rd32 m a = word_of_nat (rd_nat 4 m a)"
definition rd64 :: "mem \<Rightarrow> addr \<Rightarrow> u64" where "rd64 m a = word_of_nat (rd_nat 8 m a)"
definition wr32 :: "mem \<Rightarrow> addr \<Rightarrow> u32 \<Rightarrow> mem" where "wr32 m a v = wr_nat 4 (unat v) m a"
definition wr64 :: "mem \<Rightarrow> addr \<Rightarrow> u64 \<Rightarrow> mem" where "wr64 m a v = wr_nat 8 (unat v) m a"

text \<open>The \<open>n\<close> addresses from \<open>a\<close> on, wrapping at the end of the address space.\<close>

definition region :: "addr \<Rightarrow> nat \<Rightarrow> addr set" where
  "region a n = (\<lambda>i. a + word_of_nat i) ` {..<n}"

text \<open>A memory holding the given bytes at \<open>a\<close> and zero elsewhere.\<close>

definition mem_of :: "addr \<Rightarrow> u8 list \<Rightarrow> mem" where
  "mem_of a bs = (\<lambda>x. if unat (x - a) < length bs then bs ! unat (x - a) else 0)"

section \<open>Allocation outcomes\<close>

text \<open>
  Components whose data the model keeps as values, not as bytes of the heap, still take
  the null result of \<open>kmalloc\<close> into account: the outcomes of the coming calls are a list of
  the state (\<open>False\<close> for a null result), and calls past its end succeed. A request of 0
  bytes yields null, as in \<open>kernel/heap.c\<close>.
\<close>

fun kmalloc_outcome :: "u64 \<Rightarrow> bool list \<Rightarrow> bool \<times> bool list" where
  "kmalloc_outcome n [] = (n \<noteq> 0, [])"
| "kmalloc_outcome n (b # bs) = (if n = 0 then (False, b # bs) else (b, bs))"

section \<open>Proof automation\<close>

text \<open>
  \<open>kernel_inv\<close> collects the lemmas saying that an operation keeps its component's
  invariant, \<open>kernel_frame\<close> those saying which parts of a state an operation leaves
  alone, and \<open>kernel_abs\<close> the equations of an operation with its abstract counterpart.
\<close>

named_theorems kernel_inv \<open>operations keep their invariant\<close>
named_theorems kernel_frame \<open>what an operation leaves unchanged\<close>
named_theorems kernel_abs \<open>operations seen through the abstraction function\<close>

lemma bindR_simps [simp]:
  "bindR (Inl e) f = Inl e"
  "bindR (Inr a) f = f a"
  by (simp_all add: bindR_def)

lemma bindR_eq_Inr [simp]: "bindR m f = Inr b \<longleftrightarrow> (\<exists>a. m = Inr a \<and> f a = Inr b)"
  by (cases m) simp_all

lemma bindR_eq_Inl: "bindR m f = Inl e \<longleftrightarrow> m = Inl e \<or> (\<exists>a. m = Inr a \<and> f a = Inl e)"
  by (cases m) auto

lemma bindR_assoc: "bindR (bindR m f) g = bindR m (\<lambda>a. bindR (f a) g)"
  by (cases m) simp_all

lemma bindR_cong [fundef_cong]:
  "\<lbrakk>m = m'; \<And>a. m' = Inr a \<Longrightarrow> f a = f' a\<rbrakk> \<Longrightarrow> bindR m f = bindR m' f'"
  by (cases m') auto

section \<open>Counting loops\<close>

lemma unat_plus_one: "p < (e :: 'a::len word) \<Longrightarrow> unat (p + 1) = Suc (unat p)"
proof -
  assume "p < e"
  then have "unat p < unat e" by (simp add: word_less_nat_alt)
  moreover have "unat e < 2 ^ LENGTH('a)" by (rule unsigned_less)
  ultimately have "unat p + 1 < 2 ^ LENGTH('a)" by linarith
  then show ?thesis by (simp add: unat_word_ariths)
qed

lemma unat_u64_less: "unat (x :: u64) < 18446744073709551616"
  by (rule order_less_le_trans [OF unsigned_less]) simp

text \<open>
  The loop \<open>for (p = a; p < e; p++) body\<close> over an unsigned counter, whose body may
  change the state and may fault.
\<close>

function for_up :: "'a::len word \<Rightarrow> 'a word \<Rightarrow> ('a word \<Rightarrow> 's \<Rightarrow> 's res) \<Rightarrow> 's \<Rightarrow> 's res" where
  "for_up p e f st = (if p < e then bindR (f p st) (\<lambda>st'. for_up (p + 1) e f st') else Inr st)"
  by pat_completeness auto
termination
  by (relation "measure (\<lambda>(p, e, f, st). unat e - unat p)")
    (auto simp: unat_plus_one word_less_nat_alt)

declare for_up.simps [simp del]

lemma for_up_done [simp]: "e \<le> p \<Longrightarrow> for_up p e f st = Inr st"
  by (subst for_up.simps) (auto simp: not_less [symmetric])

lemma for_up_step: "p < e \<Longrightarrow> for_up p e f st = bindR (f p st) (for_up (p + 1) e f)"
  by (subst for_up.simps) simp

text \<open>Total correctness of a loop whose body cannot fault under the invariant.\<close>

lemma for_up_total:
  assumes "P p st" and "p \<le> e"
    and step: "\<And>q s. P q s \<Longrightarrow> p \<le> q \<Longrightarrow> q < e \<Longrightarrow> \<exists>s'. f q s = Inr s' \<and> P (q + 1) s'"
  shows "\<exists>s'. for_up p e f st = Inr s' \<and> P e s'"
  using assms
proof (induction p e f st rule: for_up.induct)
  case (1 p e f st)
  show ?case
  proof (cases "p < e")
    case True
    with "1.prems" obtain s' where s': "f p st = Inr s'" "P (p + 1) s'" by blast
    have le: "p \<le> p + 1" "p + 1 \<le> e"
      using True by (simp_all add: word_le_nat_alt word_less_nat_alt unat_plus_one [OF True])
    have "\<exists>s''. for_up (p + 1) e f s' = Inr s'' \<and> P e s''"
      using "1.IH" [OF True s'(1) s'(2) le(2)] "1.prems"(3) le(1) by (meson order_trans)
    with True s'(1) show ?thesis by (simp add: for_up_step)
  next
    case False
    with "1.prems" have "p = e" by simp
    with "1.prems" show ?thesis by simp
  qed
qed

section \<open>Generic list lemmas\<close>

lemma upt_shift_map: "map f [a..<a + n] = map (\<lambda>i. f (a + i)) [0..<n]"
  by (induction n) simp_all

lemma rotate1_snoc: "rotate1 (x # xs) = xs @ [x]"
  by simp

lemma rotate_length_append: "rotate (length xs) (xs @ ys) = ys @ xs"
  by (rule rotate_append)

lemma take_list_update_ge: "n \<le> i \<Longrightarrow> take n (xs[i := x]) = take n xs"
  by simp

lemma take_Suc_update: "n < length xs \<Longrightarrow> take (Suc n) (xs[n := x]) = take n xs @ [x]"
  by (simp add: take_Suc_conv_app_nth)

section \<open>Memory lemmas\<close>

lemma region_0 [simp]: "region a 0 = {}"
  by (simp add: region_def)

lemma region_Suc: "region a (Suc n) = insert a (region (a + 1) n)"
proof -
  have "{..<Suc n} = insert 0 (Suc ` {..<n})" by (auto simp: lessThan_Suc_eq_insert_0)
  then show ?thesis by (simp add: region_def image_image algebra_simps)
qed

lemma in_region_iff: "n \<le> 2 ^ 64 \<Longrightarrow> x \<in> region a n \<longleftrightarrow> unat (x - a) < n"
proof
  assume n: "n \<le> 2 ^ 64" and "x \<in> region a n"
  then obtain i where "i < n" and "x = a + word_of_nat i" by (auto simp: region_def)
  with n show "unat (x - a) < n" by (simp add: unat_of_nat)
next
  assume "unat (x - a) < n"
  moreover have "x = a + word_of_nat (unat (x - a))" by simp
  ultimately show "x \<in> region a n" unfolding region_def by blast
qed

lemma wr_nat_other: "x \<notin> region a n \<Longrightarrow> wr_nat n v m a x = m x"
  by (induction n arbitrary: v m a) (auto simp: region_Suc)

lemma rd_nat_cong: "(\<And>x. x \<in> region a n \<Longrightarrow> m x = m' x) \<Longrightarrow> rd_nat n m a = rd_nat n m' a"
  by (induction n arbitrary: a) (auto simp: region_Suc)

lemma rd_wr_nat_other: "region a n \<inter> region b k = {} \<Longrightarrow> rd_nat n (wr_nat k v m b) a = rd_nat n m a"
  by (rule rd_nat_cong) (simp add: disjoint_iff wr_nat_other)

lemma rd_wr_nat_same: "n \<le> 2 ^ 64 \<Longrightarrow> rd_nat n (wr_nat n v m a) a = v mod 256 ^ n"
proof (induction n arbitrary: v m a)
  case 0
  then show ?case by simp
next
  case (Suc n)
  have "a \<notin> region (a + 1) n"
    using Suc.prems by (auto simp: in_region_iff unsigned_minus_1_eq_mask mask_eq_exp_minus_1)
  then have "wr_nat (Suc n) v m a a = word_of_nat (v mod 256)"
    by (simp add: wr_nat_other)
  moreover have "rd_nat n (wr_nat (Suc n) v m a) (a + 1) = (v div 256) mod 256 ^ n"
    using Suc by simp
  ultimately have "rd_nat (Suc n) (wr_nat (Suc n) v m a) a = v mod 256 + 256 * ((v div 256) mod 256 ^ n)"
    by (simp add: unat_of_nat)
  then show ?case by (simp add: mod_mult2_eq)
qed

text \<open>Unfolding the readers and writers byte by byte, for evaluation on concrete memories.\<close>

lemma rd_nat_numeral: "rd_nat (numeral k) m a = unat (m a) + 256 * rd_nat (pred_numeral k) m (a + 1)"
  by (simp only: numeral_eq_Suc rd_nat.simps)

lemma wr_nat_numeral:
  "wr_nat (numeral k) v m a = wr_nat (pred_numeral k) (v div 256) (m(a := word_of_nat (v mod 256))) (a + 1)"
  by (simp only: numeral_eq_Suc wr_nat.simps)

lemma mem_of_at: "unat (x - a) = n \<Longrightarrow> mem_of a bs x = (if n < length bs then bs ! n else 0)"
  by (simp add: mem_of_def)

lemma rd64_wr64 [simp]: "rd64 (wr64 m a v) a = v"
proof -
  have "unat v < 256 ^ 8" using unsigned_less [of v] by simp
  then show ?thesis by (simp add: rd64_def wr64_def rd_wr_nat_same)
qed

lemma rd32_wr32 [simp]: "rd32 (wr32 m a v) a = v"
proof -
  have "unat v < 256 ^ 4" using unsigned_less [of v] by simp
  then show ?thesis by (simp add: rd32_def wr32_def rd_wr_nat_same)
qed

section \<open>Intervals of addresses\<close>

text \<open>
  Spans are intervals of natural-number addresses, given by start and length. The
  allocators' invariants are stated with them, away from the wrap-around of words.
\<close>

type_synonym span = "nat \<times> nat"

definition apart :: "span \<Rightarrow> span \<Rightarrow> bool" where
  "apart x y \<longleftrightarrow> fst x + snd x \<le> fst y \<or> fst y + snd y \<le> fst x"

definition within :: "span \<Rightarrow> span \<Rightarrow> bool" where
  "within x y \<longleftrightarrow> fst y \<le> fst x \<and> fst x + snd x \<le> fst y + snd y"

definition span_set :: "span \<Rightarrow> nat set" where "span_set x = {fst x..<fst x + snd x}"

lemma apart_sym: "apart x y \<Longrightarrow> apart y x"
  by (auto simp: apart_def)

lemma apart_commute: "apart x y = apart y x"
  by (auto simp: apart_def)

lemma apart_within: "apart x y \<Longrightarrow> within z x \<Longrightarrow> apart z y"
  by (auto simp: apart_def within_def)

lemma unat_plus: "unat (a :: u64) + n < 2 ^ 64 \<Longrightarrow> unat (a + word_of_nat n) = unat a + n"
  by (simp add: unat_word_ariths unat_of_nat)

lemma region_nat:
  assumes "unat a + n \<le> 2 ^ 64"
  shows "x \<in> region a n \<longleftrightarrow> unat a \<le> unat x \<and> unat x < unat a + n"
  using assms unat_u64_less [of a] by (auto simp: in_region_iff unat_sub_if')

lemma regions_apart:
  assumes "apart (unat a, n) (unat b, k)" "unat a + n \<le> 2 ^ 64" "unat b + k \<le> 2 ^ 64"
  shows "region a n \<inter> region b k = {}"
  using assms by (auto simp: region_nat apart_def)

lemma rd64_wr64_apart:
  "apart (unat a, 8) (unat b, 8) \<Longrightarrow> unat a + 8 \<le> 2 ^ 64 \<Longrightarrow> unat b + 8 \<le> 2 ^ 64 \<Longrightarrow>
    rd64 (wr64 m b v) a = rd64 m a"
  by (simp add: rd64_def wr64_def rd_wr_nat_other regions_apart)

lemma rd32_wr64_apart:
  "apart (unat a, 4) (unat b, 8) \<Longrightarrow> unat a + 4 \<le> 2 ^ 64 \<Longrightarrow> unat b + 8 \<le> 2 ^ 64 \<Longrightarrow>
    rd32 (wr64 m b v) a = rd32 m a"
  by (simp add: rd32_def wr64_def rd_wr_nat_other regions_apart)

lemma rd64_wr32_apart:
  "apart (unat a, 8) (unat b, 4) \<Longrightarrow> unat a + 8 \<le> 2 ^ 64 \<Longrightarrow> unat b + 4 \<le> 2 ^ 64 \<Longrightarrow>
    rd64 (wr32 m b v) a = rd64 m a"
  by (simp add: rd64_def wr32_def rd_wr_nat_other regions_apart)

lemma rd32_wr32_apart:
  "apart (unat a, 4) (unat b, 4) \<Longrightarrow> unat a + 4 \<le> 2 ^ 64 \<Longrightarrow> unat b + 4 \<le> 2 ^ 64 \<Longrightarrow>
    rd32 (wr32 m b v) a = rd32 m a"
  by (simp add: rd32_def wr32_def rd_wr_nat_other regions_apart)

lemma wr64_outside: "unat b + 8 \<le> 2 ^ 64 \<Longrightarrow> unat x \<notin> span_set (unat b, 8) \<Longrightarrow> wr64 m b v x = m x"
  by (auto simp: wr64_def region_nat span_set_def intro!: wr_nat_other)

lemma wr32_outside: "unat b + 4 \<le> 2 ^ 64 \<Longrightarrow> unat x \<notin> span_set (unat b, 4) \<Longrightarrow> wr32 m b v x = m x"
  by (auto simp: wr32_def region_nat span_set_def intro!: wr_nat_other)

lemma rd64_cong: "unat a + 8 \<le> 2 ^ 64 \<Longrightarrow> (\<And>x. unat x \<in> span_set (unat a, 8) \<Longrightarrow> m x = m' x) \<Longrightarrow> rd64 m a = rd64 m' a"
  unfolding rd64_def by (rule arg_cong [OF rd_nat_cong]) (auto simp: region_nat span_set_def)

lemma rd32_cong: "unat a + 4 \<le> 2 ^ 64 \<Longrightarrow> (\<And>x. unat x \<in> span_set (unat a, 4) \<Longrightarrow> m x = m' x) \<Longrightarrow> rd32 m a = rd32 m' a"
  unfolding rd32_def by (rule arg_cong [OF rd_nat_cong]) (auto simp: region_nat span_set_def)

text \<open>A pairwise disjoint collection of spans inside an interval.\<close>

definition spans_ok :: "nat \<Rightarrow> nat \<Rightarrow> span list \<Rightarrow> bool" where
  "spans_ok lo hi xs \<longleftrightarrow> (\<forall>x \<in> set xs. lo \<le> fst x \<and> fst x + snd x \<le> hi) \<and> sorted_wrt apart xs"

lemma spans_ok_append: "spans_ok lo hi (xs @ ys) \<longleftrightarrow>
    spans_ok lo hi xs \<and> spans_ok lo hi ys \<and> (\<forall>x \<in> set xs. \<forall>y \<in> set ys. apart x y)"
  by (auto simp: spans_ok_def sorted_wrt_append)

lemma spans_ok_Cons: "spans_ok lo hi (x # xs) \<longleftrightarrow>
    lo \<le> fst x \<and> fst x + snd x \<le> hi \<and> spans_ok lo hi xs \<and> (\<forall>y \<in> set xs. apart x y)"
  by (auto simp: spans_ok_def)

lemma spans_ok_Nil [simp]: "spans_ok lo hi []"
  by (simp add: spans_ok_def)

lemma spans_ok_mono: "spans_ok lo hi xs \<Longrightarrow> hi \<le> hi' \<Longrightarrow> spans_ok lo hi' xs"
  by (force simp: spans_ok_def)

lemma spans_ok_mid: "spans_ok lo hi (as @ x # bs) \<longleftrightarrow>
    lo \<le> fst x \<and> fst x + snd x \<le> hi \<and> spans_ok lo hi (as @ bs) \<and> (\<forall>y \<in> set (as @ bs). apart x y)"
  by (auto simp: spans_ok_append spans_ok_Cons apart_commute [of _ x])

lemma spans_ok_perm: "mset xs = mset ys \<Longrightarrow> spans_ok lo hi xs = spans_ok lo hi ys"
proof (induction xs arbitrary: ys)
  case Nil
  then show ?case by simp
next
  case (Cons x xs)
  then have "x \<in> set ys" by (metis list.set_intros(1) mset_eq_setD)
  then obtain as bs where ys: "ys = as @ x # bs" by (meson split_list)
  with Cons.prems have "mset xs = mset (as @ bs)" by simp
  with Cons.IH [OF this] show ?case
    by (simp only: ys spans_ok_mid spans_ok_Cons) (metis mset_eq_setD)
qed

lemma spans_ok_extend:
  "spans_ok lo hi xs \<Longrightarrow> spans_ok hi hi' ys \<Longrightarrow> lo \<le> hi \<Longrightarrow> hi \<le> hi' \<Longrightarrow> spans_ok lo hi' (xs @ ys)"
  by (fastforce simp: spans_ok_def sorted_wrt_append apart_def)

lemma spans_ok_refine:
  assumes "spans_ok lo hi (as @ x # bs)" "\<forall>z \<in> set zs. within z x" "sorted_wrt apart zs"
  shows "spans_ok lo hi (as @ zs @ bs)"
proof -
  have ok: "spans_ok lo hi (as @ bs)" "lo \<le> fst x" "fst x + snd x \<le> hi" "\<forall>y \<in> set (as @ bs). apart x y"
    using assms(1) [unfolded spans_ok_mid] by blast+
  have "spans_ok lo hi zs" using assms(2,3) ok(2,3) by (force simp: spans_ok_def within_def)
  moreover have "\<forall>z \<in> set zs. \<forall>y \<in> set (as @ bs). apart z y"
    using ok(4) assms(2) apart_within by blast
  moreover from this have "\<forall>y \<in> set as. \<forall>z \<in> set zs. apart y z" by (auto intro: apart_sym)
  ultimately show ?thesis using ok(1) by (auto simp: spans_ok_append)
qed

lemma spans_total:
  assumes "spans_ok lo hi xs" "\<forall>x \<in> set xs. k \<le> snd x"
  shows "k * length xs \<le> hi - lo"
proof -
  have "k * length xs \<le> card (\<Union>x \<in> set xs. span_set x)"
    using assms
  proof (induction xs)
    case Nil
    then show ?case by simp
  next
    case (Cons x xs)
    have disj: "span_set x \<inter> (\<Union>y \<in> set xs. span_set y) = {}"
      using Cons.prems(1) by (fastforce simp: spans_ok_Cons span_set_def apart_def)
    have "k * length xs \<le> card (\<Union>y \<in> set xs. span_set y)"
      using Cons by (simp add: spans_ok_Cons)
    moreover have "k \<le> card (span_set x)" using Cons.prems(2) by (simp add: span_set_def)
    ultimately show ?case using disj by (simp add: card_Un_disjoint span_set_def)
  qed
  also have "\<dots> \<le> card {lo..<hi}"
    using assms(1) by (intro card_mono) (force simp: spans_ok_def span_set_def)+
  finally show ?thesis by simp
qed

end
