(* ===== verification/Mira_Keyboard.thy ===== *)
theory Mira_Keyboard
  imports Mira_Prelude
begin

text \<open>
  The PS/2 keyboard driver, \<open>drivers/ps2/keyboard.c\<close>: a ring buffer of scancodes filled
  by the interrupt handler and drained by \<open>keyboard_poll\<close>, the modifier state, and the
  translation of a scancode to a character. The ring buffer is shown to be a bounded
  first-in first-out queue of 127 scancodes.
\<close>

section \<open>State and operations\<close>

definition KBD_BUF_SIZE :: nat where "KBD_BUF_SIZE = 128"

text \<open>
  The indices are C \<open>int\<close>s that start at 0 and are only ever set to a value modulo 128,
  so they are natural numbers here; the two flags are \<open>int\<close>s holding 0 or 1.
\<close>

record kbd =
  kbd_buffer :: "u8 list"
  kbd_head :: nat
  kbd_tail :: nat
  shift_pressed :: bool
  caps_lock :: bool

definition scancode_normal :: "u8 list" where
  "scancode_normal = [
     0, 27, 0x31, 0x32, 0x33, 0x34, 0x35, 0x36, 0x37, 0x38, 0x39, 0x30, 0x2D, 0x3D, 0x08,
     0x09, 0x71, 0x77, 0x65, 0x72, 0x74, 0x79, 0x75, 0x69, 0x6F, 0x70, 0x5B, 0x5D, 0x0A,
     0, 0x61, 0x73, 0x64, 0x66, 0x67, 0x68, 0x6A, 0x6B, 0x6C, 0x3B, 0x27, 0x60,
     0, 0x5C, 0x7A, 0x78, 0x63, 0x76, 0x62, 0x6E, 0x6D, 0x2C, 0x2E, 0x2F, 0,
     0x2A, 0, 0x20]"

definition scancode_shifted :: "u8 list" where
  "scancode_shifted = [
     0, 27, 0x21, 0x40, 0x23, 0x24, 0x25, 0x5E, 0x26, 0x2A, 0x28, 0x29, 0x5F, 0x2B, 0x08,
     0x09, 0x51, 0x57, 0x45, 0x52, 0x54, 0x59, 0x55, 0x49, 0x4F, 0x50, 0x7B, 0x7D, 0x0A,
     0, 0x41, 0x53, 0x44, 0x46, 0x47, 0x48, 0x4A, 0x4B, 0x4C, 0x3A, 0x22, 0x7E,
     0, 0x7C, 0x5A, 0x58, 0x43, 0x56, 0x42, 0x4E, 0x4D, 0x3C, 0x3E, 0x3F, 0,
     0x2A, 0, 0x20]"

text \<open>\<open>sc\<close> is unsigned, so \<open>sc >= sizeof(normal)\<close> is a test against 58 table entries.\<close>

definition scancode_map :: "kbd \<Rightarrow> u8 \<Rightarrow> bool \<Rightarrow> u8" where
  "scancode_map k sc shift =
     (if unat sc \<ge> length scancode_normal then 0
      else let c = (if shift then scancode_shifted ! unat sc else scancode_normal ! unat sc);
               c1 = (if \<not> shift \<and> caps_lock k \<and> 0x61 \<le> c \<and> c \<le> 0x7A
                     then c - 0x61 + 0x41 else c)
           in if shift \<and> caps_lock k \<and> 0x41 \<le> c1 \<and> c1 \<le> 0x5A
              then c1 - 0x41 + 0x61 else c1)"

definition kbd_push :: "u8 \<Rightarrow> kbd \<Rightarrow> int \<times> kbd" where
  "kbd_push sc k =
     (let nxt = (kbd_head k + 1) mod KBD_BUF_SIZE
      in if nxt = kbd_tail k then (-1, k)
         else (0, k\<lparr>kbd_buffer := (kbd_buffer k)[kbd_head k := sc], kbd_head := nxt\<rparr>))"

text \<open>
  \<open>keyboard_init\<close> clears the state and then drains the controller: each turn reads the
  status port 0x64 and, while its low bit is set, the data port 0x60. The argument is the
  sequence of status bytes the controller presents; \<open>None\<close> means it presented no byte
  with a clear low bit, so the loop has not ended.
\<close>

fun keyboard_drain :: "u8 list \<Rightarrow> u8 list option" where
  "keyboard_drain [] = None"
| "keyboard_drain (st # sts) = (if st AND 1 \<noteq> 0 then keyboard_drain sts else Some sts)"

definition keyboard_init :: "u8 list \<Rightarrow> kbd \<Rightarrow> kbd option" where
  "keyboard_init sts k =
     (case keyboard_drain sts of
        None \<Rightarrow> None
      | Some _ \<Rightarrow> Some (k\<lparr>kbd_head := 0, kbd_tail := 0, shift_pressed := False,
                          caps_lock := False\<rparr>))"

text \<open>The argument is the byte the handler reads from port 0x60.\<close>

definition keyboard_on_irq :: "u8 \<Rightarrow> kbd \<Rightarrow> kbd" where
  "keyboard_on_irq sc k =
     (if sc = 0x2A \<or> sc = 0x36 then k\<lparr>shift_pressed := True\<rparr>
      else if sc = 0xAA \<or> sc = 0xB6 then k\<lparr>shift_pressed := False\<rparr>
      else if sc = 0x3A then k\<lparr>caps_lock := \<not> caps_lock k\<rparr>
      else if sc < 0x80 then snd (kbd_push sc k)
      else k)"

definition keyboard_poll :: "kbd \<Rightarrow> (u8 \<times> kbd) option" where
  "keyboard_poll k =
     (if kbd_head k = kbd_tail k then None
      else Some (kbd_buffer k ! kbd_tail k,
                 k\<lparr>kbd_tail := (kbd_tail k + 1) mod KBD_BUF_SIZE\<rparr>))"

definition keyboard_scancode_to_ascii :: "kbd \<Rightarrow> u8 \<Rightarrow> u8" where
  "keyboard_scancode_to_ascii k sc =
     (if sc \<ge> 0x80 then 0
      else scancode_map k sc (shift_pressed k \<noteq> caps_lock k))"

section \<open>The ring buffer as a queue\<close>

text \<open>
  The interface a consumer of scancodes relies on: a bounded queue that accepts an
  element when it has room, drops it otherwise, and hands elements back in order.
\<close>

locale bounded_queue =
  fixes push :: "'a \<Rightarrow> 'q \<Rightarrow> 'q"
    and poll :: "'q \<Rightarrow> ('a \<times> 'q) option"
    and contents :: "'q \<Rightarrow> 'a list"
    and inv :: "'q \<Rightarrow> bool"
    and capacity :: nat
  assumes push_contents: "inv q \<Longrightarrow>
      contents (push x q) = (if length (contents q) < capacity then contents q @ [x] else contents q)"
    and poll_empty: "inv q \<Longrightarrow> poll q = None \<longleftrightarrow> contents q = []"
    and poll_some: "inv q \<Longrightarrow> poll q = Some (x, q') \<Longrightarrow> contents q = x # contents q'"
    and inv_push: "inv q \<Longrightarrow> inv (push x q)"
    and inv_poll: "inv q \<Longrightarrow> poll q = Some (x, q') \<Longrightarrow> inv q'"
    and inv_bound: "inv q \<Longrightarrow> length (contents q) \<le> capacity"
begin

lemma poll_Cons:
  assumes "inv q" and "contents q = x # xs"
  obtains q' where "poll q = Some (x, q')" and "contents q' = xs" and "inv q'"
proof -
  obtain y q' where p: "poll q = Some (y, q')"
    using assms poll_empty by fastforce
  with assms have "y = x" and "contents q' = xs"
    using poll_some by fastforce+
  with p assms(1) show thesis using that inv_poll by blast
qed

lemma fold_push_contents:
  assumes "inv q" and "length (contents q) + length xs \<le> capacity"
  shows "contents (fold push xs q) = contents q @ xs \<and> inv (fold push xs q)"
  using assms
proof (induction xs arbitrary: q)
  case Nil
  then show ?case by simp
next
  case (Cons x xs)
  then have c: "contents (push x q) = contents q @ [x]" and "inv (push x q)"
    by (simp_all add: push_contents inv_push)
  with Cons.IH [of "push x q"] Cons.prems show ?case by simp
qed

lemma fold_push_prefix:
  assumes "inv q"
  shows "contents (fold push xs q) =
    contents q @ take (capacity - length (contents q)) xs \<and> inv (fold push xs q)"
  using assms
proof (induction xs arbitrary: q)
  case Nil
  then show ?case by simp
next
  case (Cons x xs)
  show ?case
  proof (cases "length (contents q) < capacity")
    case True
    with Cons.prems have c: "contents (push x q) = contents q @ [x]" and i: "inv (push x q)"
      by (simp_all add: push_contents inv_push)
    have "capacity - length (contents q) = Suc (capacity - Suc (length (contents q)))"
      using True by simp
    with Cons.IH [OF i] c show ?thesis by simp
  next
    case False
    with Cons.prems have c: "contents (push x q) = contents q" and i: "inv (push x q)"
      by (simp_all add: push_contents inv_push)
    with Cons.IH [OF i] False show ?thesis by simp
  qed
qed

end

text \<open>The abstraction: the scancodes waiting between tail and head, oldest first.\<close>

definition kbd_ok :: "kbd \<Rightarrow> bool" where
  "kbd_ok k \<longleftrightarrow> length (kbd_buffer k) = KBD_BUF_SIZE \<and>
     kbd_head k < KBD_BUF_SIZE \<and> kbd_tail k < KBD_BUF_SIZE"

definition kbd_pending :: "kbd \<Rightarrow> u8 list" where
  "kbd_pending k =
     map (\<lambda>i. kbd_buffer k ! ((kbd_tail k + i) mod KBD_BUF_SIZE))
       [0..<(kbd_head k + KBD_BUF_SIZE - kbd_tail k) mod KBD_BUF_SIZE]"

text \<open>The three index computations of the ring, as case distinctions.\<close>

lemma ring_next: "h < 128 \<Longrightarrow> Suc h mod 128 = (if h = 127 then 0 else Suc h)"
  by simp

lemma ring_dist: "h < 128 \<Longrightarrow> t < 128 \<Longrightarrow>
    (h + 128 - t) mod 128 = (if t \<le> h then h - t else h + 128 - (t::nat))"
  by (auto simp: mod_if)

lemma ring_index: "t < 128 \<Longrightarrow> i < 128 \<Longrightarrow>
    (t + i) mod 128 = (if t + i < 128 then t + i else t + i - (128::nat))"
  by (simp add: mod_if)

lemmas ring_simps = ring_next ring_dist ring_index

lemma kbd_pending_head:
  assumes "h < 128" and "t < 128" and "(h + 1) mod 128 \<noteq> t"
  shows "((h + 1) mod 128 + 128 - t) mod 128 = Suc ((h + 128 - t) mod 128)"
    and "(t + (h + 128 - t) mod 128) mod 128 = (h :: nat)"
  using assms by (auto simp: ring_simps split: if_splits)

lemma kbd_pending_tail:
  assumes "h < 128" and "t < 128" and "h \<noteq> (t :: nat)"
  shows "(h + 128 - t) mod 128 = Suc ((h + 128 - (t + 1) mod 128) mod 128)"
  using assms by (auto simp: ring_simps split: if_splits)

lemma kbd_push_ok [kernel_inv]: "kbd_ok k \<Longrightarrow> kbd_ok (snd (kbd_push sc k))"
  by (simp add: kbd_ok_def kbd_push_def KBD_BUF_SIZE_def Let_def)

lemma kbd_poll_ok [kernel_inv]: "kbd_ok k \<Longrightarrow> keyboard_poll k = Some (sc, k') \<Longrightarrow> kbd_ok k'"
  by (auto simp: kbd_ok_def keyboard_poll_def KBD_BUF_SIZE_def split: if_splits)

lemma kbd_push_pending [kernel_abs]:
  assumes "kbd_ok k" and "(kbd_head k + 1) mod KBD_BUF_SIZE \<noteq> kbd_tail k"
  shows "kbd_pending (snd (kbd_push sc k)) = kbd_pending k @ [sc]"
proof -
  let ?h = "kbd_head k" and ?t = "kbd_tail k"
  have h: "?h < 128" "?t < 128" "length (kbd_buffer k) = 128" "(?h + 1) mod 128 \<noteq> ?t"
    using assms by (simp_all add: kbd_ok_def KBD_BUF_SIZE_def)
  let ?n = "(?h + 128 - ?t) mod 128"
  have other: "?h \<noteq> (?t + i) mod 128" if "i < ?n" for i
    using that h(1,2) by (auto simp: ring_simps split: if_splits)
  have "map (\<lambda>i. (kbd_buffer k)[?h := sc] ! ((?t + i) mod 128)) [0..<?n] =
        map (\<lambda>i. kbd_buffer k ! ((?t + i) mod 128)) [0..<?n]"
    using other by (intro map_cong refl nth_list_update_neq) auto
  then show ?thesis
    using h kbd_pending_head [OF h(1,2,4)]
    by (simp add: kbd_pending_def kbd_push_def KBD_BUF_SIZE_def Let_def)
qed

lemma kbd_full_iff:
  "kbd_ok k \<Longrightarrow> (kbd_head k + 1) mod KBD_BUF_SIZE = kbd_tail k \<longleftrightarrow> length (kbd_pending k) = 127"
  by (auto simp: kbd_ok_def kbd_pending_def KBD_BUF_SIZE_def ring_simps split: if_splits)

lemma kbd_pending_bound: "kbd_ok k \<Longrightarrow> length (kbd_pending k) \<le> 127"
  by (auto simp: kbd_ok_def kbd_pending_def KBD_BUF_SIZE_def ring_dist)

lemma kbd_poll_pending [kernel_abs]:
  assumes "kbd_ok k" and "keyboard_poll k = Some (sc, k')"
  shows "kbd_pending k = sc # kbd_pending k'"
proof -
  let ?h = "kbd_head k" and ?t = "kbd_tail k"
  have h: "?h < 128" "?t < 128" and ne: "?h \<noteq> ?t"
    and k': "k' = k\<lparr>kbd_tail := (?t + 1) mod 128\<rparr>" and sc: "sc = kbd_buffer k ! ?t"
    using assms by (auto simp: kbd_ok_def keyboard_poll_def KBD_BUF_SIZE_def split: if_splits)
  let ?n = "(?h + 128 - (?t + 1) mod 128) mod 128"
  have "map (\<lambda>i. kbd_buffer k ! ((?t + i) mod 128)) [0..<Suc ?n] =
        kbd_buffer k ! (?t mod 128) # map (\<lambda>i. kbd_buffer k ! ((?t + Suc i) mod 128)) [0..<?n]"
    by (simp add: upt_conv_Cons map_Suc_upt [symmetric] del: upt_Suc)
  moreover have "((?t + 1) mod 128 + i) mod 128 = (?t + Suc i) mod 128" for i
    by (simp add: mod_add_left_eq)
  ultimately show ?thesis
    using h kbd_pending_tail [OF h ne]
    by (simp add: kbd_pending_def KBD_BUF_SIZE_def k' sc)
qed

lemma kbd_poll_none_iff: "kbd_ok k \<Longrightarrow> keyboard_poll k = None \<longleftrightarrow> kbd_pending k = []"
  by (auto simp: kbd_ok_def keyboard_poll_def kbd_pending_def KBD_BUF_SIZE_def ring_dist)

interpretation kbdq: bounded_queue "\<lambda>sc k. snd (kbd_push sc k)" keyboard_poll kbd_pending kbd_ok 127
proof
  fix x and q :: kbd
  assume ok: "kbd_ok q"
  show "kbd_pending (snd (kbd_push x q)) =
      (if length (kbd_pending q) < 127 then kbd_pending q @ [x] else kbd_pending q)"
  proof (cases "(kbd_head q + 1) mod KBD_BUF_SIZE = kbd_tail q")
    case True
    with ok kbd_full_iff [OF ok] show ?thesis by (simp add: kbd_push_def Let_def)
  next
    case False
    with ok kbd_full_iff [OF ok] kbd_pending_bound [OF ok] show ?thesis
      by (simp add: kbd_push_pending)
  qed
qed (fact kbd_poll_none_iff kbd_poll_pending kbd_push_ok kbd_poll_ok kbd_pending_bound)+

section \<open>Interrupts\<close>

text \<open>The bytes of the interrupt handler that reach the queue: key presses that are no modifier.\<close>

definition is_key :: "u8 \<Rightarrow> bool" where
  "is_key sc \<longleftrightarrow> sc < 0x80 \<and> sc \<notin> {0x2A, 0x36, 0x3A}"

lemma keyboard_on_irq_key:
  "is_key sc \<Longrightarrow> keyboard_on_irq sc k = snd (kbd_push sc k)"
  by (auto simp: is_key_def keyboard_on_irq_def)

lemma keyboard_on_irq_ok [kernel_inv]: "kbd_ok k \<Longrightarrow> kbd_ok (keyboard_on_irq sc k)"
  unfolding keyboard_on_irq_def using kbd_push_ok [of k sc]
  by (auto simp: kbd_ok_def)

lemma kbd_pending_flags [simp]:
  "kbd_pending (k\<lparr>shift_pressed := b\<rparr>) = kbd_pending k"
  "kbd_pending (k\<lparr>caps_lock := b\<rparr>) = kbd_pending k"
  by (simp_all add: kbd_pending_def)

lemma keyboard_on_irq_not_key:
  assumes "\<not> is_key sc"
  shows "kbd_pending (keyboard_on_irq sc k) = kbd_pending k"
  using assms by (auto simp: is_key_def keyboard_on_irq_def)

lemma keyboard_on_irq_pending:
  assumes "kbd_ok k"
  shows "kbd_pending (keyboard_on_irq sc k) =
    (if is_key sc \<and> length (kbd_pending k) < 127 then kbd_pending k @ [sc] else kbd_pending k)"
  using kbdq.push_contents [OF assms, of sc]
  by (cases "is_key sc") (simp_all add: keyboard_on_irq_key keyboard_on_irq_not_key)

lemma keyboard_irqs_pending:
  assumes "kbd_ok k"
  shows "kbd_pending (fold keyboard_on_irq scs k) =
      kbd_pending k @ take (127 - length (kbd_pending k)) (filter is_key scs)
    \<and> kbd_ok (fold keyboard_on_irq scs k)"
  using assms
proof (induction scs arbitrary: k)
  case Nil
  then show ?case by simp
next
  case (Cons sc scs)
  let ?k = "keyboard_on_irq sc k"
  from Cons.prems have "kbd_ok ?k" by (rule keyboard_on_irq_ok)
  note IH = Cons.IH [OF this]
  show ?case
  proof (cases "is_key sc \<and> length (kbd_pending k) < 127")
    case True
    then have "127 - length (kbd_pending k) = Suc (126 - length (kbd_pending k))"
      by arith
    with True IH Cons.prems show ?thesis by (simp add: keyboard_on_irq_pending)
  next
    case False
    with IH Cons.prems show ?thesis by (auto simp: keyboard_on_irq_pending)
  qed
qed

lemma keyboard_on_irq_flags [kernel_frame]:
  "is_key sc \<Longrightarrow> shift_pressed (keyboard_on_irq sc k) = shift_pressed k"
  "is_key sc \<Longrightarrow> caps_lock (keyboard_on_irq sc k) = caps_lock k"
  by (simp_all add: keyboard_on_irq_key kbd_push_def Let_def)


definition kbd_boot :: kbd where
  "kbd_boot = \<lparr>kbd_buffer = replicate 128 0, kbd_head = 0, kbd_tail = 0,
     shift_pressed = False, caps_lock = False\<rparr>"

lemma kbd_boot_ok: "kbd_ok kbd_boot" and kbd_boot_pending: "kbd_pending kbd_boot = []"
  by (simp_all add: kbd_boot_def kbd_ok_def kbd_pending_def KBD_BUF_SIZE_def)


section \<open>Translation to characters\<close>

lemma scancode_normal_length: "length scancode_normal = 58"
  by (simp add: scancode_normal_def)

lemma unat_less_58_cases:
  assumes "unat (sc :: u8) < 58" and "\<And>n. n \<in> {..<58} \<Longrightarrow> P (word_of_nat n)"
  shows "P sc"
  using assms(1) assms(2) [of "unat sc"] by simp

text \<open>The scancodes of the 26 letter keys and of the ten digit keys.\<close>

definition letter_scancodes :: "u8 list" where
  "letter_scancodes = filter (\<lambda>sc. 0x61 \<le> scancode_normal ! unat sc \<and> scancode_normal ! unat sc \<le> 0x7A)
     (map word_of_nat [0..<58])"

definition digit_scancodes :: "u8 list" where
  "digit_scancodes = [2, 3, 4, 5, 6, 7, 8, 9, 10, 11]"

lemma letter_scancodes_eq:
  "letter_scancodes = [0x10, 0x11, 0x12, 0x13, 0x14, 0x15, 0x16, 0x17, 0x18, 0x19,
     0x1E, 0x1F, 0x20, 0x21, 0x22, 0x23, 0x24, 0x25, 0x26,
     0x2C, 0x2D, 0x2E, 0x2F, 0x30, 0x31, 0x32]"
  by (simp add: letter_scancodes_def scancode_normal_def upt_rec)

text \<open>
  The caps-lock state is applied twice, once in the argument of \<open>scancode_map\<close> and
  once inside it: on a letter key the two cancel, so caps lock never changes a letter,
  while on a digit key it acts like a held shift key.
\<close>

theorem caps_lock_cancels:
  assumes "sc \<in> set letter_scancodes" and "dg \<in> set digit_scancodes"
  shows "keyboard_scancode_to_ascii (k\<lparr>caps_lock := True\<rparr>) sc =
           keyboard_scancode_to_ascii (k\<lparr>caps_lock := False\<rparr>) sc
    \<and> keyboard_scancode_to_ascii (k\<lparr>caps_lock := True\<rparr>) dg =
           keyboard_scancode_to_ascii (k\<lparr>caps_lock := False, shift_pressed := \<not> shift_pressed k\<rparr>) dg"
proof
  show "keyboard_scancode_to_ascii (k\<lparr>caps_lock := True\<rparr>) sc =
           keyboard_scancode_to_ascii (k\<lparr>caps_lock := False\<rparr>) sc"
    using assms(1) unfolding letter_scancodes_eq
    by (cases "shift_pressed k")
      (auto simp: keyboard_scancode_to_ascii_def scancode_map_def Let_def
        scancode_normal_def scancode_shifted_def)
  show "keyboard_scancode_to_ascii (k\<lparr>caps_lock := True\<rparr>) dg =
           keyboard_scancode_to_ascii (k\<lparr>caps_lock := False, shift_pressed := \<not> shift_pressed k\<rparr>) dg"
    using assms(2) unfolding digit_scancodes_def
    by (cases "shift_pressed k")
      (auto simp: keyboard_scancode_to_ascii_def scancode_map_def Let_def
        scancode_normal_def scancode_shifted_def)
qed

theorem caps_lock_cancels_witness:
  "(0x1E :: u8) \<in> set letter_scancodes \<and> (2 :: u8) \<in> set digit_scancodes \<and>
   keyboard_scancode_to_ascii (kbd_boot\<lparr>caps_lock := True\<rparr>) 0x1E = 0x61 \<and>
   keyboard_scancode_to_ascii (kbd_boot\<lparr>caps_lock := True\<rparr>) 2 = 0x21"
  using caps_lock_cancels [of "0x1E" 2 kbd_boot]
  by (simp add: letter_scancodes_eq digit_scancodes_def kbd_boot_def keyboard_scancode_to_ascii_def
      scancode_map_def Let_def scancode_normal_def scancode_shifted_def)

end
