(* ===== verification/Mira_Input.thy ===== *)
theory Mira_Input
  imports Mira_Keyboard
begin

text \<open>
  The command-line input buffer, \<open>ui/input.c\<close>: \<open>input_poll\<close> drains the keyboard queue
  and edits a NUL-terminated line of at most 255 characters. It is shown to implement a
  line editor on lists, and to return whatever the queue holds.
\<close>

section \<open>State and operations\<close>

definition INPUT_MAX :: nat where "INPUT_MAX = 256"

record input_state =
  input_buf :: "u8 list"
  input_len :: nat
  input_changed :: bool

definition input_init :: "input_state \<Rightarrow> input_state" where
  "input_init s = s\<lparr>input_len := 0, input_buf := (input_buf s)[0 := 0], input_changed := False\<rparr>"

text \<open>
  One turn of the polling loop on the translated character: backspace, newline, a
  printable character (\<open>c >= 32\<close> on a signed \<open>char\<close>), anything else.
\<close>

definition input_key :: "u8 \<Rightarrow> input_state \<Rightarrow> input_state" where
  "input_key c s =
     (if c = 0x08 then
        (if input_len s > 0 then
           s\<lparr>input_len := input_len s - 1,
             input_buf := (input_buf s)[input_len s - 1 := 0],
             input_changed := True\<rparr>
         else s)
      else if c = 0x0A then
        s\<lparr>input_buf := ((input_buf s)[input_len s := 0])[0 := 0],
          input_len := 0,
          input_changed := True\<rparr>
      else if sint c \<ge> 32 \<and> input_len s < INPUT_MAX - 1 then
        s\<lparr>input_buf := ((input_buf s)[input_len s := c])[input_len s + 1 := 0],
          input_len := input_len s + 1,
          input_changed := True\<rparr>
      else s)"

partial_function (option) input_poll :: "kbd \<Rightarrow> input_state \<Rightarrow> (kbd \<times> input_state) option" where
  "input_poll k s =
     (case keyboard_poll k of
        None \<Rightarrow> Some (k, s)
      | Some (sc, k') \<Rightarrow> input_poll k' (input_key (keyboard_scancode_to_ascii k' sc) s))"

definition input_buffer :: "input_state \<Rightarrow> u8 list" where
  "input_buffer s = input_buf s"

definition input_length :: "input_state \<Rightarrow> nat" where
  "input_length s = input_len s"

definition input_clear :: "input_state \<Rightarrow> input_state" where
  "input_clear s = s\<lparr>input_len := 0, input_buf := (input_buf s)[0 := 0], input_changed := True\<rparr>"

definition input_dirty :: "input_state \<Rightarrow> bool" where
  "input_dirty s = input_changed s"

definition input_clear_dirty :: "input_state \<Rightarrow> input_state" where
  "input_clear_dirty s = s\<lparr>input_changed := False\<rparr>"

section \<open>The abstract line editor\<close>

definition edit_line :: "u8 list \<Rightarrow> u8 \<Rightarrow> u8 list" where
  "edit_line l c =
     (if c = 0x08 then butlast l
      else if c = 0x0A then []
      else if sint c \<ge> 32 \<and> length l < 255 then l @ [c]
      else l)"

definition input_ok :: "input_state \<Rightarrow> bool" where
  "input_ok s \<longleftrightarrow> length (input_buf s) = INPUT_MAX \<and> input_len s < INPUT_MAX \<and>
     input_buf s ! input_len s = 0"

definition input_line :: "input_state \<Rightarrow> u8 list" where
  "input_line s = take (input_len s) (input_buf s)"

lemma input_line_length: "input_ok s \<Longrightarrow> length (input_line s) = input_len s"
  by (simp add: input_ok_def input_line_def)

lemma input_key_ok [kernel_inv]: "input_ok s \<Longrightarrow> input_ok (input_key c s)"
  by (auto simp: input_ok_def input_key_def INPUT_MAX_def nth_list_update)

lemma input_key_line [kernel_abs]:
  assumes "input_ok s"
  shows "input_line (input_key c s) = edit_line (input_line s) c"
proof -
  have len: "length (input_buf s) = 256" "input_len s < 256"
    using assms by (simp_all add: input_ok_def INPUT_MAX_def)
  have "take (input_len s - 1) (input_buf s) = butlast (take (input_len s) (input_buf s))"
    using len by (simp add: butlast_take)
  with len show ?thesis
    by (auto simp: input_line_def input_key_def edit_line_def INPUT_MAX_def take_Suc_update)
qed

lemma poll_keeps_modifiers:
  "keyboard_poll k = Some (sc, k') \<Longrightarrow>
     keyboard_scancode_to_ascii k' = keyboard_scancode_to_ascii k"
  by (auto simp: keyboard_poll_def keyboard_scancode_to_ascii_def scancode_map_def fun_eq_iff
      split: if_splits)

lemma input_poll_drains:
  assumes "kbd_ok k" and "input_ok s"
  shows "\<exists>k' s'. input_poll k s = Some (k', s') \<and> kbd_ok k' \<and> input_ok s' \<and> kbd_pending k' = [] \<and>
    input_line s' = foldl edit_line (input_line s) (map (keyboard_scancode_to_ascii k) (kbd_pending k))"
  using assms
proof (induction "kbd_pending k" arbitrary: k s)
  case Nil
  then have "keyboard_poll k = None" by (simp add: kbd_poll_none_iff)
  with Nil show ?case by (simp add: input_poll.simps)
next
  case (Cons sc scs)
  then obtain k1 where p: "keyboard_poll k = Some (sc, k1)" and k1: "kbd_pending k1 = scs" "kbd_ok k1"
    using kbdq.poll_Cons by metis
  let ?s = "input_key (keyboard_scancode_to_ascii k1 sc) s"
  have "input_ok ?s" using Cons.prems by (simp add: input_key_ok)
  from Cons.hyps(1) [OF k1(1) [symmetric] k1(2) this]
  obtain k' s' where r: "input_poll k1 ?s = Some (k', s')" "kbd_ok k'" "input_ok s'" "kbd_pending k' = []"
    "input_line s' = foldl edit_line (input_line ?s) (map (keyboard_scancode_to_ascii k1) scs)"
    using k1(1) by blast
  have "input_poll k s = Some (k', s')"
    using p r(1) by (simp add: input_poll.simps [of k s])
  moreover have "input_line s' =
      foldl edit_line (input_line s) (map (keyboard_scancode_to_ascii k) (kbd_pending k))"
    using r(5) Cons.prems poll_keeps_modifiers [OF p]
    by (simp add: input_key_line Cons.hyps(2) [symmetric])
  ultimately show ?case using r by blast
qed

text \<open>
  C19. The polling loop always returns: it empties the scancode queue and leaves the line
  that the abstract editor produces from the queued keys, in order, with the buffer
  NUL-terminated inside its 256 bytes.
\<close>

theorem input_poll_edits:
  assumes "kbd_ok k" and "input_ok s"
  shows "\<exists>k' s'. input_poll k s = Some (k', s') \<and> kbd_pending k' = [] \<and> input_ok s' \<and>
    input_line s' = foldl edit_line (input_line s) (map (keyboard_scancode_to_ascii k) (kbd_pending k))"
  using input_poll_drains [OF assms] by blast

definition input_boot :: input_state where
  "input_boot = \<lparr>input_buf = replicate 256 0, input_len = 0, input_changed = False\<rparr>"

lemma input_boot_ok: "input_ok input_boot"
  by (simp add: input_boot_def input_ok_def INPUT_MAX_def)

theorem input_poll_edits_witness:
  "kbd_ok (fold keyboard_on_irq [0x23, 0x17, 0x0E] kbd_boot) \<and> input_ok input_boot \<and>
   (\<exists>k' s'. input_poll (fold keyboard_on_irq [0x23, 0x17, 0x0E] kbd_boot) input_boot = Some (k', s') \<and>
      input_line s' = [0x68])"
proof -
  define k where "k = fold keyboard_on_irq [0x23, 0x17, 0x0E] kbd_boot"
  have keys: "is_key 0x23" "is_key 0x17" "is_key 0x0E" by (simp_all add: is_key_def)
  have ok: "kbd_ok k" and pend: "kbd_pending k = [0x23, 0x17, 0x0E]"
    using keyboard_irqs_pending [OF kbd_boot_ok, of "[0x23, 0x17, 0x0E]"] keys
    by (simp_all add: k_def kbd_boot_pending)
  have flags: "\<not> shift_pressed k" "\<not> caps_lock k"
    using keys by (simp_all add: k_def kernel_frame) (simp_all add: kbd_boot_def)
  have asc: "keyboard_scancode_to_ascii k 0x23 = 0x68" "keyboard_scancode_to_ascii k 0x17 = 0x69"
    "keyboard_scancode_to_ascii k 0x0E = 0x08"
    using flags
    by (simp_all add: keyboard_scancode_to_ascii_def scancode_map_def Let_def scancode_normal_def)
  have "input_line input_boot = []" by (simp add: input_boot_def input_line_def)
  then show ?thesis
    using input_poll_edits [OF ok input_boot_ok] ok input_boot_ok
    unfolding pend k_def [symmetric] by (auto simp: asc edit_line_def)
qed

end
