(* ===== verification/Mira_Pmm.thy ===== *)
theory Mira_Pmm
  imports Mira_Prelude
begin

text \<open>
  The physical page allocator, \<open>kernel/mem.c\<close>: one bit per 4096-byte page, set for a
  page in use, initialised from the Multiboot memory map. The allocator hands out the
  lowest free page of the range it scans; the interface the rest of the kernel relies on
  is the locale \<open>page_allocator\<close>, interpreted on the bitmap operations.
\<close>

section \<open>State and bitmap operations\<close>

definition MAX_PHYS_PAGES :: nat where "MAX_PHYS_PAGES = 131072"
definition BITMAP_SIZE :: nat where "BITMAP_SIZE = (MAX_PHYS_PAGES + 7) div 8"

record pmm =
  page_bitmap :: "u8 list"
  total_pages :: u64
  free_pages :: u64
  mem_start :: u64
  mem_end :: u64

definition bit_mask :: "u64 \<Rightarrow> u8" where
  "bit_mask page = push_bit (unat (page mod 8)) 1"

text \<open>
  The array has \<open>BITMAP_SIZE\<close> bytes; the code does not check the index, so an access
  past it is the fault \<open>OutOfBounds\<close>.
\<close>

definition bitmap_set :: "u64 \<Rightarrow> pmm \<Rightarrow> pmm res" where
  "bitmap_set page st =
     (let i = unat (page div 8)
      in if i < length (page_bitmap st)
         then Inr (st\<lparr>page_bitmap := (page_bitmap st)[i := page_bitmap st ! i OR bit_mask page]\<rparr>)
         else Inl OutOfBounds)"

definition bitmap_clear :: "u64 \<Rightarrow> pmm \<Rightarrow> pmm res" where
  "bitmap_clear page st =
     (let i = unat (page div 8)
      in if i < length (page_bitmap st)
         then Inr (st\<lparr>page_bitmap := (page_bitmap st)[i := page_bitmap st ! i AND NOT (bit_mask page)]\<rparr>)
         else Inl OutOfBounds)"

definition bitmap_test :: "u64 \<Rightarrow> pmm \<Rightarrow> bool res" where
  "bitmap_test page st =
     (let i = unat (page div 8)
      in if i < length (page_bitmap st)
         then Inr (page_bitmap st ! i AND bit_mask page \<noteq> 0)
         else Inl OutOfBounds)"

section \<open>Initialisation\<close>

definition reserve_region :: "u64 \<Rightarrow> u64 \<Rightarrow> pmm \<Rightarrow> pmm res" where
  "reserve_region base len st =
     (let start_page = base div 4096; end_page = (base + len + 4095) div 4096
      in for_up start_page end_page bitmap_set st)"

text \<open>
  The Multiboot information is read from memory. \<open>tag->size\<close> is a \<open>uint32_t\<close>, so the
  rounding in \<open>mbi_next\<close> is done in 32 bits. A zero tag size or a zero entry size makes
  the loops of the source run forever: the walks carry fuel, and running out of it is the
  fault \<open>Diverges\<close>.
\<close>

definition tag_type :: "mem \<Rightarrow> addr \<Rightarrow> u32" where "tag_type m tag = rd32 m tag"
definition tag_size :: "mem \<Rightarrow> addr \<Rightarrow> u32" where "tag_size m tag = rd32 m (tag + 4)"

definition mbi_next :: "mem \<Rightarrow> addr \<Rightarrow> addr" where
  "mbi_next m tag = tag + ucast ((tag_size m tag + 7) AND NOT 7)"

text \<open>One usable region of the memory map: raise \<open>mem_end\<close>, clear and count its pages.\<close>

definition free_one_page :: "u64 \<Rightarrow> pmm \<Rightarrow> pmm res" where
  "free_one_page p st =
     bindR (bitmap_clear p st)
       (\<lambda>st'. Inr (st'\<lparr>total_pages := total_pages st' + 1, free_pages := free_pages st' + 1\<rparr>))"

definition add_region :: "u64 \<Rightarrow> u64 \<Rightarrow> pmm \<Rightarrow> pmm res" where
  "add_region base region_end st =
     (let st' = (if region_end > mem_end st then st\<lparr>mem_end := region_end\<rparr> else st)
      in for_up (base div 4096) (region_end div 4096) free_one_page st')"

definition mmap_entry :: "mem \<Rightarrow> addr \<Rightarrow> pmm \<Rightarrow> pmm res" where
  "mmap_entry m e st =
     (if rd32 m (e + 16) \<noteq> 1 then Inr st
      else add_region (rd64 m e) (rd64 m e + rd64 m (e + 8)) st)"

fun mmap_entries :: "nat \<Rightarrow> mem \<Rightarrow> addr \<Rightarrow> addr \<Rightarrow> pmm \<Rightarrow> pmm res" where
  "mmap_entries 0 m tag e st = Inl Diverges"
| "mmap_entries (Suc fuel) m tag e st =
     (if e < tag + ucast (tag_size m tag)
      then bindR (mmap_entry m e st)
             (mmap_entries fuel m tag (e + ucast (rd32 m (tag + 8))))
      else Inr st)"

fun pmm_tags :: "nat \<Rightarrow> mem \<Rightarrow> addr \<Rightarrow> pmm \<Rightarrow> pmm res" where
  "pmm_tags 0 m tag st = Inl Diverges"
| "pmm_tags (Suc fuel) m tag st =
     (if tag_type m tag = 0 then Inr st
      else bindR (if tag_type m tag = 6 then mmap_entries fuel m tag (tag + 16) st else Inr st)
             (pmm_tags fuel m (mbi_next m tag)))"

text \<open>\<open>bitmap_addr\<close> is the link-time address of the bitmap array itself.\<close>

definition pmm_init :: "nat \<Rightarrow> mem \<Rightarrow> addr \<Rightarrow> addr \<Rightarrow> pmm \<Rightarrow> pmm res" where
  "pmm_init fuel m bitmap_addr mbi st =
     (let st0 = st\<lparr>page_bitmap := replicate BITMAP_SIZE 0xFF, total_pages := 0, free_pages := 0,
                   mem_start := 0x100000, mem_end := 0\<rparr>
      in bindR (pmm_tags fuel m (mbi + 8) st0)
           (\<lambda>st1. bindR (reserve_region 0 0x100000 st1)
             (reserve_region bitmap_addr (word_of_nat BITMAP_SIZE))))"

section \<open>Allocation\<close>

function pmm_scan :: "u64 \<Rightarrow> u64 \<Rightarrow> pmm \<Rightarrow> (u64 \<times> pmm) res" where
  "pmm_scan p end_page st =
     (if p < end_page
      then bindR (bitmap_test p st) (\<lambda>used.
             if used then pmm_scan (p + 1) end_page st
             else bindR (bitmap_set p st) (\<lambda>st'.
                    Inr (p * 4096, st'\<lparr>free_pages := free_pages st' - 1\<rparr>)))
      else Inr (0, st))"
  by pat_completeness auto
termination
  by (relation "measure (\<lambda>(p, e, st). unat e - unat p)")
    (auto simp: unat_plus_one word_less_nat_alt)

declare pmm_scan.simps [simp del]

definition pmm_alloc_page :: "pmm \<Rightarrow> (u64 \<times> pmm) res" where
  "pmm_alloc_page st = pmm_scan (mem_start st div 4096) (mem_end st div 4096) st"

definition pmm_free_page :: "u64 \<Rightarrow> pmm \<Rightarrow> pmm res" where
  "pmm_free_page page st =
     (let p = page div 4096
      in bindR (bitmap_test p st) (\<lambda>used.
           if \<not> used then Inr st
           else bindR (bitmap_clear p st) (\<lambda>st'.
                  Inr (st'\<lparr>free_pages := free_pages st' + 1\<rparr>))))"

definition pmm_total_pages :: "pmm \<Rightarrow> u64" where "pmm_total_pages st = total_pages st"
definition pmm_free_count :: "pmm \<Rightarrow> u64" where "pmm_free_count st = free_pages st"

section \<open>The bitmap as a set of pages\<close>

text \<open>A page number the bitmap covers, and the free ones among them.\<close>

definition page_ok :: "u64 \<Rightarrow> bool" where "page_ok p \<longleftrightarrow> unat p < MAX_PHYS_PAGES"

definition bitmap_ok :: "pmm \<Rightarrow> bool" where
  "bitmap_ok st \<longleftrightarrow> length (page_bitmap st) = BITMAP_SIZE"

definition page_used :: "pmm \<Rightarrow> u64 \<Rightarrow> bool" where
  "page_used st p = bit (page_bitmap st ! unat (p div 8)) (unat (p mod 8))"

lemma bit_mask_eq: "bit_mask p = 2 ^ unat (p mod 8)"
  by (simp add: bit_mask_def)

lemma page_index:
  assumes "page_ok p"
  shows "unat (p div 8) < BITMAP_SIZE"
  using assms by (simp add: page_ok_def MAX_PHYS_PAGES_def BITMAP_SIZE_def unat_div)

lemma bit_index_less_8: "unat (p mod 8 :: u64) < 8"
  by (simp add: unat_mod)

lemma page_eq_iff: "(p :: u64) = q \<longleftrightarrow> unat (p div 8) = unat (q div 8) \<and> unat (p mod 8) = unat (q mod 8)"
proof
  assume h: "unat (p div 8) = unat (q div 8) \<and> unat (p mod 8) = unat (q mod 8)"
  have "unat p = unat q"
    using h by (metis div_mult_mod_eq unat_div unat_mod)
  then show "p = q" by (simp add: word_unat_eq_iff)
qed simp

lemma bitmap_test_used: "bitmap_ok st \<Longrightarrow> page_ok p \<Longrightarrow> bitmap_test p st = Inr (page_used st p)"
  using page_index [of p]
  by (simp add: bitmap_test_def bitmap_ok_def page_used_def bit_mask_eq and_exp_eq_0_iff_not_bit Let_def)

lemma bitmap_set_spec:
  assumes "bitmap_ok st" and "page_ok p"
  shows "\<exists>bm. bitmap_set p st = Inr (st\<lparr>page_bitmap := bm\<rparr>) \<and> length bm = BITMAP_SIZE \<and>
    (\<forall>q. page_ok q \<longrightarrow> page_used (st\<lparr>page_bitmap := bm\<rparr>) q = (q = p \<or> page_used st q))"
proof -
  let ?i = "unat (p div 8)"
  let ?bm = "(page_bitmap st)[?i := page_bitmap st ! ?i OR bit_mask p]"
  have i: "?i < length (page_bitmap st)"
    using assms page_index by (simp add: bitmap_ok_def)
  have "page_used (st\<lparr>page_bitmap := ?bm\<rparr>) q = (q = p \<or> page_used st q)" for q
    using i bit_index_less_8 [of q]
    by (auto simp: page_used_def nth_list_update bit_or_iff bit_mask_eq bit_exp_iff page_eq_iff [of q p])
  with i assms show ?thesis
    by (intro exI [of _ ?bm]) (simp add: bitmap_set_def Let_def bitmap_ok_def)
qed

lemma bitmap_clear_spec:
  assumes "bitmap_ok st" and "page_ok p"
  shows "\<exists>bm. bitmap_clear p st = Inr (st\<lparr>page_bitmap := bm\<rparr>) \<and> length bm = BITMAP_SIZE \<and>
    (\<forall>q. page_ok q \<longrightarrow> page_used (st\<lparr>page_bitmap := bm\<rparr>) q = (q \<noteq> p \<and> page_used st q))"
proof -
  let ?i = "unat (p div 8)"
  let ?bm = "(page_bitmap st)[?i := page_bitmap st ! ?i AND NOT (bit_mask p)]"
  have i: "?i < length (page_bitmap st)"
    using assms page_index by (simp add: bitmap_ok_def)
  have "page_used (st\<lparr>page_bitmap := ?bm\<rparr>) q = (q \<noteq> p \<and> page_used st q)" for q
    using i bit_index_less_8 [of q]
    by (auto simp: page_used_def nth_list_update bit_and_iff bit_not_iff bit_mask_eq bit_exp_iff page_eq_iff [of q p])
  with i assms show ?thesis
    by (intro exI [of _ ?bm]) (simp add: bitmap_clear_def Let_def bitmap_ok_def)
qed

lemma bitmap_fault: "bitmap_ok st \<Longrightarrow> \<not> page_ok p \<Longrightarrow>
    bitmap_set p st = Inl OutOfBounds \<and> bitmap_clear p st = Inl OutOfBounds \<and>
    bitmap_test p st = Inl OutOfBounds"
  by (simp add: bitmap_set_def bitmap_clear_def bitmap_test_def bitmap_ok_def page_ok_def
      MAX_PHYS_PAGES_def BITMAP_SIZE_def unat_div Let_def)

section \<open>The allocator\<close>

text \<open>A sequence of \<open>n\<close> allocations, with the addresses they return.\<close>

fun alloc_run :: "('s \<Rightarrow> (u64 \<times> 's) res) \<Rightarrow> nat \<Rightarrow> 's \<Rightarrow> (u64 list \<times> 's) res" where
  "alloc_run alloc 0 s = Inr ([], s)"
| "alloc_run alloc (Suc n) s =
     bindR (alloc s) (\<lambda>(a, s1). bindR (alloc_run alloc n s1) (\<lambda>(as, s2). Inr (a # as, s2)))"

text \<open>
  The contract of a page allocator as its clients use it: every call returns, either with
  a page that was available and is not any more, or with 0 when none was.
\<close>

locale page_allocator =
  fixes alloc :: "'s \<Rightarrow> (u64 \<times> 's) res"
    and avail :: "'s \<Rightarrow> u64 set"
    and inv :: "'s \<Rightarrow> bool"
  assumes alloc_none: "inv s \<Longrightarrow> avail s = {} \<Longrightarrow> alloc s = Inr (0, s)"
    and alloc_some: "inv s \<Longrightarrow> avail s \<noteq> {} \<Longrightarrow>
        \<exists>a s'. alloc s = Inr (a, s') \<and> a \<in> avail s \<and> avail s' = avail s - {a} \<and> inv s'"
    and avail_nonzero: "inv s \<Longrightarrow> 0 \<notin> avail s"
    and avail_aligned: "inv s \<Longrightarrow> a \<in> avail s \<Longrightarrow> a mod 4096 = 0"
    and avail_finite: "inv s \<Longrightarrow> finite (avail s)"
begin

lemma alloc_total: "inv s \<Longrightarrow> \<exists>a s'. alloc s = Inr (a, s') \<and> inv s'"
  using alloc_none alloc_some by blast

lemma alloc_result:
  assumes "inv s" and "alloc s = Inr (a, s')" and "a \<noteq> 0"
  shows "a \<in> avail s" and "avail s' = avail s - {a}" and "inv s'" and "card (avail s') < card (avail s)"
proof -
  have ne: "avail s \<noteq> {}" using assms alloc_none by fastforce
  with assms show a: "a \<in> avail s" "avail s' = avail s - {a}" "inv s'"
    using alloc_some by fastforce+
  then show "card (avail s') < card (avail s)"
    using assms(1) avail_finite by (metis card_Diff1_less)
qed

lemma alloc_zero: "inv s \<Longrightarrow> alloc s = Inr (0, s') \<Longrightarrow> avail s = {} \<and> s' = s"
  using alloc_none alloc_some avail_nonzero by fastforce

lemma alloc_run_distinct:
  assumes "inv s" and "n \<le> card (avail s)"
  shows "\<exists>as s'. alloc_run alloc n s = Inr (as, s') \<and> length as = n \<and> distinct as \<and>
    set as \<subseteq> avail s \<and> avail s' = avail s - set as \<and> inv s'"
  using assms
proof (induction n arbitrary: s)
  case 0
  then show ?case by simp
next
  case (Suc n)
  then have "avail s \<noteq> {}" by auto
  with Suc.prems obtain a s1 where s1: "alloc s = Inr (a, s1)" "a \<in> avail s" "avail s1 = avail s - {a}" "inv s1"
    using alloc_some by blast
  have "n \<le> card (avail s1)"
    using Suc.prems s1 avail_finite by (simp add: card_Diff_singleton)
  from Suc.IH [OF s1(4) this] s1 show ?case by fastforce
qed

end

definition pmm_ok :: "pmm \<Rightarrow> bool" where
  "pmm_ok st \<longleftrightarrow> bitmap_ok st \<and> mem_start st = 0x100000 \<and> unat (mem_end st) \<le> MAX_PHYS_PAGES * 4096"

text \<open>The page addresses the allocator can still hand out.\<close>

definition pmm_avail :: "pmm \<Rightarrow> u64 set" where
  "pmm_avail st = {p * 4096 | p. mem_start st div 4096 \<le> p \<and> p < mem_end st div 4096 \<and> \<not> page_used st p}"

lemma page_ok_scan: "pmm_ok st \<Longrightarrow> p < mem_end st div 4096 \<Longrightarrow> page_ok p"
  by (auto simp: pmm_ok_def page_ok_def word_less_nat_alt unat_div MAX_PHYS_PAGES_def)

lemma unat_page_addr: "page_ok p \<Longrightarrow> unat (p * 4096) = unat p * 4096"
  by (simp add: page_ok_def MAX_PHYS_PAGES_def unat_word_ariths)

lemma page_addr_inj: "page_ok p \<Longrightarrow> page_ok q \<Longrightarrow> p * 4096 = q * 4096 \<longleftrightarrow> p = q"
  by (metis unat_page_addr mult_cancel2 word_unat_eq_iff zero_neq_numeral)

lemma page_addr_div: "page_ok p \<Longrightarrow> p * 4096 div 4096 = p"
  by (simp add: word_unat_eq_iff unat_div unat_page_addr)

lemma pmm_scan_spec:
  assumes "pmm_ok st" and "e = mem_end st div 4096" and "p \<le> e"
  shows "(\<forall>q. p \<le> q \<and> q < e \<longrightarrow> page_used st q) \<and> pmm_scan p e st = Inr (0, st) \<or>
    (\<exists>q bm. p \<le> q \<and> q < e \<and> \<not> page_used st q \<and> (\<forall>r. p \<le> r \<and> r < q \<longrightarrow> page_used st r) \<and>
       pmm_scan p e st = Inr (q * 4096, st\<lparr>page_bitmap := bm, free_pages := free_pages st - 1\<rparr>) \<and>
       length bm = BITMAP_SIZE \<and>
       (\<forall>r. page_ok r \<longrightarrow> page_used (st\<lparr>page_bitmap := bm\<rparr>) r = (r = q \<or> page_used st r)))"
  using assms
proof (induction p e st rule: pmm_scan.induct)
  case (1 p e st)
  show ?case
  proof (cases "p < e")
    case False
    then have "pmm_scan p e st = Inr (0, st)" by (subst pmm_scan.simps) simp
    with False show ?thesis by (auto simp: not_less)
  next
    case True
    have ok: "bitmap_ok st" "page_ok p"
      using "1.prems" True page_ok_scan by (auto simp: pmm_ok_def)
    show ?thesis
    proof (cases "page_used st p")
      case False
      obtain bm where bm: "bitmap_set p st = Inr (st\<lparr>page_bitmap := bm\<rparr>)" "length bm = BITMAP_SIZE"
        "\<forall>q. page_ok q \<longrightarrow> page_used (st\<lparr>page_bitmap := bm\<rparr>) q = (q = p \<or> page_used st q)"
        using bitmap_set_spec [OF ok] by blast
      have "pmm_scan p e st = Inr (p * 4096, st\<lparr>page_bitmap := bm, free_pages := free_pages st - 1\<rparr>)"
        using True False bm ok by (simp add: pmm_scan.simps [of p] bitmap_test_used)
      with True False bm show ?thesis by (intro disjI2 exI [of _ p] exI [of _ bm]) auto
    next
      case used: True
      have le: "p + 1 \<le> e" and nx: "\<And>q. p \<le> q \<longleftrightarrow> q = p \<or> p + 1 \<le> q"
        using unat_plus_one [OF True] True
        by (auto simp: word_le_nat_alt word_less_nat_alt word_unat_eq_iff)
      have eq: "pmm_scan p e st = pmm_scan (p + 1) e st"
        using True used ok by (simp add: pmm_scan.simps [of p] bitmap_test_used)
      have test: "bitmap_test p st = Inr True" using ok used by (simp add: bitmap_test_used)
      have skip: "(\<forall>q. p \<le> q \<and> C q \<longrightarrow> page_used st q) = (\<forall>q. p + 1 \<le> q \<and> C q \<longrightarrow> page_used st q)" for C
        using used nx by metis
      have up: "p + 1 \<le> q \<Longrightarrow> p \<le> q" for q using nx by blast
      from "1.IH" [OF True test TrueI "1.prems"(1,2) le] show ?thesis
        unfolding eq skip using up by blast
    qed
  qed
qed

lemma pmm_alloc_page_cases:
  assumes "pmm_ok st"
  obtains (full) "pmm_alloc_page st = Inr (0, st)"
      "\<forall>q. 256 \<le> q \<and> q < mem_end st div 4096 \<longrightarrow> page_used st q"
    | (page) q bm where "256 \<le> q" "q < mem_end st div 4096" "\<not> page_used st q"
      "\<forall>r. 256 \<le> r \<and> r < q \<longrightarrow> page_used st r"
      "pmm_alloc_page st = Inr (q * 4096, st\<lparr>page_bitmap := bm, free_pages := free_pages st - 1\<rparr>)"
      "length bm = BITMAP_SIZE"
      "\<forall>r. page_ok r \<longrightarrow> page_used (st\<lparr>page_bitmap := bm\<rparr>) r = (r = q \<or> page_used st r)"
proof (cases "256 \<le> mem_end st div 4096")
  case True
  have ms: "mem_start st div 4096 = 256" using assms by (simp add: pmm_ok_def)
  have al: "pmm_alloc_page st = pmm_scan 256 (mem_end st div 4096) st"
    by (simp add: pmm_alloc_page_def ms)
  from pmm_scan_spec [OF assms refl True] show thesis
    unfolding al [symmetric] by (elim disjE exE conjE) (erule (1) full, erule (6) page)
next
  case False
  have ms: "mem_start st div 4096 = 256" using assms by (simp add: pmm_ok_def)
  have n: "\<not> 256 < mem_end st div 4096" using False by simp
  have "pmm_alloc_page st = Inr (0, st)"
    unfolding pmm_alloc_page_def ms using n by (subst pmm_scan.simps) (simp only: if_False)
  moreover from False have "\<forall>q. 256 \<le> q \<and> q < mem_end st div 4096 \<longrightarrow> page_used st q"
    by (meson le_less_trans less_imp_le)
  ultimately show thesis by (rule full)
qed

lemma pmm_ok_bitmap_update:
  "pmm_ok st \<Longrightarrow> length bm = BITMAP_SIZE \<Longrightarrow> pmm_ok (st\<lparr>page_bitmap := bm, free_pages := n\<rparr>)"
  by (simp add: pmm_ok_def bitmap_ok_def)

lemma page_used_counter [simp]: "page_used (st\<lparr>free_pages := n\<rparr>) = page_used st"
  by (simp add: page_used_def fun_eq_iff)

lemma pmm_avail_eq:
  "pmm_ok st \<Longrightarrow> pmm_avail st = (\<lambda>p. p * 4096) ` {p. 256 \<le> p \<and> p < mem_end st div 4096 \<and> \<not> page_used st p}"
  by (auto simp: pmm_avail_def pmm_ok_def)

lemma pmm_avail_page_ok: "pmm_ok st \<Longrightarrow> a \<in> pmm_avail st \<Longrightarrow>
    \<exists>p. a = p * 4096 \<and> page_ok p \<and> 256 \<le> p \<and> p < mem_end st div 4096 \<and> \<not> page_used st p"
  using page_ok_scan by (fastforce simp: pmm_avail_eq)

lemma pmm_alloc_avail:
  assumes ok: "pmm_ok st" and q: "256 \<le> q" "q < mem_end st div 4096" "length bm = BITMAP_SIZE"
    and upd: "\<forall>r. page_ok r \<longrightarrow> page_used (st\<lparr>page_bitmap := bm\<rparr>) r = (r = q \<or> page_used st r)"
  shows "pmm_avail (st\<lparr>page_bitmap := bm, free_pages := n\<rparr>) = pmm_avail st - {q * 4096}"
proof -
  let ?st = "st\<lparr>page_bitmap := bm, free_pages := n\<rparr>"
  have ok': "pmm_ok ?st" using ok q by (simp add: pmm_ok_bitmap_update)
  have same: "page_used ?st = page_used (st\<lparr>page_bitmap := bm\<rparr>)"
    by (simp add: page_used_def fun_eq_iff)
  have "{p. 256 \<le> p \<and> p < mem_end st div 4096 \<and> \<not> page_used ?st p} =
        {p. 256 \<le> p \<and> p < mem_end st div 4096 \<and> \<not> page_used st p} - {q}"
    using upd page_ok_scan [OF ok] unfolding same by auto
  moreover have "inj_on (\<lambda>p. p * 4096) {p. p < mem_end st div 4096}"
    using page_ok_scan [OF ok] page_addr_inj by (auto intro!: inj_onI)
  then have "(\<lambda>p. p * 4096) ` ({p. 256 \<le> p \<and> p < mem_end st div 4096 \<and> \<not> page_used st p} - {q}) =
      (\<lambda>p. p * 4096) ` {p. 256 \<le> p \<and> p < mem_end st div 4096 \<and> \<not> page_used st p} - {q * 4096}"
    using q(2) by (subst inj_on_image_set_diff) auto
  ultimately show ?thesis
    by (simp add: pmm_avail_eq [OF ok'] pmm_avail_eq [OF ok])
qed

interpretation pmmi: page_allocator pmm_alloc_page pmm_avail pmm_ok
proof
  fix st :: pmm
  assume ok: "pmm_ok st"
  show "finite (pmm_avail st)"
    using ok by (simp add: pmm_avail_eq)
  show "0 \<notin> pmm_avail st"
  proof
    assume "0 \<in> pmm_avail st"
    then obtain p where "page_ok p" "256 \<le> p" "unat (p * 4096) = 0"
      using pmm_avail_page_ok [OF ok] by fastforce
    then show False by (simp add: unat_page_addr word_le_nat_alt)
  qed
  show "a mod 4096 = 0" if "a \<in> pmm_avail st" for a
    using pmm_avail_page_ok [OF ok that] unat_page_addr
    by (auto simp: word_unat_eq_iff unat_mod)
  show "pmm_alloc_page st = Inr (0, st)" if "pmm_avail st = {}"
    using ok
  proof (cases rule: pmm_alloc_page_cases)
    case (page q bm)
    with that show ?thesis by (auto simp: pmm_avail_eq [OF ok])
  qed
  show "\<exists>a s'. pmm_alloc_page st = Inr (a, s') \<and> a \<in> pmm_avail st \<and>
      pmm_avail s' = pmm_avail st - {a} \<and> pmm_ok s'" if "pmm_avail st \<noteq> {}"
    using ok
  proof (cases rule: pmm_alloc_page_cases)
    case full
    with that show ?thesis by (auto simp: pmm_avail_eq [OF ok])
  next
    case (page q bm)
    moreover from page have "q * 4096 \<in> pmm_avail st" by (auto simp: pmm_avail_eq [OF ok])
    ultimately show ?thesis
      using pmm_alloc_avail [OF ok page(1,2,6,7)] ok by (simp add: pmm_ok_bitmap_update)
  qed
qed

section \<open>Freeing\<close>

lemma bitmap_ext:
  assumes "length bm = BITMAP_SIZE" and "length bm' = BITMAP_SIZE"
    and "\<And>p. page_ok p \<Longrightarrow> page_used (st\<lparr>page_bitmap := bm\<rparr>) p = page_used (st\<lparr>page_bitmap := bm'\<rparr>) p"
  shows "bm = bm'"
proof (rule nth_equalityI)
  show "length bm = length bm'" using assms by simp
next
  fix i assume i: "i < length bm"
  show "bm ! i = bm' ! i"
  proof (rule bit_eqI)
    fix j assume "possible_bit TYPE(u8) j"
    then have j: "j < 8" by simp
    define p :: u64 where "p = word_of_nat (8 * i + j)"
    have "unat p = 8 * i + j"
      unfolding p_def unat_of_nat
      using i j assms(1) by (simp add: BITMAP_SIZE_def MAX_PHYS_PAGES_def)
    then have "unat (p div 8) = i" "unat (p mod 8) = j" "page_ok p"
      using i j assms(1) by (simp_all add: unat_div unat_mod page_ok_def BITMAP_SIZE_def MAX_PHYS_PAGES_def)
    with assms(3) [of p] show "bit (bm ! i) j = bit (bm' ! i) j"
      by (simp add: page_used_def)
  qed
qed

lemma pmm_free_page_spec:
  assumes "bitmap_ok st" and "page_ok (a div 4096)"
  shows "\<exists>st'. pmm_free_page a st = Inr st' \<and> bitmap_ok st' \<and>
    mem_start st' = mem_start st \<and> mem_end st' = mem_end st \<and> total_pages st' = total_pages st \<and>
    free_pages st' = (if page_used st (a div 4096) then free_pages st + 1 else free_pages st) \<and>
    (\<forall>q. page_ok q \<longrightarrow> page_used st' q = (q \<noteq> a div 4096 \<and> page_used st q))"
proof (cases "page_used st (a div 4096)")
  case True
  obtain bm where "bitmap_clear (a div 4096) st = Inr (st\<lparr>page_bitmap := bm\<rparr>)" "length bm = BITMAP_SIZE"
    "\<forall>q. page_ok q \<longrightarrow> page_used (st\<lparr>page_bitmap := bm\<rparr>) q = (q \<noteq> a div 4096 \<and> page_used st q)"
    using bitmap_clear_spec [OF assms] by blast
  with True assms show ?thesis
    by (simp add: pmm_free_page_def Let_def bitmap_test_used bitmap_ok_def page_used_def)
next
  case False
  with assms show ?thesis
    by (auto simp: pmm_free_page_def Let_def bitmap_test_used)
qed

text \<open>
  \<open>pmm_alloc_page\<close> on a well-formed state always returns: with the address of the
  lowest free page at or above 1 MiB and below \<open>mem_end\<close>, now marked used with every
  other page as before and the free counter one lower, or with 0 and an unchanged state
  when there is none.
\<close>

theorem pmm_alloc_page_lowest:
  assumes "pmm_ok st"
  shows "(pmm_alloc_page st = Inr (0, st) \<and> (\<forall>q. 256 \<le> q \<and> q < mem_end st div 4096 \<longrightarrow> page_used st q)) \<or>
    (\<exists>q st'. pmm_alloc_page st = Inr (q * 4096, st') \<and> pmm_ok st' \<and>
       256 \<le> q \<and> q < mem_end st div 4096 \<and> \<not> page_used st q \<and>
       (\<forall>r. 256 \<le> r \<and> r < q \<longrightarrow> page_used st r) \<and>
       (\<forall>r. page_ok r \<longrightarrow> page_used st' r = (r = q \<or> page_used st r)) \<and>
       pmm_free_count st' = pmm_free_count st - 1)"
  using assms
proof (cases rule: pmm_alloc_page_cases)
  case full
  then show ?thesis by blast
next
  case (page q bm)
  then show ?thesis
    using pmm_ok_bitmap_update [OF assms page(6), of "free_pages st - 1"]
    by (intro disjI2 exI [of _ q] exI [of _ "st\<lparr>page_bitmap := bm, free_pages := free_pages st - 1\<rparr>"])
      (simp add: pmm_free_count_def page_used_def)
qed

text \<open>
  C7. No page is handed out twice: any number of allocations, up to the number of
  available pages, succeed with pairwise distinct page-aligned non-null addresses, and
  what stays available is exactly the rest.
\<close>

theorem pmm_allocs_distinct:
  assumes "pmm_ok st" and "n \<le> card (pmm_avail st)"
  shows "\<exists>as st'. alloc_run pmm_alloc_page n st = Inr (as, st') \<and> length as = n \<and> distinct as \<and>
    set as \<subseteq> pmm_avail st \<and> pmm_avail st' = pmm_avail st - set as \<and> pmm_ok st' \<and>
    (\<forall>a \<in> set as. a \<noteq> 0 \<and> a mod 4096 = 0)"
  using pmmi.alloc_run_distinct [OF assms] pmmi.avail_nonzero [OF assms(1)]
    pmmi.avail_aligned [OF assms(1)] by blast

text \<open>
  Freeing the page just allocated restores the allocator exactly, and freeing a page
  that is already free changes nothing.
\<close>

theorem pmm_free_inverts_alloc:
  assumes "pmm_ok st" and "pmm_alloc_page st = Inr (a, st')" and "a \<noteq> 0"
    and "page_ok (b div 4096)" and "\<not> page_used st (b div 4096)"
  shows "pmm_free_page a st' = Inr st \<and> pmm_free_page b st = Inr st"
proof
  have ok: "bitmap_ok st" using assms(1) by (simp add: pmm_ok_def)
  show "pmm_free_page b st = Inr st"
    using ok assms(4,5) by (simp add: pmm_free_page_def Let_def bitmap_test_used)
  from assms(1) show "pmm_free_page a st' = Inr st"
  proof (cases rule: pmm_alloc_page_cases)
    case full
    with assms show ?thesis by simp
  next
    case (page q bm)
    have q: "page_ok q" using assms(1) page by (simp add: page_ok_scan)
    have eq: "a = q * 4096" "st' = st\<lparr>page_bitmap := bm, free_pages := free_pages st - 1\<rparr>"
      using assms(2) page by simp_all
    have ok': "bitmap_ok st'" using page eq by (simp add: bitmap_ok_def)
    have used': "page_used st' r = (r = q \<or> page_used st r)" if "page_ok r" for r
      using page(7) that by (simp add: eq page_used_def)
    obtain bm' where bm': "bitmap_clear q st' = Inr (st'\<lparr>page_bitmap := bm'\<rparr>)" "length bm' = BITMAP_SIZE"
      "\<forall>r. page_ok r \<longrightarrow> page_used (st'\<lparr>page_bitmap := bm'\<rparr>) r = (r \<noteq> q \<and> page_used st' r)"
      using bitmap_clear_spec [OF ok' q] by blast
    have "bm' = page_bitmap st"
    proof (rule bitmap_ext [of _ _ st'])
      show "length (page_bitmap st) = BITMAP_SIZE" using ok by (simp add: bitmap_ok_def)
      show "page_used (st'\<lparr>page_bitmap := bm'\<rparr>) r = page_used (st'\<lparr>page_bitmap := page_bitmap st\<rparr>) r"
        if "page_ok r" for r
        using bm'(3) used' that page(3) by (auto simp: page_used_def)
    qed (rule bm'(2))
    with bm' ok' q used' [OF q] page_addr_div [OF q] show ?thesis
      by (simp add: pmm_free_page_def Let_def eq bitmap_test_used)
  qed
qed

section \<open>The memory map\<close>

text \<open>
  What the loops of \<open>pmm_init\<close> read out of the Multiboot information: the usable
  regions, as pairs of base and end address, in the order of the tags.
\<close>

fun mmap_regions :: "nat \<Rightarrow> mem \<Rightarrow> addr \<Rightarrow> addr \<Rightarrow> (u64 \<times> u64) list res" where
  "mmap_regions 0 m tag e = Inl Diverges"
| "mmap_regions (Suc fuel) m tag e =
     (if e < tag + ucast (tag_size m tag)
      then bindR (mmap_regions fuel m tag (e + ucast (rd32 m (tag + 8))))
             (\<lambda>rs. Inr (if rd32 m (e + 16) \<noteq> 1 then rs else (rd64 m e, rd64 m e + rd64 m (e + 8)) # rs))
      else Inr [])"

fun tag_regions :: "nat \<Rightarrow> mem \<Rightarrow> addr \<Rightarrow> (u64 \<times> u64) list res" where
  "tag_regions 0 m tag = Inl Diverges"
| "tag_regions (Suc fuel) m tag =
     (if tag_type m tag = 0 then Inr []
      else bindR (if tag_type m tag = 6 then mmap_regions fuel m tag (tag + 16) else Inr [])
             (\<lambda>rs. bindR (tag_regions fuel m (mbi_next m tag)) (\<lambda>rs'. Inr (rs @ rs'))))"

fun add_regions :: "(u64 \<times> u64) list \<Rightarrow> pmm \<Rightarrow> pmm res" where
  "add_regions [] st = Inr st"
| "add_regions ((b, e) # rs) st = bindR (add_region b e st) (add_regions rs)"

lemma add_regions_append: "add_regions (rs @ rs') st = bindR (add_regions rs st) (add_regions rs')"
  by (induction rs st rule: add_regions.induct) (auto simp: bindR_assoc intro!: bindR_cong)

lemma mmap_entries_regions:
  "mmap_regions fuel m tag e = Inr rs \<Longrightarrow> mmap_entries fuel m tag e st = add_regions rs st"
  by (induction fuel arbitrary: e rs st)
    (auto simp: mmap_entry_def bindR_def split: if_splits sum.splits)

lemma pmm_tags_regions:
  "tag_regions fuel m tag = Inr rs \<Longrightarrow> pmm_tags fuel m tag st = add_regions rs st"
  by (induction fuel arbitrary: tag rs st)
    (auto simp: mmap_entries_regions add_regions_append bindR_def split: if_splits sum.splits)

text \<open>Effect of the two page loops.\<close>

definition in_pages :: "u64 \<Rightarrow> u64 \<Rightarrow> u64 \<Rightarrow> bool" where
  "in_pages a b p \<longleftrightarrow> a \<le> p \<and> p < b"

lemma in_pages_empty [simp]: "\<not> in_pages a a p"
  by (auto simp: in_pages_def)

lemma in_pages_step: "a \<le> q \<Longrightarrow> q < e \<Longrightarrow> in_pages a (q + 1) p = (in_pages a q p \<or> p = q)"
  using unat_plus_one [of q e]
  by (auto simp: in_pages_def word_le_nat_alt word_less_nat_alt word_unat_eq_iff)

lemma page_ok_below: "q < e \<Longrightarrow> unat e \<le> MAX_PHYS_PAGES \<Longrightarrow> page_ok q"
  by (simp add: page_ok_def word_less_nat_alt)

lemma free_pages_loop:
  assumes "bitmap_ok st" and "a \<le> e" and "unat e \<le> MAX_PHYS_PAGES"
  shows "\<exists>st'. for_up a e free_one_page st = Inr st' \<and> bitmap_ok st' \<and>
     mem_start st' = mem_start st \<and> mem_end st' = mem_end st \<and>
     (\<forall>p. page_ok p \<longrightarrow> page_used st' p = (\<not> in_pages a e p \<and> page_used st p)) \<and>
     total_pages st' = total_pages st + (e - a) \<and> free_pages st' = free_pages st + (e - a)"
proof (rule for_up_total [where P = "\<lambda>q s. bitmap_ok s \<and>
     mem_start s = mem_start st \<and> mem_end s = mem_end st \<and>
     (\<forall>p. page_ok p \<longrightarrow> page_used s p = (\<not> in_pages a q p \<and> page_used st p)) \<and>
     total_pages s = total_pages st + (q - a) \<and> free_pages s = free_pages st + (q - a)"])
  show "bitmap_ok st \<and> mem_start st = mem_start st \<and> mem_end st = mem_end st \<and>
     (\<forall>p. page_ok p \<longrightarrow> page_used st p = (\<not> in_pages a a p \<and> page_used st p)) \<and>
     total_pages st = total_pages st + (a - a) \<and> free_pages st = free_pages st + (a - a)"
    using assms by simp
next
  fix q s
  assume P: "bitmap_ok s \<and> mem_start s = mem_start st \<and> mem_end s = mem_end st \<and>
     (\<forall>p. page_ok p \<longrightarrow> page_used s p = (\<not> in_pages a q p \<and> page_used st p)) \<and>
     total_pages s = total_pages st + (q - a) \<and> free_pages s = free_pages st + (q - a)"
    and q: "a \<le> q" "q < e"
  have "page_ok q" using q assms(3) by (simp add: page_ok_below)
  with P obtain bm where "bitmap_clear q s = Inr (s\<lparr>page_bitmap := bm\<rparr>)" "length bm = BITMAP_SIZE"
    "\<forall>p. page_ok p \<longrightarrow> page_used (s\<lparr>page_bitmap := bm\<rparr>) p = (p \<noteq> q \<and> page_used s p)"
    using bitmap_clear_spec by blast
  with P q show "\<exists>s'. free_one_page q s = Inr s' \<and> bitmap_ok s' \<and>
     mem_start s' = mem_start st \<and> mem_end s' = mem_end st \<and>
     (\<forall>p. page_ok p \<longrightarrow> page_used s' p = (\<not> in_pages a (q + 1) p \<and> page_used st p)) \<and>
     total_pages s' = total_pages st + (q + 1 - a) \<and> free_pages s' = free_pages st + (q + 1 - a)"
    by (auto simp: free_one_page_def bitmap_ok_def in_pages_step page_used_def)
qed (use assms in auto)

lemma reserve_loop:
  assumes "bitmap_ok st" and "a \<le> e" and "unat e \<le> MAX_PHYS_PAGES"
  shows "\<exists>bm. for_up a e bitmap_set st = Inr (st\<lparr>page_bitmap := bm\<rparr>) \<and> length bm = BITMAP_SIZE \<and>
     (\<forall>p. page_ok p \<longrightarrow> page_used (st\<lparr>page_bitmap := bm\<rparr>) p = (in_pages a e p \<or> page_used st p))"
proof -
  have "\<exists>s. for_up a e bitmap_set st = Inr s \<and> (\<exists>bm. s = st\<lparr>page_bitmap := bm\<rparr> \<and> length bm = BITMAP_SIZE \<and>
     (\<forall>p. page_ok p \<longrightarrow> page_used s p = (in_pages a e p \<or> page_used st p)))"
  proof (rule for_up_total [where P = "\<lambda>q s. \<exists>bm. s = st\<lparr>page_bitmap := bm\<rparr> \<and> length bm = BITMAP_SIZE \<and>
     (\<forall>p. page_ok p \<longrightarrow> page_used s p = (in_pages a q p \<or> page_used st p))"])
    show "\<exists>bm. st = st\<lparr>page_bitmap := bm\<rparr> \<and> length bm = BITMAP_SIZE \<and>
     (\<forall>p. page_ok p \<longrightarrow> page_used st p = (in_pages a a p \<or> page_used st p))"
      using assms by (intro exI [of _ "page_bitmap st"]) (simp add: bitmap_ok_def)
  next
    fix q s
    assume "\<exists>bm. s = st\<lparr>page_bitmap := bm\<rparr> \<and> length bm = BITMAP_SIZE \<and>
       (\<forall>p. page_ok p \<longrightarrow> page_used s p = (in_pages a q p \<or> page_used st p))"
      and q: "a \<le> q" "q < e"
    then obtain bm where s: "s = st\<lparr>page_bitmap := bm\<rparr>" "length bm = BITMAP_SIZE"
      "\<forall>p. page_ok p \<longrightarrow> page_used s p = (in_pages a q p \<or> page_used st p)" by blast
    have "page_ok q" using q assms(3) by (simp add: page_ok_below)
    moreover have "bitmap_ok s" using s by (simp add: bitmap_ok_def)
    ultimately obtain bm' where "bitmap_set q s = Inr (s\<lparr>page_bitmap := bm'\<rparr>)" "length bm' = BITMAP_SIZE"
      "\<forall>p. page_ok p \<longrightarrow> page_used (s\<lparr>page_bitmap := bm'\<rparr>) p = (p = q \<or> page_used s p)"
      using bitmap_set_spec by blast
    with s q show "\<exists>s'. bitmap_set q s = Inr s' \<and> (\<exists>bm. s' = st\<lparr>page_bitmap := bm\<rparr> \<and> length bm = BITMAP_SIZE \<and>
       (\<forall>p. page_ok p \<longrightarrow> page_used s' p = (in_pages a (q + 1) p \<or> page_used st p)))"
      by (auto simp: in_pages_step)
  qed (use assms in auto)
  then show ?thesis by blast
qed

text \<open>A region whose pages the bitmap covers, and the pages a list of regions makes usable.\<close>

definition region_fits :: "u64 \<times> u64 \<Rightarrow> bool" where
  "region_fits r \<longleftrightarrow> fst r div 4096 \<le> snd r div 4096 \<and> unat (snd r) \<le> MAX_PHYS_PAGES * 4096"

definition usable :: "(u64 \<times> u64) list \<Rightarrow> u64 \<Rightarrow> bool" where
  "usable rs p \<longleftrightarrow> (\<exists>(b, e) \<in> set rs. in_pages (b div 4096) (e div 4096) p)"

lemma usable_simps [simp]:
  "\<not> usable [] p"
  "usable ((b, e) # rs) p = (in_pages (b div 4096) (e div 4096) p \<or> usable rs p)"
  by (auto simp: usable_def)

definition region_pages :: "(u64 \<times> u64) list \<Rightarrow> u64" where
  "region_pages rs = sum_list (map (\<lambda>(b, e). e div 4096 - b div 4096) rs)"

lemma add_regions_spec:
  assumes "bitmap_ok st" and "\<forall>r \<in> set rs. region_fits r" and "unat (mem_end st) \<le> MAX_PHYS_PAGES * 4096"
  shows "\<exists>st'. add_regions rs st = Inr st' \<and> bitmap_ok st' \<and> mem_start st' = mem_start st \<and>
     unat (mem_end st') \<le> MAX_PHYS_PAGES * 4096 \<and>
     (\<forall>p. page_ok p \<longrightarrow> page_used st' p = (\<not> usable rs p \<and> page_used st p)) \<and>
     total_pages st' = total_pages st + region_pages rs \<and> free_pages st' = free_pages st + region_pages rs"
  using assms
proof (induction rs st rule: add_regions.induct)
  case (1 st)
  then show ?case by (simp add: region_pages_def)
next
  case (2 b e rs st)
  let ?st = "if e > mem_end st then st\<lparr>mem_end := e\<rparr> else st"
  have fits: "b div 4096 \<le> e div 4096" "unat e \<le> MAX_PHYS_PAGES * 4096"
    using "2.prems"(2) by (auto simp: region_fits_def)
  then have "unat (e div 4096) \<le> MAX_PHYS_PAGES"
    by (simp add: unat_div MAX_PHYS_PAGES_def)
  moreover have "bitmap_ok ?st" using "2.prems" by (simp add: bitmap_ok_def)
  ultimately have "\<exists>st1. add_region b e st = Inr st1 \<and> bitmap_ok st1 \<and>
     mem_start st1 = mem_start ?st \<and> mem_end st1 = mem_end ?st \<and>
     (\<forall>p. page_ok p \<longrightarrow> page_used st1 p = (\<not> in_pages (b div 4096) (e div 4096) p \<and> page_used ?st p)) \<and>
     total_pages st1 = total_pages ?st + (e div 4096 - b div 4096) \<and>
     free_pages st1 = free_pages ?st + (e div 4096 - b div 4096)"
    unfolding add_region_def Let_def using fits(1) by (intro free_pages_loop)
  then obtain st1 where st1: "add_region b e st = Inr st1" "bitmap_ok st1"
     "mem_start st1 = mem_start ?st" "mem_end st1 = mem_end ?st"
     "\<forall>p. page_ok p \<longrightarrow> page_used st1 p = (\<not> in_pages (b div 4096) (e div 4096) p \<and> page_used ?st p)"
     "total_pages st1 = total_pages ?st + (e div 4096 - b div 4096)"
     "free_pages st1 = free_pages ?st + (e div 4096 - b div 4096)"
    by blast
  have frame: "page_used ?st p = page_used st p" for p by (simp add: page_used_def)
  have "unat (mem_end st1) \<le> MAX_PHYS_PAGES * 4096" using st1 fits "2.prems" by simp
  with "2.IH" [OF st1(1,2)] "2.prems" obtain st' where st': "add_regions rs st1 = Inr st'" "bitmap_ok st'"
    "mem_start st' = mem_start st1" "unat (mem_end st') \<le> MAX_PHYS_PAGES * 4096"
    "\<forall>p. page_ok p \<longrightarrow> page_used st' p = (\<not> usable rs p \<and> page_used st1 p)"
    "total_pages st' = total_pages st1 + region_pages rs" "free_pages st' = free_pages st1 + region_pages rs"
    by auto
  show ?case
    using st1 st' frame by (intro exI [of _ st']) (auto simp: region_pages_def)
qed

lemma reserve_region_spec:
  assumes "bitmap_ok st" and "unat base + unat len + 4095 < MAX_PHYS_PAGES * 4096"
  shows "\<exists>bm. reserve_region base len st = Inr (st\<lparr>page_bitmap := bm\<rparr>) \<and> length bm = BITMAP_SIZE \<and>
     (\<forall>p. page_ok p \<longrightarrow> page_used (st\<lparr>page_bitmap := bm\<rparr>) p =
        (in_pages (base div 4096) ((base + len + 4095) div 4096) p \<or> page_used st p))"
proof -
  have u: "unat (base + len + 4095) = unat base + unat len + 4095"
    using assms(2) by (simp add: unat_word_ariths MAX_PHYS_PAGES_def)
  have "base div 4096 \<le> (base + len + 4095) div 4096"
    "unat ((base + len + 4095) div 4096) \<le> MAX_PHYS_PAGES"
    using assms(2) by (simp_all add: word_le_nat_alt unat_div u div_le_mono MAX_PHYS_PAGES_def)
  from reserve_loop [OF assms(1) this] show ?thesis
    by (simp add: reserve_region_def Let_def)
qed

text \<open>
  Initialisation from a memory map that fits the bitmap returns a well-formed
  allocator in which a page is free exactly when a usable region covers it whole and it is
  neither below 1 MiB nor under the bitmap itself. The two counters only ever count the
  regions: \<open>pmm_free_count\<close> includes the reserved pages.
\<close>

theorem pmm_init_free_pages:
  assumes "tag_regions fuel m (mbi + 8) = Inr rs" and "\<forall>r \<in> set rs. region_fits r"
    and "unat bitmap_addr + BITMAP_SIZE + 4095 < MAX_PHYS_PAGES * 4096"
  shows "\<exists>st'. pmm_init fuel m bitmap_addr mbi st = Inr st' \<and> pmm_ok st' \<and>
    (\<forall>p. page_ok p \<longrightarrow> (\<not> page_used st' p) =
       (usable rs p \<and> 256 \<le> p \<and>
        \<not> in_pages (bitmap_addr div 4096) ((bitmap_addr + word_of_nat BITMAP_SIZE + 4095) div 4096) p)) \<and>
    pmm_total_pages st' = region_pages rs \<and> pmm_free_count st' = region_pages rs"
proof -
  let ?st0 = "st\<lparr>page_bitmap := replicate BITMAP_SIZE 0xFF, total_pages := 0, free_pages := 0,
                   mem_start := 0x100000, mem_end := 0\<rparr>"
  have ok0: "bitmap_ok ?st0" by (simp add: bitmap_ok_def)
  have used0: "page_used ?st0 p" if "page_ok p" for p
  proof -
    have "(0xFF :: u8) = -1" by simp
    then have "bit (0xFF :: u8) n" if "n < 8" for n
      using that by (simp only: bit_minus_1_iff) simp
    then show ?thesis using page_index [OF that] bit_index_less_8 [of p] by (simp add: page_used_def)
  qed
  obtain st1 where st1: "pmm_tags fuel m (mbi + 8) ?st0 = Inr st1" "bitmap_ok st1"
    "mem_start st1 = 0x100000" "unat (mem_end st1) \<le> MAX_PHYS_PAGES * 4096"
    "\<forall>p. page_ok p \<longrightarrow> page_used st1 p = (\<not> usable rs p)"
    "total_pages st1 = region_pages rs" "free_pages st1 = region_pages rs"
    using add_regions_spec [OF ok0 assms(2)] pmm_tags_regions [OF assms(1), of ?st0] used0 by auto
  obtain bm where bm: "reserve_region 0 0x100000 st1 = Inr (st1\<lparr>page_bitmap := bm\<rparr>)" "length bm = BITMAP_SIZE"
    "\<forall>p. page_ok p \<longrightarrow> page_used (st1\<lparr>page_bitmap := bm\<rparr>) p = (in_pages 0 256 p \<or> page_used st1 p)"
    using reserve_region_spec [OF st1(2), of 0 "0x100000"] by (auto simp: MAX_PHYS_PAGES_def)
  let ?st2 = "st1\<lparr>page_bitmap := bm\<rparr>"
  have "unat (word_of_nat BITMAP_SIZE :: u64) = BITMAP_SIZE"
    by (simp add: BITMAP_SIZE_def MAX_PHYS_PAGES_def)
  then obtain bm' where bm': "reserve_region bitmap_addr (word_of_nat BITMAP_SIZE) ?st2 = Inr (?st2\<lparr>page_bitmap := bm'\<rparr>)"
    "length bm' = BITMAP_SIZE"
    "\<forall>p. page_ok p \<longrightarrow> page_used (?st2\<lparr>page_bitmap := bm'\<rparr>) p =
      (in_pages (bitmap_addr div 4096) ((bitmap_addr + word_of_nat BITMAP_SIZE + 4095) div 4096) p \<or> page_used ?st2 p)"
    using reserve_region_spec [of ?st2 bitmap_addr "word_of_nat BITMAP_SIZE"] bm(2) assms(3)
    by (auto simp: bitmap_ok_def)
  have "pmm_init fuel m bitmap_addr mbi st = Inr (?st2\<lparr>page_bitmap := bm'\<rparr>)"
    using st1(1) bm(1) bm'(1) by (simp add: pmm_init_def Let_def)
  with st1 bm bm' show ?thesis
    by (intro exI [of _ "?st2\<lparr>page_bitmap := bm'\<rparr>"])
      (auto simp: pmm_ok_def bitmap_ok_def pmm_total_pages_def pmm_free_count_def in_pages_def not_less)
qed

section \<open>Memory maps beyond the bitmap\<close>

lemma free_pages_loop_fault:
  assumes "bitmap_ok st" and "a < e" and "MAX_PHYS_PAGES < unat e"
  shows "for_up a e free_one_page st = Inl OutOfBounds"
  using assms
proof (induction a e "free_one_page" st rule: for_up.induct)
  case (1 a e st)
  show ?case
  proof (cases "page_ok a")
    case False
    then show ?thesis using "1.prems" bitmap_fault by (simp add: for_up_step free_one_page_def)
  next
    case True
    then obtain bm where bm: "bitmap_clear a st = Inr (st\<lparr>page_bitmap := bm\<rparr>)" "length bm = BITMAP_SIZE"
      using bitmap_clear_spec "1.prems" by blast
    let ?st = "st\<lparr>page_bitmap := bm, total_pages := total_pages st + 1, free_pages := free_pages st + 1\<rparr>"
    have f: "free_one_page a st = Inr ?st" using bm by (simp add: free_one_page_def)
    have "a + 1 < e"
      using True "1.prems"(3) unat_plus_one [OF "1.prems"(2)] by (simp add: page_ok_def word_less_nat_alt)
    with "1.hyps" [OF "1.prems"(2) f] bm(2) "1.prems" f show ?thesis
      by (simp add: bitmap_ok_def for_up_step)
  qed
qed

lemma free_pages_loop_result:
  assumes "bitmap_ok st"
  shows "for_up a e free_one_page st = Inl OutOfBounds \<or>
    (\<exists>st'. for_up a e free_one_page st = Inr st' \<and> bitmap_ok st')"
proof (cases "a < e \<and> MAX_PHYS_PAGES < unat e")
  case True
  then show ?thesis using free_pages_loop_fault assms by blast
next
  case False
  show ?thesis
  proof (cases "a < e")
    case True
    with False have "a \<le> e" "unat e \<le> MAX_PHYS_PAGES" by auto
    then show ?thesis using free_pages_loop [OF assms] by blast
  next
    case False
    then show ?thesis using assms by (simp add: not_less)
  qed
qed

text \<open>
  The bitmap covers 512 MiB and the loops never compare a page number with its size:
  a memory map with a usable region that has pages past 512 MiB makes initialisation
  write outside the array.
\<close>

theorem pmm_init_overflows_bitmap:
  assumes "tag_regions fuel m (mbi + 8) = Inr rs" and "(b, e) \<in> set rs"
    and "b div 4096 < e div 4096" and "MAX_PHYS_PAGES < unat (e div 4096)"
  shows "pmm_init fuel m bitmap_addr mbi st = Inl OutOfBounds"
proof -
  have "add_regions rs s = Inl OutOfBounds" if "bitmap_ok s" for s
    using assms(2) that
  proof (induction rs s rule: add_regions.induct)
    case (2 b' e' rs s)
    let ?s = "if e' > mem_end s then s\<lparr>mem_end := e'\<rparr> else s"
    have ok: "bitmap_ok ?s" using "2.prems" by (simp add: bitmap_ok_def)
    have eq: "add_region b' e' s = for_up (b' div 4096) (e' div 4096) free_one_page ?s"
      by (simp add: add_region_def)
    show ?case
    proof (cases "(b, e) = (b', e')")
      case True
      then show ?thesis using free_pages_loop_fault [OF ok] assms(3,4) eq by simp
    next
      case False
      with "2.prems" have "(b, e) \<in> set rs" by auto
      then show ?thesis
        using free_pages_loop_result [OF ok, of "b' div 4096" "e' div 4096"] "2.IH" eq by auto
    qed
  qed simp
  moreover have "bitmap_ok (st\<lparr>page_bitmap := replicate BITMAP_SIZE 0xFF, total_pages := 0,
      free_pages := 0, mem_start := 0x100000, mem_end := 0\<rparr>)"
    by (simp add: bitmap_ok_def)
  ultimately show ?thesis
    by (simp add: pmm_init_def Let_def pmm_tags_regions [OF assms(1)])
qed

section \<open>Concrete states\<close>

text \<open>Two free pages at 1 MiB, everything else in use.\<close>

definition pmm_demo :: pmm where
  "pmm_demo = \<lparr>page_bitmap = (replicate BITMAP_SIZE 0xFF)[32 := 0xFC], total_pages = 2, free_pages = 2,
     mem_start = 0x100000, mem_end = 0x102000\<rparr>"

lemma pmm_demo_ok: "pmm_ok pmm_demo"
  by (simp add: pmm_ok_def bitmap_ok_def pmm_demo_def MAX_PHYS_PAGES_def)

lemma pmm_demo_used: "page_used pmm_demo 0x100 = False" "page_used pmm_demo 0x101 = False"
  by (simp_all add: page_used_def pmm_demo_def BITMAP_SIZE_def MAX_PHYS_PAGES_def bit_iff_odd drop_bit_eq_div)

lemma pmm_demo_alloc: "pmm_alloc_page pmm_demo =
    Inr (0x100000, pmm_demo\<lparr>page_bitmap := (replicate BITMAP_SIZE 0xFF)[32 := 0xFD], free_pages := 1\<rparr>)"
  by (simp add: pmm_alloc_page_def pmm_demo_def pmm_scan.simps [of "0x100"] bitmap_test_def bitmap_set_def
      bit_mask_def BITMAP_SIZE_def MAX_PHYS_PAGES_def)

lemma pmm_demo_avail: "{0x100000, 0x101000} \<subseteq> pmm_avail pmm_demo"
proof -
  have "0x100 * 4096 \<in> pmm_avail pmm_demo" "0x101 * 4096 \<in> pmm_avail pmm_demo"
    unfolding pmm_avail_eq [OF pmm_demo_ok]
    by (rule imageI, use pmm_demo_used in \<open>simp add: pmm_demo_def\<close>)+
  then show ?thesis by simp
qed

theorem pmm_alloc_page_lowest_witness:
  "pmm_ok pmm_demo \<and> (\<exists>st'. pmm_alloc_page pmm_demo = Inr (0x100000, st') \<and> pmm_ok st' \<and> pmm_free_count st' = 1)"
proof -
  have "pmm_alloc_page pmm_demo \<noteq> Inr (0, pmm_demo)" by (simp add: pmm_demo_alloc)
  then obtain q st' where "pmm_alloc_page pmm_demo = Inr (q * 4096, st')" "pmm_ok st'"
    "pmm_free_count st' = pmm_free_count pmm_demo - 1"
    using pmm_alloc_page_lowest [OF pmm_demo_ok] by auto
  moreover have "pmm_free_count pmm_demo = 2" by (simp add: pmm_free_count_def pmm_demo_def)
  ultimately show ?thesis using pmm_demo_ok pmm_demo_alloc by auto
qed

theorem pmm_allocs_distinct_witness:
  "pmm_ok pmm_demo \<and> 2 \<le> card (pmm_avail pmm_demo) \<and>
   (\<exists>as st'. alloc_run pmm_alloc_page 2 pmm_demo = Inr (as, st') \<and> length as = 2 \<and> distinct as)"
proof -
  have "card {0x100000, 0x101000 :: u64} \<le> card (pmm_avail pmm_demo)"
    using pmm_demo_avail pmmi.avail_finite [OF pmm_demo_ok] by (rule card_mono [rotated])
  then have n: "2 \<le> card (pmm_avail pmm_demo)" by simp
  with pmm_allocs_distinct [OF pmm_demo_ok n] pmm_demo_ok show ?thesis by blast
qed

theorem pmm_free_inverts_alloc_witness:
  "pmm_free_page 0x100000 (pmm_demo\<lparr>page_bitmap := (replicate BITMAP_SIZE 0xFF)[32 := 0xFD], free_pages := 1\<rparr>) =
     Inr pmm_demo \<and> pmm_free_page 0x101000 pmm_demo = Inr pmm_demo"
  using pmm_free_inverts_alloc [OF pmm_demo_ok pmm_demo_alloc, of "0x101000"] pmm_demo_used
  by (simp add: page_ok_def MAX_PHYS_PAGES_def)

text \<open>
  Multiboot information at \<open>0x9000\<close>: a memory-map tag with one usable region of the given
  length from address 0, then the end tag.
\<close>

definition mbi_demo :: "u8 list \<Rightarrow> mem" where
  "mbi_demo len = mem_of 0x9000
     ([0, 0, 0, 0, 0, 0, 0, 0] @ [6, 0, 0, 0, 40, 0, 0, 0, 24, 0, 0, 0, 0, 0, 0, 0] @
      [0, 0, 0, 0, 0, 0, 0, 0] @ len @ [1, 0, 0, 0, 0, 0, 0, 0] @ [0, 0, 0, 0, 8, 0, 0, 0])"

lemma mbi_demo_tags:
  "tag_type (mbi_demo [0,0,0,l,0,0,0,0]) 0x9008 = 6"
  "tag_size (mbi_demo [0,0,0,l,0,0,0,0]) 0x9008 = 40"
  "rd32 (mbi_demo [0,0,0,l,0,0,0,0]) 0x9010 = 24"
  "rd64 (mbi_demo [0,0,0,l,0,0,0,0]) 0x9018 = 0"
  "rd64 (mbi_demo [0,0,0,l,0,0,0,0]) 0x9020 = ucast l * 0x1000000"
  "rd32 (mbi_demo [0,0,0,l,0,0,0,0]) 0x9028 = 1"
  "tag_type (mbi_demo [0,0,0,l,0,0,0,0]) 0x9030 = 0"
  by (simp_all add: mbi_demo_def tag_type_def tag_size_def rd32_def rd64_def rd_nat_numeral mem_of_def)

lemma mbi_demo_next: "mbi_next (mbi_demo [0,0,0,l,0,0,0,0]) 0x9008 = 0x9030"
  by (simp add: mbi_demo_tags mbi_next_def)

lemma mbi_demo_regions:
  "tag_regions 4 (mbi_demo [0,0,0,l,0,0,0,0]) 0x9008 = Inr [(0, ucast l * 0x1000000)]"
proof -
  have four: "4 = Suc (Suc (Suc (Suc 0)))" by simp
  show ?thesis by (subst four) (simp add: mbi_demo_tags mbi_demo_next)
qed

lemma mbi_demo_16M: "tag_regions 4 (mbi_demo [0, 0, 0, 1, 0, 0, 0, 0]) 0x9008 = Inr [(0, 0x1000000)]"
  by (simp add: mbi_demo_regions)

lemma mbi_demo_1G: "tag_regions 4 (mbi_demo [0, 0, 0, 64, 0, 0, 0, 0]) 0x9008 = Inr [(0, 0x40000000)]"
  by (simp add: mbi_demo_regions)

theorem pmm_init_free_pages_witness:
  "\<exists>st'. pmm_init 4 (mbi_demo [0, 0, 0, 1, 0, 0, 0, 0]) 0x200000 0x9000 pmm_demo = Inr st' \<and> pmm_ok st' \<and>
     \<not> page_used st' 0x100 \<and> page_used st' 0xFF \<and> page_used st' 0x200 \<and> pmm_free_count st' = 4096"
proof -
  have "\<forall>r \<in> set [(0 :: u64, 0x1000000 :: u64)]. region_fits r"
    by (simp add: region_fits_def MAX_PHYS_PAGES_def)
  moreover have "tag_regions 4 (mbi_demo [0, 0, 0, 1, 0, 0, 0, 0]) (0x9000 + 8) = Inr [(0, 0x1000000)]"
    using mbi_demo_16M by simp
  ultimately obtain st' where st': "pmm_init 4 (mbi_demo [0, 0, 0, 1, 0, 0, 0, 0]) 0x200000 0x9000 pmm_demo = Inr st'" "pmm_ok st'"
    "\<forall>p. page_ok p \<longrightarrow> (\<not> page_used st' p) = (usable [(0, 0x1000000)] p \<and> 256 \<le> p \<and>
        \<not> in_pages (0x200000 div 4096) ((0x200000 + word_of_nat BITMAP_SIZE + 4095) div 4096) p)"
    "pmm_free_count st' = region_pages [(0, 0x1000000)]"
    using pmm_init_free_pages [of 4 "mbi_demo [0, 0, 0, 1, 0, 0, 0, 0]" "0x9000" "[(0, 0x1000000)]" "0x200000" pmm_demo]
    by (auto simp: BITMAP_SIZE_def MAX_PHYS_PAGES_def)
  have ok: "page_ok 0x100" "page_ok 0xFF" "page_ok 0x200" by (simp_all add: page_ok_def MAX_PHYS_PAGES_def)
  from st'(3) ok have "\<not> page_used st' 0x100" "page_used st' 0xFF" "page_used st' 0x200"
    by (auto simp: in_pages_def BITMAP_SIZE_def MAX_PHYS_PAGES_def)
  with st' show ?thesis by (auto simp: region_pages_def)
qed

theorem pmm_init_overflows_bitmap_witness:
  "pmm_init 4 (mbi_demo [0, 0, 0, 64, 0, 0, 0, 0]) 0x200000 0x9000 pmm_demo = Inl OutOfBounds"
  using pmm_init_overflows_bitmap [of 4 "mbi_demo [0, 0, 0, 64, 0, 0, 0, 0]" "0x9000" "[(0, 0x40000000)]" 0 "0x40000000"]
    mbi_demo_1G by (simp add: MAX_PHYS_PAGES_def)

end
