(* ===== verification/Mira_Paging.thy ===== *)
theory Mira_Paging
  imports Mira_Pmm
begin

text \<open>
  Four-level page tables, \<open>arch/x86_64/paging.c\<close>. Page tables live in physical memory,
  reached by the kernel through the identity map; the model keeps their 64-bit cells in a
  function from byte addresses to words. \<open>table_alloc\<close> maps the page it has just
  allocated before it clears it, so it calls \<open>paging_map_page\<close>, which calls \<open>walk\<close>, which
  calls \<open>table_alloc\<close> again: the depth of this recursion is the fuel, and one more than
  the number of pages the physical allocator manages is always enough.
\<close>

section \<open>State and operations\<close>

definition PAGE_PRESENT :: u64 where "PAGE_PRESENT = push_bit 0 1"
definition PAGE_WRITE :: u64 where "PAGE_WRITE = push_bit 1 1"
definition PAGE_SIZE_FLAG :: u64 where "PAGE_SIZE_FLAG = push_bit 7 1"

definition PML4_INDEX :: "u64 \<Rightarrow> u64" where "PML4_INDEX v = drop_bit 39 v AND 0x1FF"
definition PDPT_INDEX :: "u64 \<Rightarrow> u64" where "PDPT_INDEX v = drop_bit 30 v AND 0x1FF"
definition PD_INDEX :: "u64 \<Rightarrow> u64" where "PD_INDEX v = drop_bit 21 v AND 0x1FF"
definition PT_INDEX :: "u64 \<Rightarrow> u64" where "PT_INDEX v = drop_bit 12 v AND 0x1FF"

text \<open>The source's \<open>x & ~0xFFFULL\<close>.\<close>

definition page_base :: "u64 \<Rightarrow> u64" where "page_base x = x AND NOT 0xFFF"

definition HEAP_VIRT_BASE :: u64 where "HEAP_VIRT_BASE = 0x40000000"

text \<open>
  The four static tables are given by their link-time addresses; \<open>cells\<close> holds the
  contents of every table, static or allocated.
\<close>

record vm =
  vm_pmm :: pmm
  cells :: "addr \<Rightarrow> u64"
  boot_pml4 :: addr
  boot_pt :: addr
  boot_pd :: addr
  boot_pdpt :: addr
  pml4_root :: addr
  cr3 :: u64
  cr4 :: u64

definition entry :: "vm \<Rightarrow> addr \<Rightarrow> u64 \<Rightarrow> u64" where
  "entry s t i = cells s (t + 8 * i)"

definition set_entry :: "addr \<Rightarrow> u64 \<Rightarrow> u64 \<Rightarrow> vm \<Rightarrow> vm" where
  "set_entry t i e s = s\<lparr>cells := (cells s)(t + 8 * i := e)\<rparr>"

definition zero_table :: "addr \<Rightarrow> vm \<Rightarrow> vm" where
  "zero_table t s = fold (\<lambda>i. set_entry t (word_of_nat i) 0) [0..<512] s"

text \<open>
  One level of \<open>walk\<close>: follow the entry if it is present, otherwise allocate the next
  table and link it, or give up (\<open>None\<close>, the early \<open>return 0\<close>) when nothing may be created.
\<close>

definition walk_level ::
  "(vm \<Rightarrow> (addr \<times> vm) res) \<Rightarrow> bool \<Rightarrow> addr \<Rightarrow> u64 \<Rightarrow> vm \<Rightarrow> (addr option \<times> vm) res" where
  "walk_level alloc create t i s =
     (if entry s t i AND PAGE_PRESENT = 0
      then (if \<not> create then Inr (None, s)
            else bindR (alloc s) (\<lambda>(n, s1). Inr (Some n, set_entry t i (n OR PAGE_PRESENT OR PAGE_WRITE) s1)))
      else Inr (Some (page_base (entry s t i)), s))"

definition walk_with ::
  "(vm \<Rightarrow> (addr \<times> vm) res) \<Rightarrow> u64 \<Rightarrow> bool \<Rightarrow> vm \<Rightarrow> (addr \<times> vm) res" where
  "walk_with alloc virt create s =
     bindR (walk_level alloc create (pml4_root s) (PML4_INDEX virt) s) (\<lambda>(r1, s1).
       case r1 of None \<Rightarrow> Inr (0, s1) | Some pdpt \<Rightarrow>
     bindR (walk_level alloc create pdpt (PDPT_INDEX virt) s1) (\<lambda>(r2, s2).
       case r2 of None \<Rightarrow> Inr (0, s2) | Some pd \<Rightarrow>
     if entry s2 pd (PD_INDEX virt) AND PAGE_PRESENT \<noteq> 0 \<and> entry s2 pd (PD_INDEX virt) AND PAGE_SIZE_FLAG \<noteq> 0
     then Inr (0, s2)
     else bindR (walk_level alloc create pd (PD_INDEX virt) s2) (\<lambda>(r3, s3).
       case r3 of None \<Rightarrow> Inr (0, s3) | Some pt \<Rightarrow> Inr (pt, s3))))"

definition map_page_with ::
  "(vm \<Rightarrow> (addr \<times> vm) res) \<Rightarrow> u64 \<Rightarrow> u64 \<Rightarrow> u64 \<Rightarrow> vm \<Rightarrow> (addr \<times> vm) res" where
  "map_page_with alloc virt phys flags s =
     bindR (walk_with alloc virt True s) (\<lambda>(pt, s1).
       if pt = 0 then Inl (Panic ''paging walk fail'')
       else Inr (virt, set_entry pt (PT_INDEX virt)
                   (page_base phys OR flags OR PAGE_PRESENT OR PAGE_WRITE) s1))"

fun table_alloc :: "nat \<Rightarrow> vm \<Rightarrow> (addr \<times> vm) res" where
  "table_alloc 0 s = Inl Diverges"
| "table_alloc (Suc depth) s =
     bindR (pmm_alloc_page (vm_pmm s)) (\<lambda>(phys, p).
       if phys = 0 then Inl (Panic ''paging oom'')
       else bindR (map_page_with (table_alloc depth) phys phys 0 (s\<lparr>vm_pmm := p\<rparr>)) (\<lambda>(_, s1).
              Inr (phys, zero_table phys s1)))"

definition TABLE_DEPTH :: nat where "TABLE_DEPTH = MAX_PHYS_PAGES + 1"

definition walk :: "u64 \<Rightarrow> bool \<Rightarrow> vm \<Rightarrow> (addr \<times> vm) res" where
  "walk = walk_with (table_alloc TABLE_DEPTH)"

definition paging_map_page :: "u64 \<Rightarrow> u64 \<Rightarrow> u64 \<Rightarrow> vm \<Rightarrow> (addr \<times> vm) res" where
  "paging_map_page = map_page_with (table_alloc TABLE_DEPTH)"

definition paging_unmap_page :: "u64 \<Rightarrow> vm \<Rightarrow> vm res" where
  "paging_unmap_page virt s =
     bindR (walk virt False s) (\<lambda>(pt, s1).
       Inr (if pt = 0 then s1 else set_entry pt (PT_INDEX virt) 0 s1))"

definition paging_virt_to_phys :: "u64 \<Rightarrow> vm \<Rightarrow> u64 res" where
  "paging_virt_to_phys virt s =
     bindR (walk virt False s) (\<lambda>(pt, s1).
       if pt = 0 then Inr 0
       else let e = entry s1 pt (PT_INDEX virt)
            in Inr (if e AND PAGE_PRESENT = 0 then 0 else page_base e + (virt AND 0xFFF)))"

definition paging_heap_base :: u64 where "paging_heap_base = HEAP_VIRT_BASE"

definition paging_init :: "vm \<Rightarrow> vm" where
  "paging_init s =
     (let s1 = (zero_table (boot_pml4 s) s)\<lparr>pml4_root := boot_pml4 s\<rparr>;
          s2 = fold (\<lambda>i. set_entry (boot_pt s) (word_of_nat i)
                 (word_of_nat (i * 4096) OR PAGE_PRESENT OR PAGE_WRITE)) [0..<512] s1;
          s3 = set_entry (boot_pd s) 0 (boot_pt s OR PAGE_PRESENT OR PAGE_WRITE) s2;
          s4 = set_entry (boot_pdpt s) 0 (boot_pd s OR PAGE_PRESENT OR PAGE_WRITE) s3;
          s5 = set_entry (pml4_root s4) 0 (boot_pdpt s OR PAGE_PRESENT OR PAGE_WRITE) s4
      in s5\<lparr>cr3 := pml4_root s5, cr4 := cr4 s5 OR 0x20\<rparr>)"

section \<open>Addresses of table entries\<close>

definition aligned :: "addr \<Rightarrow> bool" where "aligned t \<longleftrightarrow> t AND 0xFFF = 0"

lemma aligned_mod: "aligned t \<longleftrightarrow> t mod 4096 = 0"
proof -
  have "take_bit 12 t = t AND 0xFFF" by (simp add: take_bit_eq_mask mask_eq_exp_minus_1)
  then show ?thesis by (simp add: aligned_def take_bit_eq_mod)
qed

lemma aligned_mask [simp]: "aligned (page_base e)"
  by (simp add: aligned_def page_base_def and.assoc)

lemma aligned_keep: "aligned t \<Longrightarrow> page_base t = t"
proof -
  assume "aligned t"
  have "t = (t AND 0xFFF) OR (t AND NOT 0xFFF)"
    by (simp only: bit.conj_disj_distrib [symmetric] bit.disj_cancel_right bit.conj_one_right)
  with \<open>aligned t\<close> show ?thesis by (simp only: aligned_def page_base_def or.left_neutral)
qed

lemma aligned_link: "aligned t \<Longrightarrow> page_base (t OR 3) = t"
proof -
  assume "aligned t"
  have "(3 :: u64) AND NOT 0xFFF = 0" by simp
  with aligned_keep [OF \<open>aligned t\<close>] show ?thesis
    by (simp only: page_base_def bit.conj_disj_distrib2 or.right_neutral)
qed

lemma entry_addr_eq:
  assumes "aligned t" "aligned u" "i < 512" "j < 512"
  shows "t + 8 * i = u + 8 * j \<longleftrightarrow> t = u \<and> i = j"
proof
  assume eq: "t + 8 * i = u + 8 * j"
  have *: "unat (x + 8 * k) = unat x + 8 * unat k \<and> unat (x + 8 * k) div 4096 * 4096 = unat x"
    if "aligned x" "k < 512" for x k :: u64
  proof -
    have "unat (x mod 4096) = 0" using that(1) by (simp only: aligned_mod unat_0)
    then obtain a where a: "unat x = 4096 * a" by (auto simp: unat_mod mod_eq_0_iff_dvd elim: dvdE)
    have k: "unat k < 512" using that(2) by (simp add: word_less_nat_alt)
    from a have "unat x \<le> 2 ^ 64 - 4096" using unat_u64_less [of x] by simp
    with k have "unat (x + 8 * k) = unat x + 8 * unat k" by (simp add: unat_word_ariths)
    with a k show ?thesis by simp
  qed
  have "unat t = unat u" using eq * [OF assms(1,3)] * [OF assms(2,4)] by metis
  moreover from this have "unat i = unat j"
    using eq conjunct1 [OF * [OF assms(1,3)]] conjunct1 [OF * [OF assms(2,4)]] by simp
  ultimately show "t = u \<and> i = j" by (simp add: word_unat_eq_iff)
qed simp

lemma index_less [simp]: "x AND 0x1FF < (512 :: u64)"
proof -
  have "x AND 0x1FF = take_bit 9 x" by (simp add: take_bit_eq_mask mask_eq_exp_minus_1)
  moreover have "unat (take_bit 9 x) < 2 ^ 9"
    by (simp only: unsigned_take_bit_eq take_bit_nat_less_exp)
  ultimately show ?thesis by (simp add: word_less_nat_alt)
qed

text \<open>The index of the table entry that level \<open>k\<close> of a walk for \<open>v\<close> reads.\<close>

definition idx :: "nat \<Rightarrow> u64 \<Rightarrow> u64" where "idx k v = drop_bit (39 - 9 * k) v AND 0x1FF"

lemma idx_levels:
  "PML4_INDEX v = idx 0 v" "PDPT_INDEX v = idx 1 v" "PD_INDEX v = idx 2 v" "PT_INDEX v = idx 3 v"
  by (simp_all add: idx_def PML4_INDEX_def PDPT_INDEX_def PD_INDEX_def PT_INDEX_def)

lemma idx_less [simp]: "idx k v < 512"
  by (simp add: idx_def)

lemma page_consts: "PAGE_PRESENT = 1" "PAGE_WRITE = 2" "PAGE_SIZE_FLAG = 0x80"
  by (simp_all add: PAGE_PRESENT_def PAGE_WRITE_def PAGE_SIZE_FLAG_def)

lemma entry_set_entry:
  "aligned t \<Longrightarrow> aligned u \<Longrightarrow> i < 512 \<Longrightarrow> j < 512 \<Longrightarrow>
    entry (set_entry t i e s) u j = (if u = t \<and> j = i then e else entry s u j)"
  by (auto simp: entry_def set_entry_def entry_addr_eq)

lemma set_entry_frame [simp]:
  "vm_pmm (set_entry t i e s) = vm_pmm s" "pml4_root (set_entry t i e s) = pml4_root s"
  by (simp_all add: set_entry_def)

text \<open>A loop that stores to the first \<open>n\<close> entries of a table.\<close>

lemma entry_fill:
  assumes "aligned t" "aligned u" "j < 512" "n \<le> 512"
  shows "entry (fold (\<lambda>i. set_entry t (word_of_nat i) (f i)) [0..<n] s) u j =
    (if u = t \<and> unat j < n then f (unat j) else entry s u j)"
  using assms(4)
proof (induction n)
  case 0
  then show ?case by simp
next
  case (Suc n)
  have "(word_of_nat n :: u64) < 512"
    using Suc.prems by (simp add: word_less_nat_alt unat_of_nat)
  moreover have "j = word_of_nat n \<longleftrightarrow> unat j = n"
    using Suc.prems by (auto simp: word_unat_eq_iff unat_of_nat)
  ultimately show ?case
    using Suc assms by (auto simp: entry_set_entry less_Suc_eq)
qed

lemma fill_frame [simp]:
  "vm_pmm (fold (\<lambda>i. set_entry t (g i) (f i)) is s) = vm_pmm s"
  "pml4_root (fold (\<lambda>i. set_entry t (g i) (f i)) is s) = pml4_root s"
  by (induction "is" arbitrary: s) simp_all

lemma entry_zero_table:
  "aligned t \<Longrightarrow> aligned u \<Longrightarrow> j < 512 \<Longrightarrow>
    entry (zero_table t s) u j = (if u = t then 0 else entry s u j)"
  unfolding zero_table_def by (subst entry_fill) (auto simp: word_less_nat_alt)

lemma zero_table_frame [simp]:
  "vm_pmm (zero_table t s) = vm_pmm s" "pml4_root (zero_table t s) = pml4_root s"
  by (simp_all add: zero_table_def)

section \<open>Walks without creation\<close>

text \<open>
  \<open>tbl s k v\<close> is the table that a walk for \<open>v\<close> consults at level \<open>k\<close> (0 for the PML4,
  3 for the page table), if all entries on the way are present.
\<close>

fun tbl :: "vm \<Rightarrow> nat \<Rightarrow> u64 \<Rightarrow> addr option" where
  "tbl s 0 v = Some (pml4_root s)"
| "tbl s (Suc k) v =
     (case tbl s k v of
        None \<Rightarrow> None
      | Some t \<Rightarrow> if entry s t (idx k v) AND 1 = 0 then None else Some (page_base (entry s t (idx k v))))"

text \<open>The physical page \<open>v\<close> is mapped to.\<close>

definition vmap :: "vm \<Rightarrow> u64 \<Rightarrow> addr option" where
  "vmap s v = tbl s (Suc 3) v"

definition no_huge :: "vm \<Rightarrow> bool" where
  "no_huge s \<longleftrightarrow> (\<forall>v t. tbl s 2 v = Some t \<longrightarrow> entry s t (idx 2 v) AND 0x80 = 0)"

lemmas level_numerals = numeral_3_eq_3 numeral_2_eq_2

lemma walk_nocreate:
  assumes "no_huge s"
  shows "walk_with al v False s = Inr (case tbl s 3 v of None \<Rightarrow> 0 | Some t \<Rightarrow> t, s)"
  using assms [unfolded no_huge_def, rule_format, of v]
  by (auto simp: walk_with_def walk_level_def idx_levels page_consts level_numerals split: option.splits)

section \<open>The table tree\<close>

text \<open>
  The tables form a tree: a table is reached at one level only and by one prefix of
  indices only. They are aligned and non-null, and the physical allocator does not own
  them.
\<close>

definition vm_tree :: "vm \<Rightarrow> bool" where
  "vm_tree s \<longleftrightarrow> (\<forall>j k v w t. j \<le> 3 \<longrightarrow> k \<le> 3 \<longrightarrow> tbl s j v = Some t \<longrightarrow> tbl s k w = Some t \<longrightarrow>
     j = k \<and> (\<forall>i<j. idx i v = idx i w))"

definition is_table :: "vm \<Rightarrow> addr \<Rightarrow> bool" where
  "is_table s t \<longleftrightarrow> (\<exists>k v. k \<le> 3 \<and> tbl s k v = Some t)"

definition low :: "u64 \<Rightarrow> bool" where "low v \<longleftrightarrow> idx 0 v = 0 \<and> idx 1 v = 0 \<and> idx 2 v = 0"

definition vm_ok :: "vm \<Rightarrow> bool" where
  "vm_ok s \<longleftrightarrow> pmm_ok (vm_pmm s) \<and> vm_tree s \<and> aligned (pml4_root s) \<and> no_huge s \<and>
     (\<forall>t. is_table s t \<longrightarrow> t \<noteq> 0 \<and> t \<notin> pmm_avail (vm_pmm s)) \<and>
     (\<forall>v. low v \<longrightarrow> vmap s v = Some (v AND 0x1FF000))"

lemma vmap_eq: "vmap s v = (case tbl s 3 v of None \<Rightarrow> None | Some t \<Rightarrow>
    if entry s t (idx 3 v) AND 1 = 0 then None else Some (page_base (entry s t (idx 3 v))))"
  by (simp only: vmap_def tbl.simps)

lemma tbl_prefix: "\<forall>i<k. idx i v = idx i w \<Longrightarrow> tbl s k v = tbl s k w"
  by (induction k) (simp_all add: All_less_Suc split: option.split)

lemma tbl_aligned: "aligned (pml4_root s) \<Longrightarrow> tbl s k v = Some t \<Longrightarrow> aligned t"
  by (cases k) (auto split: option.splits if_splits)

lemma tbl_cong:
  assumes "pml4_root s' = pml4_root s"
    and "\<And>j t. j < k \<Longrightarrow> tbl s j v = Some t \<Longrightarrow> entry s' t (idx j v) = entry s t (idx j v)"
  shows "tbl s' k v = tbl s k v"
  using assms(2) by (induction k) (simp_all add: assms(1) split: option.splits)

lemma tbl_Some_le: "tbl s k v = Some t \<Longrightarrow> j \<le> k \<Longrightarrow> \<exists>u. tbl s j v = Some u"
  by (induction k arbitrary: t) (auto simp: le_Suc_eq split: option.splits if_splits)

text \<open>Storing to an entry of a page table changes no table and only the mapping of its page.\<close>

lemma tbl_set_leaf:
  assumes "vm_tree s" "aligned (pml4_root s)" "tbl s 3 v = Some t" "k \<le> 3"
  shows "tbl (set_entry t (idx 3 v) e s) k w = tbl s k w"
proof (rule tbl_cong)
  fix j u
  assume j: "j < k" "tbl s j w = Some u"
  with assms have "u \<noteq> t" unfolding vm_tree_def by (metis less_irrefl less_le_trans order_refl less_imp_le)
  then show "entry (set_entry t (idx 3 v) e s) u (idx j w) = entry s u (idx j w)"
    using j assms tbl_aligned by (simp add: entry_set_entry)
qed simp

lemma vmap_set_leaf:
  assumes "vm_tree s" "aligned (pml4_root s)" "tbl s 3 v = Some t"
  shows "vmap (set_entry t (idx 3 v) e s) w =
    (if \<forall>i\<le>3. idx i w = idx i v then (if e AND 1 = 0 then None else Some (page_base e)) else vmap s w)"
proof -
  have same: "(\<forall>i\<le>3. idx i w = idx i v) \<longleftrightarrow> tbl s 3 w = Some t \<and> idx 3 w = idx 3 v"
    using assms(1,3) tbl_prefix [of 3 w v s] unfolding vm_tree_def
    by (metis le_neq_implies_less less_imp_le order_refl)
  show ?thesis
    using assms tbl_aligned [OF assms(2)] same
    by (auto simp: vmap_eq tbl_set_leaf entry_set_entry split: option.splits)
qed

lemma vm_treeD:
  "vm_tree s \<Longrightarrow> tbl s j v = Some t \<Longrightarrow> tbl s k w = Some t \<Longrightarrow> j \<le> 3 \<Longrightarrow> k \<le> 3 \<Longrightarrow>
    j = k \<and> (\<forall>i<j. idx i v = idx i w)"
  unfolding vm_tree_def by blast

lemma aligned_link_bits:
  assumes "aligned p"
  shows "(p OR 3) AND 1 \<noteq> 0" and "(p OR 3) AND 0x80 = 0"
proof -
  have "p AND 0x80 = p AND (0xFFF AND 0x80)" by simp
  also have "\<dots> = 0" using assms by (simp only: aligned_def and.assoc [symmetric] bit.conj_zero_left)
  finally show "(p OR 3) AND 0x80 = 0" by (simp add: bit.conj_disj_distrib2)
  show "(p OR 3) AND 1 \<noteq> 0"
    by (simp add: and_one_eq odd_iff_mod_2_eq_one [symmetric] even_or_iff)
qed

text \<open>Linking a cleared, unused page as the next table.\<close>

lemma tbl_link:
  assumes tree: "vm_tree s" and root: "aligned (pml4_root s)" and t: "tbl s k v = Some t" "k \<le> 2"
    and p: "aligned p" "\<not> is_table s p" "\<And>i. i < 512 \<Longrightarrow> entry s p i = 0" and "j \<le> 4"
  shows "tbl (set_entry t (idx k v) (p OR 3) s) j w =
    (if j \<le> k \<or> \<not> (\<forall>i\<le>k. idx i w = idx i v) then tbl s j w else if j = Suc k then Some p else None)"
  using \<open>j \<le> 4\<close>
proof (induction j)
  case 0
  then show ?case by simp
next
  case (Suc j)
  let ?s = "set_entry t (idx k v) (p OR 3) s"
  have e: "entry ?s u (idx j w) = (if u = t \<and> idx j w = idx k v then p OR 3 else entry s u (idx j w))" if "aligned u" for u
    using that tbl_aligned [OF root t(1)] by (simp add: entry_set_entry)
  have other: "u = t \<Longrightarrow> j = k" if "tbl s j w = Some u" for u
    using vm_treeD [OF tree that, of k v] t Suc.prems by auto
  consider "j < k" | "j = k" | "k < j" "\<forall>i\<le>k. idx i w = idx i v" | "k < j" "\<not> (\<forall>i\<le>k. idx i w = idx i v)"
    using nat_neq_iff [of j k] by blast
  then show ?case
  proof cases
    case 1
    with Suc other e tbl_aligned [OF root] show ?thesis by (auto split: option.splits)
  next
    case 2
    have "tbl s k w = Some t \<and> idx k w = idx k v \<longleftrightarrow> (\<forall>i\<le>k. idx i w = idx i v)"
      using vm_treeD [OF tree t(1), of k w] t tbl_prefix [of k w v s]
      by (auto simp: le_less) 
    with 2 Suc e tbl_aligned [OF root] p(1) show ?thesis
      by (auto simp: aligned_link aligned_link_bits split: option.splits)
  next
    case 3
    have "p \<noteq> t" using p(2) t by (auto simp: is_table_def)
    with 3 Suc e [OF p(1)] p(3) show ?thesis by auto
  next
    case 4
    with Suc other e tbl_aligned [OF root] show ?thesis by (auto split: option.splits)
  qed
qed

declare tbl.simps(2) [simp del]

lemma tbl_link_cases:
  assumes "vm_tree s" "aligned (pml4_root s)" "tbl s k v = Some t" "k \<le> 2"
    and "aligned p" "\<not> is_table s p" "\<And>i. i < 512 \<Longrightarrow> entry s p i = 0"
    and "tbl (set_entry t (idx k v) (p OR 3) s) j w = Some u" "j \<le> 3"
  shows "tbl s j w = Some u \<or> j = Suc k \<and> u = p \<and> (\<forall>i\<le>k. idx i w = idx i v)"
  using assms(8,9) by (simp add: tbl_link [OF assms(1-7)] split: if_splits)

lemma is_table_link:
  assumes "vm_tree s" "aligned (pml4_root s)" "tbl s k v = Some t" "k \<le> 2"
    and "aligned p" "\<not> is_table s p" "\<And>i. i < 512 \<Longrightarrow> entry s p i = 0"
    and ne: "entry s t (idx k v) AND 1 = 0"
  shows "is_table (set_entry t (idx k v) (p OR 3) s) u \<longleftrightarrow> is_table s u \<or> u = p"
proof -
  let ?s = "set_entry t (idx k v) (p OR 3) s"
  note link = tbl_link [OF assms(1-7)]
  have none: "tbl s j w = None" if "k < j" "\<forall>i\<le>k. idx i w = idx i v" for j w
  proof -
    have "tbl s (Suc k) w = None"
      using tbl_prefix [of k w v s] assms(3) ne that by (simp add: tbl.simps(2))
    with that show ?thesis using tbl_Some_le [of s j w _ "Suc k"] by fastforce
  qed
  have "tbl ?s (Suc k) v = Some p" using link [of "Suc k" v] assms(4) by simp
  then have "is_table ?s p" using assms(4) unfolding is_table_def by (intro exI [of _ "Suc k"]) auto
  moreover have "is_table ?s u" if u: "is_table s u" for u
  proof -
    obtain j w where j: "j \<le> 3" "tbl s j w = Some u" using u by (auto simp: is_table_def)
    with none [of j w] have "tbl ?s j w = Some u" using link [of j w] by (cases "k < j") auto
    with j show ?thesis by (auto simp: is_table_def)
  qed
  moreover have "is_table s u \<or> u = p" if u: "is_table ?s u" for u
  proof -
    obtain j w where j: "j \<le> 3" "tbl ?s j w = Some u" using u by (auto simp: is_table_def)
    with tbl_link_cases [OF assms(1-7) j(2,1)] show ?thesis by (auto simp: is_table_def)
  qed
  ultimately show ?thesis by blast
qed

lemma vm_tree_link:
  assumes "vm_tree s" "aligned (pml4_root s)" "tbl s k v = Some t" "k \<le> 2"
    and "aligned p" "\<not> is_table s p" "\<And>i. i < 512 \<Longrightarrow> entry s p i = 0"
  shows "vm_tree (set_entry t (idx k v) (p OR 3) s)"
  unfolding vm_tree_def
proof (intro allI impI)
  fix i j a b u
  let ?s = "set_entry t (idx k v) (p OR 3) s"
  assume ij: "i \<le> 3" "j \<le> 3" and u: "tbl ?s i a = Some u" "tbl ?s j b = Some u"
  have new: False if "tbl s n w = Some p" "n \<le> 3" for n w
    using assms(6) that by (auto simp: is_table_def)
  from tbl_link_cases [OF assms u(1) ij(1)] show "i = j \<and> (\<forall>n<i. idx n a = idx n b)"
  proof
    assume "tbl s i a = Some u"
    with new ij tbl_link_cases [OF assms u(2) ij(2)] show ?thesis
      using vm_treeD [OF assms(1)] by blast
  next
    assume "i = Suc k \<and> u = p \<and> (\<forall>n\<le>k. idx n a = idx n v)"
    with new ij tbl_link_cases [OF assms u(2) ij(2)] show ?thesis
      by (auto simp: less_Suc_eq_le)
  qed
qed

lemma vmap_link:
  assumes "vm_tree s" "aligned (pml4_root s)" "tbl s k v = Some t" "k \<le> 2"
    and "aligned p" "\<not> is_table s p" "\<And>i. i < 512 \<Longrightarrow> entry s p i = 0"
    and ne: "entry s t (idx k v) AND 1 = 0"
  shows "vmap (set_entry t (idx k v) (p OR 3) s) = vmap s"
proof
  fix w
  have "tbl s (Suc 3) w = None" if "\<forall>i\<le>k. idx i w = idx i v"
  proof -
    have "tbl s (Suc k) w = None"
      using tbl_prefix [of k w v s] assms(3) ne that by (simp add: tbl.simps(2))
    with assms(4) show ?thesis using tbl_Some_le [of s "Suc 3" w _ "Suc k"] by fastforce
  qed
  then show "vmap (set_entry t (idx k v) (p OR 3) s) w = vmap s w"
    using tbl_link [OF assms(1-7), of "Suc 3" w] assms(4) by (auto simp: vmap_def)
qed

section \<open>Mapping a page\<close>

lemma tbl_Suc_Some: "tbl s (Suc k) v = Some t \<longleftrightarrow>
    (\<exists>u. tbl s k v = Some u \<and> entry s u (idx k v) AND 1 \<noteq> 0 \<and> t = page_base (entry s u (idx k v)))"
  by (auto simp: tbl.simps(2) split: option.splits)

lemma tbl_frame:
  assumes "pml4_root s' = pml4_root s" "\<And>t j. is_table s t \<Longrightarrow> j < 512 \<Longrightarrow> entry s' t j = entry s t j" "k \<le> 4"
  shows "tbl s' k v = tbl s k v"
proof (rule tbl_cong [OF assms(1)])
  fix j t
  assume "j < k" "tbl s j v = Some t"
  with assms(3) have "is_table s t" unfolding is_table_def by (intro exI [of _ j]) auto
  then show "entry s' t (idx j v) = entry s t (idx j v)" by (rule assms(2)) simp
qed

lemma walk_existing:
  assumes "no_huge s" "tbl s 3 v = Some t"
  shows "walk_with al v create s = Inr (t, s)"
proof -
  obtain t2 where t2: "tbl s 2 v = Some t2" "entry s t2 (idx 2 v) AND 1 \<noteq> 0" "t = page_base (entry s t2 (idx 2 v))"
    using assms(2) tbl_Suc_Some [of s 2 v t] by auto
  obtain t1 where t1: "tbl s 1 v = Some t1" "entry s t1 (idx 1 v) AND 1 \<noteq> 0" "t2 = page_base (entry s t1 (idx 1 v))"
    using t2(1) tbl_Suc_Some [of s 1 v t2] by (auto simp: numeral_2_eq_2)
  have t0: "entry s (pml4_root s) (idx 0 v) AND 1 \<noteq> 0" "t1 = page_base (entry s (pml4_root s) (idx 0 v))"
    using t1(1) tbl_Suc_Some [of s 0 v t1] by auto
  have "entry s t2 (idx 2 v) AND 0x80 = 0" using assms(1) t2(1) by (simp add: no_huge_def)
  with t0 t1 t2 show ?thesis
    by (simp add: walk_with_def walk_level_def idx_levels page_consts)
qed

lemma low_small: "a < 0x200000 \<Longrightarrow> low a"
proof -
  assume "a < 0x200000"
  then have "unat a < 0x200000" by (simp add: word_less_nat_alt)
  then have "drop_bit n a = 0" if "21 \<le> n" for n
  proof -
    have "(2 :: nat) ^ 21 \<le> 2 ^ n" using that by (intro power_increasing) simp_all
    with \<open>unat a < 0x200000\<close> have "unat a div 2 ^ n = 0" by simp
    then have "unat (drop_bit n a) = 0" unfolding unat_drop_bit_eq by (simp only: drop_bit_eq_div)
    then show ?thesis by (simp only: unat_eq_0)
  qed
  then show ?thesis by (simp add: low_def idx_def)
qed

lemma small_mask: "a < (0x200000 :: u64) \<Longrightarrow> a AND 0x1FFFFF = a"
proof -
  assume "a < 0x200000"
  then have "unat (take_bit 21 a) = unat a"
    by (simp only: unsigned_take_bit_eq) (simp add: take_bit_nat_eq_self_iff word_less_nat_alt)
  then have "take_bit 21 a = a" by (simp only: word_unat_eq_iff)
  then show ?thesis by (simp add: take_bit_eq_mask mask_eq_exp_minus_1)
qed

lemma small_page: "a < 0x200000 \<Longrightarrow> aligned a \<Longrightarrow> a AND 0x1FF000 = a"
proof -
  assume a: "a < 0x200000" "aligned a"
  have "a AND 0x1FFFFF = a" using a(1) by (rule small_mask)
  moreover have "a AND 0x1FFFFF = (a AND 0x1FF000) OR (a AND 0xFFF)"
    by (simp add: bit.conj_disj_distrib [symmetric])
  ultimately show ?thesis using a(2) by (simp add: aligned_def)
qed

definition low_free :: "vm \<Rightarrow> u64 set" where
  "low_free s = {a \<in> pmm_avail (vm_pmm s). a < 0x200000}"

text \<open>What a table allocation does to the state when a page of the first 2 MiB is free.\<close>

definition alloc_step :: "vm \<Rightarrow> addr \<Rightarrow> vm \<Rightarrow> bool" where
  "alloc_step s p s' \<longleftrightarrow> p \<in> low_free s \<and> aligned p \<and> p \<noteq> 0 \<and> vm_ok s' \<and> \<not> is_table s' p \<and>
     pml4_root s' = pml4_root s \<and> pmm_avail (vm_pmm s') = pmm_avail (vm_pmm s) - {p} \<and>
     (\<forall>i<512. entry s' p i = 0) \<and> (\<forall>k v. k \<le> 3 \<longrightarrow> tbl s' k v = tbl s k v) \<and> vmap s' = vmap s \<and>
     (\<forall>k v t. k \<le> 2 \<longrightarrow> tbl s k v = Some t \<longrightarrow> entry s' t (idx k v) = entry s t (idx k v))"

lemma tbl_pmm [simp]: "tbl (s\<lparr>vm_pmm := pm\<rparr>) k v = tbl s k v"
  by (rule tbl_cong) (simp_all add: entry_def)

lemma entry_pmm [simp]: "entry (s\<lparr>vm_pmm := pm\<rparr>) = entry s"
  by (simp add: entry_def fun_eq_iff)

lemma vmap_pmm [simp]: "vmap (s\<lparr>vm_pmm := pm\<rparr>) = vmap s"
  by (simp add: vmap_def fun_eq_iff)

lemma vm_ok_parts:
  assumes "vm_ok s"
  shows "pmm_ok (vm_pmm s)" "vm_tree s" "aligned (pml4_root s)" "no_huge s"
    "\<And>t. is_table s t \<Longrightarrow> t \<noteq> 0" "\<And>t. is_table s t \<Longrightarrow> t \<notin> pmm_avail (vm_pmm s)"
    "\<And>v. low v \<Longrightarrow> vmap s v = Some (v AND 0x1FF000)"
  using assms by (simp_all add: vm_ok_def)

lemma is_table_cong: "(\<And>k v. k \<le> 3 \<Longrightarrow> tbl s' k v = tbl s k v) \<Longrightarrow> is_table s' t = is_table s t"
  unfolding is_table_def by (intro ex_cong1 conj_cong refl) simp_all

lemma no_huge_cong:
  assumes "no_huge s" "\<And>v. tbl s' 2 v = tbl s 2 v"
    "\<And>v t. tbl s 2 v = Some t \<Longrightarrow> entry s' t (idx 2 v) = entry s t (idx 2 v)"
  shows "no_huge s'"
  using assms unfolding no_huge_def by metis

text \<open>A change of state that keeps the tables, the mapping and the links keeps the invariant.\<close>

lemma vm_ok_cong:
  assumes ok: "vm_ok s" and root: "pml4_root s' = pml4_root s"
    and tb: "\<And>k v. k \<le> 3 \<Longrightarrow> tbl s' k v = tbl s k v" and vm: "vmap s' = vmap s"
    and en: "\<And>v t. tbl s 2 v = Some t \<Longrightarrow> entry s' t (idx 2 v) = entry s t (idx 2 v)"
    and pm: "pmm_ok (vm_pmm s')" "pmm_avail (vm_pmm s') \<subseteq> pmm_avail (vm_pmm s)"
  shows "vm_ok s'"
proof -
  note parts = vm_ok_parts [OF ok]
  have "no_huge s'" using parts(4) by (rule no_huge_cong) (simp_all add: tb en)
  moreover have "vm_tree s'" using parts(2) tb by (simp add: vm_tree_def)
  moreover have "t \<noteq> 0 \<and> t \<notin> pmm_avail (vm_pmm s')" if "is_table s' t" for t
    using that is_table_cong [OF tb] parts(5,6) pm(2) by blast
  ultimately show ?thesis using pm(1) parts(3,7) root vm unfolding vm_ok_def by simp
qed

lemma pmm_alloc_low:
  assumes "pmm_ok p" "a \<in> pmm_avail p" "a < 0x200000"
  obtains b p' where "pmm_alloc_page p = Inr (b, p')" "b \<in> pmm_avail p" "b < 0x200000"
    "pmm_avail p' = pmm_avail p - {b}" "pmm_ok p'"
proof -
  obtain q where q: "a = q * 4096" "page_ok q" "256 \<le> q" "q < mem_end p div 4096" "\<not> page_used p q"
    using pmm_avail_page_ok [OF assms(1,2)] by blast
  have "pmm_avail p \<noteq> {}" using assms(2) by blast
  then obtain b p' where b: "pmm_alloc_page p = Inr (b, p')" "b \<in> pmm_avail p"
    "pmm_avail p' = pmm_avail p - {b}" "pmm_ok p'"
    using pmmi.alloc_some [OF assms(1)] by blast
  have "b \<le> a"
    using assms(1)
  proof (cases rule: pmm_alloc_page_cases)
    case full
    with q show ?thesis by blast
  next
    case (page r bm)
    then have "r \<le> q" using q by (meson not_le)
    moreover have "page_ok r" using page_ok_scan [OF assms(1) page(2)] .
    ultimately have "r * 4096 \<le> q * 4096"
      using q(2) by (simp add: word_le_nat_alt unat_page_addr)
    with page(5) b(1) q(1) show ?thesis by simp
  qed
  with assms(3) b that show thesis by (meson le_less_trans)
qed

lemma identity_map_low:
  assumes ok: "vm_ok s" and p: "p < 0x200000" "aligned p" and pm: "pmm_ok pm" "pmm_avail pm \<subseteq> pmm_avail (vm_pmm s)"
  shows "\<exists>s'. map_page_with al p p 0 (s\<lparr>vm_pmm := pm\<rparr>) = Inr (p, s') \<and> vm_ok s' \<and> vm_pmm s' = pm \<and>
    pml4_root s' = pml4_root s \<and> (\<forall>k v. k \<le> 3 \<longrightarrow> tbl s' k v = tbl s k v) \<and> vmap s' = vmap s \<and>
    (\<forall>k v t. k \<le> 2 \<longrightarrow> tbl s k v = Some t \<longrightarrow> entry s' t (idx k v) = entry s t (idx k v))"
proof -
  note parts = vm_ok_parts [OF ok]
  have vp: "vmap s p = Some p" using parts(7) low_small [OF p(1)] small_page [OF p] by simp
  then obtain t where t: "tbl s 3 p = Some t" by (auto simp: vmap_eq split: option.splits)
  have "is_table s t" using t unfolding is_table_def by blast
  with parts(5) have t0: "t \<noteq> 0" by blast
  let ?r = "s\<lparr>vm_pmm := pm\<rparr>"
  let ?s = "set_entry t (idx 3 p) (p OR 3) ?r"
  have nh: "no_huge ?r" using parts(4) by (simp add: no_huge_def)
  have tr: "vm_tree ?r" using parts(2) by (simp add: vm_tree_def)
  have ro: "aligned (pml4_root ?r)" using parts(3) by simp
  have t': "tbl ?r 3 p = Some t" using t by simp
  have tb: "tbl ?s k v = tbl s k v" if "k \<le> 3" for k v
    using tbl_set_leaf [OF tr ro t' that] by simp
  have "vmap ?s w = vmap s w" for w
  proof (cases "\<forall>i\<le>3. idx i w = idx i p")
    case True
    then have "vmap s w = Some p" using vp tbl_prefix [of "Suc 3" w p s] by (simp add: vmap_def)
    with True show ?thesis
      by (simp add: vmap_set_leaf [OF tr ro t'] aligned_link_bits [OF p(2)] aligned_link [OF p(2)])
  next
    case False
    then show ?thesis by (auto simp: vmap_set_leaf [OF tr ro t'])
  qed
  then have vm: "vmap ?s = vmap s" by blast
  have en: "entry ?s u (idx k v) = entry s u (idx k v)" if k: "k \<le> 2" "tbl s k v = Some u" for k v u
  proof -
    have "u \<noteq> t" using vm_treeD [OF parts(2) k(2), of 3 p] t k(1) by fastforce
    then show ?thesis
      using tbl_aligned [OF parts(3) k(2)] tbl_aligned [OF parts(3) t] by (simp add: entry_set_entry)
  qed
  have "vm_ok ?s"
    using ok by (rule vm_ok_cong) (simp_all add: tb vm en pm)
  moreover have "map_page_with al p p 0 ?r = Inr (p, ?s)"
    using walk_existing [OF nh t', of al True] t0 aligned_keep [OF p(2)]
    by (simp add: map_page_with_def idx_levels page_consts or.assoc)
  ultimately show ?thesis using tb vm en by (intro exI [of _ ?s]) simp
qed

lemma table_alloc_low:
  assumes "vm_ok s" "low_free s \<noteq> {}"
  shows "\<exists>p s'. table_alloc (Suc d) s = Inr (p, s') \<and> alloc_step s p s'"
proof -
  note parts = vm_ok_parts [OF assms(1)]
  from assms(2) obtain a where "a \<in> pmm_avail (vm_pmm s)" "a < 0x200000" by (auto simp: low_free_def)
  then obtain p pm where p: "pmm_alloc_page (vm_pmm s) = Inr (p, pm)" "p \<in> pmm_avail (vm_pmm s)" "p < 0x200000"
    "pmm_avail pm = pmm_avail (vm_pmm s) - {p}" "pmm_ok pm"
    using pmm_alloc_low [OF parts(1)] by blast
  have p0: "p \<noteq> 0" using p(2) pmmi.avail_nonzero [OF parts(1)] by blast
  have al: "aligned p" using pmmi.avail_aligned [OF parts(1) p(2)] by (simp add: aligned_mod)
  have sub: "pmm_avail pm \<subseteq> pmm_avail (vm_pmm s)" using p(4) by blast
  obtain s1 where s1: "map_page_with (table_alloc d) p p 0 (s\<lparr>vm_pmm := pm\<rparr>) = Inr (p, s1)"
    "vm_ok s1" "vm_pmm s1 = pm" "pml4_root s1 = pml4_root s" "\<forall>k v. k \<le> 3 \<longrightarrow> tbl s1 k v = tbl s k v"
    "vmap s1 = vmap s" "\<forall>k v t. k \<le> 2 \<longrightarrow> tbl s k v = Some t \<longrightarrow> entry s1 t (idx k v) = entry s t (idx k v)"
    using identity_map_low [OF assms(1) p(3) al p(5) sub, of "table_alloc d"] by blast
  let ?s = "zero_table p s1"
  have np: "\<not> is_table s1 p"
    using parts(6) p(2) is_table_cong [of s1 s p] s1(5) by blast
  have en: "entry ?s t j = entry s1 t j" if "is_table s1 t" "j < 512" for t j
  proof -
    have "aligned t" using that(1) tbl_aligned [OF vm_ok_parts(3) [OF s1(2)]] by (auto simp: is_table_def)
    with np that al show ?thesis by (auto simp: entry_zero_table)
  qed
  have tb: "tbl ?s k v = tbl s1 k v" if "k \<le> 4" for k v
    by (rule tbl_frame) (simp_all add: en that)
  then have vm: "vmap ?s = vmap s1" by (simp add: vmap_def fun_eq_iff)
  have en2: "entry ?s t (idx k v) = entry s1 t (idx k v)" if "k \<le> 2" "tbl s1 k v = Some t" for k v t
    by (rule en) (use that in \<open>auto simp: is_table_def intro: exI [of _ k]\<close>)
  have "vm_ok ?s"
    using s1(2) by (rule vm_ok_cong) (simp_all add: tb vm en2 s1(3) p(5))
  moreover have "\<not> is_table ?s p" using np is_table_cong [of ?s s1 p] tb by auto
  moreover have "entry ?s p i = 0" if "i < 512" for i using that al by (simp add: entry_zero_table)
  ultimately have "alloc_step s p ?s"
    using p al p0 s1(3-7) tb vm en2 by (auto simp: alloc_step_def low_free_def)
  moreover have "table_alloc (Suc d) s = Inr (p, ?s)" using p(1) p0 s1(1) by (simp add: table_alloc.simps)
  ultimately show ?thesis by blast
qed

declare table_alloc.simps [simp del]

text \<open>One level of a creating walk: the next table exists afterwards, no mapping has changed.\<close>

definition level_step :: "vm \<Rightarrow> vm \<Rightarrow> bool" where
  "level_step s s' \<longleftrightarrow> vm_ok s' \<and> vmap s' = vmap s \<and> pml4_root s' = pml4_root s \<and>
     card (low_free s) \<le> Suc (card (low_free s')) \<and>
     pmm_avail (vm_pmm s') \<subseteq> pmm_avail (vm_pmm s)"

lemma vm_ok_link:
  assumes ok: "vm_ok s" and t: "tbl s k v = Some t" "k \<le> 2" "entry s t (idx k v) AND 1 = 0"
    and p: "aligned p" "\<not> is_table s p" "\<And>i. i < 512 \<Longrightarrow> entry s p i = 0" "p \<noteq> 0" "p \<notin> pmm_avail (vm_pmm s)"
  shows "vm_ok (set_entry t (idx k v) (p OR 3) s)"
proof -
  note parts = vm_ok_parts [OF ok]
  let ?s = "set_entry t (idx k v) (p OR 3) s"
  note args = parts(2,3) t(1,2) p(1-3)
  have at: "aligned t" using tbl_aligned [OF parts(3) t(1)] .
  have "entry ?s u (idx 2 w) AND 0x80 = 0" if u: "tbl ?s 2 w = Some u" for u w
  proof -
    from tbl_link_cases [OF args u] have "aligned u \<and> entry s u (idx 2 w) AND 0x80 = 0"
      using parts(4) p(1,3) tbl_aligned [OF parts(3)] by (auto simp: no_huge_def)
    then show ?thesis using at aligned_link_bits [OF p(1)] by (simp add: entry_set_entry)
  qed
  then have "no_huge ?s" by (simp add: no_huge_def)
  moreover have "u \<noteq> 0 \<and> u \<notin> pmm_avail (vm_pmm s)" if "is_table ?s u" for u
    using that is_table_link [OF args t(3)] parts(5,6) p(4,5) by blast
  ultimately show ?thesis
    using parts(1,3,7) vm_tree_link [OF args] vmap_link [OF args t(3)] by (simp add: vm_ok_def)
qed

lemma walk_level_create:
  assumes ok: "vm_ok s" and t: "tbl s k v = Some t" "k \<le> 2" and free: "low_free s \<noteq> {}"
  shows "\<exists>n s'. walk_level (table_alloc (Suc d)) True t (idx k v) s = Inr (Some n, s') \<and>
    tbl s' (Suc k) v = Some n \<and> level_step s s'"
proof (cases "entry s t (idx k v) AND 1 = 0")
  case False
  then show ?thesis
    using ok t by (simp add: walk_level_def page_consts level_step_def tbl.simps(2))
next
  case True
  obtain p s1 where p: "table_alloc (Suc d) s = Inr (p, s1)" "alloc_step s p s1"
    using table_alloc_low [OF ok free] by blast
  note st = p(2) [unfolded alloc_step_def]
  let ?s = "set_entry t (idx k v) (p OR 3) s1"
  have t1: "tbl s1 k v = Some t" "entry s1 t (idx k v) AND 1 = 0" using st t True by auto
  have p1: "aligned p" "\<not> is_table s1 p" "\<And>i. i < 512 \<Longrightarrow> entry s1 p i = 0" "p \<noteq> 0" "p \<notin> pmm_avail (vm_pmm s1)"
    using st by auto
  have ok1: "vm_ok s1" using st by blast
  note args = vm_ok_parts(2,3) [OF ok1] t1(1) t(2) p1(1-3)
  have okr: "vm_ok ?s" by (rule vm_ok_link [OF ok1 t1(1) t(2) t1(2) p1])
  have vm: "vmap ?s = vmap s" using vmap_link [OF args t1(2)] st by simp
  have "finite (low_free s)"
    using pmmi.avail_finite [OF vm_ok_parts(1) [OF ok]] by (simp add: low_free_def)
  moreover have "low_free ?s = low_free s - {p}" using st by (auto simp: low_free_def)
  ultimately have "card (low_free s) \<le> Suc (card (low_free ?s))" using st by (simp add: card_Diff_singleton)
  with okr vm st have "level_step s ?s" by (auto simp: level_step_def)
  moreover have "tbl ?s (Suc k) v = Some p" using tbl_link [OF args, of "Suc k" v] t(2) by simp
  ultimately show ?thesis using p(1) True by (simp add: walk_level_def page_consts)
qed

lemma walk_create:
  assumes ok: "vm_ok s" and free: "3 \<le> card (low_free s)"
  shows "\<exists>t s'. walk_with (table_alloc (Suc d)) v True s = Inr (t, s') \<and> t \<noteq> 0 \<and>
    tbl s' 3 v = Some t \<and> vm_ok s' \<and> vmap s' = vmap s \<and> pmm_avail (vm_pmm s') \<subseteq> pmm_avail (vm_pmm s) \<and>
    card (low_free s) \<le> card (low_free s') + 3"
proof -
  let ?al = "table_alloc (Suc d)"
  have f: "low_free s \<noteq> {}" using free by auto
  obtain t1 s1 where 1: "walk_level ?al True (pml4_root s) (idx 0 v) s = Inr (Some t1, s1)"
    "tbl s1 (Suc 0) v = Some t1" "level_step s s1"
    using walk_level_create [OF ok _ _ f, of 0 v "pml4_root s" d] by auto
  then have ok1: "vm_ok s1" and c1: "2 \<le> card (low_free s1)" using free by (auto simp: level_step_def)
  then have f1: "low_free s1 \<noteq> {}" by auto
  obtain t2 s2 where 2: "walk_level ?al True t1 (idx (Suc 0) v) s1 = Inr (Some t2, s2)"
    "tbl s2 (Suc (Suc 0)) v = Some t2" "level_step s1 s2"
    using walk_level_create [OF ok1 1(2) _ f1, of d] by auto
  then have ok2: "vm_ok s2" and c2: "1 \<le> card (low_free s2)" using c1 by (auto simp: level_step_def)
  then have f2: "low_free s2 \<noteq> {}" by auto
  have nh: "entry s2 t2 (idx 2 v) AND 0x80 = 0"
    using vm_ok_parts(4) [OF ok2] 2(2) by (simp add: no_huge_def numeral_2_eq_2)
  obtain t3 s3 where 3: "walk_level ?al True t2 (idx 2 v) s2 = Inr (Some t3, s3)"
    "tbl s3 3 v = Some t3" "level_step s2 s3"
    using walk_level_create [OF ok2 2(2) _ f2, of d] by (auto simp: level_numerals)
  have ok3: "vm_ok s3" using 3(3) by (simp add: level_step_def)
  have "is_table s3 t3" using 3(2) unfolding is_table_def by blast
  with vm_ok_parts(5) [OF ok3] have "t3 \<noteq> 0" by blast
  moreover have "walk_with ?al v True s = Inr (t3, s3)"
    using 1(1) 2(1) 3(1) nh by (simp add: walk_with_def idx_levels page_consts)
  moreover have "vmap s3 = vmap s" "pmm_avail (vm_pmm s3) \<subseteq> pmm_avail (vm_pmm s)" "card (low_free s) \<le> card (low_free s3) + 3"
    using 1(3) 2(3) 3(3) by (auto simp: level_step_def)
  ultimately show ?thesis using ok3 3(2) by blast
qed

section \<open>Translation\<close>

definition same_page :: "u64 \<Rightarrow> u64 \<Rightarrow> bool" where
  "same_page v w \<longleftrightarrow> (\<forall>i\<le>3. idx i v = idx i w)"

text \<open>\<open>paging_virt_to_phys\<close> computes the abstract mapping.\<close>

lemma virt_to_phys_vmap:
  assumes "vm_ok s"
  shows "paging_virt_to_phys v s = Inr (case vmap s v of None \<Rightarrow> 0 | Some b \<Rightarrow> b + (v AND 0xFFF))"
proof -
  note parts = vm_ok_parts [OF assms]
  have "is_table s t" if "tbl s 3 v = Some t" for t using that unfolding is_table_def by blast
  with parts(5) have "t \<noteq> 0" if "tbl s 3 v = Some t" for t using that by blast
  then show ?thesis
    by (auto simp: paging_virt_to_phys_def walk_def walk_nocreate [OF parts(4)] vmap_eq idx_levels
        page_consts Let_def split: option.splits)
qed

lemma vm_ok_set_leaf:
  assumes ok: "vm_ok s" and t: "tbl s 3 v = Some t" and v: "\<not> low v"
  shows "vm_ok (set_entry t (idx 3 v) e s)"
proof -
  note parts = vm_ok_parts [OF ok]
  let ?s = "set_entry t (idx 3 v) e s"
  have tb: "tbl ?s k w = tbl s k w" if "k \<le> 3" for k w
    by (rule tbl_set_leaf [OF parts(2,3) t that])
  have en: "entry ?s u (idx 2 w) = entry s u (idx 2 w)" if u: "tbl s 2 w = Some u" for u w
  proof -
    have "u \<noteq> t" using vm_treeD [OF parts(2) u, of 3 v] t by fastforce
    then show ?thesis
      using tbl_aligned [OF parts(3) u] tbl_aligned [OF parts(3) t] by (simp add: entry_set_entry)
  qed
  have "no_huge ?s" using parts(4) by (rule no_huge_cong) (simp_all add: tb en)
  moreover have "vm_tree ?s" using parts(2) tb by (simp add: vm_tree_def)
  moreover have "u \<noteq> 0 \<and> u \<notin> pmm_avail (vm_pmm s)" if "is_table ?s u" for u
    using that is_table_cong [OF tb] parts(5,6) by blast
  moreover have "vmap ?s w = Some (w AND 0x1FF000)" if "low w" for w
  proof -
    have "\<not> (\<forall>i\<le>3. idx i w = idx i v)"
    proof
      assume a: "\<forall>i\<le>3. idx i w = idx i v"
      from that v a [rule_format, of 0] a [rule_format, of 1] a [rule_format, of 2] show False
        by (simp add: low_def)
    qed
    then show ?thesis using parts(7) [OF that] by (auto simp: vmap_set_leaf [OF parts(2,3) t])
  qed
  ultimately show ?thesis using parts(1,3) unfolding vm_ok_def by simp
qed

lemma page_base_or: "page_base (a OR b) = page_base a OR page_base b"
  by (simp only: page_base_def bit.conj_disj_distrib2)

lemma page_base_idem [simp]: "page_base (page_base a) = page_base a"
  by (simp add: page_base_def and.assoc)

lemma paging_map_low:
  assumes "vm_ok s" and "3 \<le> card (low_free s)" and "\<not> low virt" and "page_base flags = 0"
  shows "\<exists>s'. paging_map_page virt phys flags s = Inr (virt, s') \<and> vm_ok s' \<and>
    paging_virt_to_phys virt s' = Inr (page_base phys + (virt AND 0xFFF)) \<and>
    (\<forall>w. \<not> same_page w virt \<longrightarrow> paging_virt_to_phys w s' = paging_virt_to_phys w s) \<and>
    pmm_avail (vm_pmm s') \<subseteq> pmm_avail (vm_pmm s) \<and> card (low_free s) \<le> card (low_free s') + 3"
proof -
  obtain d where d: "TABLE_DEPTH = Suc d" by (simp add: TABLE_DEPTH_def)
  obtain t s1 where w: "walk_with (table_alloc TABLE_DEPTH) virt True s = Inr (t, s1)" "t \<noteq> 0"
    "tbl s1 3 virt = Some t" "vm_ok s1" "vmap s1 = vmap s"
    "pmm_avail (vm_pmm s1) \<subseteq> pmm_avail (vm_pmm s)" "card (low_free s) \<le> card (low_free s1) + 3"
    using walk_create [OF assms(1,2), of d virt] unfolding d by blast
  define e where "e = page_base phys OR flags OR 3"
  let ?s = "set_entry t (idx 3 virt) e s1"
  have ok: "vm_ok ?s" by (rule vm_ok_set_leaf [OF w(4,3) assms(3)])
  have b: "page_base e = page_base phys" "e AND 1 \<noteq> 0"
  proof -
    have "page_base 3 = 0" by (simp add: page_base_def)
    then show "page_base e = page_base phys" using assms(4) by (simp add: e_def page_base_or)
    show "e AND 1 \<noteq> 0" by (simp add: e_def and_one_eq odd_iff_mod_2_eq_one [symmetric] even_or_iff)
  qed
  note leaf = vmap_set_leaf [OF vm_ok_parts(2,3) [OF w(4)] w(3), of e]
  have "paging_map_page virt phys flags s = Inr (virt, ?s)"
    using w(1,2) by (simp add: paging_map_page_def map_page_with_def idx_levels page_consts e_def or.assoc)
  moreover have "paging_virt_to_phys virt ?s = Inr (page_base phys + (virt AND 0xFFF))"
    using b by (simp add: virt_to_phys_vmap [OF ok] leaf)
  moreover have "paging_virt_to_phys x ?s = paging_virt_to_phys x s" if "\<not> same_page x virt" for x
    using that w(5) by (auto simp: virt_to_phys_vmap [OF ok] virt_to_phys_vmap [OF assms(1)] leaf same_page_def)
  moreover have "low_free ?s = low_free s1" by (simp add: low_free_def)
  ultimately show ?thesis using ok w(6,7) by (intro exI [of _ ?s]) simp
qed

lemma paging_map_spec:
  assumes "vm_ok s" and "3 \<le> card (low_free s)" and "\<not> low virt" and "page_base flags = 0"
  shows "\<exists>s'. paging_map_page virt phys flags s = Inr (virt, s') \<and> vm_ok s' \<and>
    paging_virt_to_phys virt s' = Inr (page_base phys + (virt AND 0xFFF)) \<and>
    (\<forall>w. \<not> same_page w virt \<longrightarrow> paging_virt_to_phys w s' = paging_virt_to_phys w s)"
  using paging_map_low [OF assms] by blast

text \<open>
  C2. Mapping a page outside the first 2 MiB, with three free pages in the first 2 MiB for
  the tables it may have to create, succeeds; afterwards the address translates to the
  given physical page plus the offset, and no other page's translation has changed.
\<close>

theorem paging_map_translate:
  assumes "vm_ok s" and "3 \<le> card (low_free s)" and "\<not> low virt" and "page_base flags = 0"
  shows "\<exists>s'. paging_map_page virt phys flags s = Inr (virt, s') \<and> vm_ok s' \<and>
    paging_virt_to_phys virt s' = Inr (page_base phys + (virt AND 0xFFF)) \<and>
    (\<forall>w. \<not> same_page w virt \<longrightarrow> paging_virt_to_phys w s' = paging_virt_to_phys w s)"
  using assms by (rule paging_map_spec)

text \<open>
  Unmapping a page outside the first 2 MiB always succeeds, leaves the page without a
  translation and every other page with the one it had.
\<close>

theorem paging_unmap_translate:
  assumes "vm_ok s" and "\<not> low virt"
  shows "\<exists>s'. paging_unmap_page virt s = Inr s' \<and> vm_ok s' \<and> paging_virt_to_phys virt s' = Inr 0 \<and>
    (\<forall>w. \<not> same_page w virt \<longrightarrow> paging_virt_to_phys w s' = paging_virt_to_phys w s)"
proof (cases "tbl s 3 virt")
  case None
  then show ?thesis
    using assms by (simp add: paging_unmap_page_def walk_def walk_nocreate [OF vm_ok_parts(4)]
        virt_to_phys_vmap vmap_eq)
next
  case (Some t)
  note parts = vm_ok_parts [OF assms(1)]
  have "is_table s t" using Some unfolding is_table_def by blast
  with parts(5) have "t \<noteq> 0" by blast
  let ?s = "set_entry t (idx 3 virt) 0 s"
  have ok: "vm_ok ?s" by (rule vm_ok_set_leaf [OF assms(1) Some assms(2)])
  note leaf = vmap_set_leaf [OF parts(2,3) Some, of 0]
  have "paging_unmap_page virt s = Inr ?s"
    using Some \<open>t \<noteq> 0\<close> by (simp add: paging_unmap_page_def walk_def walk_nocreate [OF parts(4)] idx_levels)
  moreover have "paging_virt_to_phys virt ?s = Inr 0" by (simp add: virt_to_phys_vmap [OF ok] leaf)
  moreover have "paging_virt_to_phys x ?s = paging_virt_to_phys x s" if "\<not> same_page x virt" for x
    using that by (auto simp: virt_to_phys_vmap [OF ok] virt_to_phys_vmap [OF assms(1)] leaf same_page_def)
  ultimately show ?thesis using ok by blast
qed

section \<open>Running out of mapped pages\<close>

text \<open>
  The mapping of a fresh table page needs a page table itself. When no free page has one,
  every attempt consumes a page and asks for another.
\<close>

lemma walk_with_fault:
  assumes "no_huge s" "tbl s 3 v = None" "al s = Inl e"
  shows "walk_with al v True s = Inl e"
proof (cases "entry s (pml4_root s) (idx 0 v) AND 1 = 0")
  case True
  then show ?thesis using assms(3) by (simp add: walk_with_def walk_level_def idx_levels page_consts)
next
  case f0: False
  let ?t1 = "page_base (entry s (pml4_root s) (idx 0 v))"
  show ?thesis
  proof (cases "entry s ?t1 (idx 1 v) AND 1 = 0")
    case True
    with f0 show ?thesis using assms(3) by (simp add: walk_with_def walk_level_def idx_levels page_consts)
  next
    case f1: False
    let ?t2 = "page_base (entry s ?t1 (idx 1 v))"
    have "tbl s 2 v = Some ?t2" using f0 f1 by (simp add: numeral_2_eq_2 tbl.simps(2))
    moreover from this have "entry s ?t2 (idx 2 v) AND 1 = 0"
      using assms(2) by (simp add: numeral_3_eq_3 tbl.simps(2)) (simp add: numeral_2_eq_2 tbl.simps(2) split: if_splits)
    ultimately show ?thesis
      using f0 f1 assms(3) by (simp add: walk_with_def walk_level_def idx_levels page_consts)
  qed
qed

lemma table_alloc_oom:
  assumes "pmm_ok (vm_pmm s)" "no_huge s" "\<forall>a \<in> pmm_avail (vm_pmm s). tbl s 3 a = None"
    and "card (pmm_avail (vm_pmm s)) < d"
  shows "table_alloc d s = Inl (Panic ''paging oom'')"
  using assms
proof (induction d arbitrary: s)
  case 0
  then show ?case by simp
next
  case (Suc d)
  obtain a pm where a: "pmm_alloc_page (vm_pmm s) = Inr (a, pm)" "pmm_ok pm"
    using pmmi.alloc_total Suc.prems(1) by blast
  show ?case
  proof (cases "a = 0")
    case True
    with a show ?thesis by (simp add: table_alloc.simps)
  next
    case False
    note r = pmmi.alloc_result [OF Suc.prems(1) a(1) False]
    let ?s = "s\<lparr>vm_pmm := pm\<rparr>"
    have "table_alloc d ?s = Inl (Panic ''paging oom'')"
      by (rule Suc.IH) (use Suc.prems r in \<open>auto simp: no_huge_def\<close>)
    moreover have "no_huge ?s" "tbl ?s 3 a = None"
      using Suc.prems(2,3) r(1) by (auto simp: no_huge_def)
    ultimately have "map_page_with (table_alloc d) a a 0 ?s = Inl (Panic ''paging oom'')"
      by (simp add: map_page_with_def walk_with_fault)
    with a False show ?thesis by (simp add: table_alloc.simps)
  qed
qed

lemma pmm_avail_card: "pmm_ok p \<Longrightarrow> card (pmm_avail p) \<le> MAX_PHYS_PAGES"
proof -
  assume ok: "pmm_ok p"
  have "pmm_avail p \<subseteq> (\<lambda>n. word_of_nat n * 4096) ` {..<MAX_PHYS_PAGES}"
  proof
    fix a
    assume "a \<in> pmm_avail p"
    then obtain q where "a = q * 4096" "page_ok q" using pmm_avail_page_ok [OF ok] by blast
    then show "a \<in> (\<lambda>n. word_of_nat n * 4096) ` {..<MAX_PHYS_PAGES}"
      by (intro image_eqI [of _ _ "unat q"]) (simp_all add: page_ok_def)
  qed
  then show ?thesis using surj_card_le [of "{..<MAX_PHYS_PAGES}"] by simp
qed

text \<open>
  When no free page lies in a range that already has a page table (in practice: once
  the free pages of the first 2 MiB are used up) mapping an address that needs a new table
  ends in the panic \<open>paging oom\<close>, however much memory is free.
\<close>

theorem paging_map_oom:
  assumes "vm_ok s" and "\<forall>a \<in> pmm_avail (vm_pmm s). tbl s 3 a = None" and "tbl s 3 virt = None"
  shows "paging_map_page virt phys flags s = Inl (Panic ''paging oom'')"
proof -
  note parts = vm_ok_parts [OF assms(1)]
  have "table_alloc TABLE_DEPTH s = Inl (Panic ''paging oom'')"
    using pmm_avail_card [OF parts(1)] by (intro table_alloc_oom parts assms) (simp add: TABLE_DEPTH_def)
  with walk_with_fault [OF parts(4) assms(3)] show ?thesis
    by (simp add: paging_map_page_def map_page_with_def)
qed

section \<open>Physical pages used by a mapping\<close>

text \<open>A state change that only takes pages from the physical allocator.\<close>

definition takes_pages :: "vm \<Rightarrow> vm \<Rightarrow> bool" where
  "takes_pages s s' \<longleftrightarrow> pmm_ok (vm_pmm s) \<longrightarrow>
     pmm_ok (vm_pmm s') \<and> pmm_avail (vm_pmm s') \<subseteq> pmm_avail (vm_pmm s)"

lemma takes_pages_refl [simp]: "takes_pages s s"
  by (simp add: takes_pages_def)

lemma takes_pages_trans: "takes_pages s s1 \<Longrightarrow> takes_pages s1 s2 \<Longrightarrow> takes_pages s s2"
  by (auto simp: takes_pages_def)

lemma takes_pages_set_entry [simp]: "takes_pages s (set_entry t i e s') = takes_pages s s'"
  by (simp add: takes_pages_def)

lemma walk_level_takes:
  assumes "\<And>s p s'. al s = Inr (p, s') \<Longrightarrow> takes_pages s s'" "walk_level al c t i s = Inr (r, s')"
  shows "takes_pages s s'"
  using assms by (auto simp: walk_level_def split: if_splits)

lemma takes_bindI:
  "\<lbrakk>bindR m f = Inr (t, s2); \<And>r b. m = Inr (r, b) \<Longrightarrow> takes_pages s b;
    \<And>r b. f (r, b) = Inr (t, s2) \<Longrightarrow> takes_pages b s2\<rbrakk> \<Longrightarrow> takes_pages s s2"
  by (auto intro: takes_pages_trans)

lemma map_page_takes:
  assumes al: "\<And>s p s'. al s = Inr (p, s') \<Longrightarrow> takes_pages s s'" and "map_page_with al v ph fl s = Inr (r, s')"
  shows "takes_pages s s'"
proof -
  have wl: "takes_pages a b" if "walk_level al True t i a = Inr (r, b)" for a b r t i
    using walk_level_takes [OF _ that] al by blast
  have "takes_pages s s1" if w: "walk_with al v True s = Inr (t, s1)" for t s1
    using w [unfolded walk_with_def]
  proof (rule takes_bindI)
    fix r1 b1
    assume "walk_level al True (pml4_root s) (PML4_INDEX v) s = Inr (r1, b1)"
    then show "takes_pages s b1" by (rule wl)
  next
    fix r1 b1
    assume "(case (r1, b1) of (r1, s1) \<Rightarrow> case r1 of None \<Rightarrow> Inr (0, s1) | Some pdpt \<Rightarrow>
       bindR (walk_level al True pdpt (PDPT_INDEX v) s1) (\<lambda>(r2, s2).
         case r2 of None \<Rightarrow> Inr (0, s2) | Some pd \<Rightarrow>
       if entry s2 pd (PD_INDEX v) AND PAGE_PRESENT \<noteq> 0 \<and> entry s2 pd (PD_INDEX v) AND PAGE_SIZE_FLAG \<noteq> 0
       then Inr (0, s2)
       else bindR (walk_level al True pd (PD_INDEX v) s2) (\<lambda>(r3, s3).
         case r3 of None \<Rightarrow> Inr (0, s3) | Some pt \<Rightarrow> Inr (pt, s3)))) = Inr (t, s1)"
    then show "takes_pages b1 s1"
      by (cases r1) (auto split: option.splits if_splits dest!: wl intro: takes_pages_trans)
  qed
  then show ?thesis using assms(2) by (auto simp: map_page_with_def split: if_splits)
qed

lemma pmm_alloc_takes:
  "pmm_alloc_page (vm_pmm s) = Inr (a, p) \<Longrightarrow> takes_pages s (s\<lparr>vm_pmm := p\<rparr>)"
  using pmmi.alloc_total [of "vm_pmm s"] pmmi.alloc_result [of "vm_pmm s" a p] pmmi.alloc_zero [of "vm_pmm s" p]
  by (cases "a = 0") (auto simp: takes_pages_def)

lemma table_alloc_takes: "table_alloc d s = Inr (p, s') \<Longrightarrow> takes_pages s s'"
proof (induction d arbitrary: s p s')
  case 0
  then show ?case by (simp add: table_alloc.simps)
next
  case (Suc d)
  obtain q pm r s1 where q: "pmm_alloc_page (vm_pmm s) = Inr (q, pm)"
    "map_page_with (table_alloc d) q q 0 (s\<lparr>vm_pmm := pm\<rparr>) = Inr (r, s1)" "s' = zero_table q s1"
    using Suc.prems by (auto simp: table_alloc.simps split: if_splits)
  have "takes_pages (s\<lparr>vm_pmm := pm\<rparr>) s1" by (rule map_page_takes [OF Suc.IH q(2)])
  with pmm_alloc_takes [OF q(1)] have "takes_pages s s1" by (rule takes_pages_trans)
  then show ?case by (simp add: q(3) takes_pages_def)
qed

lemma paging_map_takes: "paging_map_page v ph fl s = Inr (r, s') \<Longrightarrow> takes_pages s s'"
  unfolding paging_map_page_def by (rule map_page_takes [OF table_alloc_takes])

section \<open>Initialisation\<close>

text \<open>What the loader provides: aligned, distinct, zero-initialised static tables.\<close>

definition boot_tables :: "vm \<Rightarrow> addr list" where
  "boot_tables s = [boot_pml4 s, boot_pdpt s, boot_pd s, boot_pt s]"

definition vm_loaded :: "vm \<Rightarrow> bool" where
  "vm_loaded s \<longleftrightarrow> pmm_ok (vm_pmm s) \<and> distinct (boot_tables s) \<and>
     (\<forall>t \<in> set (boot_tables s). aligned t \<and> t \<noteq> 0 \<and> t \<notin> pmm_avail (vm_pmm s)) \<and>
     (\<forall>i<512. entry s (boot_pdpt s) i = 0 \<and> entry s (boot_pd s) i = 0)"

lemma boot_frame [simp]:
  "boot_pml4 (set_entry t i e s) = boot_pml4 s" "boot_pt (set_entry t i e s) = boot_pt s"
  "boot_pd (set_entry t i e s) = boot_pd s" "boot_pdpt (set_entry t i e s) = boot_pdpt s"
  by (simp_all add: set_entry_def)

lemma paging_init_entries:
  fixes i :: u64
  assumes "vm_loaded s" "i < 512"
  shows "entry (paging_init s) (boot_pml4 s) i = (if i = 0 then boot_pdpt s OR 3 else 0)"
    and "entry (paging_init s) (boot_pdpt s) i = (if i = 0 then boot_pd s OR 3 else 0)"
    and "entry (paging_init s) (boot_pd s) i = (if i = 0 then boot_pt s OR 3 else 0)"
    and "entry (paging_init s) (boot_pt s) i = i * 4096 OR 3"
proof -
  have al: "aligned (boot_pml4 s)" "aligned (boot_pdpt s)" "aligned (boot_pd s)" "aligned (boot_pt s)"
    and ne: "boot_pml4 s \<noteq> boot_pdpt s" "boot_pml4 s \<noteq> boot_pd s" "boot_pml4 s \<noteq> boot_pt s"
      "boot_pdpt s \<noteq> boot_pd s" "boot_pdpt s \<noteq> boot_pt s" "boot_pd s \<noteq> boot_pt s"
    and z: "entry s (boot_pdpt s) i = 0" "entry s (boot_pd s) i = 0"
    using assms by (auto simp: vm_loaded_def boot_tables_def)
  have regs: "entry (x\<lparr>cr3 := a, cr4 := b\<rparr>) = entry x" "entry (x\<lparr>pml4_root := a\<rparr>) = entry x" for x a b
    by (simp_all add: entry_def fun_eq_iff)
  note eqs = paging_init_def Let_def page_consts regs entry_set_entry entry_fill entry_zero_table al assms(2)
  show "entry (paging_init s) (boot_pml4 s) i = (if i = 0 then boot_pdpt s OR 3 else 0)"
    using ne by (simp add: eqs or.assoc)
  show "entry (paging_init s) (boot_pdpt s) i = (if i = 0 then boot_pd s OR 3 else 0)"
    using ne ne [symmetric] z by (simp add: eqs or.assoc)
  show "entry (paging_init s) (boot_pd s) i = (if i = 0 then boot_pt s OR 3 else 0)"
    using ne ne [symmetric] z by (simp add: eqs or.assoc)
  have "unat i < 512" using assms(2) by (simp add: word_less_nat_alt)
  then show "entry (paging_init s) (boot_pt s) i = i * 4096 OR 3"
    using ne ne [symmetric] by (simp add: eqs or.assoc)
qed

lemma paging_init_regs:
  "pml4_root (paging_init s) = boot_pml4 s" "vm_pmm (paging_init s) = vm_pmm s" "cr3 (paging_init s) = boot_pml4 s"
  by (simp_all add: paging_init_def Let_def)

lemma paging_init_tbl:
  assumes "vm_loaded s" "k \<le> 3"
  shows "tbl (paging_init s) k v = (if \<forall>i<k. idx i v = 0 then Some (boot_tables s ! k) else None)"
  using assms(2)
proof (induction k)
  case 0
  then show ?case by (simp add: paging_init_regs boot_tables_def)
next
  case (Suc k)
  have ih: "tbl (paging_init s) k v = (if \<forall>i<k. idx i v = 0 then Some (boot_tables s ! k) else None)"
    using Suc by simp
  have "page_base e = x \<and> e AND 1 \<noteq> 0" if "e = x OR 3" "aligned x" for e x
    using that aligned_link aligned_link_bits by blast
  moreover have "entry (paging_init s) (boot_tables s ! k) (idx k v) =
      (if idx k v = 0 then boot_tables s ! Suc k OR 3 else 0)"
  proof -
    from Suc.prems consider "k = 0" | "k = 1" | "k = 2" by linarith
    then show ?thesis by cases (simp_all add: boot_tables_def paging_init_entries [OF assms(1)])
  qed
  moreover have "boot_tables s ! Suc k \<in> set (boot_tables s)"
    using Suc.prems by (intro nth_mem) (simp add: boot_tables_def)
  then have "aligned (boot_tables s ! Suc k)" using assms(1) by (auto simp: vm_loaded_def)
  ultimately show ?case
    using ih by (cases "idx k v = 0") (auto simp: tbl.simps(2) All_less_Suc)
qed

lemma index_page: "page_base (idx 3 v * 4096 OR 3) = v AND 0x1FF000" "(idx 3 v * 4096 OR 3) AND 1 \<noteq> 0"
proof -
  have "idx 3 v * 4096 = push_bit 12 (drop_bit 12 v AND 0x1FF)" by (simp add: idx_def push_bit_eq_mult)
  also have "\<dots> = push_bit 12 (drop_bit 12 v) AND 0x1FF000" by (simp add: push_bit_and)
  also have "push_bit 12 (drop_bit 12 v) = v AND NOT (mask 12)"
    by (rule bit_word_eqI) (auto simp: bit_simps)
  also have "(mask 12 :: u64) = 0xFFF" by (simp add: mask_eq_exp_minus_1)
  finally have e: "idx 3 v * 4096 = v AND 0x1FF000" by (simp add: and.assoc)
  have "aligned (v AND 0x1FF000)" by (simp add: aligned_def and.assoc)
  then show "page_base (idx 3 v * 4096 OR 3) = v AND 0x1FF000" "(idx 3 v * 4096 OR 3) AND 1 \<noteq> 0"
    unfolding e by (rule aligned_link, rule aligned_link_bits)
qed

lemma paging_init_vmap:
  assumes "vm_loaded s"
  shows "vmap (paging_init s) v = (if low v then Some (v AND 0x1FF000) else None)"
proof -
  have "(\<forall>i<3. idx i v = 0) = low v"
    by (auto simp: low_def numeral_3_eq_3 All_less_Suc numeral_2_eq_2)
  then show ?thesis
    by (simp add: vmap_eq paging_init_tbl [OF assms] boot_tables_def paging_init_entries(4) [OF assms] index_page)
qed

lemma paging_init_ok:
  assumes "vm_loaded s"
  shows "vm_ok (paging_init s)"
proof -
  note tb = paging_init_tbl [OF assms]
  have l: "length (boot_tables s) = 4" by (simp add: boot_tables_def)
  have d: "distinct (boot_tables s)" using assms by (simp add: vm_loaded_def)
  have "vm_tree (paging_init s)"
    using nth_eq_iff_index_eq [OF d] l by (auto simp: vm_tree_def tb split: if_splits)
  moreover have "entry (paging_init s) t (idx 2 v) AND 0x80 = 0" if "tbl (paging_init s) 2 v = Some t" for v t
  proof -
    have "t = boot_pd s" using that by (auto simp: tb boot_tables_def split: if_splits)
    moreover have "aligned (boot_pt s)" using assms by (auto simp: vm_loaded_def boot_tables_def)
    ultimately show ?thesis by (simp add: paging_init_entries [OF assms] aligned_link_bits)
  qed
  moreover have "t \<noteq> 0 \<and> t \<notin> pmm_avail (vm_pmm s)" if "is_table (paging_init s) t" for t
  proof -
    have "t \<in> set (boot_tables s)"
      using that l by (auto simp: is_table_def tb split: if_splits intro!: nth_mem)
    then show ?thesis using assms by (auto simp: vm_loaded_def)
  qed
  ultimately show ?thesis
    using assms paging_init_vmap [OF assms]
    by (simp add: vm_ok_def paging_init_regs no_huge_def vm_loaded_def boot_tables_def)
qed

text \<open>
  \<open>paging_init\<close> establishes the invariant, loads the PML4 into \<open>cr3\<close>, maps the first
  2 MiB to themselves and nothing else.
\<close>

theorem paging_init_identity:
  assumes "vm_loaded s"
  shows "vm_ok (paging_init s) \<and> cr3 (paging_init s) = boot_pml4 s \<and>
    (\<forall>v. v < 0x200000 \<longrightarrow> paging_virt_to_phys v (paging_init s) = Inr v) \<and>
    (\<forall>v. \<not> low v \<longrightarrow> paging_virt_to_phys v (paging_init s) = Inr 0)"
proof -
  have ok: "vm_ok (paging_init s)" by (rule paging_init_ok [OF assms])
  have "(v AND 0x1FF000) + (v AND 0xFFF) = v" if "v < 0x200000" for v :: u64
  proof -
    have "v AND 0x1FFFFF = v" using that by (rule small_mask)
    moreover have "(v AND 0x1FF000) OR (v AND 0xFFF) = v AND 0x1FFFFF"
      by (simp add: bit.conj_disj_distrib [symmetric])
    moreover have "(v AND 0x1FF000) AND (v AND 0xFFF) = 0"
      by (simp add: and.assoc and.left_commute)
    ultimately show ?thesis by (simp add: disjunctive_add_eq_or)
  qed
  then show ?thesis
    using ok low_small by (simp add: paging_init_regs virt_to_phys_vmap [OF ok] paging_init_vmap [OF assms])
qed

section \<open>A concrete boot state\<close>

text \<open>Static tables in the second 2 MiB, \<open>n\<close> free pages from the given byte of the bitmap on.\<close>

definition pmm_few :: "nat \<Rightarrow> nat \<Rightarrow> u64 \<Rightarrow> pmm" where
  "pmm_few n byte e = \<lparr>page_bitmap = (replicate BITMAP_SIZE 0xFF)[byte := push_bit n 0xFF], total_pages = word_of_nat n,
     free_pages = word_of_nat n, mem_start = 0x100000, mem_end = e\<rparr>"

definition vm_demo :: "nat \<Rightarrow> nat \<Rightarrow> u64 \<Rightarrow> vm" where
  "vm_demo n byte e = \<lparr>vm_pmm = pmm_few n byte e, cells = (\<lambda>_. 0), boot_pml4 = 0x300000, boot_pt = 0x301000,
     boot_pd = 0x302000, boot_pdpt = 0x303000, pml4_root = 0, cr3 = 0, cr4 = 0\<rparr>"

lemma pmm_few_avail:
  assumes "b < BITMAP_SIZE" "unat e \<le> MAX_PHYS_PAGES * 4096"
  shows "pmm_ok (pmm_few n b e)"
    and "pmm_avail (pmm_few n b e) =
      (\<lambda>q. q * 4096) ` {q. 256 \<le> q \<and> q < e div 4096 \<and> unat (q div 8) = b \<and> unat (q mod 8) < n}"
proof -
  show ok: "pmm_ok (pmm_few n b e)"
    using assms by (simp add: pmm_ok_def bitmap_ok_def pmm_few_def)
  have "page_used (pmm_few n b e) q = (\<not> (unat (q div 8) = b \<and> unat (q mod 8) < n))"
    if "q < e div 4096" for q
  proof -
    have "page_ok q" using page_ok_scan [OF ok, of q] that by (simp add: pmm_few_def)
    then have i: "unat (q div 8) < BITMAP_SIZE" by (rule page_index)
    have ff: "(0xFF :: u8) = mask 8" by (simp add: mask_eq_exp_minus_1)
    have "bit (0xFF :: u8) m" "bit (push_bit n (0xFF :: u8)) m = (\<not> m < n)" if "m < 8" for m :: nat
      using that unfolding ff by (auto simp: bit_simps)
    from this [OF bit_index_less_8 [of q]] i assms(1) show ?thesis
      by (simp add: page_used_def pmm_few_def nth_list_update)
  qed
  then show "pmm_avail (pmm_few n b e) =
      (\<lambda>q. q * 4096) ` {q. 256 \<le> q \<and> q < e div 4096 \<and> unat (q div 8) = b \<and> unat (q mod 8) < n}"
    unfolding pmm_avail_eq [OF ok] by (intro arg_cong [of _ _ "image _"] Collect_cong) (auto simp: pmm_few_def)
qed

lemma few_pages:
  assumes "unat (q div 8 :: u64) = b" "unat (q mod 8) < n"
  shows "\<exists>r<n. q = word_of_nat (8 * b + r)"
proof -
  have "unat q = 8 * b + unat (q mod 8)"
    using assms(1) mult_div_mod_eq [of 8 "unat q"] by (simp add: unat_div unat_mod)
  moreover have "q = word_of_nat (unat q)" by simp
  ultimately have "q = word_of_nat (8 * b + unat (q mod 8))" by (simp only:)
  with assms(2) show ?thesis by blast
qed

lemma low_demo_avail: "pmm_avail (pmm_few 3 32 0x103000) = {0x100000, 0x101000, 0x102000}"
proof -
  have "{q :: u64. 256 \<le> q \<and> q < 0x103000 div 4096 \<and> unat (q div 8) = 32 \<and> unat (q mod 8) < 3} = {0x100, 0x101, 0x102}"
    by (auto simp: numeral_3_eq_3 less_Suc_eq dest!: few_pages)
  then show ?thesis by (subst pmm_few_avail(2)) (simp_all add: BITMAP_SIZE_def MAX_PHYS_PAGES_def)
qed

lemma high_demo_avail: "pmm_avail (pmm_few 3 128 0x403000) = {0x400000, 0x401000, 0x402000}"
proof -
  have "{q :: u64. 256 \<le> q \<and> q < 0x403000 div 4096 \<and> unat (q div 8) = 128 \<and> unat (q mod 8) < 3} = {0x400, 0x401, 0x402}"
    by (auto simp: numeral_3_eq_3 less_Suc_eq dest!: few_pages)
  then show ?thesis by (subst pmm_few_avail(2)) (simp_all add: BITMAP_SIZE_def MAX_PHYS_PAGES_def)
qed

lemma vm_demo_loaded: "vm_loaded (vm_demo 3 32 0x103000)" "vm_loaded (vm_demo 3 128 0x403000)"
  by (auto simp: vm_loaded_def vm_demo_def boot_tables_def low_demo_avail high_demo_avail aligned_def entry_def
      pmm_few_avail(1) BITMAP_SIZE_def MAX_PHYS_PAGES_def)

theorem paging_init_identity_witness:
  "vm_loaded (vm_demo 3 32 0x103000) \<and> paging_virt_to_phys 0x1234 (paging_init (vm_demo 3 32 0x103000)) = Inr 0x1234"
  using paging_init_identity [OF vm_demo_loaded(1)] vm_demo_loaded(1) by simp

theorem paging_map_translate_witness:
  "\<exists>s'. paging_map_page 0x40000123 0x5000 0 (paging_init (vm_demo 3 32 0x103000)) = Inr (0x40000123, s') \<and>
    paging_virt_to_phys 0x40000123 s' = Inr 0x5123"
proof -
  let ?s = "paging_init (vm_demo 3 32 0x103000)"
  have "low_free ?s = {0x100000, 0x101000, 0x102000}"
    by (auto simp: low_free_def paging_init_regs vm_demo_def low_demo_avail)
  then have "3 \<le> card (low_free ?s)" by simp
  moreover have "\<not> low 0x40000123" by (simp add: low_def idx_def)
  moreover have "page_base 0 = 0" "page_base 0x5000 = 0x5000" by (simp_all add: page_base_def)
  ultimately show ?thesis
    using paging_map_translate [OF paging_init_ok [OF vm_demo_loaded(1)], of "0x40000123" 0 "0x5000"] by auto
qed

theorem paging_unmap_translate_witness:
  "\<exists>s'. paging_unmap_page 0x40000000 (paging_init (vm_demo 3 32 0x103000)) = Inr s' \<and> vm_ok s'"
proof -
  have "\<not> low 0x40000000" by (simp add: low_def idx_def)
  from paging_unmap_translate [OF paging_init_ok [OF vm_demo_loaded(1)] this] show ?thesis by blast
qed

theorem paging_map_oom_witness:
  "card (pmm_avail (vm_pmm (paging_init (vm_demo 3 128 0x403000)))) = 3 \<and>
   paging_map_page 0x40000000 0x5000 0 (paging_init (vm_demo 3 128 0x403000)) = Inl (Panic ''paging oom'')"
proof -
  let ?s = "paging_init (vm_demo 3 128 0x403000)"
  have none: "tbl ?s 3 v = None" if "idx 1 v \<noteq> 0 \<or> idx 2 v \<noteq> 0" for v
    using that by (auto simp: paging_init_tbl [OF vm_demo_loaded(2)] intro: exI [of _ 1] exI [of _ 2])
  have av: "pmm_avail (vm_pmm ?s) = {0x400000, 0x401000, 0x402000}"
    by (simp add: paging_init_regs vm_demo_def high_demo_avail)
  have "\<forall>a \<in> pmm_avail (vm_pmm ?s). tbl ?s 3 a = None" by (auto simp: av idx_def intro!: none)
  moreover have "tbl ?s 3 0x40000000 = None" by (rule none) (simp add: idx_def)
  ultimately show ?thesis using paging_map_oom [OF paging_init_ok [OF vm_demo_loaded(2)]] av by simp
qed

end
