(* ===== verification/Mira_Loader.thy ===== *)
theory Mira_Loader
  imports Mira_Paging
begin

text \<open>
  The program loaders, \<open>kernel/bin/\<close> and \<open>kernel/elf.c\<close>: validation of MEX and MDL images,
  the checksum, and mapping of sections and segments. An image is the list of its bytes;
  reading outside it is a fault. The state is the paging state with the bytes of the physical
  pages, which the kernel reaches at their own addresses: a page is accessible only if the
  page tables map it to itself, and otherwise touching it is a page fault.
\<close>

section \<open>Image format\<close>

definition MIRA_BIN_MAGIC :: u64 where "MIRA_BIN_MAGIC = 0x4D495845582"
definition MIRA_BIN_ABI_VERSION :: u16 where "MIRA_BIN_ABI_VERSION = 1"
definition MIRA_BIN_TYPE_MEX :: u16 where "MIRA_BIN_TYPE_MEX = 1"
definition MIRA_BIN_TYPE_MDL :: u16 where "MIRA_BIN_TYPE_MDL = 2"
definition MIRA_SECT_TEXT :: u32 where "MIRA_SECT_TEXT = 1"
definition MIRA_SECT_RODATA :: u32 where "MIRA_SECT_RODATA = 2"
definition MIRA_SECT_DATA :: u32 where "MIRA_SECT_DATA = 3"
definition MIRA_SECT_BSS :: u32 where "MIRA_SECT_BSS = 4"

text \<open>Sizes of the packed structures.\<close>

definition HEADER_BYTES :: nat where "HEADER_BYTES = 64"
definition SECT_BYTES :: nat where "SECT_BYTES = 40"

record mira_bin_header =
  mh_magic :: u64
  mh_abi_version :: u16
  mh_type :: u16
  mh_header_size :: u32
  mh_image_flags :: u32
  mh_entry_point :: u64
  mh_load_base :: u64
  mh_sect_count :: u32
  mh_sect_table_off :: u64
  mh_name_table_off :: u64
  mh_checksum :: u64

record mira_sect_desc =
  sd_type :: u32
  sd_flags :: u32
  sd_vaddr :: u64
  sd_memsz :: u64
  sd_filesz :: u64
  sd_file_off :: u64

record mira_loaded_image =
  li_entry_point :: u64
  li_cr3 :: u64
  li_user_stack_top :: u64

primrec le_nat :: "u8 list \<Rightarrow> nat" where
  "le_nat [] = 0"
| "le_nat (b # bs) = unat b + 256 * le_nat bs"

definition field :: "nat \<Rightarrow> nat \<Rightarrow> u8 list \<Rightarrow> nat" where
  "field off n bs = le_nat (take n (drop off bs))"

text \<open>The \<open>n\<close> bytes at an offset into the image.\<close>

definition slice :: "u8 list \<Rightarrow> u64 \<Rightarrow> nat \<Rightarrow> u8 list res" where
  "slice data off n = (if unat off + n \<le> length data then Inr (take n (drop (unat off) data)) else Inl OutOfBounds)"

definition header_of :: "u8 list \<Rightarrow> mira_bin_header" where
  "header_of bs =
     \<lparr>mh_magic = word_of_nat (field 0 8 bs), mh_abi_version = word_of_nat (field 8 2 bs), mh_type = word_of_nat (field 10 2 bs),
      mh_header_size = word_of_nat (field 12 4 bs), mh_image_flags = word_of_nat (field 16 4 bs),
      mh_entry_point = word_of_nat (field 20 8 bs), mh_load_base = word_of_nat (field 28 8 bs),
      mh_sect_count = word_of_nat (field 36 4 bs), mh_sect_table_off = word_of_nat (field 40 8 bs),
      mh_name_table_off = word_of_nat (field 48 8 bs), mh_checksum = word_of_nat (field 56 8 bs)\<rparr>"

definition sect_of :: "u8 list \<Rightarrow> mira_sect_desc" where
  "sect_of bs =
     \<lparr>sd_type = word_of_nat (field 0 4 bs), sd_flags = word_of_nat (field 4 4 bs), sd_vaddr = word_of_nat (field 8 8 bs),
      sd_memsz = word_of_nat (field 16 8 bs), sd_filesz = word_of_nat (field 24 8 bs), sd_file_off = word_of_nat (field 32 8 bs)\<rparr>"

definition read_header :: "u8 list \<Rightarrow> mira_bin_header res" where
  "read_header data = bindR (slice data 0 HEADER_BYTES) (\<lambda>bs. Inr (header_of bs))"

definition read_sect :: "u8 list \<Rightarrow> u64 \<Rightarrow> mira_sect_desc res" where
  "read_sect data off = bindR (slice data off SECT_BYTES) (\<lambda>bs. Inr (sect_of bs))"

section \<open>Checksum and validation\<close>

definition FNV_BASIS :: u64 where "FNV_BASIS = 1469598103934665603"
definition FNV_PRIME :: u64 where "FNV_PRIME = 1099511628211"

definition fnv_step :: "u8 \<Rightarrow> u64 \<Rightarrow> u64" where "fnv_step b h = (h XOR ucast b) * FNV_PRIME"

definition mira_checksum64 :: "u8 list \<Rightarrow> u64 \<Rightarrow> u64 res" where
  "mira_checksum64 data sz = bindR (slice data 0 (unat sz)) (\<lambda>bs. Inr (fold fnv_step bs FNV_BASIS))"

text \<open>The header with its checksum field cleared, as bytes, then the rest of the file.\<close>

definition image_hash :: "u8 list \<Rightarrow> u64 \<Rightarrow> u64 res" where
  "image_hash data sz =
     bindR (slice data 0 56) (\<lambda>hdr.
     bindR (slice data 64 (unat sz - HEADER_BYTES)) (\<lambda>rest.
       Inr (fold fnv_step rest (fold fnv_step (hdr @ replicate 8 0) FNV_BASIS))))"

text \<open>The checks that both validators make on the header, in their order.\<close>

definition header_fields_ok :: "mira_bin_header \<Rightarrow> u64 \<Rightarrow> u16 \<Rightarrow> bool" where
  "header_fields_ok hdr sz ty \<longleftrightarrow>
     mh_magic hdr = MIRA_BIN_MAGIC \<and> mh_abi_version hdr = MIRA_BIN_ABI_VERSION \<and> mh_type hdr = ty \<and>
     \<not> ucast (mh_header_size hdr) < (64 :: u64) \<and> \<not> mh_sect_count hdr > 65535 \<and>
     \<not> mh_sect_table_off hdr < 64 \<and> \<not> mh_sect_table_off hdr \<ge> sz \<and>
     \<not> mh_sect_table_off hdr + ucast (mh_sect_count hdr) * 40 > sz"

definition mira_validate_header :: "u8 list \<Rightarrow> u64 \<Rightarrow> u16 \<Rightarrow> bool res" where
  "mira_validate_header data sz ty =
     (if sz < 64 then Inr False
      else bindR (read_header data) (\<lambda>hdr.
        if \<not> header_fields_ok hdr sz ty then Inr False
        else bindR (image_hash data sz) (\<lambda>h. Inr (h = mh_checksum hdr))))"

text \<open>The loader's own validator, which rejects headers longer than the structure.\<close>

definition exec_validate_header :: "u8 list \<Rightarrow> u64 \<Rightarrow> u16 \<Rightarrow> bool res" where
  "exec_validate_header data sz ty =
     bindR (read_header data) (\<lambda>hdr.
       if \<not> header_fields_ok hdr sz ty then Inr False
       else if ucast (mh_header_size hdr) > (64 :: u64) then Inr False
       else if sz < 64 then Inr False
       else bindR (image_hash data sz) (\<lambda>h. Inr (h = mh_checksum hdr)))"

definition mira_bin_is_valid :: "u8 list \<Rightarrow> u64 \<Rightarrow> u16 \<Rightarrow> bool res" where
  "mira_bin_is_valid data sz ty = (if sz < 64 then Inr False else exec_validate_header data sz ty)"

section \<open>Mapping pages\<close>

record loader =
  ld_vm :: vm
  ld_mem :: mem

definition set_pmm :: "pmm \<Rightarrow> loader \<Rightarrow> loader" where
  "set_pmm p s = s\<lparr>ld_vm := (ld_vm s)\<lparr>vm_pmm := p\<rparr>\<rparr>"

definition accessible :: "addr \<Rightarrow> loader \<Rightarrow> bool" where
  "accessible pg s \<longleftrightarrow> paging_virt_to_phys pg (ld_vm s) = Inr pg"

text \<open>\<open>memset(page, 0, 4096)\<close>, and storing bytes from the start of a page on.\<close>

definition clear_page :: "addr \<Rightarrow> mem \<Rightarrow> mem" where
  "clear_page pg m = (\<lambda>a. if a - pg < 4096 then 0 else m a)"

definition store_page :: "addr \<Rightarrow> u8 list \<Rightarrow> mem \<Rightarrow> mem" where
  "store_page pg bs m = (\<lambda>a. if unat (a - pg) < length bs then bs ! unat (a - pg) else m a)"

definition map_flags :: "u32 \<Rightarrow> u64" where
  "map_flags ty = (if ty \<noteq> MIRA_SECT_RODATA then PAGE_PRESENT OR PAGE_WRITE else PAGE_PRESENT)"

definition exec_flags :: "u32 \<Rightarrow> u32 \<Rightarrow> u64" where
  "exec_flags ty fl =
     (if (ty = MIRA_SECT_DATA \<or> ty = MIRA_SECT_BSS \<or> ty = MIRA_SECT_TEXT) \<and> ty \<noteq> MIRA_SECT_TEXT
      then PAGE_PRESENT OR PAGE_WRITE else PAGE_PRESENT)"

text \<open>One turn of the page loop at offset \<open>j\<close> of a section; the result is false when no page is free.\<close>

definition load_page :: "u8 list \<Rightarrow> mira_sect_desc \<Rightarrow> u64 \<Rightarrow> u64 \<Rightarrow> loader \<Rightarrow> (bool \<times> loader) res" where
  "load_page data sd flags j s =
     bindR (pmm_alloc_page (vm_pmm (ld_vm s))) (\<lambda>(pg, p).
       let s1 = set_pmm p s
       in if pg = 0 then Inr (False, s1)
          else if \<not> accessible pg s1 then Inl BadPointer
          else let m = clear_page pg (ld_mem s1)
               in bindR (if j < sd_filesz sd
                         then let left = sd_filesz sd - j; copy = (if left < 4096 then left else 4096)
                              in bindR (slice data (sd_file_off sd + j) (unat copy)) (\<lambda>bs. Inr (store_page pg bs m))
                         else Inr m) (\<lambda>m1.
                  bindR (paging_map_page (sd_vaddr sd + j) pg (flags OR PAGE_WRITE) (ld_vm s1)) (\<lambda>(r, v).
                    Inr (True, s1\<lparr>ld_mem := m1, ld_vm := v\<rparr>))))"

text \<open>Every turn takes a page, so the number of pages bounds the turns.\<close>

definition LOAD_FUEL :: nat where "LOAD_FUEL = MAX_PHYS_PAGES + 1"

fun load_pages :: "nat \<Rightarrow> u8 list \<Rightarrow> mira_sect_desc \<Rightarrow> u64 \<Rightarrow> u64 \<Rightarrow> loader \<Rightarrow> (bool \<times> loader) res" where
  "load_pages 0 data sd flags j s = (if j < sd_memsz sd then Inl Diverges else Inr (True, s))"
| "load_pages (Suc n) data sd flags j s =
     (if j < sd_memsz sd
      then bindR (load_page data sd flags j s) (\<lambda>(ok, s1).
             if ok then load_pages n data sd flags (j + 4096) s1 else Inr (False, s1))
      else Inr (True, s))"

definition sect_bounds_ok :: "u64 \<Rightarrow> mira_sect_desc \<Rightarrow> bool" where
  "sect_bounds_ok sz sd \<longleftrightarrow> \<not> sd_filesz sd > sd_memsz sd \<and> \<not> sd_file_off sd + sd_filesz sd > sz"

definition mira_map_section :: "u8 list \<Rightarrow> u64 \<Rightarrow> mira_sect_desc \<Rightarrow> loader \<Rightarrow> (bool \<times> loader) res" where
  "mira_map_section data sz sd s =
     (if \<not> sect_bounds_ok sz sd then Inr (False, s)
      else load_pages LOAD_FUEL data sd (map_flags (sd_type sd)) 0 s)"

section \<open>Loading an image\<close>

definition load_sect :: "u8 list \<Rightarrow> u64 \<Rightarrow> mira_bin_header \<Rightarrow> nat \<Rightarrow> loader \<Rightarrow> (bool \<times> loader) res" where
  "load_sect data sz hdr i s =
     bindR (read_sect data (mh_sect_table_off hdr + word_of_nat (SECT_BYTES * i))) (\<lambda>sd.
       if \<not> sect_bounds_ok sz sd then Inr (False, s)
       else load_pages LOAD_FUEL data sd (exec_flags (sd_type sd) (sd_flags sd)) 0 s)"

primrec load_sects :: "nat list \<Rightarrow> u8 list \<Rightarrow> u64 \<Rightarrow> mira_bin_header \<Rightarrow> loader \<Rightarrow> (bool \<times> loader) res" where
  "load_sects [] data sz hdr s = Inr (True, s)"
| "load_sects (i # is) data sz hdr s =
     bindR (load_sect data sz hdr i s) (\<lambda>(ok, s1). if ok then load_sects is data sz hdr s1 else Inr (False, s1))"

text \<open>The loaded image is what the caller's structure receives; \<open>None\<close> is the result false.\<close>

definition mira_load :: "u8 list \<Rightarrow> u64 \<Rightarrow> u16 \<Rightarrow> loader \<Rightarrow> (mira_loaded_image option \<times> loader) res" where
  "mira_load data sz ty s =
     (if sz < 64 then Inr (None, s)
      else bindR (exec_validate_header data sz ty) (\<lambda>valid.
        if \<not> valid then Inr (None, s)
        else bindR (read_header data) (\<lambda>hdr.
             bindR (load_sects [0..<unat (mh_sect_count hdr)] data sz hdr s) (\<lambda>(ok, s1).
               if ok then Inr (Some \<lparr>li_entry_point = mh_entry_point hdr, li_cr3 = 0, li_user_stack_top = 0\<rparr>, s1)
               else Inr (None, s1)))))"

definition mira_load_mex :: "u8 list \<Rightarrow> u64 \<Rightarrow> loader \<Rightarrow> (mira_loaded_image option \<times> loader) res" where
  "mira_load_mex data sz s = mira_load data sz MIRA_BIN_TYPE_MEX s"

definition mira_load_mdl :: "u8 list \<Rightarrow> u64 \<Rightarrow> loader \<Rightarrow> (mira_loaded_image option \<times> loader) res" where
  "mira_load_mdl data sz s = mira_load data sz MIRA_BIN_TYPE_MDL s"

section \<open>ELF\<close>

definition ELF_MAGIC :: u32 where "ELF_MAGIC = 0x464C457F"
definition PT_LOAD :: u32 where "PT_LOAD = 1"

text \<open>The little-endian field of \<open>n\<close> bytes at an offset into the image.\<close>

definition rd :: "u8 list \<Rightarrow> u64 \<Rightarrow> nat \<Rightarrow> nat res" where
  "rd data off n = bindR (slice data off n) (\<lambda>bs. Inr (le_nat bs))"

record elf_header =
  eh_entry :: u64
  eh_phoff :: u64
  eh_phentsize :: u16
  eh_phnum :: u16

record elf_program_header =
  ph_type :: u32
  ph_offset :: u64
  ph_vaddr :: u64
  ph_filesz :: u64
  ph_memsz :: u64

definition read_elf_header :: "u8 list \<Rightarrow> elf_header res" where
  "read_elf_header data =
     bindR (rd data 24 8) (\<lambda>en. bindR (rd data 32 8) (\<lambda>po. bindR (rd data 54 2) (\<lambda>ps. bindR (rd data 56 2) (\<lambda>pn.
       Inr \<lparr>eh_entry = word_of_nat en, eh_phoff = word_of_nat po, eh_phentsize = word_of_nat ps, eh_phnum = word_of_nat pn\<rparr>))))"

text \<open>The offset \<open>phoff + i * phentsize\<close>, whose product is of type int.\<close>

definition ph_off :: "elf_header \<Rightarrow> nat \<Rightarrow> u64" where
  "ph_off eh i = eh_phoff eh + scast (word_of_nat (i * unat (eh_phentsize eh)) :: u32)"

definition read_ph :: "u8 list \<Rightarrow> u64 \<Rightarrow> u32 \<Rightarrow> elf_program_header res" where
  "read_ph data off ty =
     bindR (rd data (off + 8) 8) (\<lambda>po. bindR (rd data (off + 16) 8) (\<lambda>va.
     bindR (rd data (off + 32) 8) (\<lambda>fs. bindR (rd data (off + 40) 8) (\<lambda>ms.
       Inr \<lparr>ph_type = ty, ph_offset = word_of_nat po, ph_vaddr = word_of_nat va, ph_filesz = word_of_nat fs,
             ph_memsz = word_of_nat ms\<rparr>))))"

text \<open>The number of turns of the copy loop of the page at offset \<open>j\<close>.\<close>

definition elf_copy_count :: "elf_program_header \<Rightarrow> u64 \<Rightarrow> nat" where
  "elf_copy_count ph j =
     (let copy_size = (if j + 4096 \<le> ph_filesz ph then 4096 else if ph_filesz ph > j then ph_filesz ph - j else 0)
      in length (takeWhile (\<lambda>k. j + word_of_nat k < ph_memsz ph) [0..<unat copy_size]))"

text \<open>One turn of the page loop; unlike the other loader it stores only what it copies.\<close>

definition elf_page :: "u8 list \<Rightarrow> elf_program_header \<Rightarrow> u64 \<Rightarrow> loader \<Rightarrow> (bool \<times> loader) res" where
  "elf_page data ph j s =
     bindR (pmm_alloc_page (vm_pmm (ld_vm s))) (\<lambda>(pg, p).
       let s1 = set_pmm p s
       in if pg = 0 then Inr (False, s1)
          else bindR (if j < ph_filesz ph
                      then bindR (slice data (ph_offset ph + j) (elf_copy_count ph j)) (\<lambda>bs.
                             if accessible pg s1 then Inr (store_page pg bs (ld_mem s1)) else Inl BadPointer)
                      else Inr (ld_mem s1)) (\<lambda>m1.
                 bindR (paging_map_page (ph_vaddr ph + j) pg (PAGE_PRESENT OR PAGE_WRITE) (ld_vm s1)) (\<lambda>(r, v).
                   Inr (True, s1\<lparr>ld_mem := m1, ld_vm := v\<rparr>))))"

fun elf_pages :: "nat \<Rightarrow> u8 list \<Rightarrow> elf_program_header \<Rightarrow> u64 \<Rightarrow> loader \<Rightarrow> (bool \<times> loader) res" where
  "elf_pages 0 data ph j s = (if j < ph_memsz ph then Inl Diverges else Inr (True, s))"
| "elf_pages (Suc n) data ph j s =
     (if j < ph_memsz ph
      then bindR (elf_page data ph j s) (\<lambda>(ok, s1).
             if ok then elf_pages n data ph (j + 4096) s1 else Inr (False, s1))
      else Inr (True, s))"

definition elf_segment :: "u8 list \<Rightarrow> elf_header \<Rightarrow> nat \<Rightarrow> loader \<Rightarrow> (bool \<times> loader) res" where
  "elf_segment data eh i s =
     bindR (rd data (ph_off eh i) 4) (\<lambda>ty.
       if (word_of_nat ty :: u32) \<noteq> PT_LOAD then Inr (True, s)
       else bindR (read_ph data (ph_off eh i) (word_of_nat ty)) (\<lambda>ph. elf_pages LOAD_FUEL data ph 0 s))"

primrec elf_segments :: "nat list \<Rightarrow> u8 list \<Rightarrow> elf_header \<Rightarrow> loader \<Rightarrow> (bool \<times> loader) res" where
  "elf_segments [] data eh s = Inr (True, s)"
| "elf_segments (i # is) data eh s =
     bindR (elf_segment data eh i s) (\<lambda>(ok, s1). if ok then elf_segments is data eh s1 else Inr (False, s1))"

text \<open>
  \<open>elf_load\<close>. The entry point cell is \<open>None\<close> for a null pointer; the size of the image is not
  consulted.
\<close>

definition elf_load :: "u8 list \<Rightarrow> u64 \<Rightarrow> u64 option \<Rightarrow> loader \<Rightarrow> (bool \<times> u64 option \<times> loader) res" where
  "elf_load data sz entry_point s =
     bindR (rd data 0 4) (\<lambda>mg.
       if (word_of_nat mg :: u32) \<noteq> ELF_MAGIC then Inr (False, entry_point, s)
       else bindR (rd data 18 2) (\<lambda>mc.
         if (word_of_nat mc :: u16) \<noteq> 0x3E then Inr (False, entry_point, s)
         else bindR (read_elf_header data) (\<lambda>eh.
           let ep = (case entry_point of None \<Rightarrow> None | Some _ \<Rightarrow> Some (eh_entry eh))
           in bindR (elf_segments [0..<unat (eh_phnum eh)] data eh s) (\<lambda>(ok, s1). Inr (ok, ep, s1)))))"

section \<open>Pages of virtual addresses\<close>

lemma bit_idx: "k \<le> 3 \<Longrightarrow> bit (idx k v) n \<longleftrightarrow> n < 9 \<and> bit v (39 - 9 * k + n)"
proof -
  have "(0x1FF :: u64) = mask 9" by (simp add: mask_eq_exp_minus_1)
  then have "idx k v = take_bit 9 (drop_bit (39 - 9 * k) v)" by (simp add: idx_def take_bit_eq_mask)
  then show ?thesis by (auto simp: bit_simps)
qed

lemma idx_bits: "(\<forall>k\<le>3. idx k v = idx k w) \<longleftrightarrow> (\<forall>n. 12 \<le> n \<and> n < 48 \<longrightarrow> bit v n = bit w n)"
proof
  assume *: "\<forall>k\<le>3. idx k v = idx k w"
  show "\<forall>n. 12 \<le> n \<and> n < 48 \<longrightarrow> bit v n = bit w n"
  proof (intro allI impI)
    fix n :: nat assume n: "12 \<le> n \<and> n < 48"
    define k where "k = (47 - n) div 9"
    have k: "k \<le> 3" "n - (39 - 9 * k) < 9" "39 - 9 * k + (n - (39 - 9 * k)) = n"
      using n by (auto simp: k_def)
    have "bit (idx k v) (n - (39 - 9 * k)) = bit (idx k w) (n - (39 - 9 * k))" using * k(1) by simp
    then show "bit v n = bit w n" using k by (simp add: bit_idx)
  qed
next
  assume *: "\<forall>n. 12 \<le> n \<and> n < 48 \<longrightarrow> bit v n = bit w n"
  have "bit v (39 - 9 * k + n) = bit w (39 - 9 * k + n)" if "k \<le> 3" "n < 9" for k n
    using that * by (intro mp [OF spec [OF *]]) auto
  then show "\<forall>k\<le>3. idx k v = idx k w"
    by (intro allI impI bit_word_eqI) (simp only: bit_idx cong: conj_cong)
qed

lemma high_bits: "v < 0x1000000000000 \<Longrightarrow> 48 \<le> n \<Longrightarrow> \<not> bit v n" for v :: u64
proof -
  assume "v < 0x1000000000000" "48 \<le> n"
  then have "unat v < 2 ^ 48" by (simp add: word_less_nat_alt)
  also have "(2 :: nat) ^ 48 \<le> 2 ^ n" using \<open>48 \<le> n\<close> by (intro power_increasing) simp_all
  finally have "unat v div 2 ^ n = 0" by simp
  then have "\<not> bit (unat v) n" by (simp add: bit_iff_odd)
  then show "\<not> bit v n" by (simp add: bit_unsigned_iff)
qed

lemma same_page_div:
  assumes "same_page v w" "v < 0x1000000000000" "w < 0x1000000000000"
  shows "unat v div 4096 = unat w div 4096"
proof -
  have "bit v n = bit w n" if "12 \<le> n" for n
    using that assms idx_bits [of v w] high_bits [of v n] high_bits [of w n]
    by (cases "n < 48") (auto simp: same_page_def)
  then have "drop_bit 12 v = drop_bit 12 w" by (auto intro!: bit_word_eqI simp: bit_simps)
  then have "unat (drop_bit 12 v) = unat (drop_bit 12 w)" by simp
  then show ?thesis by (simp add: drop_bit_eq_div unat_div)
qed

lemma not_low:
  assumes "0x200000 \<le> v" "v < 0x1000000000000"
  shows "\<not> low v"
proof
  assume "low v"
  then have z: "idx k v = 0" if "k \<le> 2" for k using that by (auto simp: low_def le_Suc_eq numeral_2_eq_2)
  have "\<not> bit v n" if "21 \<le> n" for n
  proof (cases "n < 48")
    case True
    define k where "k = (47 - n) div 9"
    have k: "k \<le> 2" "n - (39 - 9 * k) < 9" "39 - 9 * k + (n - (39 - 9 * k)) = n"
      using True that by (auto simp: k_def)
    have "\<not> bit (idx k v) (n - (39 - 9 * k))" using z [OF k(1)] by simp
    then show ?thesis using k by (simp add: bit_idx)
  next
    case False
    then show ?thesis using high_bits [OF assms(2)] by simp
  qed
  then have "drop_bit 21 v = 0" by (auto intro!: bit_word_eqI simp: bit_simps)
  then have "unat (drop_bit 21 v) = 0" by simp
  then have "unat v div 2097152 = 0" by (simp add: drop_bit_eq_div unat_div)
  then show False using assms(1) by (simp add: word_le_nat_alt div_eq_0_iff)
qed

lemma page_offset:
  assumes "aligned v" "k < 4096"
  shows "same_page (v + k) v" "(v + k) AND 0xFFF = k" "page_base (v + k) = v"
proof -
  have m: "(0xFFF :: u64) = mask 12" by (simp add: mask_eq_exp_minus_1)
  have v: "\<not> bit v n" if "n < 12" for n
  proof -
    have "\<not> bit (v AND mask 12) n" using assms(1) by (simp add: aligned_def m)
    then show ?thesis using that by (auto simp: bit_simps)
  qed
  have "unat (take_bit 12 k) = unat k"
    using assms(2) by (simp only: unsigned_take_bit_eq) (simp add: take_bit_nat_eq_self_iff word_less_nat_alt)
  then have kt: "take_bit 12 k = k" by (simp only: word_unat_eq_iff)
  have k: "\<not> bit k n" if "12 \<le> n" for n using that by (subst kt [symmetric]) (simp add: bit_simps)
  have "v AND k = 0" using v k by (auto intro!: bit_word_eqI simp: bit_simps not_less) (meson not_less)
  then have e: "v + k = v OR k" by (simp add: disjunctive_add_eq_or)
  show "same_page (v + k) v" unfolding same_page_def idx_bits e using k by (auto simp: bit_simps)
  show "(v + k) AND 0xFFF = k" unfolding e m using v k by (auto intro!: bit_word_eqI simp: bit_simps not_less) (meson not_less)
  show "page_base (v + k) = v" unfolding e m page_base_def
    using v k by (auto intro!: bit_word_eqI simp: bit_simps not_less) (meson not_less)
qed

section \<open>What a loaded section is\<close>

definition sect_pages :: "mira_sect_desc \<Rightarrow> nat" where
  "sect_pages sd = (unat (sd_memsz sd) + 4095) div 4096"

text \<open>Byte \<open>i\<close> of a section: from the file, then zero.\<close>

definition sect_byte :: "u8 list \<Rightarrow> mira_sect_desc \<Rightarrow> nat \<Rightarrow> u8" where
  "sect_byte data sd i = (if i < unat (sd_filesz sd) then data ! (unat (sd_file_off sd) + i) else 0)"

text \<open>
  A section within its image, at a page boundary, above the first 2 MiB and below the end of
  the 48-bit address space.
\<close>

definition sect_fits :: "u8 list \<Rightarrow> mira_sect_desc \<Rightarrow> bool" where
  "sect_fits data sd \<longleftrightarrow> aligned (sd_vaddr sd) \<and> 0x200000 \<le> sd_vaddr sd \<and>
     unat (sd_vaddr sd) + 4096 * sect_pages sd \<le> 2 ^ 48 \<and> sd_filesz sd \<le> sd_memsz sd \<and>
     unat (sd_file_off sd) + unat (sd_filesz sd) \<le> length data \<and> length data < 2 ^ 64"

text \<open>
  The first \<open>n\<close> bytes are at their addresses, in physical pages the allocator does not own.
\<close>

definition byte_placed :: "u8 list \<Rightarrow> mira_sect_desc \<Rightarrow> loader \<Rightarrow> nat \<Rightarrow> bool" where
  "byte_placed data sd s i \<longleftrightarrow> (\<exists>a. paging_virt_to_phys (sd_vaddr sd + word_of_nat i) (ld_vm s) = Inr a \<and>
     ld_mem s a = sect_byte data sd i \<and> page_base a \<notin> pmm_avail (vm_pmm (ld_vm s)))"

text \<open>The addresses of the pages of a section, from page \<open>k\<close> on.\<close>

definition sect_addrs :: "mira_sect_desc \<Rightarrow> nat \<Rightarrow> u64 set" where
  "sect_addrs sd k = {w. (\<exists>m. k \<le> m \<and> m < sect_pages sd \<and> same_page w (sd_vaddr sd + word_of_nat (4096 * m)))}"

text \<open>
  Loading at the addresses \<open>R\<close> keeps the invariant, takes at most \<open>n\<close> low pages, and changes
  neither the translation of any other address nor a page other than those it takes.
\<close>

definition loads :: "u64 set \<Rightarrow> nat \<Rightarrow> loader \<Rightarrow> loader \<Rightarrow> bool" where
  "loads R n s s' \<longleftrightarrow> vm_ok (ld_vm s') \<and> pmm_avail (vm_pmm (ld_vm s')) \<subseteq> pmm_avail (vm_pmm (ld_vm s)) \<and>
     card (low_free (ld_vm s)) \<le> card (low_free (ld_vm s')) + n \<and>
     (\<forall>w. w \<notin> R \<longrightarrow> paging_virt_to_phys w (ld_vm s') = paging_virt_to_phys w (ld_vm s)) \<and>
     (\<forall>a. page_base a \<notin> pmm_avail (vm_pmm (ld_vm s)) - pmm_avail (vm_pmm (ld_vm s')) \<longrightarrow> ld_mem s' a = ld_mem s a)"

lemma loads_refl [simp]: "vm_ok (ld_vm s) \<Longrightarrow> loads R n s s"
  by (simp add: loads_def)

lemma loads_trans:
  "loads R m s s1 \<Longrightarrow> loads R' n s1 s2 \<Longrightarrow> R \<subseteq> T \<Longrightarrow> R' \<subseteq> T \<Longrightarrow> loads T (m + n) s s2"
  unfolding loads_def by (intro conjI allI impI) (simp_all, blast, metis subsetD, metis subsetD)

lemma byte_placed_loads:
  assumes "byte_placed data sd s i" "loads R n s s'" "sd_vaddr sd + word_of_nat i \<notin> R"
  shows "byte_placed data sd s' i"
proof -
  obtain a where a: "paging_virt_to_phys (sd_vaddr sd + word_of_nat i) (ld_vm s) = Inr a"
    "ld_mem s a = sect_byte data sd i" "page_base a \<notin> pmm_avail (vm_pmm (ld_vm s))"
    using assms(1) by (auto simp: byte_placed_def)
  then show ?thesis
    using assms(2,3) unfolding byte_placed_def loads_def by (intro exI [of _ a]) auto
qed

lemma virt_same_page:
  assumes "vm_ok s" "aligned v" "paging_virt_to_phys v s = Inr p" "p \<noteq> 0" "k < 4096"
  shows "paging_virt_to_phys (v + k) s = Inr (p + k)"
proof -
  have "v AND 0xFFF = 0" using assms(2) by (simp add: aligned_def)
  then have "vmap s v = Some p"
    using assms(3,4) by (auto simp: virt_to_phys_vmap [OF assms(1)] split: option.splits)
  moreover have "\<forall>i<Suc 3. idx i (v + k) = idx i v"
    using page_offset(1) [OF assms(2,5)] by (simp add: same_page_def less_Suc_eq_le)
  from tbl_prefix [OF this] have "vmap s (v + k) = vmap s v" unfolding vmap_def .
  ultimately show ?thesis by (simp add: virt_to_phys_vmap [OF assms(1)] page_offset(2) [OF assms(2,5)])
qed

lemma low_page_accessible:
  assumes "vm_ok (ld_vm s)" "aligned p" "p < 0x200000"
  shows "accessible p (set_pmm q s)"
proof -
  have "vmap (ld_vm s) p = Some p"
    using assms low_small small_page by (auto simp: vm_ok_def)
  then have v: "tbl (ld_vm s) 3 p \<noteq> None" "vmap (ld_vm s) p = Some p" by (auto simp: vmap_eq split: option.splits)
  have "paging_virt_to_phys p (ld_vm s) = Inr p"
    using v assms(2) by (simp add: virt_to_phys_vmap [OF assms(1)] aligned_def)
  moreover have "paging_virt_to_phys p ((ld_vm s)\<lparr>vm_pmm := q\<rparr>) = paging_virt_to_phys p (ld_vm s)"
  proof -
    have "no_huge (ld_vm s)" "no_huge ((ld_vm s)\<lparr>vm_pmm := q\<rparr>)"
      using vm_ok_parts(4) [OF assms(1)] by (simp_all add: no_huge_def)
    then show ?thesis by (simp add: paging_virt_to_phys_def walk_def walk_nocreate)
  qed
  ultimately show ?thesis by (simp add: accessible_def set_pmm_def)
qed

lemma flags_low: "page_base (map_flags ty OR PAGE_WRITE) = 0" "page_base (exec_flags ty fl OR PAGE_WRITE) = 0"
  by (simp_all add: map_flags_def exec_flags_def page_consts page_base_def)

section \<open>Loading one page\<close>

lemma sect_page_addr:
  assumes "sect_fits data sd" "i < 4096 * sect_pages sd"
  shows "unat (sd_vaddr sd + word_of_nat i) = unat (sd_vaddr sd) + i" "sd_vaddr sd + word_of_nat i < 0x1000000000000"
    "0x200000 \<le> sd_vaddr sd + word_of_nat i"
proof -
  have b: "unat (sd_vaddr sd) + i < 2 ^ 48" using assms by (simp add: sect_fits_def)
  then have i: "unat (word_of_nat i :: u64) = i" by (simp add: unat_of_nat)
  show u: "unat (sd_vaddr sd + word_of_nat i) = unat (sd_vaddr sd) + i"
    using b i by (simp add: unat_word_ariths)
  show "sd_vaddr sd + word_of_nat i < 0x1000000000000" using u b by (simp add: word_less_nat_alt)
  show "0x200000 \<le> sd_vaddr sd + word_of_nat i"
    using u assms(1) by (simp add: word_le_nat_alt sect_fits_def)
qed

lemma sect_vaddr_page:
  assumes "sect_fits data sd"
  shows "\<exists>q. unat (sd_vaddr sd) = 4096 * q"
proof -
  have "sd_vaddr sd mod 4096 = 0" using assms by (simp add: sect_fits_def aligned_mod)
  then have "unat (sd_vaddr sd mod 4096) = 0" by simp
  then show ?thesis by (auto simp: unat_mod)
qed

lemma sect_page_aligned:
  assumes "sect_fits data sd" "k < sect_pages sd"
  shows "aligned (sd_vaddr sd + word_of_nat (4096 * k))"
proof -
  have "unat (sd_vaddr sd) mod 4096 = 0" using sect_vaddr_page [OF assms(1)] by auto
  then have "unat (sd_vaddr sd + word_of_nat (4096 * k)) mod 4096 = 0"
    using sect_page_addr(1) [OF assms(1), of "4096 * k"] assms(2) by simp
  then have "unat ((sd_vaddr sd + word_of_nat (4096 * k)) mod 4096) = 0" by (simp add: unat_mod)
  then show ?thesis by (simp only: aligned_mod word_unat_eq_iff unat_0)
qed

text \<open>The bytes of the page that the file provides.\<close>

definition page_bytes :: "u8 list \<Rightarrow> mira_sect_desc \<Rightarrow> nat \<Rightarrow> u8 list" where
  "page_bytes data sd k =
     take (min 4096 (unat (sd_filesz sd) - 4096 * k)) (drop (unat (sd_file_off sd) + 4096 * k) data)"

lemma page_bytes_nth:
  assumes "sect_fits data sd" "i < 4096"
  shows "(if i < length (page_bytes data sd k) then page_bytes data sd k ! i else 0) = sect_byte data sd (4096 * k + i)"
  using assms by (auto simp: page_bytes_def sect_byte_def sect_fits_def min_def add.assoc)

lemma page_copy:
  assumes fits: "sect_fits data sd" and uj: "unat j = 4096 * k"
  shows "(if j < sd_filesz sd
          then let left = sd_filesz sd - j; copy = (if left < 4096 then left else 4096)
               in bindR (slice data (sd_file_off sd + j) (unat copy)) (\<lambda>bs. Inr (store_page pg bs m))
          else Inr m) = Inr (store_page pg (page_bytes data sd k) m)"
proof -
  have in_file: "unat (sd_file_off sd) + unat (sd_filesz sd) \<le> length data" using fits by (simp add: sect_fits_def)
  show ?thesis
  proof (cases "j < sd_filesz sd")
    case False
    then have "page_bytes data sd k = []" using uj by (simp add: page_bytes_def word_less_nat_alt)
    then show ?thesis using False by (simp add: store_page_def)
  next
    case True
    then have lt: "4096 * k < unat (sd_filesz sd)" using uj by (simp add: word_less_nat_alt)
    have c: "unat (if sd_filesz sd - j < 4096 then sd_filesz sd - j else 4096) = min 4096 (unat (sd_filesz sd) - 4096 * k)"
    proof -
      have "unat (sd_filesz sd - j) = unat (sd_filesz sd) - 4096 * k"
        using lt uj by (simp add: unat_sub word_le_nat_alt)
      then show ?thesis by (simp add: word_less_nat_alt min_def)
    qed
    have o: "unat (sd_file_off sd + j) = unat (sd_file_off sd) + 4096 * k"
      using lt uj in_file fits by (simp add: unat_word_ariths sect_fits_def)
    show ?thesis using True in_file lt c o by (auto simp: slice_def page_bytes_def Let_def)
  qed
qed

lemma page_store_bytes:
  assumes "sect_fits data sd" "d < 4096"
  shows "store_page pg (page_bytes data sd k) (clear_page pg m) (pg + d) = sect_byte data sd (4096 * k + unat d)"
proof -
  have "unat d < 4096" using assms(2) by (simp add: word_less_nat_alt)
  from page_bytes_nth [OF assms(1) this, of k] show ?thesis
    using assms(2) by (simp add: store_page_def clear_page_def split: if_splits)
qed

lemma page_store_frame:
  assumes "aligned pg" "page_base a \<noteq> pg"
  shows "store_page pg (page_bytes data sd k) (clear_page pg m) a = m a"
proof -
  have "\<not> a - pg < 4096"
  proof
    assume "a - pg < 4096"
    from page_offset(3) [OF assms(1) this] have "page_base a = pg" by simp
    with assms(2) show False by simp
  qed
  moreover from this have "\<not> unat (a - pg) < 4096" by (simp add: word_less_nat_alt)
  moreover have "length (page_bytes data sd k) \<le> 4096" by (simp add: page_bytes_def)
  ultimately show ?thesis by (simp add: store_page_def clear_page_def)
qed

lemma vm_ok_pmm:
  assumes "vm_ok s" "pmm_ok p" "pmm_avail p \<subseteq> pmm_avail (vm_pmm s)"
  shows "vm_ok (s\<lparr>vm_pmm := p\<rparr>)" "paging_virt_to_phys v (s\<lparr>vm_pmm := p\<rparr>) = paging_virt_to_phys v s"
proof -
  show ok: "vm_ok (s\<lparr>vm_pmm := p\<rparr>)" by (rule vm_ok_cong [OF assms(1)]) (simp_all add: assms(2,3))
  show "paging_virt_to_phys v (s\<lparr>vm_pmm := p\<rparr>) = paging_virt_to_phys v s"
    by (simp add: virt_to_phys_vmap [OF ok] virt_to_phys_vmap [OF assms(1)])
qed

lemma load_page_spec:
  assumes ok: "vm_ok (ld_vm s)" and free: "4 \<le> card (low_free (ld_vm s))" and fits: "sect_fits data sd"
    and k: "k < sect_pages sd" and j: "j = word_of_nat (4096 * k)" and fl: "page_base (flags OR PAGE_WRITE) = 0"
  shows "\<exists>s'. load_page data sd flags j s = Inr (True, s') \<and> loads {w. same_page w (sd_vaddr sd + j)} 4 s s' \<and>
    (\<forall>i. 4096 * k \<le> i \<and> i < 4096 * Suc k \<longrightarrow> byte_placed data sd s' i)"
proof -
  let ?v = "ld_vm s" and ?va = "sd_vaddr sd + j"
  note parts = vm_ok_parts [OF ok]
  have fin: "finite (low_free ?v)" using pmmi.avail_finite [OF parts(1)] by (simp add: low_free_def)
  have "low_free ?v \<noteq> {}" using free by auto
  then obtain a where "a \<in> pmm_avail (vm_pmm ?v)" "a < 0x200000" by (auto simp: low_free_def)
  then obtain p pm where p: "pmm_alloc_page (vm_pmm ?v) = Inr (p, pm)" "p \<in> pmm_avail (vm_pmm ?v)" "p < 0x200000"
    "pmm_avail pm = pmm_avail (vm_pmm ?v) - {p}" "pmm_ok pm"
    using pmm_alloc_low [OF parts(1)] by blast
  have p0: "p \<noteq> 0" using p(2) pmmi.avail_nonzero [OF parts(1)] by blast
  have al: "aligned p" using pmmi.avail_aligned [OF parts(1) p(2)] by (simp add: aligned_mod)
  let ?v1 = "?v\<lparr>vm_pmm := pm\<rparr>"
  have "pmm_avail pm \<subseteq> pmm_avail (vm_pmm ?v)" unfolding p(4) by blast
  note ok1 = vm_ok_pmm(1) [OF ok p(5) this] and tr1 = vm_ok_pmm(2) [OF ok p(5) this]
  have lf: "low_free ?v1 = low_free ?v - {p}" using p(4) by (auto simp: low_free_def)
  have "p \<in> low_free ?v" using p(2,3) by (simp add: low_free_def)
  then have card1: "card (low_free ?v) = Suc (card (low_free ?v1))" unfolding lf by (rule card.remove [OF fin])
  have uj: "unat j = 4096 * k" and nl: "\<not> low ?va" and ava: "aligned ?va"
  proof -
    have "4096 * k < 2 ^ 48" using k fits by (simp add: sect_fits_def)
    then show "unat j = 4096 * k" unfolding j by (simp only: unat_of_nat) simp
    have "4096 * k < 4096 * sect_pages sd" using k by simp
    from sect_page_addr(2,3) [OF fits this] show "\<not> low ?va" unfolding j by (intro not_low)
    show "aligned ?va" unfolding j by (rule sect_page_aligned [OF fits k])
  qed
  have c3: "3 \<le> card (low_free ?v1)" using free card1 by simp
  have pb: "page_base p + (?va AND 0xFFF) = p" using aligned_keep [OF al] ava by (simp add: aligned_def)
  obtain v' where v': "paging_map_page ?va p (flags OR PAGE_WRITE) ?v1 = Inr (?va, v')" "vm_ok v'"
    "paging_virt_to_phys ?va v' = Inr p" "\<forall>w. \<not> same_page w ?va \<longrightarrow> paging_virt_to_phys w v' = paging_virt_to_phys w ?v1"
    "pmm_avail (vm_pmm v') \<subseteq> pmm_avail (vm_pmm ?v1)" "card (low_free ?v1) \<le> card (low_free v') + 3"
    using paging_map_low [OF ok1 c3 nl fl, of p] unfolding pb by blast
  define m where "m = store_page p (page_bytes data sd k) (clear_page p (ld_mem s))"
  let ?s = "s\<lparr>ld_mem := m, ld_vm := v'\<rparr>"
  have "load_page data sd flags j s = Inr (True, ?s)"
    using p(1) p0 low_page_accessible [OF ok al p(3)] v'(1)
    by (simp add: load_page_def page_copy [OF fits uj] set_pmm_def m_def)
  moreover have "loads {w. same_page w ?va} 4 s ?s"
  proof -
    have "p \<notin> pmm_avail (vm_pmm v')" using v'(5) p(4) by auto
    then have "m a = ld_mem s a" if "page_base a \<notin> pmm_avail (vm_pmm ?v) - pmm_avail (vm_pmm v')" for a
      unfolding m_def using that p(2) by (intro page_store_frame [OF al]) blast
    moreover have "pmm_avail (vm_pmm v') \<subseteq> pmm_avail (vm_pmm ?v)" using v'(5) p(4) by auto
    ultimately show ?thesis using v'(2,4,6) card1 tr1 by (simp add: loads_def)
  qed
  moreover have "byte_placed data sd ?s i" if "4096 * k \<le> i" "i < 4096 * Suc k" for i
  proof -
    define d :: u64 where "d = word_of_nat (i - 4096 * k)"
    have uo: "unat d = i - 4096 * k" using that unfolding d_def by (simp only: unat_of_nat) simp
    then have d: "d < 4096" using that by (simp add: word_less_nat_alt)
    have "word_of_nat i = (word_of_nat (4096 * k + (i - 4096 * k)) :: u64)" using that(1) by simp
    then have "word_of_nat i = j + d" unfolding of_nat_add j d_def .
    then have "paging_virt_to_phys (sd_vaddr sd + word_of_nat i) v' = Inr (p + d)"
      using virt_same_page [OF v'(2) ava v'(3) p0 d] by (simp add: add.assoc)
    moreover have "m (p + d) = sect_byte data sd i"
      using page_store_bytes [OF fits d, of p k "ld_mem s"] uo that by (simp add: m_def)
    moreover have "page_base (p + d) \<notin> pmm_avail (vm_pmm v')" using page_offset(3) [OF al d] v'(5) p(4) by auto
    ultimately show ?thesis unfolding byte_placed_def by (intro exI [of _ "p + d"]) simp
  qed
  ultimately show ?thesis by (intro exI [of _ ?s]) simp
qed

section \<open>Loading a section\<close>

lemma sect_addrs_offset:
  assumes "sect_fits data sd" "i < 4096 * k" "k \<le> sect_pages sd"
  shows "sd_vaddr sd + word_of_nat i \<notin> sect_addrs sd k"
proof
  assume "sd_vaddr sd + word_of_nat i \<in> sect_addrs sd k"
  then obtain m where m: "k \<le> m" "m < sect_pages sd"
    and s: "same_page (sd_vaddr sd + word_of_nat i) (sd_vaddr sd + word_of_nat (4096 * m))"
    unfolding sect_addrs_def by blast
  have i: "i < 4096 * sect_pages sd" and m': "4096 * m < 4096 * sect_pages sd" using assms(2,3) m by simp_all
  have "(unat (sd_vaddr sd) + i) div 4096 = (unat (sd_vaddr sd) + 4096 * m) div 4096"
    using same_page_div [OF s] sect_page_addr(1,2) [OF assms(1) i] sect_page_addr(1,2) [OF assms(1) m'] by metis
  moreover obtain q where "unat (sd_vaddr sd) = 4096 * q" using sect_vaddr_page [OF assms(1)] by blast
  ultimately show False using assms(2) m(1) by simp
qed

lemma load_pages_spec:
  assumes "vm_ok (ld_vm s)" "sect_fits data sd" "page_base (flags OR PAGE_WRITE) = 0"
    "k \<le> sect_pages sd" "4 * (sect_pages sd - k) \<le> card (low_free (ld_vm s))" "sect_pages sd - k \<le> n"
  shows "\<exists>s'. load_pages n data sd flags (word_of_nat (4096 * k)) s = Inr (True, s') \<and>
    loads (sect_addrs sd k) (4 * (sect_pages sd - k)) s s' \<and>
    (\<forall>i. 4096 * k \<le> i \<and> i < 4096 * sect_pages sd \<longrightarrow> byte_placed data sd s' i)"
  using assms(1,4,5,6)
proof (induction "sect_pages sd - k" arbitrary: k n s)
  case 0
  then have k: "k = sect_pages sd" by simp
  have b: "4096 * k < 2 ^ 64" using assms(2) unfolding k sect_fits_def by simp
  have "unat (word_of_nat (4096 * k) :: u64) = 4096 * k" using b by (simp only: unat_of_nat) simp
  then have "\<not> word_of_nat (4096 * k) < sd_memsz sd"
    unfolding k word_less_nat_alt by (simp add: sect_pages_def)
  then have "load_pages n data sd flags (word_of_nat (4096 * k)) s = Inr (True, s)" by (cases n) (simp_all only: load_pages.simps if_False)
  then show ?case using 0(2) k by (intro exI [of _ s]) auto
next
  case (Suc m)
  then have k: "k < sect_pages sd" by simp
  obtain n' where n: "n = Suc n'" using Suc.hyps(2) Suc.prems(4) by (cases n) auto
  have b: "4096 * k < 2 ^ 64" using assms(2) k unfolding sect_fits_def by simp
  have u: "unat (word_of_nat (4096 * k) :: u64) = 4096 * k" using b by (simp only: unat_of_nat) simp
  have lt: "word_of_nat (4096 * k) < sd_memsz sd"
    unfolding word_less_nat_alt u using k by (simp add: sect_pages_def)
  have "4 \<le> card (low_free (ld_vm s))" using Suc.hyps(2) Suc.prems(3) by simp
  from load_page_spec [OF Suc.prems(1) this assms(2) k refl assms(3)]
  obtain s1 where s1: "load_page data sd flags (word_of_nat (4096 * k)) s = Inr (True, s1)"
    "loads {w. same_page w (sd_vaddr sd + word_of_nat (4096 * k))} 4 s s1"
    "\<forall>i. 4096 * k \<le> i \<and> i < 4096 * Suc k \<longrightarrow> byte_placed data sd s1 i" by blast
  have ok1: "vm_ok (ld_vm s1)" and c1: "card (low_free (ld_vm s)) \<le> card (low_free (ld_vm s1)) + 4"
    using s1(2) unfolding loads_def by blast+
  have m: "m = sect_pages sd - Suc k" and "Suc k \<le> sect_pages sd" and "sect_pages sd - Suc k \<le> n'"
    and "4 * (sect_pages sd - Suc k) \<le> card (low_free (ld_vm s1))"
    using Suc.hyps(2) Suc.prems(3,4) n c1 by simp_all
  from Suc.hyps(1) [OF m ok1 this(2,4,3)]
  obtain s2 where s2: "load_pages n' data sd flags (word_of_nat (4096 * Suc k)) s1 = Inr (True, s2)"
    "loads (sect_addrs sd (Suc k)) (4 * (sect_pages sd - Suc k)) s1 s2"
    "\<forall>i. 4096 * Suc k \<le> i \<and> i < 4096 * sect_pages sd \<longrightarrow> byte_placed data sd s2 i" by blast
  have "word_of_nat (4096 * k) + 4096 = (word_of_nat (4096 * Suc k) :: u64)" by simp
  then have "load_pages n data sd flags (word_of_nat (4096 * k)) s = Inr (True, s2)"
    unfolding n load_pages.simps using lt s1(1) s2(1) by (simp only: if_True bindR_simps split_conv)
  moreover have "loads (sect_addrs sd k) (4 + 4 * (sect_pages sd - Suc k)) s s2"
    using k by (intro loads_trans [OF s1(2) s2(2)]) (auto simp: sect_addrs_def intro: Suc_leD)
  moreover have "4 + 4 * (sect_pages sd - Suc k) = 4 * (sect_pages sd - k)" using k by simp
  moreover have "byte_placed data sd s2 i" if "4096 * k \<le> i" "i < 4096 * sect_pages sd" for i
  proof (cases "i < 4096 * Suc k")
    case True
    then have "byte_placed data sd s1 i" using s1(3) that(1) by blast
    from byte_placed_loads [OF this s2(2) sect_addrs_offset [OF assms(2) True]] k show ?thesis by simp
  next
    case False
    then show ?thesis using s2(3) that by simp
  qed
  ultimately show ?case by (intro exI [of _ s2]) metis
qed

text \<open>A section within the image passes the loader's check, whose sum may wrap.\<close>

lemma sect_fits_bounds:
  assumes "sect_fits data sd"
  shows "sect_bounds_ok (word_of_nat (length data)) sd"
proof -
  have l: "unat (word_of_nat (length data) :: u64) = length data"
    using assms by (simp add: sect_fits_def unat_of_nat)
  have "unat (sd_file_off sd + sd_filesz sd) = unat (sd_file_off sd) + unat (sd_filesz sd)"
    using assms by (simp add: sect_fits_def unat_word_ariths)
  with assms l show ?thesis by (simp add: sect_bounds_ok_def sect_fits_def word_less_nat_alt word_le_nat_alt)
qed

lemma sect_pages_fuel:
  assumes "vm_ok s" "4 * sect_pages sd \<le> card (low_free s)"
  shows "sect_pages sd \<le> LOAD_FUEL"
proof -
  have "low_free s \<subseteq> pmm_avail (vm_pmm s)" by (auto simp: low_free_def)
  then have "card (low_free s) \<le> card (pmm_avail (vm_pmm s))"
    using pmmi.avail_finite [OF vm_ok_parts(1) [OF assms(1)]] by (rule card_mono [rotated])
  also have "\<dots> \<le> MAX_PHYS_PAGES" by (rule pmm_avail_card [OF vm_ok_parts(1) [OF assms(1)]])
  finally show ?thesis using assms(2) by (simp add: LOAD_FUEL_def)
qed

lemma load_section_spec:
  assumes "vm_ok (ld_vm s)" "sect_fits data sd" "4 * sect_pages sd \<le> card (low_free (ld_vm s))"
    "page_base (flags OR PAGE_WRITE) = 0"
  shows "\<exists>s'. load_pages LOAD_FUEL data sd flags 0 s = Inr (True, s') \<and>
    loads (sect_addrs sd 0) (4 * sect_pages sd) s s' \<and> (\<forall>i < 4096 * sect_pages sd. byte_placed data sd s' i)"
  using load_pages_spec [OF assms(1,2,4), of 0 LOAD_FUEL] assms(3) sect_pages_fuel [OF assms(1,3)] by simp

text \<open>
  \<open>mira_map_section\<close> on a section within the image, at a page boundary above the first
  2 MiB, with four free low pages per page of the section: it succeeds, and afterwards the
  virtual addresses of the section read the bytes of the file, then zeros up to the end of the
  last page, while all other translations and all pages in use stay as they were.
\<close>

lemma map_section_places:
  assumes "vm_ok (ld_vm s)" "sect_fits data sd" "4 * sect_pages sd \<le> card (low_free (ld_vm s))"
  shows "\<exists>s'. mira_map_section data (word_of_nat (length data)) sd s = Inr (True, s') \<and>
    (\<forall>i < 4096 * sect_pages sd. byte_placed data sd s' i) \<and> loads (sect_addrs sd 0) (4 * sect_pages sd) s s'"
  using load_section_spec [OF assms flags_low(1)] sect_fits_bounds [OF assms(2)]
  by (simp add: mira_map_section_def) blast

section \<open>Loading an image\<close>

definition sections :: "u8 list \<Rightarrow> mira_bin_header \<Rightarrow> mira_sect_desc list" where
  "sections data hdr = map (\<lambda>i. sect_of (take SECT_BYTES (drop (unat (mh_sect_table_off hdr) + SECT_BYTES * i) data)))
     [0..<unat (mh_sect_count hdr)]"

definition sects_disjoint :: "mira_sect_desc \<Rightarrow> mira_sect_desc \<Rightarrow> bool" where
  "sects_disjoint a b \<longleftrightarrow> unat (sd_vaddr a) + 4096 * sect_pages a \<le> unat (sd_vaddr b) \<or>
     unat (sd_vaddr b) + 4096 * sect_pages b \<le> unat (sd_vaddr a)"

lemma sect_addrs_disjoint:
  assumes "sect_fits data a" "sect_fits data b" "sects_disjoint a b" "i < 4096 * sect_pages a"
  shows "sd_vaddr a + word_of_nat i \<notin> sect_addrs b k"
proof
  assume "sd_vaddr a + word_of_nat i \<in> sect_addrs b k"
  then obtain m where m: "m < sect_pages b"
    and s: "same_page (sd_vaddr a + word_of_nat i) (sd_vaddr b + word_of_nat (4096 * m))"
    unfolding sect_addrs_def by blast
  have m': "4096 * m < 4096 * sect_pages b" using m by simp
  have d: "(unat (sd_vaddr a) + i) div 4096 = (unat (sd_vaddr b) + 4096 * m) div 4096"
    using same_page_div [OF s] sect_page_addr(1,2) [OF assms(1,4)] sect_page_addr(1,2) [OF assms(2) m'] by metis
  obtain p q where pq: "unat (sd_vaddr a) = 4096 * p" "unat (sd_vaddr b) = 4096 * q"
    using sect_vaddr_page [OF assms(1)] sect_vaddr_page [OF assms(2)] by blast
  have "p + i div 4096 = q + m" using d unfolding pq by simp
  moreover have "i div 4096 < sect_pages a" using assms(4) by (simp add: less_mult_imp_div_less mult.commute)
  ultimately show False using assms(3) m pq by (auto simp: sects_disjoint_def)
qed

lemma read_sect_table:
  assumes "unat (mh_sect_table_off hdr) + SECT_BYTES * unat (mh_sect_count hdr) \<le> length data" "length data < 2 ^ 64"
    and "i < unat (mh_sect_count hdr)"
  shows "read_sect data (mh_sect_table_off hdr + word_of_nat (SECT_BYTES * i)) = Inr (sections data hdr ! i)"
proof -
  have le: "SECT_BYTES * Suc i \<le> SECT_BYTES * unat (mh_sect_count hdr)" using assms(3) by (intro mult_le_mono2) simp
  then have lt: "unat (mh_sect_table_off hdr) + SECT_BYTES * i < 2 ^ 64"
    using assms(1,2) by (simp add: SECT_BYTES_def)
  then have "unat (word_of_nat (SECT_BYTES * i) :: u64) = SECT_BYTES * i" by (simp only: unat_of_nat) simp
  then have "unat (mh_sect_table_off hdr + word_of_nat (SECT_BYTES * i)) = unat (mh_sect_table_off hdr) + SECT_BYTES * i"
    using lt by (simp only: unat_word_ariths) simp
  then show ?thesis
    using le assms by (simp add: read_sect_def slice_def sections_def)
qed

lemma load_sects_spec:
  assumes table: "unat (mh_sect_table_off hdr) + SECT_BYTES * unat (mh_sect_count hdr) \<le> length data" "length data < 2 ^ 64"
    and "\<forall>i \<in> set is. i < unat (mh_sect_count hdr) \<and> sect_fits data (sections data hdr ! i)"
    and "sorted_wrt (\<lambda>i j. sects_disjoint (sections data hdr ! i) (sections data hdr ! j)) is"
    and "vm_ok (ld_vm s)" "4 * (\<Sum>i\<leftarrow>is. sect_pages (sections data hdr ! i)) \<le> card (low_free (ld_vm s))"
  shows "\<exists>s'. load_sects is data (word_of_nat (length data)) hdr s = Inr (True, s') \<and>
    loads (\<Union>i \<in> set is. sect_addrs (sections data hdr ! i) 0) (4 * (\<Sum>i\<leftarrow>is. sect_pages (sections data hdr ! i))) s s' \<and>
    (\<forall>i \<in> set is. \<forall>k < 4096 * sect_pages (sections data hdr ! i). byte_placed data (sections data hdr ! i) s' k)"
  using assms(3-)
proof (induction "is" arbitrary: s)
  case Nil
  then show ?case by simp
next
  case (Cons i rest)
  let ?sd = "sections data hdr ! i" and ?n = "\<Sum>i\<leftarrow>rest. sect_pages (sections data hdr ! i)"
  let ?R = "\<Union>i \<in> set rest. sect_addrs (sections data hdr ! i) 0"
  have fits: "sect_fits data ?sd" and i: "i < unat (mh_sect_count hdr)" using Cons.prems(1) by simp_all
  have f: "4 * sect_pages ?sd \<le> card (low_free (ld_vm s))" using Cons.prems(4) by simp
  let ?fl = "exec_flags (sd_type ?sd) (sd_flags ?sd)"
  from load_section_spec [OF Cons.prems(3) fits f flags_low(2)]
  obtain s1 where p: "load_pages LOAD_FUEL data ?sd ?fl 0 s = Inr (True, s1)" and
    s1: "loads (sect_addrs ?sd 0) (4 * sect_pages ?sd) s s1" "\<forall>k < 4096 * sect_pages ?sd. byte_placed data ?sd s1 k" by blast
  have l: "load_sect data (word_of_nat (length data)) hdr i s = Inr (True, s1)"
    unfolding load_sect_def read_sect_table [OF table i] bindR_simps using sect_fits_bounds [OF fits] p by simp
  have ok1: "vm_ok (ld_vm s1)" and c1: "card (low_free (ld_vm s)) \<le> card (low_free (ld_vm s1)) + 4 * sect_pages ?sd"
    using s1(1) unfolding loads_def by blast+
  have "\<forall>i \<in> set rest. i < unat (mh_sect_count hdr) \<and> sect_fits data (sections data hdr ! i)"
    "sorted_wrt (\<lambda>i j. sects_disjoint (sections data hdr ! i) (sections data hdr ! j)) rest"
    "4 * ?n \<le> card (low_free (ld_vm s1))"
    using Cons.prems c1 by simp_all
  from Cons.IH [OF this(1,2) ok1 this(3)]
  obtain s2 where s2: "load_sects rest data (word_of_nat (length data)) hdr s1 = Inr (True, s2)"
    "loads ?R (4 * ?n) s1 s2"
    "\<forall>i \<in> set rest. \<forall>k < 4096 * sect_pages (sections data hdr ! i). byte_placed data (sections data hdr ! i) s2 k"
    by blast
  have "loads (\<Union>i \<in> set (i # rest). sect_addrs (sections data hdr ! i) 0) (4 * sect_pages ?sd + 4 * ?n) s s2"
    by (rule loads_trans [OF s1(1) s2(2)]) auto
  moreover have "byte_placed data ?sd s2 k" if "k < 4096 * sect_pages ?sd" for k
  proof (rule byte_placed_loads [OF _ s2(2)])
    show "byte_placed data ?sd s1 k" using s1(2) that by blast
    show "sd_vaddr ?sd + word_of_nat k \<notin> ?R"
      using sect_addrs_disjoint [OF fits _ _ that] Cons.prems(1,2) by auto
  qed
  ultimately show ?case using l s2(1,3) by (intro exI [of _ s2]) (simp add: distrib_left)
qed

text \<open>What the validator accepts.\<close>

lemma exec_validate_True:
  assumes "exec_validate_header data sz ty = Inr True"
  obtains hdr where "read_header data = Inr hdr" "header_fields_ok hdr sz ty" "mh_header_size hdr = 64"
    "image_hash data sz = Inr (mh_checksum hdr)" "64 \<le> sz"
proof -
  obtain hdr where h: "read_header data = Inr hdr" "header_fields_ok hdr sz ty" "\<not> ucast (mh_header_size hdr) > (64 :: u64)"
    "\<not> sz < 64" "image_hash data sz = Inr (mh_checksum hdr)"
    using assms by (auto simp: exec_validate_header_def split: if_splits)
  have "ucast (mh_header_size hdr) = (64 :: u64)" using h(2,3) by (auto simp: header_fields_ok_def)
  then have "ucast (ucast (mh_header_size hdr) :: u64) = (64 :: u32)" by simp
  moreover have "ucast (ucast (mh_header_size hdr) :: u64) = mh_header_size hdr"
    by (rule bit_word_eqI) (auto simp: bit_simps)
  ultimately have "mh_header_size hdr = 64" by (simp only:)
  with h that show thesis by (simp add: not_less)
qed

lemma table_in_image:
  assumes "header_fields_ok hdr (word_of_nat (length data)) ty" "length data < 2 ^ 63"
  shows "unat (mh_sect_table_off hdr) + SECT_BYTES * unat (mh_sect_count hdr) \<le> length data"
proof -
  have l: "unat (word_of_nat (length data) :: u64) = length data" using assms(2) by (simp add: unat_of_nat)
  have f: "mh_sect_table_off hdr < word_of_nat (length data)" "mh_sect_count hdr \<le> 65535"
    "mh_sect_table_off hdr + ucast (mh_sect_count hdr) * 40 \<le> word_of_nat (length data)"
    using assms(1) by (auto simp: header_fields_ok_def not_le not_less)
  have c: "unat (mh_sect_count hdr) \<le> 65535" using f(2) by (simp add: word_le_nat_alt)
  have u: "unat (ucast (mh_sect_count hdr) :: u64) = unat (mh_sect_count hdr)" using c by (simp add: unsigned_ucast_eq take_bit_nat_eq_self_iff)
  have "unat (ucast (mh_sect_count hdr) * 40 :: u64) = unat (mh_sect_count hdr) * 40"
    using c by (simp add: unat_word_ariths u)
  moreover have "unat (mh_sect_table_off hdr) < 2 ^ 63" using f(1) l assms(2) by (simp add: word_less_nat_alt)
  ultimately have "unat (mh_sect_table_off hdr + ucast (mh_sect_count hdr) * 40) = unat (mh_sect_table_off hdr) + unat (mh_sect_count hdr) * 40"
    using c by (simp only: unat_word_ariths) simp
  with f(3) l show ?thesis by (simp add: word_le_nat_alt SECT_BYTES_def mult.commute)
qed

text \<open>
  C3. \<open>mira_load\<close> on an image that the validator accepts and whose sections lie within it, on
  page boundaries above the first 2 MiB and apart from each other, with four free low pages for
  each page: the load succeeds with the entry point of the header, and every section is then at
  its addresses, byte for byte, its tail zeroed.
\<close>

theorem mira_load_places:
  assumes "vm_ok (ld_vm s)" "length data < 2 ^ 63" "exec_validate_header data (word_of_nat (length data)) ty = Inr True"
    and "read_header data = Inr hdr" "\<forall>sd \<in> set (sections data hdr). sect_fits data sd"
    and "sorted_wrt sects_disjoint (sections data hdr)"
    and "4 * sum_list (map sect_pages (sections data hdr)) \<le> card (low_free (ld_vm s))"
  shows "\<exists>s'. mira_load data (word_of_nat (length data)) ty s =
      Inr (Some \<lparr>li_entry_point = mh_entry_point hdr, li_cr3 = 0, li_user_stack_top = 0\<rparr>, s') \<and>
    (\<forall>sd \<in> set (sections data hdr). \<forall>i < 4096 * sect_pages sd. byte_placed data sd s' i) \<and> vm_ok (ld_vm s')"
proof -
  have hf: "header_fields_ok hdr (word_of_nat (length data)) ty" and sz: "64 \<le> (word_of_nat (length data) :: u64)"
    using exec_validate_True [OF assms(3)] assms(4) by (metis Inr_inject)+
  note table = table_in_image [OF hf assms(2)]
  define n where "n = unat (mh_sect_count hdr)"
  have len: "length (sections data hdr) = n" by (simp add: sections_def n_def)
  then have s: "sections data hdr = map ((!) (sections data hdr)) [0..<n]" by (metis map_nth)
  have "sorted_wrt sects_disjoint (map ((!) (sections data hdr)) [0..<n])"
    using assms(6) by (simp only: s [symmetric])
  then have "sorted_wrt (\<lambda>i j. sects_disjoint (sections data hdr ! i) (sections data hdr ! j)) [0..<n]"
    by (simp only: sorted_wrt_map)
  moreover have "4 * (\<Sum>i\<leftarrow>[0..<n]. sect_pages (sections data hdr ! i)) \<le> card (low_free (ld_vm s))"
  proof -
    have "map sect_pages (sections data hdr) = map (\<lambda>i. sect_pages (sections data hdr ! i)) [0..<n]"
      by (subst s) simp
    then show ?thesis using assms(7) by simp
  qed
  moreover have "\<forall>i \<in> set [0..<n]. i < unat (mh_sect_count hdr) \<and> sect_fits data (sections data hdr ! i)"
    using assms(5) len by (auto simp: n_def)
  moreover have "length data < 2 ^ 64" using assms(2) by simp
  ultimately obtain s' where s': "load_sects [0..<n] data (word_of_nat (length data)) hdr s = Inr (True, s')" "vm_ok (ld_vm s')"
    "\<forall>i \<in> set [0..<n]. \<forall>k < 4096 * sect_pages (sections data hdr ! i). byte_placed data (sections data hdr ! i) s' k"
    using load_sects_spec [OF table, of "[0..<n]" s] assms(1) unfolding loads_def by blast
  have "mira_load data (word_of_nat (length data)) ty s =
      Inr (Some \<lparr>li_entry_point = mh_entry_point hdr, li_cr3 = 0, li_user_stack_top = 0\<rparr>, s')"
    using sz assms(3,4) s'(1) by (simp add: mira_load_def n_def not_less)
  moreover have "\<forall>sd \<in> set (sections data hdr). \<forall>i < 4096 * sect_pages sd. byte_placed data sd s' i"
    using s'(3) len by (auto simp: in_set_conv_nth)
  ultimately show ?thesis using s'(2) by blast
qed

section \<open>Checksum\<close>

lemma fnv_prime_inj: "h * FNV_PRIME = h' * FNV_PRIME \<Longrightarrow> h = h'"
proof -
  assume "h * FNV_PRIME = h' * FNV_PRIME"
  then have "h * (FNV_PRIME * 0xCE965057AFF6957B) = h' * (FNV_PRIME * 0xCE965057AFF6957B)"
    by (simp only: mult.assoc [symmetric])
  moreover have "FNV_PRIME * 0xCE965057AFF6957B = 1" by (simp add: FNV_PRIME_def)
  ultimately show "h = h'" by simp
qed

lemma xor_inj: "(a :: u64) XOR c = b XOR c \<Longrightarrow> a = b"
proof -
  assume "a XOR c = b XOR c"
  then have "(a XOR c) XOR c = (b XOR c) XOR c" by (simp only:)
  then show "a = b" by (simp add: xor.assoc)
qed

lemma fnv_step_inj_state: "fnv_step b h = fnv_step b h' \<longleftrightarrow> h = h'"
  by (auto simp: fnv_step_def dest: fnv_prime_inj xor_inj)

lemma fnv_step_inj_byte: "fnv_step b h = fnv_step b' h \<longleftrightarrow> b = b'"
proof
  assume "fnv_step b h = fnv_step b' h"
  then have "h XOR ucast b = h XOR ucast b'" unfolding fnv_step_def by (rule fnv_prime_inj)
  then have "(ucast b :: u64) XOR h = ucast b' XOR h" by (simp only: xor.commute)
  then have "(ucast b :: u64) = ucast b'" by (rule xor_inj)
  then have "(ucast (ucast b :: u64) :: u8) = ucast (ucast b' :: u64)" by simp
  moreover have "(ucast (ucast c :: u64) :: u8) = c" for c :: u8 by (rule bit_word_eqI) (auto simp: bit_simps)
  ultimately show "b = b'" by simp
qed simp

lemma fnv_fold_inj: "fold fnv_step bs h = fold fnv_step bs h' \<longleftrightarrow> h = h'"
  by (induction bs arbitrary: h h') (simp_all add: fnv_step_inj_state)

lemma fnv_fold_update:
  assumes "i < length bs" "b \<noteq> bs ! i"
  shows "fold fnv_step (bs[i := b]) h \<noteq> fold fnv_step bs h"
proof -
  have "fold fnv_step (bs[i := b]) h = fold fnv_step (drop (Suc i) bs) (fnv_step b (fold fnv_step (take i bs) h))"
    using assms(1) by (simp add: upd_conv_take_nth_drop)
  moreover have "fold fnv_step bs h = fold fnv_step (drop (Suc i) bs) (fnv_step (bs ! i) (fold fnv_step (take i bs) h))"
    by (subst id_take_nth_drop [OF assms(1)]) simp
  ultimately show ?thesis using assms(2) by (simp add: fnv_fold_inj fnv_step_inj_byte)
qed

lemma le_nat_less: "le_nat bs < 256 ^ length bs"
proof (induction bs)
  case (Cons b bs)
  have "unat b < 256" using unsigned_less [of b] by simp
  then show ?case using Cons by simp
qed simp

lemma le_nat_inj: "length bs = length cs \<Longrightarrow> le_nat bs = le_nat cs \<Longrightarrow> bs = cs"
proof (induction bs cs rule: list_induct2)
  case (Cons b bs c cs)
  have "unat b < 256" "unat c < 256" using unsigned_less [of b] unsigned_less [of c] by simp_all
  moreover have eq: "unat b + 256 * le_nat bs = unat c + 256 * le_nat cs" using Cons.prems by simp
  then have "(unat b + 256 * le_nat bs) mod 256 = (unat c + 256 * le_nat cs) mod 256" by (simp only:)
  ultimately have "unat b = unat c" by simp
  with eq have "unat b = unat c \<and> le_nat bs = le_nat cs" by simp
  then show ?case using Cons.IH by (simp add: word_unat_eq_iff)
qed simp

text \<open>The bytes that the validators hash.\<close>

definition hashed :: "u8 list \<Rightarrow> u8 list" where "hashed data = take 56 data @ replicate 8 0 @ drop 64 data"

lemma image_hash_eq:
  assumes "unat sz = length data" "64 \<le> length data"
  shows "image_hash data sz = Inr (fold fnv_step (hashed data) FNV_BASIS)"
  using assms by (simp add: image_hash_def slice_def hashed_def HEADER_BYTES_def)

lemma hashed_update:
  assumes "i < length data" "64 \<le> length data"
  shows "hashed (data[i := b]) = (if 56 \<le> i \<and> i < 64 then hashed data else (hashed data)[i := b])"
  using assms by (auto simp: hashed_def list_update_append take_update_swap drop_update_swap list_update_beyond)

lemma hashed_nth: "i < length data \<Longrightarrow> \<not> (56 \<le> i \<and> i < 64) \<Longrightarrow> hashed data ! i = data ! i"
  by (auto simp: hashed_def nth_append)

lemma length_hashed: "64 \<le> length data \<Longrightarrow> length (hashed data) = length data"
  by (simp add: hashed_def)

lemma checksum_update:
  assumes "64 \<le> length data" "i < length data" "b \<noteq> data ! i" "56 \<le> i" "i < 64"
  shows "mh_checksum (header_of (take HEADER_BYTES (data[i := b]))) \<noteq> mh_checksum (header_of (take HEADER_BYTES data))"
proof
  let ?f = "\<lambda>d :: u8 list. take 8 (drop 56 (take HEADER_BYTES d))"
  assume "mh_checksum (header_of (take HEADER_BYTES (data[i := b]))) = mh_checksum (header_of (take HEADER_BYTES data))"
  then have "(word_of_nat (le_nat (?f (data[i := b]))) :: u64) = word_of_nat (le_nat (?f data))"
    by (simp add: header_of_def field_def)
  then have "unat (word_of_nat (le_nat (?f (data[i := b]))) :: u64) = unat (word_of_nat (le_nat (?f data)) :: u64)"
    by (simp only:)
  moreover have len: "length (?f data) = 8" "length (?f (data[i := b])) = 8"
    using assms(1) by (simp_all add: HEADER_BYTES_def)
  then have "le_nat (?f data) < 2 ^ 64" "le_nat (?f (data[i := b])) < 2 ^ 64"
    using le_nat_less [of "?f data"] le_nat_less [of "?f (data[i := b])"] by simp_all
  ultimately have "le_nat (?f (data[i := b])) = le_nat (?f data)" by (simp only: unat_of_nat) simp
  then have "?f (data[i := b]) = ?f data" using le_nat_inj len by metis
  then have "?f (data[i := b]) ! (i - 56) = ?f data ! (i - 56)" by (simp only:)
  then show False using assms by (simp add: HEADER_BYTES_def)
qed

lemma checksum_outside:
  assumes "64 \<le> length data" "\<not> (56 \<le> i \<and> i < 64)"
  shows "mh_checksum (header_of (take HEADER_BYTES (data[i := b]))) = mh_checksum (header_of (take HEADER_BYTES data))"
proof -
  have "take 8 (drop 56 (take HEADER_BYTES (data[i := b]))) = take 8 (drop 56 (take HEADER_BYTES data))"
    using assms by (intro nth_equalityI) (auto simp: HEADER_BYTES_def nth_list_update)
  then show ?thesis by (simp add: header_of_def field_def)
qed

lemma read_header_eq: "64 \<le> length data \<Longrightarrow> read_header data = Inr (header_of (take HEADER_BYTES data))"
  by (simp add: read_header_def slice_def HEADER_BYTES_def)

text \<open>
  C13. Any change of a single byte of an image that the validator accepts, header and checksum
  field included, makes the validator reject it.
\<close>

theorem corrupt_byte_rejected:
  assumes "exec_validate_header data (word_of_nat (length data)) ty = Inr True" "length data < 2 ^ 64"
    and "i < length data" "b \<noteq> data ! i"
  shows "exec_validate_header (data[i := b]) (word_of_nat (length data)) ty = Inr False"
proof -
  let ?sz = "word_of_nat (length data) :: u64"
  let ?h = "\<lambda>d. header_of (take HEADER_BYTES d)"
  have sz: "unat ?sz = length data" using assms(2) by (simp add: unat_of_nat)
  obtain hdr where h: "read_header data = Inr hdr" "image_hash data ?sz = Inr (mh_checksum hdr)" "64 \<le> ?sz"
    using exec_validate_True [OF assms(1)] by blast
  have len: "64 \<le> length data" using h(3) sz by (simp add: word_le_nat_alt)
  have old: "fold fnv_step (hashed data) FNV_BASIS = mh_checksum (?h data)"
    using h(1,2) image_hash_eq [OF sz len] read_header_eq [OF len] by simp
  have new: "image_hash (data[i := b]) ?sz = Inr (fold fnv_step (hashed (data[i := b])) FNV_BASIS)"
    by (rule image_hash_eq) (use sz len in simp_all)
  have "fold fnv_step (hashed (data[i := b])) FNV_BASIS \<noteq> mh_checksum (?h (data[i := b]))"
  proof (cases "56 \<le> i \<and> i < 64")
    case True
    then show ?thesis
      using checksum_update [OF len assms(3,4)] old by (simp add: hashed_update [OF assms(3) len])
  next
    case False
    have "fold fnv_step ((hashed data)[i := b]) FNV_BASIS \<noteq> fold fnv_step (hashed data) FNV_BASIS"
      using assms(3,4) False by (intro fnv_fold_update) (simp_all add: length_hashed [OF len] hashed_nth)
    moreover have "hashed (data[i := b]) = (hashed data)[i := b]" using False by (subst hashed_update [OF assms(3) len]) auto
    ultimately show ?thesis using old checksum_outside [OF len False, of b] by simp
  qed
  moreover have "read_header (data[i := b]) = Inr (?h (data[i := b]))" using len by (intro read_header_eq) simp
  ultimately show ?thesis using new by (simp add: exec_validate_header_def)
qed

section \<open>Sections outside the image\<close>

text \<open>
  The bound on a section's place in the file is checked on a sum that wraps: a non-empty
  section whose offset is past the end of the image passes the check if the sum wraps below
  the size, and mapping it reads outside the image.
\<close>

theorem map_section_wrap:
  assumes "vm_ok (ld_vm s)" "low_free (ld_vm s) \<noteq> {}" "sect_bounds_ok sz sd"
    and "sd_filesz sd \<noteq> 0" "length data \<le> unat (sd_file_off sd)"
  shows "mira_map_section data sz sd s = Inl OutOfBounds"
proof -
  note parts = vm_ok_parts [OF assms(1)]
  obtain a where "a \<in> pmm_avail (vm_pmm (ld_vm s))" "a < 0x200000" using assms(2) by (auto simp: low_free_def)
  then obtain p pm where p: "pmm_alloc_page (vm_pmm (ld_vm s)) = Inr (p, pm)" "p \<in> pmm_avail (vm_pmm (ld_vm s))" "p < 0x200000"
    using pmm_alloc_low [OF parts(1)] by blast
  have p0: "p \<noteq> 0" using p(2) pmmi.avail_nonzero [OF parts(1)] by blast
  have al: "aligned p" using pmmi.avail_aligned [OF parts(1) p(2)] by (simp add: aligned_mod)
  have f0: "0 < sd_filesz sd" using assms(4) by (simp add: word_gt_0)
  have m0: "0 < sd_memsz sd" using f0 assms(3) by (auto simp: sect_bounds_ok_def)
  have "unat (if sd_filesz sd < 4096 then sd_filesz sd else 4096) > 0"
    using f0 by (auto simp: word_less_nat_alt)
  then have "slice data (sd_file_off sd) (unat (if sd_filesz sd < 4096 then sd_filesz sd else 4096)) = Inl OutOfBounds"
    using assms(5) by (simp add: slice_def)
  then have "load_page data sd fl 0 s = Inl OutOfBounds" for fl
    using p(1) p0 low_page_accessible [OF assms(1) al p(3)] f0 by (simp add: load_page_def Let_def)
  then show ?thesis using assms(3) m0 by (simp add: mira_map_section_def LOAD_FUEL_def)
qed

section \<open>ELF segments\<close>

text \<open>A segment as a section.\<close>

definition ph_sect :: "elf_program_header \<Rightarrow> mira_sect_desc" where
  "ph_sect ph = \<lparr>sd_type = 0, sd_flags = 0, sd_vaddr = ph_vaddr ph, sd_memsz = ph_memsz ph, sd_filesz = ph_filesz ph,
     sd_file_off = ph_offset ph\<rparr>"

text \<open>The free pages hold zeros.\<close>

definition free_zero :: "loader \<Rightarrow> bool" where
  "free_zero s \<longleftrightarrow> (\<forall>a. page_base a \<in> pmm_avail (vm_pmm (ld_vm s)) \<longrightarrow> ld_mem s a = 0)"

lemma free_zero_loads: "loads R n s s' \<Longrightarrow> free_zero s \<Longrightarrow> free_zero s'"
  unfolding loads_def free_zero_def by (metis Diff_iff subsetD)

lemma length_takeWhile_upt: "(\<And>k. k < n \<Longrightarrow> P k) \<Longrightarrow> length (takeWhile P [0..<n]) = n"
  by (subst takeWhile_eq_all_conv [THEN iffD2]) auto

lemma elf_copy_count_eq:
  assumes "ph_filesz ph \<le> ph_memsz ph" "j < ph_filesz ph" "unat j + 4096 < 2 ^ 64"
  shows "elf_copy_count ph j = unat (if ph_filesz ph - j < 4096 then ph_filesz ph - j else 4096)"
proof -
  let ?n = "if ph_filesz ph - j < 4096 then ph_filesz ph - j else 4096"
  have uj: "unat (j + 4096) = unat j + 4096" using assms(3) by (simp add: unat_word_ariths)
  have uf: "unat (ph_filesz ph - j) = unat (ph_filesz ph) - unat j" using assms(2) by (simp add: unat_sub)
  have "(if j + 4096 \<le> ph_filesz ph then 4096 else if ph_filesz ph > j then ph_filesz ph - j else 0) = ?n"
    using assms(2) uj uf by (auto simp: word_less_nat_alt word_le_nat_alt word_unat_eq_iff)
  moreover have "j + word_of_nat k < ph_memsz ph" if "k < unat ?n" for k
  proof -
    have k: "k < 4096" "k < unat (ph_filesz ph) - unat j"
      using that uf by (auto simp: word_less_nat_alt split: if_splits)
    then have "unat (word_of_nat k :: u64) = k" by (simp add: unat_of_nat)
    then have "unat (j + word_of_nat k) = unat j + k" using k assms(3) by (simp add: unat_word_ariths)
    then show ?thesis using k(2) assms(1) by (simp add: word_less_nat_alt word_le_nat_alt)
  qed
  ultimately show ?thesis by (simp add: elf_copy_count_def length_takeWhile_upt del: takeWhile_eq_all_conv)
qed

lemma clear_zero_page:
  assumes "free_zero s" "p \<in> pmm_avail (vm_pmm (ld_vm s))" "aligned p"
  shows "clear_page p (ld_mem s) = ld_mem s"
proof
  fix a
  show "clear_page p (ld_mem s) a = ld_mem s a"
  proof (cases "a - p < 4096")
    case True
    from page_offset(3) [OF assms(3) True] have "page_base a = p" by simp
    then show ?thesis using assms(1,2) by (simp add: clear_page_def free_zero_def)
  qed (simp add: clear_page_def)
qed

lemma elf_page_eq:
  assumes "vm_ok (ld_vm s)" "free_zero s" "low_free (ld_vm s) \<noteq> {}" "ph_filesz ph \<le> ph_memsz ph" "unat j + 4096 < 2 ^ 64"
  shows "elf_page data ph j s = load_page data (ph_sect ph) (PAGE_PRESENT OR PAGE_WRITE) j s"
proof -
  note parts = vm_ok_parts [OF assms(1)]
  obtain a where "a \<in> pmm_avail (vm_pmm (ld_vm s))" "a < 0x200000" using assms(3) by (auto simp: low_free_def)
  then obtain p pm where p: "pmm_alloc_page (vm_pmm (ld_vm s)) = Inr (p, pm)" "p \<in> pmm_avail (vm_pmm (ld_vm s))" "p < 0x200000"
    using pmm_alloc_low [OF parts(1)] by blast
  have p0: "p \<noteq> 0" using p(2) pmmi.avail_nonzero [OF parts(1)] by blast
  have al: "aligned p" using pmmi.avail_aligned [OF parts(1) p(2)] by (simp add: aligned_mod)
  have fl: "(PAGE_PRESENT OR PAGE_WRITE) OR PAGE_WRITE = PAGE_PRESENT OR PAGE_WRITE" by (simp add: or.assoc)
  have mem: "clear_page p (ld_mem s) = ld_mem s" "ld_mem (set_pmm pm s) = ld_mem s"
    using clear_zero_page [OF assms(2) p(2) al] by (simp_all add: set_pmm_def)
  show ?thesis
  proof (cases "j < ph_filesz ph")
    case True
    then show ?thesis
      using p(1) p0 low_page_accessible [OF assms(1) al p(3)]
      unfolding elf_page_def load_page_def fl
      by (simp add: mem elf_copy_count_eq [OF assms(4) True assms(5)] ph_sect_def Let_def)
  next
    case False
    then show ?thesis
      using p(1) p0 low_page_accessible [OF assms(1) al p(3)]
      unfolding elf_page_def load_page_def fl by (simp add: clear_zero_page [OF assms(2) p(2) al] ph_sect_def set_pmm_def Let_def)
  qed
qed

text \<open>
  With zeroed free pages the page loop of \<open>elf_load\<close> and that of the other loader are the same,
  so a segment is placed as a section is; \<open>elf_load\<close> itself does not zero the pages.
\<close>

lemma elf_pages_eq:
  assumes "vm_ok (ld_vm s)" "free_zero s" "sect_fits data (ph_sect ph)" "k \<le> sect_pages (ph_sect ph)"
    "4 * (sect_pages (ph_sect ph) - k) \<le> card (low_free (ld_vm s))"
  shows "elf_pages n data ph (word_of_nat (4096 * k)) s =
    load_pages n data (ph_sect ph) (PAGE_PRESENT OR PAGE_WRITE) (word_of_nat (4096 * k)) s"
  using assms(1,2,4,5)
proof (induction n arbitrary: k s)
  case 0
  then show ?case by (simp add: ph_sect_def)
next
  case (Suc n)
  let ?j = "word_of_nat (4096 * k) :: u64" and ?sd = "ph_sect ph" and ?fl = "PAGE_PRESENT OR PAGE_WRITE"
  have fits: "unat (sd_vaddr ?sd) + 4096 * sect_pages ?sd \<le> 2 ^ 48" "ph_filesz ph \<le> ph_memsz ph"
    using assms(3) by (auto simp: sect_fits_def ph_sect_def)
  have "4096 * k < 2 ^ 64" using fits(1) Suc.prems(3) by simp
  then have uj: "unat ?j = 4096 * k" by (simp only: unat_of_nat) simp
  show ?case
  proof (cases "?j < ph_memsz ph")
    case False
    then show ?thesis unfolding elf_pages.simps load_pages.simps by (simp add: ph_sect_def)
  next
    case True
    then have "4096 * k < unat (ph_memsz ph)" using uj by (simp add: word_less_nat_alt)
    then have k: "k < sect_pages ?sd" by (simp add: sect_pages_def ph_sect_def)
    then have c: "4 \<le> card (low_free (ld_vm s))" using Suc.prems(4) by simp
    then have ne: "low_free (ld_vm s) \<noteq> {}" by auto
    have w: "unat ?j + 4096 < 2 ^ 64" using uj k fits(1) by simp
    have fl: "page_base (?fl OR PAGE_WRITE) = 0" by (simp add: page_consts page_base_def)
    from load_page_spec [OF Suc.prems(1) c assms(3) k refl fl]
    obtain s1 where s1: "load_page data ?sd ?fl ?j s = Inr (True, s1)"
      "loads {w. same_page w (sd_vaddr ?sd + ?j)} 4 s s1" by blast
    have ok1: "vm_ok (ld_vm s1)" and c1: "card (low_free (ld_vm s)) \<le> card (low_free (ld_vm s1)) + 4"
      using s1(2) unfolding loads_def by blast+
    have "Suc k \<le> sect_pages ?sd" "4 * (sect_pages ?sd - Suc k) \<le> card (low_free (ld_vm s1))"
      using k c1 Suc.prems(4) by simp_all
    from Suc.IH [OF ok1 free_zero_loads [OF s1(2) Suc.prems(2)] this]
    have "elf_pages n data ph (?j + 4096) s1 = load_pages n data ?sd ?fl (?j + 4096) s1" by (simp add: add.commute)
    then show ?thesis
      unfolding elf_pages.simps load_pages.simps elf_page_eq [OF Suc.prems(1,2) ne fits(2) w] s1(1)
      by (simp add: ph_sect_def)
  qed
qed

section \<open>A concrete image\<close>

text \<open>One text section of four bytes, to be placed at 4 MiB in a page of eight bytes.\<close>

definition image_demo :: "u8 list" where
  "image_demo = [130, 85, 132, 149, 212, 4, 0, 0, 1, 0, 1, 0, 64, 0, 0, 0, 0, 0, 0, 0, 0, 0, 64, 0,
     0, 0, 0, 0, 0, 0, 64, 0, 0, 0, 0, 0, 1, 0, 0, 0, 64, 0, 0, 0, 0, 0, 0, 0,
     0, 0, 0, 0, 0, 0, 0, 0, 239, 75, 48, 185, 229, 38, 167, 195, 1, 0, 0, 0, 0, 0, 0, 0,
     0, 0, 64, 0, 0, 0, 0, 0, 8, 0, 0, 0, 0, 0, 0, 0, 4, 0, 0, 0, 0, 0, 0, 0,
     104, 0, 0, 0, 0, 0, 0, 0, 222, 173, 190, 239]"

definition sd_demo :: mira_sect_desc where
  "sd_demo = \<lparr>sd_type = 1, sd_flags = 0, sd_vaddr = 0x400000, sd_memsz = 8, sd_filesz = 4, sd_file_off = 104\<rparr>"

definition loader_demo :: loader where
  "loader_demo = \<lparr>ld_vm = paging_init (vm_demo 4 32 0x104000), ld_mem = (\<lambda>_. 0xCC)\<rparr>"

lemma image_demo_length: "length image_demo = 108"
  by (simp add: image_demo_def)

lemma image_demo_header:
  "read_header image_demo = Inr \<lparr>mh_magic = MIRA_BIN_MAGIC, mh_abi_version = 1, mh_type = 1, mh_header_size = 64,
     mh_image_flags = 0, mh_entry_point = 0x400000, mh_load_base = 0x400000, mh_sect_count = 1, mh_sect_table_off = 64,
     mh_name_table_off = 0, mh_checksum = 14098279926602943471\<rparr>"
  by (simp add: read_header_def slice_def HEADER_BYTES_def header_of_def field_def image_demo_def MIRA_BIN_MAGIC_def)

lemma image_demo_chunks: "hashed image_demo = [130, 85, 132, 149, 212, 4, 0, 0, 1] @
    [0, 1, 0, 64, 0, 0, 0, 0, 0] @
    [0, 0, 0, 0, 64, 0, 0, 0, 0] @
    [0, 0, 0, 64, 0, 0, 0, 0, 0] @
    [1, 0, 0, 0, 64, 0, 0, 0, 0] @
    [0, 0, 0, 0, 0, 0, 0, 0, 0] @
    [0, 0, 0, 0, 0, 0, 0, 0, 0] @
    [0, 1, 0, 0, 0, 0, 0, 0, 0] @
    [0, 0, 64, 0, 0, 0, 0, 0, 8] @
    [0, 0, 0, 0, 0, 0, 0, 4, 0] @
    [0, 0, 0, 0, 0, 0, 104, 0, 0] @
    [0, 0, 0, 0, 0, 222, 173, 190, 239]"
  by (simp add: hashed_def image_demo_def numeral_eq_Suc)

lemma image_demo_steps:
  "fold fnv_step [130, 85, 132, 149, 212, 4, 0, 0, 1] 1469598103934665603 = 118264718170326868"
  "fold fnv_step [0, 1, 0, 64, 0, 0, 0, 0, 0] 118264718170326868 = 4789808775272070941"
  "fold fnv_step [0, 0, 0, 0, 64, 0, 0, 0, 0] 4789808775272070941 = 1115855107400479847"
  "fold fnv_step [0, 0, 0, 64, 0, 0, 0, 0, 0] 1115855107400479847 = 636517977544347493"
  "fold fnv_step [1, 0, 0, 0, 64, 0, 0, 0, 0] 636517977544347493 = 3845698195551982892"
  "fold fnv_step [0, 0, 0, 0, 0, 0, 0, 0, 0] 3845698195551982892 = 16272151694220941892"
  "fold fnv_step [0, 0, 0, 0, 0, 0, 0, 0, 0] 16272151694220941892 = 4096352878112344844"
  "fold fnv_step [0, 1, 0, 0, 0, 0, 0, 0, 0] 4096352878112344844 = 2382596462609474565"
  "fold fnv_step [0, 0, 64, 0, 0, 0, 0, 0, 8] 2382596462609474565 = 3208026953840218423"
  "fold fnv_step [0, 0, 0, 0, 0, 0, 0, 4, 0] 3208026953840218423 = 4091890662164485233"
  "fold fnv_step [0, 0, 0, 0, 0, 0, 104, 0, 0] 4091890662164485233 = 2668601893078153835"
  "fold fnv_step [0, 0, 0, 0, 0, 222, 173, 190, 239] 2668601893078153835 = 14098279926602943471"
  by (simp_all add: fnv_step_def FNV_PRIME_def)

lemma image_demo_hash: "fold fnv_step (hashed image_demo) FNV_BASIS = 14098279926602943471"
  unfolding image_demo_chunks fold_append comp_def FNV_BASIS_def image_demo_steps ..

lemma image_demo_valid: "exec_validate_header image_demo 108 MIRA_BIN_TYPE_MEX = Inr True"
  unfolding exec_validate_header_def image_demo_header
  by (simp add: header_fields_ok_def MIRA_BIN_ABI_VERSION_def MIRA_BIN_TYPE_MEX_def image_hash_eq image_demo_length image_demo_hash)

lemma image_demo_sections: "mh_sect_count hdr = 1 \<Longrightarrow> mh_sect_table_off hdr = 64 \<Longrightarrow> sections image_demo hdr = [sd_demo]"
  by (simp add: sections_def image_demo_def sect_of_def field_def sd_demo_def SECT_BYTES_def)

lemma sd_demo_fits: "sect_fits image_demo sd_demo" "sect_pages sd_demo = 1"
  by (simp_all add: sect_fits_def sd_demo_def sect_pages_def image_demo_length aligned_def)

lemma loader_demo_ok: "vm_ok (ld_vm loader_demo)" "card (low_free (ld_vm loader_demo)) = 4"
proof -
  have "{q :: u64. 256 \<le> q \<and> q < 0x104000 div 4096 \<and> unat (q div 8) = 32 \<and> unat (q mod 8) < 4} = {0x100, 0x101, 0x102, 0x103}"
  proof -
    have "q \<in> {0x100, 0x101, 0x102, 0x103}" if q: "unat (q div 8) = 32" "unat (q mod 8) < 4" for q :: u64
    proof -
      obtain r where r: "r < 4" "q = word_of_nat (8 * 32 + r)" using few_pages [OF q] by blast
      then consider "r = 0" | "r = 1" | "r = 2" | "r = 3" by linarith
      then show ?thesis by cases (simp_all add: r(2))
    qed
    then show ?thesis by auto
  qed
  then have av: "pmm_avail (pmm_few 4 32 0x104000) = {0x100000, 0x101000, 0x102000, 0x103000}"
    by (subst pmm_few_avail(2)) (simp_all add: BITMAP_SIZE_def MAX_PHYS_PAGES_def)
  then have "vm_loaded (vm_demo 4 32 0x104000)"
    by (auto simp: vm_loaded_def vm_demo_def boot_tables_def aligned_def entry_def
        pmm_few_avail(1) BITMAP_SIZE_def MAX_PHYS_PAGES_def)
  then show "vm_ok (ld_vm loader_demo)" by (simp add: loader_demo_def paging_init_ok)
  have "low_free (ld_vm loader_demo) = {0x100000, 0x101000, 0x102000, 0x103000}"
    by (auto simp: low_free_def loader_demo_def paging_init_regs vm_demo_def av)
  then show "card (low_free (ld_vm loader_demo)) = 4" by simp
qed

theorem mira_load_places_witness:
  "\<exists>img s'. mira_load image_demo 108 MIRA_BIN_TYPE_MEX loader_demo = Inr (Some img, s') \<and> li_entry_point img = 0x400000 \<and>
    (\<forall>i < 4096. byte_placed image_demo sd_demo s' i)"
proof -
  obtain hdr where h: "read_header image_demo = Inr hdr" "mh_sect_count hdr = 1" "mh_sect_table_off hdr = 64" "mh_entry_point hdr = 0x400000"
    using image_demo_header by simp
  note s = image_demo_sections [OF h(2,3)]
  have l: "(word_of_nat (length image_demo) :: u64) = 108" by (simp add: image_demo_length)
  have "\<forall>sd \<in> set (sections image_demo hdr). sect_fits image_demo sd" "sorted_wrt sects_disjoint (sections image_demo hdr)"
    "4 * sum_list (map sect_pages (sections image_demo hdr)) \<le> card (low_free (ld_vm loader_demo))"
    "length image_demo < 2 ^ 63"
    by (simp_all add: s sd_demo_fits loader_demo_ok image_demo_length)
  from mira_load_places [OF loader_demo_ok(1) this(4) image_demo_valid [folded l] h(1) this(1-3)]
  show ?thesis unfolding l s h(4) by (auto simp: sd_demo_fits)
qed

theorem corrupt_byte_rejected_witness:
  "exec_validate_header (image_demo[106 := 0]) 108 MIRA_BIN_TYPE_MEX = Inr False"
proof -
  have l: "(word_of_nat (length image_demo) :: u64) = 108" by (simp add: image_demo_length)
  have "length image_demo < 2 ^ 64" "106 < length image_demo" by (simp_all add: image_demo_length)
  moreover have "0 \<noteq> image_demo ! 106" by (simp add: image_demo_def)
  ultimately show ?thesis using corrupt_byte_rejected [OF image_demo_valid [folded l]] unfolding l by blast
qed

definition sd_wrap :: mira_sect_desc where
  "sd_wrap = \<lparr>sd_type = 1, sd_flags = 0, sd_vaddr = 0x400000, sd_memsz = 8, sd_filesz = 8, sd_file_off = 0xFFFFFFFFFFFFFFFC\<rparr>"

theorem map_section_wrap_witness:
  "sect_bounds_ok 108 sd_wrap \<and> mira_map_section image_demo 108 sd_wrap loader_demo = Inl OutOfBounds"
proof -
  have b: "sect_bounds_ok 108 sd_wrap" by (simp add: sect_bounds_ok_def sd_wrap_def)
  moreover have "low_free (ld_vm loader_demo) \<noteq> {}" using loader_demo_ok(2) by auto
  moreover have "sd_filesz sd_wrap \<noteq> 0" "length image_demo \<le> unat (sd_file_off sd_wrap)"
    by (simp_all add: sd_wrap_def image_demo_length)
  ultimately show ?thesis using map_section_wrap [OF loader_demo_ok(1)] by blast
qed

end
