(* ===== verification/Mira_Heap.thy ===== *)
theory Mira_Heap
  imports Mira_Paging
begin

text \<open>
  The kernel heap, \<open>kernel/heap.c\<close>: five slab caches for objects of up to 512 bytes and a
  doubly linked list of blocks for everything larger, both carved out of pages mapped one
  after the other from \<open>HEAP_VIRT_BASE\<close>. Heap memory is a byte-addressed memory of its
  own, read and written through 64- and 32-bit accesses at the offsets of
  \<open>struct block_header\<close> (\<open>size\<close> at 0, \<open>free\<close> at 8, \<open>next\<close> at 16, \<open>prev\<close> at 24; 32 bytes).
\<close>

section \<open>State\<close>

definition MIN_BLOCK :: u64 where "MIN_BLOCK = 32"
definition HEADER_SIZE :: u64 where "HEADER_SIZE = 32"
definition SLAB_MAX_ORDER :: nat where "SLAB_MAX_ORDER = 5"
definition SLAB_MIN_SIZE :: u64 where "SLAB_MIN_SIZE = 32"
definition SLAB_MAX_SIZE :: u64 where "SLAB_MAX_SIZE = push_bit SLAB_MAX_ORDER SLAB_MIN_SIZE"

text \<open>A cache's \<open>next\<close> pointer is the index of the next cache in \<open>slab_caches\<close>.\<close>

record slab_cache =
  object_size :: u64
  slab_size :: u64
  sc_next :: "nat option"
  free_list :: addr
  objects_per_slab :: u32
  allocated :: u32

record heap =
  hvm :: vm
  hmem :: mem
  heap_head :: addr
  heap_mapped :: u64
  heap_virt_base :: u64
  slab_caches :: "slab_cache list"
  slab_list :: "nat option"

text \<open>Header fields of the block at an address.\<close>

definition blk_size :: "mem \<Rightarrow> addr \<Rightarrow> u64" where "blk_size m b = rd64 m b"
definition blk_free :: "mem \<Rightarrow> addr \<Rightarrow> u32" where "blk_free m b = rd32 m (b + 8)"
definition blk_next :: "mem \<Rightarrow> addr \<Rightarrow> addr" where "blk_next m b = rd64 m (b + 16)"
definition blk_prev :: "mem \<Rightarrow> addr \<Rightarrow> addr" where "blk_prev m b = rd64 m (b + 24)"

definition set_size :: "addr \<Rightarrow> u64 \<Rightarrow> mem \<Rightarrow> mem" where "set_size b v m = wr64 m b v"
definition set_free :: "addr \<Rightarrow> u32 \<Rightarrow> mem \<Rightarrow> mem" where "set_free b v m = wr32 m (b + 8) v"
definition set_next :: "addr \<Rightarrow> addr \<Rightarrow> mem \<Rightarrow> mem" where "set_next b v m = wr64 m (b + 16) v"
definition set_prev :: "addr \<Rightarrow> addr \<Rightarrow> mem \<Rightarrow> mem" where "set_prev b v m = wr64 m (b + 24) v"

section \<open>Slab caches\<close>

definition slab_cache_init :: "nat \<Rightarrow> slab_cache" where
  "slab_cache_init i =
     \<lparr>object_size = push_bit i SLAB_MIN_SIZE, slab_size = 4096,
      sc_next = (if i < SLAB_MAX_ORDER - 1 then Some (i + 1) else None), free_list = 0,
      objects_per_slab = ucast (4096 div push_bit i SLAB_MIN_SIZE), allocated = 0\<rparr>"

definition slab_init :: "heap \<Rightarrow> heap" where
  "slab_init s = s\<lparr>slab_caches := map slab_cache_init [0..<SLAB_MAX_ORDER], slab_list := Some 0\<rparr>"

text \<open>The link loop over a fresh slab: object \<open>i\<close> points to object \<open>i + 1\<close>.\<close>

definition slab_link :: "addr \<Rightarrow> slab_cache \<Rightarrow> u32 \<Rightarrow> mem \<Rightarrow> mem res" where
  "slab_link ptr c i m =
     Inr (wr64 m (ptr + ucast i * object_size c) (ptr + ucast (i + 1) * object_size c))"

definition slab_fill :: "addr \<Rightarrow> slab_cache \<Rightarrow> mem \<Rightarrow> mem res" where
  "slab_fill ptr c m =
     bindR (for_up 0 (objects_per_slab c - 1) (slab_link ptr c) m) (\<lambda>m'.
       Inr (wr64 m' (ptr + ucast (objects_per_slab c - 1) * object_size c) 0))"

definition set_cache :: "nat \<Rightarrow> slab_cache \<Rightarrow> heap \<Rightarrow> heap" where
  "set_cache i c s = s\<lparr>slab_caches := (slab_caches s)[i := c]\<rparr>"

text \<open>The refill part: map one page and thread the free list through it; 0 when out of pages.\<close>

definition slab_refill :: "nat \<Rightarrow> heap \<Rightarrow> (bool \<times> heap) res" where
  "slab_refill i s =
     bindR (pmm_alloc_page (vm_pmm (hvm s))) (\<lambda>(slab, p).
       if slab = 0 then Inr (False, s)
       else bindR (paging_map_page (heap_virt_base s + heap_mapped s) slab 0 ((hvm s)\<lparr>vm_pmm := p\<rparr>)) (\<lambda>(_, v).
         let c = slab_caches s ! i;
             s1 = s\<lparr>hvm := v, heap_mapped := heap_mapped s + 4096\<rparr>;
             ptr = heap_virt_base s1 + heap_mapped s1 - 4096
         in bindR (slab_fill ptr c (hmem s1)) (\<lambda>m.
              Inr (True, set_cache i (c\<lparr>free_list := ptr\<rparr>) (s1\<lparr>hmem := m\<rparr>)))))"

definition slab_take :: "nat \<Rightarrow> heap \<Rightarrow> addr \<times> heap" where
  "slab_take i s =
     (let c = slab_caches s ! i; obj = free_list c
      in (obj, set_cache i (c\<lparr>free_list := rd64 (hmem s) obj, allocated := allocated c + 1\<rparr>) s))"

definition slab_alloc :: "nat \<Rightarrow> heap \<Rightarrow> (addr \<times> heap) res" where
  "slab_alloc i s =
     (if free_list (slab_caches s ! i) = 0
      then bindR (slab_refill i s) (\<lambda>(ok, s1). Inr (if ok then slab_take i s1 else (0, s1)))
      else Inr (slab_take i s))"

text \<open>The walk over the caches; its fuel is their number, and a cyclic chain would not end.\<close>

fun slab_walk :: "nat \<Rightarrow> nat option \<Rightarrow> u64 \<Rightarrow> heap \<Rightarrow> nat option res" where
  "slab_walk _ None sz s = Inr None"
| "slab_walk 0 (Some i) sz s = Inl Diverges"
| "slab_walk (Suc n) (Some i) sz s =
     (if object_size (slab_caches s ! i) \<ge> sz then Inr (Some i)
      else slab_walk n (sc_next (slab_caches s ! i)) sz s)"

definition slab_find_cache :: "u64 \<Rightarrow> heap \<Rightarrow> nat option res" where
  "slab_find_cache sz s = slab_walk (length (slab_caches s)) (slab_list s) sz s"

section \<open>Growing the heap\<close>

text \<open>
  Every turn of \<open>heap_map_more\<close> takes a physical page, so one more turn than there are
  pages is never needed; the same bounds the recursion of \<open>kmalloc\<close> below.
\<close>

definition MAP_FUEL :: nat where "MAP_FUEL = MAX_PHYS_PAGES + 2"

fun heap_map_loop :: "nat \<Rightarrow> u64 \<Rightarrow> heap \<Rightarrow> heap res" where
  "heap_map_loop 0 needed s = Inl Diverges"
| "heap_map_loop (Suc n) needed s =
     (if heap_mapped s < needed
      then bindR (pmm_alloc_page (vm_pmm (hvm s))) (\<lambda>(phys, p).
             if phys = 0 then Inl (Panic ''heap oom'')
             else bindR (paging_map_page (heap_virt_base s + heap_mapped s) phys 0 ((hvm s)\<lparr>vm_pmm := p\<rparr>)) (\<lambda>(_, v).
                    heap_map_loop n needed (s\<lparr>hvm := v, heap_mapped := heap_mapped s + 4096\<rparr>)))
      else Inr s)"

definition heap_map_more :: "u64 \<Rightarrow> heap \<Rightarrow> heap res" where
  "heap_map_more = heap_map_loop MAP_FUEL"

definition heap_init :: "heap \<Rightarrow> heap res" where
  "heap_init s =
     bindR (heap_map_more 4096 (s\<lparr>heap_virt_base := paging_heap_base, heap_mapped := 0\<rparr>)) (\<lambda>s1.
       let b = heap_virt_base s1
       in Inr (slab_init (s1\<lparr>heap_head := b,
            hmem := set_prev b 0 (set_next b 0 (set_free b 1 (set_size b (4096 - HEADER_SIZE) (hmem s1))))\<rparr>)))"

section \<open>Blocks\<close>

definition split_block :: "addr \<Rightarrow> u64 \<Rightarrow> mem \<Rightarrow> mem" where
  "split_block b sz m =
     (if blk_size m b < sz + HEADER_SIZE + MIN_BLOCK then m
      else let nb = b + HEADER_SIZE + sz;
               m1 = set_size nb (blk_size m b - sz - HEADER_SIZE) m;
               m2 = set_free nb 1 m1;
               m3 = set_next nb (blk_next m2 b) m2;
               m4 = set_prev nb b m3;
               m5 = (if blk_next m4 b \<noteq> 0 then set_prev (blk_next m4 b) nb m4 else m4);
               m6 = set_next b nb m5
           in set_size b sz m6)"

definition merge_next :: "addr \<Rightarrow> mem \<Rightarrow> mem" where
  "merge_next b m =
     (if blk_next m b \<noteq> 0 \<and> blk_free m (blk_next m b) \<noteq> 0
      then let m1 = set_size b (blk_size m b + (HEADER_SIZE + blk_size m (blk_next m b))) m;
               m2 = set_next b (blk_next m1 (blk_next m1 b)) m1
           in if blk_next m2 b \<noteq> 0 then set_prev (blk_next m2 b) b m2 else m2
      else m)"

definition merge_prev :: "addr \<Rightarrow> mem \<Rightarrow> mem" where
  "merge_prev b m =
     (if blk_prev m b \<noteq> 0 \<and> blk_free m (blk_prev m b) \<noteq> 0
      then let p = blk_prev m b;
               m1 = set_size p (blk_size m p + (HEADER_SIZE + blk_size m b)) m;
               m2 = set_next (blk_prev m1 b) (blk_next m1 b) m1
           in if blk_next m2 b \<noteq> 0 then set_prev (blk_next m2 b) (blk_prev m2 b) m2 else m2
      else m)"

definition merge_adjacent :: "addr \<Rightarrow> mem \<Rightarrow> mem" where
  "merge_adjacent b m = merge_prev b (merge_next b m)"

text \<open>
  A list of blocks in at most 512 MiB of heap has at most \<open>2 ^ 24\<close> elements, which bounds
  the walks; a cyclic list would not end.
\<close>

definition BLOCK_FUEL :: nat where "BLOCK_FUEL = 2 ^ 24 + 1"

fun find_block :: "nat \<Rightarrow> mem \<Rightarrow> u64 \<Rightarrow> addr \<Rightarrow> addr res" where
  "find_block 0 m sz cur = Inl Diverges"
| "find_block (Suc n) m sz cur =
     (if cur = 0 then Inr 0
      else if blk_free m cur \<noteq> 0 \<and> blk_size m cur \<ge> sz then Inr cur
      else find_block n m sz (blk_next m cur))"

fun find_tail :: "nat \<Rightarrow> mem \<Rightarrow> addr \<Rightarrow> addr res" where
  "find_tail 0 m t = Inl Diverges"
| "find_tail (Suc n) m t = (if blk_next m t = 0 then Inr t else find_tail n m (blk_next m t))"

text \<open>Appending the page mapped last as a free block at the end of the list.\<close>

definition add_area :: "heap \<Rightarrow> heap res" where
  "add_area s =
     (let a = heap_virt_base s + heap_mapped s - 4096
      in bindR (if heap_head s \<noteq> 0
                then bindR (find_tail BLOCK_FUEL (hmem s) (heap_head s)) (\<lambda>t.
                       Inr (s\<lparr>hmem := set_prev a t (set_next t a (hmem s))\<rparr>))
                else Inr (s\<lparr>heap_head := a\<rparr>)) (\<lambda>s1.
           Inr (s1\<lparr>hmem := set_next a 0 (set_free a 1 (set_size a (4096 - HEADER_SIZE) (hmem s1)))\<rparr>)))"

definition kmalloc_small :: "u64 \<Rightarrow> heap \<Rightarrow> (addr \<times> heap) option res" where
  "kmalloc_small sz s =
     (if sz \<le> SLAB_MAX_SIZE
      then bindR (slab_find_cache sz s) (\<lambda>c.
             case c of None \<Rightarrow> Inr None | Some i \<Rightarrow> bindR (slab_alloc i s) (\<lambda>r. Inr (Some r)))
      else Inr None)"

definition round16 :: "u64 \<Rightarrow> u64" where "round16 sz = (sz + 15) AND NOT 15"

fun kmalloc_rec :: "nat \<Rightarrow> u64 \<Rightarrow> heap \<Rightarrow> (addr \<times> heap) res" where
  "kmalloc_rec 0 sz s = Inl Diverges"
| "kmalloc_rec (Suc n) sz s =
     (if sz = 0 then Inr (0, s)
      else bindR (kmalloc_small sz s) (\<lambda>r. case r of
             Some x \<Rightarrow> Inr x
           | None \<Rightarrow>
               let rsz = round16 sz
               in bindR (find_block BLOCK_FUEL (hmem s) rsz (heap_head s)) (\<lambda>cur.
                    if cur \<noteq> 0
                    then Inr (cur + HEADER_SIZE, s\<lparr>hmem := set_free cur 0 (split_block cur rsz (hmem s))\<rparr>)
                    else bindR (heap_map_more (heap_mapped s + 4096) s) (\<lambda>s1.
                           bindR (add_area s1) (kmalloc_rec n rsz)))))"

definition kmalloc :: "u64 \<Rightarrow> heap \<Rightarrow> (addr \<times> heap) res" where
  "kmalloc = kmalloc_rec MAP_FUEL"

definition kfree :: "addr \<Rightarrow> heap \<Rightarrow> heap" where
  "kfree ptr s =
     (if ptr = 0 then s
      else let b = ptr - HEADER_SIZE
           in s\<lparr>hmem := merge_adjacent b (set_free b 1 (hmem s))\<rparr>)"

text \<open>The copy loop of \<open>krealloc\<close> re-reads \<open>block->size\<close> on every turn.\<close>

function krealloc_copy :: "addr \<Rightarrow> addr \<Rightarrow> u64 \<Rightarrow> mem \<Rightarrow> mem" where
  "krealloc_copy dst ptr i m =
     (if i < blk_size m (ptr - HEADER_SIZE)
      then krealloc_copy dst ptr (i + 1) (m(dst + i := m (ptr + i)))
      else m)"
  by pat_completeness auto
termination
proof (relation "measure (\<lambda>(dst, ptr, i, m). 2 ^ 64 - unat i)")
  fix dst ptr i m
  assume "i < blk_size m (ptr - HEADER_SIZE)"
  then have "unat (i + 1) = Suc (unat i)" by (rule unat_plus_one)
  then show "((dst, ptr, i + 1, m(dst + i := m (ptr + i))), dst, ptr, i, m) \<in> measure (\<lambda>(dst, ptr, i, m). 2 ^ 64 - unat i)"
    using unat_u64_less [of "i + 1"] by simp
qed simp

declare krealloc_copy.simps [simp del]

definition krealloc :: "addr \<Rightarrow> u64 \<Rightarrow> heap \<Rightarrow> (addr \<times> heap) res" where
  "krealloc ptr sz s =
     (if ptr = 0 then kmalloc sz s
      else if sz = 0 then Inr (0, kfree ptr s)
      else if blk_size (hmem s) (ptr - HEADER_SIZE) \<ge> sz then Inr (ptr, s)
      else bindR (kmalloc sz s) (\<lambda>(p, s1).
             if p = 0 then Inr (0, s1)
             else Inr (p, kfree ptr (s1\<lparr>hmem := krealloc_copy p ptr 0 (hmem s1)\<rparr>))))"

definition kcalloc :: "u64 \<Rightarrow> u64 \<Rightarrow> heap \<Rightarrow> (addr \<times> heap) res" where
  "kcalloc nmemb sz s =
     bindR (kmalloc (nmemb * sz) s) (\<lambda>(p, s1).
       if p = 0 then Inr (0, s1)
       else bindR (for_up 0 (nmemb * sz) (\<lambda>i m. Inr (m(p + i := 0))) (hmem s1)) (\<lambda>m.
              Inr (p, s1\<lparr>hmem := m\<rparr>)))"

fun used_from :: "nat \<Rightarrow> mem \<Rightarrow> addr \<Rightarrow> u64 \<Rightarrow> u64 res" where
  "used_from 0 m cur used = Inl Diverges"
| "used_from (Suc n) m cur used =
     (if cur = 0 then Inr used
      else used_from n m (blk_next m cur) (if blk_free m cur = 0 then used + blk_size m cur else used))"

definition heap_used :: "heap \<Rightarrow> u64 res" where
  "heap_used s = used_from BLOCK_FUEL (hmem s) (heap_head s) 0"

definition heap_total :: "heap \<Rightarrow> u64" where "heap_total s = heap_mapped s"

section \<open>Header fields\<close>

definition hdr :: "addr \<Rightarrow> span" where "hdr b = (unat b, 32)"

definition hdr_ok :: "addr \<Rightarrow> bool" where "hdr_ok b \<longleftrightarrow> unat b + 32 < 2 ^ 64"

text \<open>Two headers are the same or do not overlap.\<close>

definition hdr_rel :: "addr \<Rightarrow> addr \<Rightarrow> bool" where
  "hdr_rel b c \<longleftrightarrow> hdr_ok b \<and> hdr_ok c \<and> (b = c \<or> apart (hdr b) (hdr c))"

lemma hdr_rel_refl [simp]: "hdr_rel b b = hdr_ok b"
  by (simp add: hdr_rel_def)

lemma hdr_rel_sym: "hdr_rel b c \<Longrightarrow> hdr_rel c b"
  by (auto simp: hdr_rel_def apart_sym)

lemma hdr_offsets:
  assumes "hdr_ok b"
  shows "unat (b + 8) = unat b + 8" "unat (b + 16) = unat b + 16" "unat (b + 24) = unat b + 24"
    "unat (b + 32) = unat b + 32"
  using assms unat_plus [of b 8] unat_plus [of b 16] unat_plus [of b 24] unat_plus [of b 32]
  by (simp_all add: hdr_ok_def)

lemmas hdr_defs = blk_size_def blk_free_def blk_next_def blk_prev_def
  set_size_def set_free_def set_next_def set_prev_def

lemma hdr_get_set:
  assumes "hdr_rel b c"
  shows "blk_size (set_size b v m) c = (if b = c then v else blk_size m c)"
    "blk_next (set_next b v m) c = (if b = c then v else blk_next m c)"
    "blk_prev (set_prev b v m) c = (if b = c then v else blk_prev m c)"
    "blk_free (set_free b w m) c = (if b = c then w else blk_free m c)"
  using assms by (auto simp: hdr_rel_def hdr_defs hdr_def apart_def hdr_offsets hdr_ok_def
      intro!: rd64_wr64_apart rd32_wr32_apart)

lemma hdr_get_set_other:
  assumes "hdr_rel b c"
  shows "blk_size (set_free b w m) c = blk_size m c" "blk_size (set_next b v m) c = blk_size m c"
    "blk_size (set_prev b v m) c = blk_size m c"
    "blk_next (set_free b w m) c = blk_next m c" "blk_next (set_size b v m) c = blk_next m c"
    "blk_next (set_prev b v m) c = blk_next m c"
    "blk_prev (set_free b w m) c = blk_prev m c" "blk_prev (set_size b v m) c = blk_prev m c"
    "blk_prev (set_next b v m) c = blk_prev m c"
    "blk_free (set_size b v m) c = blk_free m c" "blk_free (set_next b v m) c = blk_free m c"
    "blk_free (set_prev b v m) c = blk_free m c"
  using assms by (auto simp: hdr_rel_def hdr_defs hdr_def apart_def hdr_offsets hdr_ok_def
      intro!: rd64_wr64_apart rd64_wr32_apart rd32_wr64_apart)

lemmas hdr_simps = hdr_get_set hdr_get_set_other

text \<open>A header store changes bytes of that header only.\<close>

lemma hdr_outside:
  assumes "hdr_ok b" "unat x \<notin> span_set (hdr b)"
  shows "set_size b v m x = m x" "set_next b v m x = m x" "set_prev b v m x = m x" "set_free b w m x = m x"
  using assms by (auto simp: hdr_defs hdr_def hdr_offsets hdr_ok_def span_set_def intro!: wr64_outside wr32_outside)

lemma hdr_cong:
  assumes "hdr_ok b" "\<And>x. unat x \<in> span_set (hdr b) \<Longrightarrow> m x = m' x"
  shows "blk_size m b = blk_size m' b" "blk_next m b = blk_next m' b"
    "blk_prev m b = blk_prev m' b" "blk_free m b = blk_free m' b"
  using assms by (auto simp: hdr_defs hdr_def hdr_offsets hdr_ok_def span_set_def intro!: rd64_cong rd32_cong)

section \<open>The block list\<close>

text \<open>A block as (address, size, free); its span covers header and body.\<close>

type_synonym blk = "addr \<times> u64 \<times> bool"

fun blk_span :: "blk \<Rightarrow> span" where "blk_span (b, n, f) = (unat b, 32 + unat n)"

fun chain :: "mem \<Rightarrow> addr \<Rightarrow> blk list \<Rightarrow> bool" where
  "chain m a [] \<longleftrightarrow> a = 0"
| "chain m a ((b, n, f) # bs) \<longleftrightarrow>
     a = b \<and> b \<noteq> 0 \<and> blk_size m b = n \<and> (blk_free m b \<noteq> 0) = f \<and> chain m (blk_next m b) bs"

text \<open>Two memories agree on the header fields the list walks read.\<close>

definition same_hdr :: "mem \<Rightarrow> mem \<Rightarrow> addr \<Rightarrow> bool" where
  "same_hdr m m' b \<longleftrightarrow> blk_size m b = blk_size m' b \<and> blk_free m b = blk_free m' b \<and> blk_next m b = blk_next m' b"

lemma chain_cong:
  assumes "\<And>x. x \<in> set bs \<Longrightarrow> same_hdr m m' (fst x)"
  shows "chain m a bs = chain m' a bs"
  using assms
proof (induction bs arbitrary: a)
  case Nil
  show ?case by simp
next
  case (Cons x bs)
  obtain b n f where x: "x = (b, n, f)" by (cases x)
  have eq: "blk_size m b = blk_size m' b" "blk_free m b = blk_free m' b" "blk_next m b = blk_next m' b"
    using Cons.prems [of x] x by (simp_all add: same_hdr_def)
  have "chain m (blk_next m' b) bs = chain m' (blk_next m' b) bs"
    by (rule Cons.IH, rule Cons.prems) simp
  with eq show ?case unfolding x by simp
qed

lemma find_block_chain:
  assumes "chain m a bs" "length bs < fuel"
  shows "find_block fuel m sz a =
    Inr (case find (\<lambda>(b, n, f). f \<and> sz \<le> n) bs of None \<Rightarrow> 0 | Some (b, _) \<Rightarrow> b)"
  using assms
proof (induction bs arbitrary: a fuel)
  case Nil
  then show ?case by (cases fuel) auto
next
  case (Cons x bs)
  obtain b n f where "x = (b, n, f)" by (cases x)
  with Cons show ?case by (cases fuel) auto
qed

lemma find_tail_chain:
  assumes "chain m a bs" "bs \<noteq> []" "length bs < fuel"
  shows "find_tail fuel m a = Inr (fst (last bs))"
  using assms
proof (induction bs arbitrary: a fuel)
  case Nil
  then show ?case by simp
next
  case (Cons x bs)
  obtain b n f where x: "x = (b, n, f)" by (cases x)
  obtain k where k: "fuel = Suc k" using Cons.prems by (cases fuel) auto
  show ?case
  proof (cases bs)
    case Nil
    with Cons.prems x k show ?thesis by simp
  next
    case (Cons y ys)
    obtain b' n' f' where "y = (b', n', f')" by (cases y)
    with Cons.prems x k Cons.IH [of "blk_next m b" k] Cons show ?thesis by auto
  qed
qed

lemma chain_suffix: "chain m a (xs @ (b, n, f) # ys) \<Longrightarrow> chain m b ((b, n, f) # ys)"
proof (induction xs arbitrary: a)
  case (Cons x xs)
  then show ?case by (cases x) auto
qed simp

lemma chain_splice:
  assumes "chain m a (xs @ (b, n, f) # ys)" "chain m' b zs" and "\<And>x. x \<in> set xs \<Longrightarrow> same_hdr m' m (fst x)"
  shows "chain m' a (xs @ zs)"
  using assms
proof (induction xs arbitrary: a)
  case Nil
  then show ?case by simp
next
  case (Cons x xs)
  obtain c k g where x: "x = (c, k, g)" by (cases x)
  have eq: "blk_size m' c = blk_size m c" "blk_free m' c = blk_free m c" "blk_next m' c = blk_next m c"
    using Cons.prems(3) [of x] x by (simp_all add: same_hdr_def)
  have "chain m' (blk_next m c) (xs @ zs)"
    by (rule Cons.IH [OF _ Cons.prems(2) Cons.prems(3)]) (use Cons.prems(1) x in simp_all)
  with Cons.prems(1) eq show ?case by (simp add: x)
qed

definition blocks_ok :: "nat \<Rightarrow> nat \<Rightarrow> blk list \<Rightarrow> bool" where
  "blocks_ok lo hi bs \<longleftrightarrow> spans_ok lo hi (map blk_span bs) \<and> hi < 2 ^ 63"

lemma hdr_span: "span_set (hdr (fst z)) \<subseteq> span_set (blk_span z)"
  by (cases z) (auto simp: span_set_def hdr_def)

lemma spans_ok_pair:
  assumes "spans_ok lo hi (map blk_span bs)" "x \<in> set bs" "y \<in> set bs"
  shows "x = y \<or> apart (blk_span x) (blk_span y)"
proof -
  obtain i j where i: "i < length bs" "bs ! i = x" and j: "j < length bs" "bs ! j = y"
    using assms(2,3) by (meson in_set_conv_nth)
  show ?thesis
  proof (cases i j rule: linorder_cases)
    case less
    then show ?thesis using assms(1) i j sorted_wrt_nth_less [of apart "map blk_span bs" i j]
      by (simp add: spans_ok_def)
  next
    case equal
    then show ?thesis using i j by simp
  next
    case greater
    then show ?thesis using assms(1) i j apart_sym sorted_wrt_nth_less [of apart "map blk_span bs" j i]
      by (simp add: spans_ok_def)
  qed
qed

lemma blocks_hdr_rel:
  assumes "blocks_ok lo hi bs" "(b, n, f) \<in> set bs" "(c, k, g) \<in> set bs"
  shows "hdr_rel b c"
proof -
  have "b = c \<or> apart (blk_span (b, n, f)) (blk_span (c, k, g))"
    using spans_ok_pair [OF _ assms(2,3), of lo hi] assms(1) by (auto simp: blocks_ok_def)
  moreover have "unat b + 32 \<le> hi" "unat c + 32 \<le> hi" "hi < 2 ^ 63"
    using assms by (force simp: blocks_ok_def spans_ok_def)+
  ultimately show ?thesis by (auto simp: hdr_rel_def hdr_ok_def hdr_def apart_def)
qed

lemma blocks_ok_member: "blocks_ok lo hi bs \<Longrightarrow> (b, n, f) \<in> set bs \<Longrightarrow> unat b + 32 + unat n \<le> hi \<and> hi < 2 ^ 63 \<and> lo \<le> unat b"
  by (force simp: blocks_ok_def spans_ok_def)

lemma hdr_rel_inside:
  assumes "blocks_ok lo hi (xs @ (b, n, f) # ys)" "(c, k, g) \<in> set xs \<union> set ys"
    and "unat b \<le> unat d" "unat d + 32 \<le> unat b + 32 + unat n"
  shows "hdr_rel c d" "c \<noteq> d"
proof -
  have "apart (blk_span (c, k, g)) (blk_span (b, n, f))"
    using assms(1,2) apart_sym [of "blk_span (b, n, f)" "blk_span (c, k, g)"] unfolding blocks_ok_def
    by (auto simp: spans_ok_append spans_ok_Cons simp del: blk_span.simps)
  moreover have "unat c + 32 \<le> hi" "unat b + 32 + unat n \<le> hi" "hi < 2 ^ 63"
    using blocks_ok_member [OF assms(1), of b n f] blocks_ok_member [OF assms(1), of c k g] assms(2) by auto
  ultimately show "hdr_rel c d" "c \<noteq> d"
    using assms(3,4) by (auto simp: hdr_rel_def hdr_ok_def hdr_def apart_def)
qed

text \<open>The store that marks a found block as used, after splitting it.\<close>

lemma split_fields:
  assumes ok: "blocks_ok lo hi (xs @ (b, n, f) # ys)" and ch: "chain m a (xs @ (b, n, f) # ys)"
    and big: "unat sz + 64 \<le> unat n"
  defines "nb \<equiv> b + HEADER_SIZE + sz" and "m' \<equiv> set_free b 0 (split_block b sz m)"
  shows "unat nb = unat b + 32 + unat sz"
    and "blk_size m' b = sz" "blk_free m' b = 0" "blk_next m' b = nb"
    and "blk_size m' nb = n - sz - 32" "blk_free m' nb = 1" "blk_next m' nb = blk_next m b"
    and "\<And>x. x \<in> set xs \<union> set ys \<Longrightarrow> same_hdr m' m (fst x)"
    and "\<And>x. unat x \<notin> span_set (unat b, 32 + unat n) \<Longrightarrow> (\<And>y. y \<in> set ys \<Longrightarrow> unat x \<notin> span_set (hdr (fst y))) \<Longrightarrow> m' x = m x"
proof -
  have bnd: "unat b + 32 + unat n \<le> hi" "hi < 2 ^ 63"
    using blocks_ok_member [OF ok, of b n f] by auto
  have "nb = b + word_of_nat (32 + unat sz)" by (simp add: nb_def HEADER_SIZE_def)
  moreover have "unat (b + word_of_nat (32 + unat sz)) = unat b + (32 + unat sz)"
    by (rule unat_plus) (use bnd big in simp)
  ultimately show u: "unat nb = unat b + 32 + unat sz" by simp
  have size: "blk_size m b = n" using chain_suffix [OF ch] by simp
  have "unat (sz + HEADER_SIZE + MIN_BLOCK) = unat sz + 64"
    using unat_plus [of sz 64] big bnd by (simp add: HEADER_SIZE_def MIN_BLOCK_def add.assoc)
  then have split: "\<not> blk_size m b < sz + HEADER_SIZE + MIN_BLOCK"
    using big by (simp add: size word_less_nat_alt)
  have rel: "hdr_rel b b" "hdr_rel nb nb" "hdr_rel b nb" "hdr_rel nb b" "b \<noteq> nb"
    using u bnd big by (auto simp: hdr_rel_def hdr_ok_def hdr_def apart_def)
  let ?nx = "blk_next m b"
  have nx: "?nx = 0 \<or> (\<exists>y \<in> set ys. fst y = ?nx)"
    using chain_suffix [OF ch] by (cases ys) auto
  have oth: "hdr_rel (fst x) b" "hdr_rel (fst x) nb" "fst x \<noteq> b" "fst x \<noteq> nb" if "x \<in> set xs \<union> set ys" for x
  proof -
    obtain c k g where x: "x = (c, k, g)" by (cases x)
    show "hdr_rel (fst x) b" "hdr_rel (fst x) nb" "fst x \<noteq> b" "fst x \<noteq> nb"
      using that u big hdr_rel_inside [OF ok, of c k g b] hdr_rel_inside [OF ok, of c k g nb] by (simp_all add: x)
  qed
  have oo: "hdr_rel (fst x) (fst y)" if "x \<in> set xs \<union> set ys" "y \<in> set xs \<union> set ys" for x y
    using that blocks_hdr_rel [OF ok, of "fst x" "fst (snd x)" "snd (snd x)" "fst y" "fst (snd y)" "snd (snd y)"] by auto
  have m': "m' = set_free b 0 (set_size b sz (set_next b nb
      ((if ?nx \<noteq> 0 then set_prev ?nx nb else id) (set_prev nb b (set_next nb ?nx (set_free nb 1 (set_size nb (n - sz - 32) m)))))))"
    using split rel by (simp add: m'_def split_block_def Let_def nb_def [unfolded HEADER_SIZE_def, symmetric]
        hdr_simps size HEADER_SIZE_def)
  have nxr: "?nx \<noteq> 0 \<Longrightarrow> hdr_rel ?nx b \<and> hdr_rel ?nx nb \<and> ?nx \<noteq> b \<and> ?nx \<noteq> nb"
    using nx oth by fastforce
  show "blk_size m' b = sz" "blk_free m' b = 0" "blk_next m' b = nb"
    "blk_size m' nb = n - sz - 32" "blk_free m' nb = 1" "blk_next m' nb = ?nx"
    using rel nxr by (auto simp: m' hdr_simps)
  show "same_hdr m' m (fst x)" if "x \<in> set xs \<union> set ys" for x
  proof -
    have "?nx \<noteq> 0 \<Longrightarrow> hdr_rel ?nx (fst x)" using nx oo that by fastforce
    with oth [OF that] show ?thesis by (auto simp: m' same_hdr_def hdr_simps hdr_rel_sym)
  qed
  show "m' x = m x" if x: "unat x \<notin> span_set (unat b, 32 + unat n)" "\<And>y. y \<in> set ys \<Longrightarrow> unat x \<notin> span_set (hdr (fst y))" for x
  proof -
    have "unat x \<notin> span_set (hdr b)" "unat x \<notin> span_set (hdr nb)"
      using x(1) u big by (auto simp: span_set_def hdr_def)
    moreover have "unat x \<notin> span_set (hdr ?nx)" if "?nx \<noteq> 0" using nx x(2) that by fastforce
    ultimately show ?thesis using rel nxr by (auto simp: m' hdr_outside hdr_rel_def)
  qed
qed

definition split_result :: "addr \<Rightarrow> u64 \<Rightarrow> u64 \<Rightarrow> u64 \<times> blk list" where
  "split_result b n sz = (if unat n < unat sz + 64 then (n, []) else (sz, [(b + HEADER_SIZE + sz, n - sz - 32, True)]))"

lemma split_alloc:
  assumes ok: "blocks_ok lo hi (xs @ (b, n, True) # ys)" and ch: "chain m a (xs @ (b, n, True) # ys)"
    and le: "sz \<le> n" and res: "split_result b n sz = (n', rest)"
  defines "m' \<equiv> set_free b 0 (split_block b sz m)"
  shows "chain m' a (xs @ (b, n', False) # rest @ ys)"
    and "sz \<le> n'" and "\<forall>z \<in> set rest. snd (snd z)"
    and "\<forall>z \<in> set ((b, n', False) # rest). within (blk_span z) (blk_span (b, n, True))"
    and "sorted_wrt apart (map blk_span ((b, n', False) # rest))"
    and "\<And>x. unat x \<notin> span_set (unat b, 32 + unat n) \<Longrightarrow> (\<And>y. y \<in> set ys \<Longrightarrow> unat x \<notin> span_set (hdr (fst y))) \<Longrightarrow> m' x = m x"
proof -
  have bnd: "unat b + 32 + unat n \<le> hi" "hi < 2 ^ 63"
    using blocks_ok_member [OF ok, of b n True] by auto
  have sfx: "chain m b ((b, n, True) # ys)" by (rule chain_suffix [OF ch])
  have b0: "b \<noteq> 0" and n: "blk_size m b = n" and nx: "chain m (blk_next m b) ys" using sfx by simp_all
  have "chain m' a (xs @ (b, n', False) # rest @ ys) \<and> sz \<le> n' \<and> (\<forall>z \<in> set rest. snd (snd z)) \<and>
    (\<forall>z \<in> set ((b, n', False) # rest). within (blk_span z) (blk_span (b, n, True))) \<and>
    sorted_wrt apart (map blk_span ((b, n', False) # rest)) \<and>
    (\<forall>x. unat x \<notin> span_set (unat b, 32 + unat n) \<longrightarrow> (\<forall>y \<in> set ys. unat x \<notin> span_set (hdr (fst y))) \<longrightarrow> m' x = m x)"
  proof (cases "unat n < unat sz + 64")
    case True
    then have r: "n' = n" "rest = []" using res by (auto simp: split_result_def)
    have "unat (sz + HEADER_SIZE + MIN_BLOCK) = unat sz + 64"
      using unat_plus [of sz 64] le bnd by (simp add: HEADER_SIZE_def MIN_BLOCK_def add.assoc word_le_nat_alt)
    then have m': "m' = set_free b 0 m" using True by (simp add: m'_def split_block_def n word_less_nat_alt)
    have okb: "hdr_ok b" using bnd by (simp add: hdr_ok_def)
    have oth: "same_hdr m' m (fst x)" if "x \<in> set xs \<union> set ys" for x
    proof -
      obtain c k g where x: "x = (c, k, g)" by (cases x)
      have "hdr_rel c b" "c \<noteq> b" using hdr_rel_inside [OF ok, of c k g b] that x by auto
      then show ?thesis by (simp add: x m' same_hdr_def hdr_simps hdr_rel_sym)
    qed
    have "chain m' (blk_next m b) ys" using nx chain_cong [of ys m' m] oth by simp
    then have "chain m' b ((b, n, False) # ys)" using b0 n okb by (simp add: m' hdr_simps)
    from chain_splice [OF ch this] oth have "chain m' a (xs @ (b, n', False) # rest @ ys)" by (simp add: r)
    moreover have "m' x = m x" if "unat x \<notin> span_set (unat b, 32 + unat n)" for x
      using that okb by (simp add: m') (rule hdr_outside, auto simp: span_set_def hdr_def)
    ultimately show ?thesis using r le by (simp add: within_def)
  next
    case False
    then have r: "n' = sz" "rest = [(b + HEADER_SIZE + sz, n - sz - 32, True)]" using res by (auto simp: split_result_def)
    have big: "unat sz + 64 \<le> unat n" using False by simp
    note sf = split_fields [OF ok ch big, folded m'_def]
    have u: "unat (n - sz - 32) = unat n - unat sz - 32"
      using big by (simp add: unat_sub_if')
    have nb0: "b + HEADER_SIZE + sz \<noteq> 0"
    proof
      assume "b + HEADER_SIZE + sz = 0"
      with sf(1) show False by simp
    qed
    have "chain m' (blk_next m b) ys" using nx chain_cong [of ys m' m] sf(8) by simp
    then have "chain m' b ((b, sz, False) # rest @ ys)" using b0 nb0 sf(2-7) by (simp add: r)
    from chain_splice [OF ch this] sf(8) have "chain m' a (xs @ (b, n', False) # rest @ ys)" by (simp add: r)
    then show ?thesis using r sf(1,9) u big by (auto simp: within_def apart_def)
  qed
  then show "chain m' a (xs @ (b, n', False) # rest @ ys)"
    and "sz \<le> n'" and "\<forall>z \<in> set rest. snd (snd z)"
    and "\<forall>z \<in> set ((b, n', False) # rest). within (blk_span z) (blk_span (b, n, True))"
    and "sorted_wrt apart (map blk_span ((b, n', False) # rest))"
    and "\<And>x. unat x \<notin> span_set (unat b, 32 + unat n) \<Longrightarrow> (\<And>y. y \<in> set ys \<Longrightarrow> unat x \<notin> span_set (hdr (fst y))) \<Longrightarrow> m' x = m x"
    by blast+
qed

section \<open>Slab free lists\<close>

fun fchain :: "mem \<Rightarrow> addr \<Rightarrow> addr list \<Rightarrow> bool" where
  "fchain m a [] \<longleftrightarrow> a = 0"
| "fchain m a (x # xs) \<longleftrightarrow> a = x \<and> x \<noteq> 0 \<and> fchain m (rd64 m x) xs"

lemma fchain_cong: "(\<And>x. x \<in> set xs \<Longrightarrow> rd64 m x = rd64 m' x) \<Longrightarrow> fchain m a xs = fchain m' a xs"
  by (induction xs arbitrary: a) simp_all

definition osize :: "nat \<Rightarrow> nat" where "osize i = 32 * 2 ^ i"

definition slab_obj :: "addr \<Rightarrow> nat \<Rightarrow> nat \<Rightarrow> addr" where
  "slab_obj ptr i j = ptr + word_of_nat (j * osize i)"

definition slab_objs :: "addr \<Rightarrow> nat \<Rightarrow> addr list" where
  "slab_objs ptr i = map (slab_obj ptr i) [0..<4096 div osize i]"

lemma order_cases: "i < 5 \<Longrightarrow> i = 0 \<or> i = 1 \<or> i = 2 \<or> i = 3 \<or> i = (4 :: nat)"
  by linarith

lemma slab_static:
  assumes "i < 5"
  shows "object_size (slab_cache_init i) = word_of_nat (osize i)"
    "objects_per_slab (slab_cache_init i) = word_of_nat (4096 div osize i)"
    "4096 div osize i * osize i = 4096" "32 \<le> osize i" "osize i \<le> 512" "8 \<le> 4096 div osize i" "4096 div osize i \<le> 128"
  using order_cases [OF assms] by (elim disjE; simp add: slab_cache_init_def SLAB_MIN_SIZE_def osize_def)+

lemma slab_obj_unat:
  assumes "i < 5" "j < 4096 div osize i" "unat ptr + 4096 < 2 ^ 63"
  shows "unat (slab_obj ptr i j) = unat ptr + j * osize i" "j * osize i + osize i \<le> 4096"
proof -
  have "(j + 1) * osize i \<le> 4096 div osize i * osize i"
    using assms(2) by (intro mult_le_mono1) simp
  then show le: "j * osize i + osize i \<le> 4096" using slab_static(3) [OF assms(1)] by (simp add: algebra_simps)
  show "unat (slab_obj ptr i j) = unat ptr + j * osize i"
    unfolding slab_obj_def by (rule unat_plus) (use le assms(3) in simp)
qed

lemma slab_objs_spans:
  assumes "i < 5" "unat ptr + 4096 < 2 ^ 63"
  shows "spans_ok (unat ptr) (unat ptr + 4096) (map (\<lambda>x. (unat x, osize i)) (slab_objs ptr i))"
proof -
  have "apart (unat (slab_obj ptr i j), osize i) (unat (slab_obj ptr i k), osize i)"
    if "j < k" "k < 4096 div osize i" for j k
  proof -
    have "(j + 1) * osize i \<le> k * osize i" using that by (intro mult_le_mono1) simp
    then show ?thesis using that slab_obj_unat [OF assms(1) _ assms(2)] by (simp add: apart_def algebra_simps)
  qed
  then show ?thesis
    using slab_obj_unat [OF assms(1) _ assms(2)]
    by (auto simp: spans_ok_def slab_objs_def sorted_wrt_iff_nth_less add.assoc)
qed

lemma fchain_objs:
  assumes "\<And>j. Suc j < n \<Longrightarrow> rd64 m (f j) = f (Suc j)" "rd64 m (f (n - 1)) = 0" "\<And>j. j < n \<Longrightarrow> f j \<noteq> 0" "k < n"
  shows "fchain m (f k) (map f [k..<n])"
  using assms(4)
proof (induction "n - k" arbitrary: k)
  case 0
  then show ?case by simp
next
  case (Suc d)
  show ?case
  proof (cases "Suc k = n")
    case True
    then have "[k..<n] = [k]" by (simp add: upt_rec)
    with True assms(2,3) show ?thesis by auto
  next
    case False
    with Suc have "fchain m (f (Suc k)) (map f [Suc k..<n])" by simp
    with False Suc.prems assms(1,3) show ?thesis by (simp add: upt_rec [of k])
  qed
qed

lemma slab_fill_chain:
  assumes i: "i < 5" and ptr: "unat ptr + 4096 < 2 ^ 63" "ptr \<noteq> 0"
    and c: "object_size c = word_of_nat (osize i)" "objects_per_slab c = word_of_nat (4096 div osize i)"
  shows "\<exists>m'. slab_fill ptr c m = Inr m' \<and> fchain m' ptr (slab_objs ptr i) \<and>
    (\<forall>x. unat x \<notin> span_set (unat ptr, 4096) \<longrightarrow> m' x = m x)"
proof -
  let ?n = "4096 div osize i"
  note st = slab_static [OF i]
  note ob = slab_obj_unat [OF i _ ptr(1)]
  have obj: "ptr + word_of_nat j * object_size c = slab_obj ptr i j" for j by (simp add: c slab_obj_def)
  have out: "wr64 mm (slab_obj ptr i k) v x = mm x" if "k < ?n" "unat x \<notin> span_set (unat ptr, 4096)" for k mm v x
    using that(2) ob [OF that(1)] st(4) ptr(1) by (intro wr64_outside) (auto simp: span_set_def)
  have wr: "rd64 (wr64 mm (slab_obj ptr i k) v) (slab_obj ptr i j) = (if j = k then v else rd64 mm (slab_obj ptr i j))"
    if "j < ?n" "k < ?n" for j k mm v
  proof (cases "j = k")
    case False
    have "apart (unat (slab_obj ptr i j), 8) (unat (slab_obj ptr i k), 8)"
    proof (cases "j < k")
      case True
      then have "(j + 1) * osize i \<le> k * osize i" by (intro mult_le_mono1) simp
      with that st(4) ob show ?thesis by (simp add: apart_def algebra_simps)
    next
      case False
      with \<open>j \<noteq> k\<close> have "(k + 1) * osize i \<le> j * osize i" by (intro mult_le_mono1) simp
      with that st(4) ob show ?thesis by (simp add: apart_def algebra_simps)
    qed
    with False that ptr(1) st(4) ob [of j] ob [of k] show ?thesis by (simp add: rd64_wr64_apart)
  qed simp
  define P where "P q mm \<longleftrightarrow> (\<forall>j < unat q. rd64 mm (slab_obj ptr i j) = slab_obj ptr i (Suc j)) \<and>
    (\<forall>x. unat x \<notin> span_set (unat ptr, 4096) \<longrightarrow> mm x = m x)" for q :: u32 and mm
  have n1: "unat (objects_per_slab c - 1) = ?n - 1"
    using st(6,7) by (simp add: c unat_sub_if' unat_of_nat)
  have "\<exists>m1. for_up 0 (objects_per_slab c - 1) (slab_link ptr c) m = Inr m1 \<and> P (objects_per_slab c - 1) m1"
  proof (rule for_up_total)
    show "P 0 m" by (simp add: P_def)
    show "0 \<le> objects_per_slab c - 1" by simp
    fix q mm
    assume q: "P q mm" "q < objects_per_slab c - 1"
    then have lt: "unat q < ?n - 1" by (simp add: n1 word_less_nat_alt)
    have uq: "unat (q + 1) = Suc (unat q)" by (rule unat_plus_one [OF q(2)])
    have ca: "(ucast q :: u64) = word_of_nat (unat q)" by simp
    have cb: "(ucast (q + 1) :: u64) = word_of_nat (Suc (unat q))" by (simp only: uq [symmetric] of_nat_unat)
    have e: "slab_link ptr c q mm = Inr (wr64 mm (slab_obj ptr i (unat q)) (slab_obj ptr i (Suc (unat q))))"
      unfolding slab_link_def ca cb obj by (rule refl)
    show "\<exists>s'. slab_link ptr c q mm = Inr s' \<and> P (q + 1) s'"
      using q(1) lt wr out unfolding e P_def uq by (auto simp: less_Suc_eq)
  qed
  then obtain m1 where m1: "for_up 0 (objects_per_slab c - 1) (slab_link ptr c) m = Inr m1" "P (objects_per_slab c - 1) m1"
    by blast
  let ?m = "wr64 m1 (slab_obj ptr i (?n - 1)) 0"
  have cn: "(ucast (objects_per_slab c - 1) :: u64) = word_of_nat (?n - 1)"
    by (simp only: n1 [symmetric] of_nat_unat)
  have "slab_fill ptr c m = Inr ?m"
    unfolding slab_fill_def m1(1) cn obj by simp
  moreover have "fchain ?m (slab_obj ptr i 0) (map (slab_obj ptr i) [0..<?n])"
  proof (rule fchain_objs)
    show "slab_obj ptr i j \<noteq> 0" if "j < ?n" for j
      using ob(1) [OF that] ptr(2) by (metis add_eq_0_iff_both_eq_0 unat_0 unat_eq_0)
  qed (use m1(2) n1 wr st(6) in \<open>auto simp: P_def\<close>)
  moreover have "slab_obj ptr i 0 = ptr" by (simp add: slab_obj_def)
  moreover have "\<forall>x. unat x \<notin> span_set (unat ptr, 4096) \<longrightarrow> ?m x = m x"
    using m1(2) out [of "?n - 1"] st(6) by (auto simp: P_def)
  ultimately show ?thesis by (simp add: slab_objs_def)
qed

section \<open>The heap invariant\<close>

text \<open>
  \<open>bs\<close> is the block list, \<open>fl i\<close> the free objects of cache \<open>i\<close> and \<open>sl\<close> the slab objects
  handed out. Blocks, free objects and used objects are pairwise disjoint parts of the
  mapped heap.
\<close>

definition slab_spans :: "(nat \<Rightarrow> addr list) \<Rightarrow> span list" where
  "slab_spans fl = concat (map (\<lambda>i. map (\<lambda>x. (unat x, osize i)) (fl i)) [0..<5])"

definition heap_spans :: "blk list \<Rightarrow> (nat \<Rightarrow> addr list) \<Rightarrow> span list \<Rightarrow> span list" where
  "heap_spans bs fl sl = map blk_span bs @ slab_spans fl @ sl"

definition heap_live :: "blk list \<Rightarrow> span list \<Rightarrow> span set" where
  "heap_live bs sl = {(unat b + 32, unat n) | b n. (b, n, False) \<in> set bs} \<union> set sl"

definition caches_ok :: "heap \<Rightarrow> (nat \<Rightarrow> addr list) \<Rightarrow> bool" where
  "caches_ok s fl \<longleftrightarrow> length (slab_caches s) = 5 \<and> slab_list s = Some 0 \<and>
     (\<forall>i<5. (\<exists>fr al. slab_caches s ! i = (slab_cache_init i)\<lparr>free_list := fr, allocated := al\<rparr>) \<and>
       fchain (hmem s) (free_list (slab_caches s ! i)) (fl i))"

definition heap_top :: "heap \<Rightarrow> nat" where "heap_top s = 0x40000000 + unat (heap_mapped s)"

definition pages_ok :: "heap \<Rightarrow> bool" where
  "pages_ok s \<longleftrightarrow> heap_virt_base s = HEAP_VIRT_BASE \<and> pmm_ok (vm_pmm (hvm s)) \<and>
     unat (heap_mapped s) + 4096 * card (pmm_avail (vm_pmm (hvm s))) \<le> MAX_PHYS_PAGES * 4096"

definition heap_inv :: "heap \<Rightarrow> blk list \<Rightarrow> (nat \<Rightarrow> addr list) \<Rightarrow> span list \<Rightarrow> bool" where
  "heap_inv s bs fl sl \<longleftrightarrow> pages_ok s \<and> caches_ok s fl \<and> chain (hmem s) (heap_head s) bs \<and> bs \<noteq> [] \<and>
     spans_ok 0x40000000 (heap_top s) (heap_spans bs fl sl)"

lemma pages_bound: "pages_ok s \<Longrightarrow> unat (heap_mapped s) \<le> 2 ^ 29"
  by (simp add: pages_ok_def MAX_PHYS_PAGES_def)

lemma heap_top_ge: "0x40000000 \<le> heap_top s"
  by (simp add: heap_top_def)

lemma slab_spans_iff: "x \<in> set (slab_spans fl) \<longleftrightarrow> (\<exists>i<5. \<exists>a \<in> set (fl i). x = (unat a, osize i))"
  by (auto simp: slab_spans_def)

lemma heap_inv_blocks: "heap_inv s bs fl sl \<Longrightarrow> blocks_ok 0x40000000 (heap_top s) bs"
  using pages_bound [of s] by (auto simp: heap_inv_def heap_spans_def spans_ok_append blocks_ok_def heap_top_def)

lemma heap_inv_fuel: "heap_inv s bs fl sl \<Longrightarrow> length bs < BLOCK_FUEL"
proof -
  assume inv: "heap_inv s bs fl sl"
  then have "spans_ok 0x40000000 (heap_top s) (map blk_span bs)" "unat (heap_mapped s) \<le> 2 ^ 29"
    using pages_bound by (auto simp: heap_inv_def heap_spans_def spans_ok_append)
  moreover have "\<forall>x \<in> set (map blk_span bs). 32 \<le> snd x" by auto
  ultimately have "32 * length (map blk_span bs) \<le> heap_top s - 0x40000000" by (intro spans_total)
  with \<open>unat (heap_mapped s) \<le> 2 ^ 29\<close> show ?thesis by (simp add: heap_top_def BLOCK_FUEL_def)
qed

text \<open>Mapping one more page at the top.\<close>

lemma page_grow:
  assumes ok: "pages_ok s" and al: "pmm_alloc_page (vm_pmm (hvm s)) = Inr (ph, p)" "ph \<noteq> 0"
    and mp: "paging_map_page va ph 0 ((hvm s)\<lparr>vm_pmm := p\<rparr>) = Inr (r, v)"
  shows "pages_ok (s\<lparr>hvm := v, heap_mapped := heap_mapped s + 4096\<rparr>)"
    and "unat (heap_mapped s + 4096) = unat (heap_mapped s) + 4096"
proof -
  have pm: "pmm_ok (vm_pmm (hvm s))" using ok by (simp add: pages_ok_def)
  note r = pmmi.alloc_result [OF pm al]
  have t: "pmm_ok (vm_pmm v)" "pmm_avail (vm_pmm v) \<subseteq> pmm_avail p"
    using paging_map_takes [OF mp] r(3) by (auto simp: takes_pages_def)
  have "card (pmm_avail (vm_pmm v)) \<le> card (pmm_avail p)"
    using t(2) pmmi.avail_finite [OF r(3)] by (intro card_mono)
  with r(4) have c: "Suc (card (pmm_avail (vm_pmm v))) \<le> card (pmm_avail (vm_pmm (hvm s)))" by simp
  show u: "unat (heap_mapped s + 4096) = unat (heap_mapped s) + 4096"
    using unat_plus [of "heap_mapped s" 4096] pages_bound [OF ok] by simp
  show "pages_ok (s\<lparr>hvm := v, heap_mapped := heap_mapped s + 4096\<rparr>)"
    using ok t(1) c by (simp add: pages_ok_def u)
qed

text \<open>Free objects and used objects lie outside every block.\<close>

lemma caches_frame:
  assumes inv: "heap_inv s bs fl sl" and m: "\<And>x. unat x < heap_top s \<Longrightarrow> \<forall>z \<in> set bs. unat x \<notin> span_set (blk_span z) \<Longrightarrow> m' x = hmem s x"
  shows "caches_ok (s\<lparr>hmem := m'\<rparr>) fl" and "\<And>x y. y \<in> set sl \<Longrightarrow> unat x \<in> span_set y \<Longrightarrow> m' x = hmem s x"
proof -
  have sp: "\<forall>z \<in> set bs. \<forall>y \<in> set (slab_spans fl @ sl). apart (blk_span z) y"
    and top: "\<forall>y \<in> set (slab_spans fl @ sl). fst y + snd y \<le> heap_top s" and pg: "pages_ok s"
    using inv by (auto simp: heap_inv_def heap_spans_def spans_ok_append) (auto simp: spans_ok_def)
  have same: "m' x = hmem s x" if "y \<in> set (slab_spans fl @ sl)" "unat x \<in> span_set y" for x y
  proof (rule m)
    show "unat x < heap_top s" using top that by (force simp: span_set_def)
    show "\<forall>z \<in> set bs. unat x \<notin> span_set (blk_span z)"
    proof
    fix z
    assume "z \<in> set bs"
    with sp that(1) have "apart (blk_span z) y" by blast
    with that(2) show "unat x \<notin> span_set (blk_span z)" by (auto simp: apart_def span_set_def)
    qed
  qed
  show "m' x = hmem s x" if "y \<in> set sl" "unat x \<in> span_set y" for x y using same [of y x] that by simp
  have "fchain m' a (fl i) = fchain (hmem s) a (fl i)" if i: "i < 5" for a i
  proof (rule fchain_cong)
    fix o'
    assume o': "o' \<in> set (fl i)"
    then have mem: "(unat o', osize i) \<in> set (slab_spans fl @ sl)" using i by (auto simp: slab_spans_iff)
    have "8 \<le> osize i" using slab_static(4) [OF i] by simp
    moreover have "unat o' + osize i \<le> heap_top s" using top mem by force
    ultimately show "rd64 m' o' = rd64 (hmem s) o'"
      using pages_bound [OF pg] same [OF mem] by (intro rd64_cong) (auto simp: heap_top_def span_set_def)
  qed
  then show "caches_ok (s\<lparr>hmem := m'\<rparr>) fl" using inv by (simp add: heap_inv_def caches_ok_def)
qed

section \<open>Allocation keeps the invariant\<close>

text \<open>Memory contents of everything handed out before.\<close>

definition keeps_live :: "span set \<Rightarrow> mem \<Rightarrow> mem \<Rightarrow> bool" where
  "keeps_live L m m' \<longleftrightarrow> (\<forall>y \<in> L. \<forall>x. unat x \<in> span_set y \<longrightarrow> m' x = m x)"

lemma keeps_live_refl [simp]: "keeps_live L m m"
  by (simp add: keeps_live_def)

lemma keeps_live_trans: "keeps_live L m m1 \<Longrightarrow> keeps_live L m1 m2 \<Longrightarrow> keeps_live L m m2"
  by (simp add: keeps_live_def)

lemma block_alloc_inv:
  assumes inv: "heap_inv s (xs @ (b, n, True) # ys) fl sl" and le: "sz \<le> n" and res: "split_result b n sz = (n', rest)"
  defines "s' \<equiv> s\<lparr>hmem := set_free b 0 (split_block b sz (hmem s))\<rparr>"
  shows "heap_inv s' (xs @ (b, n', False) # rest @ ys) fl sl"
    and "heap_live (xs @ (b, n', False) # rest @ ys) sl = insert (unat b + 32, unat n') (heap_live (xs @ (b, n, True) # ys) sl)"
    and "\<forall>y \<in> heap_live (xs @ (b, n, True) # ys) sl. apart (unat b + 32, unat n') y"
    and "keeps_live (heap_live (xs @ (b, n, True) # ys) sl) (hmem s) (hmem s')"
proof -
  let ?bs = "xs @ (b, n, True) # ys" and ?bs' = "xs @ (b, n', False) # rest @ ys"
  note ok = heap_inv_blocks [OF inv]
  have ch: "chain (hmem s) (heap_head s) ?bs" using inv by (simp add: heap_inv_def)
  note sa = split_alloc [OF ok ch le res, folded s'_def]
  have m': "hmem s' = set_free b 0 (split_block b sz (hmem s))" by (simp add: s'_def)
  have out: "hmem s' x = hmem s x" if "\<forall>z \<in> set ?bs. unat x \<notin> span_set (blk_span z)" for x
    unfolding m'
  proof (rule sa(6))
    show "unat x \<notin> span_set (unat b, 32 + unat n)" using that by auto
    show "unat x \<notin> span_set (hdr (fst y))" if "y \<in> set ys" for y
      using \<open>\<forall>z \<in> set ?bs. unat x \<notin> span_set (blk_span z)\<close> that hdr_span [of y] by auto
  qed
  note cf = caches_frame [OF inv out]
  have "spans_ok 0x40000000 (heap_top s) (map blk_span xs @ blk_span (b, n, True) # (map blk_span ys @ slab_spans fl @ sl))"
    using inv by (simp add: heap_inv_def heap_spans_def)
  from spans_ok_refine [OF this, of "map blk_span ((b, n', False) # rest)"] sa(4,5)
  have sp: "spans_ok 0x40000000 (heap_top s) (heap_spans ?bs' fl sl)" by (simp add: heap_spans_def)
  then show "heap_inv s' ?bs' fl sl"
    using inv sa(1) cf(1) by (simp add: heap_inv_def s'_def pages_ok_def heap_top_def)
  show "heap_live ?bs' sl = insert (unat b + 32, unat n') (heap_live ?bs sl)"
    using sa(3) by (force simp: heap_live_def)
  have span: "apart (unat b, 32 + unat n) (blk_span z)" if "z \<in> set xs \<union> set ys" for z
    using ok that apart_sym [of "blk_span z" "(unat b, 32 + unat n)"]
    by (auto simp: blocks_ok_def spans_ok_append spans_ok_Cons)
  have spl: "apart (unat b, 32 + unat n) y" if "y \<in> set sl" for y
    using inv that by (auto simp: heap_inv_def heap_spans_def spans_ok_append spans_ok_Cons)
  have wi: "within (unat b + 32, unat n') (unat b, 32 + unat n)" using sa(4) by (auto simp: within_def)
  show "\<forall>y \<in> heap_live ?bs sl. apart (unat b + 32, unat n') y"
  proof
    fix y
    assume "y \<in> heap_live ?bs sl"
    then consider (sl) "y \<in> set sl" | (bl) c k where "y = (unat c + 32, unat k)" "(c, k, False) \<in> set xs \<union> set ys"
      by (auto simp: heap_live_def)
    then have "apart (unat b, 32 + unat n) y"
    proof cases
      case sl
      then show ?thesis by (rule spl)
    next
      case bl
      with span [of "(c, k, False)"] show ?thesis by (auto simp: apart_def)
    qed
    with wi show "apart (unat b + 32, unat n') y" by (meson apart_within)
  qed
  show "keeps_live (heap_live ?bs sl) (hmem s) (hmem s')"
    unfolding keeps_live_def
  proof (intro ballI allI impI)
    fix y and x :: addr
    assume "y \<in> heap_live ?bs sl" and x: "unat x \<in> span_set y"
    then consider (sl) "y \<in> set sl" | (bl) c k where "y = (unat c + 32, unat k)" "(c, k, False) \<in> set xs \<union> set ys"
      by (auto simp: heap_live_def)
    then show "hmem s' x = hmem s x"
    proof cases
      case sl
      then show ?thesis using cf(2) x by blast
    next
      case bl
      show ?thesis unfolding m'
      proof (rule sa(6))
        show "unat x \<notin> span_set (unat b, 32 + unat n)"
          using span [OF bl(2)] bl(1) x by (auto simp: apart_def span_set_def)
        show "unat x \<notin> span_set (hdr (fst z))" if z: "z \<in> set ys" for z
        proof -
          have zi: "z \<in> set ?bs" and ci: "(c, k, False) \<in> set ?bs" using z bl(2) by auto
          have "z = (c, k, False) \<or> apart (blk_span z) (blk_span (c, k, False))"
            using ok unfolding blocks_ok_def by (intro spans_ok_pair [OF _ zi ci]) blast
          with bl(1) x show ?thesis by (cases z) (auto simp: apart_def span_set_def hdr_def)
        qed
      qed
    qed
  qed
qed

text \<open>One page mapped on top of the heap, before it is used for anything.\<close>

lemma heap_map_one:
  assumes ok: "pages_ok s" and r: "heap_map_more (heap_mapped s + 4096) s = Inr s1"
  shows "\<exists>v. s1 = s\<lparr>hvm := v, heap_mapped := heap_mapped s + 4096\<rparr> \<and> pages_ok s1 \<and>
    unat (heap_mapped s1) = unat (heap_mapped s) + 4096"
proof -
  have u: "unat (heap_mapped s + 4096) = unat (heap_mapped s) + 4096"
    using unat_plus [of "heap_mapped s" 4096] pages_bound [OF ok] by simp
  then have lt: "heap_mapped s < heap_mapped s + 4096" by (simp add: word_less_nat_alt)
  have fuel: "MAP_FUEL = Suc (Suc MAX_PHYS_PAGES)" by (simp add: MAP_FUEL_def)
  obtain ph p r' v where st: "pmm_alloc_page (vm_pmm (hvm s)) = Inr (ph, p)" "ph \<noteq> 0"
    "paging_map_page (heap_virt_base s + heap_mapped s) ph 0 ((hvm s)\<lparr>vm_pmm := p\<rparr>) = Inr (r', v)"
    "s1 = s\<lparr>hvm := v, heap_mapped := heap_mapped s + 4096\<rparr>"
    using r lt unfolding heap_map_more_def fuel by (auto split: if_splits)
  with page_grow [OF ok st(1,2,3)] show ?thesis by auto
qed

lemma add_area_inv:
  assumes inv: "heap_inv s bs fl sl" and pg: "pages_ok s1" "unat (heap_mapped s1) = unat (heap_mapped s) + 4096"
    and s1: "s1 = s\<lparr>hvm := v, heap_mapped := heap_mapped s + 4096\<rparr>"
  shows "\<exists>a s2. add_area s1 = Inr s2 \<and> heap_inv s2 (bs @ [(a, 4064, True)]) fl sl \<and>
    keeps_live (heap_live bs sl) (hmem s) (hmem s2)"
proof -
  note ok = heap_inv_blocks [OF inv]
  let ?a = "heap_virt_base s1 + heap_mapped s1 - 4096"
  have ch: "chain (hmem s) (heap_head s) bs" and ne: "bs \<noteq> []" and pg0: "pages_ok s"
    using inv by (simp_all add: heap_inv_def)
  obtain ys b n f where bs: "bs = ys @ [(b, n, f)]" using ne by (metis prod_cases3 rev_exhaust)
  have base: "heap_virt_base s = 0x40000000" using pg0 by (simp add: pages_ok_def HEAP_VIRT_BASE_def)
  have "?a = 0x40000000 + heap_mapped s" by (simp add: s1 base)
  moreover have "unat (0x40000000 + heap_mapped s) = 0x40000000 + unat (heap_mapped s)"
    using unat_plus [of "0x40000000" "unat (heap_mapped s)"] pages_bound [OF pg0] by simp
  ultimately have ua: "unat ?a = heap_top s" by (simp add: heap_top_def)
  have top1: "heap_top s1 = heap_top s + 4096" using pg(2) by (simp add: heap_top_def)
  have hi: "heap_top s + 4096 < 2 ^ 63" using pages_bound [OF pg0] by (simp add: heap_top_def)
  have nz: "?a \<noteq> 0" using ua by (metis heap_top_def add_is_0 unat_0 zero_neq_numeral)
  have rel: "hdr_rel ?a (fst z) \<and> ?a \<noteq> fst z" if "z \<in> set bs" for z
  proof -
    obtain c k g where z: "z = (c, k, g)" by (cases z)
    have "unat c + 32 + unat k \<le> heap_top s" using blocks_ok_member [OF ok, of c k g] that z by blast
    with hi ua show ?thesis by (auto simp: z hdr_rel_def hdr_ok_def hdr_def apart_def)
  qed
  have oka: "hdr_ok ?a" using hi ua by (simp add: hdr_ok_def)
  have relb: "hdr_rel b (fst z)" if "z \<in> set bs" for z
    using blocks_hdr_rel [OF ok, of b n f "fst z" "fst (snd z)" "snd (snd z)"] that by (simp add: bs)
  define m' where "m' = set_next ?a 0 (set_free ?a 1 (set_size ?a 4064 (set_prev ?a b (set_next b ?a (hmem s)))))"
  have hd: "heap_head s \<noteq> 0" using ch ne by (cases bs) auto
  have "find_tail BLOCK_FUEL (hmem s) (heap_head s) = Inr b"
    using find_tail_chain [OF ch ne heap_inv_fuel [OF inv]] by (simp add: bs)
  then have area: "add_area s1 = Inr (s1\<lparr>hmem := m'\<rparr>)"
    using hd by (simp add: add_area_def Let_def HEADER_SIZE_def s1 m'_def)
  have ch': "chain (hmem s) (heap_head s) (ys @ (b, n, f) # [])" using ch by (simp add: bs)
  note sfx = chain_suffix [OF ch']
  have bb: "hdr_rel ?a b" "?a \<noteq> b" "hdr_ok b" "b \<noteq> 0"
    using rel [of "(b, n, f)"] relb [of "(b, n, f)"] sfx by (auto simp: bs)
  have fb: "blk_size m' b = n" "(blk_free m' b \<noteq> 0) = f" "blk_next m' b = ?a"
    using bb sfx by (simp_all add: hdr_simps m'_def)
  have fa: "blk_size m' ?a = 4064" "blk_free m' ?a = 1" "blk_next m' ?a = 0"
    using oka by (simp_all add: hdr_simps m'_def)
  have same: "same_hdr m' (hmem s) (fst z)" if z: "z \<in> set ys" for z
  proof -
    obtain c k g where zc: "z = (c, k, g)" by (cases z)
    have "c \<noteq> b" using hdr_rel_inside(2) [of _ _ ys b n f "[]" c k g b] ok z by (auto simp: bs zc)
    then show ?thesis using rel [of z] relb [of z] z by (simp add: same_hdr_def hdr_simps bs m'_def zc)
  qed
  have "chain m' b [(b, n, f), (?a, 4064, True)]" using bb(4) fb fa nz by simp
  from chain_splice [OF ch' this same] have chm: "chain m' (heap_head s) (bs @ [(?a, 4064, True)])"
    by (simp add: bs)
  have out: "m' x = hmem s x" if "unat x \<notin> span_set (hdr b)" "unat x < heap_top s" for x
  proof -
    have "unat x \<notin> span_set (hdr ?a)" using that(2) ua by (simp add: span_set_def hdr_def)
    with that(1) oka bb(3) show ?thesis by (simp add: hdr_outside m'_def)
  qed
  have inb: "(b, n, f) \<in> set bs" by (simp add: bs)
  have frame: "m' x = hmem s x" if "unat x < heap_top s" "\<forall>z \<in> set bs. unat x \<notin> span_set (blk_span z)" for x
    using out that hdr_span [of "(b, n, f)"] inb by fastforce
  note cf = caches_frame [OF inv frame]
  have "spans_ok (heap_top s) (heap_top s + 4096) [blk_span (?a, 4064, True)]"
    using ua by (simp add: spans_ok_Cons)
  then have "spans_ok 0x40000000 (heap_top s1) (heap_spans bs fl sl @ [blk_span (?a, 4064, True)])"
    unfolding top1 using inv heap_top_ge by (intro spans_ok_extend [of _ "heap_top s"]) (auto simp: heap_inv_def)
  moreover have "mset (heap_spans bs fl sl @ [blk_span (?a, 4064, True)]) = mset (heap_spans (bs @ [(?a, 4064, True)]) fl sl)"
    by (simp add: heap_spans_def)
  ultimately have sp: "spans_ok 0x40000000 (heap_top s1) (heap_spans (bs @ [(?a, 4064, True)]) fl sl)"
    using spans_ok_perm by blast
  have "heap_inv (s1\<lparr>hmem := m'\<rparr>) (bs @ [(?a, 4064, True)]) fl sl"
    using pg(1) cf(1) chm sp by (simp add: heap_inv_def s1 pages_ok_def heap_top_def caches_ok_def)
  moreover have "keeps_live (heap_live bs sl) (hmem s) m'"
    unfolding keeps_live_def
  proof (intro ballI allI impI)
    fix y and x :: addr
    assume "y \<in> heap_live bs sl" and x: "unat x \<in> span_set y"
    then consider (sl) "y \<in> set sl" | (bl) c k where "y = (unat c + 32, unat k)" "(c, k, False) \<in> set bs"
      by (auto simp: heap_live_def)
    then show "m' x = hmem s x"
    proof cases
      case sl
      then show ?thesis using cf(2) x by blast
    next
      case bl
      have "(b, n, f) = (c, k, False) \<or> apart (blk_span (b, n, f)) (blk_span (c, k, False))"
        using ok unfolding blocks_ok_def by (intro spans_ok_pair [OF _ inb bl(2)]) blast
      moreover have "unat c + 32 + unat k \<le> heap_top s" using blocks_ok_member [OF ok bl(2)] by simp
      ultimately show ?thesis
        using bl(1) x by (intro out) (auto simp: apart_def span_set_def hdr_def)
    qed
  qed
  ultimately show ?thesis using area by fastforce
qed

lemma slab_spans_split:
  assumes "i < 5"
  shows "mset (slab_spans fl) = mset (map (\<lambda>x. (unat x, osize i)) (fl i)) + mset (slab_spans (fl(i := [])))"
proof -
  have five: "[0..<5] = [0, 1, 2, 3, 4 :: nat]" by (simp add: upt_rec numeral_eq_Suc)
  show ?thesis using order_cases [OF assms] unfolding slab_spans_def five by (elim disjE) simp_all
qed

lemma cache_static:
  assumes "caches_ok s fl" "i < 5"
  shows "object_size (slab_caches s ! i) = word_of_nat (osize i)"
    "objects_per_slab (slab_caches s ! i) = word_of_nat (4096 div osize i)"
    "sc_next (slab_caches s ! i) = (if i < 4 then Some (i + 1) else None)"
    "fchain (hmem s) (free_list (slab_caches s ! i)) (fl i)"
proof -
  obtain fr al where c: "slab_caches s ! i = (slab_cache_init i)\<lparr>free_list := fr, allocated := al\<rparr>"
    using assms by (auto simp: caches_ok_def)
  show "object_size (slab_caches s ! i) = word_of_nat (osize i)"
    "objects_per_slab (slab_caches s ! i) = word_of_nat (4096 div osize i)"
    using slab_static(1,2) [OF assms(2)] by (simp_all add: c)
  show "sc_next (slab_caches s ! i) = (if i < 4 then Some (i + 1) else None)"
    by (simp add: c slab_cache_init_def SLAB_MAX_ORDER_def)
  show "fchain (hmem s) (free_list (slab_caches s ! i)) (fl i)" using assms by (simp add: caches_ok_def)
qed

lemma slab_find_spec:
  assumes "caches_ok s fl"
  shows "\<exists>r. slab_find_cache sz s = Inr r \<and>
    (case r of None \<Rightarrow> 512 < unat sz | Some i \<Rightarrow> i < 5 \<and> unat sz \<le> osize i)"
proof -
  have c: "(sz \<le> object_size (slab_caches s ! i)) = (unat sz \<le> osize i)" if "i < 5" for i
    using slab_static(5) [OF that] by (simp add: cache_static(1) [OF assms that] word_le_nat_alt unat_of_nat)
  have five: "length (slab_caches s) = Suc (Suc (Suc (Suc (Suc 0))))" "slab_list s = Some 0"
    using assms by (simp_all add: caches_ok_def)
  have o4: "osize (Suc (Suc (Suc (Suc 0)))) = 512" by (simp add: osize_def)
  show ?thesis
    unfolding slab_find_cache_def five
    by (simp add: c cache_static(3) [OF assms] numeral_2_eq_2 numeral_3_eq_3 eval_nat_numeral(1))
      (use o4 in \<open>auto simp: eval_nat_numeral(1)\<close>)
qed

lemma set_cache_ok:
  assumes "caches_ok s fl" "i < 5" "fchain (hmem s) fr xs"
  shows "caches_ok (set_cache i ((slab_caches s ! i)\<lparr>free_list := fr, allocated := al\<rparr>) s) (fl(i := xs))"
proof -
  obtain fr' al' where "slab_caches s ! i = (slab_cache_init i)\<lparr>free_list := fr', allocated := al'\<rparr>"
    using assms(1,2) by (auto simp: caches_ok_def)
  then have "(slab_caches s ! i)\<lparr>free_list := fr, allocated := al\<rparr> = (slab_cache_init i)\<lparr>free_list := fr, allocated := al\<rparr>"
    by simp
  then show ?thesis using assms by (auto simp: caches_ok_def set_cache_def nth_list_update)
qed

lemma slab_take_inv:
  assumes inv: "heap_inv s bs fl sl" and i: "i < 5" and ne: "free_list (slab_caches s ! i) \<noteq> 0"
    and r: "slab_take i s = (p, s')"
  shows "\<exists>os. heap_inv s' bs (fl(i := os)) ((unat p, osize i) # sl)" and "p \<noteq> 0"
    and "\<forall>y \<in> heap_live bs sl. apart (unat p, osize i) y" and "hmem s' = hmem s"
proof -
  have co: "caches_ok s fl" using inv by (simp add: heap_inv_def)
  have p: "p = free_list (slab_caches s ! i)" and
    s': "s' = set_cache i ((slab_caches s ! i)\<lparr>free_list := rd64 (hmem s) p, allocated := allocated (slab_caches s ! i) + 1\<rparr>) s"
    using r by (auto simp: slab_take_def Let_def)
  obtain os where os: "fl i = p # os" "fchain (hmem s) (rd64 (hmem s) p) os"
    using cache_static(4) [OF co i] ne p by (cases "fl i") auto
  show "p \<noteq> 0" using ne p by simp
  show "hmem s' = hmem s" by (simp add: s' set_cache_def)
  have co': "caches_ok s' (fl(i := os))" unfolding s' by (rule set_cache_ok [OF co i os(2)])
  have "mset (slab_spans fl) = mset ((unat p, osize i) # slab_spans (fl(i := os)))"
    using slab_spans_split [OF i, of fl] slab_spans_split [OF i, of "fl(i := os)"] os(1) by simp
  then have perm: "mset (heap_spans bs fl sl) = mset (heap_spans bs (fl(i := os)) ((unat p, osize i) # sl))"
    by (simp add: heap_spans_def)
  have sp: "spans_ok 0x40000000 (heap_top s) (heap_spans bs fl sl)" using inv by (simp add: heap_inv_def)
  then have sp': "spans_ok 0x40000000 (heap_top s) (heap_spans bs (fl(i := os)) ((unat p, osize i) # sl))"
    using spans_ok_perm [OF perm] by simp
  then have "heap_inv s' bs (fl(i := os)) ((unat p, osize i) # sl)"
    using inv co' by (simp add: heap_inv_def s' set_cache_def heap_top_def pages_ok_def)
  then show "\<exists>os. heap_inv s' bs (fl(i := os)) ((unat p, osize i) # sl)" by blast
  have "apart (unat p, osize i) (blk_span z)" if "z \<in> set bs" for z
    using sp' that apart_sym [of "blk_span z"] by (auto simp: heap_spans_def spans_ok_append)
  moreover have "apart (unat p, osize i) y" if "y \<in> set sl" for y
    using sp' that by (auto simp: heap_spans_def spans_ok_append spans_ok_Cons)
  ultimately show "\<forall>y \<in> heap_live bs sl. apart (unat p, osize i) y"
    by (fastforce simp: heap_live_def apart_def)
qed

text \<open>Stores above the old top of the heap leave everything that was there alone.\<close>

lemma grow_frame:
  assumes inv: "heap_inv s bs fl sl" and m: "\<And>x. unat x < heap_top s \<Longrightarrow> m' x = hmem s x"
  shows "chain m' (heap_head s) bs" "caches_ok (s\<lparr>hmem := m'\<rparr>) fl" "keeps_live (heap_live bs sl) (hmem s) m'"
proof -
  note ok = heap_inv_blocks [OF inv]
  have top: "unat b + 32 + unat n \<le> heap_top s \<and> heap_top s < 2 ^ 63" if "(b, n, f) \<in> set bs" for b n f
    using blocks_ok_member [OF ok that] by simp
  have "same_hdr m' (hmem s) (fst z)" if "z \<in> set bs" for z
  proof -
    obtain b n f where z: "z = (b, n, f)" by (cases z)
    have "hdr_ok b" "\<And>x. unat x \<in> span_set (hdr b) \<Longrightarrow> m' x = hmem s x"
      using top [of b n f] that z m by (auto simp: hdr_ok_def hdr_def span_set_def)
    then show ?thesis using hdr_cong [of b m' "hmem s"] by (simp add: z same_hdr_def)
  qed
  then show "chain m' (heap_head s) bs" using inv chain_cong [of bs m' "hmem s"] by (simp add: heap_inv_def)
  note cf = caches_frame [OF inv m]
  show "caches_ok (s\<lparr>hmem := m'\<rparr>) fl" by (rule cf(1))
  show "keeps_live (heap_live bs sl) (hmem s) m'"
    unfolding keeps_live_def
  proof (intro ballI allI impI)
    fix y and x :: addr
    assume "y \<in> heap_live bs sl" and x: "unat x \<in> span_set y"
    then consider (sl) "y \<in> set sl" | (bl) c k where "y = (unat c + 32, unat k)" "(c, k, False) \<in> set bs"
      by (auto simp: heap_live_def)
    then show "m' x = hmem s x"
    proof cases
      case sl
      then show ?thesis using cf(2) x by blast
    next
      case bl
      with top [OF bl(2)] x show ?thesis by (intro m) (simp add: span_set_def)
    qed
  qed
qed

lemma slab_refill_inv:
  assumes inv: "heap_inv s bs fl sl" and i: "i < 5" and em: "free_list (slab_caches s ! i) = 0"
    and r: "slab_refill i s = Inr (True, s')"
  shows "\<exists>xs. heap_inv s' bs (fl(i := xs)) sl" and "free_list (slab_caches s' ! i) \<noteq> 0"
    and "keeps_live (heap_live bs sl) (hmem s) (hmem s')"
proof -
  have pg: "pages_ok s" and co: "caches_ok s fl" using inv by (simp_all add: heap_inv_def)
  let ?c = "slab_caches s ! i"
  obtain ph p r' v m where st: "pmm_alloc_page (vm_pmm (hvm s)) = Inr (ph, p)" "ph \<noteq> 0"
    "paging_map_page (heap_virt_base s + heap_mapped s) ph 0 ((hvm s)\<lparr>vm_pmm := p\<rparr>) = Inr (r', v)"
    "slab_fill (heap_virt_base s + (heap_mapped s + 4096) - 4096) ?c (hmem s) = Inr m"
    "s' = set_cache i (?c\<lparr>free_list := heap_virt_base s + (heap_mapped s + 4096) - 4096\<rparr>)
       (s\<lparr>hvm := v, heap_mapped := heap_mapped s + 4096, hmem := m\<rparr>)"
    using r by (auto simp: slab_refill_def Let_def split: if_splits)
  note gr = page_grow [OF pg st(1,2,3)]
  define ptr where "ptr = heap_virt_base s + (heap_mapped s + 4096) - 4096"
  have base: "heap_virt_base s = 0x40000000" using pg by (simp add: pages_ok_def HEAP_VIRT_BASE_def)
  have up: "unat ptr = heap_top s"
    using unat_plus [of "0x40000000" "unat (heap_mapped s)"] pages_bound [OF pg]
    by (simp add: ptr_def base heap_top_def)
  have hi: "unat ptr + 4096 < 2 ^ 63" using pages_bound [OF pg] by (simp add: up heap_top_def)
  have nz: "ptr \<noteq> 0" using up by (metis heap_top_def add_is_0 unat_0 zero_neq_numeral)
  obtain m' where m': "slab_fill ptr ?c (hmem s) = Inr m'" "fchain m' ptr (slab_objs ptr i)"
    "\<forall>x. unat x \<notin> span_set (unat ptr, 4096) \<longrightarrow> m' x = hmem s x"
    using slab_fill_chain [OF i hi nz cache_static(1,2) [OF co i]] by blast
  have mm: "m = m'" using st(4) m'(1) by (simp add: ptr_def)
  have below: "m x = hmem s x" if "unat x < heap_top s" for x
    using m'(3) that by (simp add: mm up span_set_def)
  note gf = grow_frame [OF inv below]
  let ?s = "s\<lparr>hvm := v, heap_mapped := heap_mapped s + 4096, hmem := m\<rparr>"
  have s': "s' = set_cache i (?c\<lparr>free_list := ptr, allocated := allocated ?c\<rparr>) ?s"
    using st(5) by (simp add: ptr_def)
  have "caches_ok ?s fl" using gf(2) by (simp add: caches_ok_def)
  from set_cache_ok [OF this i, of ptr "slab_objs ptr i" "allocated ?c"] m'(2)
  have co': "caches_ok s' (fl(i := slab_objs ptr i))" by (simp add: s' mm)
  have "fl i = []" using cache_static(4) [OF co i] em by (cases "fl i") auto
  then have perm: "mset (heap_spans bs fl sl @ map (\<lambda>x. (unat x, osize i)) (slab_objs ptr i)) =
      mset (heap_spans bs (fl(i := slab_objs ptr i)) sl)"
    using slab_spans_split [OF i, of "fl(i := slab_objs ptr i)"] slab_spans_split [OF i, of fl]
    by (simp add: heap_spans_def)
  have top: "heap_top s' = heap_top s + 4096" using gr(2) by (simp add: s' set_cache_def heap_top_def)
  have "spans_ok 0x40000000 (heap_top s') (heap_spans bs fl sl @ map (\<lambda>x. (unat x, osize i)) (slab_objs ptr i))"
    unfolding top using inv heap_top_ge slab_objs_spans [OF i hi] up
    by (intro spans_ok_extend [of _ "heap_top s"]) (auto simp: heap_inv_def)
  then have sp: "spans_ok 0x40000000 (heap_top s') (heap_spans bs (fl(i := slab_objs ptr i)) sl)"
    using spans_ok_perm [OF perm] by simp
  have "heap_inv s' bs (fl(i := slab_objs ptr i)) sl"
    using gr(1) co' gf(1) sp inv by (simp add: heap_inv_def s' set_cache_def pages_ok_def)
  then show "\<exists>xs. heap_inv s' bs (fl(i := xs)) sl" by blast
  have "length (slab_caches s) = 5" using co by (simp add: caches_ok_def)
  then show "free_list (slab_caches s' ! i) \<noteq> 0" using i nz by (simp add: s' set_cache_def)
  show "keeps_live (heap_live bs sl) (hmem s) (hmem s')" using gf(3) by (simp add: s' set_cache_def)
qed

text \<open>
  What every allocation guarantees: the new object is disjoint from everything handed out
  before, large enough, and no byte of the earlier objects has changed.
\<close>

definition fresh_alloc :: "u64 \<Rightarrow> heap \<Rightarrow> blk list \<Rightarrow> span list \<Rightarrow> addr \<Rightarrow> heap \<Rightarrow> bool" where
  "fresh_alloc sz s bs sl p s' \<longleftrightarrow> (\<exists>bs' fl' sl' cap. heap_inv s' bs' fl' sl' \<and> unat sz \<le> cap \<and>
     heap_live bs' sl' = insert (unat p, cap) (heap_live bs sl) \<and>
     (\<forall>y \<in> heap_live bs sl. apart (unat p, cap) y) \<and> keeps_live (heap_live bs sl) (hmem s) (hmem s'))"

definition null_alloc :: "heap \<Rightarrow> blk list \<Rightarrow> span list \<Rightarrow> heap \<Rightarrow> bool" where
  "null_alloc s bs sl s' \<longleftrightarrow> (\<exists>bs' fl' sl'. heap_inv s' bs' fl' sl' \<and> heap_live bs' sl' = heap_live bs sl \<and>
     keeps_live (heap_live bs sl) (hmem s) (hmem s'))"

lemma slab_alloc_inv:
  assumes inv: "heap_inv s bs fl sl" and i: "i < 5" "unat sz \<le> osize i" and r: "slab_alloc i s = Inr (p, s')"
  shows "if p = 0 then null_alloc s bs sl s' else fresh_alloc sz s bs sl p s'"
proof -
  have take: "p \<noteq> 0 \<and> fresh_alloc sz s bs sl p s'"
    if t: "heap_inv s1 bs fl1 sl" "free_list (slab_caches s1 ! i) \<noteq> 0" "slab_take i s1 = (p, s')"
      "keeps_live (heap_live bs sl) (hmem s) (hmem s1)" for s1 fl1
  proof -
    note ti = slab_take_inv [OF t(1) i(1) t(2,3)]
    obtain os where "heap_inv s' bs (fl1(i := os)) ((unat p, osize i) # sl)" using ti(1) by blast
    moreover have "heap_live bs ((unat p, osize i) # sl) = insert (unat p, osize i) (heap_live bs sl)"
      by (auto simp: heap_live_def)
    ultimately show ?thesis using ti(2-4) i(2) t(4) unfolding fresh_alloc_def by metis
  qed
  show ?thesis
  proof (cases "free_list (slab_caches s ! i) = 0")
    case False
    with r have "slab_take i s = (p, s')" by (simp add: slab_alloc_def)
    with take [OF inv False] show ?thesis by simp
  next
    case True
    then obtain ok s1 where s1: "slab_refill i s = Inr (ok, s1)" "(if ok then slab_take i s1 else (0, s1)) = (p, s')"
      using r by (auto simp: slab_alloc_def)
    show ?thesis
    proof (cases ok)
      case False
      then have "s' = s" "p = 0"
        using s1 by (auto simp: slab_refill_def Let_def split: if_splits)
      then show ?thesis using inv by (auto simp: null_alloc_def)
    next
      case ok: True
      have "slab_refill i s = Inr (True, s1)" using s1(1) ok by simp
      note ri = slab_refill_inv [OF inv i(1) True this]
      obtain xs where "heap_inv s1 bs (fl(i := xs)) sl" using ri(1) by blast
      from take [OF this ri(2) _ ri(3)] s1(2) ok show ?thesis by simp
    qed
  qed
qed

lemma round16_unat:
  assumes "unat sz + 15 < 2 ^ 64"
  shows "unat (round16 sz) = (unat sz + 15) div 16 * 16"
proof -
  have m: "(15 :: u64) = mask 4" by (simp add: mask_eq_exp_minus_1)
  have "round16 sz = push_bit 4 (drop_bit 4 (sz + 15))"
    unfolding round16_def m by (rule bit_word_eqI) (auto simp: bit_simps)
  moreover have "unat (drop_bit 4 (sz + 15)) = (unat sz + 15) div 16"
    using unat_plus [of sz 15] assms by (simp only: unat_drop_bit_eq) (simp add: drop_bit_eq_div)
  ultimately show ?thesis
    using assms by (simp add: push_bit_eq_mult unat_word_ariths)
qed

lemma round16_ge: "unat sz + 15 < 2 ^ 64 \<Longrightarrow> unat sz \<le> unat (round16 sz)"
  by (simp add: round16_unat)

lemma round16_bound: "unat sz + 15 < 2 ^ 64 \<Longrightarrow> unat (round16 sz) + 15 < 2 ^ 64"
  using div_le_mono [of "unat sz + 15" "2 ^ 64 - 1" 16] by (simp add: round16_unat)

lemma block_path:
  assumes inv: "heap_inv s bs fl sl" and f: "find_block BLOCK_FUEL (hmem s) rsz (heap_head s) = Inr cur" "cur \<noteq> 0"
    and le: "unat sz \<le> unat rsz"
  shows "cur + HEADER_SIZE \<noteq> 0 \<and>
    fresh_alloc sz s bs sl (cur + HEADER_SIZE) (s\<lparr>hmem := set_free cur 0 (split_block cur rsz (hmem s))\<rparr>)"
proof -
  have ch: "chain (hmem s) (heap_head s) bs" using inv by (simp add: heap_inv_def)
  obtain x where x: "find (\<lambda>(b, n, f). f \<and> rsz \<le> n) bs = Some x" "fst x = cur"
    using find_block_chain [OF ch heap_inv_fuel [OF inv], of rsz] f by (auto split: option.splits)
  have xin: "x \<in> set bs" and xp: "case x of (b, n, f) \<Rightarrow> f \<and> rsz \<le> n"
    using x(1) [unfolded find_Some_iff] nth_mem by metis+
  then obtain n where xn: "x = (cur, n, True)" "rsz \<le> n" "x \<in> set bs" using x(2) by (cases x) auto
  obtain xs ys where bs: "bs = xs @ (cur, n, True) # ys" using xn by (auto dest: split_list)
  obtain n' rest where res: "split_result cur n rsz = (n', rest)" by (cases "split_result cur n rsz")
  note bi = block_alloc_inv [OF inv [unfolded bs] xn(2) res]
  have ok: "blocks_ok 0x40000000 (heap_top s) bs" by (rule heap_inv_blocks [OF inv])
  have "hdr_ok cur" using blocks_ok_member [OF ok, of cur n True] xn by (auto simp: hdr_ok_def)
  then have u: "unat (cur + HEADER_SIZE) = unat cur + 32" by (simp add: HEADER_SIZE_def hdr_offsets)
  have "rsz \<le> n'" by (rule split_alloc(2) [OF ok [unfolded bs] ch [unfolded bs] xn(2) res])
  with le have cap: "unat sz \<le> unat n'" by (simp add: word_le_nat_alt)
  have "fresh_alloc sz s bs sl (cur + HEADER_SIZE) (s\<lparr>hmem := set_free cur 0 (split_block cur rsz (hmem s))\<rparr>)"
    unfolding fresh_alloc_def u bs
    by (intro exI [of _ "xs @ (cur, n', False) # rest @ ys"] exI [of _ fl] exI [of _ sl] exI [of _ "unat n'"] conjI bi cap)
  moreover have "cur + HEADER_SIZE \<noteq> 0" using u by (metis add_is_0 unat_0 zero_neq_numeral)
  ultimately show ?thesis by simp
qed

lemma kmalloc_small_inv:
  assumes inv: "heap_inv s bs fl sl" and r: "kmalloc_small sz s = Inr (Some (p, s'))"
  shows "if p = 0 then null_alloc s bs sl s' else fresh_alloc sz s bs sl p s'"
proof -
  obtain i where i: "slab_find_cache sz s = Inr (Some i)" "slab_alloc i s = Inr (p, s')"
    using r by (auto simp: kmalloc_small_def split: if_splits option.splits)
  have "caches_ok s fl" using inv by (simp add: heap_inv_def)
  from slab_find_spec [OF this, of sz] i(1) have "i < 5" "unat sz \<le> osize i" by auto
  from slab_alloc_inv [OF inv this i(2)] show ?thesis .
qed

lemma fresh_alloc_mono:
  assumes "heap_live bs1 sl1 = heap_live bs sl" "keeps_live (heap_live bs sl) (hmem s) (hmem s1)" "unat sz \<le> unat sz1"
    and "if p = 0 then null_alloc s1 bs1 sl1 s' else fresh_alloc sz1 s1 bs1 sl1 p s'"
  shows "if p = 0 then null_alloc s bs sl s' else fresh_alloc sz s bs sl p s'"
proof (cases "p = 0")
  case True
  with assms show ?thesis unfolding null_alloc_def by (auto intro: keeps_live_trans)
next
  case False
  then obtain bs' fl' sl' cap where "heap_inv s' bs' fl' sl'" "unat sz1 \<le> cap"
    "heap_live bs' sl' = insert (unat p, cap) (heap_live bs sl)" "\<forall>y \<in> heap_live bs sl. apart (unat p, cap) y"
    "keeps_live (heap_live bs sl) (hmem s1) (hmem s')"
    using assms(1,4) by (auto simp: fresh_alloc_def)
  with False assms(2,3) show ?thesis
    unfolding fresh_alloc_def by (auto intro!: exI [of _ bs'] exI [of _ fl'] exI [of _ sl'] exI [of _ cap] intro: keeps_live_trans)
qed

lemma kmalloc_rec_inv:
  assumes "heap_inv s bs fl sl" "unat sz + 15 < 2 ^ 64" "kmalloc_rec n sz s = Inr (p, s')"
  shows "if p = 0 then null_alloc s bs sl s' else fresh_alloc sz s bs sl p s'"
  using assms
proof (induction n arbitrary: sz s bs)
  case 0
  then show ?case by simp
next
  case (Suc n)
  show ?case
  proof (cases "sz = 0")
    case True
    with Suc.prems show ?thesis by (auto simp: null_alloc_def)
  next
    case False
    let ?r = "round16 sz"
    obtain r where r: "kmalloc_small sz s = Inr r" using Suc.prems(3) False by auto
    show ?thesis
    proof (cases r)
      case (Some x)
      with r Suc.prems(3) False have "kmalloc_small sz s = Inr (Some (p, s'))" by simp
      with Suc.prems(1) show ?thesis by (rule kmalloc_small_inv)
    next
      case None
      obtain cur where cur: "find_block BLOCK_FUEL (hmem s) ?r (heap_head s) = Inr cur"
        using Suc.prems(3) False r None by (auto simp: Let_def)
      have le: "unat sz \<le> unat ?r" by (rule round16_ge [OF Suc.prems(2)])
      show ?thesis
      proof (cases "cur = 0")
        case c: False
        then have "p = cur + HEADER_SIZE" "s' = s\<lparr>hmem := set_free cur 0 (split_block cur ?r (hmem s))\<rparr>"
          using Suc.prems(3) False r None cur by (simp_all add: Let_def)
        with block_path [OF Suc.prems(1) cur c le] show ?thesis by simp
      next
        case True
        then obtain s1 s2 where st: "heap_map_more (heap_mapped s + 4096) s = Inr s1" "add_area s1 = Inr s2"
          "kmalloc_rec n ?r s2 = Inr (p, s')"
          using Suc.prems(3) False r None cur by (auto simp: Let_def)
        have pg: "pages_ok s" using Suc.prems(1) by (simp add: heap_inv_def)
        obtain v where v: "s1 = s\<lparr>hvm := v, heap_mapped := heap_mapped s + 4096\<rparr>" "pages_ok s1"
          "unat (heap_mapped s1) = unat (heap_mapped s) + 4096"
          using heap_map_one [OF pg st(1)] by blast
        obtain a where a: "heap_inv s2 (bs @ [(a, 4064, True)]) fl sl" "keeps_live (heap_live bs sl) (hmem s) (hmem s2)"
          using add_area_inv [OF Suc.prems(1) v(2,3,1)] st(2) by auto
        have live: "heap_live (bs @ [(a, 4064, True)]) sl = heap_live bs sl" by (auto simp: heap_live_def)
        from Suc.IH [OF a(1) round16_bound [OF Suc.prems(2)] st(3)] show ?thesis
          by (rule fresh_alloc_mono [OF live a(2) le])
      qed
    qed
  qed
qed

section \<open>The allocator as its clients see it\<close>

fun alloc_seq :: "(u64 \<Rightarrow> 's \<Rightarrow> (addr \<times> 's) res) \<Rightarrow> u64 list \<Rightarrow> 's \<Rightarrow> (addr list \<times> 's) res" where
  "alloc_seq alloc [] s = Inr ([], s)"
| "alloc_seq alloc (n # ns) s =
     bindR (alloc n s) (\<lambda>(p, s1). bindR (alloc_seq alloc ns s1) (\<lambda>(ps, s2). Inr (p # ps, s2)))"

text \<open>
  A memory allocator whose state carries a set of live spans: a successful allocation adds
  a span disjoint from all others and changes no live byte.
\<close>

locale memory_allocator =
  fixes alloc :: "u64 \<Rightarrow> 's \<Rightarrow> (addr \<times> 's) res"
    and live :: "'s \<Rightarrow> span set \<Rightarrow> bool"
    and contents :: "'s \<Rightarrow> mem"
    and request_ok :: "u64 \<Rightarrow> bool"
  assumes alloc_null: "live s L \<Longrightarrow> request_ok n \<Longrightarrow> alloc n s = Inr (0, s') \<Longrightarrow>
      live s' L \<and> keeps_live L (contents s) (contents s')"
    and alloc_fresh: "live s L \<Longrightarrow> request_ok n \<Longrightarrow> alloc n s = Inr (p, s') \<Longrightarrow> p \<noteq> 0 \<Longrightarrow>
      \<exists>cap. unat n \<le> cap \<and> live s' (insert (unat p, cap) L) \<and> (\<forall>y \<in> L. apart (unat p, cap) y) \<and>
        keeps_live L (contents s) (contents s')"
begin

lemma keeps_live_subset: "keeps_live L m m' \<Longrightarrow> K \<subseteq> L \<Longrightarrow> keeps_live K m m'"
  by (auto simp: keeps_live_def)

lemma alloc_seq_disjoint:
  assumes "live s L" "\<forall>n \<in> set ns. request_ok n" "alloc_seq alloc ns s = Inr (ps, s')"
  shows "length ps = length ns \<and> keeps_live L (contents s) (contents s') \<and>
    (\<forall>i < length ns. ps ! i \<noteq> 0 \<longrightarrow> (\<forall>y \<in> L. apart (unat (ps ! i), unat (ns ! i)) y)) \<and>
    (\<forall>i j. i < j \<longrightarrow> j < length ns \<longrightarrow> ps ! i \<noteq> 0 \<longrightarrow> ps ! j \<noteq> 0 \<longrightarrow>
       apart (unat (ps ! i), unat (ns ! i)) (unat (ps ! j), unat (ns ! j)))"
  using assms
proof (induction ns arbitrary: s L ps)
  case Nil
  then show ?case by simp
next
  case (Cons n ns)
  obtain p s1 qs where st: "alloc n s = Inr (p, s1)" "alloc_seq alloc ns s1 = Inr (qs, s')" "ps = p # qs"
    using Cons.prems(3) by auto
  obtain cap where c: "live s1 (if p = 0 then L else insert (unat p, cap) L)" "keeps_live L (contents s) (contents s1)"
    "p \<noteq> 0 \<longrightarrow> unat n \<le> cap \<and> (\<forall>y \<in> L. apart (unat p, cap) y)"
    using alloc_null [OF Cons.prems(1), of n s1] alloc_fresh [OF Cons.prems(1), of n p s1] st(1) Cons.prems(2)
    by (cases "p = 0") auto
  let ?L = "if p = 0 then L else insert (unat p, cap) L"
  have rq: "\<forall>n \<in> set ns. request_ok n" using Cons.prems(2) by simp
  note ih = Cons.IH [OF c(1) rq st(2)]
  have sub: "L \<subseteq> ?L" by auto
  have k: "keeps_live L (contents s) (contents s')"
    using c(2) keeps_live_subset [OF conjunct1 [OF conjunct2 [OF ih]] sub] by (rule keeps_live_trans)
  have first: "apart (unat p, unat n) y" if "p \<noteq> 0" "y \<in> L" for y
    using c(3) that by (auto simp: apart_def)
  have later: "apart (unat p, unat n) (unat (qs ! j), unat (ns ! j))" if "p \<noteq> 0" "j < length ns" "qs ! j \<noteq> 0" for j
  proof -
    have "apart (unat (qs ! j), unat (ns ! j)) (unat p, cap)" using ih that by simp
    then show ?thesis using c(3) that(1) by (auto simp: apart_def)
  qed
  show ?case
  proof (intro conjI allI impI)
    show "length ps = length (n # ns)" using ih st(3) by simp
    show "keeps_live L (contents s) (contents s')" by (rule k)
    show "\<forall>y \<in> L. apart (unat (ps ! i), unat ((n # ns) ! i)) y" if "i < length (n # ns)" "ps ! i \<noteq> 0" for i
      using that first ih st(3) sub by (cases i) auto
    show "apart (unat (ps ! i), unat ((n # ns) ! i)) (unat (ps ! j), unat ((n # ns) ! j))"
      if ij: "i < j" "j < length (n # ns)" "ps ! i \<noteq> 0" "ps ! j \<noteq> 0" for i j
    proof (cases i)
      case 0
      then obtain k where "j = Suc k" using ij(1) by (cases j) auto
      with 0 ij later [of k] st(3) show ?thesis by simp
    next
      case (Suc i')
      then obtain k where "j = Suc k" using ij(1) by (cases j) auto
      with Suc ij ih st(3) show ?thesis by simp
    qed
  qed
qed

end

definition heap_holds :: "heap \<Rightarrow> span set \<Rightarrow> bool" where
  "heap_holds s L \<longleftrightarrow> (\<exists>bs fl sl. heap_inv s bs fl sl \<and> heap_live bs sl = L)"

definition kmalloc_request :: "u64 \<Rightarrow> bool" where "kmalloc_request n \<longleftrightarrow> unat n + 15 < 2 ^ 64"

interpretation kheap: memory_allocator kmalloc heap_holds hmem kmalloc_request
proof
  fix s L n s'
  assume "heap_holds s L" "kmalloc_request n" "kmalloc n s = Inr (0, s')"
  then show "heap_holds s' L \<and> keeps_live L (hmem s) (hmem s')"
    using kmalloc_rec_inv [of s _ _ _ n MAP_FUEL 0 s'] unfolding heap_holds_def kmalloc_def kmalloc_request_def
    by (fastforce simp: null_alloc_def)
next
  fix s L n p s'
  assume "heap_holds s L" "kmalloc_request n" "kmalloc n s = Inr (p, s')" "p \<noteq> 0"
  then show "\<exists>cap. unat n \<le> cap \<and> heap_holds s' (insert (unat p, cap) L) \<and> (\<forall>y \<in> L. apart (unat p, cap) y) \<and>
      keeps_live L (hmem s) (hmem s')"
    using kmalloc_rec_inv [of s _ _ _ n MAP_FUEL p s'] unfolding heap_holds_def kmalloc_def kmalloc_request_def
    by (fastforce simp: fresh_alloc_def)
qed

section \<open>Initialisation and totality\<close>

lemma heap_init_inv:
  assumes "pmm_ok (vm_pmm (hvm s))" "heap_init s = Inr s'"
  shows "heap_inv s' [(0x40000000, 4064, True)] (\<lambda>_. []) []"
proof -
  let ?s = "s\<lparr>heap_virt_base := paging_heap_base, heap_mapped := 0\<rparr>"
  have pg: "pages_ok ?s"
    using assms(1) pmm_avail_card [OF assms(1)] by (simp add: pages_ok_def paging_heap_base_def)
  obtain s1 where s1: "heap_map_more 4096 ?s = Inr s1"
    "s' = slab_init (s1\<lparr>heap_head := heap_virt_base s1,
        hmem := set_prev (heap_virt_base s1) 0 (set_next (heap_virt_base s1) 0 (set_free (heap_virt_base s1) 1
          (set_size (heap_virt_base s1) (4096 - HEADER_SIZE) (hmem s1))))\<rparr>)"
    using assms(2) by (auto simp: heap_init_def Let_def)
  obtain v where v: "s1 = ?s\<lparr>hvm := v, heap_mapped := heap_mapped ?s + 4096\<rparr>" "pages_ok s1"
    "unat (heap_mapped s1) = unat (heap_mapped ?s) + 4096"
    using heap_map_one [OF pg, of s1] s1(1) by auto
  have b: "heap_virt_base s1 = 0x40000000" using v(2) by (simp add: pages_ok_def HEAP_VIRT_BASE_def)
  have ok: "hdr_ok 0x40000000" by (simp add: hdr_ok_def)
  have "chain (hmem s') (heap_head s') [(0x40000000, 4064, True)]"
    using ok by (simp add: s1(2) slab_init_def b hdr_simps HEADER_SIZE_def)
  moreover have "caches_ok s' (\<lambda>_. [])"
    by (auto simp: caches_ok_def s1(2) slab_init_def SLAB_MAX_ORDER_def)
      (simp add: slab_cache_init_def)+
  moreover have "pages_ok s'" using v(2) by (simp add: s1(2) slab_init_def pages_ok_def)
  moreover have "heap_top s' = 0x40000000 + 4096" using v(3) by (simp add: s1(2) slab_init_def heap_top_def)
  moreover have "slab_spans (\<lambda>_. []) = []" by (simp add: slab_spans_def)
  ultimately show ?thesis by (simp add: heap_inv_def heap_spans_def spans_ok_Cons)
qed

lemma heap_va_not_low:
  assumes "unat m \<le> 2 ^ 29"
  shows "\<not> low (0x40000000 + m)"
proof -
  let ?v = "0x40000000 + m :: u64"
  have u: "unat ?v = 0x40000000 + unat m"
    using unat_plus [of "0x40000000" "unat m"] assms by simp
  have "unat (drop_bit 30 ?v) = 1"
    unfolding unat_drop_bit_eq u using assms by (simp add: drop_bit_eq_div)
  then have "drop_bit 30 ?v = 1" by (simp only: word_unat_eq_iff unat_1)
  then have "idx 1 ?v = 1" by (simp add: idx_def)
  then show ?thesis by (simp add: low_def)
qed

lemma heap_page_ok:
  assumes vm: "vm_ok (hvm s)" and pg: "pages_ok s" and fr: "4 \<le> card (low_free (hvm s))"
  shows "\<exists>ph p r v. pmm_alloc_page (vm_pmm (hvm s)) = Inr (ph, p) \<and> ph \<noteq> 0 \<and>
    paging_map_page (heap_virt_base s + heap_mapped s) ph 0 ((hvm s)\<lparr>vm_pmm := p\<rparr>) = Inr (r, v)"
proof -
  note parts = vm_ok_parts [OF vm]
  have "low_free (hvm s) \<noteq> {}" using fr by auto
  then obtain a where "a \<in> pmm_avail (vm_pmm (hvm s))" "a < 0x200000" by (auto simp: low_free_def)
  then obtain ph p where p: "pmm_alloc_page (vm_pmm (hvm s)) = Inr (ph, p)" "ph \<in> pmm_avail (vm_pmm (hvm s))" "ph < 0x200000"
    "pmm_avail p = pmm_avail (vm_pmm (hvm s)) - {ph}" "pmm_ok p"
    using pmm_alloc_low [OF parts(1)] by blast
  have nz: "ph \<noteq> 0" using p(2) pmmi.avail_nonzero [OF parts(1)] by blast
  let ?v = "(hvm s)\<lparr>vm_pmm := p\<rparr>"
  have ok: "vm_ok ?v" using vm by (rule vm_ok_cong) (use p in auto)
  have "low_free ?v = low_free (hvm s) - {ph}" using p(4) by (auto simp: low_free_def)
  then have "card (low_free ?v) = card (low_free (hvm s)) - 1"
    using p(2,3) by (simp add: low_free_def card_Diff_singleton)
  then have "3 \<le> card (low_free ?v)" using fr by simp
  moreover have "\<not> low (heap_virt_base s + heap_mapped s)"
    using pg heap_va_not_low [OF pages_bound [OF pg]] by (simp add: pages_ok_def HEAP_VIRT_BASE_def)
  moreover have "page_base 0 = 0" by (simp add: page_base_def)
  ultimately show ?thesis using paging_map_spec [OF ok] p(1) nz by blast
qed

lemma slab_alloc_returns:
  assumes inv: "heap_inv s bs fl sl" and vm: "vm_ok (hvm s)" "4 \<le> card (low_free (hvm s))" and i: "i < 5"
  shows "\<exists>p s'. slab_alloc i s = Inr (p, s') \<and> p \<noteq> 0"
proof (cases "free_list (slab_caches s ! i) = 0")
  case False
  then show ?thesis by (simp add: slab_alloc_def slab_take_def Let_def)
next
  case True
  have pg: "pages_ok s" and co: "caches_ok s fl" using inv by (simp_all add: heap_inv_def)
  obtain ph p r v where st: "pmm_alloc_page (vm_pmm (hvm s)) = Inr (ph, p)" "ph \<noteq> 0"
    "paging_map_page (heap_virt_base s + heap_mapped s) ph 0 ((hvm s)\<lparr>vm_pmm := p\<rparr>) = Inr (r, v)"
    using heap_page_ok [OF vm(1) pg vm(2)] by blast
  define ptr where "ptr = heap_virt_base s + (heap_mapped s + 4096) - 4096"
  have base: "heap_virt_base s = 0x40000000" using pg by (simp add: pages_ok_def HEAP_VIRT_BASE_def)
  have up: "unat ptr = heap_top s"
    using unat_plus [of "0x40000000" "unat (heap_mapped s)"] pages_bound [OF pg]
    by (simp add: ptr_def base heap_top_def)
  have hi: "unat ptr + 4096 < 2 ^ 63" using pages_bound [OF pg] by (simp add: up heap_top_def)
  have nz: "ptr \<noteq> 0" using up by (metis heap_top_def add_is_0 unat_0 zero_neq_numeral)
  obtain m where "slab_fill ptr (slab_caches s ! i) (hmem s) = Inr m"
    using slab_fill_chain [OF i hi nz cache_static(1,2) [OF co i]] by blast
  then obtain s1 where s1: "slab_refill i s = Inr (True, s1)"
    using st by (simp add: slab_refill_def Let_def ptr_def)
  have "slab_alloc i s = Inr (slab_take i s1)" using s1 True by (simp add: slab_alloc_def)
  moreover have "fst (slab_take i s1) \<noteq> 0"
    using slab_refill_inv(2) [OF inv i True s1] by (simp add: slab_take_def Let_def)
  ultimately show ?thesis by (metis prod.collapse)
qed

lemma find_block_some:
  assumes "heap_inv s bs fl sl" "(b, n, True) \<in> set bs" "sz \<le> n"
  shows "\<exists>cur. find_block BLOCK_FUEL (hmem s) sz (heap_head s) = Inr cur \<and> cur \<noteq> 0"
proof -
  have ch: "chain (hmem s) (heap_head s) bs" using assms(1) by (simp add: heap_inv_def)
  have "find (\<lambda>(b, n, f). f \<and> sz \<le> n) bs \<noteq> None" using assms(2,3) by (auto simp: find_None_iff)
  then obtain x where x: "find (\<lambda>(b, n, f). f \<and> sz \<le> n) bs = Some x" by blast
  then have "x \<in> set bs" using nth_mem by (metis find_Some_iff)
  then obtain xs ys where "bs = xs @ x # ys" by (auto dest: split_list)
  then have "fst x \<noteq> 0" using chain_suffix ch by (cases x) fastforce
  then show ?thesis
    using find_block_chain [OF ch heap_inv_fuel [OF assms(1)], of sz] x by (cases x) simp
qed

lemma kmalloc_small_none:
  assumes "heap_inv s bs fl sl" "512 < unat sz"
  shows "kmalloc_small sz s = Inr None"
proof -
  have co: "caches_ok s fl" using assms(1) by (simp add: heap_inv_def)
  from slab_find_spec [OF this, of sz] assms(2) slab_static(5) have "slab_find_cache sz s = Inr None"
    by (fastforce split: option.splits)
  then show ?thesis by (simp add: kmalloc_small_def)
qed

lemma kmalloc_returns:
  assumes inv: "heap_inv s bs fl sl" and vm: "vm_ok (hvm s)" "4 \<le> card (low_free (hvm s))"
    and sz: "0 < sz" "sz \<le> 4064"
  shows "\<exists>p s'. kmalloc sz s = Inr (p, s') \<and> p \<noteq> 0"
proof (cases "unat sz \<le> 512")
  case True
  have co: "caches_ok s fl" using inv by (simp add: heap_inv_def)
  obtain i where i: "slab_find_cache sz s = Inr (Some i)" "i < 5"
    using slab_find_spec [OF co, of sz] True by (auto split: option.splits)
  obtain p s' where "slab_alloc i s = Inr (p, s')" "p \<noteq> 0" using slab_alloc_returns [OF inv vm i(2)] by blast
  moreover have "sz \<le> SLAB_MAX_SIZE" using True by (simp add: SLAB_MAX_SIZE_def SLAB_MIN_SIZE_def SLAB_MAX_ORDER_def word_le_nat_alt)
  ultimately show ?thesis using i(1) sz(1) by (simp add: kmalloc_def MAP_FUEL_def kmalloc_small_def)
next
  case False
  have b: "unat sz \<le> 4064" using sz(2) by (simp add: word_le_nat_alt)
  let ?r = "round16 sz"
  have r: "512 < unat ?r" "unat ?r \<le> 4064" "unat sz \<le> unat ?r" "unat (round16 ?r) = unat ?r"
  proof -
    have ur: "unat ?r = (unat sz + 15) div 16 * 16" using b by (intro round16_unat) simp
    show "512 < unat ?r" using False ur by simp
    show "unat ?r \<le> 4064" using b ur div_le_mono [of "unat sz + 15" 4079 16] by simp
    show "unat sz \<le> unat ?r" using b by (intro round16_ge) simp
    have "unat (round16 ?r) = (unat ?r + 15) div 16 * 16" using b ur by (intro round16_unat) simp
    then show "unat (round16 ?r) = unat ?r" by (simp add: ur)
  qed
  have pg: "pages_ok s" and ch: "chain (hmem s) (heap_head s) bs" using inv by (simp_all add: heap_inv_def)
  obtain cur where cur: "find_block BLOCK_FUEL (hmem s) ?r (heap_head s) = Inr cur"
    using find_block_chain [OF ch heap_inv_fuel [OF inv]] by blast
  have fuel: "MAP_FUEL = Suc (Suc MAX_PHYS_PAGES)" by (simp add: MAP_FUEL_def)
  note small = kmalloc_small_none [OF inv, of sz]
  show ?thesis
  proof (cases "cur = 0")
    case c: False
    with block_path [OF inv cur c r(3)] small False sz(1) cur show ?thesis
      by (simp add: kmalloc_def fuel)
  next
    case True
    obtain ph p r' v where st: "pmm_alloc_page (vm_pmm (hvm s)) = Inr (ph, p)" "ph \<noteq> 0"
      "paging_map_page (heap_virt_base s + heap_mapped s) ph 0 ((hvm s)\<lparr>vm_pmm := p\<rparr>) = Inr (r', v)"
      using heap_page_ok [OF vm(1) pg vm(2)] by blast
    note gr = page_grow [OF pg st]
    let ?s1 = "s\<lparr>hvm := v, heap_mapped := heap_mapped s + 4096\<rparr>"
    have more: "heap_map_more (heap_mapped s + 4096) s = Inr ?s1"
      using st gr(2) by (simp add: heap_map_more_def fuel word_less_nat_alt)
    obtain a s2 where a: "add_area ?s1 = Inr s2" "heap_inv s2 (bs @ [(a, 4064, True)]) fl sl"
      using add_area_inv [OF inv gr(1) _ refl] gr(2) by auto
    have le: "round16 ?r \<le> 4064" using r by (simp add: word_le_nat_alt)
    obtain cur2 where cur2: "find_block BLOCK_FUEL (hmem s2) (round16 ?r) (heap_head s2) = Inr cur2" "cur2 \<noteq> 0"
      using find_block_some [OF a(2) _ le, of a] by auto
    have "?r \<noteq> 0" using r(1) by auto
    then have "kmalloc_rec (Suc MAX_PHYS_PAGES) ?r s2 = Inr (cur2 + HEADER_SIZE,
        s2\<lparr>hmem := set_free cur2 0 (split_block cur2 (round16 ?r) (hmem s2))\<rparr>)"
      using kmalloc_small_none [OF a(2) r(1)] cur2 by simp
    moreover have "cur2 + HEADER_SIZE \<noteq> 0" using block_path [OF a(2) cur2, of 0] by simp
    ultimately show ?thesis
      using small False sz(1) cur True more a(1) unfolding kmalloc_def fuel by (subst kmalloc_rec.simps) simp
  qed
qed

section \<open>What the heap guarantees\<close>

text \<open>
  C1. With four free pages in the first 2 MiB, a request of 1 to 4064 bytes always
  succeeds: the object is large enough, disjoint from every object handed out before, no
  byte of those changes, and the heap stays well-formed.
\<close>

theorem kmalloc_fresh:
  assumes "heap_inv s bs fl sl" and "vm_ok (hvm s)" and "4 \<le> card (low_free (hvm s))"
    and "0 < sz" and "sz \<le> 4064"
  shows "\<exists>p s'. kmalloc sz s = Inr (p, s') \<and> p \<noteq> 0 \<and> fresh_alloc sz s bs sl p s'"
proof -
  obtain p s' where r: "kmalloc sz s = Inr (p, s')" "p \<noteq> 0" using kmalloc_returns [OF assms] by blast
  have "unat sz + 15 < 2 ^ 64" using assms(5) by (simp add: word_le_nat_alt)
  from kmalloc_rec_inv [OF assms(1) this] r show ?thesis unfolding kmalloc_def by fastforce
qed

text \<open>
  C28. Whatever the sizes, the objects a sequence of \<open>kmalloc\<close> calls returns are pairwise
  disjoint, disjoint from the objects live before, and leave those unchanged.
\<close>

theorem kmalloc_objects_disjoint:
  assumes "heap_inv s bs fl sl" and "\<forall>n \<in> set ns. unat n + 15 < 2 ^ 64"
    and "alloc_seq kmalloc ns s = Inr (ps, s')"
  shows "length ps = length ns \<and> keeps_live (heap_live bs sl) (hmem s) (hmem s') \<and>
    (\<forall>i < length ns. ps ! i \<noteq> 0 \<longrightarrow> (\<forall>y \<in> heap_live bs sl. apart (unat (ps ! i), unat (ns ! i)) y)) \<and>
    (\<forall>i j. i < j \<longrightarrow> j < length ns \<longrightarrow> ps ! i \<noteq> 0 \<longrightarrow> ps ! j \<noteq> 0 \<longrightarrow>
       apart (unat (ps ! i), unat (ns ! i)) (unat (ps ! j), unat (ns ! j)))"
proof (rule kheap.alloc_seq_disjoint)
  show "heap_holds s (heap_live bs sl)" using assms(1) by (auto simp: heap_holds_def)
  show "\<forall>n \<in> set ns. kmalloc_request n" using assms(2) by (simp add: kmalloc_request_def)
qed (rule assms(3))

text \<open>
  C40. A request of more than 4064 bytes that no free block can hold never returns: the
  heap grows by single blocks of 4064 bytes, none of them large enough, until a panic.
\<close>

theorem kmalloc_large_never_returns:
  assumes "heap_inv s bs fl sl" and "4064 < unat sz" and "unat sz + 15 < 2 ^ 64"
    and "\<forall>(b, n, f) \<in> set bs. f \<longrightarrow> unat n < unat sz"
  shows "kmalloc sz s \<noteq> Inr (p, s')"
proof -
  have "kmalloc_rec n sz s \<noteq> Inr (p, s')" for n
    using assms
  proof (induction n arbitrary: s bs sz)
    case 0
    then show ?case by simp
  next
    case (Suc n)
    let ?r = "round16 sz"
    have le: "unat sz \<le> unat ?r" by (rule round16_ge [OF Suc.prems(3)])
    have ch: "chain (hmem s) (heap_head s) bs" and pg: "pages_ok s" using Suc.prems(1) by (simp_all add: heap_inv_def)
    have "find (\<lambda>(b, n, f). f \<and> ?r \<le> n) bs = None"
      using Suc.prems(4) le by (fastforce simp: find_None_iff word_le_nat_alt)
    then have none: "find_block BLOCK_FUEL (hmem s) ?r (heap_head s) = Inr 0"
      using find_block_chain [OF ch heap_inv_fuel [OF Suc.prems(1)]] by simp
    have small: "kmalloc_small sz s = Inr None" "sz \<noteq> 0"
      using kmalloc_small_none [OF Suc.prems(1), of sz] Suc.prems(2) by auto
    show ?case
    proof
      assume "kmalloc_rec (Suc n) sz s = Inr (p, s')"
      then obtain s1 s2 where st: "heap_map_more (heap_mapped s + 4096) s = Inr s1" "add_area s1 = Inr s2"
        "kmalloc_rec n ?r s2 = Inr (p, s')"
        using small none by (auto simp: Let_def)
      obtain v where v: "s1 = s\<lparr>hvm := v, heap_mapped := heap_mapped s + 4096\<rparr>" "pages_ok s1"
        "unat (heap_mapped s1) = unat (heap_mapped s) + 4096"
        using heap_map_one [OF pg st(1)] by blast
      obtain a where a: "heap_inv s2 (bs @ [(a, 4064, True)]) fl sl"
        using add_area_inv [OF Suc.prems(1) v(2,3,1)] st(2) by auto
      have "\<forall>(b, n, f) \<in> set (bs @ [(a, 4064, True)]). f \<longrightarrow> unat n < unat ?r"
        using Suc.prems(2,4) le by auto
      from Suc.IH [OF a _ round16_bound [OF Suc.prems(3)] this] le Suc.prems(2) st(3) show False by simp
    qed
  qed
  then show ?thesis by (simp add: kmalloc_def)
qed

text \<open>
  C39. \<open>kfree\<close> merges a block with its successor in the list even when other memory lies
  between them: with the first block in use, the second free and a live object in the gap,
  freeing the first leaves a free block that contains the live object.
\<close>

theorem kfree_swallows_live:
  assumes "heap_inv s ((b, n, False) # (c, k, True) # bs) fl sl" and "blk_prev (hmem s) b = 0"
    and "(u, l) \<in> set sl" and "unat b + 32 + unat n \<le> u" and "u + l \<le> unat b + 64 + unat n + unat k"
  shows "blk_free (hmem (kfree (b + 32) s)) b = 1 \<and>
    within (u, l) (unat b + 32, unat (blk_size (hmem (kfree (b + 32) s)) b))"
proof -
  let ?bs = "(b, n, False) # (c, k, True) # bs"
  have ok: "blocks_ok 0x40000000 (heap_top s) ?bs" by (rule heap_inv_blocks [OF assms(1)])
  have ch: "chain (hmem s) b ?bs" using assms(1) by (simp add: heap_inv_def)
  have rel: "hdr_rel b c" "hdr_rel c b" "hdr_ok b" "hdr_ok c"
    using blocks_hdr_rel [OF ok, of b n False c k True] by (auto simp: hdr_rel_def intro: apart_sym)
  have bc: "b \<noteq> c" "b + 32 \<noteq> 0" "c \<noteq> 0"
  proof -
    have "apart (blk_span (b, n, False)) (blk_span (c, k, True))"
      using ok by (auto simp: blocks_ok_def spans_ok_Cons)
    then show "b \<noteq> c" by (auto simp: apart_def)
    show "b + 32 \<noteq> 0" using hdr_offsets(4) [OF rel(3)] by (metis add_is_0 unat_0 zero_neq_numeral)
    show "c \<noteq> 0" using ch by simp
  qed
  let ?m = "set_free b 1 (hmem s)"
  have f: "blk_next ?m b = c" "blk_free ?m c \<noteq> 0" "blk_size ?m b = n" "blk_size ?m c = k" "blk_prev ?m b = 0"
    using ch rel bc assms(2) by (simp_all add: hdr_simps)
  let ?nx = "blk_next (hmem s) c"
  have nx: "?nx = 0 \<or> (\<exists>z \<in> set bs. fst z = ?nx)" using ch by (cases bs) auto
  have nxr: "?nx \<noteq> 0 \<Longrightarrow> hdr_rel ?nx b \<and> ?nx \<noteq> b"
  proof -
    assume "?nx \<noteq> 0"
    then obtain k' g' where z: "(?nx, k', g') \<in> set bs" using nx by force
    have "apart (blk_span (b, n, False)) (blk_span (?nx, k', g'))"
      using ok z by (auto simp: blocks_ok_def spans_ok_Cons simp del: blk_span.simps)
    then show ?thesis using blocks_hdr_rel [OF ok, of ?nx k' g' b n False] z by (auto simp: apart_def)
  qed
  have merged: "blk_free (merge_next b ?m) b = 1" "blk_size (merge_next b ?m) b = n + (32 + k)" "blk_prev (merge_next b ?m) b = 0"
    using f rel bc nxr by (auto simp: merge_next_def Let_def hdr_simps HEADER_SIZE_def)
  have km: "hmem (kfree (b + 32) s) = merge_next b ?m"
    using bc(2) merged(3) by (simp add: kfree_def HEADER_SIZE_def merge_adjacent_def merge_prev_def)
  have "unat b + 32 + unat n \<le> heap_top s" "unat c + 32 + unat k \<le> heap_top s" "heap_top s < 2 ^ 63"
    using blocks_ok_member [OF ok, of b n False] blocks_ok_member [OF ok, of c k True] by auto
  then have "unat (n + (32 + k)) = unat n + 32 + unat k"
    using unat_plus [of n "32 + unat k"] by simp
  then show ?thesis unfolding km using merged assms(4,5) by (simp add: within_def)
qed

text \<open>
  On an initialised page table with four free pages in the first 2 MiB, \<open>heap_init\<close>
  succeeds and leaves one page mapped that is a single free block: nothing is in use.
\<close>

theorem heap_init_empty:
  assumes "vm_ok (hvm s)" and "4 \<le> card (low_free (hvm s))"
  shows "\<exists>s'. heap_init s = Inr s' \<and> heap_inv s' [(0x40000000, 4064, True)] (\<lambda>_. []) [] \<and>
    heap_total s' = 4096 \<and> heap_used s' = Inr 0"
proof -
  let ?s = "s\<lparr>heap_virt_base := paging_heap_base, heap_mapped := 0\<rparr>"
  have pm: "pmm_ok (vm_pmm (hvm s))" by (rule vm_ok_parts(1) [OF assms(1)])
  have pg: "pages_ok ?s"
    using pm pmm_avail_card [OF pm] by (simp add: pages_ok_def paging_heap_base_def)
  obtain ph p r v where st: "pmm_alloc_page (vm_pmm (hvm ?s)) = Inr (ph, p)" "ph \<noteq> 0"
    "paging_map_page (heap_virt_base ?s + heap_mapped ?s) ph 0 ((hvm ?s)\<lparr>vm_pmm := p\<rparr>) = Inr (r, v)"
    using heap_page_ok [OF _ pg] assms by auto
  have fuel: "MAP_FUEL = Suc (Suc MAX_PHYS_PAGES)" by (simp add: MAP_FUEL_def)
  have "heap_map_more 4096 ?s = Inr (?s\<lparr>hvm := v, heap_mapped := 4096\<rparr>)"
    using st by (simp add: heap_map_more_def fuel)
  then obtain s' where s': "heap_init s = Inr s'" "heap_total s' = 4096"
    by (simp add: heap_init_def Let_def heap_total_def slab_init_def)
  have inv: "heap_inv s' [(0x40000000, 4064, True)] (\<lambda>_. []) []" by (rule heap_init_inv [OF pm s'(1)])
  have "BLOCK_FUEL = Suc (Suc (2 ^ 24 - 1))" by (simp add: BLOCK_FUEL_def)
  then obtain n where bf: "BLOCK_FUEL = Suc (Suc n)" by blast
  have "heap_used s' = Inr 0"
    using inv unfolding heap_used_def bf by (simp add: heap_inv_def)
  with s' inv show ?thesis by blast
qed

section \<open>A concrete heap\<close>

text \<open>Eight free pages from 1 MiB on; a used block, a page of slab objects and a free block.\<close>

definition pmm_eight :: pmm where
  "pmm_eight = \<lparr>page_bitmap = (replicate BITMAP_SIZE 0xFF)[32 := 0], total_pages = 8, free_pages = 8,
     mem_start = 0x100000, mem_end = 0x108000\<rparr>"

definition vm_eight :: vm where
  "vm_eight = \<lparr>vm_pmm = pmm_eight, cells = (\<lambda>_. 0), boot_pml4 = 0x300000, boot_pt = 0x301000,
     boot_pd = 0x302000, boot_pdpt = 0x303000, pml4_root = 0, cr3 = 0, cr4 = 0\<rparr>"

definition heap_demo :: heap where
  "heap_demo = slab_init \<lparr>hvm = paging_init vm_eight,
     hmem = set_next 0x40002000 0 (set_free 0x40002000 1 (set_size 0x40002000 4064 (set_prev 0x40002000 0x40000000
       (set_prev 0x40000000 0 (set_next 0x40000000 0x40002000 (set_free 0x40000000 0 (set_size 0x40000000 4064 (\<lambda>_. 0)))))))),
     heap_head = 0x40000000, heap_mapped = 0x3000, heap_virt_base = 0x40000000, slab_caches = [], slab_list = None\<rparr>"

lemma pmm_eight_ok: "pmm_ok pmm_eight"
  by (simp add: pmm_ok_def bitmap_ok_def pmm_eight_def MAX_PHYS_PAGES_def)

lemma pmm_eight_avail:
  "pmm_avail pmm_eight = {0x100000, 0x101000, 0x102000, 0x103000, 0x104000, 0x105000, 0x106000, 0x107000}"
proof -
  have q: "256 \<le> q \<and> q < 0x108 \<longleftrightarrow> q \<in> {0x100, 0x101, 0x102, 0x103, 0x104, 0x105, 0x106, 0x107}" for q :: u64
  proof
    assume "256 \<le> q \<and> q < 0x108"
    then have "unat q \<in> {256, 257, 258, 259, 260, 261, 262, 263}" by (auto simp: word_le_nat_alt word_less_nat_alt)
    moreover have "q = word_of_nat (unat q)" by simp
    ultimately show "q \<in> {0x100, 0x101, 0x102, 0x103, 0x104, 0x105, 0x106, 0x107}"
      by (elim insertE) (simp_all only: of_nat_numeral, simp_all)
  qed auto
  have "page_used pmm_eight q = False" if "q \<in> {0x100, 0x101, 0x102, 0x103, 0x104, 0x105, 0x106, 0x107}" for q
    using that by (auto simp: page_used_def pmm_eight_def BITMAP_SIZE_def MAX_PHYS_PAGES_def)
  then have "{q. 256 \<le> q \<and> q < mem_end pmm_eight div 4096 \<and> \<not> page_used pmm_eight q} =
      {0x100, 0x101, 0x102, 0x103, 0x104, 0x105, 0x106, 0x107}"
    using q by (auto simp: pmm_eight_def)
  then show ?thesis unfolding pmm_avail_eq [OF pmm_eight_ok] by simp
qed

lemma vm_eight_ok: "vm_ok (paging_init vm_eight)" and vm_eight_low: "8 \<le> card (low_free (paging_init vm_eight))"
proof -
  show "vm_ok (paging_init vm_eight)"
    by (rule paging_init_ok)
      (auto simp: vm_loaded_def vm_eight_def boot_tables_def pmm_eight_avail pmm_eight_ok aligned_def entry_def)
  have "low_free (paging_init vm_eight) = pmm_avail pmm_eight"
    by (auto simp: low_free_def paging_init_regs vm_eight_def pmm_eight_avail)
  then show "8 \<le> card (low_free (paging_init vm_eight))" by (simp add: pmm_eight_avail)
qed

lemma heap_demo_rel: "hdr_ok 0x40000000" "hdr_ok 0x40002000" "hdr_rel 0x40000000 0x40002000" "hdr_rel 0x40002000 0x40000000"
  by (simp_all add: hdr_ok_def hdr_rel_def hdr_def apart_def)

lemma heap_demo_inv:
  "heap_inv heap_demo [(0x40000000, 4064, False), (0x40002000, 4064, True)] (\<lambda>_. []) [(0x40001000, 32)]"
proof -
  have "pages_ok heap_demo"
    by (simp add: pages_ok_def heap_demo_def slab_init_def HEAP_VIRT_BASE_def paging_init_regs vm_eight_def
        pmm_eight_ok pmm_eight_avail MAX_PHYS_PAGES_def)
  moreover have "caches_ok heap_demo (\<lambda>_. [])"
    by (auto simp: caches_ok_def heap_demo_def slab_init_def SLAB_MAX_ORDER_def)
      (simp add: slab_cache_init_def)+
  moreover have "chain (hmem heap_demo) (heap_head heap_demo) [(0x40000000, 4064, False), (0x40002000, 4064, True)]"
    using heap_demo_rel by (simp add: heap_demo_def slab_init_def hdr_simps)
  moreover have "slab_spans (\<lambda>_. []) = []" by (simp add: slab_spans_def)
  moreover have "heap_top heap_demo = 0x40003000" by (simp add: heap_top_def heap_demo_def slab_init_def)
  ultimately show ?thesis by (simp add: heap_inv_def heap_spans_def spans_ok_Cons apart_def)
qed

lemma heap_demo_vm: "vm_ok (hvm heap_demo)" "4 \<le> card (low_free (hvm heap_demo))"
  using vm_eight_ok vm_eight_low by (simp_all add: heap_demo_def slab_init_def)

theorem kmalloc_fresh_witness:
  "\<exists>p s'. kmalloc 100 heap_demo = Inr (p, s') \<and> p \<noteq> 0 \<and>
    fresh_alloc 100 heap_demo [(0x40000000, 4064, False), (0x40002000, 4064, True)] [(0x40001000, 32)] p s'"
  by (rule kmalloc_fresh [OF heap_demo_inv heap_demo_vm]) simp_all

theorem kmalloc_objects_disjoint_witness:
  "\<exists>ps s'. alloc_seq kmalloc [100] heap_demo = Inr (ps, s') \<and> ps ! 0 \<noteq> 0 \<and> apart (unat (ps ! 0), 100) (0x40001000, 32)"
proof -
  obtain p s' where p: "kmalloc 100 heap_demo = Inr (p, s')" "p \<noteq> 0"
    using kmalloc_returns [OF heap_demo_inv heap_demo_vm, of 100] by auto
  then have r: "alloc_seq kmalloc [100] heap_demo = Inr ([p], s')" by simp
  from kmalloc_objects_disjoint [OF heap_demo_inv _ r] p(2)
  have "apart (unat p, 100) (0x40001000, 32)" by (simp add: heap_live_def)
  with r p(2) show ?thesis by auto
qed

theorem kmalloc_large_never_returns_witness: "\<forall>p s'. kmalloc 8000 heap_demo \<noteq> Inr (p, s')"
  using kmalloc_large_never_returns [OF heap_demo_inv, of 8000] by simp

theorem kfree_swallows_live_witness:
  "blk_free (hmem (kfree (0x40000000 + 32) heap_demo)) 0x40000000 = 1 \<and>
   within (0x40001000, 32) (0x40000020, unat (blk_size (hmem (kfree (0x40000000 + 32) heap_demo)) 0x40000000))"
proof -
  have "blk_prev (hmem heap_demo) 0x40000000 = 0"
    using heap_demo_rel by (simp add: heap_demo_def slab_init_def hdr_simps)
  from kfree_swallows_live [OF heap_demo_inv this, of "0x40001000" 32] show ?thesis by simp
qed

theorem heap_init_empty_witness:
  "\<exists>s'. heap_init heap_demo = Inr s' \<and> heap_used s' = Inr 0"
  using heap_init_empty [OF heap_demo_vm] by blast

end
