(* ===== verification/Mira_Lib.thy ===== *)
theory Mira_Lib
  imports Mira_Prelude
begin

text \<open>
  The freestanding C library, \<open>lib/common/mem.c\<close> and \<open>lib/common/string.c\<close>, with the
  string helpers of \<open>lib/common/ds.c\<close>, on a byte-addressed memory. A string is an address
  whose bytes are read up to the first zero byte; a search for a terminator that is not
  there does not end, which is the value \<open>None\<close>.
\<close>

section \<open>Memory blocks\<close>

function loop_up :: "u64 \<Rightarrow> u64 \<Rightarrow> (u64 \<Rightarrow> 's \<Rightarrow> 's) \<Rightarrow> 's \<Rightarrow> 's" where
  "loop_up i e f s = (if i < e then loop_up (i + 1) e f (f i s) else s)"
  by pat_completeness auto
termination
  by (relation "measure (\<lambda>(i, e, f, s). unat e - unat i)") (auto simp: unat_plus_one word_less_nat_alt)

function loop_down :: "u64 \<Rightarrow> (u64 \<Rightarrow> 's \<Rightarrow> 's) \<Rightarrow> 's \<Rightarrow> 's" where
  "loop_down i f s = (if i > 0 then loop_down (i - 1) f (f i s) else s)"
  by pat_completeness auto
termination
  by (relation "measure (\<lambda>(i, f, s). unat i)") (auto simp: unat_sub_if' word_less_nat_alt unat_eq_0)

declare loop_up.simps [simp del] loop_down.simps [simp del]

definition memset :: "addr \<Rightarrow> u8 \<Rightarrow> u64 \<Rightarrow> mem \<Rightarrow> mem" where
  "memset dest val cnt = loop_up 0 cnt (\<lambda>i m. m(dest + i := val))"

definition memcpy :: "addr \<Rightarrow> addr \<Rightarrow> u64 \<Rightarrow> mem \<Rightarrow> mem" where
  "memcpy dest src cnt = loop_up 0 cnt (\<lambda>i m. m(dest + i := m (src + i)))"

definition memmove :: "addr \<Rightarrow> addr \<Rightarrow> u64 \<Rightarrow> mem \<Rightarrow> mem" where
  "memmove dest src cnt m =
     (if dest < src then loop_up 0 cnt (\<lambda>i m. m(dest + i := m (src + i))) m
      else if dest > src then loop_down cnt (\<lambda>i m. m(dest + (i - 1) := m (src + (i - 1)))) m
      else m)"

function memcmp_from :: "u64 \<Rightarrow> addr \<Rightarrow> addr \<Rightarrow> u64 \<Rightarrow> mem \<Rightarrow> int" where
  "memcmp_from i a b cnt m =
     (if i < cnt
      then if m (a + i) \<noteq> m (b + i) then uint (m (a + i)) - uint (m (b + i))
           else memcmp_from (i + 1) a b cnt m
      else 0)"
  by pat_completeness auto
termination
  by (relation "measure (\<lambda>(i, a, b, cnt, m). unat cnt - unat i)") (auto simp: unat_plus_one word_less_nat_alt)

declare memcmp_from.simps [simp del]

definition memcmp :: "addr \<Rightarrow> addr \<Rightarrow> u64 \<Rightarrow> mem \<Rightarrow> int" where
  "memcmp = memcmp_from 0"

section \<open>Strings\<close>

text \<open>\<open>char\<close> is signed: differences of characters are differences of signed bytes.\<close>

partial_function (option) strchr :: "addr \<Rightarrow> u8 \<Rightarrow> mem \<Rightarrow> addr option" where
  "strchr str c m =
     (if m str \<noteq> 0 then (if m str = c then Some str else strchr (str + 1) c m)
      else if c = 0 then Some str else Some 0)"

partial_function (option) strstr_match :: "addr \<Rightarrow> addr \<Rightarrow> mem \<Rightarrow> addr option" where
  "strstr_match h n m =
     (if m h \<noteq> 0 \<and> m n \<noteq> 0 \<and> m h = m n then strstr_match (h + 1) (n + 1) m else Some n)"

partial_function (option) strstr_from :: "addr \<Rightarrow> addr \<Rightarrow> mem \<Rightarrow> addr option" where
  "strstr_from haystack needle m =
     (if m haystack \<noteq> 0
      then case strstr_match haystack needle m of
             None \<Rightarrow> None
           | Some n \<Rightarrow> if m n = 0 then Some haystack else strstr_from (haystack + 1) needle m
      else Some 0)"

definition strstr :: "addr \<Rightarrow> addr \<Rightarrow> mem \<Rightarrow> addr option" where
  "strstr haystack needle m = (if m needle = 0 then Some haystack else strstr_from haystack needle m)"

partial_function (option) strlen_from :: "addr \<Rightarrow> u64 \<Rightarrow> mem \<Rightarrow> u64 option" where
  "strlen_from str len m = (if m (str + len) \<noteq> 0 then strlen_from str (len + 1) m else Some len)"

definition strlen :: "addr \<Rightarrow> mem \<Rightarrow> u64 option" where "strlen str m = strlen_from str 0 m"

partial_function (option) strcmp :: "addr \<Rightarrow> addr \<Rightarrow> mem \<Rightarrow> int option" where
  "strcmp a b m =
     (if m a \<noteq> 0 \<and> m b \<noteq> 0
      then if m a \<noteq> m b then Some (sint (m a) - sint (m b)) else strcmp (a + 1) (b + 1) m
      else Some (sint (m a) - sint (m b)))"

function strncmp_from :: "u64 \<Rightarrow> addr \<Rightarrow> addr \<Rightarrow> u64 \<Rightarrow> mem \<Rightarrow> int" where
  "strncmp_from i a b n m =
     (if i < n
      then if m (a + i) \<noteq> m (b + i) then sint (m (a + i)) - sint (m (b + i))
           else if m (a + i) = 0 then 0
           else strncmp_from (i + 1) a b n m
      else 0)"
  by pat_completeness auto
termination
  by (relation "measure (\<lambda>(i, a, b, n, m). unat n - unat i)") (auto simp: unat_plus_one word_less_nat_alt)

declare strncmp_from.simps [simp del]

definition strncmp :: "addr \<Rightarrow> addr \<Rightarrow> u64 \<Rightarrow> mem \<Rightarrow> int" where "strncmp = strncmp_from 0"

partial_function (option) strcpy :: "addr \<Rightarrow> addr \<Rightarrow> mem \<Rightarrow> mem option" where
  "strcpy dst src m =
     (if m src \<noteq> 0 then strcpy (dst + 1) (src + 1) (m(dst := m src)) else Some (m(dst := 0)))"

function strncpy_copy :: "u64 \<Rightarrow> addr \<Rightarrow> addr \<Rightarrow> u64 \<Rightarrow> mem \<Rightarrow> u64 \<times> mem" where
  "strncpy_copy i dst src n m =
     (if i < n \<and> m (src + i) \<noteq> 0 then strncpy_copy (i + 1) dst src n (m(dst + i := m (src + i))) else (i, m))"
  by pat_completeness auto
termination
  by (relation "measure (\<lambda>(i, dst, src, n, m). unat n - unat i)") (auto simp: unat_plus_one word_less_nat_alt)

declare strncpy_copy.simps [simp del]

definition strncpy :: "addr \<Rightarrow> addr \<Rightarrow> u64 \<Rightarrow> mem \<Rightarrow> mem" where
  "strncpy dst src n m =
     (case strncpy_copy 0 dst src n m of (i, m1) \<Rightarrow> loop_up i n (\<lambda>j m. m(dst + j := 0)) m1)"

partial_function (option) find_nul :: "addr \<Rightarrow> mem \<Rightarrow> addr option" where
  "find_nul p m = (if m p \<noteq> 0 then find_nul (p + 1) m else Some p)"

definition strcat :: "addr \<Rightarrow> addr \<Rightarrow> mem \<Rightarrow> mem option" where
  "strcat dst src m = (case find_nul dst m of None \<Rightarrow> None | Some p \<Rightarrow> strcpy p src m)"

function strncat_copy :: "u64 \<Rightarrow> addr \<Rightarrow> addr \<Rightarrow> u64 \<Rightarrow> mem \<Rightarrow> addr \<times> mem" where
  "strncat_copy i dst src n m =
     (if i < n \<and> m (src + i) \<noteq> 0 then strncat_copy (i + 1) (dst + 1) src n (m(dst := m (src + i))) else (dst, m))"
  by pat_completeness auto
termination
  by (relation "measure (\<lambda>(i, dst, src, n, m). unat n - unat i)") (auto simp: unat_plus_one word_less_nat_alt)

declare strncat_copy.simps [simp del]

definition strncat :: "addr \<Rightarrow> addr \<Rightarrow> u64 \<Rightarrow> mem \<Rightarrow> mem option" where
  "strncat dst src n m =
     (case find_nul dst m of
        None \<Rightarrow> None
      | Some p \<Rightarrow> (case strncat_copy 0 p src n m of (q, m1) \<Rightarrow> Some (m1(q := 0))))"

text \<open>The copies of these routines in \<open>ds.c\<close>.\<close>

definition ds_strlen :: "addr \<Rightarrow> mem \<Rightarrow> u64 option" where "ds_strlen = strlen"
definition ds_strcmp :: "addr \<Rightarrow> addr \<Rightarrow> mem \<Rightarrow> int option" where "ds_strcmp = strcmp"
definition ds_strcpy :: "addr \<Rightarrow> addr \<Rightarrow> mem \<Rightarrow> mem option" where "ds_strcpy = strcpy"
definition ds_strcat :: "addr \<Rightarrow> addr \<Rightarrow> mem \<Rightarrow> mem option" where "ds_strcat = strcat"

section \<open>Copying memory\<close>

lemma loop_up_done [simp]: "e \<le> i \<Longrightarrow> loop_up i e f s = s"
  by (subst loop_up.simps) auto

lemma loop_up_step: "i < e \<Longrightarrow> loop_up i e f s = loop_up (i + 1) e f (f i s)"
  by (subst loop_up.simps) simp

lemma loop_up_inv:
  assumes "P i s" "i \<le> e" "\<And>j s. P j s \<Longrightarrow> i \<le> j \<Longrightarrow> j < e \<Longrightarrow> P (j + 1) (f j s)"
  shows "P e (loop_up i e f s)"
  using assms
proof (induction i e f s rule: loop_up.induct)
  case (1 i e f s)
  show ?case
  proof (cases "i < e")
    case True
    have le: "i \<le> i + 1" "i + 1 \<le> e"
      using True unat_plus_one [OF True] by (simp_all add: word_le_nat_alt word_less_nat_alt)
    have "P (i + 1) (f i s)" using 1(2,4) True by simp
    then have "P e (loop_up (i + 1) e f (f i s))"
      using "1.IH" [OF True] le 1(4) by (meson order_trans)
    with True show ?thesis by (simp add: loop_up_step)
  next
    case False
    with 1(2,3) show ?thesis by simp
  qed
qed

lemma loop_down_inv:
  assumes "P i s" "\<And>j s. P j s \<Longrightarrow> 0 < j \<Longrightarrow> j \<le> i \<Longrightarrow> P (j - 1) (f j s)"
  shows "P 0 (loop_down i f s)"
  using assms
proof (induction i f s rule: loop_down.induct)
  case (1 i f s)
  show ?case
  proof (cases "i > 0")
    case True
    have le: "i - 1 \<le> i" using True by (simp add: word_le_nat_alt unat_sub_if' word_less_nat_alt)
    have "P (i - 1) (f i s)" using 1(2,3) True by simp
    then have "P 0 (loop_down (i - 1) f (f i s))"
      using "1.IH" [OF True] le 1(3) by (meson order_trans)
    with True show ?thesis by (subst loop_down.simps) simp
  next
    case False
    then have "i = 0" by (metis word_gt_0)
    with 1(2) show ?thesis by (subst loop_down.simps) simp
  qed
qed

lemma offset_unat: "unat (a :: u64) + unat n \<le> 2 ^ 64 \<Longrightarrow> i < n \<Longrightarrow> unat (a + i) = unat a + unat i"
  by (simp add: unat_word_ariths word_less_nat_alt)

text \<open>
  C34. \<open>memmove\<close> copies \<open>cnt\<close> bytes as they were before the call, whether or not the two
  areas overlap, and changes nothing else.
\<close>

theorem memmove_correct:
  assumes "unat dest + unat cnt \<le> 2 ^ 64" and "unat src + unat cnt \<le> 2 ^ 64"
  shows "(\<forall>i < cnt. memmove dest src cnt m (dest + i) = m (src + i)) \<and>
    (\<forall>x. x \<notin> region dest (unat cnt) \<longrightarrow> memmove dest src cnt m x = m x)"
proof -
  note od = offset_unat [OF assms(1)] and os = offset_unat [OF assms(2)]
  have frame: "(\<forall>x. x \<notin> region dest (unat cnt) \<longrightarrow> (m'(dest + i := v)) x = m x)"
    if "\<forall>x. x \<notin> region dest (unat cnt) \<longrightarrow> m' x = m x" "i < cnt" for m' i v
    using that od [OF that(2)] assms(1) by (auto simp: region_nat word_less_nat_alt)
  consider "dest < src" | "dest > src" | "dest = src" by (meson linorder_less_linear)
  then show ?thesis
  proof cases
    case 1
    define P where "P k m' \<longleftrightarrow> (\<forall>i < cnt. (i < k \<longrightarrow> m' (dest + i) = m (src + i)) \<and> (k \<le> i \<longrightarrow> m' (src + i) = m (src + i))) \<and>
      (\<forall>x. x \<notin> region dest (unat cnt) \<longrightarrow> m' x = m x)" for k m'
    have "P cnt (loop_up 0 cnt (\<lambda>i m. m(dest + i := m (src + i))) m)"
    proof (rule loop_up_inv [of P])
      show "P 0 m" by (simp add: P_def)
      fix j m'
      assume P: "P j m'" and j: "j < cnt"
      have uj: "unat (j + 1) = Suc (unat j)" by (rule unat_plus_one [OF j])
      have "(m'(dest + j := m' (src + j))) (dest + i) = m (src + i)" if "i < cnt" "i < j + 1" for i
      proof (cases "i = j")
        case False
        then have "i < j" using that(2) uj by (simp add: word_less_nat_alt word_unat_eq_iff)
        with P that j False show ?thesis by (simp add: P_def)
      qed (use P j in \<open>simp add: P_def\<close>)
      moreover have "(m'(dest + j := m' (src + j))) (src + i) = m (src + i)" if "i < cnt" "j + 1 \<le> i" for i
      proof -
        have "src + i \<noteq> dest + j"
          using 1 that uj od [OF j] os [OF that(1)] by (auto simp: word_le_nat_alt word_less_nat_alt word_unat_eq_iff)
        moreover have "j \<le> i" using that(2) uj by (simp add: word_le_nat_alt)
        ultimately show ?thesis using P that(1) by (simp add: P_def)
      qed
      ultimately show "P (j + 1) (m'(dest + j := m' (src + j)))"
        using frame [of m' j "m' (src + j)"] P j unfolding P_def by blast
    qed simp
    with 1 show ?thesis by (simp add: memmove_def P_def)
  next
    case 2
    define P where "P k m' \<longleftrightarrow> (\<forall>i < cnt. (k \<le> i \<longrightarrow> m' (dest + i) = m (src + i)) \<and> (i < k \<longrightarrow> m' (src + i) = m (src + i))) \<and>
      (\<forall>x. x \<notin> region dest (unat cnt) \<longrightarrow> m' x = m x)" for k m'
    have "P 0 (loop_down cnt (\<lambda>i m. m(dest + (i - 1) := m (src + (i - 1)))) m)"
    proof (rule loop_down_inv [of P])
      show "P cnt m" by (auto simp: P_def)
      fix j m'
      assume P: "P j m'" and j: "0 < j" "j \<le> cnt"
      have uj: "unat (j - 1) = unat j - 1" "0 < unat j"
        using j(1) by (auto simp: unat_sub_if' word_less_nat_alt)
      have jc: "j - 1 < cnt" using uj j(2) by (simp add: word_less_nat_alt word_le_nat_alt)
      have jj: "j - 1 < j" using uj by (simp add: word_less_nat_alt)
      have "(m'(dest + (j - 1) := m' (src + (j - 1)))) (dest + i) = m (src + i)" if "i < cnt" "j - 1 \<le> i" for i
      proof (cases "i = j - 1")
        case False
        then have "j \<le> i" using that(2) uj by (auto simp: word_le_nat_alt word_unat_eq_iff)
        with P that False show ?thesis by (simp add: P_def)
      qed (use P jc jj in \<open>simp add: P_def\<close>)
      moreover have "(m'(dest + (j - 1) := m' (src + (j - 1)))) (src + i) = m (src + i)" if "i < cnt" "i < j - 1" for i
      proof -
        have "src + i \<noteq> dest + (j - 1)"
          using 2 that od [OF jc] os [OF that(1)] by (auto simp: word_le_nat_alt word_less_nat_alt word_unat_eq_iff)
        moreover have "i < j" using that(2) jj by simp
        ultimately show ?thesis using P that(1) by (simp add: P_def)
      qed
      ultimately show "P (j - 1) (m'(dest + (j - 1) := m' (src + (j - 1))))"
        using frame [of m' "j - 1" "m' (src + (j - 1))"] P jc unfolding P_def by blast
    qed
    with 2 show ?thesis by (auto simp: memmove_def P_def)
  next
    case 3
    then show ?thesis by (simp add: memmove_def)
  qed
qed

theorem memmove_correct_witness:
  "memmove 0x1001 0x1000 3 (mem_of 0x1000 [1, 2, 3, 4]) 0x1003 = 3 \<and>
   memmove 0x1001 0x1000 3 (mem_of 0x1000 [1, 2, 3, 4]) 0x1000 = 1"
proof -
  let ?m = "mem_of 0x1000 [1, 2, 3, 4]"
  have a: "\<forall>i<3. memmove 0x1001 0x1000 3 ?m (0x1001 + i) = ?m (0x1000 + i)"
    and b: "\<forall>x. x \<notin> region 0x1001 3 \<longrightarrow> memmove 0x1001 0x1000 3 ?m x = ?m x"
    using memmove_correct [of "0x1001" 3 "0x1000" ?m] by simp_all
  have "(0x1000 :: u64) \<notin> region 0x1001 3" by (simp add: region_nat)
  with b have "memmove 0x1001 0x1000 3 ?m 0x1000 = ?m 0x1000" by blast
  moreover have "memmove 0x1001 0x1000 3 ?m 0x1003 = ?m 0x1002" using a [rule_format, of 2] by simp
  ultimately show ?thesis by (simp add: mem_of_def)
qed

section \<open>Strings as lists\<close>

fun cstr :: "mem \<Rightarrow> addr \<Rightarrow> u8 list \<Rightarrow> bool" where
  "cstr m a [] \<longleftrightarrow> m a = 0"
| "cstr m a (x # xs) \<longleftrightarrow> m a = x \<and> x \<noteq> 0 \<and> cstr m (a + 1) xs"

lemma cstr_cong: "(\<And>x. x \<in> region a (Suc (length xs)) \<Longrightarrow> m x = m' x) \<Longrightarrow> cstr m a xs = cstr m' a xs"
proof (induction xs arbitrary: a)
  case Nil
  then show ?case by (simp add: region_Suc)
next
  case (Cons x xs)
  have "cstr m (a + 1) xs = cstr m' (a + 1) xs"
    by (rule Cons.IH, rule Cons.prems) (simp add: region_Suc [of a "Suc (length xs)"])
  moreover have "m a = m' a" by (rule Cons.prems) (simp add: region_Suc [of a "Suc (length xs)"])
  ultimately show ?case by simp
qed

lemma cstr_nonzero: "cstr m a xs \<Longrightarrow> 0 \<notin> set xs"
  by (induction xs arbitrary: a) auto

lemma strlen_from_cstr: "cstr m (str + n) xs \<Longrightarrow> strlen_from str n m = Some (n + word_of_nat (length xs))"
proof (induction xs arbitrary: n)
  case Nil
  then show ?case by (subst strlen_from.simps) simp
next
  case (Cons x xs)
  then show ?case by (subst strlen_from.simps) (simp add: add.assoc)
qed

lemma strcmp_cstr:
  assumes "cstr m a xs" "cstr m b ys"
  shows "\<exists>d. strcmp a b m = Some d \<and> (d = 0 \<longleftrightarrow> xs = ys)"
  using assms
proof (induction xs arbitrary: a b ys)
  case Nil
  then show ?case by (cases ys) (subst strcmp.simps, auto simp: signed_eq_0_iff)+
next
  case (Cons x xs)
  show ?case
  proof (cases ys)
    case Nil
    with Cons.prems show ?thesis by (subst strcmp.simps) (auto simp: signed_eq_0_iff)
  next
    case (Cons y ys')
    then show ?thesis
      using Cons.prems Cons.IH [of "a + 1" "b + 1" ys']
      by (cases "x = y") (subst strcmp.simps, auto dest: signed_word_eqI)+
  qed
qed

lemma strcpy_cstr:
  assumes "cstr m src xs" "Suc (length xs) \<le> 2 ^ 64" "region dst (Suc (length xs)) \<inter> region src (Suc (length xs)) = {}"
  shows "\<exists>m'. strcpy dst src m = Some m' \<and> cstr m' dst xs \<and> (\<forall>x. x \<notin> region dst (Suc (length xs)) \<longrightarrow> m' x = m x)"
  using assms
proof (induction xs arbitrary: dst src m)
  case Nil
  then show ?case by (subst strcpy.simps) (auto simp: region_Suc)
next
  case (Cons x xs)
  let ?m = "m(dst := m src)"
  have disj: "region (dst + 1) (Suc (length xs)) \<inter> region (src + 1) (Suc (length xs)) = {}"
    "dst \<notin> region (src + 1) (Suc (length xs))"
    using Cons.prems(3) by (auto simp: region_Suc [of _ "Suc (length xs)"])
  have "cstr ?m (src + 1) xs = cstr m (src + 1) xs" by (rule cstr_cong) (use disj(2) in auto)
  then have c: "cstr ?m (src + 1) xs" using Cons.prems(1) by simp
  have "Suc (length xs) \<le> 2 ^ 64" using Cons.prems(2) by simp
  from Cons.IH [OF c this disj(1)] obtain m' where m': "strcpy (dst + 1) (src + 1) ?m = Some m'" "cstr m' (dst + 1) xs"
    "\<forall>x. x \<notin> region (dst + 1) (Suc (length xs)) \<longrightarrow> m' x = ?m x" by blast
  have "dst \<notin> region (dst + 1) (Suc (length xs))"
    using Cons.prems(2) by (auto simp: in_region_iff unsigned_minus_1_eq_mask mask_eq_exp_minus_1)
  with m'(3) have "m' dst = x" using Cons.prems(1) by simp
  with m' Cons.prems(1) show ?case
    by (subst strcpy.simps) (auto simp: region_Suc [of dst "Suc (length xs)"])
qed

lemma find_nul_cstr: "cstr m a xs \<Longrightarrow> find_nul a m = Some (a + word_of_nat (length xs))"
proof (induction xs arbitrary: a)
  case Nil
  then show ?case by (subst find_nul.simps) simp
next
  case (Cons x xs)
  then show ?case by (subst find_nul.simps) (simp add: add.assoc)
qed

lemma cstr_append: "cstr m (a + word_of_nat (length xs)) ys \<Longrightarrow> \<forall>i < length xs. m (a + word_of_nat i) = xs ! i \<Longrightarrow>
    0 \<notin> set xs \<Longrightarrow> cstr m a (xs @ ys)"
proof (induction xs arbitrary: a)
  case Nil
  then show ?case by simp
next
  case (Cons x xs)
  have "\<forall>i < length xs. m (a + 1 + word_of_nat i) = xs ! i"
    using Cons.prems(2) by (auto simp: add.assoc dest: spec [of _ "Suc _"])
  moreover have "m a = x" using Cons.prems(2) [rule_format, of 0] by simp
  ultimately show ?case using Cons by (auto simp: add.assoc)
qed

lemma cstr_nth: "cstr m a xs \<Longrightarrow> i < length xs \<Longrightarrow> m (a + word_of_nat i) = xs ! i"
proof (induction xs arbitrary: a i)
  case (Cons x xs)
  then show ?case by (cases i) (auto simp: add.assoc dest: Cons.IH [of "a + 1"])
qed simp

text \<open>
  \<open>strcat\<close> appends: with the destination's area separate from the source, the result
  is the concatenation of the two strings, the source is kept and nothing outside the
  destination's area changes.
\<close>

theorem strcat_appends:
  assumes "cstr m dst xs" and "cstr m src ys" and "length xs + length ys < 2 ^ 64"
    and "region dst (Suc (length xs + length ys)) \<inter> region src (Suc (length ys)) = {}"
  shows "\<exists>m'. strcat dst src m = Some m' \<and> cstr m' dst (xs @ ys) \<and> cstr m' src ys \<and>
    (\<forall>x. x \<notin> region dst (Suc (length xs + length ys)) \<longrightarrow> m' x = m x)"
proof -
  let ?p = "dst + word_of_nat (length xs)"
  have sub: "region ?p (Suc (length ys)) \<subseteq> region dst (Suc (length xs + length ys))"
    unfolding region_def by (force simp: add.assoc simp flip: of_nat_add)
  have "\<exists>m'. strcpy ?p src m = Some m' \<and> cstr m' ?p ys \<and> (\<forall>x. x \<notin> region ?p (Suc (length ys)) \<longrightarrow> m' x = m x)"
    by (rule strcpy_cstr [OF assms(2)]) (use assms(3,4) sub in auto)
  then obtain m' where m': "strcpy ?p src m = Some m'" "cstr m' ?p ys"
    "\<forall>x. x \<notin> region ?p (Suc (length ys)) \<longrightarrow> m' x = m x" by blast
  have keep: "m' (dst + word_of_nat i) = xs ! i" if "i < length xs" for i
  proof -
    have "dst + word_of_nat i \<notin> region ?p (Suc (length ys))"
    proof
      assume "dst + word_of_nat i \<in> region ?p (Suc (length ys))"
      then obtain j where j: "j < Suc (length ys)" "dst + word_of_nat i = ?p + word_of_nat j"
        by (auto simp: region_def)
      then have "(word_of_nat i :: u64) = word_of_nat (length xs + j)" by (simp add: add.assoc)
      then have "unat (word_of_nat i :: u64) = unat (word_of_nat (length xs + j) :: u64)" by (rule arg_cong)
      then have "i mod 2 ^ 64 = (length xs + j) mod 2 ^ 64" by (simp only: unat_of_nat) simp
      with that j(1) assms(3) show False by simp
    qed
    with m'(3) cstr_nth [OF assms(1) that] show ?thesis by simp
  qed
  have "cstr m' dst (xs @ ys)"
    by (rule cstr_append [OF m'(2)]) (use keep cstr_nonzero [OF assms(1)] in auto)
  moreover have "cstr m' src ys"
  proof -
    have "cstr m' src ys = cstr m src ys" by (rule cstr_cong) (use m'(3) sub assms(4) in blast)
    with assms(2) show ?thesis by simp
  qed
  moreover have "\<forall>x. x \<notin> region dst (Suc (length xs + length ys)) \<longrightarrow> m' x = m x" using m'(3) sub by blast
  moreover have "strcat dst src m = Some m'" using m'(1) by (simp add: strcat_def find_nul_cstr [OF assms(1)])
  ultimately show ?thesis by blast
qed

text \<open>
  On terminated strings \<open>strcmp\<close> returns, and it returns 0 exactly on equal strings;
  \<open>strlen\<close> returns the length.
\<close>

theorem strcmp_equal:
  assumes "cstr m a xs" and "cstr m b ys"
  shows "\<exists>d. strcmp a b m = Some d \<and> (d = 0 \<longleftrightarrow> xs = ys) \<and> strlen a m = Some (word_of_nat (length xs))"
  using strcmp_cstr [OF assms] strlen_from_cstr [of m a 0 xs] assms(1) by (auto simp: strlen_def)

section \<open>Searching\<close>

text \<open>The position of the first occurrence of a list in another.\<close>

fun find_sub :: "u8 list \<Rightarrow> u8 list \<Rightarrow> nat option" where
  "find_sub [] ys = (if ys = [] then Some 0 else None)"
| "find_sub (x # xs) ys =
     (if take (length ys) (x # xs) = ys then Some 0 else map_option Suc (find_sub xs ys))"

lemma strstr_match_cstr:
  assumes "cstr m h xs" "cstr m n ys"
  shows "\<exists>p. strstr_match h n m = Some p \<and> (m p = 0 \<longleftrightarrow> take (length ys) xs = ys)"
  using assms
proof (induction xs arbitrary: h n ys)
  case Nil
  then show ?case by (cases ys) (subst strstr_match.simps, auto)+
next
  case (Cons x xs)
  show ?case
  proof (cases ys)
    case Nil
    with Cons.prems show ?thesis by (subst strstr_match.simps) auto
  next
    case (Cons y ys')
    then show ?thesis
      using Cons.prems Cons.IH [of "h + 1" "n + 1" ys']
      by (cases "x = y") (subst strstr_match.simps, auto)+
  qed
qed

lemma strstr_from_cstr:
  assumes "cstr m h xs" "cstr m n ys" "ys \<noteq> []"
  shows "strstr_from h n m = Some (case find_sub xs ys of None \<Rightarrow> 0 | Some i \<Rightarrow> h + word_of_nat i)"
  using assms(1)
proof (induction xs arbitrary: h)
  case Nil
  then show ?case using assms(3) by (subst strstr_from.simps) simp
next
  case (Cons x xs)
  obtain p where p: "strstr_match h n m = Some p" "m p = 0 \<longleftrightarrow> take (length ys) (x # xs) = ys"
    using strstr_match_cstr [OF Cons.prems assms(2)] by blast
  show ?case
  proof (cases "take (length ys) (x # xs) = ys")
    case True
    with p Cons.prems show ?thesis by (subst strstr_from.simps) simp
  next
    case False
    have "strstr_from h n m = strstr_from (h + 1) n m"
      using False p Cons.prems by (subst strstr_from.simps) simp
    with False Cons show ?thesis by (auto simp: add.assoc split: option.splits)
  qed
qed

text \<open>
  \<open>strstr\<close> returns the first occurrence: the haystack's address plus the position
  where the needle first occurs, or 0 if it does not occur.
\<close>

theorem strstr_first:
  assumes "cstr m h xs" and "cstr m n ys"
  shows "strstr h n m = Some (case find_sub xs ys of None \<Rightarrow> 0 | Some i \<Rightarrow> h + word_of_nat i)"
proof (cases ys)
  case Nil
  then have "find_sub xs ys = Some 0" by (cases xs) auto
  with Nil assms show ?thesis by (simp add: strstr_def)
next
  case (Cons y ys')
  then show ?thesis using strstr_from_cstr [OF assms] assms(2) by (simp add: strstr_def)
qed

section \<open>Concrete strings\<close>

text \<open>\<open>"abc"\<close> at \<open>0x1000\<close> and \<open>"bc"\<close> at \<open>0x2000\<close>.\<close>

definition str_demo :: mem where
  "str_demo = (\<lambda>_. 0)(0x1000 := 97, 0x1001 := 98, 0x1002 := 99, 0x2000 := 98, 0x2001 := 99)"

lemma str_demo_strings: "cstr str_demo 0x1000 [97, 98, 99]" "cstr str_demo 0x2000 [98, 99]"
  by (simp_all add: str_demo_def)

theorem strstr_first_witness: "strstr 0x1000 0x2000 str_demo = Some 0x1001"
  using strstr_first [OF str_demo_strings] by simp

theorem strcmp_equal_witness: "\<exists>d. strcmp 0x1000 0x2000 str_demo = Some d \<and> d \<noteq> 0 \<and> strlen 0x1000 str_demo = Some 3"
  using strcmp_equal [OF str_demo_strings] by auto

theorem strcat_appends_witness:
  "\<exists>m'. strcat 0x1000 0x2000 str_demo = Some m' \<and> cstr m' 0x1000 [97, 98, 99, 98, 99]"
proof -
  have "region 0x1000 (Suc (length [97, 98, 99 :: u8] + length [98, 99 :: u8])) \<inter>
      region 0x2000 (Suc (length [98, 99 :: u8])) = {}"
    by (rule regions_apart) (simp_all add: apart_def)
  from strcat_appends [OF str_demo_strings _ this] show ?thesis by auto
qed

end
