(* ===== verification/Mira_Ds.thy ===== *)
theory Mira_Ds
  imports Mira_Prelude
begin

text \<open>
  The containers of \<open>lib/common/ds.c\<close>: the growing array, the linked list and the hash map. The
  buffers of arrays and maps are lists of bytes, the nodes of a list are cells of a store with
  addresses; freeing a node removes its cell, so that a later access is a fault.
\<close>

section \<open>Memory\<close>

text \<open>
  Outcomes of the coming allocations, the bytes that fresh memory holds, the next unused
  address of a node, and the number of blocks allocated and not freed.
\<close>

record ds_heap =
  dh_allocs :: "bool list"
  dh_bytes :: "nat \<Rightarrow> u8"
  dh_next :: nat
  dh_live :: int

definition ds_kmalloc :: "u64 \<Rightarrow> ds_heap \<Rightarrow> u8 list option \<times> ds_heap" where
  "ds_kmalloc n h =
     (let (ok, al) = kmalloc_outcome n (dh_allocs h)
      in if ok then (Some (map (dh_bytes h) [0..<unat n]), h\<lparr>dh_allocs := al, dh_live := dh_live h + 1\<rparr>)
         else (None, h\<lparr>dh_allocs := al\<rparr>))"

definition ds_kfree :: "ds_heap \<Rightarrow> ds_heap" where "ds_kfree h = h\<lparr>dh_live := dh_live h - 1\<rparr>"

text \<open>The loops that copy \<open>n\<close> bytes from and to an offset of a buffer.\<close>

definition get_bytes :: "nat \<Rightarrow> nat \<Rightarrow> u8 list \<Rightarrow> u8 list res" where
  "get_bytes off n bs = (if n = 0 \<or> off + n \<le> length bs then Inr (take n (drop off bs)) else Inl OutOfBounds)"

definition put_bytes :: "nat \<Rightarrow> u8 list \<Rightarrow> u8 list \<Rightarrow> u8 list res" where
  "put_bytes off v bs =
     (if v = [] then Inr bs
      else if off + length v \<le> length bs then Inr (take off bs @ v @ drop (off + length v) bs) else Inl OutOfBounds)"

section \<open>Array\<close>

record ds_array =
  da_data :: "u8 list"
  da_elem_size :: u64
  da_count :: u64
  da_capacity :: u64

definition ds_array_create :: "u64 \<Rightarrow> u64 \<Rightarrow> ds_heap \<Rightarrow> ds_array option \<times> ds_heap" where
  "ds_array_create elem_size initial_capacity h =
     (let (arr, h1) = ds_kmalloc 32 h
      in case arr of None \<Rightarrow> (None, h1)
         | Some _ \<Rightarrow>
             let (data, h2) = ds_kmalloc (elem_size * initial_capacity) h1
             in case data of None \<Rightarrow> (None, ds_kfree h2)
                | Some d \<Rightarrow> (Some \<lparr>da_data = d, da_elem_size = elem_size, da_count = 0, da_capacity = initial_capacity\<rparr>, h2))"

definition ds_array_destroy :: "ds_array option \<Rightarrow> ds_heap \<Rightarrow> ds_heap" where
  "ds_array_destroy a h = (case a of None \<Rightarrow> h | Some _ \<Rightarrow> ds_kfree (ds_kfree h))"

text \<open>The growth step: \<open>None\<close> when there is no memory, and the element is then dropped.\<close>

definition array_grow :: "ds_array \<Rightarrow> ds_heap \<Rightarrow> (ds_array option \<times> ds_heap) res" where
  "array_grow a h =
     (let new_cap = da_capacity a * 2; (data, h1) = ds_kmalloc (da_elem_size a * new_cap) h
      in case data of None \<Rightarrow> Inr (None, h1)
         | Some d \<Rightarrow> bindR (get_bytes 0 (unat (da_count a * da_elem_size a)) (da_data a)) (\<lambda>old.
             bindR (put_bytes 0 old d) (\<lambda>d1. Inr (Some (a\<lparr>da_data := d1, da_capacity := new_cap\<rparr>), ds_kfree h1))))"

definition array_store :: "u8 list \<Rightarrow> ds_array \<Rightarrow> ds_array res" where
  "array_store elem a =
     bindR (get_bytes 0 (unat (da_elem_size a)) elem) (\<lambda>v.
     bindR (put_bytes (unat (da_count a * da_elem_size a)) v (da_data a)) (\<lambda>d.
       Inr (a\<lparr>da_data := d, da_count := da_count a + 1\<rparr>)))"

definition array_append :: "u8 list \<Rightarrow> ds_array \<Rightarrow> ds_heap \<Rightarrow> (ds_array \<times> ds_heap) res" where
  "array_append elem a h =
     (if da_count a \<ge> da_capacity a
      then bindR (array_grow a h) (\<lambda>(r, h1).
             case r of None \<Rightarrow> Inr (a, h1)
             | Some a1 \<Rightarrow> bindR (array_store elem a1) (\<lambda>a2. Inr (a2, h1)))
      else bindR (array_store elem a) (\<lambda>a1. Inr (a1, h)))"

definition ds_array_push :: "ds_array option \<Rightarrow> u8 list option \<Rightarrow> ds_heap \<Rightarrow> (ds_array option \<times> ds_heap) res" where
  "ds_array_push arr elem h =
     (case (arr, elem) of
        (Some a, Some e) \<Rightarrow> bindR (array_append e a h) (\<lambda>(a1, h1). Inr (Some a1, h1))
      | _ \<Rightarrow> Inr (arr, h))"

text \<open>The result is the offset of the element in the data, \<open>None\<close> for a null pointer.\<close>

definition ds_array_get :: "ds_array option \<Rightarrow> u64 \<Rightarrow> u64 option" where
  "ds_array_get arr index =
     (case arr of None \<Rightarrow> None
      | Some a \<Rightarrow> if index \<ge> da_count a then None else Some (index * da_elem_size a))"

definition move_slot :: "u64 \<Rightarrow> u64 \<Rightarrow> u8 list \<Rightarrow> u8 list res" where
  "move_slot es i d = bindR (get_bytes (unat ((i + 1) * es)) (unat es) d) (\<lambda>v. put_bytes (unat (i * es)) v d)"

definition ds_array_remove :: "ds_array option \<Rightarrow> u64 \<Rightarrow> ds_array option res" where
  "ds_array_remove arr index =
     (case arr of None \<Rightarrow> Inr None
      | Some a \<Rightarrow>
          if index \<ge> da_count a then Inr arr
          else bindR (for_up index (da_count a - 1) (move_slot (da_elem_size a)) (da_data a)) (\<lambda>d.
                 Inr (Some (a\<lparr>da_data := d, da_count := da_count a - 1\<rparr>))))"

definition ds_array_count :: "ds_array option \<Rightarrow> u64" where
  "ds_array_count a = (case a of None \<Rightarrow> 0 | Some x \<Rightarrow> da_count x)"

section \<open>Hash map\<close>

record ds_hashmap =
  hm_keys :: "u8 list"
  hm_values :: "u8 list"
  hm_key_size :: u64
  hm_value_size :: u64
  hm_capacity :: u64
  hm_count :: u64

definition ds_hashmap_create :: "u64 \<Rightarrow> u64 \<Rightarrow> u64 \<Rightarrow> ds_heap \<Rightarrow> ds_hashmap option \<times> ds_heap" where
  "ds_hashmap_create key_size value_size capacity h =
     (let (m, h1) = ds_kmalloc 48 h
      in case m of None \<Rightarrow> (None, h1)
         | Some _ \<Rightarrow>
             let (ks, h2) = ds_kmalloc (key_size * capacity) h1; (vs, h3) = ds_kmalloc (value_size * capacity) h2
             in case (ks, vs) of
                  (Some k, Some v) \<Rightarrow>
                    (Some \<lparr>hm_keys = k, hm_values = v, hm_key_size = key_size, hm_value_size = value_size,
                            hm_capacity = capacity, hm_count = 0\<rparr>, h3)
                | (None, None) \<Rightarrow> (None, ds_kfree h3)
                | _ \<Rightarrow> (None, ds_kfree (ds_kfree h3)))"

definition ds_hashmap_destroy :: "ds_hashmap option \<Rightarrow> ds_heap \<Rightarrow> ds_heap" where
  "ds_hashmap_destroy m h = (case m of None \<Rightarrow> h | Some _ \<Rightarrow> ds_kfree (ds_kfree (ds_kfree h)))"

definition hashmap_append :: "u8 list \<Rightarrow> u8 list \<Rightarrow> ds_hashmap \<Rightarrow> (bool \<times> ds_hashmap) res" where
  "hashmap_append key v m =
     (if hm_count m \<ge> hm_capacity m then Inr (False, m)
      else bindR (get_bytes 0 (unat (hm_key_size m)) key) (\<lambda>k.
           bindR (put_bytes (unat (hm_count m * hm_key_size m)) k (hm_keys m)) (\<lambda>ks.
           bindR (get_bytes 0 (unat (hm_value_size m)) v) (\<lambda>w.
           bindR (put_bytes (unat (hm_count m * hm_value_size m)) w (hm_values m)) (\<lambda>vs.
             Inr (True, m\<lparr>hm_keys := ks, hm_values := vs, hm_count := hm_count m + 1\<rparr>))))))"

definition ds_hashmap_set :: "ds_hashmap option \<Rightarrow> u8 list option \<Rightarrow> u8 list option \<Rightarrow> (bool \<times> ds_hashmap option) res" where
  "ds_hashmap_set mo key v =
     (case (mo, key, v) of
        (Some m, Some k, Some w) \<Rightarrow> bindR (hashmap_append k w m) (\<lambda>(r, m1). Inr (r, Some m1))
      | _ \<Rightarrow> Inr (False, mo))"

text \<open>The comparison loop on slot \<open>i\<close>, which stops at the first difference.\<close>

fun key_match :: "nat \<Rightarrow> nat \<Rightarrow> u8 list \<Rightarrow> u8 list \<Rightarrow> nat \<Rightarrow> bool res" where
  "key_match 0 off ks key j = Inr True"
| "key_match (Suc n) off ks key j =
     (if off + j < length ks \<and> j < length key
      then if ks ! (off + j) \<noteq> key ! j then Inr False else key_match n off ks key (Suc j)
      else Inl OutOfBounds)"

function find_key :: "u8 list \<Rightarrow> ds_hashmap \<Rightarrow> u64 \<Rightarrow> u64 option res" where
  "find_key key m i =
     (if i < hm_count m
      then bindR (key_match (unat (hm_key_size m)) (unat (i * hm_key_size m)) (hm_keys m) key 0) (\<lambda>eq.
             if eq then Inr (Some i) else find_key key m (i + 1))
      else Inr None)"
  by pat_completeness auto
termination
  by (relation "measure (\<lambda>(key, m, i). unat (hm_count m) - unat i)")
    (auto simp: unat_plus_one word_less_nat_alt)

declare find_key.simps [simp del]

definition ds_hashmap_get :: "ds_hashmap option \<Rightarrow> u8 list option \<Rightarrow> u64 option res" where
  "ds_hashmap_get mo key =
     (case (mo, key) of
        (Some m, Some k) \<Rightarrow> bindR (find_key k m 0) (\<lambda>r. Inr (map_option (\<lambda>i. i * hm_value_size m) r))
      | _ \<Rightarrow> Inr None)"

definition move_entry :: "u64 \<Rightarrow> u64 \<Rightarrow> u64 \<Rightarrow> u8 list \<times> u8 list \<Rightarrow> (u8 list \<times> u8 list) res" where
  "move_entry ksz vsz k = (\<lambda>(ks, vs). bindR (move_slot ksz k ks) (\<lambda>ks1. bindR (move_slot vsz k vs) (\<lambda>vs1. Inr (ks1, vs1))))"

definition hashmap_delete :: "u8 list \<Rightarrow> ds_hashmap \<Rightarrow> (bool \<times> ds_hashmap) res" where
  "hashmap_delete key m =
     bindR (find_key key m 0) (\<lambda>r.
       case r of None \<Rightarrow> Inr (False, m)
       | Some i \<Rightarrow>
           bindR (for_up i (hm_count m - 1) (move_entry (hm_key_size m) (hm_value_size m)) (hm_keys m, hm_values m)) (\<lambda>(ks, vs).
             Inr (True, m\<lparr>hm_keys := ks, hm_values := vs, hm_count := hm_count m - 1\<rparr>)))"

definition ds_hashmap_remove :: "ds_hashmap option \<Rightarrow> u8 list option \<Rightarrow> (bool \<times> ds_hashmap option) res" where
  "ds_hashmap_remove mo key =
     (case (mo, key) of
        (Some m, Some k) \<Rightarrow> bindR (hashmap_delete k m) (\<lambda>(r, m1). Inr (r, Some m1))
      | _ \<Rightarrow> Inr (False, mo))"

section \<open>Linked list\<close>

text \<open>
  Nodes at addresses; 0 is null. The data pointers are plain values, and those the list frees
  are recorded.
\<close>

record ds_node =
  nd_data :: u64
  nd_next :: nat

record ds_list =
  dl_nodes :: "nat \<rightharpoonup> ds_node"
  dl_head :: nat
  dl_tail :: nat
  dl_count :: u64
  dl_freed :: "u64 list"

definition node_at :: "ds_list \<Rightarrow> nat \<Rightarrow> ds_node res" where
  "node_at l p = (if p = 0 then Inl NullDeref else case dl_nodes l p of None \<Rightarrow> Inl BadPointer | Some n \<Rightarrow> Inr n)"

definition kfree_node :: "nat \<Rightarrow> ds_list \<Rightarrow> ds_list" where
  "kfree_node p l = l\<lparr>dl_nodes := (dl_nodes l)(p := None)\<rparr>"

definition ds_list_create :: "ds_heap \<Rightarrow> ds_list option \<times> ds_heap" where
  "ds_list_create h =
     (let (r, h1) = ds_kmalloc 24 h
      in (map_option (\<lambda>_. \<lparr>dl_nodes = Map.empty, dl_head = 0, dl_tail = 0, dl_count = 0, dl_freed = []\<rparr>) r, h1))"

definition list_append :: "u64 \<Rightarrow> ds_list \<Rightarrow> ds_heap \<Rightarrow> (ds_list \<times> ds_heap) res" where
  "list_append data l h =
     (let (r, h1) = ds_kmalloc 16 h
           in case r of None \<Rightarrow> Inr (l, h1)
              | Some _ \<Rightarrow>
                  let p = dh_next h1; h2 = h1\<lparr>dh_next := Suc p\<rparr>;
                      l1 = l\<lparr>dl_nodes := (dl_nodes l)(p \<mapsto> \<lparr>nd_data = data, nd_next = 0\<rparr>)\<rparr>
                  in bindR (if dl_tail l = 0 then Inr (l1\<lparr>dl_head := p, dl_tail := p\<rparr>)
                            else bindR (node_at l1 (dl_tail l)) (\<lambda>t.
                                   Inr (l1\<lparr>dl_nodes := (dl_nodes l1)(dl_tail l \<mapsto> t\<lparr>nd_next := p\<rparr>), dl_tail := p\<rparr>))) (\<lambda>l2.
                       Inr (l2\<lparr>dl_count := dl_count l2 + 1\<rparr>, h2)))"

definition ds_list_push :: "ds_list option \<Rightarrow> u64 \<Rightarrow> ds_heap \<Rightarrow> (ds_list option \<times> ds_heap) res" where
  "ds_list_push lo data h =
     (case lo of None \<Rightarrow> Inr (None, h)
      | Some l \<Rightarrow> if data = 0 then Inr (lo, h) else bindR (list_append data l h) (\<lambda>(l1, h1). Inr (Some l1, h1)))"

definition list_take :: "ds_list \<Rightarrow> ds_heap \<Rightarrow> (u64 \<times> ds_list \<times> ds_heap) res" where
  "list_take l h =
     (if dl_head l = 0 then Inr (0, l, h)
      else bindR (node_at l (dl_head l)) (\<lambda>n.
        let l1 = l\<lparr>dl_head := nd_next n\<rparr>;
            l2 = (if dl_head l1 = 0 then l1\<lparr>dl_tail := 0\<rparr> else l1)
        in Inr (nd_data n, (kfree_node (dl_head l) l2)\<lparr>dl_count := dl_count l - 1\<rparr>, ds_kfree h)))"

definition ds_list_pop :: "ds_list option \<Rightarrow> ds_heap \<Rightarrow> (u64 \<times> ds_list option \<times> ds_heap) res" where
  "ds_list_pop lo h =
     (case lo of None \<Rightarrow> Inr (0, None, h)
      | Some l \<Rightarrow> bindR (list_take l h) (\<lambda>(d, l1, h1). Inr (d, Some l1, h1)))"

primrec walk_nodes :: "nat \<Rightarrow> ds_list \<Rightarrow> nat \<Rightarrow> nat \<Rightarrow> (nat \<times> nat) res" where
  "walk_nodes 0 l prev p = Inr (prev, p)"
| "walk_nodes (Suc n) l prev p = bindR (node_at l p) (\<lambda>nd. walk_nodes n l p (nd_next nd))"

definition ds_list_get :: "ds_list option \<Rightarrow> u64 \<Rightarrow> u64 res" where
  "ds_list_get lo index =
     (case lo of None \<Rightarrow> Inr 0
      | Some l \<Rightarrow>
          if index \<ge> dl_count l then Inr 0
          else bindR (walk_nodes (unat index) l 0 (dl_head l)) (\<lambda>(prev, p).
               bindR (node_at l p) (\<lambda>n. Inr (nd_data n))))"

definition list_delete :: "u64 \<Rightarrow> ds_list \<Rightarrow> ds_heap \<Rightarrow> (ds_list \<times> ds_heap) res" where
  "list_delete index l h =
     (if index \<ge> dl_count l then Inr (l, h)
      else bindR (walk_nodes (unat index) l 0 (dl_head l)) (\<lambda>(prev, p).
           bindR (node_at l p) (\<lambda>n.
           bindR (if prev \<noteq> 0
                  then bindR (node_at l prev) (\<lambda>q. Inr (l\<lparr>dl_nodes := (dl_nodes l)(prev \<mapsto> q\<lparr>nd_next := nd_next n\<rparr>)\<rparr>))
                  else Inr (l\<lparr>dl_head := nd_next n\<rparr>)) (\<lambda>l1.
             let l2 = (if p = dl_tail l1 then l1\<lparr>dl_tail := prev\<rparr> else l1)
             in Inr ((kfree_node p l2)\<lparr>dl_freed := dl_freed l2 @ [nd_data n], dl_count := dl_count l2 - 1\<rparr>, ds_kfree (ds_kfree h))))))"

definition ds_list_remove :: "ds_list option \<Rightarrow> u64 \<Rightarrow> ds_heap \<Rightarrow> (ds_list option \<times> ds_heap) res" where
  "ds_list_remove lo index h =
     (case lo of None \<Rightarrow> Inr (None, h)
      | Some l \<Rightarrow> bindR (list_delete index l h) (\<lambda>(l1, h1). Inr (Some l1, h1)))"

text \<open>\<open>ds_list_destroy\<close>; the fuel bounds the number of nodes it visits.\<close>

fun destroy_nodes :: "nat \<Rightarrow> ds_list \<Rightarrow> nat \<Rightarrow> ds_heap \<Rightarrow> (ds_list \<times> ds_heap) res" where
  "destroy_nodes 0 l p h = (if p = 0 then Inr (l, h) else Inl Diverges)"
| "destroy_nodes (Suc fuel) l p h =
     (if p = 0 then Inr (l, h)
      else bindR (node_at l p) (\<lambda>n.
             destroy_nodes fuel ((kfree_node p l)\<lparr>dl_freed := dl_freed l @ [nd_data n]\<rparr>) (nd_next n) (ds_kfree (ds_kfree h))))"

definition ds_list_destroy :: "nat \<Rightarrow> ds_list option \<Rightarrow> ds_heap \<Rightarrow> (u64 list \<times> ds_heap) res" where
  "ds_list_destroy fuel lo h =
     (case lo of None \<Rightarrow> Inr ([], h)
      | Some l \<Rightarrow> bindR (destroy_nodes fuel l (dl_head l) h) (\<lambda>(l1, h1). Inr (dl_freed l1, ds_kfree h1)))"

section \<open>Sequences\<close>

text \<open>
  What clients of the array and of the list rely on: pushing appends, reading returns the
  element at an index, removing closes the gap. \<open>limit\<close> bounds the number of elements that fit.
\<close>

primrec push_all :: "('e \<Rightarrow> 's \<Rightarrow> 's res) \<Rightarrow> 'e list \<Rightarrow> 's \<Rightarrow> 's res" where
  "push_all push [] s = Inr s"
| "push_all push (e # es) s = bindR (push e s) (push_all push es)"

locale sequence =
  fixes ok :: "'s \<Rightarrow> bool" and elems :: "'s \<Rightarrow> 'e list" and valid :: "'e \<Rightarrow> bool" and limit :: nat
    and push :: "'e \<Rightarrow> 's \<Rightarrow> 's res" and get :: "nat \<Rightarrow> 's \<Rightarrow> 'e res" and remove :: "nat \<Rightarrow> 's \<Rightarrow> 's res"
  assumes push_spec: "ok s \<Longrightarrow> valid e \<Longrightarrow> length (elems s) < limit \<Longrightarrow> \<exists>s'. push e s = Inr s' \<and> ok s' \<and> elems s' = elems s @ [e]"
    and get_spec: "ok s \<Longrightarrow> i < length (elems s) \<Longrightarrow> get i s = Inr (elems s ! i)"
    and remove_spec: "ok s \<Longrightarrow> i < length (elems s) \<Longrightarrow>
      \<exists>s'. remove i s = Inr s' \<and> ok s' \<and> elems s' = take i (elems s) @ drop (Suc i) (elems s)"
begin

lemma push_all_spec:
  "ok s \<Longrightarrow> \<forall>e \<in> set es. valid e \<Longrightarrow> length (elems s) + length es \<le> limit \<Longrightarrow>
    \<exists>s'. push_all push es s = Inr s' \<and> ok s' \<and> elems s' = elems s @ es"
proof (induction es arbitrary: s)
  case (Cons e es)
  have "valid e" "length (elems s) < limit" using Cons.prems by simp_all
  then obtain s1 where s1: "push e s = Inr s1" "ok s1" "elems s1 = elems s @ [e]"
    using push_spec [OF Cons.prems(1)] by blast
  then obtain s' where "push_all push es s1 = Inr s'" "ok s'" "elems s' = elems s1 @ es"
    using Cons.IH [OF s1(2)] Cons.prems(2,3) by auto
  with s1 show ?case by auto
qed simp

text \<open>Everything pushed can be read back in order, and removing the first element shifts the rest.\<close>

lemma push_all_get:
  assumes "ok s" "elems s = []" "\<forall>e \<in> set es. valid e" "length es \<le> limit"
  shows "\<exists>s'. push_all push es s = Inr s' \<and> (\<forall>i < length es. get i s' = Inr (es ! i))"
  using push_all_spec [OF assms(1,3)] assms(2,4) get_spec by auto

lemma push_all_remove:
  assumes "ok s" "elems s = []" "\<forall>e \<in> set es. valid e" "length es \<le> limit" "k < length es"
  shows "\<exists>s1 s2. push_all push es s = Inr s1 \<and> remove k s1 = Inr s2 \<and>
    (\<forall>i < length es - 1. get i s2 = Inr (es ! (if i < k then i else Suc i)))"
proof -
  obtain s1 where s1: "push_all push es s = Inr s1" "ok s1" "elems s1 = es"
    using push_all_spec [OF assms(1,3)] assms(2,4) by auto
  obtain s2 where s2: "remove k s1 = Inr s2" "ok s2" "elems s2 = take k es @ drop (Suc k) es"
    using remove_spec [OF s1(2)] s1(3) assms(5) by auto
  have "get i s2 = Inr (es ! (if i < k then i else Suc i))" if "i < length es - 1" for i
    using get_spec [OF s2(2), of i] s2(3) that assms(5) by (auto simp: nth_append)
  then show ?thesis using s1(1) s2(1) by blast
qed

end

section \<open>Slots of a buffer\<close>

definition slot :: "nat \<Rightarrow> nat \<Rightarrow> u8 list \<Rightarrow> u8 list" where "slot n i bs = take n (drop (i * n) bs)"

lemma slot_end: "Suc i * n \<le> length bs \<Longrightarrow> i * n + n \<le> length bs"
  by simp

lemma get_slot: "Suc i * n \<le> length bs \<Longrightarrow> get_bytes (i * n) n bs = Inr (slot n i bs)"
  by (simp add: get_bytes_def slot_def)

lemma length_slot: "Suc i * n \<le> length bs \<Longrightarrow> length (slot n i bs) = n"
  by (simp add: slot_def)

lemma put_slot:
  assumes "Suc i * n \<le> length bs" "length v = n" "0 < n"
  shows "\<exists>bs'. put_bytes (i * n) v bs = Inr bs' \<and> length bs' = length bs \<and>
    (\<forall>j. Suc j * n \<le> length bs \<longrightarrow> slot n j bs' = (if j = i then v else slot n j bs))"
proof -
  let ?b = "take (i * n) bs @ v @ drop (i * n + n) bs"
  have len: "length ?b = length bs" using assms(1,2) by simp
  have "slot n j ?b = (if j = i then v else slot n j bs)" if "Suc j * n \<le> length bs" for j
  proof -
    consider "j = i" | "Suc j \<le> i" | "Suc i \<le> j" by linarith
    then show ?thesis
    proof cases
      case 1
      then show ?thesis using assms by (simp add: slot_def)
    next
      case 2
      then have "Suc j * n \<le> i * n" by (rule mult_le_mono1)
      then show ?thesis
        unfolding slot_def using 2 that assms(1,2) by (intro nth_equalityI) (auto simp: nth_append)
    next
      case 3
      then have "Suc i * n \<le> j * n" by (rule mult_le_mono1)
      then show ?thesis
        unfolding slot_def using 3 that assms(1,2) by (intro nth_equalityI) (auto simp: nth_append)
    qed
  qed
  moreover have "put_bytes (i * n) v bs = Inr ?b" using assms by (auto simp: put_bytes_def)
  ultimately show ?thesis using len by blast
qed

lemma move_slot_spec:
  fixes es i :: u64
  assumes "0 < unat es" "(unat i + 2) * unat es \<le> length d" "length d < 2 ^ 64"
  shows "\<exists>d'. move_slot es i d = Inr d' \<and> length d' = length d \<and>
    (\<forall>j. Suc j * unat es \<le> length d \<longrightarrow> slot (unat es) j d' = (if j = unat i then slot (unat es) (Suc (unat i)) d else slot (unat es) j d))"
proof -
  let ?n = "unat es" and ?i = "unat i"
  have l: "Suc (Suc ?i) * ?n \<le> length d" "Suc ?i * ?n \<le> length d" using assms(2) by simp_all
  have "Suc ?i * 1 \<le> Suc ?i * ?n" using assms(1) by (intro mult_le_mono2) simp
  then have i1: "unat (i + 1) = Suc ?i" using l(2) assms(3) by (simp add: unat_word_ariths)
  have "unat ((i + 1) * es) = Suc ?i * ?n" "unat (i * es) = ?i * ?n"
    using l assms(3) i1 by (simp_all only: unat_word_ariths(2)) simp_all
  then show ?thesis
    using put_slot [OF l(2) length_slot [OF l(1)] assms(1)] by (simp only: move_slot_def get_slot [OF l(1)] bindR_simps)
qed

section \<open>The array is a sequence\<close>

definition array_ok :: "u64 \<Rightarrow> ds_array \<Rightarrow> bool" where
  "array_ok es a \<longleftrightarrow> da_elem_size a = es \<and> 0 < unat es \<and> length (da_data a) = unat es * unat (da_capacity a) \<and>
     da_count a \<le> da_capacity a \<and> length (da_data a) < 2 ^ 64"

definition array_elems :: "ds_array \<Rightarrow> u8 list list" where
  "array_elems a = map (\<lambda>i. slot (unat (da_elem_size a)) i (da_data a)) [0..<unat (da_count a)]"

lemma length_array_elems [simp]: "length (array_elems a) = unat (da_count a)"
  by (simp add: array_elems_def)

lemma array_store_spec:
  assumes ok: "array_ok es a" and room: "da_count a < da_capacity a" and len: "length e = unat es"
  shows "\<exists>a'. array_store e a = Inr a' \<and> array_ok es a' \<and> array_elems a' = array_elems a @ [e]"
proof -
  let ?n = "unat es" and ?c = "unat (da_count a)"
  have a: "da_elem_size a = es" "0 < ?n" "length (da_data a) = ?n * unat (da_capacity a)" "length (da_data a) < 2 ^ 64"
    using ok by (simp_all add: array_ok_def)
  have cc: "Suc ?c \<le> unat (da_capacity a)" using room by (simp add: word_less_nat_alt Suc_le_eq)
  then have le: "Suc ?c * ?n \<le> length (da_data a)" unfolding a(3) by (metis mult.commute mult_le_mono2)
  have off: "unat (da_count a * es) = ?c * ?n" using le a(4) by (simp add: unat_word_ariths)
  have c1: "unat (da_count a + 1) = Suc ?c" by (rule unat_plus_one [OF room])
  obtain d where d: "put_bytes (?c * ?n) e (da_data a) = Inr d" "length d = length (da_data a)"
    "\<forall>j. Suc j * ?n \<le> length (da_data a) \<longrightarrow> slot ?n j d = (if j = ?c then e else slot ?n j (da_data a))"
    using put_slot [OF le len a(2)] by blast
  have "get_bytes 0 ?n e = Inr e" using len by (simp add: get_bytes_def)
  then have "array_store e a = Inr (a\<lparr>da_data := d, da_count := da_count a + 1\<rparr>)"
    using d(1) by (simp add: array_store_def a(1) off)
  moreover have "slot ?n j d = slot ?n j (da_data a)" if "j < ?c" for j
  proof -
    have "Suc j * ?n \<le> Suc ?c * ?n" using that by (intro mult_le_mono1) simp
    then have "Suc j * ?n \<le> length (da_data a)" using le by (rule order_trans)
    from d(3) [rule_format, OF this] that show ?thesis by simp
  qed
  then have "array_elems (a\<lparr>da_data := d, da_count := da_count a + 1\<rparr>) = array_elems a @ [e]"
    using d(3) le c1 by (simp add: array_elems_def a(1))
  moreover have "array_ok es (a\<lparr>da_data := d, da_count := da_count a + 1\<rparr>)"
    using ok d(2) cc c1 by (simp add: array_ok_def word_le_nat_alt)
  ultimately show ?thesis by blast
qed

lemma array_grow_spec:
  assumes ok: "array_ok es a" and full: "da_count a = da_capacity a" and "da_count a \<noteq> 0"
    and fit: "2 * length (da_data a) < 2 ^ 64" and al: "dh_allocs h = []"
  shows "\<exists>a' h'. array_grow a h = Inr (Some a', h') \<and> dh_allocs h' = [] \<and> array_ok es a' \<and> array_elems a' = array_elems a \<and>
    da_count a' < da_capacity a'"
proof -
  let ?n = "unat es" and ?c = "unat (da_count a)"
  have a: "da_elem_size a = es" "0 < ?n" "length (da_data a) = ?n * ?c" using ok full by (simp_all add: array_ok_def)
  have c0: "0 < ?c" using assms(3) by (simp add: unat_gt_0)
  have "1 * ?c \<le> ?n * ?c" using a(2) by (intro mult_le_mono1) simp
  then have "2 * ?c < 2 ^ 64" using fit unfolding a(3) by linarith
  then have cap: "unat (da_capacity a * 2) = 2 * ?c" by (simp add: full [symmetric] unat_word_ariths)
  then have sz: "unat (es * (da_capacity a * 2)) = ?n * (2 * ?c)" using fit a(3) by (simp only: unat_word_ariths(2) cap) simp
  then have nz: "es * (da_capacity a * 2) \<noteq> 0" using a(2) c0 by (metis mult_pos_pos nat_0_less_mult_iff neq0_conv unat_0 zero_less_numeral)
  have off: "unat (da_count a * es) = length (da_data a)" using fit a(3) by (simp add: unat_word_ariths mult.commute)
  define f where "f = map (dh_bytes h) [0..<?n * (2 * ?c)]"
  let ?d = "da_data a @ drop (length (da_data a)) f"
  let ?a = "a\<lparr>da_data := ?d, da_capacity := da_capacity a * 2\<rparr>"
  have lf: "length f = 2 * length (da_data a)" by (simp add: f_def a(3))
  have "da_data a \<noteq> []" using a c0 by auto
  then have "array_grow a h = Inr (Some ?a, ds_kfree (h\<lparr>dh_allocs := [], dh_live := dh_live h + 1\<rparr>))"
    using nz al lf by (simp add: array_grow_def Let_def ds_kmalloc_def a(1) sz off get_bytes_def put_bytes_def f_def [symmetric])
  moreover have "array_ok es ?a" using ok lf a(3) cap fit full by (simp add: array_ok_def word_le_nat_alt)
  moreover have "slot ?n j ?d = slot ?n j (da_data a)" if "j < ?c" for j
  proof -
    have "Suc j * ?n \<le> ?c * ?n" using that by (intro mult_le_mono1) simp
    then have "j * ?n + ?n \<le> length (da_data a)" by (simp add: a(3) mult.commute)
    then show ?thesis by (simp add: slot_def)
  qed
  then have "array_elems ?a = array_elems a" by (simp add: array_elems_def a(1))
  moreover have "da_count ?a < da_capacity ?a" using cap c0 by (simp add: word_less_nat_alt)
  ultimately show ?thesis by (auto simp: ds_kfree_def)
qed

text \<open>Shifting the slots from \<open>i\<close> on down by one.\<close>

lemma shift_slots:
  fixes es i c :: u64
  assumes "0 < unat es" "unat c * unat es \<le> length d" "length d < 2 ^ 64" "i < c"
  shows "\<exists>d'. for_up i (c - 1) (move_slot es) d = Inr d' \<and> length d' = length d \<and>
    (\<forall>j < unat c - 1. slot (unat es) j d' = slot (unat es) (if j < unat i then j else Suc j) d)"
proof -
  let ?n = "unat es"
  let ?P = "\<lambda>(q :: u64) d'. length d' = length d \<and>
    (\<forall>j < unat c. slot ?n j d' = slot ?n (if unat i \<le> j \<and> j < unat q then Suc j else j) d)"
  have c1: "unat (c - 1) = unat c - 1"
  proof -
    have "1 \<le> c" using assms(4) by (simp add: word_le_nat_alt word_less_nat_alt)
    then show ?thesis by (simp add: unat_sub)
  qed
  have fit: "Suc j * ?n \<le> length d" if "j < unat c" for j
    using that assms(2) by (meson Suc_leI mult_le_mono1 order_trans)
  have "\<exists>d'. for_up i (c - 1) (move_slot es) d = Inr d' \<and> ?P (c - 1) d'"
  proof (rule for_up_total)
    show "?P i d" by auto
    show "i \<le> c - 1" using assms(4) c1 by (simp add: word_le_nat_alt word_less_nat_alt)
    fix q d' assume P: "?P q d'" and q: "i \<le> q" "q < c - 1"
    have qc: "Suc (unat q) < unat c" using q(2) c1 by (simp add: word_less_nat_alt)
    then have "(unat q + 2) * ?n \<le> length d'" using P fit [of "Suc (unat q)"] by simp
    moreover have "length d' < 2 ^ 64" using P assms(3) by simp
    ultimately obtain e where e: "move_slot es q d' = Inr e" "length e = length d'"
      "\<forall>j. Suc j * ?n \<le> length d' \<longrightarrow> slot ?n j e = (if j = unat q then slot ?n (Suc (unat q)) d' else slot ?n j d')"
      using move_slot_spec [OF assms(1)] by blast
    have iq: "unat i \<le> unat q" using q(1) by (simp add: word_le_nat_alt)
    have "slot ?n j e = slot ?n (if unat i \<le> j \<and> j < unat (q + 1) then Suc j else j) d" if "j < unat c" for j
    proof -
      have "Suc j * ?n \<le> length d'" using fit [OF that] P by simp
      then have s: "slot ?n j e = (if j = unat q then slot ?n (Suc (unat q)) d' else slot ?n j d')" using e(3) by blast
      show ?thesis using s P that qc iq by (auto simp: unat_plus_one [OF q(2)])
    qed
    then show "\<exists>s'. move_slot es q d' = Inr s' \<and> ?P (q + 1) s'" using e(1,2) P by simp
  qed
  then obtain d' where d': "for_up i (c - 1) (move_slot es) d = Inr d'" "?P (c - 1) d'" by blast
  then show ?thesis using c1 by (intro exI [of _ d']) auto
qed

lemma array_remove_spec:
  assumes ok: "array_ok es a" and i: "index < da_count a"
  shows "\<exists>a'. ds_array_remove (Some a) index = Inr (Some a') \<and> array_ok es a' \<and> da_capacity a' = da_capacity a \<and>
    array_elems a' = take (unat index) (array_elems a) @ drop (Suc (unat index)) (array_elems a)"
proof -
  let ?n = "unat es" and ?c = "unat (da_count a)" and ?i = "unat index"
  have a: "da_elem_size a = es" "0 < ?n" "length (da_data a) = ?n * unat (da_capacity a)" "da_count a \<le> da_capacity a"
    "length (da_data a) < 2 ^ 64" using ok by (simp_all add: array_ok_def)
  have le: "?c * ?n \<le> length (da_data a)" unfolding a(3) using a(4) by (simp add: word_le_nat_alt mult.commute)
  obtain d where d: "for_up index (da_count a - 1) (move_slot es) (da_data a) = Inr d" "length d = length (da_data a)"
    "\<forall>j < ?c - 1. slot ?n j d = slot ?n (if j < ?i then j else Suc j) (da_data a)"
    using shift_slots [OF a(2) le a(5) i] by blast
  have ic: "?i < ?c" using i by (simp add: word_less_nat_alt)
  have "1 \<le> da_count a" using ic by (simp add: word_le_nat_alt)
  then have c1: "unat (da_count a - 1) = ?c - 1" by (simp add: unat_sub)
  let ?a = "a\<lparr>da_data := d, da_count := da_count a - 1\<rparr>"
  have "ds_array_remove (Some a) index = Inr (Some ?a)" using i d(1) by (simp add: ds_array_remove_def a(1) not_le)
  moreover have "array_ok es ?a" using ok d(2) c1 by (auto simp: array_ok_def word_le_nat_alt)
  moreover have "array_elems ?a = take ?i (array_elems a) @ drop (Suc ?i) (array_elems a)"
  proof (rule nth_equalityI)
    show "length (array_elems ?a) = length (take ?i (array_elems a) @ drop (Suc ?i) (array_elems a))" using ic c1 by simp
    fix j assume "j < length (array_elems ?a)"
    then have j: "j < ?c - 1" using c1 by simp
    then have "array_elems ?a ! j = slot ?n (if j < ?i then j else Suc j) (da_data a)"
      using d(3) c1 by (simp add: array_elems_def a(1))
    also have "\<dots> = (take ?i (array_elems a) @ drop (Suc ?i) (array_elems a)) ! j"
      using j ic by (auto simp: nth_append array_elems_def a(1))
    finally show "array_elems ?a ! j = (take ?i (array_elems a) @ drop (Suc ?i) (array_elems a)) ! j" .
  qed
  ultimately show ?thesis by simp
qed

text \<open>The operations on an array together with the memory it grows in.\<close>

definition array_push :: "u8 list \<Rightarrow> ds_array \<times> ds_heap \<Rightarrow> (ds_array \<times> ds_heap) res" where
  "array_push e = (\<lambda>(a, h). bindR (ds_array_push (Some a) (Some e) h) (\<lambda>(r, h1). Inr (the r, h1)))"

definition array_read :: "nat \<Rightarrow> ds_array \<times> ds_heap \<Rightarrow> u8 list res" where
  "array_read i = (\<lambda>(a, h). case ds_array_get (Some a) (word_of_nat i) of
     None \<Rightarrow> Inl NullDeref | Some off \<Rightarrow> get_bytes (unat off) (unat (da_elem_size a)) (da_data a))"

definition array_remove :: "nat \<Rightarrow> ds_array \<times> ds_heap \<Rightarrow> (ds_array \<times> ds_heap) res" where
  "array_remove i = (\<lambda>(a, h). bindR (ds_array_remove (Some a) (word_of_nat i)) (\<lambda>r. Inr (the r, h)))"

definition array_room :: "u64 \<Rightarrow> ds_array \<times> ds_heap \<Rightarrow> bool" where
  "array_room es = (\<lambda>(a, h). array_ok es a \<and> da_capacity a \<noteq> 0 \<and> dh_allocs h = [])"

lemma array_push_spec:
  assumes "array_room es s" "length e = unat es" "length (array_elems (fst s)) < 2 ^ 63 div unat es"
  shows "\<exists>s'. array_push e s = Inr s' \<and> array_room es s' \<and> array_elems (fst s') = array_elems (fst s) @ [e]"
proof -
  obtain a h where s: "s = (a, h)" by (cases s)
  have ok: "array_ok es a" "da_capacity a \<noteq> 0" "dh_allocs h = []" using assms(1) by (simp_all add: s array_room_def)
  show ?thesis
  proof (cases "da_count a < da_capacity a")
    case True
    from array_store_spec [OF ok(1) True assms(2)]
    obtain a' where "array_store e a = Inr a'" "array_ok es a'" "array_elems a' = array_elems a @ [e]" by blast
    moreover from this(1) have "da_capacity a' = da_capacity a" by (auto simp: array_store_def)
    moreover have "\<not> da_capacity a \<le> da_count a" using True by (simp only: not_le)
    ultimately show ?thesis using ok by (simp add: s array_push_def ds_array_push_def array_append_def array_room_def)
  next
    case False
    then have full: "da_count a = da_capacity a" "da_capacity a \<le> da_count a" using ok(1) by (auto simp: array_ok_def)
    have n0: "0 < unat es" using ok(1) by (simp add: array_ok_def)
    have "Suc (unat (da_count a)) * unat es \<le> 2 ^ 63 div unat es * unat es"
      using assms(3) by (intro mult_le_mono1) (simp add: s Suc_le_eq)
    also have "\<dots> \<le> 2 ^ 63" by (rule div_times_less_eq_dividend)
    finally have "unat (da_count a) * unat es < 2 ^ 63" using n0 by simp
    then have "2 * length (da_data a) < 2 ^ 64" using ok(1) full(1) by (simp add: array_ok_def mult.commute)
    moreover have "da_count a \<noteq> 0" using ok(2) full(1) by simp
    ultimately obtain a1 h1 where g: "array_grow a h = Inr (Some a1, h1)" "dh_allocs h1 = []" "array_ok es a1"
      "array_elems a1 = array_elems a" "da_count a1 < da_capacity a1"
      using array_grow_spec [OF ok(1) full(1) _ _ ok(3)] by blast
    from array_store_spec [OF g(3,5) assms(2)]
    obtain a' where a': "array_store e a1 = Inr a'" "array_ok es a'" "array_elems a' = array_elems a1 @ [e]" by blast
    then have "da_capacity a' = da_capacity a1" by (auto simp: array_store_def)
    moreover have "da_capacity a1 \<noteq> 0" using g(5) by auto
    ultimately show ?thesis using g a' full(2) by (simp add: s array_push_def ds_array_push_def array_append_def array_room_def)
  qed
qed

lemma array_read_spec:
  assumes "array_room es s" "i < length (array_elems (fst s))"
  shows "array_read i s = Inr (array_elems (fst s) ! i)"
proof -
  obtain a h where s: "s = (a, h)" by (cases s)
  let ?n = "unat es"
  have ok: "array_ok es a" using assms(1) by (simp add: s array_room_def)
  have i: "i < unat (da_count a)" using assms(2) by (simp add: s)
  then have "i < 2 ^ 64" using unat_u64_less [of "da_count a"] by simp
  then have u: "unat (word_of_nat i :: u64) = i" by (simp add: unat_of_nat)
  have "Suc i * ?n \<le> unat (da_capacity a) * ?n"
    using i ok by (intro mult_le_mono1) (simp add: array_ok_def word_le_nat_alt)
  then have le: "Suc i * ?n \<le> length (da_data a)" using ok by (simp add: array_ok_def mult.commute)
  then have "unat (word_of_nat i * es) = i * ?n" using ok by (simp add: unat_word_ariths u array_ok_def)
  moreover have "\<not> word_of_nat i \<ge> da_count a" using i u by (simp add: word_le_nat_alt)
  ultimately show ?thesis
    using ok le i by (simp add: s array_read_def ds_array_get_def array_elems_def get_slot array_ok_def)
qed

interpretation arr: sequence "array_room es" "\<lambda>s. array_elems (fst s)" "\<lambda>e. length e = unat es" "2 ^ 63 div unat es"
  array_push array_read array_remove
proof unfold_locales
  fix s :: "ds_array \<times> ds_heap" and e
  show "array_room es s \<Longrightarrow> length e = unat es \<Longrightarrow> length (array_elems (fst s)) < 2 ^ 63 div unat es \<Longrightarrow>
      \<exists>s'. array_push e s = Inr s' \<and> array_room es s' \<and> array_elems (fst s') = array_elems (fst s) @ [e]"
    by (rule array_push_spec)
next
  fix s i
  assume ok: "array_room es s" and i: "i < length (array_elems (fst s))"
  show "array_read i s = Inr (array_elems (fst s) ! i)" by (rule array_read_spec [OF ok i])
  obtain a h where s: "s = (a, h)" by (cases s)
  have "i < 2 ^ 64" using i unat_u64_less [of "da_count a"] by (simp add: s)
  then have u: "unat (word_of_nat i :: u64) = i" by (simp add: unat_of_nat)
  then have "word_of_nat i < da_count a" using i by (simp add: s word_less_nat_alt)
  with array_remove_spec [of es a "word_of_nat i"] ok
  show "\<exists>s'. array_remove i s = Inr s' \<and> array_room es s' \<and>
      array_elems (fst s') = take i (array_elems (fst s)) @ drop (Suc i) (array_elems (fst s))"
    by (auto simp: s array_remove_def array_room_def u)
qed

lemma array_create_room:
  assumes "dh_allocs h = []" "es \<noteq> 0" "cap \<noteq> 0" "unat es * unat cap < 2 ^ 64"
  shows "\<exists>a h'. ds_array_create es cap h = (Some a, h') \<and> array_room es (a, h') \<and> array_elems a = []"
proof -
  have p: "0 < unat es" "0 < unat cap" using assms(2,3) by (simp_all add: unat_gt_0)
  have u: "unat (es * cap) = unat es * unat cap" using assms(4) by (simp add: unat_word_ariths)
  then have "es * cap \<noteq> 0" using p by (metis less_numeral_extra(3) mult_pos_pos unat_0)
  then show ?thesis
    using assms p u by (simp add: ds_array_create_def ds_kmalloc_def array_room_def array_ok_def array_elems_def)
qed


section \<open>The linked list is a sequence\<close>

text \<open>A segment of nodes \<open>ps\<close> with data \<open>xs\<close> from \<open>p\<close> to \<open>r\<close>.\<close>

fun seg :: "(nat \<rightharpoonup> ds_node) \<Rightarrow> nat \<Rightarrow> nat list \<Rightarrow> u64 list \<Rightarrow> nat \<Rightarrow> bool" where
  "seg m p [] [] r \<longleftrightarrow> p = r"
| "seg m p (a # as) (x # xs) r \<longleftrightarrow> p = a \<and> a \<noteq> 0 \<and> (\<exists>n. m a = Some n \<and> nd_data n = x \<and> seg m (nd_next n) as xs r)"
| "seg m p _ _ r \<longleftrightarrow> False"

lemma seg_length: "seg m p ps xs r \<Longrightarrow> length xs = length ps"
  by (induction m p ps xs r rule: seg.induct) auto

lemma seg_cong: "(\<And>a. a \<in> set ps \<Longrightarrow> m' a = m a) \<Longrightarrow> seg m p ps xs r \<Longrightarrow> seg m' p ps xs r"
  by (induction m p ps xs r rule: seg.induct) auto

lemma seg_append: "length as = length xs \<Longrightarrow> seg m p (as @ bs) (xs @ ys) r \<longleftrightarrow> (\<exists>q. seg m p as xs q \<and> seg m q bs ys r)"
  by (induction as xs arbitrary: p rule: list_induct2) auto

lemma seg_snoc: "length as = length xs \<Longrightarrow> seg m p (as @ [t]) (xs @ [x]) r \<longleftrightarrow>
    seg m p as xs t \<and> t \<noteq> 0 \<and> m t = Some \<lparr>nd_data = x, nd_next = r\<rparr>"
  by (auto simp: seg_append ds_node.equality)

lemma seg_retarget:
  assumes "seg m p (as @ [t]) (xs @ [x]) r" "length as = length xs" "t \<notin> set as"
  shows "seg (m(t \<mapsto> \<lparr>nd_data = x, nd_next = q\<rparr>)) p (as @ [t]) (xs @ [x]) q"
proof -
  note sg = assms(1) [unfolded seg_snoc [OF assms(2)]]
  have "seg (m(t \<mapsto> \<lparr>nd_data = x, nd_next = q\<rparr>)) p as xs t"
    by (rule seg_cong [OF _ conjunct1 [OF sg]]) (use assms(3) in auto)
  then show ?thesis unfolding seg_snoc [OF assms(2)] using sg by simp
qed

lemma seg_node:
  assumes "seg m p ps xs r" "k < length ps"
  shows "ps ! k \<noteq> 0" "m (ps ! k) = Some \<lparr>nd_data = xs ! k, nd_next = (if Suc k < length ps then ps ! Suc k else r)\<rparr>"
proof -
  have "ps ! k \<noteq> 0 \<and> m (ps ! k) = Some \<lparr>nd_data = xs ! k, nd_next = (if Suc k < length ps then ps ! Suc k else r)\<rparr>"
    using assms
  proof (induction m p ps xs r arbitrary: k rule: seg.induct)
    case (2 m p a as x xs r)
    then obtain n where n: "m a = Some n" "nd_data n = x" "seg m (nd_next n) as xs r" "a \<noteq> 0" by auto
    show ?case
    proof (cases k)
      case 0
      have "nd_next n = (if as \<noteq> [] then as ! 0 else r)" using n(3) by (cases as; cases xs) auto
      then show ?thesis using 0 n by (auto simp: ds_node.equality)
    next
      case (Suc j)
      then show ?thesis using "2.IH" [OF n(3), of j] "2.prems"(2) by simp
    qed
  qed auto
  then show "ps ! k \<noteq> 0" "m (ps ! k) = Some \<lparr>nd_data = xs ! k, nd_next = (if Suc k < length ps then ps ! Suc k else r)\<rparr>" by blast+
qed

primrec walk_data :: "nat \<Rightarrow> (nat \<rightharpoonup> ds_node) \<Rightarrow> nat \<Rightarrow> u64 list" where
  "walk_data 0 m p = []"
| "walk_data (Suc n) m p = (case m p of None \<Rightarrow> [] | Some nd \<Rightarrow> nd_data nd # walk_data n m (nd_next nd))"

lemma seg_walk_data: "seg m p ps xs r \<Longrightarrow> walk_data (length ps) m p = xs"
  by (induction m p ps xs r rule: seg.induct) auto

lemma seg_walk_nodes:
  assumes "seg (dl_nodes l) p ps xs r" "k < length ps"
  shows "walk_nodes k l prev p = Inr (if k = 0 then prev else ps ! (k - 1), ps ! k)"
  using assms
proof (induction k arbitrary: p ps xs prev)
  case 0
  then show ?case by (cases ps; cases xs) auto
next
  case (Suc k)
  then obtain a as x ys n where ps: "ps = a # as" "xs = x # ys" "p = a" "a \<noteq> 0" "dl_nodes l a = Some n" "seg (dl_nodes l) (nd_next n) as ys r"
    by (cases ps; cases xs) auto
  have "walk_nodes k l a (nd_next n) = Inr (if k = 0 then a else as ! (k - 1), as ! k)"
    using Suc.IH [OF ps(6), of a] Suc.prems(2) ps(1) by simp
  then show ?case using ps by (cases k) (simp_all add: node_at_def)
qed

definition list_inv :: "nat list \<Rightarrow> u64 list \<Rightarrow> ds_list \<times> ds_heap \<Rightarrow> bool" where
  "list_inv ps xs = (\<lambda>(l, h). seg (dl_nodes l) (dl_head l) ps xs 0 \<and> distinct ps \<and>
     dl_tail l = (if ps = [] then 0 else last ps) \<and> unat (dl_count l) = length ps \<and>
     (\<forall>p \<in> set ps. p < dh_next h) \<and> 0 < dh_next h \<and> dh_allocs h = [])"

definition list_elems :: "ds_list \<times> ds_heap \<Rightarrow> u64 list" where
  "list_elems = (\<lambda>(l, h). walk_data (unat (dl_count l)) (dl_nodes l) (dl_head l))"

definition list_ok :: "ds_list \<times> ds_heap \<Rightarrow> bool" where
  "list_ok s \<longleftrightarrow> (\<exists>ps. list_inv ps (list_elems s) s)"

lemma list_inv_elems: "list_inv ps xs s \<Longrightarrow> list_elems s = xs \<and> length ps = length xs \<and> list_ok s"
  using seg_walk_data seg_length by (fastforce simp: list_inv_def list_elems_def list_ok_def split: prod.splits)

definition list_push :: "u64 \<Rightarrow> ds_list \<times> ds_heap \<Rightarrow> (ds_list \<times> ds_heap) res" where
  "list_push x = (\<lambda>(l, h). bindR (ds_list_push (Some l) x h) (\<lambda>(r, h1). Inr (the r, h1)))"

definition list_get :: "nat \<Rightarrow> ds_list \<times> ds_heap \<Rightarrow> u64 res" where
  "list_get i = (\<lambda>(l, h). ds_list_get (Some l) (word_of_nat i))"

definition list_remove :: "nat \<Rightarrow> ds_list \<times> ds_heap \<Rightarrow> (ds_list \<times> ds_heap) res" where
  "list_remove i = (\<lambda>(l, h). bindR (ds_list_remove (Some l) (word_of_nat i) h) (\<lambda>(r, h1). Inr (the r, h1)))"

lemma list_push_spec:
  assumes inv: "list_inv ps xs s" and "x \<noteq> 0" "length xs < 2 ^ 64 - 1"
  shows "\<exists>s' ps'. list_push x s = Inr s' \<and> list_inv ps' (xs @ [x]) s'"
proof -
  obtain l h where s: "s = (l, h)" by (cases s)
  let ?p = "dh_next h" and ?m = "dl_nodes l"
  have i: "seg ?m (dl_head l) ps xs 0" "distinct ps" "dl_tail l = (if ps = [] then 0 else last ps)"
    "unat (dl_count l) = length ps" "\<forall>p \<in> set ps. p < ?p" "0 < ?p" "dh_allocs h = []"
    using inv by (simp_all add: list_inv_def s)
  have len: "length xs = length ps" by (rule seg_length [OF i(1)])
  have c1: "unat (dl_count l + 1) = Suc (length ps)" using i(4) assms(3) len by (simp add: unat_word_ariths)
  have np: "?p \<notin> set ps" using i(5) by auto
  let ?h = "h\<lparr>dh_allocs := [], dh_live := dh_live h + 1, dh_next := Suc ?p\<rparr>"
  show ?thesis
  proof (cases ps rule: rev_cases)
    case Nil
    let ?l = "l\<lparr>dl_nodes := ?m(?p \<mapsto> \<lparr>nd_data = x, nd_next = 0\<rparr>), dl_head := ?p, dl_tail := ?p, dl_count := dl_count l + 1\<rparr>"
    have "list_push x s = Inr (?l, ?h)"
      using i Nil assms(2) by (simp add: s list_push_def ds_list_push_def list_append_def ds_kmalloc_def Let_def)
    moreover have "list_inv [?p] (xs @ [x]) (?l, ?h)" using i Nil len c1 by (simp add: list_inv_def)
    ultimately show ?thesis by blast
  next
    case (snoc as t)
    then obtain ys y where xs: "xs = ys @ [y]" "length as = length ys" using len by (cases xs rule: rev_cases) auto
    note sg = i(1) [unfolded snoc xs(1) seg_snoc [OF xs(2)]]
    have t: "t \<noteq> 0" "?m t = Some \<lparr>nd_data = y, nd_next = 0\<rparr>" "t \<notin> set as" "t \<noteq> ?p" using sg i(2) np snoc by auto
    let ?m1 = "?m(?p \<mapsto> \<lparr>nd_data = x, nd_next = 0\<rparr>, t \<mapsto> \<lparr>nd_data = y, nd_next = ?p\<rparr>)"
    let ?l = "l\<lparr>dl_nodes := ?m1, dl_tail := ?p, dl_count := dl_count l + 1\<rparr>"
    have "list_push x s = Inr (?l, ?h)"
      using i(3,7) t snoc assms(2)
      by (simp add: s list_push_def ds_list_push_def list_append_def ds_kmalloc_def node_at_def Let_def)
    moreover have "seg ?m1 (dl_head l) (ps @ [?p]) (xs @ [x]) 0"
    proof -
      have "seg ?m1 (dl_head l) as ys t" by (rule seg_cong [OF _ conjunct1 [OF sg]]) (use np snoc t(3) in auto)
      then have "seg ?m1 (dl_head l) ps xs ?p" unfolding snoc xs(1) seg_snoc [OF xs(2)] using t by simp
      then show ?thesis using i(6) t(4) len by (simp add: seg_snoc)
    qed
    then have "list_inv (ps @ [?p]) (xs @ [x]) (?l, ?h)" using i np c1 by (auto simp: list_inv_def)
    ultimately show ?thesis by blast
  qed
qed

lemma list_get_spec:
  assumes inv: "list_inv ps xs s" and k: "k < length xs"
  shows "list_get k s = Inr (xs ! k)"
proof -
  obtain l h where s: "s = (l, h)" by (cases s)
  have i: "seg (dl_nodes l) (dl_head l) ps xs 0" "unat (dl_count l) = length ps" using inv by (simp_all add: list_inv_def s)
  have kp: "k < length ps" using k seg_length [OF i(1)] by simp
  then have u: "unat (word_of_nat k :: u64) = k" using i(2) unat_u64_less [of "dl_count l"] by (simp add: unat_of_nat)
  have "\<not> word_of_nat k \<ge> dl_count l" using kp i(2) u by (simp add: word_le_nat_alt)
  moreover have "node_at l (ps ! k) = Inr \<lparr>nd_data = xs ! k, nd_next = (if Suc k < length ps then ps ! Suc k else 0)\<rparr>"
    using seg_node [OF i(1) kp] by (simp add: node_at_def)
  ultimately show ?thesis by (simp add: s list_get_def ds_list_get_def u seg_walk_nodes [OF i(1) kp])
qed

lemma list_remove_spec:
  assumes inv: "list_inv ps xs s" and k: "k < length xs"
  shows "\<exists>s'. list_remove k s = Inr s' \<and> list_inv (take k ps @ drop (Suc k) ps) (take k xs @ drop (Suc k) xs) s'"
proof -
  obtain l h where s: "s = (l, h)" by (cases s)
  let ?m = "dl_nodes l"
  have i: "seg ?m (dl_head l) ps xs 0" "distinct ps" "dl_tail l = (if ps = [] then 0 else last ps)"
    "unat (dl_count l) = length ps" "\<forall>p \<in> set ps. p < dh_next h" "0 < dh_next h" "dh_allocs h = []"
    using inv by (simp_all add: list_inv_def s)
  have len: "length xs = length ps" by (rule seg_length [OF i(1)])
  have kp: "k < length ps" using k len by simp
  then have u: "unat (word_of_nat k :: u64) = k" using i(4) unat_u64_less [of "dl_count l"] by (simp add: unat_of_nat)
  have ncnt: "\<not> word_of_nat k \<ge> dl_count l" using kp i(4) u by (simp add: word_le_nat_alt)
  define as bs c ys zs y where d: "as = take k ps" "bs = drop (Suc k) ps" "c = ps ! k" "ys = take k xs" "zs = drop (Suc k) xs" "y = xs ! k"
  have ps: "ps = as @ c # bs" "xs = ys @ y # zs" using kp k by (simp_all add: d id_take_nth_drop)
  have la: "length as = length ys" using kp k by (simp add: d)
  obtain r where r: "seg ?m (dl_head l) as ys c" "?m c = Some \<lparr>nd_data = y, nd_next = r\<rparr>" "c \<noteq> 0" "seg ?m r bs zs 0"
  proof -
    obtain n where n: "seg ?m (dl_head l) as ys c" "?m c = Some n" "nd_data n = y" "c \<noteq> 0" "seg ?m (nd_next n) bs zs 0"
      using i(1) unfolding ps seg_append [OF la] by auto
    have "n = \<lparr>nd_data = y, nd_next = nd_next n\<rparr>" using n(3) by (cases n) simp
    with n show thesis using that [of "nd_next n"] by simp
  qed
  have nc: "node_at l c = Inr \<lparr>nd_data = y, nd_next = r\<rparr>" using r by (simp add: node_at_def)
  have one: "1 \<le> dl_count l" using i(4) kp by (simp add: word_le_nat_alt)
  then have c1: "unat (dl_count l - 1) = length (as @ bs)" using i(4) ps(1) by (simp add: unat_sub)
  have dis: "distinct (as @ bs)" "c \<notin> set as" "c \<notin> set bs" using i(2) unfolding ps(1) by auto
  have bsr: "bs = [] \<longleftrightarrow> r = 0" using r(4) by (cases bs; cases zs) auto
  have lst: "c = dl_tail l \<longleftrightarrow> bs = []" using i(2,3) unfolding ps(1) by (auto simp: last_append)
  let ?h = "ds_kfree (ds_kfree h)"
  note walk = seg_walk_nodes [OF i(1) kp, of 0, folded d(3)] and fin = i(4-7) c1 dis bsr
  show ?thesis
  proof (cases "k = 0")
    case True
    then have as: "as = []" "ys = []" by (simp_all add: d)
    let ?l = "l\<lparr>dl_head := r, dl_tail := (if bs = [] then 0 else dl_tail l), dl_nodes := ?m(c := None),
      dl_freed := dl_freed l @ [y], dl_count := dl_count l - 1\<rparr>"
    have "list_remove k s = Inr (?l, ?h)"
      using ncnt walk nc True lst
      by (simp add: s list_remove_def ds_list_remove_def list_delete_def u kfree_node_def Let_def)
    moreover have "seg (?m(c := None)) r bs zs 0" by (rule seg_cong [OF _ r(4)]) (use dis(3) in auto)
    then have "list_inv bs zs (?l, ?h)"
      using fin as i(3) ps(1) by (auto simp: list_inv_def ds_kfree_def)
    ultimately show ?thesis unfolding d [symmetric] as by auto
  next
    case False
    then obtain as' t where as: "as = as' @ [t]" using kp by (cases as rule: rev_cases) (auto simp: d)
    then obtain ys' x where ys: "ys = ys' @ [x]" "length as' = length ys'" using la by (cases ys rule: rev_cases) auto
    note sg = r(1) [unfolded as ys(1) seg_snoc [OF ys(2)]]
    have "length as = k" using kp by (simp add: d)
    then have lk: "k - 1 = length as'" using as by simp
    have t: "ps ! (k - 1) = t" "t \<noteq> 0" "t \<noteq> c" "t \<notin> set as'" "t \<notin> set bs"
    proof -
      show "ps ! (k - 1) = t" unfolding ps(1) as lk by (simp add: nth_append)
      show "t \<noteq> 0" using sg by blast
      show "t \<noteq> c" "t \<notin> set as'" "t \<notin> set bs" using i(2) unfolding ps(1) as by auto
    qed
    let ?m1 = "(?m(t \<mapsto> \<lparr>nd_data = x, nd_next = r\<rparr>))(c := None)"
    let ?l = "l\<lparr>dl_nodes := ?m1, dl_tail := (if bs = [] then t else dl_tail l), dl_freed := dl_freed l @ [y], dl_count := dl_count l - 1\<rparr>"
    have nt: "node_at l t = Inr \<lparr>nd_data = x, nd_next = c\<rparr>" using sg by (simp add: node_at_def)
    have rem: "list_remove k s = Inr (?l, ?h)"
      using ncnt walk nc nt False t(1,2) lst
      by (simp add: s list_remove_def ds_list_remove_def list_delete_def u kfree_node_def Let_def)
    have "seg ?m1 (dl_head l) as ys r"
    proof -
      have sr: "seg (?m(t \<mapsto> \<lparr>nd_data = x, nd_next = r\<rparr>)) (dl_head l) as ys r"
        using seg_retarget [OF r(1) [unfolded as ys(1)] ys(2) t(4)] unfolding as ys(1) .
      show ?thesis by (rule seg_cong [OF _ sr]) (use dis(2) in auto)
    qed
    moreover have "seg ?m1 r bs zs 0" by (rule seg_cong [OF _ r(4)]) (use dis(3) t(5) in auto)
    ultimately have "seg ?m1 (dl_head l) (as @ bs) (ys @ zs) 0" unfolding seg_append [OF la] by blast
    then have "list_inv (as @ bs) (ys @ zs) (?l, ?h)"
      using fin i(3) ps(1) as by (auto simp: list_inv_def ds_kfree_def)
    with rem show ?thesis unfolding d [symmetric] by blast
  qed
qed

interpretation lst: sequence list_ok list_elems "\<lambda>x. x \<noteq> 0" "2 ^ 64 - 1" list_push list_get list_remove
proof unfold_locales
  fix s :: "ds_list \<times> ds_heap" and e :: u64
  assume ok: "list_ok s" and e: "e \<noteq> 0" and len: "length (list_elems s) < 2 ^ 64 - 1"
  from ok obtain ps where ps: "list_inv ps (list_elems s) s" by (auto simp: list_ok_def)
  from list_push_spec [OF ps e len] obtain s' ps' where "list_push e s = Inr s'" "list_inv ps' (list_elems s @ [e]) s'" by blast
  then show "\<exists>s'. list_push e s = Inr s' \<and> list_ok s' \<and> list_elems s' = list_elems s @ [e]"
    using list_inv_elems by blast
next
  fix s i
  assume ok: "list_ok s" and i: "i < length (list_elems s)"
  then obtain ps where ps: "list_inv ps (list_elems s) s" by (auto simp: list_ok_def)
  show "list_get i s = Inr (list_elems s ! i)" by (rule list_get_spec [OF ps i])
  show "\<exists>s'. list_remove i s = Inr s' \<and> list_ok s' \<and> list_elems s' = take i (list_elems s) @ drop (Suc i) (list_elems s)"
    using list_remove_spec [OF ps i] list_inv_elems by blast
qed

text \<open>Taking the nodes out at the head, and freeing the whole list.\<close>

lemma list_pop_spec:
  assumes "list_inv (p # ps) (x # xs) (l, h)"
  shows "\<exists>l' h'. ds_list_pop (Some l) h = Inr (x, Some l', h') \<and> list_inv ps xs (l', h')"
proof -
  let ?m = "dl_nodes l"
  obtain n where n: "dl_head l = p" "p \<noteq> 0" "?m p = Some n" "nd_data n = x" "seg ?m (nd_next n) ps xs 0"
    and i: "p \<notin> set ps" "distinct ps" "dl_tail l = last (p # ps)" "unat (dl_count l) = Suc (length ps)"
      "\<forall>p \<in> set ps. p < dh_next h" "0 < dh_next h" "dh_allocs h = []"
    using assms by (auto simp: list_inv_def)
  let ?l = "l\<lparr>dl_head := nd_next n, dl_tail := (if nd_next n = 0 then 0 else dl_tail l), dl_nodes := ?m(p := None), dl_count := dl_count l - 1\<rparr>"
  have nx: "nd_next n = 0 \<longleftrightarrow> ps = []" using n(5) by (cases ps; cases xs) auto
  have "1 \<le> dl_count l" using i(4) by (simp add: word_le_nat_alt)
  then have c1: "unat (dl_count l - 1) = length ps" using i(4) by (simp add: unat_sub)
  have "ds_list_pop (Some l) h = Inr (x, Some ?l, ds_kfree h)"
    using n by (simp add: ds_list_pop_def list_take_def node_at_def kfree_node_def Let_def)
  moreover have "seg (?m(p := None)) (nd_next n) ps xs 0" by (rule seg_cong [OF _ n(5)]) (use i(1) in auto)
  then have "list_inv ps xs (?l, ds_kfree h)" using i c1 nx by (auto simp: list_inv_def ds_kfree_def)
  ultimately show ?thesis by blast
qed

primrec list_pops :: "nat \<Rightarrow> ds_list option \<Rightarrow> ds_heap \<Rightarrow> (u64 list \<times> ds_list option \<times> ds_heap) res" where
  "list_pops 0 lo h = Inr ([], lo, h)"
| "list_pops (Suc n) lo h = bindR (ds_list_pop lo h) (\<lambda>(x, lo1, h1).
     bindR (list_pops n lo1 h1) (\<lambda>(xs, r). Inr (x # xs, r)))"

lemma list_pops_spec:
  "list_inv ps xs (l, h) \<Longrightarrow> \<exists>l' h'. list_pops (length xs) (Some l) h = Inr (xs, Some l', h') \<and> list_inv [] [] (l', h')"
proof (induction xs arbitrary: ps l h)
  case Nil
  then have "ps = []" using seg_length by (fastforce simp: list_inv_def)
  with Nil show ?case by auto
next
  case (Cons x xs)
  then obtain p qs where ps: "ps = p # qs" by (cases ps) (auto simp: list_inv_def)
  from list_pop_spec [OF Cons.prems [unfolded ps]]
  obtain l1 h1 where "ds_list_pop (Some l) h = Inr (x, Some l1, h1)" "list_inv qs xs (l1, h1)" by blast
  with Cons.IH [OF this(2)] show ?case by auto
qed

lemma destroy_nodes_spec:
  "seg (dl_nodes l) p ps xs 0 \<Longrightarrow> distinct ps \<Longrightarrow> length ps \<le> fuel \<Longrightarrow>
    \<exists>l' h'. destroy_nodes fuel l p h = Inr (l', h') \<and> dl_freed l' = dl_freed l @ xs \<and>
      dh_live h' = dh_live h - 2 * int (length ps) \<and> dh_allocs h' = dh_allocs h"
proof (induction fuel arbitrary: l p ps xs h)
  case 0
  then show ?case by (cases xs) auto
next
  case (Suc fuel)
  show ?case
  proof (cases ps)
    case Nil
    then show ?thesis using Suc.prems(1) by (cases xs) auto
  next
    case (Cons a as)
    then obtain y ys n where n: "xs = y # ys" "p = a" "a \<noteq> 0" "dl_nodes l a = Some n" "nd_data n = y" "seg (dl_nodes l) (nd_next n) as ys 0"
      using Suc.prems(1) by (cases xs) auto
    let ?l = "(kfree_node p l)\<lparr>dl_freed := dl_freed l @ [y]\<rparr>"
    have "seg (dl_nodes ?l) (nd_next n) as ys 0"
      by (rule seg_cong [OF _ n(6)]) (use Suc.prems(2) n(2) Cons in \<open>auto simp: kfree_node_def\<close>)
    from Suc.IH [OF this, of "ds_kfree (ds_kfree h)"] Suc.prems(2,3) Cons
    show ?thesis using n by (auto simp: node_at_def ds_kfree_def)
  qed
qed

lemma list_push_freed: "list_push x s = Inr s' \<Longrightarrow> dl_freed (fst s') = dl_freed (fst s)"
  by (auto simp: list_push_def ds_list_push_def list_append_def Let_def bindR_def split: prod.splits if_splits option.splits sum.splits)

lemma list_push_all_freed: "push_all list_push xs s = Inr s' \<Longrightarrow> dl_freed (fst s') = dl_freed (fst s)"
  by (induction xs arbitrary: s) (auto simp: bindR_def list_push_freed split: sum.splits)

lemma list_create_ok:
  assumes "dh_allocs h = []" "0 < dh_next h"
  shows "\<exists>l h0. ds_list_create h = (Some l, h0) \<and> list_ok (l, h0) \<and> list_elems (l, h0) = [] \<and> dl_freed l = []"
  using assms by (auto simp: ds_list_create_def ds_kmalloc_def list_ok_def list_inv_def list_elems_def intro!: exI [of _ "[]"])

text \<open>
  A fresh list holds everything pushed into it in order; popping it until it is empty gives
  the elements first in, first out; and destroying it instead ends after one step per node,
  never touches a freed node and frees every element once, in order.
\<close>

theorem list_is_fifo:
  assumes "dh_allocs h = []" "0 < dh_next h" "\<forall>x \<in> set xs. x \<noteq> 0" "length xs \<le> 2 ^ 64 - 1"
  shows "\<exists>l h0 l1 h1. ds_list_create h = (Some l, h0) \<and> push_all list_push xs (l, h0) = Inr (l1, h1) \<and>
    (\<forall>i < length xs. list_get i (l1, h1) = Inr (xs ! i)) \<and>
    (\<exists>l2 h2. list_pops (length xs) (Some l1) h1 = Inr (xs, Some l2, h2) \<and> ds_list_pop (Some l2) h2 = Inr (0, Some l2, h2)) \<and>
    (\<forall>fuel \<ge> length xs. \<exists>h2. ds_list_destroy fuel (Some l1) h1 = Inr (xs, h2))"
proof -
  obtain l h0 where l: "ds_list_create h = (Some l, h0)" "list_ok (l, h0)" "list_elems (l, h0) = []" "dl_freed l = []"
    using list_create_ok [OF assms(1,2)] by blast
  obtain s1 where s1: "push_all list_push xs (l, h0) = Inr s1" "list_ok s1" "list_elems s1 = xs"
    using lst.push_all_spec [OF l(2) assms(3)] l(3) assms(4) by auto
  obtain l1 h1 ps where p: "s1 = (l1, h1)" "list_inv ps xs (l1, h1)" using s1(2,3) by (cases s1) (auto simp: list_ok_def)
  have fr: "dl_freed l1 = []" using list_push_all_freed [OF s1(1)] l(4) p(1) by simp
  obtain l2 h2 where pop: "list_pops (length xs) (Some l1) h1 = Inr (xs, Some l2, h2)" "list_inv [] [] (l2, h2)"
    using list_pops_spec [OF p(2)] by blast
  then have "ds_list_pop (Some l2) h2 = Inr (0, Some l2, h2)" by (simp add: list_inv_def ds_list_pop_def list_take_def)
  moreover have "\<exists>h2. ds_list_destroy fuel (Some l1) h1 = Inr (xs, h2)" if "length xs \<le> fuel" for fuel
  proof -
    have "seg (dl_nodes l1) (dl_head l1) ps xs 0" "distinct ps" using p(2) by (simp_all add: list_inv_def)
    with destroy_nodes_spec [OF this, of fuel h1] seg_length [OF this(1)] that fr show ?thesis
      by (auto simp: ds_list_destroy_def)
  qed
  ultimately show ?thesis using l(1) s1 p list_get_spec [OF p(2)] pop(1) by blast
qed

text \<open>A heap whose allocations all succeed.\<close>

definition ds_heap0 :: ds_heap where
  "ds_heap0 = \<lparr>dh_allocs = [], dh_bytes = (\<lambda>_. 0xCC), dh_next = 1, dh_live = 0\<rparr>"


theorem list_is_fifo_witness:
  "\<exists>l h0 l1 h1 h2. ds_list_create ds_heap0 = (Some l, h0) \<and> push_all list_push [7, 8] (l, h0) = Inr (l1, h1) \<and>
    ds_list_destroy 2 (Some l1) h1 = Inr ([7, 8], h2)"
proof -
  have "\<exists>l h0 l1 h1. ds_list_create ds_heap0 = (Some l, h0) \<and> push_all list_push [7, 8] (l, h0) = Inr (l1, h1) \<and>
      (\<forall>i < length [7, 8 :: u64]. list_get i (l1, h1) = Inr ([7, 8] ! i)) \<and>
      (\<exists>l2 h2. list_pops (length [7, 8 :: u64]) (Some l1) h1 = Inr ([7, 8], Some l2, h2) \<and> ds_list_pop (Some l2) h2 = Inr (0, Some l2, h2)) \<and>
      (\<forall>fuel \<ge> length [7, 8 :: u64]. \<exists>h2. ds_list_destroy fuel (Some l1) h1 = Inr ([7, 8], h2))"
    by (rule list_is_fifo) (simp_all add: ds_heap0_def)
  then obtain l h0 l1 h1 where s: "ds_list_create ds_heap0 = (Some l, h0)" "push_all list_push [7, 8] (l, h0) = Inr (l1, h1)"
      "\<forall>fuel \<ge> length [7, 8 :: u64]. \<exists>h2. ds_list_destroy fuel (Some l1) h1 = Inr ([7, 8], h2)"
    by (elim exE conjE)
  from s(3) [rule_format, of 2] have "\<exists>h2. ds_list_destroy 2 (Some l1) h1 = Inr ([7, 8], h2)" by simp
  with s(1,2) show ?thesis by blast
qed

section \<open>The hash map is an association list\<close>

definition hashmap_ok :: "ds_hashmap \<Rightarrow> bool" where
  "hashmap_ok m \<longleftrightarrow> 0 < unat (hm_key_size m) \<and> 0 < unat (hm_value_size m) \<and>
     length (hm_keys m) = unat (hm_key_size m) * unat (hm_capacity m) \<and>
     length (hm_values m) = unat (hm_value_size m) * unat (hm_capacity m) \<and>
     length (hm_keys m) < 2 ^ 64 \<and> length (hm_values m) < 2 ^ 64 \<and> hm_count m \<le> hm_capacity m"

definition hashmap_entries :: "ds_hashmap \<Rightarrow> (u8 list \<times> u8 list) list" where
  "hashmap_entries m =
     map (\<lambda>i. (slot (unat (hm_key_size m)) i (hm_keys m), slot (unat (hm_value_size m)) i (hm_values m))) [0..<unat (hm_count m)]"

text \<open>Where the entry of a key stands, the number of entries when it has none.\<close>

fun entry_index :: "'k \<Rightarrow> ('k \<times> 'v) list \<Rightarrow> nat" where
  "entry_index k [] = 0"
| "entry_index k (e # es) = (if fst e = k then 0 else Suc (entry_index k es))"

text \<open>A lookup followed by reading the value it points to.\<close>

definition hashmap_read :: "u8 list \<Rightarrow> ds_hashmap \<Rightarrow> u8 list option res" where
  "hashmap_read key m = bindR (ds_hashmap_get (Some m) (Some key)) (\<lambda>r.
     case r of None \<Rightarrow> Inr None
     | Some off \<Rightarrow> bindR (get_bytes (unat off) (unat (hm_value_size m)) (hm_values m)) (\<lambda>v. Inr (Some v)))"

lemma entry_index_le: "entry_index k es \<le> length es"
  by (induction es) auto

lemma entry_index_less: "entry_index k es < length es \<longleftrightarrow> k \<in> fst ` set es"
  by (induction es) auto

lemma map_of_entry_index:
  "map_of es k = (if entry_index k es < length es then Some (snd (es ! entry_index k es)) else None)"
  by (induction es) auto

lemma entry_index_snoc: "entry_index k (es @ [(k, v)]) = entry_index k es"
  by (induction es) auto

lemma entry_index_drop: "i < length es \<Longrightarrow> entry_index k (drop i es) =
    (if fst (es ! i) = k then 0 else Suc (entry_index k (drop (Suc i) es)))"
  by (simp add: Cons_nth_drop_Suc [symmetric])

lemma length_hashmap_entries [simp]: "length (hashmap_entries m) = unat (hm_count m)"
  by (simp add: hashmap_entries_def)

lemma nth_hashmap_entries: "i < unat (hm_count m) \<Longrightarrow> hashmap_entries m ! i =
    (slot (unat (hm_key_size m)) i (hm_keys m), slot (unat (hm_value_size m)) i (hm_values m))"
  by (simp add: hashmap_entries_def)

lemma hashmap_slots_fit:
  assumes "hashmap_ok m" "i < unat (hm_capacity m)"
  shows "Suc i * unat (hm_key_size m) \<le> length (hm_keys m)" "Suc i * unat (hm_value_size m) \<le> length (hm_values m)"
proof -
  have "Suc i * n \<le> n * unat (hm_capacity m)" for n using assms(2) by (metis Suc_leI mult.commute mult_le_mono1)
  then show "Suc i * unat (hm_key_size m) \<le> length (hm_keys m)" "Suc i * unat (hm_value_size m) \<le> length (hm_values m)"
    using assms(1) by (simp_all add: hashmap_ok_def)
qed

lemma hashmap_offsets:
  assumes "hashmap_ok m" "unat i < unat (hm_capacity m)"
  shows "unat (i * hm_key_size m) = unat i * unat (hm_key_size m)" "unat (i * hm_value_size m) = unat i * unat (hm_value_size m)"
proof -
  have "unat i * unat (hm_key_size m) < 2 ^ 64" "unat i * unat (hm_value_size m) < 2 ^ 64"
    using hashmap_slots_fit [OF assms] assms(1) by (simp_all add: hashmap_ok_def)
  then show "unat (i * hm_key_size m) = unat i * unat (hm_key_size m)" "unat (i * hm_value_size m) = unat i * unat (hm_value_size m)"
    by (simp_all add: unat_word_ariths)
qed

lemma key_match_spec:
  "off + j + n \<le> length ks \<Longrightarrow> j + n \<le> length key \<Longrightarrow>
    key_match n off ks key j = Inr (take n (drop (off + j) ks) = take n (drop j key))"
proof (induction n arbitrary: j)
  case (Suc n)
  have "drop (off + j) ks = ks ! (off + j) # drop (off + Suc j) ks" "drop j key = key ! j # drop (Suc j) key"
    using Suc.prems by (simp_all add: Cons_nth_drop_Suc)
  moreover have "key_match n off ks key (Suc j) = Inr (take n (drop (off + Suc j) ks) = take n (drop (Suc j) key))"
    using Suc.prems by (intro Suc.IH) simp_all
  ultimately show ?case using Suc.prems by simp
qed simp

lemma find_key_spec:
  assumes ok: "hashmap_ok m" and key: "length key = unat (hm_key_size m)" and "i \<le> hm_count m"
    and "k = unat i + entry_index key (drop (unat i) (hashmap_entries m))"
  shows "find_key key m i = Inr (if k < unat (hm_count m) then Some (word_of_nat k) else None)"
  using assms(3,4)
proof (induction "unat (hm_count m) - unat i" arbitrary: i)
  case 0
  then have "i = hm_count m" by (simp add: word_le_nat_alt word_unat_eq_iff)
  then show ?case using 0 by (simp add: find_key.simps [of key m])
next
  case (Suc d)
  then have ic: "unat i < unat (hm_count m)" "i < hm_count m" by (simp_all add: word_less_nat_alt)
  then have cap: "unat i < unat (hm_capacity m)" using ok by (simp add: hashmap_ok_def word_le_nat_alt)
  note fit = hashmap_slots_fit(1) [OF ok cap]
  have i1: "unat (i + 1) = Suc (unat i)" by (rule unat_plus_one [OF ic(2)])
  have "key_match (unat (hm_key_size m)) (unat (i * hm_key_size m)) (hm_keys m) key 0 = Inr (fst (hashmap_entries m ! unat i) = key)"
    using fit key by (simp add: key_match_spec hashmap_offsets [OF ok cap] nth_hashmap_entries [OF ic(1)] slot_def)
  then have step: "find_key key m i = (if fst (hashmap_entries m ! unat i) = key then Inr (Some i) else find_key key m (i + 1))"
    using ic(2) by (subst find_key.simps) simp
  have "find_key key m (i + 1) = Inr (if k < unat (hm_count m) then Some (word_of_nat k) else None)"
    if "fst (hashmap_entries m ! unat i) \<noteq> key"
    using Suc.hyps(2) ic(1) i1 Suc.prems(2) that
    by (intro Suc.hyps(1)) (simp_all add: word_le_nat_alt entry_index_drop)
  then show ?case using step ic(1) Suc.prems(2) by (simp add: entry_index_drop)
qed

lemma find_key_first:
  assumes "hashmap_ok m" "length key = unat (hm_key_size m)"
  shows "find_key key m 0 =
    Inr (let k = entry_index key (hashmap_entries m) in if k < unat (hm_count m) then Some (word_of_nat k) else None)"
  using find_key_spec [OF assms, of 0] by (simp add: Let_def)

lemma hashmap_read_spec:
  assumes ok: "hashmap_ok m" and key: "length key = unat (hm_key_size m)"
  shows "hashmap_read key m = Inr (map_of (hashmap_entries m) key)"
proof (cases "entry_index key (hashmap_entries m) < unat (hm_count m)")
  case True
  let ?k = "entry_index key (hashmap_entries m)" and ?w = "word_of_nat (entry_index key (hashmap_entries m)) :: u64"
  have u: "unat ?w = ?k" using True unat_u64_less [of "hm_count m"] by (simp add: unat_of_nat)
  have cap: "unat ?w < unat (hm_capacity m)" using True u ok by (simp add: hashmap_ok_def word_le_nat_alt)
  have "get_bytes (unat (?w * hm_value_size m)) (unat (hm_value_size m)) (hm_values m) = Inr (slot (unat (hm_value_size m)) ?k (hm_values m))"
    unfolding hashmap_offsets(2) [OF ok cap] u by (rule get_slot [OF hashmap_slots_fit(2) [OF ok cap, unfolded u]])
  then show ?thesis
    using True by (simp add: hashmap_read_def ds_hashmap_get_def find_key_first [OF assms] map_of_entry_index nth_hashmap_entries)
next
  case False
  then show ?thesis by (simp add: hashmap_read_def ds_hashmap_get_def find_key_first [OF assms] map_of_entry_index)
qed

lemma hashmap_set_spec:
  assumes ok: "hashmap_ok m" and len: "length key = unat (hm_key_size m)" "length v = unat (hm_value_size m)"
    and room: "hm_count m < hm_capacity m"
  shows "\<exists>m'. ds_hashmap_set (Some m) (Some key) (Some v) = Inr (True, Some m') \<and> hashmap_ok m' \<and>
    hm_key_size m' = hm_key_size m \<and> hm_value_size m' = hm_value_size m \<and>
    hashmap_entries m' = hashmap_entries m @ [(key, v)]"
proof -
  let ?c = "unat (hm_count m)" and ?ks = "unat (hm_key_size m)" and ?vs = "unat (hm_value_size m)"
  have cap: "?c < unat (hm_capacity m)" using room by (simp add: word_less_nat_alt)
  note fit = hashmap_slots_fit [OF ok cap] and off = hashmap_offsets [OF ok cap]
  have pos: "0 < ?ks" "0 < ?vs" using ok by (simp_all add: hashmap_ok_def)
  obtain k where k: "put_bytes (?c * ?ks) key (hm_keys m) = Inr k" "length k = length (hm_keys m)"
    "\<forall>j. Suc j * ?ks \<le> length (hm_keys m) \<longrightarrow> slot ?ks j k = (if j = ?c then key else slot ?ks j (hm_keys m))"
    using put_slot [OF fit(1) len(1) pos(1)] by blast
  obtain w where w: "put_bytes (?c * ?vs) v (hm_values m) = Inr w" "length w = length (hm_values m)"
    "\<forall>j. Suc j * ?vs \<le> length (hm_values m) \<longrightarrow> slot ?vs j w = (if j = ?c then v else slot ?vs j (hm_values m))"
    using put_slot [OF fit(2) len(2) pos(2)] by blast
  let ?m = "m\<lparr>hm_keys := k, hm_values := w, hm_count := hm_count m + 1\<rparr>"
  have c1: "unat (hm_count m + 1) = Suc ?c" by (rule unat_plus_one [OF room])
  have "get_bytes 0 ?ks key = Inr key" "get_bytes 0 ?vs v = Inr v" using len by (simp_all add: get_bytes_def)
  then have "ds_hashmap_set (Some m) (Some key) (Some v) = Inr (True, Some ?m)"
    using room k(1) w(1) by (auto simp: ds_hashmap_set_def hashmap_append_def off not_le)
  moreover have "hashmap_ok ?m" using ok k(2) w(2) cap c1 by (simp add: hashmap_ok_def word_le_nat_alt)
  moreover have "slot ?ks j k = slot ?ks j (hm_keys m) \<and> slot ?vs j w = slot ?vs j (hm_values m)" if "j < ?c" for j
    using k(3) w(3) that hashmap_slots_fit [OF ok, of j] cap by simp
  then have "hashmap_entries ?m = hashmap_entries m @ [(key, v)]"
    using k(3) w(3) fit c1 by (simp add: hashmap_entries_def)
  ultimately show ?thesis by (intro exI [of _ ?m]) simp
qed

lemma hashmap_full:
  "hm_capacity m \<le> hm_count m \<Longrightarrow> ds_hashmap_set (Some m) (Some key) (Some v) = Inr (False, Some m)"
  by (simp add: ds_hashmap_set_def hashmap_append_def)

lemma shift_entries:
  assumes "for_up i c (move_slot ks) x = Inr x'" "for_up i c (move_slot vs) y = Inr y'"
  shows "for_up i c (move_entry ks vs) (x, y) = Inr (x', y')"
  using assms
proof (induction "unat c - unat i" arbitrary: i x y)
  case 0
  then have "\<not> i < c" by (simp add: word_less_nat_alt)
  then show ?case using 0 by (simp add: for_up.simps [of i])
next
  case (Suc d)
  then have ic: "i < c" by (simp add: word_less_nat_alt)
  from Suc.prems(1) ic obtain x1 where x1: "move_slot ks i x = Inr x1" "for_up (i + 1) c (move_slot ks) x1 = Inr x'"
    by (auto simp: for_up.simps [of i] bindR_def split: sum.splits)
  from Suc.prems(2) ic obtain y1 where y1: "move_slot vs i y = Inr y1" "for_up (i + 1) c (move_slot vs) y1 = Inr y'"
    by (auto simp: for_up.simps [of i] bindR_def split: sum.splits)
  have "for_up (i + 1) c (move_entry ks vs) (x1, y1) = Inr (x', y')"
    by (rule Suc.hyps(1) [OF _ x1(2) y1(2)]) (use Suc.hyps(2) unat_plus_one [OF ic] in simp)
  then show ?case using ic x1(1) y1(1) by (simp add: for_up.simps [of i] move_entry_def)
qed

lemma hashmap_remove_spec:
  assumes ok: "hashmap_ok m" and key: "length key = unat (hm_key_size m)"
    and "i = entry_index key (hashmap_entries m)" "i < length (hashmap_entries m)"
  shows "\<exists>m'. ds_hashmap_remove (Some m) (Some key) = Inr (True, Some m') \<and> hashmap_ok m' \<and>
    hm_key_size m' = hm_key_size m \<and> hm_value_size m' = hm_value_size m \<and>
    hashmap_entries m' = take i (hashmap_entries m) @ drop (Suc i) (hashmap_entries m)"
proof -
  let ?c = "unat (hm_count m)" and ?ks = "unat (hm_key_size m)" and ?vs = "unat (hm_value_size m)" and ?w = "word_of_nat i :: u64"
  have ic: "i < ?c" using assms(4) by simp
  have u: "unat ?w = i" using ic unat_u64_less [of "hm_count m"] by (simp add: unat_of_nat)
  have wc: "?w < hm_count m" using ic u by (simp add: word_less_nat_alt)
  have pos: "0 < ?ks" "0 < ?vs" "length (hm_keys m) < 2 ^ 64" "length (hm_values m) < 2 ^ 64" "?c \<le> unat (hm_capacity m)"
    using ok by (simp_all add: hashmap_ok_def word_le_nat_alt)
  have le: "?c * ?ks \<le> length (hm_keys m)" "?c * ?vs \<le> length (hm_values m)"
    using ok pos(5) by (simp_all add: hashmap_ok_def mult.commute)
  obtain k where k: "for_up ?w (hm_count m - 1) (move_slot (hm_key_size m)) (hm_keys m) = Inr k" "length k = length (hm_keys m)"
    "\<forall>j < ?c - 1. slot ?ks j k = slot ?ks (if j < i then j else Suc j) (hm_keys m)"
    using shift_slots [OF pos(1) le(1) pos(3) wc] unfolding u by blast
  obtain v where v: "for_up ?w (hm_count m - 1) (move_slot (hm_value_size m)) (hm_values m) = Inr v" "length v = length (hm_values m)"
    "\<forall>j < ?c - 1. slot ?vs j v = slot ?vs (if j < i then j else Suc j) (hm_values m)"
    using shift_slots [OF pos(2) le(2) pos(4) wc] unfolding u by blast
  have "1 \<le> hm_count m" using ic by (simp add: word_le_nat_alt)
  then have c1: "unat (hm_count m - 1) = ?c - 1" by (simp add: unat_sub)
  let ?m = "m\<lparr>hm_keys := k, hm_values := v, hm_count := hm_count m - 1\<rparr>"
  have "find_key key m 0 = Inr (Some ?w)" using ic by (simp add: find_key_first [OF ok key] assms(3) Let_def)
  then have "ds_hashmap_remove (Some m) (Some key) = Inr (True, Some ?m)"
    using shift_entries [OF k(1) v(1)] by (simp add: ds_hashmap_remove_def hashmap_delete_def)
  moreover have "hashmap_ok ?m" using ok k(2) v(2) c1 by (auto simp: hashmap_ok_def word_le_nat_alt)
  moreover have "hashmap_entries ?m = take i (hashmap_entries m) @ drop (Suc i) (hashmap_entries m)"
    using k(3) v(3) ic c1 by (intro nth_equalityI) (auto simp: hashmap_entries_def nth_append)
  ultimately show ?thesis by (intro exI [of _ ?m]) simp
qed

text \<open>
  C30. The map answers a lookup with the value of the first entry of the key. Setting a key that
  has no entry makes exactly that key readable with its value, but setting a key that has one
  returns true and changes no lookup: the old value stays. Removing a key shows the entry
  stored after it, if any.
\<close>

theorem hashmap_first_entry_wins:
  assumes ok: "hashmap_ok m" and len: "length key = unat (hm_key_size m)" "length v = unat (hm_value_size m)"
    and room: "hm_count m < hm_capacity m"
  shows "\<exists>m1. ds_hashmap_set (Some m) (Some key) (Some v) = Inr (True, Some m1) \<and> hashmap_ok m1 \<and>
    (\<forall>k. length k = length key \<longrightarrow> hashmap_read k m = Inr (map_of (hashmap_entries m) k) \<and>
      hashmap_read k m1 = (if k = key \<and> hashmap_read key m = Inr None then Inr (Some v) else hashmap_read k m)) \<and>
    (\<exists>m2. ds_hashmap_remove (Some m1) (Some key) = Inr (True, Some m2) \<and> hashmap_ok m2 \<and>
      (hashmap_read key m = Inr None \<longrightarrow> (\<forall>k. length k = length key \<longrightarrow> hashmap_read k m2 = hashmap_read k m)) \<and>
      (hashmap_read key m \<noteq> Inr None \<longrightarrow> hashmap_read key m2 \<noteq> Inr None))"
proof -
  let ?es = "hashmap_entries m"
  obtain m1 where m1: "ds_hashmap_set (Some m) (Some key) (Some v) = Inr (True, Some m1)" "hashmap_ok m1"
      "hm_key_size m1 = hm_key_size m" "hashmap_entries m1 = ?es @ [(key, v)]"
    using hashmap_set_spec [OF ok len room] by blast
  have rd: "hashmap_read k m = Inr (map_of ?es k)" "hashmap_read k m1 = Inr (map_of (?es @ [(key, v)]) k)"
    if "length k = length key" for k
    using hashmap_read_spec [OF ok, of k] hashmap_read_spec [OF m1(2), of k] that len(1) m1(3,4) by simp_all
  define i where "i = entry_index key (hashmap_entries m1)"
  have "key \<in> fst ` set (hashmap_entries m1)" using m1(4) by simp
  then have "i < length (hashmap_entries m1)" by (simp only: i_def entry_index_less)
  then obtain m2 where m2: "ds_hashmap_remove (Some m1) (Some key) = Inr (True, Some m2)" "hashmap_ok m2"
      "hm_key_size m2 = hm_key_size m1" "hashmap_entries m2 = take i (?es @ [(key, v)]) @ drop (Suc i) (?es @ [(key, v)])"
    using hashmap_remove_spec [OF m1(2) _ i_def] len(1) m1(3,4) by auto
  have rd2: "hashmap_read k m2 = Inr (map_of (hashmap_entries m2) k)" if "length k = length key" for k
    using hashmap_read_spec [OF m2(2), of k] that len(1) m1(3) m2(3) by simp
  have ie: "i = entry_index key ?es" unfolding i_def m1(4) by (rule entry_index_snoc)
  have none: "hashmap_entries m2 = ?es" if "map_of ?es key = None"
  proof -
    have "\<not> i < length ?es" using that unfolding ie entry_index_less by (simp add: map_of_eq_None_iff)
    then have "i = length ?es" using entry_index_le [of key ?es] ie by linarith
    then show ?thesis using m2(4) by simp
  qed
  have some: "(key, v) \<in> set (hashmap_entries m2)" if "map_of ?es key \<noteq> None"
  proof -
    have "i < length ?es" using that unfolding ie entry_index_less by (simp add: map_of_eq_None_iff)
    then show ?thesis using m2(4) by simp
  qed
  have "hashmap_read k m1 = (if k = key \<and> hashmap_read key m = Inr None then Inr (Some v) else hashmap_read k m)"
    if "length k = length key" for k
    using rd [OF that] rd(1) [OF refl] by (auto simp: map_add_def split: option.splits)
  moreover have "hashmap_read k m2 = hashmap_read k m" if "length k = length key" "hashmap_read key m = Inr None" for k
    using rd2 [OF that(1)] rd(1) [OF that(1)] rd(1) [OF refl] that(2) none by simp
  moreover have "hashmap_read key m2 \<noteq> Inr None" if "hashmap_read key m \<noteq> Inr None"
  proof -
    have "(key, v) \<in> set (hashmap_entries m2)" using that rd(1) [OF refl] by (intro some) auto
    then have "map_of (hashmap_entries m2) key \<noteq> None" unfolding map_of_eq_None_iff by force
    then show ?thesis using rd2 [OF refl] by simp
  qed
  ultimately show ?thesis using m1(1,2) m2(1,2) rd(1) by blast
qed

lemma hashmap_create_ok:
  assumes "dh_allocs h = []" "ks \<noteq> 0" "vs \<noteq> 0" "cap \<noteq> 0" "unat ks * unat cap < 2 ^ 64" "unat vs * unat cap < 2 ^ 64"
  shows "\<exists>m h'. ds_hashmap_create ks vs cap h = (Some m, h') \<and> hashmap_ok m \<and> hashmap_entries m = [] \<and>
    hm_key_size m = ks \<and> hm_value_size m = vs \<and> hm_capacity m = cap \<and> dh_live (ds_hashmap_destroy (Some m) h') = dh_live h"
proof -
  have p: "0 < unat ks" "0 < unat vs" "0 < unat cap" using assms(2-4) by (simp_all add: unat_gt_0)
  have u: "unat (ks * cap) = unat ks * unat cap" "unat (vs * cap) = unat vs * unat cap"
    using assms(5,6) by (simp_all add: unat_word_ariths)
  then have "ks * cap \<noteq> 0" "vs * cap \<noteq> 0" using p by (metis less_numeral_extra(3) mult_pos_pos unat_0)+
  then show ?thesis
    using assms p u
    by (simp add: ds_hashmap_create_def ds_kmalloc_def hashmap_ok_def hashmap_entries_def ds_hashmap_destroy_def ds_kfree_def Let_def)
qed

definition map_demo :: ds_hashmap where
  "map_demo = \<lparr>hm_keys = [1, 0, 0], hm_values = [10, 11, 0, 0, 0, 0], hm_key_size = 1, hm_value_size = 2, hm_capacity = 3, hm_count = 1\<rparr>"

theorem hashmap_first_entry_wins_witness:
  "\<exists>m1. ds_hashmap_set (Some map_demo) (Some [1]) (Some [20, 21]) = Inr (True, Some m1) \<and> hashmap_read [1] m1 = Inr (Some [10, 11])"
proof -
  have ok: "hashmap_ok map_demo" "length [1 :: u8] = unat (hm_key_size map_demo)" "length [20, 21 :: u8] = unat (hm_value_size map_demo)"
      "hm_count map_demo < hm_capacity map_demo"
    by (simp_all add: map_demo_def hashmap_ok_def)
  have "hashmap_read [1] map_demo = Inr (Some [10, 11])"
    using hashmap_read_spec [OF ok(1,2)] by (simp add: map_demo_def hashmap_entries_def slot_def)
  with hashmap_first_entry_wins [OF ok] show ?thesis by auto
qed

end
