(* ===== verification/Mira_Process.thy ===== *)
theory Mira_Process
  imports Mira_Heap
begin

text \<open>
  Processes and the round-robin scheduler, \<open>kernel/process.c\<close>. A \<open>process_t\<close> obtained from
  \<open>kmalloc\<close> is a record in a store indexed by its address; a null pointer is 0 and an
  access through a freed pointer is a fault. The processor is the register file that a
  context switch saves and loads, and \<open>cr3\<close>. The process list and the ready queue are
  linked through the same \<open>next\<close> and \<open>prev\<close> fields, as in the source.
\<close>

section \<open>State\<close>

datatype process_state = PROCESS_STATE_READY | PROCESS_STATE_RUNNING | PROCESS_STATE_BLOCKED | PROCESS_STATE_ZOMBIE

record cpu_context =
  c_r15 :: u64
  c_r14 :: u64
  c_r13 :: u64
  c_r12 :: u64
  c_r11 :: u64
  c_r10 :: u64
  c_r9 :: u64
  c_r8 :: u64
  c_rdi :: u64
  c_rsi :: u64
  c_rbp :: u64
  c_rbx :: u64
  c_rdx :: u64
  c_rcx :: u64
  c_rax :: u64
  c_rip :: u64
  c_rflags :: u64
  c_rsp :: u64

definition zero_context :: cpu_context where
  "zero_context = \<lparr>c_r15 = 0, c_r14 = 0, c_r13 = 0, c_r12 = 0, c_r11 = 0, c_r10 = 0, c_r9 = 0, c_r8 = 0,
     c_rdi = 0, c_rsi = 0, c_rbp = 0, c_rbx = 0, c_rdx = 0, c_rcx = 0, c_rax = 0, c_rip = 0, c_rflags = 0, c_rsp = 0\<rparr>"

definition PROCESS_NAME_MAX :: nat where "PROCESS_NAME_MAX = 64"
definition PROCESS_MAX_OPEN_FILES :: nat where "PROCESS_MAX_OPEN_FILES = 16"
definition PROCESS_STACK_SIZE :: u64 where "PROCESS_STACK_SIZE = 0x100000"

record process =
  p_pid :: u32
  p_name :: "u8 list"
  p_state :: process_state
  p_cr3 :: u64
  p_stack_top :: u64
  p_stack_bottom :: u64
  p_entry_point :: u64
  p_context :: cpu_context
  p_time_slice :: u64
  p_total_time :: u64
  p_next :: addr
  p_prev :: addr
  p_fd_table :: "u32 list"
  p_parent :: addr
  p_children :: addr
  p_next_sibling :: addr
  p_exit_status :: u32

definition zero_process :: process where
  "zero_process = \<lparr>p_pid = 0, p_name = [], p_state = PROCESS_STATE_READY, p_cr3 = 0, p_stack_top = 0,
     p_stack_bottom = 0, p_entry_point = 0, p_context = zero_context, p_time_slice = 0, p_total_time = 0,
     p_next = 0, p_prev = 0, p_fd_table = replicate PROCESS_MAX_OPEN_FILES 0, p_parent = 0, p_children = 0,
     p_next_sibling = 0, p_exit_status = 0\<rparr>"

text \<open>\<open>sizeof(process_t)\<close> on x86-64.\<close>

definition PROCESS_SIZE :: u64 where "PROCESS_SIZE = 376"

record psys =
  pheap :: heap
  procs :: "addr \<Rightarrow> process option"
  cpu :: cpu_context
  cpu_cr3 :: u64
  current_process :: addr
  process_list :: addr
  next_pid :: u32
  ready_queue :: addr
  ready_queue_tail :: addr

definition get_proc :: "addr \<Rightarrow> psys \<Rightarrow> process res" where
  "get_proc a s = (if a = 0 then Inl NullDeref else case procs s a of None \<Rightarrow> Inl BadPointer | Some p \<Rightarrow> Inr p)"

definition upd_proc :: "addr \<Rightarrow> (process \<Rightarrow> process) \<Rightarrow> psys \<Rightarrow> psys res" where
  "upd_proc a f s = bindR (get_proc a s) (\<lambda>p. Inr (s\<lparr>procs := (procs s)(a := Some (f p))\<rparr>))"

definition proc_pmm :: "psys \<Rightarrow> pmm" where "proc_pmm s = vm_pmm (hvm (pheap s))"

definition set_proc_pmm :: "pmm \<Rightarrow> psys \<Rightarrow> psys" where
  "set_proc_pmm p s = s\<lparr>pheap := (pheap s)\<lparr>hvm := (hvm (pheap s))\<lparr>vm_pmm := p\<rparr>\<rparr>\<rparr>"

section \<open>Creation and destruction\<close>

definition process_alloc_pid :: "psys \<Rightarrow> u32 \<times> psys" where
  "process_alloc_pid s = (next_pid s, s\<lparr>next_pid := next_pid s + 1\<rparr>)"

text \<open>\<open>pmm_free_page\<close> on \<open>n\<close> consecutive pages from a base address.\<close>

fun free_pages_from :: "nat \<Rightarrow> u64 \<Rightarrow> psys \<Rightarrow> psys res" where
  "free_pages_from 0 a s = Inr s"
| "free_pages_from (Suc n) a s =
     bindR (pmm_free_page a (proc_pmm s)) (\<lambda>p. free_pages_from n (a + 4096) (set_proc_pmm p s))"

text \<open>
  The loop over the remaining stack pages from index \<open>i\<close> on; the result says whether all
  were obtained, after the failure branch has freed \<open>i\<close> pages from the bottom address.
\<close>

fun alloc_stack :: "nat \<Rightarrow> nat \<Rightarrow> u64 \<Rightarrow> psys \<Rightarrow> (bool \<times> psys) res" where
  "alloc_stack 0 i bottom s = Inr (True, s)"
| "alloc_stack (Suc n) i bottom s =
     bindR (pmm_alloc_page (proc_pmm s)) (\<lambda>(pg, p).
       let s1 = set_proc_pmm p s
       in if pg = 0 then bindR (free_pages_from i bottom s1) (\<lambda>s2. Inr (False, s2))
          else alloc_stack n (i + 1) bottom s1)"

definition kfree_proc :: "addr \<Rightarrow> psys \<Rightarrow> psys" where
  "kfree_proc a s = s\<lparr>pheap := kfree a (pheap s), procs := (procs s)(a := None)\<rparr>"

text \<open>A name of 64 or more characters overruns the name field of the structure.\<close>

definition process_create :: "u8 list \<Rightarrow> u64 \<Rightarrow> psys \<Rightarrow> (addr \<times> psys) res" where
  "process_create name entry_pt s =
     bindR (kmalloc PROCESS_SIZE (pheap s)) (\<lambda>(proc, h).
       let s1 = s\<lparr>pheap := h\<rparr>
       in if proc = 0 then Inr (0, s1)
          else
            let (pid, s2) = process_alloc_pid (s1\<lparr>procs := (procs s1)(proc := Some zero_process)\<rparr>)
            in if length name \<ge> PROCESS_NAME_MAX then Inl OutOfBounds
               else bindR (upd_proc proc (\<lambda>p. p\<lparr>p_pid := pid, p_name := name, p_state := PROCESS_STATE_READY,
                                              p_entry_point := entry_pt\<rparr>) s2) (\<lambda>s3.
                    bindR (pmm_alloc_page (proc_pmm s3)) (\<lambda>(base, pm).
                      let s4 = set_proc_pmm pm s3
                      in if base = 0 then Inr (0, kfree_proc proc s4)
                         else bindR (upd_proc proc (\<lambda>p. p\<lparr>p_stack_bottom := base\<rparr>) s4) (\<lambda>s5.
                              bindR (alloc_stack (unat (PROCESS_STACK_SIZE div 4096) - 1) 1 base s5) (\<lambda>(ok, s6).
                                if \<not> ok then Inr (0, kfree_proc proc s6)
                                else bindR (upd_proc proc (\<lambda>p. p\<lparr>p_stack_top := base + PROCESS_STACK_SIZE,
                                         p_context := zero_context\<lparr>c_rsp := base + PROCESS_STACK_SIZE,
                                           c_rip := entry_pt, c_rflags := 0x202\<rparr>,
                                         p_next := process_list s6\<rparr>) s6) (\<lambda>s7.
                                     bindR (if process_list s7 \<noteq> 0
                                            then upd_proc (process_list s7) (\<lambda>p. p\<lparr>p_prev := proc\<rparr>) s7
                                            else Inr s7) (\<lambda>s8.
                                       Inr (proc, s8\<lparr>process_list := proc\<rparr>))))))))"

definition process_destroy :: "addr \<Rightarrow> psys \<Rightarrow> psys res" where
  "process_destroy proc s =
     (if proc = 0 then Inr s
      else bindR (get_proc proc s) (\<lambda>p.
           bindR (if p_stack_bottom p \<noteq> 0
                  then free_pages_from (unat (PROCESS_STACK_SIZE div 4096)) (p_stack_bottom p) s
                  else Inr s) (\<lambda>s1.
           bindR (if p_prev p \<noteq> 0 then upd_proc (p_prev p) (\<lambda>q. q\<lparr>p_next := p_next p\<rparr>) s1 else Inr s1) (\<lambda>s2.
           bindR (if p_next p \<noteq> 0 then upd_proc (p_next p) (\<lambda>q. q\<lparr>p_prev := p_prev p\<rparr>) s2 else Inr s2) (\<lambda>s3.
             let s4 = (if process_list s3 = proc then s3\<lparr>process_list := p_next p\<rparr> else s3)
             in Inr (kfree_proc proc s4))))))"

definition process_get_current :: "psys \<Rightarrow> addr" where "process_get_current s = current_process s"

definition process_set_current :: "addr \<Rightarrow> psys \<Rightarrow> psys" where
  "process_set_current proc s = s\<lparr>current_process := proc\<rparr>"

definition process_init :: "psys \<Rightarrow> psys" where
  "process_init s = s\<lparr>current_process := 0, process_list := 0, next_pid := 1\<rparr>"

text \<open>The walk along the list; \<open>None\<close> if it never ends (a cyclic list).\<close>

partial_function (option) find_pid_from :: "addr \<Rightarrow> u32 \<Rightarrow> psys \<Rightarrow> addr res option" where
  "find_pid_from proc pid s =
     (if proc = 0 then Some (Inr 0)
      else case get_proc proc s of
             Inl e \<Rightarrow> Some (Inl e)
           | Inr p \<Rightarrow> if p_pid p = pid then Some (Inr proc) else find_pid_from (p_next p) pid s)"

definition process_find_by_pid :: "u32 \<Rightarrow> psys \<Rightarrow> addr res option" where
  "process_find_by_pid pid s = find_pid_from (process_list s) pid s"

section \<open>Context switch\<close>

text \<open>
  \<open>save_minimal\<close> stores the register file. The instruction before it has put the resume
  address into \<open>rax\<close>; \<open>resume\<close> is that address, the label after the jump.
\<close>

definition save_minimal :: "addr \<Rightarrow> psys \<Rightarrow> psys res" where
  "save_minimal proc s =
     (if proc = 0 then Inr s
      else upd_proc proc (\<lambda>p. p\<lparr>p_context := (cpu s)\<lparr>c_rip := c_rip (p_context p)\<rparr>\<rparr>) s)"

definition process_switch :: "u64 \<Rightarrow> addr \<Rightarrow> psys \<Rightarrow> psys res" where
  "process_switch resume nxt s =
     (if nxt = 0 then Inr s
      else if current_process s = nxt then Inr s
      else bindR (if current_process s \<noteq> 0
                  then let s1 = s\<lparr>cpu := (cpu s)\<lparr>c_rax := resume\<rparr>\<rparr>
                       in bindR (upd_proc (current_process s1)
                                  (\<lambda>p. p\<lparr>p_context := (p_context p)\<lparr>c_rip := resume\<rparr>\<rparr>) s1)
                            (save_minimal (current_process s1))
                  else Inr s) (\<lambda>s2.
           bindR (get_proc nxt s2) (\<lambda>n.
             Inr (s2\<lparr>current_process := nxt,
                     cpu_cr3 := (if p_cr3 n \<noteq> 0 then p_cr3 n else cpu_cr3 s2),
                     cpu := p_context n\<rparr>))))"

section \<open>Scheduler\<close>

definition scheduler_init :: "psys \<Rightarrow> psys" where
  "scheduler_init s = s\<lparr>ready_queue := 0, ready_queue_tail := 0\<rparr>"

definition scheduler_next :: "psys \<Rightarrow> addr" where "scheduler_next s = ready_queue s"

definition rotate_queue :: "psys \<Rightarrow> psys res" where
  "rotate_queue s =
     bindR (get_proc (ready_queue s) s) (\<lambda>h.
       if p_next h = 0 then Inr s
       else let hd = ready_queue s; s1 = s\<lparr>ready_queue := p_next h\<rparr>
            in bindR (upd_proc (ready_queue s1) (\<lambda>p. p\<lparr>p_prev := 0\<rparr>) s1) (\<lambda>s2.
               bindR (upd_proc hd (\<lambda>p. p\<lparr>p_next := 0, p_prev := ready_queue_tail s2\<rparr>) s2) (\<lambda>s3.
               bindR (upd_proc (ready_queue_tail s3) (\<lambda>p. p\<lparr>p_next := hd\<rparr>) s3) (\<lambda>s4.
                 Inr (s4\<lparr>ready_queue_tail := hd\<rparr>)))))"

definition scheduler_tick :: "u64 \<Rightarrow> psys \<Rightarrow> psys res" where
  "scheduler_tick resume s =
     (if ready_queue s = 0 then Inr s
      else bindR (rotate_queue s) (\<lambda>s1.
             let nxt = ready_queue s1
             in if nxt \<noteq> 0 \<and> current_process s1 \<noteq> nxt then process_switch resume nxt s1 else Inr s1))"

definition scheduler_add :: "addr \<Rightarrow> psys \<Rightarrow> psys res" where
  "scheduler_add proc s =
     (if proc = 0 then Inr s
      else bindR (upd_proc proc (\<lambda>p. p\<lparr>p_state := PROCESS_STATE_READY\<rparr>) s) (\<lambda>s1.
             if ready_queue s1 = 0
             then upd_proc proc (\<lambda>p. p\<lparr>p_next := 0, p_prev := 0\<rparr>)
                    (s1\<lparr>ready_queue := proc, ready_queue_tail := proc\<rparr>)
             else bindR (upd_proc (ready_queue_tail s1) (\<lambda>p. p\<lparr>p_next := proc\<rparr>) s1) (\<lambda>s2.
                  bindR (upd_proc proc (\<lambda>p. p\<lparr>p_prev := ready_queue_tail s2, p_next := 0\<rparr>) s2) (\<lambda>s3.
                    Inr (s3\<lparr>ready_queue_tail := proc\<rparr>)))))"

definition scheduler_remove :: "addr \<Rightarrow> psys \<Rightarrow> psys res" where
  "scheduler_remove proc s =
     (if proc = 0 then Inr s
      else bindR (get_proc proc s) (\<lambda>p.
           bindR (if p_prev p \<noteq> 0 then upd_proc (p_prev p) (\<lambda>q. q\<lparr>p_next := p_next p\<rparr>) s
                  else Inr (s\<lparr>ready_queue := p_next p\<rparr>)) (\<lambda>s1.
           bindR (if p_next p \<noteq> 0 then upd_proc (p_next p) (\<lambda>q. q\<lparr>p_prev := p_prev p\<rparr>) s1
                  else Inr (s1\<lparr>ready_queue_tail := p_prev p\<rparr>)) (\<lambda>s2.
             upd_proc proc (\<lambda>q. q\<lparr>p_next := 0, p_prev := 0\<rparr>) s2))))"

section \<open>The ready queue as a list\<close>

text \<open>
  \<open>dseg st p xs n\<close>: the processes \<open>xs\<close> are linked in both directions, the first one's
  \<open>prev\<close> is \<open>p\<close> and the last one's \<open>next\<close> is \<open>n\<close>.
\<close>

fun dseg :: "(addr \<Rightarrow> process option) \<Rightarrow> addr \<Rightarrow> addr list \<Rightarrow> addr \<Rightarrow> bool" where
  "dseg st p [] n = True"
| "dseg st p (x # xs) n \<longleftrightarrow> x \<noteq> 0 \<and>
     (\<exists>r. st x = Some r \<and> p_prev r = p \<and> p_next r = (if xs = [] then n else hd xs)) \<and> dseg st x xs n"

definition queue_of :: "psys \<Rightarrow> addr list \<Rightarrow> bool" where
  "queue_of s ps \<longleftrightarrow> distinct ps \<and> dseg (procs s) 0 ps 0 \<and>
     ready_queue s = (if ps = [] then 0 else hd ps) \<and> ready_queue_tail s = (if ps = [] then 0 else last ps) \<and>
     (current_process s = 0 \<or> procs s (current_process s) \<noteq> None)"

lemma dseg_append: "dseg st p (xs @ ys) n \<longleftrightarrow>
    dseg st p xs (if ys = [] then n else hd ys) \<and> dseg st (if xs = [] then p else last xs) ys n"
  by (induction xs arbitrary: p) (auto simp: hd_append)

lemma dseg_nonzero: "dseg st p xs n \<Longrightarrow> x \<in> set xs \<Longrightarrow> x \<noteq> 0 \<and> st x \<noteq> None"
  by (induction xs arbitrary: p) auto

text \<open>Only the link fields of the listed processes matter.\<close>

lemma dseg_cong:
  assumes "\<And>x. x \<in> set xs \<Longrightarrow> map_option p_next (st' x) = map_option p_next (st x) \<and>
      map_option p_prev (st' x) = map_option p_prev (st x)"
  shows "dseg st' p xs n = dseg st p xs n"
  using assms
proof (induction xs arbitrary: p)
  case Nil
  show ?case by simp
next
  case (Cons x xs)
  have "(\<exists>r. st' x = Some r \<and> p_prev r = p \<and> p_next r = k) \<longleftrightarrow> (\<exists>r. st x = Some r \<and> p_prev r = p \<and> p_next r = k)" for k
    using Cons.prems [of x] by (cases "st x"; cases "st' x") auto
  moreover have "dseg st' x xs n = dseg st x xs n" by (rule Cons.IH, rule Cons.prems) simp
  ultimately show ?case by simp
qed

lemma dseg_other: "x \<notin> set xs \<Longrightarrow> dseg (st(x := v)) p xs n = dseg st p xs n"
  by (rule dseg_cong) auto

lemma dseg_head:
  assumes "dseg st p (x # xs) n" "distinct (x # xs)" "st x = Some r"
  shows "dseg (st(x := Some (r\<lparr>p_prev := q\<rparr>))) q (x # xs) n"
  using assms by (simp add: dseg_other)

lemma dseg_tail:
  assumes "dseg st p (xs @ [x]) n" "distinct (xs @ [x])" "st x = Some r"
  shows "dseg (st(x := Some (r\<lparr>p_next := k\<rparr>))) p (xs @ [x]) k"
  using assms by (simp add: dseg_append dseg_other)

lemma upd_proc_Inr: "a \<noteq> 0 \<Longrightarrow> procs s a = Some p \<Longrightarrow>
    upd_proc a f s = Inr (s\<lparr>procs := (procs s)(a := Some (f p))\<rparr>)"
  by (simp add: upd_proc_def get_proc_def)

lemma get_proc_Inr: "a \<noteq> 0 \<Longrightarrow> procs s a = Some p \<Longrightarrow> get_proc a s = Inr p"
  by (simp add: get_proc_def)

lemma scheduler_add_queue:
  assumes q: "queue_of s ps" and x: "x \<noteq> 0" "procs s x \<noteq> None" "x \<notin> set ps"
  shows "\<exists>s'. scheduler_add x s = Inr s' \<and> queue_of s' (ps @ [x]) \<and> current_process s' = current_process s \<and>
    (\<forall>y. (procs s' y = None) = (procs s y = None))"
proof -
  obtain r where r: "procs s x = Some r" using x(2) by blast
  show ?thesis
  proof (cases ps rule: rev_cases)
    case Nil
    then show ?thesis
      using q x r by (auto simp: scheduler_add_def upd_proc_Inr queue_of_def)
  next
    case (snoc ys t)
    have nz: "\<And>y. y \<in> set ps \<Longrightarrow> y \<noteq> 0 \<and> procs s y \<noteq> None"
      using q dseg_nonzero [of "procs s" 0 ps 0] by (auto simp: queue_of_def)
    have "hd ps \<in> set ps" using snoc by (intro hd_in_set) simp
    with nz q snoc have rq: "ready_queue s \<noteq> 0" by (simp add: queue_of_def)
    have t: "t \<noteq> 0" "procs s t \<noteq> None" "ready_queue s \<noteq> 0" "ready_queue_tail s = t" "x \<noteq> t"
      using q snoc x(3) nz [of t] rq by (auto simp: queue_of_def)
    then obtain rt where rt: "procs s t = Some rt" by blast
    let ?r = "r\<lparr>p_state := PROCESS_STATE_READY\<rparr>"
    let ?st1 = "(procs s)(x := Some ?r)"
    let ?st2 = "?st1(t := Some (rt\<lparr>p_next := x\<rparr>))"
    let ?st3 = "?st2(x := Some (?r\<lparr>p_prev := t, p_next := 0\<rparr>))"
    have d: "dseg (procs s) 0 (ys @ [t]) 0" "distinct (ys @ [t])" using q snoc by (simp_all add: queue_of_def)
    have "dseg ?st1 0 (ys @ [t]) 0" using d(1) x(3) snoc by (simp add: dseg_other)
    from dseg_tail [OF this d(2), of rt x] rt t(5) have "dseg ?st2 0 (ys @ [t]) x" by simp
    moreover have "dseg ?st3 0 (ys @ [t]) x = dseg ?st2 0 (ys @ [t]) x"
      by (rule dseg_other) (use x(3) snoc in simp)
    ultimately have "dseg ?st3 0 (ys @ [t]) x" by blast
    then have "dseg ?st3 0 (ps @ [x]) 0" using x(1) snoc by (simp add: dseg_append)
    moreover have "scheduler_add x s = Inr (s\<lparr>procs := ?st3, ready_queue_tail := x\<rparr>)"
      using x r t rt by (simp add: scheduler_add_def upd_proc_Inr)
    ultimately show ?thesis
      using q x snoc rt r t(5) by (auto simp: queue_of_def hd_append)
  qed
qed

lemma rotate_queue_spec:
  assumes q: "queue_of s ps" and ne: "ps \<noteq> []"
  shows "\<exists>s'. rotate_queue s = Inr s' \<and> queue_of s' (rotate1 ps) \<and> current_process s' = current_process s \<and>
    (\<forall>y. (procs s' y = None) = (procs s y = None))"
proof -
  obtain h zs where ps: "ps = h # zs" using ne by (cases ps) auto
  have d: "dseg (procs s) 0 (h # zs) 0" "distinct (h # zs)" "ready_queue s = h" "h \<noteq> 0"
    using q ps by (simp_all add: queue_of_def)
  obtain rh where rh: "procs s h = Some rh" "p_next rh = (if zs = [] then 0 else hd zs)" using d(1) by auto
  show ?thesis
  proof (cases zs)
    case Nil
    then show ?thesis using q ps d rh by (simp add: rotate_queue_def get_proc_Inr)
  next
    case (Cons z zs')
    obtain ws t where wt: "zs = ws @ [t]" using Cons by (metis rev_exhaust list.distinct(1))
    have nz: "\<And>y. y \<in> set zs \<Longrightarrow> y \<noteq> 0 \<and> procs s y \<noteq> None"
      using dseg_nonzero [OF d(1)] by auto
    obtain rz where rz: "procs s z = Some rz" using nz Cons by fastforce
    have "t \<in> set zs" using wt by simp
    moreover have "z \<in> set zs" using Cons by simp
    ultimately have zh: "z \<noteq> h" "t \<noteq> h" "z \<noteq> 0" "t \<noteq> 0" "h \<notin> set zs" using d(2) nz by auto
    let ?st1 = "(procs s)(z := Some (rz\<lparr>p_prev := 0\<rparr>))"
    let ?st2 = "?st1(h := Some (rh\<lparr>p_next := 0, p_prev := t\<rparr>))"
    have "dseg (procs s) h (z # zs') 0" using d(1) Cons by simp
    from dseg_head [OF this _ rz, of 0] d(2) Cons have "dseg ?st1 0 zs 0" by simp
    then have s2: "dseg ?st2 0 (ws @ [t]) 0" using zh(5) wt by (simp add: dseg_other)
    have "?st2 t \<noteq> None" using nz [of t] wt by auto
    then obtain rt where rt: "?st2 t = Some rt" by blast
    let ?st3 = "?st2(t := Some (rt\<lparr>p_next := h\<rparr>))"
    have "dseg ?st3 0 (ws @ [t]) h" by (rule dseg_tail [OF s2 _ rt]) (use d(2) wt in simp)
    then have fin: "dseg ?st3 0 (zs @ [h]) 0" using zh wt d(4) by (simp add: dseg_append)
    have tl: "ready_queue_tail s = t" using q ps wt by (simp add: queue_of_def)
    have "rotate_queue s = Inr (s\<lparr>procs := ?st3, ready_queue := z, ready_queue_tail := h\<rparr>)"
      using d(3,4) rh rz zh tl Cons rt by (simp add: rotate_queue_def get_proc_Inr upd_proc_Inr Let_def)
    moreover have "\<forall>y. (?st3 y = None) = (procs s y = None)" using rh rz rt nz wt by auto
    ultimately show ?thesis
      using q fin ps Cons d(2) by (auto simp: queue_of_def)
  qed
qed

lemma process_switch_queue:
  assumes q: "queue_of s ps" and n: "nxt \<noteq> 0" "procs s nxt \<noteq> None"
  shows "\<exists>s'. process_switch resume nxt s = Inr s' \<and> queue_of s' ps \<and> current_process s' = nxt \<and>
    (\<forall>y. (procs s' y = None) = (procs s y = None))"
proof -
  obtain rn where rn: "procs s nxt = Some rn" using n(2) by blast
  consider "current_process s = nxt" | "current_process s \<noteq> nxt" "current_process s = 0"
    | "current_process s \<noteq> nxt" "current_process s \<noteq> 0" by blast
  then show ?thesis
  proof cases
    case 1
    then show ?thesis using q n(1) by (auto simp: process_switch_def)
  next
    case 2
    then show ?thesis using q n rn by (auto simp: process_switch_def get_proc_Inr queue_of_def)
  next
    case 3
    then obtain rc where rc: "procs s (current_process s) = Some rc" using q by (auto simp: queue_of_def)
    let ?c = "rc\<lparr>p_context := (cpu s)\<lparr>c_rax := resume, c_rip := resume\<rparr>\<rparr>"
    let ?st = "(procs s)(current_process s := Some ?c)"
    let ?s = "s\<lparr>cpu := p_context rn, procs := ?st, current_process := nxt,
        cpu_cr3 := (if p_cr3 rn \<noteq> 0 then p_cr3 rn else cpu_cr3 s)\<rparr>"
    have "process_switch resume nxt s = Inr ?s"
      using 3 n(1) rc rn by (simp add: process_switch_def Let_def upd_proc_Inr get_proc_Inr save_minimal_def)
    moreover have "dseg ?st 0 ps 0 = dseg (procs s) 0 ps 0" by (rule dseg_cong) (simp add: rc)
    ultimately show ?thesis using q rc rn by (auto simp: queue_of_def)
  qed
qed

lemma scheduler_tick_queue:
  assumes q: "queue_of s ps" and ne: "ps \<noteq> []"
  shows "\<exists>s'. scheduler_tick resume s = Inr s' \<and> queue_of s' (rotate1 ps) \<and> current_process s' = hd (rotate1 ps) \<and>
    (\<forall>y. (procs s' y = None) = (procs s y = None))"
proof -
  obtain s1 where s1: "rotate_queue s = Inr s1" "queue_of s1 (rotate1 ps)" "\<forall>y. (procs s1 y = None) = (procs s y = None)"
    using rotate_queue_spec [OF assms] by blast
  have ne1: "rotate1 ps \<noteq> []" using ne by simp
  then have rq: "ready_queue s1 = hd (rotate1 ps)" using s1(2) by (simp add: queue_of_def)
  have nz: "\<And>y. y \<in> set ps \<Longrightarrow> y \<noteq> 0 \<and> procs s y \<noteq> None"
    using q dseg_nonzero [of "procs s" 0 ps 0] by (auto simp: queue_of_def)
  have "hd (rotate1 ps) \<in> set (rotate1 ps)" using ne1 by (rule hd_in_set)
  then have h: "hd (rotate1 ps) \<noteq> 0" "procs s1 (hd (rotate1 ps)) \<noteq> None" using nz s1(3) by auto
  have "ready_queue s \<noteq> 0" using q ne nz [OF hd_in_set [OF ne]] by (simp add: queue_of_def)
  moreover obtain s' where "process_switch resume (hd (rotate1 ps)) s1 = Inr s'" "queue_of s' (rotate1 ps)"
    "current_process s' = hd (rotate1 ps)" "\<forall>y. (procs s' y = None) = (procs s1 y = None)"
    using process_switch_queue [OF s1(2) h] by blast
  ultimately show ?thesis
    using s1 rq h by (cases "current_process s1 = hd (rotate1 ps)") (auto simp: scheduler_tick_def)
qed

lemma scheduler_remove_steps:
  assumes "procs s x = Some r" "p_prev r = pv" "p_next r = nx" "x \<noteq> 0"
    and "(if pv \<noteq> 0 then upd_proc pv (\<lambda>q. q\<lparr>p_next := nx\<rparr>) s else Inr (s\<lparr>ready_queue := nx\<rparr>)) = Inr s1"
    and "(if nx \<noteq> 0 then upd_proc nx (\<lambda>q. q\<lparr>p_prev := pv\<rparr>) s1 else Inr (s1\<lparr>ready_queue_tail := pv\<rparr>)) = Inr s2"
  shows "scheduler_remove x s = upd_proc x (\<lambda>q. q\<lparr>p_next := 0, p_prev := 0\<rparr>) s2"
  using assms by (cases "pv = 0"; cases "nx = 0") (simp_all add: scheduler_remove_def get_proc_Inr)

lemma scheduler_remove_queue:
  assumes q: "queue_of s (xs @ x # ys)"
  shows "\<exists>s'. scheduler_remove x s = Inr s' \<and> queue_of s' (xs @ ys) \<and> current_process s' = current_process s \<and>
    (\<forall>y. (procs s' y = None) = (procs s y = None))"
proof -
  have d: "dseg (procs s) 0 (xs @ x # ys) 0" "distinct (xs @ x # ys)" using q by (simp_all add: queue_of_def)
  have nz: "\<And>y. y \<in> set (xs @ x # ys) \<Longrightarrow> y \<noteq> 0 \<and> procs s y \<noteq> None" using dseg_nonzero [OF d(1)] by auto
  let ?pv = "if xs = [] then 0 else last xs" and ?nx = "if ys = [] then 0 else hd ys"
  obtain r where r: "procs s x = Some r" "p_prev r = ?pv" "p_next r = ?nx" "x \<noteq> 0"
    using d(1) by (auto simp: dseg_append)
  have sx: "dseg (procs s) 0 xs x" and sy: "dseg (procs s) x ys 0" using d(1) by (auto simp: dseg_append)
  define st1 where "st1 = (if xs = [] then procs s
    else (procs s)(last xs := Some ((the (procs s (last xs)))\<lparr>p_next := ?nx\<rparr>)))"
  have lx: "xs \<noteq> [] \<Longrightarrow> last xs \<noteq> 0 \<and> procs s (last xs) \<noteq> None \<and> last xs \<noteq> x \<and> last xs \<notin> set ys"
    using nz d(2) last_in_set by fastforce
  have hy: "ys \<noteq> [] \<Longrightarrow> hd ys \<noteq> 0 \<and> procs s (hd ys) \<noteq> None \<and> hd ys \<noteq> x \<and> hd ys \<notin> set xs"
    using nz d(2) hd_in_set by fastforce
  have x1: "dseg st1 0 xs ?nx"
  proof (cases xs rule: rev_cases)
    case (snoc ws t)
    then obtain rt where rt: "procs s t = Some rt" using lx by auto
    then show ?thesis using dseg_tail [OF sx [unfolded snoc] _ rt, of ?nx] d(2) snoc by (simp add: st1_def)
  qed (simp add: st1_def)
  have y1: "dseg st1 x ys 0" using sy lx by (cases "xs = []") (simp_all add: st1_def dseg_other)
  have dom1: "(st1 y = None) = (procs s y = None)" for y using lx by (auto simp: st1_def)
  define st2 where "st2 = (if ys = [] then st1
    else st1(hd ys := Some ((the (st1 (hd ys)))\<lparr>p_prev := ?pv\<rparr>)))"
  have dom2: "(st2 y = None) = (procs s y = None)" for y using hy dom1 by (auto simp: st2_def)
  have y2: "dseg st2 ?pv ys 0"
  proof (cases ys)
    case (Cons z zs)
    then obtain rz where rz: "st1 z = Some rz" using hy dom1 [of z] by auto
    then show ?thesis using dseg_head [OF y1 [unfolded Cons] _ rz, of ?pv] d(2) Cons by (simp add: st2_def)
  qed simp
  have x2: "dseg st2 0 xs ?nx" using x1 hy by (cases "ys = []") (simp_all add: st2_def dseg_other)
  have "st1 x = procs s x" using lx by (cases "xs = []") (auto simp: st1_def)
  moreover have "st2 x = st1 x" using hy by (cases "ys = []") (auto simp: st2_def)
  ultimately have stx: "st2 x = Some r" using r(1) by simp
  let ?st = "st2(x := Some (r\<lparr>p_next := 0, p_prev := 0\<rparr>))"
  have "dseg ?st 0 (xs @ ys) 0"
    using x2 y2 d(2) by (simp add: dseg_append dseg_other)
  moreover have "scheduler_remove x s = Inr (s\<lparr>procs := ?st,
      ready_queue := (if xs = [] then ?nx else ready_queue s),
      ready_queue_tail := (if ys = [] then ?pv else ready_queue_tail s)\<rparr>)"
  proof -
    let ?s1 = "s\<lparr>procs := st1, ready_queue := (if xs = [] then ?nx else ready_queue s)\<rparr>"
    let ?s2 = "?s1\<lparr>procs := st2, ready_queue_tail := (if ys = [] then ?pv else ready_queue_tail s)\<rparr>"
    have a: "(if ?pv \<noteq> 0 then upd_proc ?pv (\<lambda>q. q\<lparr>p_next := ?nx\<rparr>) s else Inr (s\<lparr>ready_queue := ?nx\<rparr>)) = Inr ?s1"
      using lx by (cases "xs = []") (auto simp: st1_def upd_proc_def get_proc_def)
    have b: "(if ?nx \<noteq> 0 then upd_proc ?nx (\<lambda>q. q\<lparr>p_prev := ?pv\<rparr>) ?s1 else Inr (?s1\<lparr>ready_queue_tail := ?pv\<rparr>)) = Inr ?s2"
      using hy dom1 [of "hd ys"] by (cases "ys = []") (auto simp: st2_def upd_proc_def get_proc_def)
    have "procs ?s2 x = Some r" using stx by simp
    from upd_proc_Inr [OF r(4) this] show ?thesis
      unfolding scheduler_remove_steps [OF r(1,2,3,4) a b] by simp
  qed
  ultimately show ?thesis
    using q d(2) dom2 r(1) stx by (auto simp: queue_of_def hd_append)
qed

section \<open>The run queue as an interface\<close>

fun ticks :: "nat \<Rightarrow> ('s \<Rightarrow> 's res) \<Rightarrow> 's \<Rightarrow> 's res" where
  "ticks 0 f s = Inr s"
| "ticks (Suc n) f s = bindR (ticks n f s) f"

text \<open>
  What the timer interrupt relies on: a queue of valid processes that \<open>add\<close> extends at the
  end, \<open>remove\<close> shortens and \<open>tick\<close> rotates, running the new head.
\<close>

locale run_queue =
  fixes add :: "addr \<Rightarrow> 's \<Rightarrow> 's res"
    and remove :: "addr \<Rightarrow> 's \<Rightarrow> 's res"
    and tick :: "'s \<Rightarrow> 's res"
    and contents :: "'s \<Rightarrow> addr list \<Rightarrow> bool"
    and valid :: "'s \<Rightarrow> addr \<Rightarrow> bool"
    and running :: "'s \<Rightarrow> addr"
  assumes contents_distinct: "contents s ps \<Longrightarrow> distinct ps"
    and add_law: "contents s ps \<Longrightarrow> valid s x \<Longrightarrow> x \<notin> set ps \<Longrightarrow>
      \<exists>s'. add x s = Inr s' \<and> contents s' (ps @ [x]) \<and> running s' = running s \<and> valid s' = valid s"
    and remove_law: "contents s (xs @ x # ys) \<Longrightarrow>
      \<exists>s'. remove x s = Inr s' \<and> contents s' (xs @ ys) \<and> running s' = running s \<and> valid s' = valid s"
    and tick_law: "contents s ps \<Longrightarrow> ps \<noteq> [] \<Longrightarrow>
      \<exists>s'. tick s = Inr s' \<and> contents s' (rotate1 ps) \<and> running s' = hd (rotate1 ps) \<and> valid s' = valid s"
begin

lemma ticks_rotate:
  assumes "contents s ps" "ps \<noteq> []"
  shows "\<exists>s'. ticks n tick s = Inr s' \<and> contents s' (rotate n ps) \<and>
    (0 < n \<longrightarrow> running s' = hd (rotate n ps)) \<and> valid s' = valid s"
proof (induction n)
  case 0
  show ?case using assms by simp
next
  case (Suc n)
  then obtain s1 where s1: "ticks n tick s = Inr s1" "contents s1 (rotate n ps)" "valid s1 = valid s" by blast
  obtain s2 where "tick s1 = Inr s2" "contents s2 (rotate1 (rotate n ps))"
      "running s2 = hd (rotate1 (rotate n ps))" "valid s2 = valid s1"
    using tick_law [OF s1(2)] assms(2) by auto
  then show ?case using s1 by (auto simp: rotate_def)
qed

text \<open>Every queued process runs within one round.\<close>

lemma runs_within_round:
  assumes "contents s ps" "x \<in> set ps"
  shows "\<exists>n s'. 0 < n \<and> n \<le> length ps \<and> ticks n tick s = Inr s' \<and> running s' = x"
proof -
  obtain i where i: "i < length ps" "ps ! i = x" using assms(2) by (auto simp: in_set_conv_nth)
  then have ne: "ps \<noteq> []" by auto
  let ?n = "if i = 0 then length ps else i"
  have "hd (rotate ?n ps) = x" using i ne by (cases "i = 0") (simp_all add: hd_rotate_conv_nth, simp add: hd_conv_nth)
  moreover have "0 < ?n" "?n \<le> length ps" using i ne by auto
  ultimately show ?thesis using ticks_rotate [OF assms(1) ne, of ?n] by metis
qed

lemma full_round:
  assumes "contents s ps" "ps \<noteq> []"
  shows "\<exists>s'. ticks (length ps) tick s = Inr s' \<and> contents s' ps \<and> running s' = hd ps"
  using ticks_rotate [OF assms, of "length ps"] assms(2) by auto

lemma add_remove:
  assumes "contents s ps" "valid s x" "x \<notin> set ps"
  shows "\<exists>s' s''. add x s = Inr s' \<and> remove x s' = Inr s'' \<and> contents s'' ps \<and> running s'' = running s"
proof -
  obtain s1 where s1: "add x s = Inr s1" "contents s1 (ps @ [x])" "running s1 = running s"
    using add_law [OF assms] by blast
  show ?thesis using remove_law [OF s1(2)] s1 by auto
qed

end

definition live_proc :: "psys \<Rightarrow> addr \<Rightarrow> bool" where
  "live_proc s x \<longleftrightarrow> x \<noteq> 0 \<and> procs s x \<noteq> None"

lemma live_proc_eq: "\<forall>y. (procs s' y = None) = (procs s y = None) \<Longrightarrow> live_proc s' = live_proc s"
  by (auto simp: live_proc_def)

interpretation sched: run_queue scheduler_add scheduler_remove "scheduler_tick resume" queue_of live_proc current_process
  for resume :: u64
proof unfold_locales
  fix s ps assume "queue_of s ps"
  then show "distinct ps" by (simp add: queue_of_def)
next
  fix s ps x assume "queue_of s ps" "live_proc s x" "x \<notin> set ps"
  then show "\<exists>s'. scheduler_add x s = Inr s' \<and> queue_of s' (ps @ [x]) \<and>
      current_process s' = current_process s \<and> live_proc s' = live_proc s"
    using scheduler_add_queue [of s ps x] live_proc_eq [of _ s] by (simp only: live_proc_def [of s x]) blast
next
  fix s xs x ys assume "queue_of s (xs @ x # ys)"
  then show "\<exists>s'. scheduler_remove x s = Inr s' \<and> queue_of s' (xs @ ys) \<and>
      current_process s' = current_process s \<and> live_proc s' = live_proc s"
    using scheduler_remove_queue [of s xs x ys] live_proc_eq by blast
next
  fix s ps assume "queue_of s ps" "ps \<noteq> []"
  then show "\<exists>s'. scheduler_tick resume s = Inr s' \<and> queue_of s' (rotate1 ps) \<and>
      current_process s' = hd (rotate1 ps) \<and> live_proc s' = live_proc s"
    using scheduler_tick_queue [of s ps resume] live_proc_eq by blast
qed

section \<open>Properties\<close>

text \<open>
  Three processes at 0x1000, 0x2000 and 0x3000 with pids 1, 2 and 3, none of them queued:
  the inputs of the witnesses below.
\<close>

definition demo_psys :: psys where
  "demo_psys = \<lparr>pheap = heap_demo, procs = [0x1000 \<mapsto> zero_process\<lparr>p_pid := 1\<rparr>,
      0x2000 \<mapsto> zero_process\<lparr>p_pid := 2, p_next := 0x1000\<rparr>,
      0x3000 \<mapsto> zero_process\<lparr>p_pid := 3, p_next := 0x2000\<rparr>], cpu = zero_context, cpu_cr3 = 0,
     current_process = 0, process_list = 0x3000, next_pid = 4, ready_queue = 0, ready_queue_tail = 0\<rparr>"

definition demo_queued :: psys where
  "demo_queued = demo_psys\<lparr>procs := [0x1000 \<mapsto> zero_process\<lparr>p_pid := 1, p_next := 0x2000\<rparr>,
      0x2000 \<mapsto> zero_process\<lparr>p_pid := 2, p_next := 0x3000, p_prev := 0x1000\<rparr>,
      0x3000 \<mapsto> zero_process\<lparr>p_pid := 3, p_prev := 0x2000\<rparr>],
     ready_queue := 0x1000, ready_queue_tail := 0x3000\<rparr>"

lemma demo_psys_queue: "queue_of demo_psys []"
  by (simp add: queue_of_def demo_psys_def)

lemma demo_queued_queue: "queue_of demo_queued [0x1000, 0x2000, 0x3000]"
  by (simp add: queue_of_def demo_queued_def demo_psys_def zero_process_def)

text \<open>
  C24. The scheduler is fair: while the ready queue holds the processes \<open>ps\<close>, each of them is
  the running process after at most as many timer ticks as there are queued processes.
\<close>
theorem scheduler_fair:
  assumes "queue_of s ps" "x \<in> set ps"
  shows "\<exists>n s'. 0 < n \<and> n \<le> length ps \<and> ticks n (scheduler_tick resume) s = Inr s' \<and> current_process s' = x"
  using assms by (rule sched.runs_within_round)

theorem scheduler_fair_witness:
  "\<exists>n s'. 0 < n \<and> n \<le> 3 \<and> ticks n (scheduler_tick 7) demo_queued = Inr s' \<and> current_process s' = 0x2000"
  using scheduler_fair [OF demo_queued_queue, of "0x2000" 7] by (simp add: eval_nat_numeral)

text \<open>
  C5. The pointer-linked ready queue implements a list of processes: adding appends at the
  tail, removing a queued process deletes exactly it wherever it stands, and a tick rotates
  the list and switches to the new head; none of them faults and none loses a process.
\<close>
theorem scheduler_refines_list:
  assumes "queue_of s (xs @ x # ys)"
  shows "(\<exists>s'. scheduler_remove x s = Inr s' \<and> queue_of s' (xs @ ys)) \<and>
    (\<exists>s'. scheduler_tick resume s = Inr s' \<and> queue_of s' (rotate1 (xs @ x # ys)) \<and>
      current_process s' = hd (rotate1 (xs @ x # ys))) \<and>
    (\<forall>z. live_proc s z \<longrightarrow> z \<notin> set (xs @ x # ys) \<longrightarrow>
      (\<exists>s'. scheduler_add z s = Inr s' \<and> queue_of s' (xs @ x # ys @ [z]) \<and> current_process s' = current_process s))"
proof (intro conjI)
  show "\<exists>s'. scheduler_remove x s = Inr s' \<and> queue_of s' (xs @ ys)"
    using sched.remove_law [OF assms] by blast
  show "\<exists>s'. scheduler_tick resume s = Inr s' \<and> queue_of s' (rotate1 (xs @ x # ys)) \<and>
      current_process s' = hd (rotate1 (xs @ x # ys))"
    using sched.tick_law [OF assms] by blast
qed (use sched.add_law [OF assms] in fastforce)

theorem scheduler_refines_list_witness:
  "queue_of demo_queued ([0x1000] @ 0x2000 # [0x3000]) \<and>
   (\<exists>s'. scheduler_remove 0x2000 demo_queued = Inr s' \<and> queue_of s' ([0x1000] @ [0x3000]))"
  using scheduler_refines_list [of demo_queued "[0x1000]" "0x2000" "[0x3000]"] demo_queued_queue by simp

lemma find_pid_single:
  assumes "x \<noteq> 0" "procs s x = Some p" "p_next p = 0" "p_pid p \<noteq> pid"
  shows "find_pid_from x pid s = Some (Inr 0)"
  using assms by (simp add: find_pid_from.simps [of x] find_pid_from.simps [of 0] get_proc_def)

text \<open>
  The process list and the ready queue share the links of a process. Queueing the newest
  process, the head of the process list, cuts the list behind it: afterwards
  \<open>process_find_by_pid\<close> finds no other process, whatever its pid.
\<close>
theorem scheduler_add_cuts_list:
  assumes "queue_of s ps" "process_list s = x" "x \<notin> set ps" "x \<noteq> 0" "procs s x = Some p" "pid \<noteq> p_pid p"
  shows "\<exists>s'. scheduler_add x s = Inr s' \<and> process_find_by_pid pid s' = Some (Inr 0)"
proof -
  have nz: "\<And>y. y \<in> set ps \<Longrightarrow> y \<noteq> 0 \<and> procs s y \<noteq> None"
    using assms(1) dseg_nonzero [of "procs s" 0 ps 0] by (auto simp: queue_of_def)
  obtain s' p' where "scheduler_add x s = Inr s'" "process_list s' = x" "procs s' x = Some p'"
      "p_next p' = 0" "p_pid p' = p_pid p"
  proof (cases "ps = []")
    case True
    then show ?thesis
      using assms that by (auto simp: scheduler_add_def upd_proc_Inr queue_of_def)
  next
    case False
    have t: "last ps \<noteq> 0" "procs s (last ps) \<noteq> None" "last ps \<noteq> x" "hd ps \<noteq> 0"
      using nz [OF last_in_set [OF False]] nz [OF hd_in_set [OF False]] last_in_set [OF False] assms(3) by auto
    then show ?thesis
      using assms False that by (auto simp: scheduler_add_def upd_proc_Inr queue_of_def)
  qed
  then show ?thesis using find_pid_single [of x s' p' pid] assms(4,6) by (auto simp: process_find_by_pid_def)
qed

theorem scheduler_add_cuts_list_witness:
  "process_find_by_pid 1 demo_psys = Some (Inr 0x1000) \<and>
   (\<exists>s'. scheduler_add 0x3000 demo_psys = Inr s' \<and> process_find_by_pid 1 s' = Some (Inr 0))"
  using scheduler_add_cuts_list [OF demo_psys_queue, of "0x3000" "zero_process\<lparr>p_pid := 3, p_next := 0x2000\<rparr>" 1]
  by (simp add: demo_psys_def zero_process_def process_find_by_pid_def find_pid_from.simps [of "0x3000"]
      find_pid_from.simps [of "0x2000"] find_pid_from.simps [of "0x1000"] get_proc_def)

lemma process_switch_Inr:
  assumes "current_process s \<noteq> 0" "procs s (current_process s) = Some pa" "b \<noteq> 0" "procs s b = Some pb"
    "current_process s \<noteq> b"
  shows "process_switch r b s = Inr (s\<lparr>
      procs := (procs s)(current_process s \<mapsto> pa\<lparr>p_context := (cpu s)\<lparr>c_rax := r, c_rip := r\<rparr>\<rparr>),
      current_process := b, cpu_cr3 := (if p_cr3 pb \<noteq> 0 then p_cr3 pb else cpu_cr3 s), cpu := p_context pb\<rparr>)"
  using assms by (simp add: process_switch_def upd_proc_Inr get_proc_Inr save_minimal_def)

text \<open>
  A context switch away from a process and back restores its registers: whatever the
  other process leaves in the registers, the first one continues at the resume address with
  the register file it had, except \<open>rax\<close>, which the switch has overwritten with that address.
\<close>
theorem process_switch_roundtrip:
  assumes "current_process s = a" "a \<noteq> 0" "procs s a \<noteq> None" "b \<noteq> 0" "procs s b \<noteq> None" "a \<noteq> b"
  shows "\<exists>s1. process_switch resume b s = Inr s1 \<and> current_process s1 = b \<and>
    (\<forall>regs c3. \<exists>s2. process_switch resume' a (s1\<lparr>cpu := regs, cpu_cr3 := c3\<rparr>) = Inr s2 \<and> current_process s2 = a \<and>
      cpu s2 = (cpu s)\<lparr>c_rax := resume, c_rip := resume\<rparr>)"
proof -
  obtain pa pb where pp: "procs s a = Some pa" "procs s b = Some pb" using assms by auto
  show ?thesis
    using process_switch_Inr [of s pa b pb resume] assms pp by (simp add: process_switch_Inr)
qed

theorem process_switch_roundtrip_witness:
  "\<exists>s1. process_switch 7 0x2000 (demo_queued\<lparr>current_process := 0x1000\<rparr>) = Inr s1 \<and> current_process s1 = 0x2000 \<and>
    (\<forall>regs c3. \<exists>s2. process_switch 9 0x1000 (s1\<lparr>cpu := regs, cpu_cr3 := c3\<rparr>) = Inr s2 \<and> current_process s2 = 0x1000 \<and>
      cpu s2 = zero_context\<lparr>c_rax := 7, c_rip := 7\<rparr>)"
  using process_switch_roundtrip [of "demo_queued\<lparr>current_process := 0x1000\<rparr>" "0x1000" "0x2000" 7 9]
  by (simp add: demo_queued_def demo_psys_def)

end
