(* ===== verification/Mira_Vfs.thy ===== *)
theory Mira_Vfs
  imports Mira_Prelude
begin

text \<open>
  The virtual file system and its RAM backend, \<open>fs/vfs.c\<close> and \<open>fs/backend/ramfs.c\<close>. Nodes
  are records in a list; a node pointer is an optional index into it and a null pointer is
  \<open>None\<close>. File contents and names are lists of characters (bytes). The outcome of each
  \<open>kmalloc\<close> call is part of the state.
\<close>

section \<open>State\<close>

definition VFS_MAX_OPEN :: nat where "VFS_MAX_OPEN = 16"
definition VFS_O_RDONLY :: u32 where "VFS_O_RDONLY = 0"
definition VFS_O_CREAT :: u32 where "VFS_O_CREAT = 4"
definition VFS_SEEK_SET :: u32 where "VFS_SEEK_SET = 0"
definition VFS_SEEK_CUR :: u32 where "VFS_SEEK_CUR = 1"
definition VFS_SEEK_END :: u32 where "VFS_SEEK_END = 2"
definition VFS_TYPE_FILE :: u32 where "VFS_TYPE_FILE = 1"
definition VFS_TYPE_DIR :: u32 where "VFS_TYPE_DIR = 2"

text \<open>The only table of operations is \<open>default_ops\<close>.\<close>

datatype vfs_ops = Default_ops

record vfs_node =
  vn_name :: string
  vn_type :: u32
  vn_size :: u64
  vn_data :: "string option"
  vn_ops :: "vfs_ops option"
  vn_parent :: "nat option"
  vn_children :: "nat option"
  vn_next_sibling :: "nat option"
  vn_child_count :: u32

definition zero_node :: vfs_node where
  "zero_node = \<lparr>vn_name = [], vn_type = 0, vn_size = 0, vn_data = None, vn_ops = None, vn_parent = None,
     vn_children = None, vn_next_sibling = None, vn_child_count = 0\<rparr>"

text \<open>\<open>sizeof(vfs_node_t)\<close> on x86-64.\<close>

definition VFS_NODE_SIZE :: u64 where "VFS_NODE_SIZE = 128"

record open_file =
  of_node :: "nat option"
  of_offset :: u64
  of_flags :: u32
  of_used :: bool

record vfs =
  vnodes :: "vfs_node list"
  root_node :: "nat option"
  open_table :: "open_file list"
  kmem :: "bool list"

definition get_node :: "nat \<Rightarrow> vfs \<Rightarrow> vfs_node res" where
  "get_node i s = (if i < length (vnodes s) then Inr (vnodes s ! i) else Inl BadPointer)"

definition set_node :: "nat \<Rightarrow> vfs_node \<Rightarrow> vfs \<Rightarrow> vfs" where
  "set_node i n s = s\<lparr>vnodes := (vnodes s)[i := n]\<rparr>"

section \<open>Default operations\<close>

definition vfs_default_open :: "nat \<Rightarrow> u32 \<Rightarrow> int" where "vfs_default_open node flags = 0"
definition vfs_default_close :: "nat \<Rightarrow> int" where "vfs_default_close node = 0"

text \<open>The bytes copied to the caller's buffer; their number is the result.\<close>

definition vfs_default_read :: "vfs_node \<Rightarrow> u64 \<Rightarrow> u64 \<Rightarrow> string res" where
  "vfs_default_read node n offset =
     (case vn_data node of
        None \<Rightarrow> Inr []
      | Some d \<Rightarrow>
          if offset \<ge> vn_size node then Inr []
          else let m = (if offset + n > vn_size node then vn_size node - offset else n)
               in if unat offset + unat m > length d then Inl OutOfBounds
                  else Inr (take (unat m) (drop (unat offset) d)))"

text \<open>The copy of the old contents into the zeroed new area of \<open>new_size\<close> bytes.\<close>

definition grow_data :: "vfs_node \<Rightarrow> u64 \<Rightarrow> string res" where
  "grow_data node new_size =
     (let nd = replicate (unat new_size) (CHR 0x00)
      in case vn_data node of
           None \<Rightarrow> Inr nd
         | Some d \<Rightarrow> if vn_size node > 0
                     then if length d < unat (vn_size node) then Inl OutOfBounds
                          else Inr (take (unat (vn_size node)) d @ drop (unat (vn_size node)) nd)
                     else Inr nd)"

definition store_bytes :: "string option \<Rightarrow> u64 \<Rightarrow> u64 \<Rightarrow> string \<Rightarrow> string res" where
  "store_bytes data offset n buf =
     (case data of
        None \<Rightarrow> Inl NullDeref
      | Some d \<Rightarrow> if length buf < unat n \<or> length d < unat offset + unat n then Inl OutOfBounds
                  else Inr (take (unat offset) d @ take (unat n) buf @ drop (unat offset + unat n) d))"

definition vfs_default_write :: "nat \<Rightarrow> string \<Rightarrow> u64 \<Rightarrow> u64 \<Rightarrow> vfs \<Rightarrow> (int \<times> vfs) res" where
  "vfs_default_write i buf n offset s =
     (if n = 0 then Inr (0, s)
      else bindR (get_node i s) (\<lambda>node.
        let new_size = offset + n
        in if new_size > vn_size node
           then let (ok, km) = kmalloc_outcome new_size (kmem s); s1 = s\<lparr>kmem := km\<rparr>
                in if \<not> ok then Inr (-1, s1)
                   else bindR (grow_data node new_size) (\<lambda>nd.
                        bindR (store_bytes (Some nd) offset n buf) (\<lambda>d.
                          Inr (sint n, set_node i (node\<lparr>vn_data := Some d, vn_size := new_size\<rparr>) s1)))
           else bindR (store_bytes (vn_data node) offset n buf) (\<lambda>d.
                  Inr (sint n, set_node i (node\<lparr>vn_data := Some d\<rparr>) s))))"

section \<open>Paths\<close>

definition vfs_init :: "nat option \<Rightarrow> vfs \<Rightarrow> vfs" where
  "vfs_init root s = s\<lparr>root_node := root, open_table := map (\<lambda>e. e\<lparr>of_used := False\<rparr>) (open_table s)\<rparr>"

definition vfs_root :: "vfs \<Rightarrow> nat option" where "vfs_root s = root_node s"

text \<open>
  The walk along the siblings; the number of nodes is enough fuel for a list that is not
  cyclic.
\<close>

fun find_child_from :: "nat \<Rightarrow> nat option \<Rightarrow> string \<Rightarrow> vfs \<Rightarrow> nat option res" where
  "find_child_from k None name s = Inr None"
| "find_child_from 0 (Some c) name s = Inl Diverges"
| "find_child_from (Suc k) (Some c) name s =
     bindR (get_node c s) (\<lambda>nd.
       if vn_name nd = name then Inr (Some c) else find_child_from k (vn_next_sibling nd) name s)"

definition vfs_find_child :: "nat \<Rightarrow> string \<Rightarrow> vfs \<Rightarrow> nat option res" where
  "vfs_find_child dir name s =
     bindR (get_node dir s) (\<lambda>d. find_child_from (length (vnodes s)) (vn_children d) name s)"

text \<open>At most \<open>k\<close> characters up to the next slash, and what follows them.\<close>

fun scan_component :: "nat \<Rightarrow> string \<Rightarrow> string \<times> string" where
  "scan_component 0 p = ([], p)"
| "scan_component (Suc k) [] = ([], [])"
| "scan_component (Suc k) (c # p) =
     (if c = CHR ''/'' then ([], c # p) else let (a, r) = scan_component k p in (c # a, r))"

definition skip_slash :: "string \<Rightarrow> string" where
  "skip_slash p = (case p of [] \<Rightarrow> [] | c # r \<Rightarrow> if c = CHR ''/'' then r else p)"

definition next_component :: "string \<Rightarrow> string \<times> string" where
  "next_component p = (let (c, r) = scan_component 63 p in (c, skip_slash r))"

lemma scan_component_append: "scan_component k p = (a, r) \<Longrightarrow> p = a @ r"
  by (induction k p arbitrary: a r rule: scan_component.induct) (auto split: if_splits prod.splits)

lemma scan_component_length: "scan_component k p = (a, r) \<Longrightarrow> length a \<le> k"
  by (induction k p arbitrary: a r rule: scan_component.induct) (auto split: if_splits prod.splits)

lemma scan_component_Nil: "scan_component (Suc k) (c # p) = ([], r) \<Longrightarrow> c = CHR ''/'' \<and> r = c # p"
  by (auto split: if_splits prod.splits)

lemma skip_slash_suffix: "\<exists>q. r = q @ skip_slash r"
  by (cases r) (auto simp: skip_slash_def)

lemma next_component_shorter:
  assumes "p \<noteq> []" "next_component p = (c, p')"
  shows "length p' < length p"
proof -
  obtain r where r: "scan_component 63 p = (c, r)" "p' = skip_slash r"
    using assms(2) by (auto simp: next_component_def split: prod.splits)
  have "length (skip_slash r) \<le> length r" by (cases r) (auto simp: skip_slash_def)
  moreover have "p = c @ r" by (rule scan_component_append [OF r(1)])
  moreover have "length (skip_slash p) < length p" if "c = []"
  proof -
    obtain x xs where "p = x # xs" using assms(1) by (cases p) auto
    then show ?thesis using r(1) that scan_component_Nil [of 62 x xs r] by (simp add: skip_slash_def)
  qed
  ultimately show ?thesis using r(2) by (cases c) auto
qed

function lookup_from :: "nat \<Rightarrow> string \<Rightarrow> vfs \<Rightarrow> nat option res" where
  "lookup_from cur p s =
     (if p = [] then Inr (Some cur)
      else let (c, p') = next_component p
           in if c = [] then lookup_from cur p' s
              else bindR (vfs_find_child cur c s) (\<lambda>r.
                     case r of None \<Rightarrow> Inr None | Some n \<Rightarrow> lookup_from n p' s))"
  by pat_completeness auto
termination by (relation "measure (\<lambda>(cur, p, s). length p)") (auto intro: next_component_shorter [OF _ sym])

declare lookup_from.simps [simp del]

lemma lookup_from_Nil [simp]: "lookup_from cur [] s = Inr (Some cur)"
  by (simp add: lookup_from.simps)

definition vfs_lookup :: "string \<Rightarrow> vfs \<Rightarrow> nat option res" where
  "vfs_lookup path s =
     (case root_node s of
        None \<Rightarrow> Inr None
      | Some r \<Rightarrow> if path = ''/'' then Inr (Some r) else lookup_from r (skip_slash path) s)"

section \<open>Creating nodes\<close>

definition vfs_set_name :: "vfs_node \<Rightarrow> string \<Rightarrow> vfs_node" where
  "vfs_set_name node name = node\<lparr>vn_name := take 63 name\<rparr>"

text \<open>The child, at index \<open>c\<close>, becomes the first in the parent's list.\<close>

definition vfs_add_child :: "nat \<Rightarrow> nat \<Rightarrow> vfs \<Rightarrow> vfs res" where
  "vfs_add_child parent c s =
     bindR (get_node parent s) (\<lambda>p.
     bindR (get_node c s) (\<lambda>n.
       let s1 = set_node c (n\<lparr>vn_parent := Some parent, vn_next_sibling := vn_children p\<rparr>) s
       in bindR (get_node parent s1) (\<lambda>p1.
            Inr (set_node parent (p1\<lparr>vn_children := Some c, vn_child_count := vn_child_count p1 + 1\<rparr>) s1))))"

text \<open>
  The fields of a new node that depend on whether it is the last component of the path;
  \<open>None\<close> when the area for the contents cannot be allocated. Reading the contents through a
  null pointer or past their end is a fault.
\<close>

definition file_fields :: "bool \<Rightarrow> string option \<Rightarrow> u64 \<Rightarrow> vfs_node \<Rightarrow> bool list \<Rightarrow> (vfs_node option \<times> bool list) res" where
  "file_fields is_last data n node km =
     (if is_last
      then let node1 = node\<lparr>vn_type := VFS_TYPE_FILE, vn_size := n\<rparr>
           in if n > 0
              then let (ok, km1) = kmalloc_outcome n km
                   in if \<not> ok then Inr (None, km1)
                      else case data of
                             None \<Rightarrow> Inl NullDeref
                           | Some d \<Rightarrow> if length d < unat n then Inl OutOfBounds
                                       else Inr (Some (node1\<lparr>vn_data := Some (take (unat n) d)\<rparr>), km1)
              else Inr (Some (node1\<lparr>vn_data := None\<rparr>), km)
      else Inr (Some (node\<lparr>vn_type := VFS_TYPE_DIR\<rparr>), km))"

definition create_child :: "nat \<Rightarrow> string \<Rightarrow> bool \<Rightarrow> string option \<Rightarrow> u64 \<Rightarrow> vfs \<Rightarrow> (nat option \<times> vfs) res" where
  "create_child cur name is_last data n s =
     (let (ok, km) = kmalloc_outcome VFS_NODE_SIZE (kmem s)
      in if \<not> ok then Inr (None, s\<lparr>kmem := km\<rparr>)
         else bindR (file_fields is_last data n (vfs_set_name zero_node name) km) (\<lambda>(r, km1).
                case r of
                  None \<Rightarrow> Inr (None, s\<lparr>kmem := km1\<rparr>)
                | Some node \<Rightarrow>
                    let c = length (vnodes s);
                        s1 = s\<lparr>vnodes := vnodes s @ [node\<lparr>vn_ops := Some Default_ops\<rparr>], kmem := km1\<rparr>
                    in bindR (vfs_add_child cur c s1) (\<lambda>s2. Inr (Some c, s2))))"

function create_from :: "nat \<Rightarrow> string \<Rightarrow> string option \<Rightarrow> u64 \<Rightarrow> vfs \<Rightarrow> (nat option \<times> vfs) res" where
  "create_from cur p data n s =
     (if p = [] then Inr (Some cur, s)
      else let (c, p') = next_component p
           in if c = [] then create_from cur p' data n s
              else bindR (vfs_find_child cur c s) (\<lambda>r.
                     case r of
                       Some i \<Rightarrow> create_from i p' data n s
                     | None \<Rightarrow> bindR (create_child cur c (p' = []) data n s) (\<lambda>(r', s1).
                                 case r' of None \<Rightarrow> Inr (None, s1) | Some i \<Rightarrow> create_from i p' data n s1)))"
  by pat_completeness auto
termination by (relation "measure (\<lambda>(cur, p, data, n, s). length p)") (auto intro: next_component_shorter [OF _ sym])

declare create_from.simps [simp del]

lemma create_from_Nil [simp]: "create_from cur [] data n s = Inr (Some cur, s)"
  by (simp add: create_from.simps)

definition vfs_create_file :: "string \<Rightarrow> string option \<Rightarrow> u64 \<Rightarrow> vfs \<Rightarrow> (nat option \<times> vfs) res" where
  "vfs_create_file path data n s =
     (case root_node s of
        None \<Rightarrow> if list_all (\<lambda>c. c = CHR ''/'') path then Inr (None, s) else Inl NullDeref
      | Some r \<Rightarrow> create_from r (skip_slash path) data n s)"

section \<open>Open files\<close>

definition fd_ok :: "int \<Rightarrow> vfs \<Rightarrow> bool" where
  "fd_ok fd s \<longleftrightarrow> \<not> (fd < 0 \<or> fd \<ge> int VFS_MAX_OPEN \<or> \<not> of_used (open_table s ! nat fd))"

definition set_file :: "int \<Rightarrow> open_file \<Rightarrow> vfs \<Rightarrow> vfs" where
  "set_file fd f s = s\<lparr>open_table := (open_table s)[nat fd := f]\<rparr>"

definition file_node :: "int \<Rightarrow> vfs \<Rightarrow> nat res" where
  "file_node fd s = (case of_node (open_table s ! nat fd) of None \<Rightarrow> Inl NullDeref | Some i \<Rightarrow> Inr i)"

text \<open>The search for an unused slot from index \<open>i\<close> on.\<close>

fun take_slot :: "nat \<Rightarrow> nat \<Rightarrow> nat \<Rightarrow> u32 \<Rightarrow> vfs \<Rightarrow> int \<times> vfs" where
  "take_slot 0 i node flags s = (-1, s)"
| "take_slot (Suc k) i node flags s =
     (if \<not> of_used (open_table s ! i)
      then (int i, set_file (int i) \<lparr>of_node = Some node, of_offset = 0, of_flags = flags, of_used = True\<rparr> s)
      else take_slot k (i + 1) node flags s)"

definition open_node :: "nat \<Rightarrow> u32 \<Rightarrow> vfs \<Rightarrow> (int \<times> vfs) res" where
  "open_node i flags s =
     bindR (get_node i s) (\<lambda>node.
       if vn_type node = VFS_TYPE_DIR then Inr (-1, s)
       else Inr (take_slot VFS_MAX_OPEN 0 i flags s))"

definition vfs_open :: "string \<Rightarrow> u32 \<Rightarrow> vfs \<Rightarrow> (int \<times> vfs) res" where
  "vfs_open path flags s =
     bindR (vfs_lookup path s) (\<lambda>r.
       case r of
         Some i \<Rightarrow> open_node i flags s
       | None \<Rightarrow> if flags AND VFS_O_CREAT \<noteq> 0
                 then bindR (vfs_create_file path None 0 s) (\<lambda>(r1, s1).
                      bindR (vfs_lookup path s1) (\<lambda>r2.
                        case r2 of None \<Rightarrow> Inr (-1, s1) | Some i \<Rightarrow> open_node i flags s1))
                 else Inr (-1, s))"

definition vfs_close :: "int \<Rightarrow> vfs \<Rightarrow> (int \<times> vfs) res" where
  "vfs_close fd s =
     (if \<not> fd_ok fd s then Inr (-1, s)
      else bindR (file_node fd s) (\<lambda>i. bindR (get_node i s) (\<lambda>node.
             Inr (0, set_file fd ((open_table s ! nat fd)\<lparr>of_used := False\<rparr>) s))))"

text \<open>A read returns the result and the bytes that went to the buffer.\<close>

definition vfs_read :: "int \<Rightarrow> u64 \<Rightarrow> vfs \<Rightarrow> (int \<times> string \<times> vfs) res" where
  "vfs_read fd n s =
     (if \<not> fd_ok fd s then Inr (-1, [], s)
      else let f = open_table s ! nat fd
           in bindR (file_node fd s) (\<lambda>i. bindR (get_node i s) (\<lambda>node.
              bindR (vfs_default_read node n (of_offset f)) (\<lambda>bs.
                Inr (int (length bs), bs,
                     if bs \<noteq> [] then set_file fd (f\<lparr>of_offset := of_offset f + word_of_nat (length bs)\<rparr>) s else s)))))"

definition vfs_write :: "int \<Rightarrow> string \<Rightarrow> u64 \<Rightarrow> vfs \<Rightarrow> (int \<times> vfs) res" where
  "vfs_write fd buf n s =
     (if \<not> fd_ok fd s then Inr (-1, s)
      else let f = open_table s ! nat fd
           in bindR (file_node fd s) (\<lambda>i.
              bindR (vfs_default_write i buf n (of_offset f) s) (\<lambda>(r, s1).
                Inr (r, if r > 0 then set_file fd (f\<lparr>of_offset := of_offset f + word_of_int r\<rparr>) s1 else s1))))"

definition vfs_lseek :: "int \<Rightarrow> u64 \<Rightarrow> u32 \<Rightarrow> vfs \<Rightarrow> (int \<times> vfs) res" where
  "vfs_lseek fd offset whence s =
     (if \<not> fd_ok fd s then Inr (-1, s)
      else let f = open_table s ! nat fd
           in bindR (file_node fd s) (\<lambda>i. bindR (get_node i s) (\<lambda>node.
                let r = (if whence = VFS_SEEK_SET then Some offset
                         else if whence = VFS_SEEK_CUR then Some (of_offset f + offset)
                         else if whence = VFS_SEEK_END then Some (vn_size node + offset)
                         else None)
                in case r of
                     None \<Rightarrow> Inr (-1, s)
                   | Some new_offset \<Rightarrow>
                       if new_offset > vn_size node then Inr (-1, s)
                       else Inr (0, set_file fd (f\<lparr>of_offset := new_offset\<rparr>) s))))"

section \<open>The RAM file system\<close>

definition ramfs_root_node :: vfs_node where
  "ramfs_root_node = zero_node\<lparr>vn_name := ''/'', vn_type := VFS_TYPE_DIR, vn_ops := None\<rparr>"

definition ramfs_init :: "vfs \<Rightarrow> vfs res" where
  "ramfs_init s =
     (let s1 = vfs_init (Some 0) (s\<lparr>vnodes := [ramfs_root_node]\<rparr>)
      in bindR (vfs_create_file ''/readme.txt'' (Some ''MiraOS ramfs online'') 19 s1) (\<lambda>(r, s2).
         bindR (vfs_create_file ''/version'' (Some ''1.0'') 3 s2) (\<lambda>(r', s3). Inr s3)))"

definition ramfs_root :: "nat option" where "ramfs_root = Some 0"

section \<open>Well-formed file systems\<close>

text \<open>
  Node references stay inside the node list and sibling lists run towards older nodes, so
  they end; a node's contents have the recorded size.
\<close>

definition node_wf :: "nat \<Rightarrow> nat \<Rightarrow> vfs_node \<Rightarrow> bool" where
  "node_wf len i nd \<longleftrightarrow>
     (\<forall>c. vn_children nd = Some c \<longrightarrow> c < len) \<and> (\<forall>c. vn_next_sibling nd = Some c \<longrightarrow> c < i) \<and>
     (case vn_data nd of None \<Rightarrow> vn_size nd = 0 | Some d \<Rightarrow> length d = unat (vn_size nd))"

definition nodes_wf :: "vfs \<Rightarrow> bool" where
  "nodes_wf s \<longleftrightarrow> (\<forall>i < length (vnodes s). node_wf (length (vnodes s)) i (vnodes s ! i)) \<and>
     (\<forall>r. root_node s = Some r \<longrightarrow> r < length (vnodes s))"

text \<open>Every open file refers to a node and its offset lies within the file.\<close>

definition files_wf :: "vfs \<Rightarrow> bool" where
  "files_wf s \<longleftrightarrow> length (open_table s) = VFS_MAX_OPEN \<and>
     (\<forall>f \<in> set (open_table s). of_used f \<longrightarrow>
        (\<exists>i < length (vnodes s). of_node f = Some i \<and> of_offset f \<le> vn_size (vnodes s ! i)))"

definition vfs_wf :: "vfs \<Rightarrow> bool" where "vfs_wf s \<longleftrightarrow> nodes_wf s \<and> files_wf s"

lemma get_node_Inr [simp]: "i < length (vnodes s) \<Longrightarrow> get_node i s = Inr (vnodes s ! i)"
  by (simp add: get_node_def)

lemma get_node_eq: "get_node i s = Inr n \<longleftrightarrow> i < length (vnodes s) \<and> n = vnodes s ! i"
  by (auto simp: get_node_def)

lemma node_wf_nth: "nodes_wf s \<Longrightarrow> i < length (vnodes s) \<Longrightarrow> node_wf (length (vnodes s)) i (vnodes s ! i)"
  by (simp add: nodes_wf_def)

lemma next_sibling_less: "nodes_wf s \<Longrightarrow> i < length (vnodes s) \<Longrightarrow> vn_next_sibling (vnodes s ! i) = Some c \<Longrightarrow> c < i"
  using node_wf_nth by (auto simp: node_wf_def)

lemma children_less: "nodes_wf s \<Longrightarrow> i < length (vnodes s) \<Longrightarrow> vn_children (vnodes s ! i) = Some c \<Longrightarrow> c < length (vnodes s)"
  using node_wf_nth by (auto simp: node_wf_def)

text \<open>The search ends within the fuel, and more fuel gives the same result.\<close>

lemma find_child_from_total:
  assumes "nodes_wf s" "\<And>c. start = Some c \<Longrightarrow> c < k" "k \<le> length (vnodes s)"
  shows "\<exists>r. find_child_from k start name s = Inr r \<and> (\<forall>c. r = Some c \<longrightarrow> c < length (vnodes s))"
  using assms(2,3)
proof (induction k arbitrary: start)
  case 0
  then show ?case by (cases start) auto
next
  case (Suc k)
  show ?case
  proof (cases start)
    case (Some c)
    then have c: "c \<le> k" "c < length (vnodes s)" using Suc.prems by auto
    have "\<exists>r. find_child_from k (vn_next_sibling (vnodes s ! c)) name s = Inr r \<and> (\<forall>c. r = Some c \<longrightarrow> c < length (vnodes s))"
      by (rule Suc.IH) (use next_sibling_less [OF assms(1) c(2)] c(1) Suc.prems(2) in fastforce)+
    then show ?thesis using Some c(2) by auto
  qed simp
qed

lemma vfs_find_child_total:
  assumes "nodes_wf s" "dir < length (vnodes s)"
  shows "\<exists>r. vfs_find_child dir name s = Inr r \<and> (\<forall>c. r = Some c \<longrightarrow> c < length (vnodes s))"
  using find_child_from_total [OF assms(1), of "vn_children (vnodes s ! dir)" "length (vnodes s)" name]
    children_less [OF assms] assms(2) by (simp add: vfs_find_child_def)

text \<open>
  The search looks at names and sibling links only: where two file systems agree on them
  below a bound, searches that start below it agree.
\<close>

lemma find_child_from_cong:
  assumes "nodes_wf s" "\<And>c. start = Some c \<Longrightarrow> c < k \<and> c < m" "k \<le> k'"
    and "m \<le> length (vnodes s)" "m \<le> length (vnodes s')"
    and "\<And>i. i < m \<Longrightarrow> vn_name (vnodes s' ! i) = vn_name (vnodes s ! i) \<and>
      vn_next_sibling (vnodes s' ! i) = vn_next_sibling (vnodes s ! i)"
  shows "find_child_from k' start name s' = find_child_from k start name s"
  using assms(2,3)
proof (induction k arbitrary: start k')
  case 0
  then show ?case by (cases start) auto
next
  case (Suc k)
  then obtain j where j: "k' = Suc j" "k \<le> j" by (cases k') auto
  show ?case
  proof (cases start)
    case (Some c)
    then have c: "c \<le> k" "c < m" "c < length (vnodes s)" "c < length (vnodes s')" using Suc.prems assms(4,5) by auto
    have "find_child_from j (vn_next_sibling (vnodes s ! c)) name s' = find_child_from k (vn_next_sibling (vnodes s ! c)) name s"
      by (rule Suc.IH) (use next_sibling_less [OF assms(1) c(3)] c j in fastforce)+
    then show ?thesis using Some c j assms(6) [OF c(2)] by simp
  qed (simp add: j)
qed

text \<open>Every child found before is found again: creating nodes never hides one.\<close>

definition vfs_ext :: "vfs \<Rightarrow> vfs \<Rightarrow> bool" where
  "vfs_ext s s' \<longleftrightarrow> root_node s' = root_node s \<and> length (vnodes s) \<le> length (vnodes s') \<and>
     open_table s' = open_table s \<and>
     (\<forall>i < length (vnodes s). vn_type (vnodes s' ! i) = vn_type (vnodes s ! i) \<and>
        vn_size (vnodes s' ! i) = vn_size (vnodes s ! i) \<and> vn_data (vnodes s' ! i) = vn_data (vnodes s ! i)) \<and>
     (\<forall>dir name c. vfs_find_child dir name s = Inr (Some c) \<longrightarrow> vfs_find_child dir name s' = Inr (Some c))"

lemma vfs_ext_refl: "vfs_ext s s"
  by (simp add: vfs_ext_def)

lemma vfs_ext_trans: "vfs_ext s t \<Longrightarrow> vfs_ext t u \<Longrightarrow> vfs_ext s u"
  unfolding vfs_ext_def by (metis order_less_le_trans order_trans)

section \<open>Creating a node\<close>

definition parent_node :: "nat \<Rightarrow> vfs_node \<Rightarrow> vfs_node" where
  "parent_node c p = p\<lparr>vn_children := Some c, vn_child_count := vn_child_count p + 1\<rparr>"

definition child_node :: "nat \<Rightarrow> vfs_node \<Rightarrow> vfs_node \<Rightarrow> vfs_node" where
  "child_node cur p nd = nd\<lparr>vn_ops := Some Default_ops, vn_parent := Some cur, vn_next_sibling := vn_children p\<rparr>"

lemma vfs_add_child_snoc:
  assumes "cur < length (vnodes s)"
  shows "vfs_add_child cur (length (vnodes s)) (s\<lparr>vnodes := vnodes s @ [nd\<lparr>vn_ops := Some Default_ops\<rparr>], kmem := km\<rparr>) =
    Inr (s\<lparr>vnodes := (vnodes s)[cur := parent_node (length (vnodes s)) (vnodes s ! cur)] @ [child_node cur (vnodes s ! cur) nd],
           kmem := km\<rparr>)"
  using assms by (simp add: vfs_add_child_def set_node_def parent_node_def child_node_def nth_append get_node_def list_update_append)

text \<open>What \<open>create_child\<close> does when it succeeds.\<close>

lemma create_childD:
  assumes "create_child cur name l data n s = Inr (Some c, s')" "cur < length (vnodes s)"
  obtains nd km km1 where "file_fields l data n (vfs_set_name zero_node name) km = Inr (Some nd, km1)" "c = length (vnodes s)"
    "s' = s\<lparr>vnodes := (vnodes s)[cur := parent_node c (vnodes s ! cur)] @ [child_node cur (vnodes s ! cur) nd], kmem := km1\<rparr>"
  using assms that vfs_add_child_snoc [OF assms(2)]
  by (auto simp: create_child_def Let_def split: prod.splits option.splits if_splits)

lemma file_fields_facts:
  assumes "file_fields l data n (vfs_set_name zero_node name) km = Inr (Some nd, km1)"
  shows "vn_name nd = take 63 name \<and> vn_children nd = None \<and>
    (case vn_data nd of None \<Rightarrow> vn_size nd = 0 | Some d \<Rightarrow> length d = unat (vn_size nd)) \<and>
    (if l then vn_type nd = VFS_TYPE_FILE \<and> vn_size nd = n \<and>
               (\<forall>d. 0 < n \<longrightarrow> data = Some d \<longrightarrow> vn_data nd = Some (take (unat n) d))
     else vn_type nd = VFS_TYPE_DIR)"
  using assms by (auto simp: file_fields_def vfs_set_name_def zero_node_def Let_def word_gt_0 split: if_splits prod.splits option.splits)

lemma create_child_wf:
  assumes wf: "nodes_wf s" and cur: "cur < length (vnodes s)" and e: "create_child cur name l data n s = Inr (Some c, s')"
  shows "nodes_wf s'"
proof -
  obtain nd km km1 where nd: "file_fields l data n (vfs_set_name zero_node name) km = Inr (Some nd, km1)" "c = length (vnodes s)"
    "s' = s\<lparr>vnodes := (vnodes s)[cur := parent_node c (vnodes s ! cur)] @ [child_node cur (vnodes s ! cur) nd], kmem := km1\<rparr>"
    by (rule create_childD [OF e cur])
  note ff = file_fields_facts [OF nd(1)]
  have old: "node_wf (Suc c) i (vnodes s ! i)" if "i < c" for i
    using node_wf_nth [OF wf, of i] that nd(2) by (fastforce simp: node_wf_def)
  have par: "node_wf (Suc c) cur (parent_node c (vnodes s ! cur))"
    using node_wf_nth [OF wf cur] by (simp add: node_wf_def parent_node_def split: option.splits)
  have new: "node_wf (Suc c) c (child_node cur (vnodes s ! cur) nd)"
    using ff children_less [OF wf cur] nd(2) by (simp add: node_wf_def child_node_def split: option.splits)
  show ?thesis
    using wf old par new cur unfolding nodes_wf_def nd(3)
    by (auto simp: nd(2) nth_append nth_list_update less_Suc_eq)
qed

lemma create_child_find:
  assumes wf: "nodes_wf s" and cur: "cur < length (vnodes s)" and e: "create_child cur name l data n s = Inr (Some c, s')"
    and dir: "dir < length (vnodes s)"
  shows "vfs_find_child dir nm s' = (if dir = cur \<and> nm = take 63 name then Inr (Some c) else vfs_find_child dir nm s)"
proof -
  obtain nd km km1 where nd: "file_fields l data n (vfs_set_name zero_node name) km = Inr (Some nd, km1)" "c = length (vnodes s)"
    "s' = s\<lparr>vnodes := (vnodes s)[cur := parent_node c (vnodes s ! cur)] @ [child_node cur (vnodes s ! cur) nd], kmem := km1\<rparr>"
    by (rule create_childD [OF e cur])
  note ff = file_fields_facts [OF nd(1)]
  have same: "find_child_from k start nm s' = find_child_from c start nm s"
    if "c \<le> k" "\<And>x. start = Some x \<Longrightarrow> x < c" for start k
    by (rule find_child_from_cong [OF wf, where m = c])
      (use that nd cur in \<open>auto simp: nth_append nth_list_update parent_node_def\<close>)
  have ch: "\<And>d x. d < c \<Longrightarrow> vn_children (vnodes s ! d) = Some x \<Longrightarrow> x < c" using children_less [OF wf] nd(2) by simp
  show ?thesis
  proof (cases "dir = cur")
    case True
    have "find_child_from (Suc c) (Some c) nm s' =
        (if nm = take 63 name then Inr (Some c) else find_child_from c (vn_children (vnodes s ! cur)) nm s')"
      using ff by (simp add: nd(2,3) nth_append child_node_def)
    then show ?thesis
      using True dir cur nd(2) same [of c "vn_children (vnodes s ! cur)"] ch [of cur]
      by (simp add: vfs_find_child_def nd(3) nth_append parent_node_def)
  next
    case False
    then show ?thesis
      using dir nd(2) same [of "Suc c" "vn_children (vnodes s ! dir)"] ch [of dir]
      by (simp add: vfs_find_child_def nd(3) nth_append)
  qed
qed

lemma create_child_ext:
  assumes wf: "nodes_wf s" and cur: "cur < length (vnodes s)" and e: "create_child cur name l data n s = Inr (Some c, s')"
    and new: "vfs_find_child cur (take 63 name) s = Inr None"
  shows "vfs_ext s s'"
proof -
  obtain nd km km1 where nd: "file_fields l data n (vfs_set_name zero_node name) km = Inr (Some nd, km1)" "c = length (vnodes s)"
    "s' = s\<lparr>vnodes := (vnodes s)[cur := parent_node c (vnodes s ! cur)] @ [child_node cur (vnodes s ! cur) nd], kmem := km1\<rparr>"
    by (rule create_childD [OF e cur])
  have "vfs_find_child dir nm s' = Inr (Some x)" if "vfs_find_child dir nm s = Inr (Some x)" for dir nm x
  proof -
    have "dir < length (vnodes s)" using that by (auto simp: vfs_find_child_def get_node_def split: if_splits)
    then show ?thesis using create_child_find [OF wf cur e, of dir nm] that new by auto
  qed
  then show ?thesis using cur by (auto simp: vfs_ext_def nd(2,3) nth_append nth_list_update parent_node_def)
qed

lemma next_component_facts:
  assumes "next_component p = (c, p')"
  shows "length c \<le> 63" "take 63 c = c" "\<exists>q. p = q @ p'"
proof -
  obtain r where r: "scan_component 63 p = (c, r)" "p' = skip_slash r"
    using assms by (auto simp: next_component_def split: prod.splits)
  show "length c \<le> 63" by (rule scan_component_length [OF r(1)])
  then show "take 63 c = c" by simp
  obtain q where "r = q @ p'" using skip_slash_suffix [of r] r(2) by auto
  then have "p = (c @ q) @ p'" using scan_component_append [OF r(1)] by simp
  then show "\<exists>q. p = q @ p'" by blast
qed

text \<open>
  Creating a path and looking it up agree: whatever existed before, the node returned by a
  successful creation is the one the path leads to afterwards.
\<close>

lemma create_from_lookup:
  assumes "create_from cur p data n s = Inr (Some x, s')" "nodes_wf s" "cur < length (vnodes s)"
  shows "nodes_wf s' \<and> vfs_ext s s' \<and> x < length (vnodes s') \<and> lookup_from cur p s' = Inr (Some x)"
  using assms
proof (induction cur p data n s rule: create_from.induct)
  case (1 cur p data n s)
  show ?case
  proof (cases "p = []")
    case True
    then show ?thesis using "1.prems" by (simp add: create_from.simps lookup_from.simps vfs_ext_refl)
  next
    case False
    obtain c p' where cp: "next_component p = (c, p')" by fastforce
    note unf = create_from.simps [of cur p data n s] lookup_from.simps [of cur p]
    show ?thesis
    proof (cases "c = []")
      case True
      then show ?thesis using "1.IH"(1) [OF False refl cp [symmetric]] "1.prems" False cp by (simp add: unf)
    next
      case c: False
      obtain r where r: "vfs_find_child cur c s = Inr r" "\<And>i. r = Some i \<Longrightarrow> i < length (vnodes s)"
        using vfs_find_child_total [OF "1.prems"(2,3)] by blast
      show ?thesis
      proof (cases r)
        case (Some i)
        then have "create_from i p' data n s = Inr (Some x, s')" using "1.prems"(1) False cp c r by (simp add: unf)
        then have "nodes_wf s' \<and> vfs_ext s s' \<and> x < length (vnodes s') \<and> lookup_from i p' s' = Inr (Some x)"
          using "1.IH"(3) [OF False refl cp [symmetric] c r(1) Some] "1.prems" r Some by simp
        then show ?thesis using False cp c r Some by (auto simp: unf vfs_ext_def)
      next
        case None
        then obtain i s1 where i: "create_child cur c (p' = []) data n s = Inr (Some i, s1)" "create_from i p' data n s1 = Inr (Some x, s')"
          using "1.prems"(1) False cp c r by (auto simp: unf split: option.splits)
        have nf: "vfs_find_child cur (take 63 c) s = Inr None" using next_component_facts(2) [OF cp] r None by simp
        have w: "nodes_wf s1" "vfs_ext s s1" "vfs_find_child cur c s1 = Inr (Some i)"
          using create_child_wf [OF "1.prems"(2,3) i(1)] create_child_ext [OF "1.prems"(2,3) i(1) nf]
            create_child_find [OF "1.prems"(2,3) i(1) "1.prems"(3), of c] next_component_facts(2) [OF cp] by simp_all
        have il: "i < length (vnodes s1)" by (rule create_childD [OF i(1) "1.prems"(3)]) simp
        have "nodes_wf s' \<and> vfs_ext s1 s' \<and> x < length (vnodes s') \<and> lookup_from i p' s' = Inr (Some x)"
          using "1.IH"(2) [OF False refl cp [symmetric] c r(1) None i(1) refl refl] i w il by simp
        then show ?thesis using False cp c w(2,3) vfs_ext_trans [OF w(2)] by (auto simp: unf vfs_ext_def)
      qed
    qed
  qed
qed

lemma create_child_total:
  assumes "kmem s = []" "cur < length (vnodes s)" "n = 0 \<or> (\<exists>d. data = Some d \<and> unat n \<le> length d)"
  shows "\<exists>s'. create_child cur name l data n s = Inr (Some (length (vnodes s)), s') \<and> kmem s' = []"
proof -
  have "\<exists>nd. file_fields l data n (vfs_set_name zero_node name) [] = Inr (Some nd, [])"
    using assms(3) by (cases l; cases "n = 0") (auto simp: file_fields_def word_gt_0)
  then obtain nd where "file_fields l data n (vfs_set_name zero_node name) [] = Inr (Some nd, [])" ..
  then show ?thesis
    using assms(1) vfs_add_child_snoc [OF assms(2)] by (simp add: create_child_def VFS_NODE_SIZE_def Let_def)
qed

lemma create_from_total:
  assumes "kmem s = []" "nodes_wf s" "cur < length (vnodes s)" "n = 0 \<or> (\<exists>d. data = Some d \<and> unat n \<le> length d)"
  shows "\<exists>x s'. create_from cur p data n s = Inr (Some x, s') \<and> kmem s' = []"
  using assms
proof (induction cur p data n s rule: create_from.induct)
  case (1 cur p data n s)
  show ?case
  proof (cases "p = []")
    case False
    obtain c p' where cp: "next_component p = (c, p')" by fastforce
    note unf = create_from.simps [of cur p data n s]
    show ?thesis
    proof (cases "c = []")
      case c: False
      obtain r where r: "vfs_find_child cur c s = Inr r" "\<And>i. r = Some i \<Longrightarrow> i < length (vnodes s)"
        using vfs_find_child_total [OF "1.prems"(2,3)] by blast
      show ?thesis
      proof (cases r)
        case None
        obtain s1 where s1: "create_child cur c (p' = []) data n s = Inr (Some (length (vnodes s)), s1)" "kmem s1 = []"
          using create_child_total [OF "1.prems"(1,3,4)] by blast
        have "length (vnodes s) < length (vnodes s1)" by (rule create_childD [OF s1(1) "1.prems"(3)]) simp
        then show ?thesis
          using "1.IH"(2) [OF False refl cp [symmetric] c r(1) None s1(1) refl refl] s1 "1.prems"(4)
            create_child_wf [OF "1.prems"(2,3) s1(1)] False cp c r None by (simp add: unf)
      qed (use "1.IH"(3) [OF False refl cp [symmetric] c r(1)] "1.prems" False cp c r in \<open>simp add: unf\<close>)
    qed (use "1.IH"(1) [OF False refl cp [symmetric]] "1.prems" False cp in \<open>simp add: unf\<close>)
  qed (use "1.prems" in \<open>simp add: create_from.simps\<close>)
qed

lemma next_component_last:
  assumes "next_component p = (c, p')" "p \<noteq> []" "last p \<noteq> CHR ''/''"
  shows "p' \<noteq> [] \<Longrightarrow> last p' \<noteq> CHR ''/''" "c = [] \<Longrightarrow> p' \<noteq> []"
proof -
  show "last p' \<noteq> CHR ''/''" if "p' \<noteq> []" using next_component_facts(3) [OF assms(1)] that assms(3) by auto
  show "p' \<noteq> []" if c: "c = []"
  proof -
    obtain x xs where "p = x # xs" using assms(2) by (cases p) auto
    moreover obtain r where r: "scan_component 63 p = ([], r)" "p' = skip_slash r"
      using assms(1) c by (auto simp: next_component_def split: prod.splits)
    ultimately show ?thesis using scan_component_Nil [of 62 x xs r] assms(3) by (auto simp: skip_slash_def)
  qed
qed

lemma lookup_from_childless:
  assumes "i < length (vnodes s)" "vn_children (vnodes s ! i) = None" "p \<noteq> []" "last p \<noteq> CHR ''/''"
  shows "lookup_from i p s = Inr None"
  using assms(3,4)
proof (induction "length p" arbitrary: p rule: less_induct)
  case less
  obtain c p' where cp: "next_component p = (c, p')" by fastforce
  then show ?case
    using less.hyps [of p'] next_component_shorter [OF less.prems(1) cp] next_component_last [OF cp less.prems] less.prems(1) assms(1,2)
    by (cases "c = []") (simp_all add: lookup_from.simps [of i p] vfs_find_child_def)
qed

text \<open>The node created for the last component of a new path is a file with the given contents.\<close>

definition holds_file :: "vfs_node \<Rightarrow> string option \<Rightarrow> u64 \<Rightarrow> bool" where
  "holds_file nd data n \<longleftrightarrow> vn_type nd = VFS_TYPE_FILE \<and> vn_size nd = n \<and>
     (\<forall>d. 0 < n \<longrightarrow> data = Some d \<longrightarrow> vn_data nd = Some (take (unat n) d))"

lemma create_child_node:
  assumes "create_child cur name l data n s = Inr (Some c, s')" "cur < length (vnodes s)"
  shows "c < length (vnodes s') \<and> vn_children (vnodes s' ! c) = None \<and> (l \<longrightarrow> holds_file (vnodes s' ! c) data n)"
proof (rule create_childD [OF assms])
  fix nd km km1
  assume "file_fields l data n (vfs_set_name zero_node name) km = Inr (Some nd, km1)" "c = length (vnodes s)"
    "s' = s\<lparr>vnodes := (vnodes s)[cur := parent_node c (vnodes s ! cur)] @ [child_node cur (vnodes s ! cur) nd], kmem := km1\<rparr>"
  then show ?thesis
    using file_fields_facts [of l data n name km nd km1] by (auto simp: holds_file_def child_node_def nth_append)
qed

lemma create_from_holds:
  assumes "create_from cur p data n s = Inr (Some x, s')" "nodes_wf s" "cur < length (vnodes s)"
    and "lookup_from cur p s = Inr None" "p \<noteq> []" "last p \<noteq> CHR ''/''"
  shows "holds_file (vnodes s' ! x) data n"
  using assms
proof (induction cur p data n s rule: create_from.induct)
  case (1 cur p data n s)
  note p = "1.prems"(5)
  obtain c p' where cp: "next_component p = (c, p')" by fastforce
  note unf = create_from.simps [of cur p data n s] lookup_from.simps [of cur p]
    and lst = next_component_last [OF cp p "1.prems"(6)]
  show ?case
  proof (cases "c = []")
    case True
    then show ?thesis using "1.IH"(1) [OF p refl cp [symmetric]] "1.prems" p cp lst by (simp add: unf)
  next
    case c: False
    obtain r where r: "vfs_find_child cur c s = Inr r" "\<And>i. r = Some i \<Longrightarrow> i < length (vnodes s)"
      using vfs_find_child_total [OF "1.prems"(2,3)] by blast
    show ?thesis
    proof (cases r)
      case (Some i)
      have "p' \<noteq> []" using "1.prems"(4) p cp c r Some by (auto simp: unf lookup_from.simps [of i "[]"])
      then show ?thesis
        using "1.IH"(3) [OF p refl cp [symmetric] c r(1) Some] "1.prems" p cp c r Some lst by (simp add: unf)
    next
      case None
      then obtain i s1 where i: "create_child cur c (p' = []) data n s = Inr (Some i, s1)" "create_from i p' data n s1 = Inr (Some x, s')"
        using "1.prems"(1) p cp c r by (auto simp: unf split: option.splits)
      note nd = create_child_node [OF i(1) "1.prems"(3)]
      show ?thesis
      proof (cases "p' = []")
        case True
        then show ?thesis using i(2) nd by auto
      next
        case False
        then show ?thesis
          using "1.IH"(2) [OF p refl cp [symmetric] c r(1) None i(1) refl refl] i(2) nd
            create_child_wf [OF "1.prems"(2,3) i(1)] lookup_from_childless [of i s1 p'] lst by simp
      qed
    qed
  qed
qed

section \<open>Open files\<close>

lemma file_slot: "fd_ok fd s \<Longrightarrow> files_wf s \<Longrightarrow> nat fd < length (open_table s)"
  by (simp add: fd_ok_def files_wf_def nat_less_iff)

text \<open>The node and the offset behind a valid descriptor.\<close>

lemma fd_node:
  assumes "fd_ok fd s" "files_wf s"
  obtains i where "of_node (open_table s ! nat fd) = Some i" "i < length (vnodes s)"
    "of_offset (open_table s ! nat fd) \<le> vn_size (vnodes s ! i)" "file_node fd s = Inr i"
proof -
  have "open_table s ! nat fd \<in> set (open_table s)" using file_slot [OF assms] by (rule nth_mem)
  then obtain i where "i < length (vnodes s)" "of_node (open_table s ! nat fd) = Some i"
      "of_offset (open_table s ! nat fd) \<le> vn_size (vnodes s ! i)"
    using assms by (auto simp: files_wf_def fd_ok_def)
  then show ?thesis using that by (simp add: file_node_def)
qed

lemma set_file_wf:
  assumes "files_wf s" "of_used f \<Longrightarrow> \<exists>i < length (vnodes s). of_node f = Some i \<and> of_offset f \<le> vn_size (vnodes s ! i)"
  shows "files_wf (set_file fd f s)"
  using assms unfolding files_wf_def set_file_def by (auto dest!: set_update_subset_insert [THEN subsetD])

lemma set_file_nodes [simp]: "nodes_wf (set_file fd f s) = nodes_wf s" "vnodes (set_file fd f s) = vnodes s"
  by (simp_all add: set_file_def nodes_wf_def)

text \<open>A read inside the file returns the bytes at the offset and moves it past them.\<close>

lemma vfs_default_read_wf:
  assumes "nodes_wf s" "i < length (vnodes s)" "off \<le> vn_size (vnodes s ! i)" "unat off + unat n < 2 ^ 64"
  shows "\<exists>bs. vfs_default_read (vnodes s ! i) n off = Inr bs \<and>
    bs = take (unat n) (drop (unat off) (case vn_data (vnodes s ! i) of None \<Rightarrow> [] | Some d \<Rightarrow> d)) \<and>
    unat off + length bs \<le> unat (vn_size (vnodes s ! i))"
proof -
  let ?nd = "vnodes s ! i"
  have w: "case vn_data ?nd of None \<Rightarrow> vn_size ?nd = 0 | Some d \<Rightarrow> length d = unat (vn_size ?nd)"
    using node_wf_nth [OF assms(1,2)] by (simp add: node_wf_def)
  have off: "unat off \<le> unat (vn_size ?nd)" using assms(3) by (simp add: word_le_nat_alt)
  have plus: "unat (off + n) = unat off + unat n" using assms(4) by (simp add: unat_word_ariths)
  show ?thesis
  proof (cases "vn_data ?nd")
    case None
    then show ?thesis using off by (simp add: vfs_default_read_def)
  next
    case (Some d)
    then have ld: "length d = unat (vn_size ?nd)" using w by simp
    have sub: "unat (vn_size ?nd - off) = unat (vn_size ?nd) - unat off" using assms(3) by (simp add: unat_sub)
    show ?thesis
      using Some ld off plus sub
      by (auto simp: vfs_default_read_def Let_def word_le_nat_alt word_less_nat_alt not_less)
  qed
qed

text \<open>A read that returns stays inside the file, also when offset and count wrap.\<close>

lemma vfs_default_read_bound:
  assumes "nodes_wf s" "i < length (vnodes s)" "off \<le> vn_size (vnodes s ! i)" "vfs_default_read (vnodes s ! i) n off = Inr bs"
  shows "unat off + length bs \<le> unat (vn_size (vnodes s ! i))"
proof -
  have w: "case vn_data (vnodes s ! i) of None \<Rightarrow> vn_size (vnodes s ! i) = 0 | Some d \<Rightarrow> length d = unat (vn_size (vnodes s ! i))"
    using node_wf_nth [OF assms(1,2)] by (simp add: node_wf_def)
  then show ?thesis
    using assms(3,4) by (auto simp: vfs_default_read_def Let_def word_le_nat_alt split: option.splits if_splits)
qed

lemma vfs_read_wf:
  assumes "vfs_wf s" "vfs_read fd n s = Inr (r, bs, s')"
  shows "vfs_wf s'"
proof (cases "fd_ok fd s")
  case True
  let ?off = "of_offset (open_table s ! nat fd)"
  obtain i where i: "of_node (open_table s ! nat fd) = Some i" "i < length (vnodes s)" "?off \<le> vn_size (vnodes s ! i)"
      "file_node fd s = Inr i"
    using assms(1) True by (auto simp: vfs_wf_def elim: fd_node)
  have bs: "vfs_default_read (vnodes s ! i) n ?off = Inr bs" using assms(2) True i by (auto simp: vfs_read_def Let_def)
  have le: "unat ?off + length bs \<le> unat (vn_size (vnodes s ! i))"
    using vfs_default_read_bound [OF _ i(2,3) bs] assms(1) by (simp add: vfs_wf_def)
  then have "unat (?off + word_of_nat (length bs)) = unat ?off + length bs"
    using unat_u64_less [of "vn_size (vnodes s ! i)"] by (simp add: unat_word_ariths unat_of_nat)
  then have "?off + word_of_nat (length bs) \<le> vn_size (vnodes s ! i)" using le by (simp add: word_le_nat_alt)
  then show ?thesis
    using True i bs assms by (auto simp: vfs_read_def vfs_wf_def Let_def intro!: set_file_wf)
qed (use assms in \<open>simp add: vfs_read_def\<close>)

text \<open>A write at an offset inside the file overwrites or extends the contents there.\<close>

definition write_at :: "string \<Rightarrow> nat \<Rightarrow> string \<Rightarrow> string" where
  "write_at d off buf = take off d @ buf @ drop (off + length buf) d"

definition contents :: "vfs_node \<Rightarrow> string" where
  "contents nd = (case vn_data nd of None \<Rightarrow> [] | Some d \<Rightarrow> d)"

lemma contents_length: "nodes_wf s \<Longrightarrow> i < length (vnodes s) \<Longrightarrow> length (contents (vnodes s ! i)) = unat (vn_size (vnodes s ! i))"
  using node_wf_nth [of s i] by (simp add: contents_def node_wf_def split: option.splits)

lemma grow_data_eq:
  assumes "nodes_wf s" "i < length (vnodes s)" "vn_size (vnodes s ! i) < new"
  shows "grow_data (vnodes s ! i) new =
    Inr (contents (vnodes s ! i) @ replicate (unat new - unat (vn_size (vnodes s ! i))) (CHR 0x00))"
proof -
  have w: "case vn_data (vnodes s ! i) of None \<Rightarrow> vn_size (vnodes s ! i) = 0 | Some d \<Rightarrow> length d = unat (vn_size (vnodes s ! i))"
    using node_wf_nth [OF assms(1,2)] by (simp add: node_wf_def)
  show ?thesis
    using w assms(3) by (cases "vn_size (vnodes s ! i) = 0")
      (auto simp: grow_data_def contents_def word_gt_0 split: option.splits)
qed

lemma kmem_idle: "kmem s = [] \<Longrightarrow> s\<lparr>kmem := []\<rparr> = s"
  by (cases s) simp

lemma sint_small:
  assumes "unat (n :: u64) < 2 ^ 63"
  shows "sint n = int (unat n)"
proof -
  have "int (unat n) < int (2 ^ 63)" using assms by (simp only: of_nat_less_iff)
  then have "uint n < 2 ^ 63" by (simp only: unsigned_of_nat of_nat_unat of_nat_power of_nat_numeral)
  moreover have "- (2 ^ 63) \<le> uint n" by (rule order_trans [of _ 0]) simp_all
  ultimately show ?thesis by (simp add: sint_uint signed_take_bit_int_eq_self_iff)
qed

lemma vfs_default_write_wf:
  assumes wf: "nodes_wf s" and i: "i < length (vnodes s)" and off: "off \<le> vn_size (vnodes s ! i)"
    and n: "unat off + unat n < 2 ^ 64" "0 < n" and buf: "length buf = unat n" and km: "kmem s = []"
  shows "\<exists>nd. vfs_default_write i buf n off s = Inr (sint n, set_node i nd s) \<and>
    vn_data nd = Some (write_at (contents (vnodes s ! i)) (unat off) buf) \<and>
    unat (vn_size nd) = max (unat (vn_size (vnodes s ! i))) (unat off + unat n) \<and>
    vn_children nd = vn_children (vnodes s ! i) \<and> vn_next_sibling nd = vn_next_sibling (vnodes s ! i)"
proof -
  let ?nd = "vnodes s ! i"
  have off': "unat off \<le> unat (vn_size ?nd)" using off by (simp add: word_le_nat_alt)
  have plus: "unat (off + n) = unat off + unat n" using n(1) by (simp add: unat_word_ariths)
  note cl = contents_length [OF wf i]
  show ?thesis
  proof (cases "off + n > vn_size ?nd")
    case True
    then have big: "unat off + unat n > unat (vn_size ?nd)" using plus by (simp add: word_less_nat_alt)
    have "off + n \<noteq> 0" using True by auto
    moreover have "write_at (contents ?nd) (unat off) buf = take (unat off) (contents ?nd) @ buf"
      using big cl buf by (simp add: write_at_def)
    ultimately show ?thesis
      using True i n(2) km buf cl big off' plus
      by (intro exI [of _ "?nd\<lparr>vn_data := Some (write_at (contents ?nd) (unat off) buf), vn_size := off + n\<rparr>"])
        (simp add: vfs_default_write_def grow_data_eq [OF wf i True] store_bytes_def Let_def kmem_idle)
  next
    case False
    then have small: "unat off + unat n \<le> unat (vn_size ?nd)" using plus by (simp add: word_le_nat_alt not_less)
    moreover have "vn_data ?nd \<noteq> None"
    proof
      assume "vn_data ?nd = None"
      then have "vn_size ?nd = 0" using node_wf_nth [OF wf i] by (simp add: node_wf_def)
      then show False using small n(2) by (simp add: word_less_nat_alt)
    qed
    ultimately show ?thesis
      using False i n(2) buf cl
      by (intro exI [of _ "?nd\<lparr>vn_data := Some (write_at (contents ?nd) (unat off) buf)\<rparr>"])
        (auto simp: vfs_default_write_def store_bytes_def Let_def contents_def write_at_def)
  qed
qed

text \<open>Whatever the outcome of the allocation, a write keeps the file system well formed.\<close>

lemma set_node_wf:
  assumes "vfs_wf s" "i < length (vnodes s)" "vn_size (vnodes s ! i) \<le> vn_size nd"
    and "vn_children nd = vn_children (vnodes s ! i)" "vn_next_sibling nd = vn_next_sibling (vnodes s ! i)"
    and "\<exists>d. vn_data nd = Some d \<and> length d = unat (vn_size nd)"
  shows "vfs_wf (set_node i nd s)"
proof -
  have w: "node_wf (length (vnodes s)) j (vnodes s ! j)" if "j < length (vnodes s)" for j
    using node_wf_nth [OF _ that] assms(1) by (simp add: vfs_wf_def)
  have "node_wf (length (vnodes s)) i nd" using w [OF assms(2)] assms(4-6) by (auto simp: node_wf_def)
  then have "nodes_wf (set_node i nd s)"
    using assms(1,2) w by (auto simp: vfs_wf_def nodes_wf_def set_node_def nth_list_update)
  moreover have "\<exists>j < length (vnodes s). of_node f = Some j \<and> of_offset f \<le> vn_size ((vnodes s)[i := nd] ! j)"
    if "f \<in> set (open_table s)" "of_used f" for f
  proof -
    obtain j where "j < length (vnodes s)" "of_node f = Some j" "of_offset f \<le> vn_size (vnodes s ! j)"
      using assms(1) \<open>f \<in> set (open_table s)\<close> \<open>of_used f\<close> by (auto simp: vfs_wf_def files_wf_def)
    then show ?thesis using assms(2,3) by (auto simp: nth_list_update)
  qed
  then have "files_wf (set_node i nd s)" using assms(1) by (auto simp: vfs_wf_def files_wf_def set_node_def)
  ultimately show ?thesis by (simp add: vfs_wf_def)
qed

lemma kmem_wf [simp]: "vfs_wf (s\<lparr>kmem := km\<rparr>) = vfs_wf s"
  by (simp add: vfs_wf_def nodes_wf_def files_wf_def)

lemma vfs_default_write_keeps:
  assumes wf: "vfs_wf s" and i: "i < length (vnodes s)" and off: "off \<le> vn_size (vnodes s ! i)"
    and n: "unat off + unat n < 2 ^ 63" and e: "vfs_default_write i buf n off s = Inr (r, s')"
  shows "vfs_wf s' \<and> length (vnodes s') = length (vnodes s) \<and> open_table s' = open_table s \<and>
    (0 < r \<longrightarrow> r = int (unat n) \<and> off + n \<le> vn_size (vnodes s' ! i))"
proof -
  let ?nd = "vnodes s ! i"
  have w: "nodes_wf s" using wf by (simp add: vfs_wf_def)
  have plus: "unat (off + n) = unat off + unat n" using n by (simp add: unat_word_ariths)
  have sn: "sint n = int (unat n)" using n by (intro sint_small) simp
  consider "n = 0" "s' = s" "r = 0"
    | "off + n > vn_size ?nd" "s' = s\<lparr>kmem := snd (kmalloc_outcome (off + n) (kmem s))\<rparr>" "r = -1"
    | d where "off + n > vn_size ?nd" "length d = unat (off + n)" "r = sint n"
       "s' = set_node i (?nd\<lparr>vn_data := Some d, vn_size := off + n\<rparr>) (s\<lparr>kmem := snd (kmalloc_outcome (off + n) (kmem s))\<rparr>)"
    | d where "\<not> off + n > vn_size ?nd" "length d = unat (vn_size ?nd)" "r = sint n" "s' = set_node i (?nd\<lparr>vn_data := Some d\<rparr>) s"
  proof (cases "n = 0")
    case True
    then show ?thesis using e that(1) by (simp add: vfs_default_write_def)
  next
    case nz: False
    show ?thesis
    proof (cases "off + n > vn_size ?nd")
      case True
      have "length (contents ?nd) = unat (vn_size ?nd)" by (rule contents_length [OF w i])
      moreover have "unat (vn_size ?nd) < unat off + unat n" using True plus by (simp add: word_less_nat_alt)
      moreover have "unat off \<le> unat (vn_size ?nd)" using off by (simp add: word_le_nat_alt)
      ultimately show ?thesis
        using e nz True i that(2) that(3) [of "take (unat off) (contents ?nd) @ take (unat n) buf"] plus
        by (auto simp: vfs_default_write_def Let_def grow_data_eq [OF w i True] store_bytes_def split: if_splits prod.splits)
    next
      case False
      have "length d = unat (vn_size ?nd)" if "vn_data ?nd = Some d" for d
        using contents_length [OF w i] that by (simp add: contents_def)
      then show ?thesis
        using e nz False i plus that(4) [of "take (unat off) (contents ?nd) @ take (unat n) buf @ drop (unat off + unat n) (contents ?nd)"]
        by (auto simp: vfs_default_write_def Let_def store_bytes_def contents_def split: if_splits option.splits)
    qed
  qed
  then show ?thesis
  proof cases
    case 1
    then show ?thesis using wf by simp
  next
    case 2
    then show ?thesis using wf by simp
  next
    case (3 d)
    have "vfs_wf s'" unfolding 3(4) by (rule set_node_wf) (use wf i 3 in auto)
    then show ?thesis using 3 i sn by (simp add: set_node_def)
  next
    case (4 d)
    have "vfs_wf s'" unfolding 4(4) by (rule set_node_wf) (use wf i 4 in auto)
    then show ?thesis using 4 i sn by (simp add: set_node_def not_less)
  qed
qed

lemma create_from_files:
  assumes "create_from cur p data n s = Inr (r, s')" "nodes_wf s" "cur < length (vnodes s)" "files_wf s"
  shows "nodes_wf s' \<and> files_wf s' \<and> root_node s' = root_node s"
  using assms
proof (induction cur p data n s rule: create_from.induct)
  case (1 cur p data n s)
  obtain c p' where cp: "next_component p = (c, p')" by fastforce
  note unf = create_from.simps [of cur p data n s]
  consider "p = []" | "p \<noteq> []" "c = []" | "p \<noteq> []" "c \<noteq> []" by blast
  then show ?case
  proof cases
    case 1
    then show ?thesis using "1.prems" by (simp add: unf)
  next
    case 2
    then show ?thesis using "1.IH"(1) [OF 2(1) refl cp [symmetric] 2(2)] "1.prems" cp by (simp add: unf)
  next
    case 3
    obtain q where q: "vfs_find_child cur c s = Inr q" "\<And>i. q = Some i \<Longrightarrow> i < length (vnodes s)"
      using vfs_find_child_total [OF "1.prems"(2,3)] by blast
    show ?thesis
    proof (cases q)
      case (Some i)
      then show ?thesis using "1.IH"(3) [OF 3(1) refl cp [symmetric] 3(2) q(1) Some] "1.prems" 3 cp q by (simp add: unf)
    next
      case None
      obtain x s1 where x: "create_child cur c (p' = []) data n s = Inr (x, s1)"
        using "1.prems"(1) 3 cp q None by (auto simp: unf)
      show ?thesis
      proof (cases x)
        case None
        then have "\<exists>km. s1 = s\<lparr>kmem := km\<rparr>"
          using x by (auto simp: create_child_def Let_def split: if_splits prod.splits option.splits)
        then obtain km where "s1 = s\<lparr>kmem := km\<rparr>" ..
        then show ?thesis
          using "1.prems" 3 cp q \<open>q = None\<close> x None by (auto simp: unf nodes_wf_def files_wf_def)
      next
        case (Some i)
        have e: "vfs_ext s s1"
          using create_child_ext [OF "1.prems"(2,3)] x Some q \<open>q = None\<close> next_component_facts(2) [OF cp] by simp
        then have "files_wf s1"
          using "1.prems"(4) unfolding files_wf_def vfs_ext_def by (metis order_less_le_trans)
        moreover have "i < length (vnodes s1)" "nodes_wf s1"
          using create_child_node [of cur c "p' = []" data n s i s1] create_child_wf [OF "1.prems"(2,3)] x Some "1.prems"(3) by auto
        ultimately show ?thesis
          using "1.IH"(2) [OF 3(1) refl cp [symmetric] 3(2) q(1) \<open>q = None\<close> x refl Some] "1.prems" 3 cp q \<open>q = None\<close> x Some e
          by (simp add: unf vfs_ext_def)
      qed
    qed
  qed
qed

lemma vfs_create_file_wf:
  assumes "vfs_wf s" "vfs_create_file path data n s = Inr (r, s')"
  shows "vfs_wf s'"
  using assms create_from_files [of _ "skip_slash path" data n s r s']
  by (auto simp: vfs_create_file_def vfs_wf_def nodes_wf_def split: option.splits if_splits)

lemma take_slot_wf: "vfs_wf s \<Longrightarrow> i < length (vnodes s) \<Longrightarrow> vfs_wf (snd (take_slot k j i flags s))"
  by (induction k arbitrary: j) (auto simp: vfs_wf_def intro!: set_file_wf)

lemma open_node_wf: "vfs_wf s \<Longrightarrow> open_node i flags s = Inr (r, s') \<Longrightarrow> vfs_wf s'"
  using take_slot_wf [of s i VFS_MAX_OPEN 0 flags] by (auto simp: open_node_def get_node_eq split: if_splits)

lemma vfs_open_wf:
  assumes "vfs_wf s" "vfs_open path flags s = Inr (r, s')"
  shows "vfs_wf s'"
proof -
  consider i where "open_node i flags s = Inr (r, s')" | "s' = s"
    | r1 where "vfs_create_file path None 0 s = Inr (r1, s')"
    | r1 s1 i where "vfs_create_file path None 0 s = Inr (r1, s1)" "open_node i flags s1 = Inr (r, s')"
    using assms(2) by (auto simp: vfs_open_def split: option.splits if_splits)
  then show ?thesis using assms(1) by cases (auto intro: open_node_wf vfs_create_file_wf)
qed

lemma vfs_close_wf: "vfs_wf s \<Longrightarrow> vfs_close fd s = Inr (r, s') \<Longrightarrow> vfs_wf s'"
  by (auto simp: vfs_close_def vfs_wf_def split: if_splits intro!: set_file_wf)

lemma vfs_lseek_wf:
  assumes "vfs_wf s" "vfs_lseek fd off whence s = Inr (r, s')"
  shows "vfs_wf s'"
proof (cases "fd_ok fd s")
  case True
  then obtain i where "of_node (open_table s ! nat fd) = Some i" "i < length (vnodes s)"
    "of_offset (open_table s ! nat fd) \<le> vn_size (vnodes s ! i)" "file_node fd s = Inr i"
    using assms(1) by (auto simp: vfs_wf_def elim: fd_node)
  then show ?thesis
    using True assms by (auto simp: vfs_lseek_def vfs_wf_def Let_def not_less split: if_splits option.splits intro!: set_file_wf)
qed (use assms in \<open>simp add: vfs_lseek_def\<close>)

lemma vfs_write_wf:
  assumes "vfs_wf s" "fd_ok fd s \<Longrightarrow> unat (of_offset (open_table s ! nat fd)) + unat n < 2 ^ 63" "vfs_write fd buf n s = Inr (r, s')"
  shows "vfs_wf s'"
proof (cases "fd_ok fd s")
  case True
  let ?f = "open_table s ! nat fd"
  obtain i where i: "of_node ?f = Some i" "i < length (vnodes s)" "of_offset ?f \<le> vn_size (vnodes s ! i)" "file_node fd s = Inr i"
    using assms(1) True by (auto simp: vfs_wf_def elim: fd_node)
  obtain s1 where s1: "vfs_default_write i buf n (of_offset ?f) s = Inr (r, s1)"
      "s' = (if r > 0 then set_file fd (?f\<lparr>of_offset := of_offset ?f + word_of_int r\<rparr>) s1 else s1)"
    using assms(3) True i(4) by (auto simp: vfs_write_def Let_def)
  note w = vfs_default_write_keeps [OF assms(1) i(2,3) assms(2) [OF True] s1(1)]
  show ?thesis
    using w s1(2) i by (auto simp: vfs_wf_def intro!: set_file_wf)
qed (use assms in \<open>simp add: vfs_write_def\<close>)

text \<open>
  The system calls on the file system as a step relation. The writes are those whose end
  does not pass \<open>2\<^sup>6\<^sup>3\<close>, the range of the signed result.
\<close>

definition transfer_ok :: "int \<Rightarrow> u64 \<Rightarrow> vfs \<Rightarrow> bool" where
  "transfer_ok fd n s \<longleftrightarrow> (fd_ok fd s \<longrightarrow> unat (of_offset (open_table s ! nat fd)) + unat n < 2 ^ 63)"

inductive vfs_step :: "vfs \<Rightarrow> vfs \<Rightarrow> bool" where
  step_open: "vfs_open path flags s = Inr (r, s') \<Longrightarrow> vfs_step s s'"
| step_close: "vfs_close fd s = Inr (r, s') \<Longrightarrow> vfs_step s s'"
| step_read: "vfs_read fd n s = Inr (r, bs, s') \<Longrightarrow> vfs_step s s'"
| step_write: "vfs_write fd buf n s = Inr (r, s') \<Longrightarrow> transfer_ok fd n s \<Longrightarrow> vfs_step s s'"
| step_lseek: "vfs_lseek fd off whence s = Inr (r, s') \<Longrightarrow> vfs_step s s'"
| step_create: "vfs_create_file path data n s = Inr (r, s') \<Longrightarrow> vfs_step s s'"

lemma vfs_step_wf: "vfs_step s s' \<Longrightarrow> vfs_wf s \<Longrightarrow> vfs_wf s'"
proof (induction rule: vfs_step.induct)
  case (step_write fd buf n s r s')
  then show ?case using vfs_write_wf [of s fd n buf r s'] by (simp add: transfer_ok_def)
qed (auto intro: vfs_open_wf vfs_close_wf vfs_read_wf vfs_lseek_wf vfs_create_file_wf)

lemma lookup_from_total:
  assumes "nodes_wf s" "cur < length (vnodes s)"
  shows "\<exists>r. lookup_from cur p s = Inr r \<and> (\<forall>x. r = Some x \<longrightarrow> x < length (vnodes s))"
  using assms
proof (induction cur p s rule: lookup_from.induct)
  case (1 cur p s)
  obtain c p' where cp: "next_component p = (c, p')" by fastforce
  obtain q where q: "vfs_find_child cur c s = Inr q" "\<And>i. q = Some i \<Longrightarrow> i < length (vnodes s)"
    using vfs_find_child_total [OF "1.prems"] by blast
  show ?case
    using "1.IH"(1) [OF _ refl cp [symmetric]] "1.IH"(2) [OF _ refl cp [symmetric] _ q(1)] "1.prems" cp q
    by (cases "p = []"; cases "c = []"; cases q) (simp_all add: lookup_from.simps [of cur p])
qed

lemma lookup_from_ext:
  assumes "vfs_ext s s'" "lookup_from cur p s = Inr (Some x)"
  shows "lookup_from cur p s' = Inr (Some x)"
  using assms
proof (induction cur p s rule: lookup_from.induct)
  case (1 cur p s)
  obtain c p' where cp: "next_component p = (c, p')" by fastforce
  show ?case
  proof (cases "p = [] \<or> c = []")
    case True
    then show ?thesis using "1.IH"(1) [OF _ refl cp [symmetric]] "1.prems" cp by (auto simp: lookup_from.simps [of cur p])
  next
    case False
    then obtain i where i: "vfs_find_child cur c s = Inr (Some i)" "lookup_from i p' s = Inr (Some x)"
      using "1.prems"(2) cp by (auto simp: lookup_from.simps [of cur p] split: option.splits)
    have "vfs_find_child cur c s' = Inr (Some i)" using "1.prems"(1) i(1) by (simp add: vfs_ext_def)
    then show ?thesis
      using "1.IH"(2) [OF _ refl cp [symmetric] _ i(1) refl] "1.prems"(1) i False cp by (simp add: lookup_from.simps [of cur p])
  qed
qed

section \<open>Properties\<close>

definition closed_file :: open_file where
  "closed_file = \<lparr>of_node = None, of_offset = 0, of_flags = 0, of_used = False\<rparr>"

text \<open>The state before boot, and the file system \<open>ramfs_init\<close> leaves.\<close>

definition vfs_blank :: vfs where
  "vfs_blank = \<lparr>vnodes = [], root_node = None, open_table = replicate VFS_MAX_OPEN closed_file, kmem = []\<rparr>"

definition ramfs_booted :: vfs where
  "ramfs_booted = vfs_blank\<lparr>root_node := Some 0, vnodes :=
     [ramfs_root_node\<lparr>vn_children := Some 2, vn_child_count := 2\<rparr>,
      zero_node\<lparr>vn_name := ''readme.txt'', vn_type := VFS_TYPE_FILE, vn_size := 19, vn_data := Some ''MiraOS ramfs online'',
        vn_ops := Some Default_ops, vn_parent := Some 0\<rparr>,
      zero_node\<lparr>vn_name := ''version'', vn_type := VFS_TYPE_FILE, vn_size := 3, vn_data := Some ''1.0'',
        vn_ops := Some Default_ops, vn_parent := Some 0, vn_next_sibling := Some 1\<rparr>]\<rparr>"

lemma ramfs_init_booted: "ramfs_init vfs_blank = Inr ramfs_booted"
  by code_simp

lemma ramfs_init_wf:
  assumes "ramfs_init s = Inr s'" "length (open_table s) = VFS_MAX_OPEN"
  shows "vfs_wf s'"
proof -
  let ?s = "vfs_init (Some 0) (s\<lparr>vnodes := [ramfs_root_node]\<rparr>)"
  have "vfs_wf ?s"
    using assms(2) by (auto simp: vfs_wf_def nodes_wf_def node_wf_def files_wf_def vfs_init_def ramfs_root_node_def zero_node_def)
  then show ?thesis using assms(1) by (auto simp: ramfs_init_def Let_def dest: vfs_create_file_wf)
qed

lemma ramfs_booted_wf: "vfs_wf ramfs_booted"
  by (rule ramfs_init_wf [OF ramfs_init_booted]) (simp add: vfs_blank_def)

lemma create_file_lookup:
  assumes "vfs_wf s" "root_node s = Some r" "kmem s = []" "n = 0 \<or> (\<exists>d. data = Some d \<and> unat n \<le> length d)"
  shows "\<exists>x s'. vfs_create_file path data n s = Inr (Some x, s') \<and> vfs_lookup path s' = Inr (Some x) \<and> vfs_wf s' \<and>
    (\<forall>p y. vfs_lookup p s = Inr (Some y) \<longrightarrow> vfs_lookup p s' = Inr (Some y)) \<and>
    (vfs_lookup path s = Inr None \<and> last path \<noteq> CHR ''/'' \<longrightarrow> holds_file (vnodes s' ! x) data n)"
proof -
  have w: "nodes_wf s" "r < length (vnodes s)" using assms(1,2) by (auto simp: vfs_wf_def nodes_wf_def)
  obtain x s' where x: "create_from r (skip_slash path) data n s = Inr (Some x, s')"
    using create_from_total [OF assms(3) w assms(4)] by blast
  note c = create_from_lookup [OF x w]
  have root: "root_node s' = Some r" using c assms(2) by (simp add: vfs_ext_def)
  have "vfs_create_file path data n s = Inr (Some x, s')" using x assms(2) by (simp add: vfs_create_file_def)
  moreover have "vfs_wf s'" using vfs_create_file_wf [OF assms(1) calculation] .
  moreover have "vfs_lookup path s' = Inr (Some x)" using c root x by (auto simp: vfs_lookup_def skip_slash_def)
  moreover have "vfs_lookup p s' = Inr (Some y)" if "vfs_lookup p s = Inr (Some y)" for p y
    using that c root assms(2) lookup_from_ext [of s s'] by (auto simp: vfs_lookup_def split: if_splits)
  moreover have "holds_file (vnodes s' ! x) data n" if nf: "vfs_lookup path s = Inr None" "last path \<noteq> CHR ''/''"
  proof (rule create_from_holds [OF x w])
    show l: "lookup_from r (skip_slash path) s = Inr None" using nf(1) assms(2) by (auto simp: vfs_lookup_def split: if_splits)
    then show "skip_slash path \<noteq> []" by auto
    then show "last (skip_slash path) \<noteq> CHR ''/''" using nf(2) skip_slash_suffix [of path] by (metis last_appendR)
  qed
  ultimately show ?thesis by blast
qed

text \<open>
  C6. Creating a file and looking its path up agree. On a well-formed file system, with
  memory available and the contents readable, \<open>vfs_create_file\<close> returns a node, the path
  leads to exactly that node afterwards, every path that led to a node before still leads to
  it, the file system stays well formed, and a path that did not exist (and does not end in a
  slash) has become a file with the given contents.
\<close>
theorem vfs_create_lookup:
  assumes "vfs_wf s" "root_node s = Some r" "kmem s = []" "n = 0 \<or> (\<exists>d. data = Some d \<and> unat n \<le> length d)"
  shows "\<exists>x s'. vfs_create_file path data n s = Inr (Some x, s') \<and> vfs_lookup path s' = Inr (Some x) \<and> vfs_wf s' \<and>
    (\<forall>p y. vfs_lookup p s = Inr (Some y) \<longrightarrow> vfs_lookup p s' = Inr (Some y)) \<and>
    (vfs_lookup path s = Inr None \<and> last path \<noteq> CHR ''/'' \<longrightarrow> holds_file (vnodes s' ! x) data n)"
  by (rule create_file_lookup [OF assms])

theorem vfs_create_lookup_witness:
  "\<exists>x s'. vfs_create_file ''/etc/motd'' (Some ''hello'') 5 ramfs_booted = Inr (Some x, s') \<and>
     vfs_lookup ''/etc/motd'' s' = Inr (Some x)"
  using vfs_create_lookup [OF ramfs_booted_wf, of 0 5 "Some ''hello''" "''/etc/motd''"]
  by (auto simp: ramfs_booted_def vfs_blank_def)





text \<open>
  The end of a read is compared with the file size after the addition has wrapped. Inside
  a file, a byte count whose sum with the offset wraps past zero to a value within the size
  is not cut down, and the read runs past the end of the contents.
\<close>
theorem vfs_read_overrun:
  assumes "vfs_wf s" "fd_ok fd s" "of_node (open_table s ! nat fd) = Some i"
    and "0 < of_offset (open_table s ! nat fd)" "of_offset (open_table s ! nat fd) < vn_size (vnodes s ! i)"
    and "n = - of_offset (open_table s ! nat fd)"
  shows "vfs_read fd n s = Inl OutOfBounds"
proof -
  let ?off = "of_offset (open_table s ! nat fd)"
  obtain j where "of_node (open_table s ! nat fd) = Some j" "j < length (vnodes s)"
    using assms(1,2) by (auto simp: vfs_wf_def elim: fd_node)
  then have i: "i < length (vnodes s)" using assms(3) by simp
  have "vn_size (vnodes s ! i) \<noteq> 0" using assms(5) by auto
  then obtain d where d: "vn_data (vnodes s ! i) = Some d" "length d = unat (vn_size (vnodes s ! i))"
    using node_wf_nth [of s i] i assms(1) by (auto simp: vfs_wf_def node_wf_def split: option.splits)
  have "unat ?off + unat (- ?off) = 2 ^ 64"
    using unat_sub_if' [of 0 ?off] unat_u64_less [of ?off] assms(4) by (simp add: word_gt_0 unat_eq_0)
  then have "unat ?off + unat (- ?off) > length d" using d(2) unat_u64_less [of "vn_size (vnodes s ! i)"] by simp
  then show ?thesis
    using assms(2,3,5,6) i d by (simp add: vfs_read_def file_node_def vfs_default_read_def Let_def not_le)
qed

definition vfs_mid_file :: vfs where
  "vfs_mid_file = set_file 0 \<lparr>of_node = Some 2, of_offset = 1, of_flags = 0, of_used = True\<rparr> ramfs_booted"

theorem vfs_read_overrun_witness: "vfs_read 0 0xFFFFFFFFFFFFFFFF vfs_mid_file = Inl OutOfBounds"
proof (rule vfs_read_overrun)
  show "vfs_wf vfs_mid_file"
    using ramfs_booted_wf unfolding vfs_wf_def vfs_mid_file_def
    by (auto intro!: set_file_wf simp: ramfs_booted_def)
  show "fd_ok 0 vfs_mid_file" "of_node (open_table vfs_mid_file ! nat 0) = Some 2" by code_simp+
  show "0 < of_offset (open_table vfs_mid_file ! nat 0)"
    "of_offset (open_table vfs_mid_file ! nat 0) < vn_size (vnodes vfs_mid_file ! 2)"
    "0xFFFFFFFFFFFFFFFF = - of_offset (open_table vfs_mid_file ! nat 0)" by code_simp+
qed

end
