(* ===== verification/Mira_Widget.thy ===== *)
theory Mira_Widget
  imports Mira_Prelude
begin

text \<open>
  Widgets and windows, \<open>ui/widgets/widget.c\<close> and \<open>ui/widgets/window.c\<close>. Drawing is the
  sequence of calls into the graphics and text layers, not the pixels they set. The table of
  windows is the list of its used entries.
\<close>

section \<open>Widgets\<close>

text \<open>Calls of \<open>gfx_draw_rect\<close>, \<open>gfx_draw_rect_outline\<close>, \<open>gfx_draw_circle\<close>, \<open>gfx_draw_line\<close> and \<open>text_draw\<close>.\<close>

datatype gfx_op =
  Draw_rect u32 u32 u32 u32 u32
| Draw_outline u32 u32 u32 u32 u32 u32
| Draw_circle u32 u32 u32 u32 bool
| Draw_line u32 u32 u32 u32 u32
| Draw_text u32 u32 string u32 u32

record ui_rect =
  rect_x :: u32
  rect_y :: u32
  rect_w :: u32
  rect_h :: u32

record ui_panel =
  pn_bounds :: ui_rect
  pn_fill :: u32
  pn_border :: u32
  pn_title_bg :: u32
  pn_title :: "string option"

record ui_button =
  bt_bounds :: ui_rect
  bt_fill :: u32
  bt_border :: u32
  bt_text_color :: u32
  bt_label :: "string option"
  bt_pressed :: bool

record ui_textfield =
  tf_bounds :: ui_rect
  tf_fill :: u32
  tf_border :: u32
  tf_text_color :: u32
  tf_buffer :: "string option"
  tf_buflen :: u64
  tf_len :: u64
  tf_focused :: bool

definition ui_rect_contains :: "ui_rect \<Rightarrow> u32 \<Rightarrow> u32 \<Rightarrow> bool" where
  "ui_rect_contains r px py \<longleftrightarrow>
     px \<ge> rect_x r \<and> px < rect_x r + rect_w r \<and> py \<ge> rect_y r \<and> py < rect_y r + rect_h r"

definition fill_rect_of :: "ui_rect \<Rightarrow> u32 \<Rightarrow> gfx_op" where
  "fill_rect_of r color = Draw_rect (rect_x r) (rect_y r) (rect_w r) (rect_h r) color"

definition outline_of :: "ui_rect \<Rightarrow> u32 \<Rightarrow> gfx_op" where
  "outline_of r color = Draw_outline (rect_x r) (rect_y r) (rect_w r) (rect_h r) color 2"

definition ui_panel_draw :: "ui_panel \<Rightarrow> gfx_op list" where
  "ui_panel_draw p =
     (let r = pn_bounds p
      in [fill_rect_of r (pn_fill p), outline_of r (pn_border p)] @
         (case pn_title p of
            None \<Rightarrow> []
          | Some t \<Rightarrow> [Draw_rect (rect_x r + 2) (rect_y r + 2) (rect_w r - 4) 22 (pn_title_bg p),
                       Draw_text (rect_x r + 10) (rect_y r + 6) t 0xFFFFFF (pn_title_bg p)]))"

definition ui_button_draw :: "ui_button \<Rightarrow> gfx_op list" where
  "ui_button_draw b =
     (let r = bt_bounds b; fill = (if bt_pressed b then 0x0F3460 else bt_fill b)
      in [fill_rect_of r fill, outline_of r (bt_border b)] @
         (case bt_label b of
            None \<Rightarrow> []
          | Some t \<Rightarrow> [Draw_text (rect_x r + 12) (rect_y r + (if rect_h r > 16 then (rect_h r - 16) div 2 else 4)) t
                         (bt_text_color b) fill]))"

definition ui_textfield_draw :: "ui_textfield \<Rightarrow> gfx_op list" where
  "ui_textfield_draw f =
     (let r = tf_bounds f; border = (if tf_focused f then 0x53D8FB else tf_border f)
      in [fill_rect_of r (tf_fill f), outline_of r border] @
         (case tf_buffer f of
            None \<Rightarrow> []
          | Some t \<Rightarrow> [Draw_text (rect_x r + 8) (rect_y r + 8) t (tf_text_color f) (tf_fill f)]) @
         (if tf_focused f
          then [Draw_rect (rect_x r + 8 + ucast (tf_len f) * 8) (rect_y r + 6) 2 16 (tf_text_color f)]
          else []))"

section \<open>Windows\<close>

definition MAX_WINDOWS :: nat where "MAX_WINDOWS = 8"

record ui_window =
  wn_bounds :: ui_rect
  wn_fill :: u32
  wn_border :: u32
  wn_title_bg :: u32
  wn_title :: "string option"
  wn_visible :: bool
  wn_focused :: bool
  wn_dragging :: bool
  wn_drag_offset_x :: u32
  wn_drag_offset_y :: u32

record window_table =
  windows :: "ui_window list"
  focused_window :: nat
  drag_window_idx :: int

definition window_init :: "window_table \<Rightarrow> window_table" where
  "window_init t = t\<lparr>windows := [], focused_window := 0, drag_window_idx := -1\<rparr>"

text \<open>The loop that shifts the windows before \<open>i\<close> up by one, and the focus flags it clears first.\<close>

definition window_bring_to_front :: "nat \<Rightarrow> window_table \<Rightarrow> window_table" where
  "window_bring_to_front i t =
     (if i \<ge> length (windows t) then t
      else let ws = map (\<lambda>w. w\<lparr>wn_focused := False\<rparr>) (windows t)
           in t\<lparr>windows := (ws ! i)\<lparr>wn_focused := True\<rparr> # take i ws @ drop (Suc i) ws, focused_window := 0\<rparr>)"

definition window_create :: "string option \<Rightarrow> u32 \<Rightarrow> u32 \<Rightarrow> u32 \<Rightarrow> u32 \<Rightarrow> window_table \<Rightarrow> window_table" where
  "window_create title x y w h t =
     (if length (windows t) \<ge> MAX_WINDOWS then t
      else let new = \<lparr>wn_bounds = \<lparr>rect_x = x, rect_y = y, rect_w = w, rect_h = h\<rparr>, wn_fill = 0x16213E, wn_border = 0x533483,
                 wn_title_bg = 0x0F3460, wn_title = title, wn_visible = True, wn_focused = False, wn_dragging = False,
                 wn_drag_offset_x = 0, wn_drag_offset_y = 0\<rparr>
           in window_bring_to_front (length (windows t)) (t\<lparr>windows := windows t @ [new]\<rparr>))"

definition window_close :: "nat \<Rightarrow> window_table \<Rightarrow> window_table" where
  "window_close i t =
     (if i \<ge> length (windows t) then t
      else let ws = take i (windows t) @ drop (Suc i) (windows t)
           in t\<lparr>windows := ws,
                focused_window := (if focused_window t \<ge> length ws then if length ws > 0 then length ws - 1 else 0
                                   else focused_window t)\<rparr>)"

definition window_draw :: "ui_window \<Rightarrow> gfx_op list" where
  "window_draw w =
     (if \<not> wn_visible w then []
      else let r = wn_bounds w
           in [fill_rect_of r (wn_fill w), outline_of r (wn_border w)] @
              (case wn_title w of
                 None \<Rightarrow> []
               | Some t \<Rightarrow> [Draw_rect (rect_x r + 2) (rect_y r + 2) (rect_w r - 4) 24 (wn_title_bg w),
                            Draw_text (rect_x r + 10) (rect_y r + 6) t 0xFFFFFF (wn_title_bg w)]))"

definition window_render :: "bool \<Rightarrow> window_table \<Rightarrow> gfx_op list" where
  "window_render fb_ready t = (if \<not> fb_ready then [] else concat (map window_draw (windows t)))"

text \<open>The last window in the table, from index \<open>k - 1\<close> down, that is visible and contains the point.\<close>

fun hit_window :: "nat \<Rightarrow> u32 \<Rightarrow> u32 \<Rightarrow> window_table \<Rightarrow> nat option" where
  "hit_window 0 x y t = None"
| "hit_window (Suc k) x y t =
     (if wn_visible (windows t ! k) \<and> ui_rect_contains (wn_bounds (windows t ! k)) x y then Some k else hit_window k x y t)"

definition window_handle_click :: "u32 \<Rightarrow> u32 \<Rightarrow> window_table \<Rightarrow> bool \<times> window_table" where
  "window_handle_click x y t =
     (case hit_window (length (windows t)) x y t of
        None \<Rightarrow> (False, t)
      | Some i \<Rightarrow>
          let t1 = window_bring_to_front i t; w = windows t1 ! 0
          in if y < rect_y (wn_bounds w) + 26
             then (True, t1\<lparr>windows := (windows t1)[0 := w\<lparr>wn_dragging := True, wn_drag_offset_x := x - rect_x (wn_bounds w),
                       wn_drag_offset_y := y - rect_y (wn_bounds w)\<rparr>], drag_window_idx := 0\<rparr>)
             else (True, t1))"

definition window_handle_drag :: "u32 \<Rightarrow> u32 \<Rightarrow> window_table \<Rightarrow> bool \<times> window_table" where
  "window_handle_drag x y t =
     (if drag_window_idx t < 0 \<or> drag_window_idx t \<ge> int (length (windows t)) then (False, t)
      else let i = nat (drag_window_idx t); w = windows t ! i
           in if \<not> wn_dragging w then (False, t)
              else (True, t\<lparr>windows := (windows t)[i := w\<lparr>wn_bounds := (wn_bounds w)\<lparr>rect_x := x - wn_drag_offset_x w,
                       rect_y := y - wn_drag_offset_y w\<rparr>\<rparr>]\<rparr>))"

definition window_set_focused :: "nat \<Rightarrow> window_table \<Rightarrow> window_table" where
  "window_set_focused i t = (if i < length (windows t) then window_bring_to_front i t else t)"

definition window_count :: "window_table \<Rightarrow> nat" where "window_count t = length (windows t)"

section \<open>Properties of windows\<close>

definition unfocus :: "ui_window \<Rightarrow> ui_window" where "unfocus w = w\<lparr>wn_focused := False\<rparr>"

text \<open>No window is lost or duplicated when one is brought to the front.\<close>

lemma bring_to_front_windows:
  "mset (map unfocus (windows (window_bring_to_front i t))) = mset (map unfocus (windows t))"
proof (cases "i < length (windows t)")
  case True
  have "unfocus (w\<lparr>wn_focused := b\<rparr>) = unfocus w" for w b by (simp add: unfocus_def)
  then have "map unfocus (windows (window_bring_to_front i t)) =
      unfocus (windows t ! i) # map unfocus (take i (windows t)) @ map unfocus (drop (Suc i) (windows t))"
    using True by (simp add: window_bring_to_front_def Let_def take_map drop_map comp_def not_le)
  moreover have "windows t = take i (windows t) @ windows t ! i # drop (Suc i) (windows t)"
    using True by (simp add: id_take_nth_drop)
  then have "mset (map unfocus (windows t)) =
      mset (map unfocus (take i (windows t) @ windows t ! i # drop (Suc i) (windows t)))" by metis
  ultimately show ?thesis by simp
qed (simp add: window_bring_to_front_def)

lemma window_draw_focus: "window_draw (w\<lparr>wn_focused := b\<rparr>) = window_draw w"
  by (simp add: window_draw_def Let_def split: option.splits)

text \<open>The window brought to the front is drawn first, so every other one is drawn over it.\<close>

lemma bring_to_front_drawn_first:
  assumes "i < length (windows t)"
  shows "\<exists>rest. window_render True (window_bring_to_front i t) = window_draw (windows t ! i) @ rest"
  using assms by (simp add: window_render_def window_bring_to_front_def Let_def window_draw_focus not_le)

lemma hit_window_bounds: "hit_window k x y t = Some i \<Longrightarrow>
    i < k \<and> wn_visible (windows t ! i) \<and> ui_rect_contains (wn_bounds (windows t ! i)) x y"
  by (induction k) (auto split: if_splits)

text \<open>
  A click on the title bar followed by a drag moves the window with the pointer: its offset
  from the pointer stays what it was at the click.
\<close>

lemma drag_follows_pointer:
  assumes hit: "hit_window (length (windows t)) x y t = Some i"
    and bar: "y < rect_y (wn_bounds (windows t ! i)) + 26"
  shows "\<exists>t1 t2. window_handle_click x y t = (True, t1) \<and> window_handle_drag (x + dx) (y + dy) t1 = (True, t2) \<and>
    rect_x (wn_bounds (windows t2 ! 0)) = rect_x (wn_bounds (windows t ! i)) + dx \<and>
    rect_y (wn_bounds (windows t2 ! 0)) = rect_y (wn_bounds (windows t ! i)) + dy"
proof -
  have i: "i < length (windows t)" using hit_window_bounds [OF hit] by simp
  then have w: "windows (window_bring_to_front i t) =
      (windows t ! i)\<lparr>wn_focused := True\<rparr> # take i (map unfocus (windows t)) @ drop (Suc i) (map unfocus (windows t))"
    by (simp add: window_bring_to_front_def Let_def not_le unfocus_def [abs_def])
  show ?thesis
    using hit bar w by (simp add: window_handle_click_def window_handle_drag_def Let_def algebra_simps)
qed

end
