(* ===== verification/Mira_Fb.thy ===== *)
theory Mira_Fb
  imports Mira_Pmm
begin

text \<open>
  The framebuffer driver, \<open>drivers/framebuffer.c\<close>, and the layer of \<open>ui/layout/gfx.c\<close> above it.
  The screen and the back buffer are lists of bytes, so that a store outside of them is a
  fault. The loops of the line and circle algorithms are partial functions: a loop that does
  not end has no value, and this becomes the fault \<open>Diverges\<close>.
\<close>

section \<open>State\<close>

type_synonym int32 = "32 word"

record framebuffer =
  fb_addr :: u64
  fb_pitch :: u32
  fb_width :: u32
  fb_height :: u32
  fb_bpp :: u8

text \<open>
  The static variables of the driver, the bytes of the device from \<open>fb.addr\<close> on, the bytes
  that fresh heap memory holds, and the outcomes of the coming allocations.
\<close>

record fbst =
  fb :: framebuffer
  back_buffer :: "u8 list option"
  use_double_buffer :: bool
  screen :: "u8 list"
  fb_heap :: "nat \<Rightarrow> u8"
  fb_allocs :: "bool list"

definition fb_ready :: "fbst \<Rightarrow> bool" where
  "fb_ready s \<longleftrightarrow> fb_addr (fb s) \<noteq> 0 \<and> fb_bpp (fb s) = 32"

definition fb_info :: "fbst \<Rightarrow> framebuffer" where "fb_info s = fb s"

definition fb_driver_init :: "fbst \<Rightarrow> int32" where
  "fb_driver_init s = (if fb_ready s then 0 else -1)"

text \<open>The tag of type 8: its fields, the back buffer, and whether the mode is supported.\<close>

definition fb_found :: "mem \<Rightarrow> addr \<Rightarrow> fbst \<Rightarrow> bool \<times> fbst" where
  "fb_found m tag s =
     (let f = \<lparr>fb_addr = rd64 m (tag + 8), fb_pitch = rd32 m (tag + 16), fb_width = rd32 m (tag + 20),
               fb_height = rd32 m (tag + 24), fb_bpp = m (tag + 28)\<rparr>;
          buf_size = fb_height f * fb_pitch f;
          (ok, al) = kmalloc_outcome (ucast buf_size) (fb_allocs s);
          s1 = s\<lparr>fb := f, fb_allocs := al\<rparr>
      in (fb_bpp f = 32,
          if ok then s1\<lparr>back_buffer := Some (map (fb_heap s) [0..<unat buf_size]), use_double_buffer := True\<rparr>
          else s1\<lparr>back_buffer := None\<rparr>))"

fun fb_tags :: "nat \<Rightarrow> mem \<Rightarrow> addr \<Rightarrow> fbst \<Rightarrow> (bool \<times> fbst) res" where
  "fb_tags 0 m tag s = Inl Diverges"
| "fb_tags (Suc fuel) m tag s =
     (if tag_type m tag = 0 then Inr (False, s)
      else if tag_type m tag = 8 then Inr (fb_found m tag s)
      else fb_tags fuel m (mbi_next m tag) s)"

definition fb_init :: "nat \<Rightarrow> mem \<Rightarrow> addr \<Rightarrow> fbst \<Rightarrow> (bool \<times> fbst) res" where
  "fb_init fuel m mbi s = fb_tags fuel m (mbi + 8) s"

section \<open>Pixels and rectangles\<close>

definition bytes32 :: "u32 \<Rightarrow> u8 list" where
  "bytes32 c = [ucast c, ucast (drop_bit 8 c), ucast (drop_bit 16 c), ucast (drop_bit 24 c)]"

definition store32 :: "nat \<Rightarrow> u8 list \<Rightarrow> u8 list \<Rightarrow> u8 list res" where
  "store32 off px bs =
     (if off + 4 \<le> length bs then Inr (take off bs @ px @ drop (off + 4) bs) else Inl OutOfBounds)"

text \<open>Storing a pixel at a byte offset of the surface that is drawn to.\<close>

definition fb_store :: "nat \<Rightarrow> u8 list \<Rightarrow> fbst \<Rightarrow> fbst res" where
  "fb_store off px s =
     (if use_double_buffer s
      then (case back_buffer s of
              None \<Rightarrow> Inl NullDeref
            | Some b \<Rightarrow> bindR (store32 off px b) (\<lambda>b'. Inr (s\<lparr>back_buffer := Some b'\<rparr>)))
      else bindR (store32 off px (screen s)) (\<lambda>b'. Inr (s\<lparr>screen := b'\<rparr>)))"

text \<open>
  The byte offset of pixel \<open>(x, y)\<close>: an index of 32 bits into the back buffer, or an offset
  from the address of the device whose two terms are of 32 bits.
\<close>

definition line_offset :: "u32 \<Rightarrow> u32 \<Rightarrow> fbst \<Rightarrow> nat" where
  "line_offset x y s =
     (if use_double_buffer s then 4 * unat (y * (fb_pitch (fb s) div 4) + x)
      else unat (y * fb_pitch (fb s)) + unat (x * 4))"

definition fb_put_pixel :: "u32 \<Rightarrow> u32 \<Rightarrow> u32 \<Rightarrow> fbst \<Rightarrow> fbst res" where
  "fb_put_pixel x y color s =
     (if \<not> fb_ready s \<or> x \<ge> fb_width (fb s) \<or> y \<ge> fb_height (fb s) then Inr s
      else fb_store (line_offset x y s) (bytes32 color) s)"

text \<open>One row of a rectangle, from the line pointer on.\<close>

definition fill_row :: "u32 \<Rightarrow> u32 \<Rightarrow> u32 \<Rightarrow> u32 \<Rightarrow> fbst \<Rightarrow> fbst res" where
  "fill_row x w color row s =
     (let line = line_offset x row s in for_up 0 w (\<lambda>col. fb_store (line + 4 * unat col) (bytes32 color)) s)"

definition fb_fill_rect :: "u32 \<Rightarrow> u32 \<Rightarrow> u32 \<Rightarrow> u32 \<Rightarrow> u32 \<Rightarrow> fbst \<Rightarrow> fbst res" where
  "fb_fill_rect x y w h color s =
     (if \<not> fb_ready s then Inr s
      else if x \<ge> fb_width (fb s) \<or> y \<ge> fb_height (fb s) then Inr s
      else let w = (if x + w > fb_width (fb s) then fb_width (fb s) - x else w);
               h = (if y + h > fb_height (fb s) then fb_height (fb s) - y else h)
           in for_up y (y + h) (fill_row x w color) s)"

definition fb_draw_rect :: "u32 \<Rightarrow> u32 \<Rightarrow> u32 \<Rightarrow> u32 \<Rightarrow> u32 \<Rightarrow> fbst \<Rightarrow> fbst res" where
  "fb_draw_rect = fb_fill_rect"

definition outline_ring :: "u32 \<Rightarrow> u32 \<Rightarrow> u32 \<Rightarrow> u32 \<Rightarrow> u32 \<Rightarrow> u32 \<Rightarrow> fbst \<Rightarrow> fbst res" where
  "outline_ring x y w h color t s =
     bindR (fb_fill_rect (x + t) (y + t) (w - 2 * t) 1 color s) (\<lambda>s1.
     bindR (fb_fill_rect (x + t) (y + h - 1 - t) (w - 2 * t) 1 color s1) (\<lambda>s2.
     bindR (fb_fill_rect (x + t) (y + t) 1 (h - 2 * t) color s2) (\<lambda>s3.
       fb_fill_rect (x + w - 1 - t) (y + t) 1 (h - 2 * t) color s3)))"

definition fb_draw_rect_outline :: "u32 \<Rightarrow> u32 \<Rightarrow> u32 \<Rightarrow> u32 \<Rightarrow> u32 \<Rightarrow> u32 \<Rightarrow> fbst \<Rightarrow> fbst res" where
  "fb_draw_rect_outline x y w h color thickness s = for_up 0 thickness (outline_ring x y w h color) s"

section \<open>Lines and circles\<close>

definition abs32 :: "int32 \<Rightarrow> int32" where "abs32 x = (if sint x < 0 then - x else x)"

text \<open>The new error and position after one turn of the line loop.\<close>

definition line_step :: "int32 \<Rightarrow> int32 \<Rightarrow> int32 \<Rightarrow> int32 \<Rightarrow> int32 \<times> u32 \<times> u32 \<Rightarrow> int32 \<times> u32 \<times> u32" where
  "line_step dx dy sx sy = (\<lambda>(err, x, y).
     let e2 = 2 * err;
         (err1, x1) = (if sint e2 > sint (- dy) then (err - dy, x + sx) else (err, x));
         (err2, y1) = (if sint e2 < sint dx then (err1 + dx, y + sy) else (err1, y))
     in (err2, x1, y1))"

partial_function (option) line_loop ::
  "int32 \<Rightarrow> int32 \<Rightarrow> int32 \<Rightarrow> int32 \<Rightarrow> u32 \<Rightarrow> u32 \<Rightarrow> u32 \<Rightarrow> int32 \<times> u32 \<times> u32 \<Rightarrow> fbst \<Rightarrow> fbst res option" where
  "line_loop dx dy sx sy x1 y1 color p s =
     (case fb_put_pixel (fst (snd p)) (snd (snd p)) color s of
        Inl e \<Rightarrow> Some (Inl e)
      | Inr s1 \<Rightarrow>
          if fst (snd p) = x1 \<and> snd (snd p) = y1 then Some (Inr s1)
          else line_loop dx dy sx sy x1 y1 color (line_step dx dy sx sy p) s1)"

definition ended :: "'a res option \<Rightarrow> 'a res" where
  "ended r = (case r of None \<Rightarrow> Inl Diverges | Some x \<Rightarrow> x)"

definition fb_draw_line :: "u32 \<Rightarrow> u32 \<Rightarrow> u32 \<Rightarrow> u32 \<Rightarrow> u32 \<Rightarrow> fbst \<Rightarrow> fbst res" where
  "fb_draw_line x0 y0 x1 y1 color s =
     (let dx = abs32 (x1 - x0); dy = abs32 (y1 - y0);
          sx = (if x0 < x1 then 1 else -1); sy = (if y0 < y1 then 1 else -1)
      in ended (line_loop dx dy sx sy x1 y1 color (dx - dy, x0, y0) s))"

text \<open>The four spans or eight points that one turn of the circle loop draws.\<close>

definition circle_spans :: "u32 \<Rightarrow> u32 \<Rightarrow> int32 \<Rightarrow> int32 \<Rightarrow> u32 \<Rightarrow> fbst \<Rightarrow> fbst res" where
  "circle_spans cx cy x y color s =
     bindR (fb_fill_rect (cx - x) (cy - y) (2 * x + 1) 1 color s) (\<lambda>s1.
     bindR (fb_fill_rect (cx - x) (cy + y) (2 * x + 1) 1 color s1) (\<lambda>s2.
     bindR (fb_fill_rect (cx - y) (cy - x) (2 * y + 1) 1 color s2) (\<lambda>s3.
       fb_fill_rect (cx - y) (cy + x) (2 * y + 1) 1 color s3)))"

fun put_pixels :: "(u32 \<times> u32) list \<Rightarrow> u32 \<Rightarrow> fbst \<Rightarrow> fbst res" where
  "put_pixels [] color s = Inr s"
| "put_pixels ((x, y) # ps) color s = bindR (fb_put_pixel x y color s) (put_pixels ps color)"

definition circle_points :: "u32 \<Rightarrow> u32 \<Rightarrow> int32 \<Rightarrow> int32 \<Rightarrow> (u32 \<times> u32) list" where
  "circle_points cx cy x y =
     [(cx + x, cy + y), (cx + y, cy + x), (cx - y, cy + x), (cx - x, cy + y),
      (cx - x, cy - y), (cx - y, cy - x), (cx + y, cy - x), (cx + x, cy - y)]"

definition circle_step :: "int32 \<times> int32 \<times> int32 \<Rightarrow> int32 \<times> int32 \<times> int32" where
  "circle_step = (\<lambda>(err, x, y).
     let y1 = y + 1;
         err1 = (if sint err \<le> 0 then err + (2 * y1 + 1) else err)
     in if sint err1 > 0 then (err1 - (2 * (x - 1) + 1), x - 1, y1) else (err1, x, y1))"

partial_function (option) circle_loop ::
  "u32 \<Rightarrow> u32 \<Rightarrow> u32 \<Rightarrow> bool \<Rightarrow> int32 \<times> int32 \<times> int32 \<Rightarrow> fbst \<Rightarrow> fbst res option" where
  "circle_loop cx cy color filled p s =
     (if sint (fst (snd p)) \<ge> sint (snd (snd p))
      then (case (if filled then circle_spans cx cy (fst (snd p)) (snd (snd p)) color s
                  else put_pixels (circle_points cx cy (fst (snd p)) (snd (snd p))) color s) of
              Inl e \<Rightarrow> Some (Inl e)
            | Inr s1 \<Rightarrow> circle_loop cx cy color filled (circle_step p) s1)
      else Some (Inr s))"

definition fb_draw_circle :: "u32 \<Rightarrow> u32 \<Rightarrow> u32 \<Rightarrow> u32 \<Rightarrow> bool \<Rightarrow> fbst \<Rightarrow> fbst res" where
  "fb_draw_circle cx cy radius color filled s =
     (if \<not> fb_ready s then Inr s else ended (circle_loop cx cy color filled (0, radius, 0) s))"

section \<open>Copying, scrolling and buffers\<close>

text \<open>One row of \<open>fb_blit\<close>: the source is a list of bytes with rows \<open>src_pitch\<close> apart.\<close>

definition blit_row :: "u32 \<Rightarrow> u32 \<Rightarrow> u32 \<Rightarrow> u8 list \<Rightarrow> u32 \<Rightarrow> u32 \<Rightarrow> fbst \<Rightarrow> fbst res" where
  "blit_row dx dy w src src_pitch row s =
     (let dst = line_offset dx (dy + row) s; base = unat (row * src_pitch)
      in for_up 0 w (\<lambda>col s.
           if base + 4 * unat col + 4 \<le> length src
           then fb_store (dst + 4 * unat col) (take 4 (drop (base + 4 * unat col) src)) s
           else Inl OutOfBounds) s)"

function blit_rows :: "u32 \<Rightarrow> u32 \<Rightarrow> u32 \<Rightarrow> u32 \<Rightarrow> u8 list \<Rightarrow> u32 \<Rightarrow> u32 \<Rightarrow> fbst \<Rightarrow> fbst res" where
  "blit_rows dx dy w h src src_pitch row s =
     (if row < h \<and> dy + row < fb_height (fb s)
      then let w1 = (if dx + w > fb_width (fb s) then fb_width (fb s) - dx else w)
           in bindR (blit_row dx dy w1 src src_pitch row s) (blit_rows dx dy w1 h src src_pitch (row + 1))
      else Inr s)"
  by pat_completeness auto
termination
  by (relation "measure (\<lambda>(dx, dy, w, h, src, sp, row, s). unat h - unat row)")
    (auto simp: unat_plus_one word_less_nat_alt)

declare blit_rows.simps [simp del]

definition fb_blit :: "u32 \<Rightarrow> u32 \<Rightarrow> u32 \<Rightarrow> u32 \<Rightarrow> u8 list option \<Rightarrow> u32 \<Rightarrow> fbst \<Rightarrow> fbst res" where
  "fb_blit dx dy w h src src_pitch s =
     (case src of None \<Rightarrow> Inr s
      | Some bs \<Rightarrow> if \<not> fb_ready s then Inr s else blit_rows dx dy w h bs src_pitch 0 s)"

text \<open>\<open>memmove\<close> towards the start of the surface and \<open>memset\<close> of the rest.\<close>

definition scroll_bytes :: "u64 \<Rightarrow> u64 \<Rightarrow> u8 list \<Rightarrow> u8 list res" where
  "scroll_bytes total_bytes scroll bs =
     (let n = unat (total_bytes - scroll); k = unat scroll
      in if k + n \<le> length bs
         then Inr (take n (drop k bs) @ replicate k 0 @ drop (n + k) bs)
         else Inl OutOfBounds)"

definition fb_scroll :: "u32 \<Rightarrow> fbst \<Rightarrow> fbst res" where
  "fb_scroll lines s =
     (if \<not> fb_ready s \<or> lines = 0 then Inr s
      else let total_bytes = ucast (fb_height (fb s) * fb_pitch (fb s)); scroll = ucast lines * ucast (fb_pitch (fb s))
           in if use_double_buffer s
              then (case back_buffer s of
                      None \<Rightarrow> Inl NullDeref
                    | Some b \<Rightarrow> bindR (scroll_bytes total_bytes scroll b) (\<lambda>b'. Inr (s\<lparr>back_buffer := Some b'\<rparr>)))
              else bindR (scroll_bytes total_bytes scroll (screen s)) (\<lambda>b'. Inr (s\<lparr>screen := b'\<rparr>)))"

definition fb_swap_buffers :: "fbst \<Rightarrow> fbst res" where
  "fb_swap_buffers s =
     (case back_buffer s of
        None \<Rightarrow> Inr s
      | Some b \<Rightarrow>
          if \<not> use_double_buffer s then Inr s
          else let n = unat (fb_height (fb s) * fb_pitch (fb s))
               in if n \<le> length b \<and> n \<le> length (screen s) then Inr (s\<lparr>screen := take n b @ drop n (screen s)\<rparr>)
                  else Inl OutOfBounds)"

definition fb_clear :: "u32 \<Rightarrow> fbst \<Rightarrow> fbst res" where
  "fb_clear color s = fb_fill_rect 0 0 (fb_width (fb s)) (fb_height (fb s)) color s"

definition fb_shutdown :: "fbst \<Rightarrow> fbst" where
  "fb_shutdown s = s\<lparr>back_buffer := None, use_double_buffer := False,
     fb := (fb s)\<lparr>fb_addr := 0, fb_width := 0, fb_height := 0, fb_bpp := 0\<rparr>\<rparr>"

section \<open>The graphics layer\<close>

definition gfx_draw_rect :: "u32 \<Rightarrow> u32 \<Rightarrow> u32 \<Rightarrow> u32 \<Rightarrow> u32 \<Rightarrow> fbst \<Rightarrow> fbst res" where
  "gfx_draw_rect = fb_draw_rect"
definition gfx_draw_rect_outline :: "u32 \<Rightarrow> u32 \<Rightarrow> u32 \<Rightarrow> u32 \<Rightarrow> u32 \<Rightarrow> u32 \<Rightarrow> fbst \<Rightarrow> fbst res" where
  "gfx_draw_rect_outline = fb_draw_rect_outline"
definition gfx_draw_line :: "u32 \<Rightarrow> u32 \<Rightarrow> u32 \<Rightarrow> u32 \<Rightarrow> u32 \<Rightarrow> fbst \<Rightarrow> fbst res" where
  "gfx_draw_line = fb_draw_line"
definition gfx_draw_circle :: "u32 \<Rightarrow> u32 \<Rightarrow> u32 \<Rightarrow> u32 \<Rightarrow> bool \<Rightarrow> fbst \<Rightarrow> fbst res" where
  "gfx_draw_circle = fb_draw_circle"
definition gfx_blit :: "u32 \<Rightarrow> u32 \<Rightarrow> u32 \<Rightarrow> u32 \<Rightarrow> u8 list option \<Rightarrow> u32 \<Rightarrow> fbst \<Rightarrow> fbst res" where
  "gfx_blit = fb_blit"
definition gfx_scroll :: "u32 \<Rightarrow> fbst \<Rightarrow> fbst res" where "gfx_scroll = fb_scroll"
definition gfx_swap_buffers :: "fbst \<Rightarrow> fbst res" where "gfx_swap_buffers = fb_swap_buffers"
definition gfx_clear :: "u32 \<Rightarrow> fbst \<Rightarrow> fbst res" where "gfx_clear = fb_clear"

section \<open>The canvas\<close>

text \<open>
  The picture on the surface that is drawn to, as a partial function from points to pixels; its
  domain is the screen. A drawing operation paints a set of points.
\<close>

type_synonym point = "nat \<times> nat"
type_synonym picture = "point \<rightharpoonup> u8 list"

definition paints :: "('s \<Rightarrow> bool) \<Rightarrow> ('s \<Rightarrow> picture) \<Rightarrow> ('s \<Rightarrow> 's res) \<Rightarrow> picture \<Rightarrow> bool" where
  "paints ok cv f g \<longleftrightarrow> (\<forall>s. ok s \<longrightarrow> (\<exists>s'. f s = Inr s' \<and> ok s' \<and> cv s' = cv s ++ g))"

lemma paintsD: "paints ok cv f g \<Longrightarrow> ok s \<Longrightarrow> \<exists>s'. f s = Inr s' \<and> ok s' \<and> cv s' = cv s ++ g"
  by (simp add: paints_def)

lemma paints_nothing: "paints ok cv (\<lambda>s. Inr s) Map.empty"
  by (simp add: paints_def)

lemma paints_cong: "paints ok cv f g \<Longrightarrow> (\<And>s. ok s \<Longrightarrow> f s = f' s) \<Longrightarrow> g = g' \<Longrightarrow> paints ok cv f' g'"
  by (simp add: paints_def)

lemma paints_seq: "paints ok cv f g \<Longrightarrow> paints ok cv f' g' \<Longrightarrow> paints ok cv (\<lambda>s. bindR (f s) f') (g ++ g')"
  unfolding paints_def by (metis bindR_simps(2) map_add_assoc)

text \<open>A counting loop paints what its turns paint, one over the other; \<open>H q\<close> is the picture before turn \<open>q\<close>.\<close>

lemma paints_for_up:
  assumes "\<And>q. a \<le> q \<Longrightarrow> q < n \<Longrightarrow> paints ok cv (f q) (g q)"
    and "H a = Map.empty" and "\<And>q. a \<le> q \<Longrightarrow> q < n \<Longrightarrow> H (q + 1) = H q ++ g q" and "a \<le> n"
  shows "paints ok cv (for_up a n f) (H n)"
  unfolding paints_def
proof (intro allI impI)
  fix s assume "ok s"
  have "\<exists>s'. for_up a n f s = Inr s' \<and> (ok s' \<and> cv s' = cv s ++ H n)"
  proof (rule for_up_total)
    show "ok s \<and> cv s = cv s ++ H a" using \<open>ok s\<close> assms(2) by simp
    show "a \<le> n" by (rule assms(4))
    fix q s1
    assume "ok s1 \<and> cv s1 = cv s ++ H q" "a \<le> q" "q < n"
    then show "\<exists>s'. f q s1 = Inr s' \<and> ok s' \<and> cv s' = cv s ++ H (q + 1)"
      using paintsD [OF assms(1)] assms(3) by (metis map_add_assoc)
  qed
  then show "\<exists>s'. for_up a n f s = Inr s' \<and> ok s' \<and> cv s' = cv s ++ H n" by blast
qed

section \<open>Interface of the pixel operation\<close>

text \<open>
  What the drawing algorithms rely on: storing a pixel paints exactly that point, if it is on the
  screen, and never faults.
\<close>

definition dot :: "point set \<Rightarrow> u32 \<Rightarrow> u32 \<Rightarrow> u32 \<Rightarrow> picture" where
  "dot scr x y c = (if (unat x, unat y) \<in> scr then [(unat x, unat y) \<mapsto> bytes32 c] else Map.empty)"

locale canvas =
  fixes ok :: "'s \<Rightarrow> bool" and cv :: "'s \<Rightarrow> picture" and put :: "u32 \<Rightarrow> u32 \<Rightarrow> u32 \<Rightarrow> 's \<Rightarrow> 's res" and scr :: "point set"
  assumes put_paints: "paints ok cv (put x y c) (dot scr x y c)"
begin

lemma put_total: "ok s \<Longrightarrow> \<exists>s'. put x y c s = Inr s' \<and> ok s' \<and> cv s' = cv s ++ dot scr x y c"
  by (rule paintsD [OF put_paints])

text \<open>A square of pixels, as the text renderer draws it.\<close>

lemma row_paints:
  assumes "unat x + unat n < 2 ^ 32"
  shows "paints ok cv (for_up 0 n (\<lambda>i. put (x + i) y c))
    (\<lambda>p. if p \<in> scr \<and> snd p = unat y \<and> unat x \<le> fst p \<and> fst p < unat x + unat n then Some (bytes32 c) else None)"
proof (rule paints_for_up [where H = "\<lambda>q p. if p \<in> scr \<and> snd p = unat y \<and> unat x \<le> fst p \<and> fst p < unat x + unat q
    then Some (bytes32 c) else None" and g = "\<lambda>q. dot scr (x + q) y c"])
  fix q :: u32 assume q: "q < n"
  have u: "unat (x + q) = unat x + unat q" "unat (q + 1) = Suc (unat q)"
    using q assms unat_plus_one [OF q] by (simp_all add: unat_word_ariths word_less_nat_alt)
  show "(\<lambda>p. if p \<in> scr \<and> snd p = unat y \<and> unat x \<le> fst p \<and> fst p < unat x + unat (q + 1) then Some (bytes32 c) else None) =
    (\<lambda>p. if p \<in> scr \<and> snd p = unat y \<and> unat x \<le> fst p \<and> fst p < unat x + unat q then Some (bytes32 c) else None) ++
    dot scr (x + q) y c"
    by (rule ext) (auto simp: dot_def u map_add_def)
qed (simp_all add: put_paints fun_eq_iff)

lemma block_paints:
  assumes "unat x + unat n < 2 ^ 32" "unat y + unat m < 2 ^ 32"
  shows "paints ok cv (for_up 0 m (\<lambda>j. for_up 0 n (\<lambda>i. put (x + i) (y + j) c)))
    (\<lambda>p. if p \<in> scr \<and> unat y \<le> snd p \<and> snd p < unat y + unat m \<and> unat x \<le> fst p \<and> fst p < unat x + unat n
       then Some (bytes32 c) else None)"
proof (rule paints_for_up [where H = "\<lambda>q p. if p \<in> scr \<and> unat y \<le> snd p \<and> snd p < unat y + unat q \<and> unat x \<le> fst p \<and>
      fst p < unat x + unat n then Some (bytes32 c) else None", OF row_paints [OF assms(1)]])
  fix q :: u32 assume q: "q < m"
  have u: "unat (y + q) = unat y + unat q" "unat (q + 1) = Suc (unat q)"
    using q assms(2) unat_plus_one [OF q] by (simp_all add: unat_word_ariths word_less_nat_alt)
  show "(\<lambda>p. if p \<in> scr \<and> unat y \<le> snd p \<and> snd p < unat y + unat (q + 1) \<and> unat x \<le> fst p \<and>
      fst p < unat x + unat n then Some (bytes32 c) else None) =
    (\<lambda>p. if p \<in> scr \<and> unat y \<le> snd p \<and> snd p < unat y + unat q \<and> unat x \<le> fst p \<and>
      fst p < unat x + unat n then Some (bytes32 c) else None) ++
    (\<lambda>p. if p \<in> scr \<and> snd p = unat (y + q) \<and> unat x \<le> fst p \<and> fst p < unat x + unat n then Some (bytes32 c) else None)"
    by (rule ext) (auto simp: u map_add_def)
qed (simp_all add: fun_eq_iff)

end

section \<open>The framebuffer as a canvas\<close>

text \<open>A screen of \<open>w\<close> by \<open>h\<close> pixels whose rows hold them and whose size fits 32 bits.\<close>

definition fb_fits :: "framebuffer \<Rightarrow> bool" where
  "fb_fits f \<longleftrightarrow> fb_addr f \<noteq> 0 \<and> fb_bpp f = 32 \<and> 4 dvd unat (fb_pitch f) \<and> 4 * unat (fb_width f) \<le> unat (fb_pitch f) \<and>
     unat (fb_height f) * unat (fb_pitch f) < 2 ^ 32"

definition surface :: "fbst \<Rightarrow> u8 list" where
  "surface s = (if use_double_buffer s then (case back_buffer s of None \<Rightarrow> [] | Some b \<Rightarrow> b) else screen s)"

definition fb_ok :: "framebuffer \<Rightarrow> fbst \<Rightarrow> bool" where
  "fb_ok f s \<longleftrightarrow> fb s = f \<and> fb_fits f \<and> (use_double_buffer s \<longrightarrow> back_buffer s \<noteq> None) \<and>
     length (surface s) = unat (fb_height f) * unat (fb_pitch f)"

definition points :: "framebuffer \<Rightarrow> point set" where
  "points f = {p. fst p < unat (fb_width f) \<and> snd p < unat (fb_height f)}"

definition offset :: "framebuffer \<Rightarrow> point \<Rightarrow> nat" where
  "offset f p = snd p * unat (fb_pitch f) + 4 * fst p"

definition picture :: "fbst \<Rightarrow> picture" where
  "picture s = (\<lambda>p. if p \<in> points (fb s) then Some (take 4 (drop (offset (fb s) p) (surface s))) else None)"

lemma offset_bound: "fb_fits f \<Longrightarrow> p \<in> points f \<Longrightarrow> offset f p + 4 \<le> unat (fb_height f) * unat (fb_pitch f)"
proof -
  assume f: "fb_fits f" and p: "p \<in> points f"
  have "offset f p + 4 \<le> snd p * unat (fb_pitch f) + unat (fb_pitch f)"
    using f p by (auto simp: offset_def fb_fits_def points_def)
  also have "\<dots> = Suc (snd p) * unat (fb_pitch f)" by simp
  also have "\<dots> \<le> unat (fb_height f) * unat (fb_pitch f)"
    using p by (intro mult_le_mono1) (simp add: points_def)
  finally show ?thesis .
qed

lemma offset_apart:
  assumes "fb_fits f" "p \<in> points f" "q \<in> points f" "p \<noteq> q"
  shows "offset f p + 4 \<le> offset f q \<or> offset f q + 4 \<le> offset f p"
proof (cases "snd p = snd q")
  case True
  then show ?thesis using assms(4) by (cases p, cases q) (auto simp: offset_def)
next
  case False
  have *: "offset f a + 4 \<le> offset f b" if "a \<in> points f" "snd a < snd b" for a b
  proof -
    have "offset f a + 4 \<le> Suc (snd a) * unat (fb_pitch f)"
      using that(1) assms(1) by (auto simp: offset_def points_def fb_fits_def)
    also have "\<dots> \<le> snd b * unat (fb_pitch f)" using that(2) by (intro mult_le_mono1) simp
    finally show ?thesis by (simp add: offset_def)
  qed
  show ?thesis using False *[OF assms(2)] * [OF assms(3)] by (meson nat_neq_iff)
qed

lemma line_offset_eq:
  assumes "fb_ok f s" "(unat x, unat y) \<in> points f"
  shows "line_offset x y s = offset f (unat x, unat y)"
proof -
  let ?p = "unat (fb_pitch f)"
  have f: "fb_fits f" "fb s = f" using assms(1) by (simp_all add: fb_ok_def)
  have b: "unat y * ?p + 4 * unat x + 4 < 2 ^ 32"
    using offset_bound [OF f(1) assms(2)] f(1) by (simp add: offset_def fb_fits_def)
  then have d: "unat (y * fb_pitch f) = unat y * ?p" "unat (x * 4) = unat x * 4"
    by (simp_all add: unat_word_ariths)
  obtain k where k: "?p = 4 * k" using f(1) by (auto simp: fb_fits_def)
  have "unat (fb_pitch f div 4) = k" using k by (simp add: unat_div)
  then have "unat (y * (fb_pitch f div 4) + x) = unat y * k + unat x"
    using b k by (simp add: unat_word_ariths)
  then show ?thesis using d k f(2) by (simp add: line_offset_def offset_def)
qed

lemma store32_pixel:
  assumes "a + 4 \<le> length bs" "length px = 4"
  shows "\<exists>bs'. store32 a px bs = Inr bs' \<and> length bs' = length bs \<and> take 4 (drop a bs') = px \<and>
    (\<forall>b. b + 4 \<le> a \<or> a + 4 \<le> b \<longrightarrow> take 4 (drop b bs') = take 4 (drop b bs))"
proof -
  let ?n = "take a bs @ px @ drop (a + 4) bs"
  have "take 4 (drop b ?n) = take 4 (drop b bs)" if "b + 4 \<le> a" for b
    using that assms by (intro nth_equalityI) (auto simp: nth_append)
  moreover have "drop b ?n = drop b bs" if "a + 4 \<le> b" for b
    using that assms by (simp add: min_def)
  ultimately show ?thesis using assms by (auto simp: store32_def min_def)
qed

definition set_surface :: "u8 list \<Rightarrow> fbst \<Rightarrow> fbst" where
  "set_surface bs s = (if use_double_buffer s then s\<lparr>back_buffer := Some bs\<rparr> else s\<lparr>screen := bs\<rparr>)"

lemma set_surface_simps [simp]: "surface (set_surface bs s) = bs" "fb (set_surface bs s) = fb s"
  by (simp_all add: set_surface_def surface_def)

lemma fb_ok_set_surface [simp]: "fb_ok f s \<Longrightarrow> fb_ok f (set_surface bs s) \<longleftrightarrow> length bs = length (surface s)"
  by (auto simp: fb_ok_def) (simp_all add: set_surface_def)

lemma fb_store_surface:
  "fb_ok f s \<Longrightarrow> fb_store a px s = bindR (store32 a px (surface s)) (\<lambda>bs. Inr (set_surface bs s))"
  by (auto simp: fb_store_def fb_ok_def surface_def set_surface_def)

lemma fb_store_paints:
  assumes "p \<in> points f" "length px = 4"
  shows "paints (fb_ok f) picture (fb_store (offset f p) px) [p \<mapsto> px]"
  unfolding paints_def
proof (intro allI impI)
  fix s assume ok: "fb_ok f s"
  then have f: "fb_fits f" "fb s = f" by (simp_all add: fb_ok_def)
  have "offset f p + 4 \<le> length (surface s)" using offset_bound [OF f(1) assms(1)] ok by (simp add: fb_ok_def)
  from store32_pixel [OF this assms(2)] obtain bs where bs: "store32 (offset f p) px (surface s) = Inr bs"
    "length bs = length (surface s)" "take 4 (drop (offset f p) bs) = px"
    "\<forall>b. b + 4 \<le> offset f p \<or> offset f p + 4 \<le> b \<longrightarrow> take 4 (drop b bs) = take 4 (drop b (surface s))" by blast
  have "picture (set_surface bs s) = (picture s)(p \<mapsto> px)"
  proof
    fix q show "picture (set_surface bs s) q = ((picture s)(p \<mapsto> px)) q"
      unfolding picture_def set_surface_simps f(2)
      using assms(1) bs(3,4) offset_apart [OF f(1) _ assms(1), of q] by auto
  qed
  then show "\<exists>s'. fb_store (offset f p) px s = Inr s' \<and> fb_ok f s' \<and> picture s' = picture s ++ [p \<mapsto> px]"
    using bs(1,2) ok by (intro exI [of _ "set_surface bs s"]) (simp add: fb_store_surface [OF ok])
qed

lemma length_bytes32 [simp]: "length (bytes32 c) = 4"
  by (simp add: bytes32_def)

lemma fb_put_pixel_paints: "paints (fb_ok f) picture (fb_put_pixel x y c) (dot (points f) x y c)"
proof (cases "(unat x, unat y) \<in> points f")
  case True
  show ?thesis
  proof (rule paints_cong [OF fb_store_paints [OF True length_bytes32]])
    fix s assume ok: "fb_ok f s"
    then have "fb_ready s" by (simp add: fb_ok_def fb_ready_def fb_fits_def)
    moreover have "\<not> x \<ge> fb_width (fb s)" "\<not> y \<ge> fb_height (fb s)"
      using True ok by (auto simp: points_def fb_ok_def word_le_nat_alt)
    ultimately show "fb_store (offset f (unat x, unat y)) (bytes32 c) s = fb_put_pixel x y c s"
      by (simp add: fb_put_pixel_def line_offset_eq [OF ok True])
  qed (simp add: dot_def True)
next
  case False
  show ?thesis
  proof (rule paints_cong [OF paints_nothing])
    fix s assume "fb_ok f s"
    then show "Inr s = fb_put_pixel x y c s"
      using False by (auto simp: fb_put_pixel_def points_def fb_ok_def word_le_nat_alt)
  qed (simp add: dot_def False)
qed

interpretation fbc: canvas "fb_ok f" picture fb_put_pixel "points f"
  by unfold_locales (rule fb_put_pixel_paints)

section \<open>Rectangles\<close>

definition rect_picture :: "framebuffer \<Rightarrow> nat \<Rightarrow> nat \<Rightarrow> nat \<Rightarrow> nat \<Rightarrow> u32 \<Rightarrow> picture" where
  "rect_picture f x y w h c = (\<lambda>p. if p \<in> points f \<and> x \<le> fst p \<and> fst p < x + w \<and> y \<le> snd p \<and> snd p < y + h
     then Some (bytes32 c) else None)"

lemma rect_picture_empty: "rect_picture f x y 0 h c = Map.empty" "rect_picture f x y w 0 c = Map.empty"
  by (auto simp: rect_picture_def fun_eq_iff)

lemma fill_row_paints:
  assumes "unat x + unat w \<le> unat (fb_width f)" "y < fb_height f"
  shows "paints (fb_ok f) picture (fill_row x w c y) (rect_picture f (unat x) (unat y) (unat w) 1 c)"
proof (cases "w = 0")
  case True
  show ?thesis
    by (rule paints_cong [OF paints_nothing]) (simp_all add: True fill_row_def rect_picture_empty)
next
  case False
  then have "0 < unat w" by (simp add: unat_gt_0)
  then have xy: "(unat x, unat y) \<in> points f" using assms by (simp add: points_def word_less_nat_alt)
  have "paints (fb_ok f) picture (for_up 0 w (\<lambda>col. fb_store (offset f (unat x + unat col, unat y)) (bytes32 c)))
    (rect_picture f (unat x) (unat y) (unat w) 1 c)"
  proof (rule paints_for_up [where H = "\<lambda>q. rect_picture f (unat x) (unat y) (unat q) 1 c"])
    fix q :: u32 assume q: "q < w"
    then have p: "(unat x + unat q, unat y) \<in> points f" using assms by (simp add: points_def word_less_nat_alt)
    show "paints (fb_ok f) picture (fb_store (offset f (unat x + unat q, unat y)) (bytes32 c)) [(unat x + unat q, unat y) \<mapsto> bytes32 c]"
      by (rule fb_store_paints [OF p length_bytes32])
    show "rect_picture f (unat x) (unat y) (unat (q + 1)) 1 c =
        rect_picture f (unat x) (unat y) (unat q) 1 c ++ [(unat x + unat q, unat y) \<mapsto> bytes32 c]"
      using p by (auto simp: rect_picture_def fun_eq_iff map_add_def unat_plus_one [OF q])
  qed (simp_all add: rect_picture_empty)
  then show ?thesis
  proof (rule paints_cong)
    fix s assume ok: "fb_ok f s"
    show "for_up 0 w (\<lambda>col. fb_store (offset f (unat x + unat col, unat y)) (bytes32 c)) s = fill_row x w c y s"
      by (simp add: fill_row_def line_offset_eq [OF ok xy] offset_def algebra_simps)
  qed simp
qed

lemma unat_u32_less: "unat (x :: u32) < 4294967296"
  by (rule order_less_le_trans [OF unsigned_less]) simp

text \<open>The clipping of a side that does not wrap.\<close>

lemma clip_side:
  assumes "unat x + unat w < 2 ^ 32" "x < (n :: u32)"
  shows "unat (if x + w > n then n - x else w) = min (unat w) (unat n - unat x)"
proof -
  have "unat (x + w) = unat x + unat w" using assms(1) by (simp add: unat_word_ariths)
  moreover have "unat (n - x) = unat n - unat x" using assms(2) by (simp add: unat_sub)
  ultimately show ?thesis using assms(2) by (auto simp: word_less_nat_alt min_def)
qed

lemma rows_paint:
  assumes "unat x + unat w \<le> unat (fb_width f)" "unat y + unat h \<le> unat (fb_height f)"
  shows "paints (fb_ok f) picture (for_up y (y + h) (fill_row x w c)) (rect_picture f (unat x) (unat y) (unat w) (unat h) c)"
proof -
  have yh: "unat (y + h) = unat y + unat h"
    using assms(2) unat_u32_less [of "fb_height f"] by (simp add: unat_word_ariths)
  have "paints (fb_ok f) picture (for_up y (y + h) (fill_row x w c))
    (rect_picture f (unat x) (unat y) (unat w) (unat (y + h) - unat y) c)"
  proof (rule paints_for_up [where H = "\<lambda>q. rect_picture f (unat x) (unat y) (unat w) (unat q - unat y) c", OF fill_row_paints [OF assms(1)]])
    fix q :: u32 assume q: "y \<le> q" "q < y + h"
    then show "q < fb_height f" using assms(2) yh by (simp add: word_less_nat_alt)
    show "rect_picture f (unat x) (unat y) (unat w) (unat (q + 1) - unat y) c =
        rect_picture f (unat x) (unat y) (unat w) (unat q - unat y) c ++ rect_picture f (unat x) (unat q) (unat w) 1 c"
      using q(1) by (auto simp: rect_picture_def fun_eq_iff map_add_def unat_plus_one [OF q(2)] word_le_nat_alt)
  qed (simp_all add: rect_picture_empty word_le_nat_alt yh)
  then show ?thesis by (simp add: yh)
qed

lemma fill_rect_total:
  assumes "unat x + unat w < 2 ^ 32" "unat y + unat h < 2 ^ 32"
  shows "paints (fb_ok f) picture (fb_fill_rect x y w h c) (rect_picture f (unat x) (unat y) (unat w) (unat h) c)"
proof (cases "x < fb_width f \<and> y < fb_height f")
  case False
  show ?thesis
  proof (rule paints_cong [OF paints_nothing])
    show "Inr s = fb_fill_rect x y w h c s" if "fb_ok f s" for s
      using that False by (auto simp: fb_fill_rect_def fb_ok_def not_less)
    show "Map.empty = rect_picture f (unat x) (unat y) (unat w) (unat h) c"
      using False by (auto simp: rect_picture_def fun_eq_iff points_def word_less_nat_alt)
  qed
next
  case True
  let ?w = "if x + w > fb_width f then fb_width f - x else w" and ?h = "if y + h > fb_height f then fb_height f - y else h"
  have u: "unat ?w = min (unat w) (unat (fb_width f) - unat x)" "unat ?h = min (unat h) (unat (fb_height f) - unat y)"
    using clip_side assms True by blast+
  have le: "unat x + unat ?w \<le> unat (fb_width f)" "unat y + unat ?h \<le> unat (fb_height f)"
    unfolding u using True by (auto simp: word_less_nat_alt)
  show ?thesis
  proof (rule paints_cong [OF rows_paint [OF le, of c]])
    show "for_up y (y + ?h) (fill_row x ?w c) s = fb_fill_rect x y w h c s" if "fb_ok f s" for s
    proof -
      have "\<not> fb_width f \<le> x" "\<not> fb_height f \<le> y" using True unfolding not_le by blast+
      then show ?thesis using that by (simp add: fb_fill_rect_def fb_ok_def fb_ready_def fb_fits_def)
    qed
    show "rect_picture f (unat x) (unat y) (unat ?w) (unat ?h) c = rect_picture f (unat x) (unat y) (unat w) (unat h) c"
      unfolding u by (auto simp: rect_picture_def fun_eq_iff points_def)
  qed
qed

text \<open>
  C8. \<open>fb_fill_rect\<close>, to the screen or the back buffer, on a rectangle whose edges do not wrap:
  it never stores outside the surface, and afterwards exactly the points of the rectangle on
  the screen have the colour and all others are as before.
\<close>

theorem fill_rect_picture:
  assumes "fb_ok f s" "unat x + unat w < 2 ^ 32" "unat y + unat h < 2 ^ 32"
  shows "\<exists>s'. fb_fill_rect x y w h c s = Inr s' \<and> fb_ok f s' \<and>
    (\<forall>px py. px < unat (fb_width f) \<longrightarrow> py < unat (fb_height f) \<longrightarrow>
       picture s' (px, py) = (if unat x \<le> px \<and> px < unat x + unat w \<and> unat y \<le> py \<and> py < unat y + unat h
         then Some (bytes32 c) else picture s (px, py)))"
proof -
  obtain s' where s': "fb_fill_rect x y w h c s = Inr s'" "fb_ok f s'"
    "picture s' = picture s ++ rect_picture f (unat x) (unat y) (unat w) (unat h) c"
    using paintsD [OF fill_rect_total [OF assms(2,3)] assms(1)] by blast
  then show ?thesis by (intro exI [of _ s']) (auto simp: map_add_def rect_picture_def points_def)
qed

text \<open>Storing until the surface ends.\<close>

lemma fb_store_length:
  assumes "fb_ok f s"
  shows "length px = 4 \<Longrightarrow> fb_store a px s = Inl OutOfBounds \<or> (\<exists>s'. fb_store a px s = Inr s' \<and> fb_ok f s')"
    and "unat (fb_height f) * unat (fb_pitch f) < a + 4 \<Longrightarrow> fb_store a px s = Inl OutOfBounds"
proof -
  show "fb_store a px s = Inl OutOfBounds \<or> (\<exists>s'. fb_store a px s = Inr s' \<and> fb_ok f s')" if "length px = 4"
    using that assms by (simp add: fb_store_surface [OF assms] store32_def)
  show "fb_store a px s = Inl OutOfBounds" if "unat (fb_height f) * unat (fb_pitch f) < a + 4"
    using that assms by (simp add: fb_store_surface [OF assms] store32_def fb_ok_def)
qed

lemma for_up_faults:
  assumes "P s" "p \<le> e" "m < e" "p \<le> m"
    and step: "\<And>q s. P s \<Longrightarrow> q < e \<Longrightarrow> f q s = Inl x \<or> (\<exists>s'. f q s = Inr s' \<and> P s')"
    and stop: "\<And>s. P s \<Longrightarrow> f m s = Inl x"
  shows "for_up p e f s = Inl x"
  using assms
proof (induction p e f s rule: for_up.induct)
  case (1 p e f s)
  have lt: "p < e" using "1.prems"(3,4) by simp
  show ?case
  proof (cases "f p s")
    case (Inl y)
    then show ?thesis using "1.prems"(5) [OF "1.prems"(1) lt] by (auto simp: for_up_step [OF lt])
  next
    case (Inr s')
    then have "P s'" "p \<noteq> m" using "1.prems"(1,5,6) lt by fastforce+
    then have "p + 1 \<le> m" using "1.prems"(4) lt by (auto simp: word_le_nat_alt unat_plus_one word_unat_eq_iff)
    moreover have "p + 1 \<le> e" using lt by (simp add: word_le_nat_alt word_less_nat_alt unat_plus_one)
    ultimately have "for_up (p + 1) e f s' = Inl x"
      using "1.IH" [OF lt Inr \<open>P s'\<close> _ "1.prems"(3)] "1.prems"(5,6) by blast
    then show ?thesis using Inr by (simp add: for_up_step [OF lt])
  qed
qed

text \<open>
  A rectangle on the screen whose right edge wraps around is not clipped: filling it stores
  past the end of the surface.
\<close>

theorem fill_rect_wrap:
  assumes "fb_ok f s" "x < fb_width f" "y < fb_height f" "2 ^ 32 \<le> unat x + unat w" "unat y + unat h < 2 ^ 32" "h \<noteq> 0"
  shows "fb_fill_rect x y w h c s = Inl OutOfBounds"
proof -
  have f: "fb_fits f" "fb s = f" using assms(1) by (simp_all add: fb_ok_def)
  have "unat (x + w) = unat x + unat w - 2 ^ 32"
    using assms(4) unat_u32_less [of x] unat_u32_less [of w] by (simp add: unat_word_ariths mod_if)
  then have nc: "\<not> x + w > fb_width f"
    using assms(2,4) unat_u32_less [of w] by (simp add: word_less_nat_alt)
  have xy: "(unat x, unat y) \<in> points f" using assms(2,3) by (simp add: points_def word_less_nat_alt)
  let ?L = "unat (fb_height f) * unat (fb_pitch f)"
  have L: "?L < 2 ^ 32" using f(1) by (simp add: fb_fits_def)
  have "4 * unat (fb_width f) \<le> unat (fb_pitch f)" "unat (fb_pitch f) \<le> ?L"
    using f(1) assms(3) by (auto simp: fb_fits_def word_less_nat_alt)
  then have "4 * unat (fb_width f) < 2 ^ 32" using L by linarith
  then have wl: "unat x < 2 ^ 30" using assms(2) by (simp add: word_less_nat_alt)
  define m :: u32 where "m = 2 ^ 30"
  have m: "unat m = 2 ^ 30" by (simp add: m_def)
  have mw: "m < w" using assms(4) wl m by (simp add: word_less_nat_alt)
  have row: "fill_row x w c y s = Inl OutOfBounds"
    unfolding fill_row_def Let_def line_offset_eq [OF assms(1) xy]
  proof (rule for_up_faults [where P = "fb_ok f" and m = m])
    show "fb_store (offset f (unat x, unat y) + 4 * unat m) (bytes32 c) t = Inl OutOfBounds" if "fb_ok f t" for t
      by (rule fb_store_length(2) [OF that]) (use L m in simp)
    show "fb_store (offset f (unat x, unat y) + 4 * unat q) (bytes32 c) t = Inl OutOfBounds \<or>
        (\<exists>s'. fb_store (offset f (unat x, unat y) + 4 * unat q) (bytes32 c) t = Inr s' \<and> fb_ok f s')" if "fb_ok f t" for q t
      by (rule fb_store_length(1) [OF that length_bytes32])
  qed (use assms(1) mw in simp_all)
  let ?h = "if y + h > fb_height f then fb_height f - y else h"
  have "unat ?h = min (unat h) (unat (fb_height f) - unat y)" using clip_side assms(3,5) by blast
  moreover have "0 < unat h" using assms(6) by (simp add: unat_gt_0)
  moreover have "unat y < unat (fb_height f)" "unat (fb_height f) < 2 ^ 32"
    using assms(3) unat_u32_less [of "fb_height f"] by (simp_all add: word_less_nat_alt)
  ultimately have "unat (y + ?h) = unat y + unat ?h" "0 < unat ?h" by (auto simp: unat_word_ariths)
  then have "y < y + ?h" by (simp add: word_less_nat_alt)
  then have "for_up y (y + ?h) (fill_row x w c) s = Inl OutOfBounds" using row by (simp add: for_up_step)
  then show ?thesis
    using f assms(2,3) nc by (simp add: fb_fill_rect_def fb_ready_def fb_fits_def not_le split: if_splits)
qed

section \<open>Lines\<close>

text \<open>
  The line algorithm over integers. After \<open>i\<close> steps in x and \<open>j\<close> in y the error is
  \<open>(j + 1) dx - (i + 1) dy\<close>; neither coordinate steps past its end, and every turn steps.
\<close>

definition err_at :: "int \<Rightarrow> int \<Rightarrow> int \<Rightarrow> int \<Rightarrow> int" where
  "err_at dx dy i j = (j + 1) * dx - (i + 1) * dy"

lemma line_no_overshoot:
  assumes "0 \<le> dx" "0 \<le> dy" "0 \<le> i" "i \<le> dx" "0 \<le> j" "j \<le> dy"
  shows "i = dx \<Longrightarrow> j < dy \<Longrightarrow> \<not> 2 * err_at dx dy i j > - dy" "j = dy \<Longrightarrow> i < dx \<Longrightarrow> \<not> 2 * err_at dx dy i j < dx"
proof -
  show "\<not> 2 * err_at dx dy i j > - dy" if "i = dx" "j < dy"
  proof -
    have "(j + 1) * dx \<le> dy * dx" using that(2) assms(1) by (intro mult_right_mono) simp_all
    then show ?thesis using that assms by (simp add: err_at_def algebra_simps)
  qed
  show "\<not> 2 * err_at dx dy i j < dx" if "j = dy" "i < dx"
  proof -
    have "(i + 1) * dy \<le> dx * dy" using that(2) assms(2) by (intro mult_right_mono) simp_all
    then show ?thesis using that assms by (simp add: err_at_def algebra_simps)
  qed
qed

lemma line_steps:
  assumes "0 \<le> dx" "0 \<le> dy" "\<not> (dx = 0 \<and> dy = 0)"
  shows "2 * err_at dx dy i j > - dy \<or> 2 * err_at dx dy i j < dx"
  using assms by auto

lemma sint_bounded: "- (2 ^ 31) \<le> k \<Longrightarrow> k < 2 ^ 31 \<Longrightarrow> sint (word_of_int k :: int32) = k"
  by (simp add: sint_sbintrunc' signed_take_bit_int_eq_self_iff)

text \<open>The position after \<open>i\<close> and \<open>j\<close> steps in the directions \<open>sx\<close> and \<open>sy\<close>.\<close>

definition pos :: "u32 \<Rightarrow> u32 \<Rightarrow> int \<Rightarrow> int \<Rightarrow> int \<times> int \<Rightarrow> u32 \<times> u32" where
  "pos x0 y0 sx sy = (\<lambda>(i, j). (x0 + word_of_int (sx * i), y0 + word_of_int (sy * j)))"

definition grid_step :: "int \<times> int \<Rightarrow> int \<times> int \<Rightarrow> bool" where
  "grid_step p q \<longleftrightarrow> fst q - fst p \<in> {0, 1} \<and> snd q - snd p \<in> {0, 1} \<and> p \<noteq> q"

text \<open>One turn of the loop, seen on the grid.\<close>

definition grid_next :: "int \<Rightarrow> int \<Rightarrow> int \<times> int \<Rightarrow> int \<times> int" where
  "grid_next dx dy = (\<lambda>(i, j). (if 2 * err_at dx dy i j > - dy then i + 1 else i, if 2 * err_at dx dy i j < dx then j + 1 else j))"

definition err_ok :: "int \<Rightarrow> int \<Rightarrow> int \<Rightarrow> int \<Rightarrow> bool" where
  "err_ok dx dy i j \<longleftrightarrow> - (2 * dy) \<le> err_at dx dy i j \<and> err_at dx dy i j \<le> 2 * dx"

lemma err_at_step: "err_at dx dy (i + 1) j = err_at dx dy i j - dy" "err_at dx dy i (j + 1) = err_at dx dy i j + dx"
  by (simp_all add: err_at_def algebra_simps)

lemma grid_next_ok:
  assumes "0 \<le> dx" "0 \<le> dy" "err_ok dx dy i j" "0 \<le> i" "i \<le> dx" "0 \<le> j" "j \<le> dy" "(i, j) \<noteq> (dx, dy)"
    and "grid_next dx dy (i, j) = (i', j')"
  shows "err_ok dx dy i' j'" "i \<le> i'" "i' \<le> dx" "j \<le> j'" "j' \<le> dy" "grid_step (i, j) (i', j')" "i + j < i' + j'"
proof -
  let ?e = "err_at dx dy i j"
  have n: "\<not> (dx = 0 \<and> dy = 0)" using assms(4-8) by auto
  have ij: "i' = (if 2 * ?e > - dy then i + 1 else i)" "j' = (if 2 * ?e < dx then j + 1 else j)"
    using assms(9) by (auto simp: grid_next_def)
  have st: "2 * ?e > - dy \<or> 2 * ?e < dx" by (rule line_steps [OF assms(1,2) n])
  show "err_ok dx dy i' j'"
    using assms(1-3) st unfolding ij err_ok_def by (auto simp: err_at_step)
  show "i \<le> i'" "j \<le> j'" unfolding ij by simp_all
  show "i' \<le> dx"
  proof (cases "i = dx")
    case True
    then show ?thesis using line_no_overshoot(1) [OF assms(1,2,4-7)] assms(7,8) unfolding ij by auto
  next
    case False
    then show ?thesis using assms(5) unfolding ij by simp
  qed
  show "j' \<le> dy"
  proof (cases "j = dy")
    case True
    then show ?thesis using line_no_overshoot(2) [OF assms(1,2,4-7)] assms(5,8) unfolding ij by auto
  next
    case False
    then show ?thesis using assms(7) unfolding ij by simp
  qed
  show "grid_step (i, j) (i', j')" using st unfolding grid_step_def ij by auto
  show "i + j < i' + j'" using st unfolding ij by auto
qed

lemma line_step_grid:
  assumes "0 \<le> dx" "dx < 2 ^ 29" "0 \<le> dy" "dy < 2 ^ 29" "err_ok dx dy i j" "grid_next dx dy (i, j) = (i', j')"
  shows "line_step (word_of_int dx) (word_of_int dy) (word_of_int sx) (word_of_int sy)
      (word_of_int (err_at dx dy i j), pos x0 y0 sx sy (i, j)) =
    (word_of_int (err_at dx dy i' j'), pos x0 y0 sx sy (i', j'))"
proof -
  let ?e = "err_at dx dy i j"
  have e2: "sint (2 * word_of_int ?e :: int32) = 2 * ?e"
    using sint_bounded [of "2 * ?e"] assms(1-5) by (simp add: err_ok_def)
  have d: "sint (- word_of_int dy :: int32) = - dy" "sint (word_of_int dx :: int32) = dx"
    using sint_bounded [of "- dy"] sint_bounded [of dx] assms(1-4) by simp_all
  have p: "x0 + word_of_int (sx * (i + 1)) = (x0 + word_of_int (sx * i)) + word_of_int sx"
    "y0 + word_of_int (sy * (j + 1)) = (y0 + word_of_int (sy * j)) + word_of_int sy"
    by (simp_all add: algebra_simps)
  show ?thesis
    using assms(6) unfolding line_step_def grid_next_def pos_def
    by (auto simp: e2 d err_at_step p Let_def distrib_left split: if_splits)
qed

lemma word_of_int_inj: "(word_of_int a :: u32) = word_of_int b \<Longrightarrow> \<bar>a - b\<bar> < 2 ^ 32 \<Longrightarrow> a = b"
proof -
  assume "(word_of_int a :: u32) = word_of_int b" and lt: "\<bar>a - b\<bar> < 2 ^ 32"
  then have "a mod 2 ^ 32 = b mod 2 ^ 32" by (simp add: word_of_int_eq_iff take_bit_eq_mod)
  then have "2 ^ 32 dvd a - b" by (simp add: mod_eq_dvd_iff)
  then show "a = b" using lt zdvd_imp_le [of "2 ^ 32" "\<bar>a - b\<bar>"] by (cases "a = b") auto
qed

lemma put_pixels_Cons: "put_pixels (p # ps) c s = bindR (fb_put_pixel (fst p) (snd p) c s) (put_pixels ps c)"
  by (cases p) simp

lemma line_loop_path:
  assumes d: "0 \<le> dx" "dx < 2 ^ 29" "0 \<le> dy" "dy < 2 ^ 29" and "sx \<in> {1, -1}" "sy \<in> {1, -1}"
    and "err_ok dx dy i j" "0 \<le> i" "i \<le> dx" "0 \<le> j" "j \<le> dy"
  shows "\<exists>ks. ks \<noteq> [] \<and> hd ks = (i, j) \<and> last ks = (dx, dy) \<and> successively grid_step ks \<and>
    (\<forall>k \<in> set ks. 0 \<le> fst k \<and> fst k \<le> dx \<and> 0 \<le> snd k \<and> snd k \<le> dy) \<and>
    (\<forall>s. line_loop (word_of_int dx) (word_of_int dy) (word_of_int sx) (word_of_int sy)
        (fst (pos x0 y0 sx sy (dx, dy))) (snd (pos x0 y0 sx sy (dx, dy))) c
        (word_of_int (err_at dx dy i j), pos x0 y0 sx sy (i, j)) s =
      Some (put_pixels (map (pos x0 y0 sx sy) ks) c s))"
  using assms(7-)
proof (induction "nat (dx + dy - i - j)" arbitrary: i j rule: less_induct)
  case less
  let ?p = "pos x0 y0 sx sy"
  have pos: "(?p (i, j) = ?p (dx, dy)) = ((i, j) = (dx, dy))"
  proof
    assume "?p (i, j) = ?p (dx, dy)"
    then have "(word_of_int (sx * i) :: u32) = word_of_int (sx * dx)" "(word_of_int (sy * j) :: u32) = word_of_int (sy * dy)"
      by (simp_all add: pos_def)
    moreover have "\<bar>sx * i - sx * dx\<bar> < 2 ^ 32" "\<bar>sy * j - sy * dy\<bar> < 2 ^ 32"
      using assms(5,6) d less.prems by auto
    ultimately have "sx * i = sx * dx" "sy * j = sy * dy" using word_of_int_inj by blast+
    then show "(i, j) = (dx, dy)" using assms(5,6) by auto
  qed simp
  show ?case
  proof (cases "(i, j) = (dx, dy)")
    case True
    then show ?thesis
      by (intro exI [of _ "[(i, j)]"]) (use less.prems in \<open>auto simp: line_loop.simps pos_def split: sum.split\<close>)
  next
    case False
    obtain i' j' where n: "grid_next dx dy (i, j) = (i', j')" by (cases "grid_next dx dy (i, j)") blast
    note st = grid_next_ok [OF d(1,3) less.prems False n]
    have "nat (dx + dy - i' - j') < nat (dx + dy - i - j)" using st(3,5,7) by auto
    from less.hyps [OF this st(1)] st(2-5) less.prems(2,4)
    obtain ks where ks: "ks \<noteq> []" "hd ks = (i', j')" "last ks = (dx, dy)" "successively grid_step ks"
      "\<forall>k \<in> set ks. 0 \<le> fst k \<and> fst k \<le> dx \<and> 0 \<le> snd k \<and> snd k \<le> dy"
      "\<forall>s. line_loop (word_of_int dx) (word_of_int dy) (word_of_int sx) (word_of_int sy)
        (fst (?p (dx, dy))) (snd (?p (dx, dy))) c (word_of_int (err_at dx dy i' j'), ?p (i', j')) s =
        Some (put_pixels (map ?p ks) c s)" by (meson order_trans)
    have "line_loop (word_of_int dx) (word_of_int dy) (word_of_int sx) (word_of_int sy)
        (fst (?p (dx, dy))) (snd (?p (dx, dy))) c (word_of_int (err_at dx dy i j), ?p (i, j)) s =
        Some (put_pixels (map ?p ((i, j) # ks)) c s)" for s
    proof -
      have ne: "\<not> (fst (?p (i, j)) = fst (?p (dx, dy)) \<and> snd (?p (i, j)) = snd (?p (dx, dy)))"
        using pos False by (metis prod.collapse)
      show ?thesis
        by (subst line_loop.simps) (use ne ks(6) in \<open>auto simp: line_step_grid [OF d less.prems(1) n] put_pixels_Cons split: sum.split\<close>)
    qed
    moreover have "successively grid_step ((i, j) # ks)" using ks(1,2,4) st(6) by (cases ks) auto
    ultimately show ?thesis using ks(1,3,5) less.prems by (intro exI [of _ "(i, j) # ks"]) auto
  qed
qed

lemma put_pixels_paints:
  "paints (fb_ok f) picture (put_pixels ps c)
    (\<lambda>p. if p \<in> points f \<and> p \<in> (\<lambda>q. (unat (fst q), unat (snd q))) ` set ps then Some (bytes32 c) else None)"
proof (induction ps)
  case Nil
  show ?case by (rule paints_cong [OF paints_nothing]) (simp_all add: fun_eq_iff)
next
  case (Cons q ps)
  show ?case
    by (rule paints_cong [OF paints_seq [OF fbc.put_paints [of f "fst q" "snd q" c] Cons.IH]])
      (auto simp: put_pixels_Cons dot_def map_add_def fun_eq_iff)
qed

text \<open>One coordinate of a line: distance, direction and the values on the way.\<close>

lemma line_coordinate:
  fixes a b :: u32
  assumes "a < 2 ^ 29" "b < 2 ^ 29"
  defines "d \<equiv> \<bar>uint b - uint a\<bar>" and "sg \<equiv> (if a < b then 1 else -1 :: int)"
  shows "abs32 (b - a) = word_of_int d" "0 \<le> d" "d < 2 ^ 29" "sg \<in> {1, -1}" "a + word_of_int (sg * d) = b"
    "(if a < b then 1 else -1) = (word_of_int sg :: u32)"
    "0 \<le> i \<Longrightarrow> i \<le> d \<Longrightarrow> uint (a + word_of_int (sg * i)) = uint a + sg * i"
proof -
  have u: "uint a < 2 ^ 29" "uint b < 2 ^ 29" "0 \<le> uint a" "0 \<le> uint b"
    using assms(1,2) by (simp_all add: word_less_def)
  have lt: "a < b \<longleftrightarrow> uint a < uint b" by (simp add: word_less_def)
  show "0 \<le> d" "d < 2 ^ 29" unfolding d_def using u by linarith+
  have ba: "b - a = word_of_int (uint b - uint a)" by simp
  have "sint (b - a) = uint b - uint a" unfolding ba
  proof (rule sint_bounded)
    have "uint a < 536870912" "uint b < 536870912" using u by simp_all
    then have "- 2147483648 \<le> uint b - uint a" "uint b - uint a < 2147483648" using u(3,4) by linarith+
    then show "- (2 ^ 31) \<le> uint b - uint a" "uint b - uint a < 2 ^ 31" by simp_all
  qed
  then show "abs32 (b - a) = word_of_int d" by (auto simp: abs32_def d_def abs_if)
  show "sg \<in> {1, -1}" by (simp add: sg_def)
  have "sg * d = uint b - uint a" using lt by (auto simp: sg_def d_def)
  then show "a + word_of_int (sg * d) = b" by simp
  show "(if a < b then 1 else -1) = (word_of_int sg :: u32)" by (simp add: sg_def)
  show "uint (a + word_of_int (sg * i)) = uint a + sg * i" if "0 \<le> i" "i \<le> d"
  proof -
    have "a + word_of_int (sg * i) = word_of_int (uint a + sg * i)" by simp
    moreover have "0 \<le> uint a + sg * i \<and> uint a + sg * i < 4294967296"
    proof (cases "a < b")
      case True
      then have sg: "sg * i = i" and "i \<le> uint b - uint a" using that lt by (simp_all add: sg_def d_def)
      then show ?thesis unfolding sg using that(1) u(3,4) uint_lt2p [of b] by simp
    next
      case False
      then have sg: "sg * i = - i" and "i \<le> uint a - uint b" using that lt by (simp_all add: sg_def d_def)
      moreover have "uint a < 4294967296" using uint_lt2p [of a] by simp
      ultimately show ?thesis unfolding sg using that(1) u(3,4) by linarith
    qed
    ultimately show ?thesis by (simp only: uint_word_of_int) simp
  qed
qed

definition adjacent :: "u32 \<times> u32 \<Rightarrow> u32 \<times> u32 \<Rightarrow> bool" where
  "adjacent p q \<longleftrightarrow> \<bar>uint (fst p) - uint (fst q)\<bar> \<le> 1 \<and> \<bar>uint (snd p) - uint (snd q)\<bar> \<le> 1 \<and> p \<noteq> q"

lemma draw_line_path:
  assumes "fb_ok f s" "x0 < 2 ^ 29" "y0 < 2 ^ 29" "x1 < 2 ^ 29" "y1 < 2 ^ 29"
  shows "\<exists>ps s'. fb_draw_line x0 y0 x1 y1 c s = Inr s' \<and> fb_ok f s' \<and>
    ps \<noteq> [] \<and> hd ps = (x0, y0) \<and> last ps = (x1, y1) \<and> successively adjacent ps \<and>
    (\<forall>p \<in> set ps. min x0 x1 \<le> fst p \<and> fst p \<le> max x0 x1 \<and> min y0 y1 \<le> snd p \<and> snd p \<le> max y0 y1) \<and>
    (\<forall>px py. px < unat (fb_width f) \<longrightarrow> py < unat (fb_height f) \<longrightarrow>
       picture s' (px, py) = (if (px, py) \<in> (\<lambda>q. (unat (fst q), unat (snd q))) ` set ps then Some (bytes32 c) else picture s (px, py)))"
proof -
  define dx dy where d: "dx = \<bar>uint x1 - uint x0\<bar>" "dy = \<bar>uint y1 - uint y0\<bar>"
  define sx sy where s: "sx = (if x0 < x1 then 1 else -1 :: int)" "sy = (if y0 < y1 then 1 else -1 :: int)"
  let ?p = "pos x0 y0 sx sy"
  note cx = line_coordinate [OF assms(2,4), folded d(1) s(1)] and cy = line_coordinate [OF assms(3,5), folded d(2) s(2)]
  have "err_ok dx dy 0 0" using cx(2) cy(2) by (simp add: err_ok_def err_at_def)
  from line_loop_path [OF cx(2,3) cy(2,3) cx(4) cy(4) this order_refl cx(2) order_refl cy(2), of x0 y0 c]
  obtain ks where ks: "ks \<noteq> []" "hd ks = (0, 0)" "last ks = (dx, dy)" "successively grid_step ks"
    "\<forall>k \<in> set ks. 0 \<le> fst k \<and> fst k \<le> dx \<and> 0 \<le> snd k \<and> snd k \<le> dy"
    "\<forall>s. line_loop (word_of_int dx) (word_of_int dy) (word_of_int sx) (word_of_int sy)
      (fst (?p (dx, dy))) (snd (?p (dx, dy))) c (word_of_int (err_at dx dy 0 0), ?p (0, 0)) s =
      Some (put_pixels (map ?p ks) c s)" by blast
  have ends: "?p (0, 0) = (x0, y0)" "?p (dx, dy) = (x1, y1)" using cx(5) cy(5) by (simp_all add: pos_def)
  have e0: "word_of_int (err_at dx dy 0 0) = (word_of_int dx - word_of_int dy :: int32)" by (simp add: err_at_def)
  have "fb_draw_line x0 y0 x1 y1 c s = put_pixels (map ?p ks) c s"
    unfolding fb_draw_line_def Let_def cx(1,6) cy(1,6) using ks(6) unfolding ends e0 by (simp add: ended_def)
  moreover obtain s' where s': "put_pixels (map ?p ks) c s = Inr s'" "fb_ok f s'"
    "picture s' = picture s ++ (\<lambda>p. if p \<in> points f \<and> p \<in> (\<lambda>q. (unat (fst q), unat (snd q))) ` set (map ?p ks)
       then Some (bytes32 c) else None)"
    using paintsD [OF put_pixels_paints assms(1)] by blast
  moreover have up: "uint (fst (?p k)) = uint x0 + sx * fst k" "uint (snd (?p k)) = uint y0 + sy * snd k" if "k \<in> set ks" for k
    using cx(7) [of "fst k"] cy(7) [of "snd k"] ks(5) that by (simp_all add: pos_def case_prod_beta)
  have "successively adjacent (map ?p ks)"
  proof -
    have "adjacent (?p k) (?p l)" if "k \<in> set ks" "l \<in> set ks" "grid_step k l" for k l
    proof -
      have "\<bar>sx * fst k - sx * fst l\<bar> \<le> 1" "\<bar>sy * snd k - sy * snd l\<bar> \<le> 1" "sx * fst k \<noteq> sx * fst l \<or> sy * snd k \<noteq> sy * snd l"
        using that(3) cx(4) cy(4) by (auto simp: grid_step_def prod_eq_iff)
      then show ?thesis using up [OF that(1)] up [OF that(2)] by (auto simp: adjacent_def)
    qed
    then show ?thesis using ks(4) by (simp add: successively_map) (metis (no_types, lifting) successively_mono)
  qed
  moreover have "\<forall>p \<in> set (map ?p ks). min x0 x1 \<le> fst p \<and> fst p \<le> max x0 x1 \<and> min y0 y1 \<le> snd p \<and> snd p \<le> max y0 y1"
  proof
    fix p assume "p \<in> set (map ?p ks)"
    then obtain k where k: "k \<in> set ks" "p = ?p k" by auto
    show "min x0 x1 \<le> fst p \<and> fst p \<le> max x0 x1 \<and> min y0 y1 \<le> snd p \<and> snd p \<le> max y0 y1"
      using up [OF k(1)] ks(5) k unfolding d s by (auto simp: min_def max_def word_le_def word_less_def)
  qed
  ultimately show ?thesis
    using ks(1-3) ends
    by (intro exI [of _ "map ?p ks"] exI [of _ s']) (auto simp: hd_map last_map map_add_def points_def)
qed

text \<open>
  C25. \<open>fb_draw_line\<close> with coordinates below 2 to the 29 returns; it has then drawn a path of
  adjacent points from one end to the other, inside their bounding box, clipped to the screen,
  and no other point has changed.
\<close>

theorem draw_line_connects:
  assumes "fb_ok f s" "x0 < 2 ^ 29" "y0 < 2 ^ 29" "x1 < 2 ^ 29" "y1 < 2 ^ 29"
  shows "\<exists>ps s'. fb_draw_line x0 y0 x1 y1 c s = Inr s' \<and> fb_ok f s' \<and>
    ps \<noteq> [] \<and> hd ps = (x0, y0) \<and> last ps = (x1, y1) \<and> successively adjacent ps \<and>
    (\<forall>p \<in> set ps. min x0 x1 \<le> fst p \<and> fst p \<le> max x0 x1 \<and> min y0 y1 \<le> snd p \<and> snd p \<le> max y0 y1) \<and>
    (\<forall>px py. px < unat (fb_width f) \<longrightarrow> py < unat (fb_height f) \<longrightarrow>
       picture s' (px, py) = (if (px, py) \<in> (\<lambda>q. (unat (fst q), unat (snd q))) ` set ps then Some (bytes32 c) else picture s (px, py)))"
  using assms by (rule draw_line_path)

section \<open>Circles\<close>

lemma fill_rect_offscreen:
  assumes "fb_width f \<le> x \<or> fb_height f \<le> y"
  shows "paints (fb_ok f) picture (fb_fill_rect x y w h c) Map.empty"
  by (rule paints_cong [OF paints_nothing]) (use assms in \<open>auto simp: fb_fill_rect_def fb_ok_def\<close>)

lemma fb_fits_width:
  assumes "fb_fits f" "fb_height f \<noteq> 0"
  shows "unat (fb_width f) < 2 ^ 30"
proof -
  have "0 < unat (fb_height f)" using assms(2) by (simp add: unat_gt_0)
  then have "4 * unat (fb_width f) \<le> unat (fb_height f) * unat (fb_pitch f)"
    using assms(1) by (auto simp: fb_fits_def intro: order_trans)
  then show ?thesis using assms(1) by (simp add: fb_fits_def)
qed

text \<open>A span of a filled circle is either drawn, clipped, or starts left of the screen and is dropped.\<close>

lemma span_paints:
  assumes "fb_fits f" "cx < 2 ^ 29" "0 \<le> r" "r < 2 ^ 29"
  shows "\<exists>g. paints (fb_ok f) picture (fb_fill_rect (cx - word_of_int r) y (2 * word_of_int r + 1) 1 c) g"
proof (cases "fb_height f \<le> y")
  case True
  then show ?thesis using fill_rect_offscreen by blast
next
  case False
  define k :: u32 where "k = word_of_int r"
  have uk: "unat k < 2 ^ 29" "unat cx < 2 ^ 29"
  proof -
    have "uint k = r" using assms(3,4) unfolding k_def by (simp only: uint_word_of_int) simp
    then have "unat k = nat r" by (simp add: unat_eq_nat_uint)
    then show "unat k < 2 ^ 29" using assms(3,4) by simp
    show "unat cx < 2 ^ 29" using assms(2) by (simp add: word_less_nat_alt)
  qed
  have y: "unat y + unat (1 :: u32) < 2 ^ 32" using False unat_u32_less [of "fb_height f"] by (simp add: word_le_nat_alt)
  have w: "unat (2 * k + 1) = 2 * unat k + 1" using uk by (simp add: unat_word_ariths)
  show ?thesis
  proof (cases "k \<le> cx")
    case True
    then have "unat (cx - k) = unat cx - unat k" by (simp add: unat_sub)
    then have "unat (cx - k) + unat (2 * k + 1) < 2 ^ 32" using uk w by simp
    from fill_rect_total [OF this y] show ?thesis unfolding k_def by blast
  next
    case off: False
    have "fb_height f \<noteq> 0" using False by (auto simp: word_le_nat_alt)
    then have "unat (fb_width f) < 2 ^ 30" by (rule fb_fits_width [OF assms(1)])
    moreover have "unat (cx - k) = 2 ^ 32 + unat cx - unat k"
      using off uk by (simp add: unat_sub_if' word_le_nat_alt)
    ultimately have "fb_width f \<le> cx - k" using uk by (simp add: word_le_nat_alt)
    then show ?thesis using fill_rect_offscreen unfolding k_def by blast
  qed
qed

lemma circle_spans_paint:
  assumes "fb_fits f" "cx < 2 ^ 29" "0 \<le> r" "r < 2 ^ 29" "0 \<le> q" "q < 2 ^ 29"
  shows "\<exists>g. paints (fb_ok f) picture (circle_spans cx cy (word_of_int r) (word_of_int q) c) g"
proof -
  let ?r = "word_of_int r :: u32" and ?q = "word_of_int q :: u32"
  obtain g1 g2 where x: "paints (fb_ok f) picture (fb_fill_rect (cx - ?r) (cy - ?q) (2 * ?r + 1) 1 c) g1"
    "paints (fb_ok f) picture (fb_fill_rect (cx - ?r) (cy + ?q) (2 * ?r + 1) 1 c) g2"
    using span_paints [OF assms(1-4)] by meson
  obtain g3 g4 where y: "paints (fb_ok f) picture (fb_fill_rect (cx - ?q) (cy - ?r) (2 * ?q + 1) 1 c) g3"
    "paints (fb_ok f) picture (fb_fill_rect (cx - ?q) (cy + ?r) (2 * ?q + 1) 1 c) g4"
    using span_paints [OF assms(1,2,5,6)] by meson
  show ?thesis unfolding circle_spans_def
    by (rule exI, rule paints_seq [OF x(1) paints_seq [OF x(2) paints_seq [OF y]]])
qed

lemma circle_step_cases: "circle_step (e, x, y) = (e', x', y') \<Longrightarrow> (x' = x \<or> x' = x - 1) \<and> y' = y + 1"
  by (auto simp: circle_step_def Let_def split: if_splits)

lemma circle_loop_returns:
  assumes "fb_fits f" "cx < 2 ^ 29" "fb_ok f s" "- 1 \<le> r" "r < 2 ^ 29" "0 \<le> q" "q \<le> 2 ^ 29"
  shows "\<exists>s'. circle_loop cx cy c filled (e, word_of_int r, word_of_int q) s = Some (Inr s') \<and> fb_ok f s'"
  using assms(3-)
proof (induction "nat (r - q + 1)" arbitrary: e r q s rule: less_induct)
  case less
  have rq: "sint (word_of_int r :: int32) = r" "sint (word_of_int q :: int32) = q"
    using less.prems by (intro sint_bounded; simp)+
  show ?case
  proof (cases "q \<le> r")
    case False
    then show ?thesis using less.prems(1) by (subst circle_loop.simps) (simp add: rq)
  next
    case True
    let ?draw = "if filled then circle_spans cx cy (word_of_int r) (word_of_int q) c
      else put_pixels (circle_points cx cy (word_of_int r) (word_of_int q)) c"
    have "\<exists>g. paints (fb_ok f) picture ?draw g"
    proof (cases filled)
      case f: True
      have "\<exists>g. paints (fb_ok f) picture (circle_spans cx cy (word_of_int r) (word_of_int q) c) g"
        using True less.prems by (intro circle_spans_paint [OF assms(1,2)]) simp_all
      then show ?thesis by (simp only: f if_True)
    next
      case f: False
      show ?thesis by (rule exI) (simp only: f if_False, rule put_pixels_paints)
    qed
    then obtain g where "paints (fb_ok f) picture ?draw g" ..
    from paintsD [OF this less.prems(1)] obtain s1 where s1: "?draw s = Inr s1" "fb_ok f s1" by (elim exE conjE)
    obtain e' x' y' where st: "circle_step (e, word_of_int r, word_of_int q) = (e', x', y')"
      by (cases "circle_step (e, word_of_int r, word_of_int q)") blast
    obtain r' where r': "x' = word_of_int r'" "r' = r \<or> r' = r - 1"
    proof -
      have "x' = word_of_int r \<or> x' = word_of_int (r - 1)" using circle_step_cases [OF st] by auto
      then show thesis using that by blast
    qed
    have y': "y' = word_of_int (q + 1)" using circle_step_cases [OF st] by simp
    have "\<exists>s'. circle_loop cx cy c filled (e', word_of_int r', word_of_int (q + 1)) s1 = Some (Inr s') \<and> fb_ok f s'"
      using r'(2) True less.prems s1(2) by (intro less.hyps) auto
    then show ?thesis
      using True s1(1) st r'(1) y' by (subst circle_loop.simps) (cases filled; simp add: rq)
  qed
qed

text \<open>
  Drawing a circle, filled or not, with centre and radius below 2 to the 29 returns without a
  fault.
\<close>

lemma draw_circle_returns:
  assumes "fb_ok f s" "cx < 2 ^ 29" "radius < 2 ^ 29"
  shows "\<exists>s'. fb_draw_circle cx cy radius c filled s = Inr s' \<and> fb_ok f s'"
proof -
  have f: "fb_fits f" using assms(1) by (simp add: fb_ok_def)
  have r: "radius = word_of_int (uint radius)" "uint radius < 2 ^ 29" "0 \<le> uint radius"
    using assms(3) by (simp_all add: word_less_def)
  obtain s' where "circle_loop cx cy c filled (0, radius, 0) s = Some (Inr s')" "fb_ok f s'"
    using circle_loop_returns [OF f assms(2,1), of "uint radius" 0 cy c filled 0] r by auto
  then show ?thesis using assms(1) f by (simp add: fb_draw_circle_def ended_def fb_ready_def fb_ok_def fb_fits_def)
qed

section \<open>Scrolling and buffers\<close>

lemma scroll_sizes:
  fixes lines :: u32
  assumes "fb_fits f"
  shows "unat (ucast (fb_height f * fb_pitch f) :: u64) = unat (fb_height f) * unat (fb_pitch f)"
    and "unat (ucast lines * ucast (fb_pitch f) :: u64) = unat lines * unat (fb_pitch f)"
proof -
  have c: "unat (ucast (a :: u32) :: u64) = unat a" for a
    using unat_u32_less [of a] by (simp add: unsigned_ucast_eq take_bit_nat_eq_self_iff)
  show "unat (ucast (fb_height f * fb_pitch f) :: u64) = unat (fb_height f) * unat (fb_pitch f)"
    using assms by (simp add: c unat_word_ariths fb_fits_def)
  have "unat lines * unat (fb_pitch f) < 2 ^ 32 * 2 ^ 32"
    using unat_u32_less [of lines] unat_u32_less [of "fb_pitch f"] by (intro mult_strict_mono) simp_all
  then show "unat (ucast lines * ucast (fb_pitch f) :: u64) = unat lines * unat (fb_pitch f)"
    by (simp add: unat_word_ariths c)
qed

lemma scroll_pixel:
  assumes "length bs = h * p" "k \<le> h" "q * p + 4 * x + 4 \<le> Suc q * p" "q < h"
  shows "take 4 (drop (q * p + 4 * x) (take ((h - k) * p) (drop (k * p) bs) @ replicate (k * p) 0)) =
    (if q + k < h then take 4 (drop ((q + k) * p + 4 * x) bs) else [0, 0, 0, 0])"
proof (cases "q + k < h")
  case True
  have "Suc q * p \<le> (h - k) * p" using True by (intro mult_le_mono1) simp
  then have le: "q * p + 4 * x + 4 \<le> (h - k) * p" using assms(3) by linarith
  have "(h - k) * p + k * p = h * p" using assms(2) by (simp add: distrib_right [symmetric])
  then show ?thesis
    using True le assms(1) by (simp add: drop_take min_def) (simp add: algebra_simps)
next
  case False
  define A where "A = take ((h - k) * p) (drop (k * p) bs)"
  have sum: "(h - k) * p + k * p = h * p" using assms(2) by (simp add: distrib_right [symmetric])
  then have A: "length A = (h - k) * p" using assms(1) by (simp add: A_def min_def)
  have le: "(h - k) * p \<le> q * p" using False by (intro mult_le_mono1) simp
  have "Suc q * p \<le> h * p" using assms(4) by (intro mult_le_mono1) simp
  then have "4 \<le> k * p - (q * p + 4 * x - (h - k) * p)" using assms(3) le sum by linarith
  moreover have "drop (q * p + 4 * x) (A @ replicate (k * p) 0) = replicate (k * p - (q * p + 4 * x - length A)) 0"
  proof -
    have "length A \<le> q * p + 4 * x" unfolding A using le by linarith
    then show ?thesis by (simp only: drop_append drop_all append_Nil drop_replicate)
  qed
  ultimately have "take 4 (drop (q * p + 4 * x) (A @ replicate (k * p) 0)) = replicate 4 0"
    unfolding A by (simp only: take_replicate min_absorb1)
  then show ?thesis using False by (simp add: A_def numeral_eq_Suc)
qed

text \<open>
  Scrolling by at most the height moves every row up and clears the rows below; scrolling
  by more faults, as the length of the move wraps around.
\<close>

theorem scroll_moves_rows:
  assumes "fb_ok f s" "lines \<noteq> 0"
  shows "if unat lines \<le> unat (fb_height f)
    then \<exists>s'. fb_scroll lines s = Inr s' \<and> fb_ok f s' \<and>
      (\<forall>px py. px < unat (fb_width f) \<longrightarrow> py < unat (fb_height f) \<longrightarrow>
         picture s' (px, py) = (if py + unat lines < unat (fb_height f) then picture s (px, py + unat lines) else Some [0, 0, 0, 0]))
    else fb_pitch f \<noteq> 0 \<longrightarrow> fb_scroll lines s = Inl OutOfBounds"
proof -
  let ?h = "unat (fb_height f)" and ?p = "unat (fb_pitch f)" and ?k = "unat lines"
  let ?t = "ucast (fb_height f * fb_pitch f) :: u64" and ?n = "ucast lines * ucast (fb_pitch f) :: u64"
  have f: "fb_fits f" "fb s = f" and len: "length (surface s) = ?h * ?p" using assms(1) by (simp_all add: fb_ok_def)
  note sz = scroll_sizes [OF f(1)]
  have eq: "fb_scroll lines s = bindR (scroll_bytes ?t ?n (surface s)) (\<lambda>bs. Inr (set_surface bs s))"
    using assms f by (auto simp: fb_scroll_def fb_ready_def fb_fits_def fb_ok_def surface_def set_surface_def)
  show ?thesis
  proof (cases "?k \<le> ?h")
    case True
    have "?k * ?p \<le> ?h * ?p" using True by (rule mult_le_mono1)
    then have "?n \<le> ?t" unfolding word_le_nat_alt sz .
    then have d: "unat (?t - ?n) = (?h - ?k) * ?p" by (simp only: unat_sub sz diff_mult_distrib)
    have sum: "?k * ?p + (?h - ?k) * ?p = ?h * ?p" using True by (simp add: distrib_right [symmetric])
    let ?bs = "take ((?h - ?k) * ?p) (drop (?k * ?p) (surface s)) @ replicate (?k * ?p) 0"
    have "fb_scroll lines s = Inr (set_surface ?bs s)"
      unfolding eq scroll_bytes_def Let_def d sz using len sum by (simp add: add.commute)
    moreover have "length ?bs = length (surface s)" using len sum by (simp add: min_def)
    moreover have "picture (set_surface ?bs s) (px, py) =
        (if py + ?k < ?h then picture s (px, py + ?k) else Some [0, 0, 0, 0])" if p: "px < unat (fb_width f)" "py < ?h" for px py
    proof -
      have "py * ?p + 4 * px + 4 \<le> Suc py * ?p" using p f(1) by (simp add: fb_fits_def)
      from scroll_pixel [OF len True this p(2)] show ?thesis
        using p by (simp add: picture_def points_def offset_def f(2))
    qed
    ultimately show ?thesis using True assms(1) by (intro if_P [THEN iffD2] exI [of _ "set_surface ?bs s"]) simp_all
  next
    case False
    have "fb_scroll lines s = Inl OutOfBounds" if "fb_pitch f \<noteq> 0"
    proof -
      have "0 < ?p" using that by (simp add: unat_gt_0)
      then have "?h * ?p < ?k * ?p" using False by simp
      then have "length (surface s) < unat ?n" unfolding len sz .
      then show ?thesis by (simp add: eq scroll_bytes_def Let_def)
    qed
    then show ?thesis using False by simp
  qed
qed

text \<open>After a swap the screen shows the back buffer, and drawing goes on there.\<close>

lemma swap_shows_back_buffer:
  assumes "fb_ok f s" "use_double_buffer s" "length (screen s) = unat (fb_height f) * unat (fb_pitch f)"
  shows "fb_swap_buffers s = Inr (s\<lparr>screen := surface s\<rparr>) \<and> fb_ok f (s\<lparr>screen := surface s\<rparr>) \<and>
    picture (s\<lparr>screen := surface s\<rparr>) = picture s"
proof -
  obtain b where b: "back_buffer s = Some b" "length b = unat (fb_height f) * unat (fb_pitch f)" "fb s = f"
    using assms(1,2) by (auto simp: fb_ok_def surface_def)
  have "unat (fb_height f * fb_pitch f) = unat (fb_height f) * unat (fb_pitch f)"
    using assms(1) by (simp add: fb_ok_def fb_fits_def unat_word_ariths)
  then show ?thesis using b assms by (simp add: fb_swap_buffers_def surface_def fb_ok_def picture_def fun_eq_iff)
qed

section \<open>A small screen\<close>

definition fb_demo :: fbst where
  "fb_demo = \<lparr>fb = \<lparr>fb_addr = 0xE0000000, fb_pitch = 16, fb_width = 4, fb_height = 2, fb_bpp = 32\<rparr>, back_buffer = None,
     use_double_buffer = False, screen = replicate 32 0, fb_heap = (\<lambda>_. 0), fb_allocs = []\<rparr>"

lemma fb_demo_ok: "fb_ok (fb fb_demo) fb_demo"
  by (simp add: fb_ok_def fb_fits_def fb_demo_def surface_def)

theorem fill_rect_picture_witness:
  "\<exists>s'. fb_fill_rect 1 0 9 1 0xFF fb_demo = Inr s' \<and> picture s' (3, 0) = Some (bytes32 0xFF) \<and>
    picture s' (3, 1) = picture fb_demo (3, 1)"
proof -
  have d: "unat (fb_width (fb fb_demo)) = 4" "unat (fb_height (fb fb_demo)) = 2" by (simp_all add: fb_demo_def)
  obtain s' where s': "fb_fill_rect 1 0 9 1 0xFF fb_demo = Inr s'"
    "\<forall>px py. px < 4 \<longrightarrow> py < 2 \<longrightarrow> picture s' (px, py) =
      (if unat (1 :: u32) \<le> px \<and> px < unat (1 :: u32) + unat (9 :: u32) \<and> unat (0 :: u32) \<le> py \<and> py < unat (0 :: u32) + unat (1 :: u32)
       then Some (bytes32 0xFF) else picture fb_demo (px, py))"
    using fill_rect_picture [OF fb_demo_ok, where x = 1 and w = 9 and y = 0 and h = 1 and c = "0xFF"] unfolding d by auto
  show ?thesis using s'(1) s'(2) [rule_format, of 3 0] s'(2) [rule_format, of 3 1] by auto
qed

theorem fill_rect_wrap_witness: "fb_fill_rect 2 0 0xFFFFFFFF 1 0xFF fb_demo = Inl OutOfBounds"
  by (rule fill_rect_wrap [OF fb_demo_ok]) (simp_all add: fb_demo_def)

theorem draw_line_connects_witness:
  "\<exists>s'. fb_draw_line 3 1 0 0 0xFF fb_demo = Inr s' \<and> picture s' (3, 1) = Some (bytes32 0xFF) \<and> picture s' (0, 0) = Some (bytes32 0xFF)"
proof -
  have d: "unat (fb_width (fb fb_demo)) = 4" "unat (fb_height (fb fb_demo)) = 2" by (simp_all add: fb_demo_def)
  obtain ps :: "(u32 \<times> u32) list" and s' where s': "fb_draw_line 3 1 0 0 0xFF fb_demo = Inr s'" "ps \<noteq> []" "hd ps = (3, 1)" "last ps = (0, 0)"
    "\<forall>px py. px < 4 \<longrightarrow> py < 2 \<longrightarrow> picture s' (px, py) =
      (if (px, py) \<in> (\<lambda>q. (unat (fst q), unat (snd q))) ` set ps then Some (bytes32 0xFF) else picture fb_demo (px, py))"
  proof -
    have "(3 :: u32) < 2 ^ 29" "(1 :: u32) < 2 ^ 29" "(0 :: u32) < 2 ^ 29" by simp_all
    from draw_line_connects [OF fb_demo_ok this(1,2,3,3), of "0xFF"] show thesis unfolding d by (elim exE conjE) (rule that)
  qed
  have m: "(3, 1) \<in> set ps" "(0, 0) \<in> set ps" using s'(2-4) hd_in_set last_in_set by metis+
  have "(3, 1) \<in> (\<lambda>q. (unat (fst q), unat (snd q))) ` set ps" "(0, 0) \<in> (\<lambda>q. (unat (fst q), unat (snd q))) ` set ps"
    using imageI [OF m(1), of "\<lambda>q. (unat (fst q), unat (snd q))"] imageI [OF m(2), of "\<lambda>q. (unat (fst q), unat (snd q))"] by simp_all
  then show ?thesis using s'(1) s'(5) [rule_format, of 3 1] s'(5) [rule_format, of 0 0] by simp
qed

theorem scroll_moves_rows_witness:
  "(\<exists>s'. fb_scroll 1 fb_demo = Inr s' \<and> picture s' (2, 1) = Some [0, 0, 0, 0]) \<and> fb_scroll 3 fb_demo = Inl OutOfBounds"
proof
  have d: "unat (fb_width (fb fb_demo)) = 4" "unat (fb_height (fb fb_demo)) = 2" "fb_pitch (fb fb_demo) \<noteq> 0"
    by (simp_all add: fb_demo_def)
  show "\<exists>s'. fb_scroll 1 fb_demo = Inr s' \<and> picture s' (2, 1) = Some [0, 0, 0, 0]"
    using scroll_moves_rows [OF fb_demo_ok, of 1] unfolding d by auto
  show "fb_scroll 3 fb_demo = Inl OutOfBounds"
    using scroll_moves_rows [OF fb_demo_ok, of 3] d by simp
qed

end
