(* ===== verification/Mira_Text.thy ===== *)
theory Mira_Text
  imports Mira_Fb
begin

text \<open>
  The text renderer, \<open>ui/layout/text.c\<close>: the built-in font, glyphs drawn pixel by pixel through
  \<open>fb_put_pixel\<close>, strings with line breaks, wrapped strings and the text metrics. A character
  above 127 is a negative \<open>char\<close> in the source and not drawn, like a control character.
\<close>

section \<open>Fonts\<close>

record font_glyph =
  gl_width :: u32
  gl_height :: u32
  gl_data :: "u8 list option"

record font =
  font_name :: string
  default_width :: u32
  default_height :: u32
  glyphs :: "font_glyph list"

text \<open>The static variables: the current font, null at the start, and its size.\<close>

record text_state =
  current_font :: "font option"
  current_font_width :: u32
  current_font_height :: u32

definition text_boot :: text_state where
  "text_boot = \<lparr>current_font = None, current_font_width = 8, current_font_height = 16\<rparr>"

text \<open>
  The initialiser of the font table, row by row as in the source. C fills missing bytes of a
  row, and the missing last row, with zeros.
\<close>

definition font_rows :: "u8 list list" where
  "font_rows =
    [[0, 0, 0, 0, 0, 0, 0, 0, 0, 0, 0, 0, 0, 0, 0, 0],
     [0, 0, 0x18, 0x3C, 0x3C, 0x3C, 0x18, 0x18, 0x18, 0, 0x18, 0x18, 0, 0, 0, 0],
     [0, 0x66, 0x66, 0x66, 0x24, 0, 0, 0, 0, 0, 0, 0, 0, 0, 0, 0],
     [0, 0x36, 0x36, 0x7F, 0x36, 0x36, 0x36, 0x7F, 0x36, 0x36, 0, 0, 0, 0, 0],
     [0x0C, 0x3E, 0x63, 0x60, 0x3C, 0x06, 0x03, 0x63, 0x3E, 0x0C, 0, 0, 0, 0, 0],
     [0, 0x63, 0x63, 0x36, 0x1C, 0x08, 0x1C, 0x36, 0x63, 0x63, 0, 0, 0, 0, 0],
     [0, 0x1C, 0x36, 0x36, 0x1C, 0x3B, 0x66, 0x66, 0x3B, 0x06, 0x03, 0, 0, 0, 0],
     [0, 0x06, 0x06, 0x04, 0, 0, 0, 0, 0, 0, 0, 0, 0, 0, 0, 0],
     [0, 0x18, 0x0C, 0x06, 0x06, 0x06, 0x06, 0x06, 0x06, 0x0C, 0x18, 0, 0, 0, 0],
     [0, 0x06, 0x0C, 0x18, 0x18, 0x18, 0x18, 0x18, 0x18, 0x0C, 0x06, 0, 0, 0, 0],
     [0, 0, 0x66, 0x3C, 0xFF, 0x3C, 0x66, 0, 0, 0, 0, 0, 0, 0, 0, 0],
     [0, 0, 0x0C, 0x0C, 0x3F, 0x0C, 0x0C, 0, 0, 0, 0, 0, 0, 0, 0, 0],
     [0, 0, 0, 0, 0, 0, 0, 0, 0, 0x06, 0x06, 0x0C, 0, 0, 0, 0],
     [0, 0, 0, 0, 0x3F, 0, 0, 0, 0, 0, 0, 0, 0, 0, 0, 0],
     [0, 0, 0, 0, 0, 0, 0, 0, 0, 0, 0x06, 0, 0, 0, 0, 0],
     [0, 0x60, 0x60, 0x30, 0x18, 0x0C, 0x06, 0x03, 0, 0, 0, 0, 0, 0, 0, 0],
     [0, 0x3C, 0x66, 0x63, 0x6B, 0x6B, 0x63, 0x66, 0x3C, 0, 0, 0, 0, 0, 0, 0],
     [0, 0x0C, 0x1C, 0x0C, 0x0C, 0x0C, 0x0C, 0x0C, 0x3F, 0, 0, 0, 0, 0, 0, 0],
     [0, 0x3C, 0x66, 0x06, 0x0C, 0x18, 0x30, 0x60, 0x7E, 0, 0, 0, 0, 0, 0, 0],
     [0x3C, 0x66, 0x06, 0x06, 0x1C, 0x06, 0x06, 0x66, 0x3C, 0, 0, 0, 0, 0, 0, 0],
     [0x0C, 0x1C, 0x2C, 0x6C, 0xCC, 0xFE, 0x0C, 0x0C, 0x1F, 0, 0, 0, 0, 0, 0, 0],
     [0x7E, 0x60, 0x60, 0x7C, 0x06, 0x06, 0x06, 0x66, 0x3C, 0, 0, 0, 0, 0, 0, 0],
     [0x1C, 0x30, 0x60, 0x7C, 0x66, 0x66, 0x66, 0x66, 0x3C, 0, 0, 0, 0, 0, 0, 0],
     [0x7E, 0x06, 0x06, 0x0C, 0x18, 0x30, 0x30, 0x30, 0x30, 0, 0, 0, 0, 0, 0, 0],
     [0x3C, 0x66, 0x66, 0x66, 0x3C, 0x66, 0x66, 0x66, 0x3C, 0, 0, 0, 0, 0, 0, 0],
     [0x3C, 0x66, 0x66, 0x66, 0x3E, 0x06, 0x06, 0x0C, 0x38, 0, 0, 0, 0, 0, 0, 0],
     [0, 0x06, 0x06, 0, 0x06, 0x06, 0, 0, 0, 0, 0, 0, 0, 0, 0, 0],
     [0, 0x06, 0x06, 0, 0x06, 0x06, 0x06, 0x06, 0x0C, 0, 0, 0, 0, 0, 0, 0],
     [0, 0x18, 0x0C, 0x06, 0x03, 0x06, 0x0C, 0x18, 0, 0, 0, 0, 0, 0, 0, 0],
     [0, 0, 0x3F, 0, 0x3F, 0, 0, 0, 0, 0, 0, 0, 0, 0, 0, 0],
     [0, 0x06, 0x0C, 0x18, 0x30, 0x18, 0x0C, 0x06, 0, 0, 0, 0, 0, 0, 0, 0],
     [0x3C, 0x66, 0x06, 0x0C, 0x18, 0x18, 0, 0x18, 0x18, 0, 0, 0, 0, 0, 0, 0],
     [0x3C, 0x66, 0x6E, 0x6A, 0x6E, 0x60, 0x62, 0x66, 0x3C, 0, 0, 0, 0, 0, 0, 0],
     [0x18, 0x3C, 0x66, 0x66, 0x7E, 0x66, 0x66, 0x66, 0x66, 0, 0, 0, 0, 0, 0, 0],
     [0x7C, 0x66, 0x66, 0x7C, 0x66, 0x66, 0x66, 0x66, 0x7C, 0, 0, 0, 0, 0, 0, 0],
     [0x3C, 0x66, 0x60, 0x60, 0x60, 0x60, 0x60, 0x66, 0x3C, 0, 0, 0, 0, 0, 0, 0],
     [0x78, 0x6C, 0x66, 0x66, 0x66, 0x66, 0x66, 0x6C, 0x78, 0, 0, 0, 0, 0, 0, 0],
     [0x7E, 0x60, 0x60, 0x7C, 0x60, 0x60, 0x60, 0x60, 0x7E, 0, 0, 0, 0, 0, 0, 0],
     [0x7E, 0x60, 0x60, 0x7C, 0x60, 0x60, 0x60, 0x60, 0x60, 0, 0, 0, 0, 0, 0, 0],
     [0x3C, 0x66, 0x60, 0x60, 0x6E, 0x66, 0x66, 0x66, 0x3C, 0, 0, 0, 0, 0, 0, 0],
     [0x66, 0x66, 0x66, 0x7E, 0x66, 0x66, 0x66, 0x66, 0x66, 0, 0, 0, 0, 0, 0, 0],
     [0x3C, 0x18, 0x18, 0x18, 0x18, 0x18, 0x18, 0x18, 0x3C, 0, 0, 0, 0, 0, 0, 0],
     [0x1E, 0x0C, 0x0C, 0x0C, 0x0C, 0x0C, 0xCC, 0xCC, 0x78, 0, 0, 0, 0, 0, 0, 0],
     [0x66, 0x66, 0x6C, 0x78, 0x78, 0x6C, 0x66, 0x66, 0x66, 0, 0, 0, 0, 0, 0, 0],
     [0x60, 0x60, 0x60, 0x60, 0x60, 0x60, 0x60, 0x60, 0x7E, 0, 0, 0, 0, 0, 0, 0],
     [0x63, 0x77, 0x7F, 0x6B, 0x63, 0x63, 0x63, 0x63, 0x63, 0, 0, 0, 0, 0, 0, 0],
     [0x66, 0x76, 0x7E, 0x7E, 0x6E, 0x66, 0x66, 0x66, 0x66, 0, 0, 0, 0, 0, 0, 0],
     [0x3C, 0x66, 0x66, 0x66, 0x66, 0x66, 0x66, 0x66, 0x3C, 0, 0, 0, 0, 0, 0, 0],
     [0x7C, 0x66, 0x66, 0x66, 0x7C, 0x60, 0x60, 0x60, 0x60, 0, 0, 0, 0, 0, 0, 0],
     [0x3C, 0x66, 0x66, 0x66, 0x66, 0x66, 0x6A, 0x6C, 0x36, 0, 0, 0, 0, 0, 0, 0],
     [0x7C, 0x66, 0x66, 0x66, 0x7C, 0x6C, 0x66, 0x66, 0x66, 0, 0, 0, 0, 0, 0, 0],
     [0x3C, 0x66, 0x60, 0x30, 0x1C, 0x06, 0x06, 0x66, 0x3C, 0, 0, 0, 0, 0, 0, 0],
     [0x7E, 0x18, 0x18, 0x18, 0x18, 0x18, 0x18, 0x18, 0x18, 0, 0, 0, 0, 0, 0, 0],
     [0x66, 0x66, 0x66, 0x66, 0x66, 0x66, 0x66, 0x66, 0x3C, 0, 0, 0, 0, 0, 0, 0],
     [0x66, 0x66, 0x66, 0x66, 0x66, 0x66, 0x66, 0x3C, 0x18, 0, 0, 0, 0, 0, 0, 0],
     [0x63, 0x63, 0x63, 0x6B, 0x6B, 0x7F, 0x77, 0x63, 0x63, 0, 0, 0, 0, 0, 0, 0],
     [0x66, 0x66, 0x3C, 0x18, 0x18, 0x3C, 0x66, 0x66, 0x66, 0, 0, 0, 0, 0, 0, 0],
     [0x66, 0x66, 0x66, 0x3C, 0x18, 0x18, 0x18, 0x18, 0x18, 0, 0, 0, 0, 0, 0, 0],
     [0x7E, 0x06, 0x0C, 0x18, 0x30, 0x60, 0x60, 0x60, 0x7E, 0, 0, 0, 0, 0, 0, 0],
     [0x3C, 0x0C, 0x0C, 0x0C, 0x0C, 0x0C, 0x0C, 0x0C, 0x3C, 0, 0, 0, 0, 0, 0, 0],
     [0x60, 0x60, 0x30, 0x18, 0x0C, 0x06, 0x03, 0, 0, 0, 0, 0, 0, 0, 0, 0],
     [0x3C, 0x0C, 0x0C, 0x0C, 0x0C, 0x0C, 0x0C, 0x0C, 0x3C, 0, 0, 0, 0, 0, 0, 0],
     [0x10, 0x38, 0x6C, 0xC6, 0, 0, 0, 0, 0, 0, 0, 0, 0, 0, 0, 0],
     [0, 0, 0, 0, 0, 0, 0, 0, 0, 0, 0, 0, 0, 0xFF, 0, 0],
     [0x30, 0x18, 0x0C, 0, 0, 0, 0, 0, 0, 0, 0, 0, 0, 0, 0, 0],
     [0, 0, 0, 0x3C, 0x06, 0x3E, 0x66, 0x3E, 0, 0, 0, 0, 0, 0, 0, 0],
     [0x60, 0x60, 0x7C, 0x66, 0x66, 0x66, 0x66, 0x7C, 0x60, 0x60, 0, 0, 0, 0, 0],
     [0, 0, 0x3C, 0x66, 0x60, 0x60, 0x66, 0x3C, 0, 0, 0, 0, 0, 0, 0, 0],
     [0x06, 0x06, 0x3E, 0x66, 0x66, 0x66, 0x66, 0x3E, 0x06, 0x06, 0, 0, 0, 0, 0],
     [0, 0, 0x3C, 0x66, 0x7E, 0x60, 0x66, 0x3C, 0, 0, 0, 0, 0, 0, 0, 0],
     [0x1C, 0x30, 0x30, 0x7C, 0x30, 0x30, 0x30, 0x30, 0, 0, 0, 0, 0, 0, 0, 0],
     [0, 0, 0x3E, 0x66, 0x66, 0x3E, 0x06, 0x66, 0x3C, 0, 0, 0, 0, 0, 0, 0],
     [0x60, 0x60, 0x7C, 0x66, 0x66, 0x66, 0x66, 0x66, 0, 0, 0, 0, 0, 0, 0, 0],
     [0x18, 0, 0x38, 0x18, 0x18, 0x18, 0x18, 0x3C, 0, 0, 0, 0, 0, 0, 0, 0],
     [0x0C, 0, 0x1C, 0x0C, 0x0C, 0x0C, 0xCC, 0xCC, 0x78, 0, 0, 0, 0, 0, 0, 0],
     [0x60, 0x60, 0x66, 0x6C, 0x78, 0x78, 0x6C, 0x66, 0, 0, 0, 0, 0, 0, 0, 0],
     [0x38, 0x18, 0x18, 0x18, 0x18, 0x18, 0x18, 0x3C, 0, 0, 0, 0, 0, 0, 0, 0],
     [0, 0, 0x76, 0x7F, 0x6B, 0x6B, 0x63, 0x63, 0, 0, 0, 0, 0, 0, 0, 0],
     [0, 0, 0x7C, 0x66, 0x66, 0x66, 0x66, 0x66, 0, 0, 0, 0, 0, 0, 0, 0],
     [0, 0, 0x3C, 0x66, 0x66, 0x66, 0x66, 0x3C, 0, 0, 0, 0, 0, 0, 0, 0],
     [0, 0, 0x7C, 0x66, 0x66, 0x7C, 0x60, 0x60, 0, 0, 0, 0, 0, 0, 0, 0],
     [0, 0, 0x3E, 0x66, 0x66, 0x66, 0x3E, 0x06, 0x06, 0, 0, 0, 0, 0, 0, 0],
     [0, 0, 0x6E, 0x76, 0x60, 0x60, 0x60, 0, 0, 0, 0, 0, 0, 0, 0, 0],
     [0, 0, 0x3E, 0x60, 0x3C, 0x06, 0x7C, 0, 0, 0, 0, 0, 0, 0, 0, 0],
     [0x30, 0x30, 0x7C, 0x30, 0x30, 0x30, 0x1C, 0, 0, 0, 0, 0, 0, 0, 0, 0],
     [0, 0, 0x66, 0x66, 0x66, 0x66, 0x3E, 0x06, 0x3C, 0, 0, 0, 0, 0, 0, 0],
     [0, 0, 0x66, 0x66, 0x66, 0x66, 0x3C, 0x18, 0x18, 0, 0, 0, 0, 0, 0, 0],
     [0, 0, 0x63, 0x6B, 0x6B, 0x7F, 0x36, 0, 0, 0, 0, 0, 0, 0, 0, 0],
     [0, 0, 0x66, 0x3C, 0x18, 0x3C, 0x66, 0, 0, 0, 0, 0, 0, 0, 0, 0],
     [0, 0, 0x66, 0x66, 0x66, 0x3E, 0x06, 0x66, 0x3C, 0, 0, 0, 0, 0, 0, 0],
     [0, 0, 0x7E, 0x0C, 0x18, 0x30, 0x7E, 0, 0, 0, 0, 0, 0, 0, 0, 0],
     [0x0E, 0x18, 0x18, 0x70, 0x18, 0x18, 0x18, 0x0E, 0, 0, 0, 0, 0, 0, 0, 0],
     [0x18, 0x18, 0x18, 0, 0x18, 0x18, 0x18, 0, 0, 0, 0, 0, 0, 0, 0, 0],
     [0x70, 0x18, 0x18, 0x0E, 0x18, 0x18, 0x18, 0x70, 0, 0, 0, 0, 0, 0, 0, 0],
     [0x6C, 0x92, 0, 0, 0, 0, 0, 0, 0, 0, 0, 0, 0, 0, 0, 0]]"

definition default_font_data :: "u8 list list" where
  "default_font_data = map (\<lambda>r. r @ replicate (16 - length r) 0) (font_rows @ replicate (96 - length font_rows) [])"

definition default_font :: font where
  "default_font = \<lparr>font_name = ''default'', default_width = 8, default_height = 16,
     glyphs = map (\<lambda>d. \<lparr>gl_width = 8, gl_height = 16, gl_data = Some d\<rparr>) default_font_data\<rparr>"

definition text_set_font :: "font option \<Rightarrow> text_state \<Rightarrow> text_state" where
  "text_set_font fo t =
     (case fo of None \<Rightarrow> t
      | Some x \<Rightarrow> t\<lparr>current_font := Some x, current_font_width := default_width x, current_font_height := default_height x\<rparr>)"

definition text_get_font :: "text_state \<Rightarrow> font option" where "text_get_font t = current_font t"

definition text_init :: "text_state \<Rightarrow> text_state" where
  "text_init t = text_set_font (Some default_font) t"

section \<open>Drawing\<close>

definition glyph_bit :: "u8 \<Rightarrow> u32 \<Rightarrow> bool" where
  "glyph_bit bits col \<longleftrightarrow> bits AND drop_bit (unat (col mod 8)) 0x80 \<noteq> 0"

text \<open>The square of \<open>scale\<close> by \<open>scale\<close> pixels for one dot of a glyph.\<close>

definition draw_dot :: "u32 \<Rightarrow> u32 \<Rightarrow> u32 \<Rightarrow> u32 \<Rightarrow> fbst \<Rightarrow> fbst res" where
  "draw_dot x y scale color = for_up 0 scale (\<lambda>sy. for_up 0 scale (\<lambda>sx. fb_put_pixel (x + sx) (y + sy) color))"

definition draw_cell :: "u32 \<Rightarrow> u32 \<Rightarrow> u32 \<Rightarrow> u8 list \<Rightarrow> u32 \<Rightarrow> u32 \<Rightarrow> u32 \<Rightarrow> u32 \<Rightarrow> u32 \<Rightarrow> fbst \<Rightarrow> fbst res" where
  "draw_cell x y width data fg bg scale row col s =
     (let byte_idx = row * ((width + 7) div 8) + col div 8
      in if unat byte_idx < length data
         then (if glyph_bit (data ! unat byte_idx) col then draw_dot (x + col * scale) (y + row * scale) scale fg s
               else if bg \<noteq> 0xFFFFFFFF then draw_dot (x + col * scale) (y + row * scale) scale bg s
               else Inr s)
         else Inl OutOfBounds)"

definition text_draw_glyph :: "u32 \<Rightarrow> u32 \<Rightarrow> font_glyph \<Rightarrow> u32 \<Rightarrow> u32 \<Rightarrow> u32 \<Rightarrow> fbst \<Rightarrow> fbst res" where
  "text_draw_glyph x y glyph fg bg scale s =
     (case gl_data glyph of
        None \<Rightarrow> Inr s
      | Some data \<Rightarrow>
          if scale = 0 then Inr s
          else for_up 0 (gl_height glyph) (\<lambda>row. for_up 0 (gl_width glyph) (draw_cell x y (gl_width glyph) data fg bg scale row)) s)"

definition text_draw_char_scaled :: "text_state \<Rightarrow> u32 \<Rightarrow> u32 \<Rightarrow> char \<Rightarrow> u32 \<Rightarrow> u32 \<Rightarrow> u32 \<Rightarrow> fbst \<Rightarrow> fbst res" where
  "text_draw_char_scaled t x y c fg bg scale s =
     (if of_char c < (32 :: nat) \<or> of_char c > (127 :: nat) then Inr s
      else case current_font t of
             None \<Rightarrow> Inl NullDeref
           | Some f \<Rightarrow> if of_char c - 32 < length (glyphs f) then text_draw_glyph x y (glyphs f ! (of_char c - 32)) fg bg scale s
                       else Inl OutOfBounds)"

definition text_draw_char :: "text_state \<Rightarrow> u32 \<Rightarrow> u32 \<Rightarrow> char \<Rightarrow> u32 \<Rightarrow> u32 \<Rightarrow> fbst \<Rightarrow> fbst res" where
  "text_draw_char t x y c fg bg s = text_draw_char_scaled t x y c fg bg 1 s"

primrec draw_chars :: "text_state \<Rightarrow> u32 \<Rightarrow> string \<Rightarrow> u32 \<Rightarrow> u32 \<Rightarrow> u32 \<Rightarrow> u32 \<Rightarrow> u32 \<Rightarrow> fbst \<Rightarrow> fbst res" where
  "draw_chars t x [] fg bg scale cx cy s = Inr s"
| "draw_chars t x (c # cs) fg bg scale cx cy s =
     (if c = CHR 0x0A then draw_chars t x cs fg bg scale x (cy + current_font_height t * scale) s
      else bindR (text_draw_char_scaled t cx cy c fg bg scale s)
             (draw_chars t x cs fg bg scale (cx + current_font_width t * scale) cy))"

definition text_draw_scaled :: "text_state \<Rightarrow> u32 \<Rightarrow> u32 \<Rightarrow> string \<Rightarrow> u32 \<Rightarrow> u32 \<Rightarrow> u32 \<Rightarrow> fbst \<Rightarrow> fbst res" where
  "text_draw_scaled t x y str fg bg scale s = draw_chars t x str fg bg scale x y s"

definition text_draw :: "text_state \<Rightarrow> u32 \<Rightarrow> u32 \<Rightarrow> string \<Rightarrow> u32 \<Rightarrow> u32 \<Rightarrow> fbst \<Rightarrow> fbst res" where
  "text_draw t x y str fg bg s = text_draw_scaled t x y str fg bg 1 s"

primrec wrap_chars :: "text_state \<Rightarrow> u32 \<Rightarrow> u32 \<Rightarrow> string \<Rightarrow> u32 \<Rightarrow> u32 \<Rightarrow> u32 \<Rightarrow> u32 \<Rightarrow> fbst \<Rightarrow> fbst res" where
  "wrap_chars t x max_width [] fg bg cx cy s = Inr s"
| "wrap_chars t x max_width (c # cs) fg bg cx cy s =
     (if c = CHR 0x0A then wrap_chars t x max_width cs fg bg x (cy + current_font_height t * 1) s
      else let char_width = current_font_width t * 1;
               (cx1, cy1) = (if cx + char_width > x + max_width then (x, cy + current_font_height t * 1) else (cx, cy))
           in bindR (text_draw_char_scaled t cx1 cy1 c fg bg 1 s) (wrap_chars t x max_width cs fg bg (cx1 + char_width) cy1))"

definition text_draw_wrapped :: "text_state \<Rightarrow> u32 \<Rightarrow> u32 \<Rightarrow> u32 \<Rightarrow> string \<Rightarrow> u32 \<Rightarrow> u32 \<Rightarrow> fbst \<Rightarrow> fbst res" where
  "text_draw_wrapped t x y max_width str fg bg s = wrap_chars t x max_width str fg bg x y s"

section \<open>Metrics\<close>

definition text_width :: "text_state \<Rightarrow> string option \<Rightarrow> u64" where
  "text_width t str =
     (case str of None \<Rightarrow> 0
      | Some cs \<Rightarrow> word_of_nat (length (takeWhile (\<lambda>c. c \<noteq> CHR 0x0A) cs)) * ucast (current_font_width t))"

definition text_width_char :: "text_state \<Rightarrow> char \<Rightarrow> u64" where
  "text_width_char t c = (if of_char c < (32 :: nat) \<or> of_char c > (127 :: nat) then 0 else ucast (current_font_width t))"

definition text_height :: "text_state \<Rightarrow> u64" where "text_height t = ucast (current_font_height t)"

section \<open>The built-in font\<close>

lemma font_rows_length: "length font_rows = 95" "\<forall>r \<in> set font_rows. length r \<le> 16"
  by (simp_all add: font_rows_def)

lemma default_font_glyphs:
  "length (glyphs default_font) = 96"
  "g \<in> set (glyphs default_font) \<Longrightarrow> gl_width g = 8 \<and> gl_height g = 16 \<and> (\<exists>d. gl_data g = Some d \<and> length d = 16)"
  using font_rows_length by (auto simp: default_font_def default_font_data_def)

lemma text_init_font [simp]:
  "current_font (text_init t) = Some default_font" "current_font_width (text_init t) = 8" "current_font_height (text_init t) = 16"
  by (simp_all add: text_init_def text_set_font_def default_font_def)

section \<open>Glyphs\<close>

text \<open>
  What a glyph puts at the point \<open>p\<close>: nothing outside its box, otherwise the foreground or the
  background for the dot that covers the point; the background \<open>0xFFFFFFFF\<close> is transparent.
\<close>

definition dot_color :: "u32 \<Rightarrow> u8 list \<Rightarrow> u32 \<Rightarrow> u32 \<Rightarrow> nat \<Rightarrow> nat \<Rightarrow> u32 option" where
  "dot_color width data fg bg row col =
     (if glyph_bit (data ! (row * ((unat width + 7) div 8) + col div 8)) (word_of_nat col) then Some fg
      else if bg \<noteq> 0xFFFFFFFF then Some bg else None)"

definition glyph_picture :: "point set \<Rightarrow> nat \<Rightarrow> nat \<Rightarrow> nat \<Rightarrow> nat \<Rightarrow> nat \<Rightarrow> (nat \<Rightarrow> nat \<Rightarrow> u32 option) \<Rightarrow> picture" where
  "glyph_picture scr x y w h k color = (\<lambda>p.
     if p \<in> scr \<and> x \<le> fst p \<and> (fst p - x) div k < w \<and> y \<le> snd p \<and> (snd p - y) div k < h
     then map_option bytes32 (color ((snd p - y) div k) ((fst p - x) div k)) else None)"

lemma in_cell: "0 < k \<Longrightarrow> x + n * k \<le> a \<and> a < x + n * k + k \<longleftrightarrow> x \<le> a \<and> (a - x) div k = n" for a k n x :: nat
proof -
  assume k: "0 < k"
  show ?thesis
  proof (cases "x \<le> a")
    case True
    then obtain b where b: "a = x + b" using le_Suc_ex by blast
    have "n * k \<le> b \<and> b < n * k + k \<longleftrightarrow> b div k = n"
      using k by (metis add.commute div_nat_eqI dividend_less_times_div div_times_less_eq_dividend mult.commute mult_Suc_right)
    then show ?thesis by (simp add: b)
  qed auto
qed

lemma draw_dot_paints:
  assumes "unat x + unat scale < 2 ^ 32" "unat y + unat scale < 2 ^ 32"
  shows "paints (fb_ok f) picture (draw_dot x y scale c)
    (\<lambda>p. if p \<in> points f \<and> unat y \<le> snd p \<and> snd p < unat y + unat scale \<and> unat x \<le> fst p \<and> fst p < unat x + unat scale
       then Some (bytes32 c) else None)"
  unfolding draw_dot_def by (rule fbc.block_paints [OF assms])

text \<open>A glyph whose data covers its box, drawn where no coordinate wraps.\<close>

definition glyph_ok :: "u32 \<Rightarrow> u32 \<Rightarrow> u8 list \<Rightarrow> bool" where
  "glyph_ok w h data \<longleftrightarrow> unat w + 7 < 2 ^ 32 \<and> length data = unat h * ((unat w + 7) div 8) \<and> length data < 2 ^ 32"

lemma glyph_index:
  assumes "glyph_ok w h data" "row < h" "col < w"
  shows "unat (row * ((w + 7) div 8) + col div 8) = unat row * ((unat w + 7) div 8) + unat col div 8"
    and "unat row * ((unat w + 7) div 8) + unat col div 8 < length data"
proof -
  let ?b = "(unat w + 7) div 8"
  define v where "v = (w + 7) div 8"
  have b: "unat v = ?b" using assms(1) unfolding v_def by (simp add: glyph_ok_def unat_div unat_word_ariths)
  have "unat col < unat w" "unat row < unat h" using assms(2,3) by (simp_all add: word_less_nat_alt)
  then have c: "unat col div 8 < ?b" by linarith
  have "Suc (unat row) * ?b \<le> unat h * ?b" using \<open>unat row < unat h\<close> by (intro mult_le_mono1) simp
  then show lt: "unat row * ?b + unat col div 8 < length data" using c assms(1) by (simp add: glyph_ok_def)
  then have "unat row * ?b + unat col div 8 < 2 ^ 32" using assms(1) by (simp add: glyph_ok_def)
  then show "unat (row * ((w + 7) div 8) + col div 8) = unat row * ?b + unat col div 8"
    unfolding v_def [symmetric] by (simp add: unat_word_ariths b unat_div)
qed

lemma scaled_coordinate:
  assumes "unat x + unat n * unat k < 2 ^ 32" "q < (n :: u32)"
  shows "unat (x + q * k) = unat x + unat q * unat k" "unat (x + q * k) + unat k < 2 ^ 32"
proof -
  have "Suc (unat q) * unat k \<le> unat n * unat k"
    using assms(2) by (intro mult_le_mono1) (simp add: word_less_nat_alt Suc_le_eq)
  then have le: "unat x + unat q * unat k + unat k < 2 ^ 32" using assms(1) by simp
  then show u: "unat (x + q * k) = unat x + unat q * unat k" by (simp add: unat_word_ariths)
  show "unat (x + q * k) + unat k < 2 ^ 32" unfolding u by (rule le)
qed

lemma draw_cell_paints:
  assumes g: "glyph_ok w h data" and rc: "row < h" "col < w" and k: "scale \<noteq> 0"
    and fit: "unat x + unat w * unat scale < 2 ^ 32" "unat y + unat h * unat scale < 2 ^ 32"
  shows "paints (fb_ok f) picture (draw_cell x y w data fg bg scale row col)
    (\<lambda>p. if p \<in> points f \<and> unat x \<le> fst p \<and> (fst p - unat x) div unat scale = unat col \<and>
        unat y \<le> snd p \<and> (snd p - unat y) div unat scale = unat row
      then map_option bytes32 (dot_color w data fg bg (unat row) (unat col)) else None)"
proof -
  have k0: "0 < unat scale" using k by (simp add: unat_gt_0)
  note xc = scaled_coordinate [OF fit(1) rc(2)] and yc = scaled_coordinate [OF fit(2) rc(1)]
  note gi = glyph_index [OF g rc]
  have dot: "paints (fb_ok f) picture (draw_dot (x + col * scale) (y + row * scale) scale c)
    (\<lambda>p. if p \<in> points f \<and> unat x \<le> fst p \<and> (fst p - unat x) div unat scale = unat col \<and>
        unat y \<le> snd p \<and> (snd p - unat y) div unat scale = unat row then Some (bytes32 c) else None)" for c
  proof (rule paints_cong [OF draw_dot_paints [OF xc(2) yc(2), of f c] refl])
    show "(\<lambda>p. if p \<in> points f \<and> unat (y + row * scale) \<le> snd p \<and> snd p < unat (y + row * scale) + unat scale \<and>
        unat (x + col * scale) \<le> fst p \<and> fst p < unat (x + col * scale) + unat scale then Some (bytes32 c) else None) =
      (\<lambda>p. if p \<in> points f \<and> unat x \<le> fst p \<and> (fst p - unat x) div unat scale = unat col \<and>
        unat y \<le> snd p \<and> (snd p - unat y) div unat scale = unat row then Some (bytes32 c) else None)"
      unfolding xc(1) yc(1) using in_cell [OF k0, of "unat x" "unat col"] in_cell [OF k0, of "unat y" "unat row"]
      by (intro ext if_cong refl) (metis (no_types, lifting))
  qed
  have cell: "draw_cell x y w data fg bg scale row col =
    (case dot_color w data fg bg (unat row) (unat col) of
       None \<Rightarrow> (\<lambda>s. Inr s) | Some c \<Rightarrow> draw_dot (x + col * scale) (y + row * scale) scale c)"
    using gi by (auto simp: draw_cell_def dot_color_def fun_eq_iff)
  show ?thesis
  proof (cases "dot_color w data fg bg (unat row) (unat col)")
    case None
    then show ?thesis unfolding cell by (intro paints_cong [OF paints_nothing]) (simp_all add: fun_eq_iff)
  next
    case (Some c)
    then show ?thesis unfolding cell Some using dot [of c] by (simp only: option.case option.map)
  qed
qed

lemma glyph_row_paints:
  assumes g: "glyph_ok w h data" and row: "row < h" and k: "scale \<noteq> 0"
    and fit: "unat x + unat w * unat scale < 2 ^ 32" "unat y + unat h * unat scale < 2 ^ 32"
  shows "paints (fb_ok f) picture (for_up 0 w (draw_cell x y w data fg bg scale row))
    (\<lambda>p. if p \<in> points f \<and> unat x \<le> fst p \<and> (fst p - unat x) div unat scale < unat w \<and>
        unat y \<le> snd p \<and> (snd p - unat y) div unat scale = unat row
      then map_option bytes32 (dot_color w data fg bg (unat row) ((fst p - unat x) div unat scale)) else None)"
proof (rule paints_for_up [where H = "\<lambda>q p. if p \<in> points f \<and> unat x \<le> fst p \<and> (fst p - unat x) div unat scale < unat q \<and>
        unat y \<le> snd p \<and> (snd p - unat y) div unat scale = unat row
      then map_option bytes32 (dot_color w data fg bg (unat row) ((fst p - unat x) div unat scale)) else None",
      OF draw_cell_paints [OF g row _ k fit]])
  fix q assume q: "q < w"
  show "(\<lambda>p. if p \<in> points f \<and> unat x \<le> fst p \<and> (fst p - unat x) div unat scale < unat (q + 1) \<and>
        unat y \<le> snd p \<and> (snd p - unat y) div unat scale = unat row
      then map_option bytes32 (dot_color w data fg bg (unat row) ((fst p - unat x) div unat scale)) else None) =
    (\<lambda>p. if p \<in> points f \<and> unat x \<le> fst p \<and> (fst p - unat x) div unat scale < unat q \<and>
        unat y \<le> snd p \<and> (snd p - unat y) div unat scale = unat row
      then map_option bytes32 (dot_color w data fg bg (unat row) ((fst p - unat x) div unat scale)) else None) ++
    (\<lambda>p. if p \<in> points f \<and> unat x \<le> fst p \<and> (fst p - unat x) div unat scale = unat q \<and>
        unat y \<le> snd p \<and> (snd p - unat y) div unat scale = unat row
      then map_option bytes32 (dot_color w data fg bg (unat row) (unat q)) else None)"
    by (rule ext) (auto simp: map_add_def unat_plus_one [OF q] less_Suc_eq split: option.splits)
qed (simp_all add: fun_eq_iff)

lemma glyph_paints:
  assumes g: "glyph_ok w h data" and k: "scale \<noteq> 0"
    and fit: "unat x + unat w * unat scale < 2 ^ 32" "unat y + unat h * unat scale < 2 ^ 32"
  shows "paints (fb_ok f) picture (for_up 0 h (\<lambda>row. for_up 0 w (draw_cell x y w data fg bg scale row)))
    (glyph_picture (points f) (unat x) (unat y) (unat w) (unat h) (unat scale) (dot_color w data fg bg))"
proof (rule paints_for_up [where H = "\<lambda>q. glyph_picture (points f) (unat x) (unat y) (unat w) (unat q) (unat scale) (dot_color w data fg bg)",
      OF glyph_row_paints [OF g _ k fit]])
  fix q assume q: "q < h"
  show "glyph_picture (points f) (unat x) (unat y) (unat w) (unat (q + 1)) (unat scale) (dot_color w data fg bg) =
    glyph_picture (points f) (unat x) (unat y) (unat w) (unat q) (unat scale) (dot_color w data fg bg) ++
    (\<lambda>p. if p \<in> points f \<and> unat x \<le> fst p \<and> (fst p - unat x) div unat scale < unat w \<and>
        unat y \<le> snd p \<and> (snd p - unat y) div unat scale = unat q
      then map_option bytes32 (dot_color w data fg bg (unat q) ((fst p - unat x) div unat scale)) else None)"
    by (rule ext) (auto simp: glyph_picture_def map_add_def unat_plus_one [OF q] less_Suc_eq split: option.splits)
qed (simp_all add: glyph_picture_def fun_eq_iff)

text \<open>
  Drawing a character of the built-in font at any scale, where no coordinate wraps, changes
  exactly the points of its box that are on the screen, each to the foreground if its dot is set
  in the font, otherwise to the background unless that is transparent.
\<close>

theorem char_picture:
  assumes "fb_ok f s" "scale \<noteq> 0" "unat x + 8 * unat scale < 2 ^ 32" "unat y + 16 * unat scale < 2 ^ 32"
    and "32 \<le> (of_char c :: nat)" "(of_char c :: nat) \<le> 127"
  shows "\<exists>s'. text_draw_char_scaled (text_init t) x y c fg bg scale s = Inr s' \<and> fb_ok f s' \<and>
    picture s' = picture s ++ glyph_picture (points f) (unat x) (unat y) 8 16 (unat scale)
      (dot_color 8 (default_font_data ! (of_char c - 32)) fg bg)"
proof -
  let ?i = "of_char c - 32 :: nat"
  have i: "?i < length default_font_data" using assms(5,6) font_rows_length by (simp add: default_font_data_def)
  have gl: "glyphs default_font ! ?i = \<lparr>gl_width = 8, gl_height = 16, gl_data = Some (default_font_data ! ?i)\<rparr>"
    using i by (simp add: default_font_def)
  have "length (default_font_data ! ?i) = 16"
    using default_font_glyphs(2) [of "glyphs default_font ! ?i"] gl i by (auto simp: default_font_def)
  then have ok: "glyph_ok 8 16 (default_font_data ! ?i)" by (simp add: glyph_ok_def)
  have fit: "unat x + unat (8 :: u32) * unat scale < 2 ^ 32" "unat y + unat (16 :: u32) * unat scale < 2 ^ 32"
    using assms(3,4) by simp_all
  from paintsD [OF glyph_paints [OF ok assms(2) fit] assms(1)]
  obtain s' where s': "for_up 0 16 (\<lambda>row. for_up 0 8 (draw_cell x y 8 (default_font_data ! ?i) fg bg scale row)) s = Inr s'"
    "fb_ok f s'" "picture s' = picture s ++ glyph_picture (points f) (unat x) (unat y) (unat (8 :: u32)) (unat (16 :: u32))
      (unat scale) (dot_color 8 (default_font_data ! ?i) fg bg)" by blast
  have "text_draw_char_scaled (text_init t) x y c fg bg scale s = Inr s'"
    using s'(1) assms(2,5,6) i gl by (simp add: text_draw_char_scaled_def text_draw_glyph_def default_font_def)
  then show ?thesis using s'(2,3) by simp
qed

section \<open>Strings\<close>

text \<open>An operation that cannot fault and changes points of the columns \<open>X\<close> only.\<close>

definition touches :: "framebuffer \<Rightarrow> (fbst \<Rightarrow> fbst res) \<Rightarrow> nat set \<Rightarrow> bool" where
  "touches f op X \<longleftrightarrow>
     (\<forall>s. fb_ok f s \<longrightarrow> (\<exists>s'. op s = Inr s' \<and> fb_ok f s' \<and> (\<forall>p. fst p \<notin> X \<longrightarrow> picture s' p = picture s p)))"

lemma touches_skip: "touches f (\<lambda>s. Inr s) X"
  by (simp add: touches_def)

lemma touches_put: "unat x \<in> X \<Longrightarrow> touches f (fb_put_pixel x y c) X"
  unfolding touches_def
proof (intro allI impI)
  fix s assume x: "unat x \<in> X" and ok: "fb_ok f s"
  obtain s' where "fb_put_pixel x y c s = Inr s'" "fb_ok f s'" "picture s' = picture s ++ dot (points f) x y c"
    using fbc.put_total [OF ok] by blast
  then show "\<exists>s'. fb_put_pixel x y c s = Inr s' \<and> fb_ok f s' \<and> (\<forall>p. fst p \<notin> X \<longrightarrow> picture s' p = picture s p)"
    using x by (intro exI [of _ s']) (auto simp: dot_def map_add_def)
qed

lemma touches_seq: "touches f op X \<Longrightarrow> (\<And>s. touches f op' X) \<Longrightarrow> touches f (\<lambda>s. bindR (op s) op') X"
  unfolding touches_def by (metis bindR_simps(2))

lemma touches_for_up:
  assumes "\<And>q. q < n \<Longrightarrow> touches f (op q) X"
  shows "touches f (for_up 0 n op) X"
  unfolding touches_def
proof (intro allI impI)
  fix s assume ok: "fb_ok f s"
  have "\<exists>s'. for_up 0 n op s = Inr s' \<and> (fb_ok f s' \<and> (\<forall>p. fst p \<notin> X \<longrightarrow> picture s' p = picture s p))"
    by (rule for_up_total) (use ok assms in \<open>auto simp: touches_def\<close>, metis)
  then show "\<exists>s'. for_up 0 n op s = Inr s' \<and> fb_ok f s' \<and> (\<forall>p. fst p \<notin> X \<longrightarrow> picture s' p = picture s p)" by blast
qed

lemma touches_glyph:
  assumes "glyph_ok w h data" "\<And>q k. q < w \<Longrightarrow> k < scale \<Longrightarrow> unat (x + q * scale + k) \<in> X"
  shows "touches f (for_up 0 h (\<lambda>row. for_up 0 w (draw_cell x y w data fg bg scale row))) X"
proof (intro touches_for_up)
  fix row col assume rc: "row < h" "col < w"
  have dot: "touches f (draw_dot (x + col * scale) (y + row * scale) scale c) X" for c
    unfolding draw_dot_def using assms(2) [OF rc(2)] by (intro touches_for_up touches_put) blast
  have "draw_cell x y w data fg bg scale row col =
    (case dot_color w data fg bg (unat row) (unat col) of
       None \<Rightarrow> (\<lambda>s. Inr s) | Some c \<Rightarrow> draw_dot (x + col * scale) (y + row * scale) scale c)"
    using glyph_index [OF assms(1) rc] by (auto simp: draw_cell_def dot_color_def fun_eq_iff)
  then show "touches f (draw_cell x y w data fg bg scale row col) X"
    using dot touches_skip by (cases "dot_color w data fg bg (unat row) (unat col)") simp_all
qed

lemma touches_char:
  assumes "\<And>q k :: u32. q < 8 \<Longrightarrow> k < scale \<Longrightarrow> unat (x + q * scale + k) \<in> X"
  shows "touches f (text_draw_char_scaled (text_init t) x y c fg bg scale) X"
proof (cases "(of_char c :: nat) < 32 \<or> 127 < (of_char c :: nat) \<or> scale = 0")
  case True
  then have "text_draw_char_scaled (text_init t) x y c fg bg scale = (\<lambda>s. Inr s)"
    by (auto simp: text_draw_char_scaled_def text_draw_glyph_def fun_eq_iff default_font_glyphs(1) split: option.split)
  then show ?thesis by (simp add: touches_skip)
next
  case False
  let ?i = "of_char c - 32 :: nat"
  have i: "?i < length (glyphs default_font)" using False unfolding default_font_glyphs(1) by linarith
  then obtain d where d: "glyphs default_font ! ?i = \<lparr>gl_width = 8, gl_height = 16, gl_data = Some d\<rparr>" "length d = 16"
    using default_font_glyphs(2) [OF nth_mem [OF i]] by (cases "glyphs default_font ! ?i") auto
  have "glyph_ok 8 16 d" using d(2) by (simp add: glyph_ok_def)
  then have "touches f (for_up 0 16 (\<lambda>row. for_up 0 8 (draw_cell x y 8 d fg bg scale row))) X"
    using assms by (rule touches_glyph)
  moreover have "text_draw_char_scaled (text_init t) x y c fg bg scale =
      for_up 0 16 (\<lambda>row. for_up 0 8 (draw_cell x y 8 d fg bg scale row))"
    using False i d(1) by (auto simp: text_draw_char_scaled_def text_draw_glyph_def fun_eq_iff)
  ultimately show ?thesis by simp
qed

lemma touches_draw_chars: "touches f (draw_chars (text_init t) x str fg bg scale cx cy) UNIV"
proof (induction str arbitrary: cx cy)
  case Nil
  have "draw_chars (text_init t) x [] fg bg scale cx cy = (\<lambda>s. Inr s)" by (simp add: fun_eq_iff)
  then show ?case by (simp only: touches_skip)
next
  case (Cons c cs)
  have "draw_chars (text_init t) x (c # cs) fg bg scale cx cy =
    (if c = CHR 0x0A then draw_chars (text_init t) x cs fg bg scale x (cy + 16 * scale)
     else (\<lambda>s. bindR (text_draw_char_scaled (text_init t) cx cy c fg bg scale s) (draw_chars (text_init t) x cs fg bg scale (cx + 8 * scale) cy)))"
    by (auto simp: fun_eq_iff)
  moreover have "touches f (text_draw_char_scaled (text_init t) cx cy c fg bg scale) UNIV" by (rule touches_char) simp
  ultimately show ?case using Cons.IH by (simp add: touches_seq)
qed

text \<open>
  Once the text system is initialised, drawing any string at any place, scale and colours
  never faults.
\<close>

theorem text_never_faults:
  assumes "fb_ok f s"
  shows "\<exists>s'. text_draw_scaled (text_init t) x y str fg bg scale s = Inr s' \<and> fb_ok f s'"
  using touches_draw_chars assms unfolding touches_def text_draw_scaled_def by blast

text \<open>Before that, drawing a printable character goes through a null pointer.\<close>

lemma text_before_init: "32 \<le> (of_char c :: nat) \<Longrightarrow> (of_char c :: nat) \<le> 127 \<Longrightarrow> text_draw text_boot x y (c # cs) fg bg s = Inl NullDeref"
  by (auto simp: text_draw_def text_draw_scaled_def text_draw_char_scaled_def text_boot_def)

lemma touches_wrap_chars:
  assumes "8 \<le> unat mw" "unat x + unat mw + 8 < 2 ^ 32" "unat x \<le> unat cx" "unat cx \<le> unat x + unat mw"
  shows "touches f (wrap_chars (text_init t) x mw str fg bg cx cy) {unat x..<unat x + unat mw}"
  using assms(3,4)
proof (induction str arbitrary: cx cy)
  case Nil
  then show ?case by (simp add: touches_skip)
next
  case (Cons c cs)
  show ?case
  proof (cases "c = CHR 0x0A")
    case True
    then show ?thesis using Cons.IH [of x] by simp
  next
    case False
    define cx1 cy1 where "cx1 = (if cx + 8 > x + mw then x else cx)" and "cy1 = (if cx + 8 > x + mw then cy + 16 else cy)"
    have u: "unat (cx + 8) = unat cx + 8" "unat (x + mw) = unat x + unat mw"
      using assms(2) Cons.prems by (simp_all add: unat_word_ariths)
    have c1: "unat x \<le> unat cx1" "unat cx1 + 8 \<le> unat x + unat mw"
      using Cons.prems assms(1) u by (auto simp: cx1_def word_less_nat_alt)
    have c2: "unat (cx1 + 8) = unat cx1 + 8" using c1(2) assms(2) by (simp add: unat_word_ariths)
    have "touches f (text_draw_char_scaled (text_init t) cx1 cy1 c fg bg 1) {unat x..<unat x + unat mw}"
    proof (rule touches_char)
      fix q k :: u32 assume "q < 8" "k < 1"
      then have "unat q < 8" "k = 0" by (simp_all add: word_less_nat_alt unat_eq_0)
      then have "unat (cx1 + q * 1 + k) = unat cx1 + unat q" using c1(2) assms(2) by (simp add: unat_word_ariths)
      then show "unat (cx1 + q * 1 + k) \<in> {unat x..<unat x + unat mw}" using c1 \<open>unat q < 8\<close> by simp
    qed
    moreover have "touches f (wrap_chars (text_init t) x mw cs fg bg (cx1 + 8) cy1) {unat x..<unat x + unat mw}"
      using c1 c2 by (intro Cons.IH) simp_all
    moreover have "wrap_chars (text_init t) x mw (c # cs) fg bg cx cy =
        (\<lambda>s. bindR (text_draw_char_scaled (text_init t) cx1 cy1 c fg bg 1 s) (wrap_chars (text_init t) x mw cs fg bg (cx1 + 8) cy1))"
      using False by (auto simp: cx1_def cy1_def)
    ultimately show ?thesis by (simp only: touches_seq)
  qed
qed

text \<open>
  Wrapped text stays in its column: with room for at least one character, drawing any
  string in a width of \<open>mw\<close> pixels never faults and changes no point left or right of it.
\<close>

theorem wrapped_text_fits:
  assumes "fb_ok f s" "8 \<le> unat mw" "unat x + unat mw + 8 < 2 ^ 32"
  shows "\<exists>s'. text_draw_wrapped (text_init t) x y mw str fg bg s = Inr s' \<and> fb_ok f s' \<and>
    (\<forall>px py. px < unat x \<or> unat x + unat mw \<le> px \<longrightarrow> picture s' (px, py) = picture s (px, py))"
proof -
  have "touches f (text_draw_wrapped (text_init t) x y mw str fg bg) {unat x..<unat x + unat mw}"
    unfolding text_draw_wrapped_def [abs_def] by (rule touches_wrap_chars [OF assms(2,3)]) simp_all
  then obtain s' where s': "text_draw_wrapped (text_init t) x y mw str fg bg s = Inr s'" "fb_ok f s'"
    "\<forall>p. fst p \<notin> {unat x..<unat x + unat mw} \<longrightarrow> picture s' p = picture s p"
    using assms(1) unfolding touches_def by blast
  then show ?thesis by (intro exI [of _ s']) auto
qed

section \<open>Examples\<close>

theorem char_picture_witness:
  "\<exists>s'. text_draw_char_scaled (text_init text_boot) 0 0 CHR ''!'' 1 2 1 fb_demo = Inr s' \<and>
    picture s' = picture fb_demo ++ glyph_picture (points (fb fb_demo)) 0 0 8 16 1 (dot_color 8 (default_font_data ! 1) 1 2)"
  using char_picture [OF fb_demo_ok, of 1 0 0 "CHR ''!''" text_boot 1 2] by auto

theorem text_never_faults_witness: "\<exists>s'. text_draw_scaled (text_init text_boot) 0xFFFFFFFF 7 ''Mira'' 1 2 3 fb_demo = Inr s'"
  using text_never_faults [OF fb_demo_ok] by blast

theorem wrapped_text_fits_witness:
  "\<exists>s'. text_draw_wrapped (text_init text_boot) 1 0 12 ''OS'' 1 2 fb_demo = Inr s' \<and> picture s' (0, 1) = picture fb_demo (0, 1)"
  using wrapped_text_fits [OF fb_demo_ok, of 12 1 text_boot 0 "''OS''" 1 2] by auto

end
