(* ===== verification/Mira_Draw.thy ===== *)
theory Mira_Draw
  imports Mira_Text Mira_Widget
begin

text \<open>
  The graphics calls of widgets and windows carried out on the framebuffer: which calls can
  fault, and that rendering the windows never does, whatever the user does to them.
\<close>

section \<open>Carrying out graphics calls\<close>

fun gfx_run :: "text_state \<Rightarrow> gfx_op \<Rightarrow> fbst \<Rightarrow> fbst res" where
  "gfx_run t (Draw_rect x y w h c) s = gfx_draw_rect x y w h c s"
| "gfx_run t (Draw_outline x y w h c k) s = gfx_draw_rect_outline x y w h c k s"
| "gfx_run t (Draw_circle x y r c b) s = gfx_draw_circle x y r c b s"
| "gfx_run t (Draw_line x0 y0 x1 y1 c) s = gfx_draw_line x0 y0 x1 y1 c s"
| "gfx_run t (Draw_text x y str fg bg) s = text_draw t x y str fg bg s"

primrec gfx_runs :: "text_state \<Rightarrow> gfx_op list \<Rightarrow> fbst \<Rightarrow> fbst res" where
  "gfx_runs t [] s = Inr s"
| "gfx_runs t (op # ops) s = bindR (gfx_run t op s) (gfx_runs t ops)"

section \<open>Calls that cannot fault\<close>

text \<open>
  Sizes below 2 to the 31 cannot wrap, as points of the screen are below 2 to the 30; a
  position off the screen draws nothing.
\<close>

definition op_ok :: "gfx_op \<Rightarrow> bool" where
  "op_ok op = (case op of
     Draw_rect x y w h c \<Rightarrow> w < 2 ^ 31 \<and> h < 2 ^ 31
   | Draw_outline x y w h c k \<Rightarrow> w < 2 ^ 31 \<and> h < 2 ^ 31 \<and> 2 * unat k \<le> unat w \<and> 2 * unat k \<le> unat h
   | Draw_circle x y r c b \<Rightarrow> x < 2 ^ 29 \<and> r < 2 ^ 29
   | Draw_line x0 y0 x1 y1 c \<Rightarrow> x0 < 2 ^ 29 \<and> y0 < 2 ^ 29 \<and> x1 < 2 ^ 29 \<and> y1 < 2 ^ 29
   | Draw_text x y str fg bg \<Rightarrow> True)"

lemma fb_fits_height:
  assumes "fb_fits f" "fb_width f \<noteq> 0"
  shows "unat (fb_height f) < 2 ^ 30"
proof -
  have "0 < unat (fb_width f)" using assms(2) by (simp add: unat_gt_0)
  then have "4 \<le> unat (fb_pitch f)" using assms(1) by (simp add: fb_fits_def)
  then have "unat (fb_height f) * 4 \<le> unat (fb_height f) * unat (fb_pitch f)" by (rule mult_le_mono2)
  also have "\<dots> < 2 ^ 32" using assms(1) by (simp add: fb_fits_def)
  finally show ?thesis by simp
qed

lemma fill_rect_runs:
  assumes "fb_ok f s" "w < 2 ^ 31" "h < 2 ^ 31"
  shows "\<exists>s'. fb_fill_rect x y w h c s = Inr s' \<and> fb_ok f s'"
proof (cases "fb_width f \<le> x \<or> fb_height f \<le> y")
  case True
  from paintsD [OF fill_rect_offscreen [OF this] assms(1)] show ?thesis by blast
next
  case False
  have f: "fb_fits f" using assms(1) by (simp add: fb_ok_def)
  have "fb_width f \<noteq> 0" "fb_height f \<noteq> 0" using False by (auto simp: word_le_nat_alt)
  then have "unat (fb_width f) < 2 ^ 30" "unat (fb_height f) < 2 ^ 30" using fb_fits_width fb_fits_height f by blast+
  moreover have "unat x < unat (fb_width f)" "unat y < unat (fb_height f)" using False by (auto simp: word_le_nat_alt)
  moreover have "unat w < 2 ^ 31" "unat h < 2 ^ 31" using assms(2,3) by (simp_all add: word_less_nat_alt)
  ultimately have "unat x + unat w < 2 ^ 32" "unat y + unat h < 2 ^ 32" by simp_all
  from paintsD [OF fill_rect_total [OF this] assms(1)] show ?thesis by blast
qed

lemma outline_side:
  assumes "w < 2 ^ 31" "2 * unat k \<le> unat w" "t < (k :: u32)"
  shows "w - 2 * t < 2 ^ 31"
proof -
  have u: "unat w < 2 ^ 31" "unat t < unat k" using assms by (simp_all add: word_less_nat_alt)
  then have "unat (2 * t) = 2 * unat t" using assms(2) by (simp add: unat_word_ariths)
  moreover from this have "2 * t \<le> w" using u assms(2) by (simp add: word_le_nat_alt)
  ultimately have "unat (w - 2 * t) = unat w - 2 * unat t" by (simp add: unat_sub)
  then show ?thesis using u(1) by (simp add: word_less_nat_alt)
qed

lemma outline_runs:
  assumes "fb_ok f s" "w < 2 ^ 31" "h < 2 ^ 31" "2 * unat k \<le> unat w" "2 * unat k \<le> unat h"
  shows "\<exists>s'. fb_draw_rect_outline x y w h c k s = Inr s' \<and> fb_ok f s'"
  unfolding fb_draw_rect_outline_def
proof (rule for_up_total)
  fix t s1 assume ok: "fb_ok f s1" and t: "t < k"
  have side: "w - 2 * t < 2 ^ 31" "h - 2 * t < 2 ^ 31" "(1 :: u32) < 2 ^ 31"
    using outline_side [OF assms(2,4) t] outline_side [OF assms(3,5) t] by simp_all
  obtain s2 where s2: "fb_fill_rect (x + t) (y + t) (w - 2 * t) 1 c s1 = Inr s2" "fb_ok f s2"
    using fill_rect_runs [OF ok side(1,3)] by blast
  obtain s3 where s3: "fb_fill_rect (x + t) (y + h - 1 - t) (w - 2 * t) 1 c s2 = Inr s3" "fb_ok f s3"
    using fill_rect_runs [OF s2(2) side(1,3)] by blast
  obtain s4 where s4: "fb_fill_rect (x + t) (y + t) 1 (h - 2 * t) c s3 = Inr s4" "fb_ok f s4"
    using fill_rect_runs [OF s3(2) side(3,2)] by blast
  show "\<exists>s'. outline_ring x y w h c t s1 = Inr s' \<and> fb_ok f s'"
    using s2(1) s3(1) s4(1) fill_rect_runs [OF s4(2) side(3,2)] by (simp add: outline_ring_def)
qed (use assms(1) in simp_all)

lemma line_runs:
  assumes "fb_ok f s" "x0 < 2 ^ 29" "y0 < 2 ^ 29" "x1 < 2 ^ 29" "y1 < 2 ^ 29"
  shows "\<exists>s'. fb_draw_line x0 y0 x1 y1 c s = Inr s' \<and> fb_ok f s'"
  using draw_line_path [OF assms] by blast

lemma gfx_run_total:
  assumes "fb_ok f s" "op_ok op"
  shows "\<exists>s'. gfx_run (text_init t) op s = Inr s' \<and> fb_ok f s'"
proof (cases op)
  case (Draw_rect x y w h c)
  then show ?thesis using fill_rect_runs [OF assms(1)] assms(2) by (simp add: op_ok_def gfx_draw_rect_def fb_draw_rect_def)
next
  case (Draw_outline x y w h c k)
  then show ?thesis using outline_runs [OF assms(1)] assms(2) by (simp add: op_ok_def gfx_draw_rect_outline_def)
next
  case (Draw_circle x y r c b)
  then show ?thesis using draw_circle_returns [OF assms(1)] assms(2) by (simp add: op_ok_def gfx_draw_circle_def)
next
  case (Draw_line x0 y0 x1 y1 c)
  then show ?thesis using line_runs [OF assms(1)] assms(2) by (simp add: op_ok_def gfx_draw_line_def)
next
  case (Draw_text x y str fg bg)
  have "\<exists>s'. draw_chars (text_init t) x str fg bg 1 x y s = Inr s' \<and> fb_ok f s'"
    using touches_draw_chars assms(1) unfolding touches_def by blast
  then show ?thesis by (simp add: Draw_text text_draw_def text_draw_scaled_def)
qed

lemma gfx_runs_total:
  assumes "fb_ok f s" "\<forall>op \<in> set ops. op_ok op"
  shows "\<exists>s'. gfx_runs (text_init t) ops s = Inr s' \<and> fb_ok f s'"
  using assms
proof (induction ops arbitrary: s)
  case (Cons op ops)
  obtain s1 where "gfx_run (text_init t) op s = Inr s1" "fb_ok f s1"
    using gfx_run_total [OF Cons.prems(1), of op t] Cons.prems(2) by auto
  then show ?case using Cons by simp
qed simp

section \<open>Windows on the screen\<close>

text \<open>Rectangles with room for the two-pixel border and the title.\<close>

definition rect_ok :: "ui_rect \<Rightarrow> bool" where
  "rect_ok r \<longleftrightarrow> 4 \<le> rect_w r \<and> rect_w r < 2 ^ 31 \<and> 4 \<le> rect_h r \<and> rect_h r < 2 ^ 31"

lemma rect_ok_sides:
  assumes "rect_ok r"
  shows "rect_w r < 2 ^ 31" "rect_h r < 2 ^ 31" "rect_w r - 4 < 2 ^ 31" "4 \<le> unat (rect_w r)" "4 \<le> unat (rect_h r)"
proof -
  show w: "rect_w r < 2 ^ 31" "rect_h r < 2 ^ 31" "4 \<le> unat (rect_w r)" "4 \<le> unat (rect_h r)"
    using assms by (simp_all add: rect_ok_def word_le_nat_alt)
  have "4 \<le> rect_w r" using assms by (simp add: rect_ok_def)
  then have "unat (rect_w r - 4) = unat (rect_w r) - 4" by (simp add: unat_sub)
  then show "rect_w r - 4 < 2 ^ 31" using w(1) by (simp add: word_less_nat_alt)
qed

lemma border_ok: "rect_ok r \<Longrightarrow> op_ok (fill_rect_of r c) \<and> op_ok (outline_of r c)"
  using rect_ok_sides [of r] by (simp add: op_ok_def fill_rect_of_def outline_of_def)

lemma window_draw_ok: "rect_ok (wn_bounds w) \<Longrightarrow> op \<in> set (window_draw w) \<Longrightarrow> op_ok op"
  using border_ok [of "wn_bounds w"] rect_ok_sides(3) [of "wn_bounds w"]
  by (auto simp: window_draw_def Let_def op_ok_def split: option.splits if_splits)

lemma panel_draw_ok: "rect_ok (pn_bounds p) \<Longrightarrow> op \<in> set (ui_panel_draw p) \<Longrightarrow> op_ok op"
  using border_ok [of "pn_bounds p"] rect_ok_sides(3) [of "pn_bounds p"]
  by (auto simp: ui_panel_draw_def Let_def op_ok_def split: option.splits)

lemma button_draw_ok: "rect_ok (bt_bounds b) \<Longrightarrow> op \<in> set (ui_button_draw b) \<Longrightarrow> op_ok op"
  using border_ok [of "bt_bounds b"] by (auto simp: ui_button_draw_def Let_def op_ok_def split: option.splits)

lemma textfield_draw_ok: "rect_ok (tf_bounds t) \<Longrightarrow> op \<in> set (ui_textfield_draw t) \<Longrightarrow> op_ok op"
  using border_ok [of "tf_bounds t"] by (auto simp: ui_textfield_draw_def Let_def op_ok_def split: option.splits if_splits)

text \<open>What the desktop can do to the windows.\<close>

datatype window_event = Create "string option" u32 u32 u32 u32 | Close nat | Click u32 u32 | Drag u32 u32 | Focus nat

fun on_window :: "window_event \<Rightarrow> window_table \<Rightarrow> window_table" where
  "on_window (Create title x y w h) t = window_create title x y w h t"
| "on_window (Close i) t = window_close i t"
| "on_window (Click x y) t = snd (window_handle_click x y t)"
| "on_window (Drag x y) t = snd (window_handle_drag x y t)"
| "on_window (Focus i) t = window_set_focused i t"

text \<open>Windows are created with room for their decoration.\<close>

fun event_ok :: "window_event \<Rightarrow> bool" where
  "event_ok (Create title x y w h) = rect_ok \<lparr>rect_x = x, rect_y = y, rect_w = w, rect_h = h\<rparr>"
| "event_ok _ = True"

definition windows_ok :: "window_table \<Rightarrow> bool" where
  "windows_ok t \<longleftrightarrow> (\<forall>w \<in> set (windows t). rect_ok (wn_bounds w))"

lemma front_ok: "windows_ok t \<Longrightarrow> windows_ok (window_bring_to_front i t)"
proof (cases "i < length (windows t)")
  case True
  assume "windows_ok t"
  then show ?thesis
    using True nth_mem [OF True]
    by (auto simp: windows_ok_def window_bring_to_front_def Let_def not_le dest!: in_set_takeD in_set_dropD)
qed (simp add: window_bring_to_front_def)

lemma update_ok: "windows_ok t \<Longrightarrow> rect_ok (wn_bounds w) \<Longrightarrow> windows_ok (t\<lparr>windows := (windows t)[i := w]\<rparr>)"
  by (auto simp: windows_ok_def dest!: set_update_subset_insert [THEN subsetD])

lemma windows_ok_drag_idx [simp]: "windows_ok (t\<lparr>drag_window_idx := i\<rparr>) = windows_ok t"
  by (simp add: windows_ok_def)

lemma window_event_ok: "windows_ok t \<Longrightarrow> event_ok e \<Longrightarrow> windows_ok (on_window e t)"
proof (cases e)
  case (Create title x y w h)
  assume ok: "windows_ok t" "event_ok e"
  then show ?thesis
    using Create by (auto simp: window_create_def Let_def intro!: front_ok) (auto simp: windows_ok_def)
next
  case (Close i)
  assume "windows_ok t" "event_ok e"
  then show ?thesis
    using Close by (auto simp: windows_ok_def window_close_def Let_def dest!: in_set_takeD in_set_dropD split: if_splits)
next
  case (Click x y)
  assume ok: "windows_ok t" "event_ok e"
  show ?thesis
  proof (cases "hit_window (length (windows t)) x y t")
    case (Some i)
    let ?t = "window_bring_to_front i t"
    have i: "i < length (windows t)" using hit_window_bounds [OF Some] by simp
    have f: "windows_ok ?t" by (rule front_ok [OF ok(1)])
    have "windows ?t \<noteq> []" using i by (simp add: window_bring_to_front_def Let_def not_le)
    then have "rect_ok (wn_bounds (windows ?t ! 0))" using f by (auto simp: windows_ok_def)
    then have "windows_ok (?t\<lparr>windows := (windows ?t)[0 := (windows ?t ! 0)\<lparr>wn_dragging := b, wn_drag_offset_x := x0, wn_drag_offset_y := y0\<rparr>]\<rparr>)"
      for b x0 y0 by (intro update_ok [OF f]) simp
    then show ?thesis using Click Some f by (simp add: window_handle_click_def Let_def)
  qed (simp add: Click window_handle_click_def ok)
next
  case (Drag x y)
  assume ok: "windows_ok t" "event_ok e"
  show ?thesis
  proof (cases "drag_window_idx t < 0 \<or> drag_window_idx t \<ge> int (length (windows t))")
    case False
    let ?w = "windows t ! nat (drag_window_idx t)"
    have "?w \<in> set (windows t)" using False by (intro nth_mem) auto
    then have "rect_ok (wn_bounds ?w)" using ok(1) by (simp add: windows_ok_def)
    then have "rect_ok (wn_bounds (?w\<lparr>wn_bounds := (wn_bounds ?w)\<lparr>rect_x := a, rect_y := b\<rparr>\<rparr>))" for a b by (simp add: rect_ok_def)
    then show ?thesis using Drag False ok(1) update_ok [OF ok(1)] by (simp add: window_handle_drag_def Let_def)
  qed (simp add: Drag window_handle_drag_def ok)
next
  case (Focus i)
  assume "windows_ok t" "event_ok e"
  then show ?thesis using Focus by (simp add: window_set_focused_def front_ok)
qed

lemma window_events_ok: "windows_ok t \<Longrightarrow> \<forall>e \<in> set es. event_ok e \<Longrightarrow> windows_ok (fold on_window es t)"
  by (induction es arbitrary: t) (simp_all add: window_event_ok)



section \<open>Drawing keeps the size of the screen\<close>

definition keeps_screen :: "(fbst \<Rightarrow> fbst res) \<Rightarrow> bool" where
  "keeps_screen f \<longleftrightarrow> (\<forall>s s'. f s = Inr s' \<longrightarrow> length (screen s') = length (screen s))"

lemma keepsD: "keeps_screen f \<Longrightarrow> f s = Inr s' \<Longrightarrow> length (screen s') = length (screen s)"
  by (simp add: keeps_screen_def)

lemma keeps_skip: "keeps_screen Inr"
  by (simp add: keeps_screen_def)

lemma keeps_seq: "keeps_screen f \<Longrightarrow> keeps_screen g \<Longrightarrow> keeps_screen (\<lambda>s. bindR (f s) g)"
  by (auto simp: keeps_screen_def)

lemma keeps_for_up:
  assumes "\<And>q. keeps_screen (f q)"
  shows "keeps_screen (for_up a e f)"
proof -
  have "length (screen s') = length (screen s)" if "for_up a e f s = Inr s'" for s s'
    using that assms
  proof (induction a e f s rule: for_up.induct)
    case (1 a e f s)
    then show ?case using keepsD [of "f a" s] by (cases "a < e") (auto simp: for_up_step)
  qed
  then show ?thesis by (simp add: keeps_screen_def)
qed

lemma keeps_store: "length px = 4 \<Longrightarrow> keeps_screen (fb_store off px)"
  by (auto simp: keeps_screen_def fb_store_def store32_def split: if_splits option.splits)

lemma keeps_put: "keeps_screen (fb_put_pixel x y c)"
  using keeps_store [OF length_bytes32] by (simp add: keeps_screen_def fb_put_pixel_def)

lemma keeps_puts: "keeps_screen (put_pixels ps c)"
proof (induction ps)
  case (Cons p ps)
  then show ?case using keeps_seq [OF keeps_put Cons.IH] by (simp add: put_pixels_Cons [abs_def])
qed (simp add: keeps_screen_def)

lemma keeps_fill: "keeps_screen (fb_fill_rect x y w h c)"
proof -
  have "keeps_screen (for_up a e (\<lambda>col. fb_store (l + 4 * unat (col :: u32)) (bytes32 c)))" for a e l by (intro keeps_for_up keeps_store length_bytes32)
  then have "keeps_screen (fill_row u v c r)" for u v r by (simp add: keeps_screen_def fill_row_def Let_def)
  then have "keeps_screen (for_up p q (fill_row u v c))" for p q u v by (rule keeps_for_up)
  then show ?thesis unfolding keeps_screen_def fb_fill_rect_def Let_def by (auto split: if_splits)
qed

lemma keeps_outline: "keeps_screen (fb_draw_rect_outline x y w h c k)"
  unfolding fb_draw_rect_outline_def [abs_def] outline_ring_def [abs_def] by (intro keeps_for_up keeps_seq keeps_fill)

definition same_size :: "fbst \<Rightarrow> fbst res \<Rightarrow> bool" where
  "same_size s r \<longleftrightarrow> (\<forall>s'. r = Inr s' \<longrightarrow> length (screen s') = length (screen s))"

lemma same_size_step: "same_size s1 r \<Longrightarrow> length (screen s1) = length (screen s) \<Longrightarrow> same_size s r"
  by (simp add: same_size_def)

lemma line_loop_size: "line_loop dx dy sx sy u v c p s = Some r \<Longrightarrow> same_size s r"
proof (rule line_loop.raw_induct [where P = "\<lambda>dx dy sx sy u v c p s r. same_size s r"])
  fix loop dx dy sx sy u v c p s r
  assume IH: "\<And>dx dy sx sy u v c p s r. loop dx dy sx sy u v c p s = Some r \<Longrightarrow> same_size s r"
    and eq: "(case fb_put_pixel (fst (snd p)) (snd (snd p)) c s of Inl e \<Rightarrow> Some (Inl e)
      | Inr s1 \<Rightarrow> if fst (snd p) = u \<and> snd (snd p) = v then Some (Inr s1) else loop dx dy sx sy u v c (line_step dx dy sx sy p) s1) = Some r"
  show "same_size s r"
  proof (cases "fb_put_pixel (fst (snd p)) (snd (snd p)) c s")
    case (Inr s1)
    have n: "length (screen s1) = length (screen s)" by (rule keepsD [OF keeps_put Inr])
    show ?thesis
    proof (cases "fst (snd p) = u \<and> snd (snd p) = v")
      case False
      with eq have "loop dx dy sx sy u v c (line_step dx dy sx sy p) s1 = Some r" by (simp only: Inr sum.case if_False)
      then show ?thesis by (rule same_size_step [OF IH n])
    next
      case True
      then have "r = Inr s1" using eq [unfolded Inr] by simp
      then show ?thesis using n by (simp add: same_size_def)
    qed
  qed (use eq in \<open>auto simp: same_size_def\<close>)
qed

lemma circle_loop_size: "circle_loop cx cy c filled p s = Some r \<Longrightarrow> same_size s r"
proof (rule circle_loop.raw_induct [where P = "\<lambda>cx cy c filled p s r. same_size s r"])
  fix loop cx cy c filled and p :: "int32 \<times> int32 \<times> int32" and s r
  let ?d = "if filled then circle_spans cx cy (fst (snd p)) (snd (snd p)) c s else put_pixels (circle_points cx cy (fst (snd p)) (snd (snd p))) c s"
  assume IH: "\<And>cx cy c filled p s r. loop cx cy c filled p s = Some r \<Longrightarrow> same_size s r"
    and eq: "(if sint (snd (snd p)) \<le> sint (fst (snd p)) then case ?d of Inl e \<Rightarrow> Some (Inl e)
      | Inr s1 \<Rightarrow> loop cx cy c filled (circle_step p) s1 else Some (Inr s)) = Some r"
  have spans: "keeps_screen (circle_spans cx cy a b c)" for a b unfolding circle_spans_def [abs_def] by (intro keeps_seq keeps_fill)
  show "same_size s r"
  proof (cases "sint (snd (snd p)) \<le> sint (fst (snd p))")
    case True
    show ?thesis
    proof (cases ?d)
      case (Inr s1)
      have n: "length (screen s1) = length (screen s)" using Inr keepsD [OF spans] keepsD [OF keeps_puts] by (auto split: if_splits)
      from eq True Inr have "loop cx cy c filled (circle_step p) s1 = Some r" by (simp only: sum.case if_True)
      then show ?thesis by (rule same_size_step [OF IH n])
    qed (use eq True in \<open>auto simp: same_size_def\<close>)
  qed (use eq in \<open>auto simp: same_size_def\<close>)
qed

lemma ended_size: "(\<And>r. x = Some r \<Longrightarrow> same_size s r) \<Longrightarrow> ended x = Inr s' \<Longrightarrow> length (screen s') = length (screen s)"
  by (cases x) (simp_all add: ended_def same_size_def)

lemma keeps_line: "keeps_screen (fb_draw_line x0 y0 x1 y1 c)"
  unfolding keeps_screen_def fb_draw_line_def Let_def using ended_size [OF line_loop_size] by (auto split: if_splits)

lemma keeps_circle: "keeps_screen (fb_draw_circle cx cy rad c filled)"
  unfolding keeps_screen_def fb_draw_circle_def using ended_size [OF circle_loop_size] by (auto split: if_splits)

lemma keeps_char: "keeps_screen (text_draw_char_scaled t x y c fg bg scale)"
proof -
  have dot: "keeps_screen (draw_dot u v scale k)" for u v k unfolding draw_dot_def by (intro keeps_for_up keeps_put)
  then have "keeps_screen (draw_cell x y w data fg bg scale row col)" for w data row col
    by (auto simp: keeps_screen_def draw_cell_def Let_def split: if_splits)
  then have "keeps_screen (for_up 0 h (\<lambda>row. for_up 0 w (draw_cell x y w data fg bg scale row)))" for w h data by (intro keeps_for_up)
  then show ?thesis unfolding keeps_screen_def text_draw_char_scaled_def text_draw_glyph_def by (auto split: if_splits option.splits)
qed

lemma keeps_text: "keeps_screen (draw_chars t x str fg bg scale cx cy)"
proof (induction str arbitrary: cx cy)
  case (Cons c cs)
  then show ?case using keepsD [OF keeps_char] unfolding keeps_screen_def by (auto split: if_splits)
qed (simp add: keeps_screen_def)

lemma keeps_run: "keeps_screen (gfx_run t op)"
proof (cases op)
  case (Draw_text x y str fg bg)
  then show ?thesis using keeps_text by (simp add: keeps_screen_def text_draw_def text_draw_scaled_def)
qed (use keeps_fill keeps_outline keeps_line keeps_circle in \<open>simp_all add: keeps_screen_def gfx_draw_rect_def fb_draw_rect_def
    gfx_draw_rect_outline_def gfx_draw_line_def gfx_draw_circle_def\<close>)

lemma keeps_runs: "keeps_screen (gfx_runs t ops)"
proof (induction ops)
  case (Cons op ops)
  then show ?case using keeps_seq [OF keeps_run Cons.IH] by (simp add: keeps_screen_def)
qed (simp add: keeps_screen_def)

lemma swap_runs:
  assumes "fb_ok f s" "length (screen s) = unat (fb_height f) * unat (fb_pitch f)"
  shows "\<exists>s'. fb_swap_buffers s = Inr s' \<and> fb_ok f s' \<and> picture s' = picture s \<and> screen s' = surface s'"
proof (cases "use_double_buffer s")
  case True
  then show ?thesis using swap_shows_back_buffer [OF assms(1) True assms(2)] by (auto simp: surface_def)
next
  case False
  then have "fb_swap_buffers s = Inr s" by (simp add: fb_swap_buffers_def split: option.splits)
  then show ?thesis using assms(1) False by (simp add: surface_def)
qed

end
