(* ===== verification/Mira_Dev.thy ===== *)
theory Mira_Dev
  imports Mira_Prelude
begin

text \<open>
  The device drivers that talk to hardware through ports: the interrupt controller
  (\<open>drivers/pic.c\<close>), the interval timer (\<open>drivers/timer.c\<close>), the PS/2 mouse
  (\<open>drivers/ps2/mouse.c\<close>), the ATA disk (\<open>drivers/storage/ata.c\<close>), and the network stub
  (\<open>net/eth/net.c\<close>). The hardware is a function from the port accesses made so far to the value
  the next read of a port returns; what a driver does to it is the trace of its accesses.
\<close>

section \<open>Ports\<close>

datatype io_event = Out8 u16 u8 | Out16 u16 u16 | In8 u16 u8 | In16 u16 u16

record io =
  io_trace :: "io_event list"
  io_dev :: "io_event list \<Rightarrow> u16 \<Rightarrow> u16"

definition io_note :: "io_event \<Rightarrow> io \<Rightarrow> io" where "io_note e i = i\<lparr>io_trace := io_trace i @ [e]\<rparr>"

definition outb :: "u16 \<Rightarrow> u8 \<Rightarrow> io \<Rightarrow> io" where "outb port v = io_note (Out8 port v)"
definition outw :: "u16 \<Rightarrow> u16 \<Rightarrow> io \<Rightarrow> io" where "outw port v = io_note (Out16 port v)"

definition inb :: "u16 \<Rightarrow> io \<Rightarrow> u8 \<times> io" where
  "inb port i = (let v = ucast (io_dev i (io_trace i) port) in (v, io_note (In8 port v) i))"

definition inw :: "u16 \<Rightarrow> io \<Rightarrow> u16 \<times> io" where
  "inw port i = (let v = io_dev i (io_trace i) port in (v, io_note (In16 port v) i))"

lemma io_note_simps [simp]: "io_trace (io_note e i) = io_trace i @ [e]" "io_dev (io_note e i) = io_dev i"
  by (simp_all add: io_note_def)

lemma u8_via_u16 [simp]: "ucast (ucast b :: u16) = (b :: u8)"
  by (simp add: ucast_up_ucast_id is_up)

lemma outb_simps [simp]: "io_trace (outb p v i) = io_trace i @ [Out8 p v]" "io_dev (outb p v i) = io_dev i"
  by (simp_all add: outb_def)

section \<open>Interrupt controller\<close>

definition PIC1_CMD :: u16 where "PIC1_CMD = 0x20"
definition PIC1_DATA :: u16 where "PIC1_DATA = 0x21"
definition PIC2_CMD :: u16 where "PIC2_CMD = 0xA0"
definition PIC2_DATA :: u16 where "PIC2_DATA = 0xA1"

lemmas pic_ports = PIC1_CMD_def PIC1_DATA_def PIC2_CMD_def PIC2_DATA_def

definition pic_program :: "u8 \<Rightarrow> io \<Rightarrow> io" where
  "pic_program lines = outb PIC2_DATA lines \<circ> outb PIC1_DATA lines \<circ> outb PIC2_DATA 0x01 \<circ> outb PIC1_DATA 0x01 \<circ>
     outb PIC2_DATA 0x02 \<circ> outb PIC1_DATA 0x04 \<circ> outb PIC2_DATA 0x28 \<circ> outb PIC1_DATA 0x20 \<circ>
     outb PIC2_CMD 0x11 \<circ> outb PIC1_CMD 0x11"

text \<open>\<open>pic_init\<close> ends with every line masked, \<open>pic_remap\<close> of \<open>arch/x86_64/isr.c\<close> with none.\<close>

definition pic_init :: "io \<Rightarrow> io" where "pic_init = pic_program 0xFF"
definition pic_remap :: "io \<Rightarrow> io" where "pic_remap = pic_program 0"

definition drivers_pic_send_eoi :: "u8 \<Rightarrow> io \<Rightarrow> io" where
  "drivers_pic_send_eoi irq i = outb PIC1_CMD 0x20 (if irq \<ge> 8 then outb PIC2_CMD 0x20 i else i)"

definition pic_send_eoi :: "u8 \<Rightarrow> io \<Rightarrow> io" where "pic_send_eoi = drivers_pic_send_eoi"

text \<open>The data port of the chip a line belongs to and the bit of the line, truncated to a byte.\<close>

definition pic_line :: "u8 \<Rightarrow> u16 \<times> u8" where
  "pic_line irq = (if irq < 8 then (PIC1_DATA, push_bit (unat irq) 1) else (PIC2_DATA, push_bit (unat (irq - 8)) 1))"

definition pic_mask_irq :: "u8 \<Rightarrow> io \<Rightarrow> io" where
  "pic_mask_irq irq i = (let (port, b) = pic_line irq; (v, i1) = inb port i in outb port (v OR b) i1)"

definition pic_unmask_irq :: "u8 \<Rightarrow> io \<Rightarrow> io" where
  "pic_unmask_irq irq i = (let (port, b) = pic_line irq; (v, i1) = inb port i in outb port (v AND NOT b) i1)"

definition pic_read_irq :: "io \<Rightarrow> u8 \<times> io" where "pic_read_irq = inb PIC1_CMD"

section \<open>Interval timer\<close>

definition timer_divisor :: u32 where "timer_divisor = 1193182 div 100"

definition timer_init :: "io \<Rightarrow> u64 \<times> io" where
  "timer_init i =
     (0, outb 0x40 (ucast (drop_bit 8 timer_divisor AND 0xFF)) (outb 0x40 (ucast (timer_divisor AND 0xFF)) (outb 0x43 0x36 i)))"

definition timer_on_irq :: "u64 \<Rightarrow> u64" where "timer_on_irq tick_count = tick_count + 1"

section \<open>Mouse\<close>

record mouse =
  mouse_x :: u32
  mouse_y :: u32
  mouse_buttons :: u8
  mouse_moved :: bool
  mouse_cycle :: u8
  mouse_packet :: "u8 list"

definition mouse_boot :: mouse where
  "mouse_boot = \<lparr>mouse_x = 0, mouse_y = 0, mouse_buttons = 0, mouse_moved = False, mouse_cycle = 0, mouse_packet = [0, 0, 0]\<rparr>"

primrec wait_loop :: "nat \<Rightarrow> (u8 \<Rightarrow> bool) \<Rightarrow> io \<Rightarrow> io" where
  "wait_loop 0 stop i = i"
| "wait_loop (Suc timeout) stop i = (let (st, i1) = inb 0x64 i in if stop st then i1 else wait_loop timeout stop i1)"

definition mouse_wait :: "u8 \<Rightarrow> io \<Rightarrow> io" where
  "mouse_wait ty = wait_loop 100000 (if ty = 0 then (\<lambda>st. st AND 1 \<noteq> 0) else (\<lambda>st. st AND 2 = 0))"

definition mouse_write :: "u8 \<Rightarrow> io \<Rightarrow> io" where
  "mouse_write data i = outb 0x60 data (mouse_wait 1 (outb 0x64 0xD4 (mouse_wait 1 i)))"

definition mouse_read :: "io \<Rightarrow> u8 \<times> io" where "mouse_read i = inb 0x60 (mouse_wait 0 i)"

text \<open>The counters of a packet are added as signed bytes; the sum wraps at 32 bits.\<close>

definition mouse_delta :: "u8 \<Rightarrow> bool \<Rightarrow> u8" where "mouse_delta b neg = (if neg then b OR 0xF0 else b)"

definition clamp_low :: "u32 \<Rightarrow> u32" where "clamp_low v = (if sint v < 0 then 0 else v)"

definition mouse_finish :: "mouse \<Rightarrow> mouse" where
  "mouse_finish m =
     (let p = mouse_packet m; dx = mouse_delta (p ! 1) (p ! 0 AND 0x10 \<noteq> 0); dy = mouse_delta (p ! 2) (p ! 0 AND 0x20 \<noteq> 0)
      in m\<lparr>mouse_x := clamp_low (mouse_x m + scast dx), mouse_y := clamp_low (mouse_y m - scast dy),
           mouse_buttons := p ! 0 AND 0x07, mouse_moved := True\<rparr>)"

definition mouse_irq_handler :: "mouse \<times> io \<Rightarrow> mouse \<times> io" where
  "mouse_irq_handler = (\<lambda>(m, i).
     if mouse_cycle m = 0
     then let (b, i1) = inb 0x60 i; m1 = m\<lparr>mouse_packet := (mouse_packet m)[0 := b]\<rparr>
          in (if b AND 0x08 \<noteq> 0 then m1\<lparr>mouse_cycle := 1\<rparr> else m1, i1)
     else if mouse_cycle m = 1
     then let (b, i1) = inb 0x60 i in (m\<lparr>mouse_packet := (mouse_packet m)[1 := b], mouse_cycle := 2\<rparr>, i1)
     else if mouse_cycle m = 2
     then let (b, i1) = inb 0x60 i in (mouse_finish (m\<lparr>mouse_packet := (mouse_packet m)[2 := b], mouse_cycle := 0\<rparr>), i1)
     else (m, i))"

definition mouse_init_driver :: "mouse \<times> io \<Rightarrow> mouse \<times> io" where
  "mouse_init_driver = (\<lambda>(m, i).
     let i1 = mouse_write 0xF4 (mouse_wait 1 (outb 0x64 0xA8 (mouse_wait 1 i))); (_, i2) = mouse_read i1
     in (m\<lparr>mouse_x := 0, mouse_y := 0, mouse_buttons := 0, mouse_moved := False, mouse_cycle := 0\<rparr>, i2))"

definition mouse_init :: "mouse \<times> io \<Rightarrow> mouse \<times> io" where "mouse_init = mouse_init_driver"
definition mouse_poll :: "mouse \<Rightarrow> mouse" where "mouse_poll m = m"
definition mouse_get_x :: "mouse \<Rightarrow> u32" where "mouse_get_x m = mouse_x m"
definition mouse_get_y :: "mouse \<Rightarrow> u32" where "mouse_get_y m = mouse_y m"

definition mouse_get_button :: "u8 \<Rightarrow> mouse \<Rightarrow> bool" where
  "mouse_get_button button m \<longleftrightarrow> (ucast (mouse_buttons m) :: u32) AND push_bit (unat button) 1 \<noteq> 0"

definition mouse_has_moved :: "mouse \<Rightarrow> bool" where "mouse_has_moved m = mouse_moved m"
definition mouse_clear_moved :: "mouse \<Rightarrow> mouse" where "mouse_clear_moved m = m\<lparr>mouse_moved := False\<rparr>"

section \<open>ATA disk\<close>

definition ATA_DATA :: u16 where "ATA_DATA = 0x1F0"
definition ATA_STATUS :: u16 where "ATA_STATUS = 0x1F7"

text \<open>The polling loops have no time limit: \<open>None\<close> when the drive never shows the status.\<close>

partial_function (option) ata_poll :: "(u8 \<Rightarrow> bool) \<Rightarrow> io \<Rightarrow> io option" where
  "ata_poll stop i = (let (st, i1) = inb ATA_STATUS i in if stop st then Some i1 else ata_poll stop i1)"

definition ata_wait :: "(u8 \<Rightarrow> bool) \<Rightarrow> io \<Rightarrow> io res" where
  "ata_wait stop i = (case ata_poll stop i of None \<Rightarrow> Inl Diverges | Some i1 \<Rightarrow> Inr i1)"

definition ata_wait_ready :: "io \<Rightarrow> io res" where "ata_wait_ready = ata_wait (\<lambda>st. st AND 0x80 = 0)"
definition ata_wait_drq :: "io \<Rightarrow> io res" where "ata_wait_drq = ata_wait (\<lambda>st. st AND 0x08 \<noteq> 0)"

definition ata_command :: "u8 \<Rightarrow> u32 \<Rightarrow> u32 \<Rightarrow> io \<Rightarrow> io" where
  "ata_command cmd lba cnt =
     outb 0x1F7 cmd \<circ> outb 0x1F5 (ucast (drop_bit 16 lba AND 0xFF)) \<circ> outb 0x1F4 (ucast (drop_bit 8 lba AND 0xFF)) \<circ>
     outb 0x1F3 (ucast (lba AND 0xFF)) \<circ> outb 0x1F2 (ucast cnt) \<circ> outb 0x1F6 (0xE0 OR ucast (drop_bit 24 lba AND 0x0F))"

primrec read_words :: "nat \<Rightarrow> io \<Rightarrow> u16 list \<times> io" where
  "read_words 0 i = ([], i)"
| "read_words (Suc n) i = (let (w, i1) = inw ATA_DATA i; (ws, i2) = read_words n i1 in (w # ws, i2))"

definition bytes_of :: "u16 list \<Rightarrow> u8 list" where
  "bytes_of ws = concat (map (\<lambda>w. [ucast w, ucast (drop_bit 8 w)]) ws)"

fun words_of :: "u8 list \<Rightarrow> u16 list" where
  "words_of (a # b # bs) = (ucast a OR push_bit 8 (ucast b)) # words_of bs"
| "words_of _ = []"

definition read_sector :: "u32 \<Rightarrow> u8 list \<times> io \<Rightarrow> (u8 list \<times> io) res" where
  "read_sector s = (\<lambda>(buf, i).
     bindR (ata_wait_drq i) (\<lambda>i1.
       let (ws, i2) = read_words 256 i1; off = unat (s * 512)
       in if off + 512 \<le> length buf then Inr (take off buf @ bytes_of ws @ drop (off + 512) buf, i2) else Inl OutOfBounds))"

definition ata_read_sectors :: "u32 \<Rightarrow> u8 list option \<Rightarrow> u32 \<Rightarrow> io \<Rightarrow> (bool \<times> u8 list option \<times> io) res" where
  "ata_read_sectors lba buffer cnt i =
     (case buffer of None \<Rightarrow> Inr (False, None, i)
      | Some buf \<Rightarrow>
          if cnt = 0 then Inr (False, Some buf, i)
          else bindR (ata_wait_ready i) (\<lambda>i1.
               bindR (for_up 0 cnt read_sector (buf, ata_command 0x20 lba cnt i1)) (\<lambda>(buf1, i2).
                 let (st, i3) = inb ATA_STATUS i2 in Inr (st AND 0x01 = 0, Some buf1, i3))))"

definition write_sector :: "u8 list \<Rightarrow> u32 \<Rightarrow> io \<Rightarrow> io res" where
  "write_sector buf s i =
     bindR (ata_wait_drq i) (\<lambda>i1.
       let off = unat (s * 512)
       in if off + 512 \<le> length buf then Inr (fold (outw ATA_DATA) (words_of (take 512 (drop off buf))) i1) else Inl OutOfBounds)"

definition ata_write_sectors :: "u32 \<Rightarrow> u8 list option \<Rightarrow> u32 \<Rightarrow> io \<Rightarrow> (bool \<times> io) res" where
  "ata_write_sectors lba buffer cnt i =
     (case buffer of None \<Rightarrow> Inr (False, i)
      | Some buf \<Rightarrow>
          if cnt = 0 then Inr (False, i)
          else bindR (ata_wait_ready i) (\<lambda>i1.
               bindR (for_up 0 cnt (write_sector buf) (ata_command 0x30 lba cnt i1)) (\<lambda>i2.
                 let (st, i3) = inb ATA_STATUS i2 in Inr (st AND 0x01 = 0, i3))))"

definition ata_init :: "io \<Rightarrow> io" where "ata_init i = i"

text \<open>The sector count is a static variable that nothing sets.\<close>

definition ata_get_sector_count :: u32 where "ata_get_sector_count = 0"

section \<open>Network\<close>

record net =
  net_mac :: "u8 list"
  net_initialized :: bool

definition net_boot :: net where
  "net_boot = \<lparr>net_mac = [0x52, 0x54, 0x00, 0x12, 0x34, 0x56], net_initialized = False\<rparr>"

definition net_init :: "net \<Rightarrow> net" where "net_init n = n\<lparr>net_initialized := True\<rparr>"

definition net_send :: "u8 list option \<Rightarrow> u16 \<Rightarrow> net \<Rightarrow> net" where "net_send data n s = s"

text \<open>The result, and the size variable.\<close>

definition net_receive :: "u8 list option \<Rightarrow> u16 option \<Rightarrow> net \<Rightarrow> bool \<times> u16 option" where
  "net_receive buffer sz n =
     (if \<not> net_initialized n \<or> buffer = None \<or> sz = None then (False, sz) else (False, Some 0))"

definition copy6 :: "u8 list \<Rightarrow> u8 list \<Rightarrow> u8 list res" where
  "copy6 src dst = (if 6 \<le> length src \<and> 6 \<le> length dst then Inr (take 6 src @ drop 6 dst) else Inl OutOfBounds)"

definition net_set_mac :: "u8 list option \<Rightarrow> net \<Rightarrow> net res" where
  "net_set_mac mac n =
     (case mac of None \<Rightarrow> Inr n | Some m \<Rightarrow> bindR (copy6 m (net_mac n)) (\<lambda>r. Inr (n\<lparr>net_mac := r\<rparr>)))"

definition net_get_mac :: "u8 list option \<Rightarrow> net \<Rightarrow> u8 list option res" where
  "net_get_mac mac n =
     (case mac of None \<Rightarrow> Inr None | Some m \<Rightarrow> bindR (copy6 (net_mac n) m) (\<lambda>r. Inr (Some r)))"


section \<open>The interrupt mask\<close>

text \<open>A controller whose data ports return the byte last written to them.\<close>

definition last_out :: "u16 \<Rightarrow> io_event list \<Rightarrow> u8" where
  "last_out port t = foldl (\<lambda>v e. case e of Out8 p w \<Rightarrow> if p = port then w else v | _ \<Rightarrow> v) 0 t"

definition mask_readable :: "(io_event list \<Rightarrow> u16 \<Rightarrow> u16) \<Rightarrow> bool" where
  "mask_readable dev \<longleftrightarrow> (\<forall>t. ucast (dev t PIC1_DATA) = last_out PIC1_DATA t \<and> ucast (dev t PIC2_DATA) = last_out PIC2_DATA t)"

text \<open>The mask of the sixteen lines, line \<open>n\<close> masked when its bit is set.\<close>

definition masked :: "io \<Rightarrow> nat \<Rightarrow> bool" where
  "masked i n = (if n < 8 then bit (last_out PIC1_DATA (io_trace i)) n else bit (last_out PIC2_DATA (io_trace i)) (n - 8))"

lemma last_out_append:
  "last_out port (t @ es) = foldl (\<lambda>v e. case e of Out8 p w \<Rightarrow> if p = port then w else v | _ \<Rightarrow> v) (last_out port t) es"
  by (simp add: last_out_def)

lemma pic_mask_bits:
  assumes "mask_readable (io_dev i)" "irq < 16" "n < 16"
  shows "masked (pic_mask_irq irq i) n \<longleftrightarrow> n = unat irq \<or> masked i n" "io_dev (pic_mask_irq irq i) = io_dev i"
    and "masked (pic_unmask_irq irq i) n \<longleftrightarrow> n \<noteq> unat irq \<and> masked i n" "io_dev (pic_unmask_irq irq i) = io_dev i"
proof -
  have l: "unat irq < 16" using assms(2) by (simp add: word_less_nat_alt)
  have s: "unat (irq - 8) = unat irq - 8" if "\<not> irq < 8" using that by (simp add: unat_sub not_less)
  have r: "ucast (io_dev i (io_trace i) PIC1_DATA) = last_out PIC1_DATA (io_trace i)"
    "ucast (io_dev i (io_trace i) PIC2_DATA) = last_out PIC2_DATA (io_trace i)"
    using assms(1) by (simp_all add: mask_readable_def)
  show "io_dev (pic_mask_irq irq i) = io_dev i" "io_dev (pic_unmask_irq irq i) = io_dev i"
    by (simp_all add: pic_mask_irq_def pic_unmask_irq_def inb_def Let_def split: prod.splits)
  show "masked (pic_mask_irq irq i) n \<longleftrightarrow> n = unat irq \<or> masked i n"
    and "masked (pic_unmask_irq irq i) n \<longleftrightarrow> n \<noteq> unat irq \<and> masked i n"
    using l assms(3) s r
    by (auto simp: pic_mask_irq_def pic_unmask_irq_def pic_line_def inb_def Let_def masked_def last_out_append pic_ports
        bit_or_iff bit_and_iff bit_not_iff bit_push_bit_iff word_less_nat_alt bit_1_iff bit_exp_iff)
qed

text \<open>
  On a controller whose mask registers read back what was written, masking one of the
  sixteen lines masks that line and no other, and unmasking it again gives the mask without
  that line.
\<close>

theorem pic_mask_unmask:
  assumes "mask_readable (io_dev i)" "irq < 16" "n < 16"
  shows "(masked (pic_mask_irq irq i) n \<longleftrightarrow> n = unat irq \<or> masked i n) \<and>
    (masked (pic_unmask_irq irq (pic_mask_irq irq i)) n \<longleftrightarrow> n \<noteq> unat irq \<and> masked i n)"
proof -
  have "mask_readable (io_dev (pic_mask_irq irq i))" using assms pic_mask_bits(2) by simp
  from pic_mask_bits(3) [OF this assms(2,3)] pic_mask_bits(1) [OF assms] show ?thesis by blast
qed

lemma pic_remap_unmasks: "n < 16 \<Longrightarrow> \<not> masked (pic_remap i) n" "n < 16 \<Longrightarrow> masked (pic_init i) n"
proof -
  have "last_out PIC1_DATA (io_trace (pic_program v i)) = v \<and> last_out PIC2_DATA (io_trace (pic_program v i)) = v" for v
    by (simp add: pic_program_def outb_def last_out_def pic_ports)
  moreover have "bit (0xFF :: u8) k" if "k < 8" for k
  proof -
    have "(0xFF :: u8) = - 1" by simp
    then show ?thesis using that by (simp only: bit_minus_1_iff) simp
  qed
  ultimately show "n < 16 \<Longrightarrow> \<not> masked (pic_remap i) n" "n < 16 \<Longrightarrow> masked (pic_init i) n"
    by (auto simp: masked_def pic_remap_def pic_init_def)
qed

text \<open>The divisor 11931 of the 1.193182 MHz input makes 100 ticks a second.\<close>

lemma timer_programs_100_hz:
  "io_trace (snd (timer_init i)) = io_trace i @ [Out8 0x43 0x36, Out8 0x40 0x9B, Out8 0x40 0x2E]"
  "0x2E9B = timer_divisor"
  by (simp_all add: timer_init_def timer_divisor_def)

section \<open>Mouse packets\<close>

definition mouse_ok :: "mouse \<Rightarrow> bool" where
  "mouse_ok m \<longleftrightarrow> mouse_cycle m < 3 \<and> length (mouse_packet m) = 3 \<and> 0 \<le> sint (mouse_x m) \<and> 0 \<le> sint (mouse_y m)"

lemma clamp_low_nonneg [simp]: "0 \<le> sint (clamp_low v)"
  by (simp add: clamp_low_def)

lemma mouse_irq_ok [kernel_inv]: "mouse_ok m \<Longrightarrow> mouse_ok (fst (mouse_irq_handler (m, i)))"
  by (auto simp: mouse_ok_def mouse_irq_handler_def mouse_finish_def inb_def Let_def split: if_splits)

lemma mouse_init_ok [kernel_inv]: "length (mouse_packet m) = 3 \<Longrightarrow> mouse_ok (fst (mouse_init (m, i)))"
  by (simp add: mouse_ok_def mouse_init_def mouse_init_driver_def split_def Let_def)

text \<open>The bytes the mouse sends for a movement, in the standard three byte format.\<close>

definition packet_of :: "u8 \<Rightarrow> int \<Rightarrow> int \<Rightarrow> u8 list" where
  "packet_of buttons dx dy =
     [(buttons AND 0x07) OR 0x08 OR (if dx < 0 then 0x10 else 0) OR (if dy < 0 then 0x20 else 0), word_of_int dx, word_of_int dy]"

text \<open>The interrupts of a packet, the controller presenting one byte to each.\<close>

primrec mouse_irqs :: "u8 list \<Rightarrow> mouse \<Rightarrow> mouse" where
  "mouse_irqs [] m = m"
| "mouse_irqs (b # bs) m = mouse_irqs bs (fst (mouse_irq_handler (m, \<lparr>io_trace = [], io_dev = (\<lambda>_ _. ucast b)\<rparr>)))"

lemma sint_u8: "sint (x :: u8) = (if uint x < 128 then uint x else uint x - 256)"
proof -
  have "sint x = (uint x + 128) mod 256 - 128"
    by (simp add: sint_uint signed_take_bit_eq_take_bit_shift take_bit_eq_mod)
  moreover have "0 \<le> uint x" "uint x < 256" using uint_lt2p [of x] by simp_all
  moreover have "(uint x + 128) mod 256 = uint x - 128" if "128 \<le> uint x"
    using that calculation(2,3) by (simp add: mod_pos_geq mod_pos_pos_trivial)
  ultimately show ?thesis by (simp add: mod_pos_pos_trivial)
qed

lemma or_F0_range: "- 16 \<le> sint (b OR 0xF0 :: u8)" "sint (b OR 0xF0 :: u8) < 0"
proof -
  have "0xF0 \<le> b OR 0xF0" by (rule le_word_or1)
  then have "240 \<le> uint (b OR 0xF0)" by (simp add: word_le_def)
  moreover have "uint (b OR 0xF0) < 256" using uint_lt2p [of "b OR 0xF0"] by simp
  ultimately show "- 16 \<le> sint (b OR 0xF0 :: u8)" "sint (b OR 0xF0 :: u8) < 0" by (simp_all add: sint_u8)
qed

lemma small_delta:
  assumes "- 16 \<le> d" "d \<le> 127"
  shows "sint (mouse_delta (word_of_int d) (d < 0)) = d"
proof (cases "d < 0")
  case True
  then have "d \<in> {-16, -15, -14, -13, -12, -11, -10, -9, -8, -7, -6, -5, -4, -3, -2, -1}" using assms(1) by (simp only: insert_iff empty_iff simp_thms) presburger
  then show ?thesis by (auto simp: mouse_delta_def sint_u8 unsigned_minus_1_eq_mask mask_eq_exp_minus_1)
next
  case False
  then have "uint (word_of_int d :: u8) = d" using assms(2) by (simp add: uint_word_of_int)
  then show ?thesis using False assms(2) by (simp add: mouse_delta_def sint_u8)
qed

text \<open>The sum of a coordinate and a movement, cut off at 0.\<close>

lemma sint_add_delta:
  assumes "0 \<le> sint x" "sint x < 2 ^ 31 - 256"
  shows "sint (clamp_low (x + scast (d :: u8))) = max 0 (sint x + sint d)"
    and "sint (clamp_low (x - scast (d :: u8))) = max 0 (sint x - sint d)"
proof -
  have d: "- 128 \<le> sint d" "sint d < 128" using sint_greater_eq [of d] sint_less [of d] by simp_all
  have s: "sint (scast d :: u32) = sint d" using d by (simp only: signed_scast_eq) (simp add: signed_take_bit_int_eq_self)
  have "sint (x + scast d) = sint x + sint d" "sint (x - scast d) = sint x - sint d"
    using d s assms by (simp_all add: sint_word_ariths signed_take_bit_int_eq_self)
  then show "sint (clamp_low (x + scast (d :: u8))) = max 0 (sint x + sint d)"
    and "sint (clamp_low (x - scast (d :: u8))) = max 0 (sint x - sint d)"
    by (auto simp: clamp_low_def)
qed

text \<open>What the three interrupts of a packet do.\<close>

lemma mouse_irqs_packet:
  assumes "mouse_cycle m = 0" "length (mouse_packet m) = 3" "a AND 0x08 \<noteq> 0"
  shows "mouse_irqs [a, b, c] m = m\<lparr>mouse_packet := [a, b, c],
    mouse_x := clamp_low (mouse_x m + scast (mouse_delta b (a AND 0x10 \<noteq> 0))),
    mouse_y := clamp_low (mouse_y m - scast (mouse_delta c (a AND 0x20 \<noteq> 0))),
    mouse_buttons := a AND 0x07, mouse_moved := True, mouse_cycle := 0\<rparr>"
proof -
  obtain p q r where "mouse_packet m = [p, q, r]" using assms(2) by (auto simp: length_Suc_conv numeral_3_eq_3)
  then show ?thesis using assms(1,3) by (simp add: mouse_irq_handler_def mouse_finish_def inb_def Let_def)
qed

text \<open>Bytes without the synchronisation bit only leave a trace in the packet buffer.\<close>

lemma mouse_irqs_noise:
  assumes "\<forall>b \<in> set bs. b AND 0x08 = 0" "mouse_cycle m = 0" "length (mouse_packet m) = 3"
  shows "\<exists>p. mouse_irqs (bs @ cs) m = mouse_irqs cs (m\<lparr>mouse_packet := p\<rparr>) \<and> length p = 3"
  using assms
proof (induction bs arbitrary: m)
  case Nil
  then show ?case by (intro exI [of _ "mouse_packet m"]) simp
next
  case (Cons b bs)
  let ?m = "m\<lparr>mouse_packet := (mouse_packet m)[0 := b]\<rparr>"
  have "\<exists>p. mouse_irqs (bs @ cs) ?m = mouse_irqs cs (?m\<lparr>mouse_packet := p\<rparr>) \<and> length p = 3"
    using Cons.prems by (intro Cons.IH) simp_all
  then show ?case using Cons.prems by (simp add: mouse_irq_handler_def inb_def Let_def)
qed

text \<open>
  C31. From a state between packets, the three interrupts of a packet move the pointer by what the
  packet says when the movement is between -16 and 127 in both directions, y upwards, stop it at
  0, and report the buttons; bytes without the synchronisation bit are skipped before.
\<close>

theorem mouse_packet_moves:
  assumes "mouse_cycle m = 0" "length (mouse_packet m) = 3" "0 \<le> sint (mouse_x m)" "0 \<le> sint (mouse_y m)"
    and "sint (mouse_x m) < 2 ^ 31 - 256" "sint (mouse_y m) < 2 ^ 31 - 256"
    and "- 16 \<le> dx" "dx \<le> 127" "- 16 \<le> dy" "dy \<le> 127"
    and noise: "\<forall>b \<in> set bs. b AND 0x08 = 0"
  shows "let m' = mouse_irqs (bs @ packet_of buttons dx dy) m in
    sint (mouse_x m') = max 0 (sint (mouse_x m) + dx) \<and> sint (mouse_y m') = max 0 (sint (mouse_y m) - dy) \<and>
    mouse_buttons m' = buttons AND 0x07 \<and> mouse_has_moved m' \<and> mouse_cycle m' = 0"
proof -
  obtain p where p: "mouse_irqs (bs @ packet_of buttons dx dy) m = mouse_irqs (packet_of buttons dx dy) (m\<lparr>mouse_packet := p\<rparr>)" "length p = 3"
    using mouse_irqs_noise [OF noise assms(1,2)] by blast
  define a :: u8 where "a = (buttons AND 0x07) OR 0x08 OR (if dx < 0 then 0x10 else 0) OR (if dy < 0 then 0x20 else 0)"
  have a: "a AND 0x08 \<noteq> 0" "a AND 0x10 \<noteq> 0 \<longleftrightarrow> dx < 0" "a AND 0x20 \<noteq> 0 \<longleftrightarrow> dy < 0" "a AND 0x07 = buttons AND 0x07"
    by (auto simp: a_def bit.conj_disj_distrib2 and.assoc)
  let ?m = "m\<lparr>mouse_packet := p\<rparr>"
  have "mouse_cycle ?m = 0" "length (mouse_packet ?m) = 3" using assms(1) p(2) by simp_all
  note step = mouse_irqs_packet [OF this a(1), unfolded a(2-4)]
  show ?thesis
    unfolding p(1) unfolding packet_of_def a_def [symmetric] step Let_def
    using assms(3-10) by (simp add: sint_add_delta small_delta mouse_has_moved_def)
qed

theorem mouse_packet_moves_witness:
  "let m' = mouse_irqs ([0x00, 0x41] @ packet_of 1 5 (- 3)) (mouse_boot\<lparr>mouse_x := 10\<rparr>) in
    sint (mouse_x m') = 15 \<and> sint (mouse_y m') = 3 \<and> mouse_buttons m' = 1"
proof -
  have "let m' = mouse_irqs ([0x00, 0x41] @ packet_of 1 5 (- 3)) (mouse_boot\<lparr>mouse_x := 10\<rparr>) in
      sint (mouse_x m') = max 0 (sint (mouse_x (mouse_boot\<lparr>mouse_x := 10\<rparr>)) + 5) \<and>
      sint (mouse_y m') = max 0 (sint (mouse_y (mouse_boot\<lparr>mouse_x := 10\<rparr>)) - (- 3)) \<and>
      mouse_buttons m' = 1 AND 0x07 \<and> mouse_has_moved m' \<and> mouse_cycle m' = 0"
    by (rule mouse_packet_moves) (simp_all add: mouse_boot_def)
  then show ?thesis by (simp add: Let_def mouse_boot_def)
qed

text \<open>
  A packet whose sign bit is set moves the pointer by at most 16, however fast the mouse
  moved: the sign is applied to the top four bits of the counter instead of above it, so a
  movement of -100 arrives as -4.
\<close>

theorem fast_negative_move_cut:
  assumes "mouse_cycle m = 0" "length (mouse_packet m) = 3" "16 \<le> sint (mouse_x m)" "sint (mouse_x m) < 2 ^ 31 - 256"
    and "- 256 \<le> dx" "dx < 0"
  shows "let m' = mouse_irqs (packet_of buttons dx dy) m in
    sint (mouse_x m) - 16 \<le> sint (mouse_x m') \<and> sint (mouse_x m') < sint (mouse_x m) \<and>
    (dx = - 100 \<longrightarrow> sint (mouse_x m') = sint (mouse_x m) - 4)"
proof -
  define a :: u8 where "a = (buttons AND 0x07) OR 0x08 OR (if dx < 0 then 0x10 else 0) OR (if dy < 0 then 0x20 else 0)"
  have a: "a AND 0x08 \<noteq> 0" "a AND 0x10 \<noteq> 0 \<longleftrightarrow> True"
    using assms(6) by (auto simp: a_def bit.conj_disj_distrib2 and.assoc)
  note step = mouse_irqs_packet [OF assms(1,2) a(1), unfolded a(2)]
  have x: "sint (mouse_x (mouse_irqs (packet_of buttons dx dy) m)) = max 0 (sint (mouse_x m) + sint (word_of_int dx OR 0xF0 :: u8))"
    unfolding packet_of_def a_def [symmetric] step
    using assms(3,4) by (simp add: sint_add_delta mouse_delta_def)
  have "sint (word_of_int (- 100) OR 0xF0 :: u8) = - 4" by (simp add: sint_u8)
  then show ?thesis using x or_F0_range [of "word_of_int dx"] assms(3) by (auto simp: Let_def)
qed

theorem fast_negative_move_cut_witness:
  "sint (mouse_x (mouse_irqs (packet_of 0 (- 100) 0) (mouse_boot\<lparr>mouse_x := 200\<rparr>))) = 196"
  using fast_negative_move_cut [of "mouse_boot\<lparr>mouse_x := 200\<rparr>" "- 100" 0 0] by (simp add: mouse_boot_def Let_def)

theorem pic_mask_unmask_witness:
  "let i = \<lparr>io_trace = [Out8 0xA1 0x10], io_dev = (\<lambda>t p. ucast (last_out p t))\<rparr>
   in masked (pic_mask_irq 9 i) 9 \<and> masked (pic_mask_irq 9 i) 12 \<and> \<not> masked (pic_unmask_irq 9 (pic_mask_irq 9 i)) 9"
proof -
  let ?i = "\<lparr>io_trace = [Out8 0xA1 0x10], io_dev = (\<lambda>t p. ucast (last_out p t))\<rparr>"
  have r: "mask_readable (io_dev ?i)" by (simp add: mask_readable_def)
  have "masked ?i 12" by (simp add: masked_def last_out_def pic_ports)
  then show ?thesis
    using pic_mask_unmask [OF r, of 9 9] pic_mask_unmask [OF r, of 9 12] by (simp add: Let_def)
qed


section \<open>Disk transfers\<close>

text \<open>
  What a trace shows of a transfer: the words read from and written to the data port, and the
  bytes written to the other ports.
\<close>

fun data_in :: "io_event list \<Rightarrow> u16 list" where
  "data_in [] = []"
| "data_in (In16 p w # t) = (if p = ATA_DATA then w # data_in t else data_in t)"
| "data_in (_ # t) = data_in t"

fun data_out :: "io_event list \<Rightarrow> u16 list" where
  "data_out [] = []"
| "data_out (Out16 p w # t) = (if p = ATA_DATA then w # data_out t else data_out t)"
| "data_out (_ # t) = data_out t"

fun bytes_out :: "io_event list \<Rightarrow> (u16 \<times> u8) list" where
  "bytes_out [] = []"
| "bytes_out (Out8 p v # t) = (p, v) # bytes_out t"
| "bytes_out (_ # t) = bytes_out t"

lemma data_in_append [simp]: "data_in (s @ t) = data_in s @ data_in t"
  by (induction s rule: data_in.induct) auto

lemma data_out_append [simp]: "data_out (s @ t) = data_out s @ data_out t"
  by (induction s rule: data_out.induct) auto

lemma bytes_out_append [simp]: "bytes_out (s @ t) = bytes_out s @ bytes_out t"
  by (induction s rule: bytes_out.induct) auto

text \<open>A drive that is never busy and always has data to transfer.\<close>

definition drive_ready :: "(io_event list \<Rightarrow> u16 \<Rightarrow> u16) \<Rightarrow> bool" where
  "drive_ready dev \<longleftrightarrow> (\<forall>t. ucast (dev t ATA_STATUS) AND (0x80 :: u8) = 0 \<and> ucast (dev t ATA_STATUS) AND (0x08 :: u8) \<noteq> 0)"

lemma ata_poll_once:
  assumes "stop (ucast (io_dev i (io_trace i) ATA_STATUS))"
  shows "ata_wait stop i = Inr (io_note (In8 ATA_STATUS (ucast (io_dev i (io_trace i) ATA_STATUS))) i)"
  using assms by (simp add: ata_wait_def ata_poll.simps inb_def Let_def)

lemma ata_ready_waits:
  assumes "drive_ready (io_dev i)"
  shows "\<exists>st. ata_wait_ready i = Inr (io_note (In8 ATA_STATUS st) i)" "\<exists>st. ata_wait_drq i = Inr (io_note (In8 ATA_STATUS st) i)"
  using assms ata_poll_once by (auto simp: drive_ready_def ata_wait_ready_def ata_wait_drq_def)

text \<open>Every data word read is the one the device presented at that moment.\<close>

primrec honest_from :: "(io_event list \<Rightarrow> u16 \<Rightarrow> u16) \<Rightarrow> io_event list \<Rightarrow> io_event list \<Rightarrow> bool" where
  "honest_from dev u [] \<longleftrightarrow> True"
| "honest_from dev u (e # t) \<longleftrightarrow> (case e of In16 p w \<Rightarrow> p = ATA_DATA \<longrightarrow> w = dev u p | _ \<Rightarrow> True) \<and> honest_from dev (u @ [e]) t"

definition honest :: "(io_event list \<Rightarrow> u16 \<Rightarrow> u16) \<Rightarrow> io_event list \<Rightarrow> bool" where "honest dev t = honest_from dev [] t"

lemma honest_from_snoc:
  "honest_from dev u (t @ [e]) \<longleftrightarrow> honest_from dev u t \<and> (case e of In16 p w \<Rightarrow> p = ATA_DATA \<longrightarrow> w = dev (u @ t) p | _ \<Rightarrow> True)"
  by (induction t arbitrary: u; cases e) simp_all

lemma honest_snoc: "honest dev (t @ [e]) \<longleftrightarrow> honest dev t \<and> (case e of In16 p w \<Rightarrow> p = ATA_DATA \<longrightarrow> w = dev t p | _ \<Rightarrow> True)"
  by (cases e) (simp_all add: honest_def honest_from_snoc)

lemma honest_no_data: "data_in t = [] \<Longrightarrow> honest dev t"
proof -
  have "data_in t = [] \<Longrightarrow> honest_from dev u t" for u
    by (induction t arbitrary: u rule: data_in.induct) (auto split: if_splits)
  then show "data_in t = [] \<Longrightarrow> honest dev t" by (simp add: honest_def)
qed

lemma honest_note [simp]: "honest dev (io_trace (io_note (In8 p v) i)) \<longleftrightarrow> honest dev (io_trace i)"
  "honest dev (io_trace (outb p v i)) \<longleftrightarrow> honest dev (io_trace i)"
  by (simp_all add: honest_snoc)

lemma read_words_trace:
  "read_words n i = (ws, i') \<Longrightarrow> length ws = n \<and> io_dev i' = io_dev i \<and> io_trace i' = io_trace i @ map (In16 ATA_DATA) ws \<and>
    (honest (io_dev i) (io_trace i) \<longrightarrow> honest (io_dev i) (io_trace i'))"
proof (induction n arbitrary: i ws i')
  case (Suc n)
  let ?i = "io_note (In16 ATA_DATA (io_dev i (io_trace i) ATA_DATA)) i"
  obtain vs where vs: "ws = io_dev i (io_trace i) ATA_DATA # vs" "read_words n ?i = (vs, i')"
    using Suc.prems by (auto simp: inw_def Let_def split: prod.splits)
  have "honest (io_dev i) (io_trace ?i) \<longleftrightarrow> honest (io_dev i) (io_trace i)" by (simp add: honest_snoc)
  then show ?case using Suc.IH [OF vs(2)] vs(1) by auto
qed simp

lemma outw_fold: "fold (outw p) ws i = i\<lparr>io_trace := io_trace i @ map (Out16 p) ws\<rparr>"
  by (induction ws arbitrary: i) (simp_all add: outw_def io_note_def)

lemma data_map [simp]: "data_in (map (In16 ATA_DATA) ws) = ws" "data_out (map (Out16 ATA_DATA) ws) = ws"
  "data_out (map (In16 ATA_DATA) ws) = []" "data_in (map (Out16 ATA_DATA) ws) = []"
  "bytes_out (map (In16 ATA_DATA) ws) = []" "bytes_out (map (Out16 ATA_DATA) ws) = []"
  by (induction ws) simp_all

lemma length_bytes_of [simp]: "length (bytes_of ws) = 2 * length ws"
  by (induction ws) (simp_all add: bytes_of_def)

lemma bytes_of_append [simp]: "bytes_of (v @ w) = bytes_of v @ bytes_of w"
  by (simp add: bytes_of_def)

lemma ucast_lo_hi:
  "ucast (ucast a OR push_bit 8 (ucast b :: u16)) = (a :: u8)"
  "ucast (drop_bit 8 (ucast a OR push_bit 8 (ucast b :: u16))) = (b :: u8)"
  by (intro bit_word_eqI; auto simp: bit_simps dest: bit_imp_le_length)+

lemma bytes_of_words_of: "even (length bs) \<Longrightarrow> bytes_of (words_of bs) = bs"
  by (induction bs rule: words_of.induct) (simp_all add: bytes_of_def ucast_lo_hi del: drop_bit_or)

lemma length_words_of [simp]: "length (words_of bs) = length bs div 2"
  by (induction bs rule: words_of.induct) simp_all

lemma words_of_append: "even (length as) \<Longrightarrow> words_of (as @ bs) = words_of as @ words_of bs"
  by (induction as rule: words_of.induct) simp_all

text \<open>The six bytes of a command: the drive and the address in 28 bits, the low byte of the count.\<close>

definition command_bytes :: "u8 \<Rightarrow> u32 \<Rightarrow> u32 \<Rightarrow> (u16 \<times> u8) list" where
  "command_bytes cmd lba cnt =
     [(0x1F6, 0xE0 OR ucast (drop_bit 24 lba AND 0x0F)), (0x1F2, ucast cnt), (0x1F3, ucast (lba AND 0xFF)),
      (0x1F4, ucast (drop_bit 8 lba AND 0xFF)), (0x1F5, ucast (drop_bit 16 lba AND 0xFF)), (0x1F7, cmd)]"

lemma ata_command_trace:
  "io_dev (ata_command cmd lba cnt i) = io_dev i"
  "\<exists>t. io_trace (ata_command cmd lba cnt i) = io_trace i @ t \<and> bytes_out t = command_bytes cmd lba cnt \<and> data_in t = [] \<and> data_out t = []"
  by (simp_all add: ata_command_def command_bytes_def)

lemma sector_offset:
  fixes q cnt :: u32
  assumes "q < cnt" "unat cnt < 2 ^ 23" "512 * unat cnt \<le> n"
  shows "unat (q * 512) = 512 * unat q" "512 * unat q + 512 \<le> n" "unat (q + 1) = Suc (unat q)"
proof -
  have qc: "unat q < unat cnt" using assms(1) by (simp add: word_less_nat_alt)
  then show "unat (q * 512) = 512 * unat q" using assms(2) by (simp add: unat_word_ariths)
  show "512 * unat q + 512 \<le> n" using qc assms(3) by simp
  show "unat (q + 1) = Suc (unat q)" by (rule unat_plus_one [OF assms(1)])
qed

lemma read_sector_spec:
  assumes "drive_ready (io_dev i)" "unat (s * 512) = k" "k + 512 \<le> length buf"
  shows "\<exists>ws t i'. read_sector s (buf, i) = Inr (take k buf @ bytes_of ws @ drop (k + 512) buf, i') \<and> length ws = 256 \<and>
    io_dev i' = io_dev i \<and> io_trace i' = io_trace i @ t \<and> data_in t = ws \<and> data_out t = [] \<and> bytes_out t = [] \<and>
    (honest (io_dev i) (io_trace i) \<longrightarrow> honest (io_dev i) (io_trace i'))"
proof -
  obtain st where st: "ata_wait_drq i = Inr (io_note (In8 ATA_STATUS st) i)" using ata_ready_waits(2) [OF assms(1)] by blast
  obtain ws i' where w: "read_words 256 (io_note (In8 ATA_STATUS st) i) = (ws, i')" by fastforce
  from read_words_trace [OF w] show ?thesis
    using assms(3) st w by (auto simp: read_sector_def assms(2) honest_snoc)
qed

lemma write_sector_spec:
  assumes "drive_ready (io_dev i)" "unat (s * 512) = k" "k + 512 \<le> length buf"
  shows "\<exists>t i'. write_sector buf s i = Inr i' \<and> io_dev i' = io_dev i \<and> io_trace i' = io_trace i @ t \<and>
    data_out t = words_of (take 512 (drop k buf)) \<and> data_in t = [] \<and> bytes_out t = []"
proof -
  obtain st where st: "ata_wait_drq i = Inr (io_note (In8 ATA_STATUS st) i)" using ata_ready_waits(2) [OF assms(1)] by blast
  then show ?thesis using assms(3) by (simp add: write_sector_def assms(2) outw_fold)
qed

lemma ata_read_spec:
  assumes dev: "drive_ready (io_dev i)" and n: "cnt \<noteq> 0" "unat cnt < 2 ^ 23" "512 * unat cnt \<le> length buf"
  shows "\<exists>ok buf' i' t. ata_read_sectors lba (Some buf) cnt i = Inr (ok, Some buf', i') \<and> io_dev i' = io_dev i \<and>
    io_trace i' = io_trace i @ t \<and> bytes_out t = command_bytes 0x20 lba cnt \<and> data_out t = [] \<and>
    length (data_in t) = 256 * unat cnt \<and> buf' = bytes_of (data_in t) @ drop (512 * unat cnt) buf \<and>
    (honest (io_dev i) (io_trace i) \<longrightarrow> honest (io_dev i) (io_trace i'))"
proof -
  obtain st where r: "ata_wait_ready i = Inr (io_note (In8 ATA_STATUS st) i)" using ata_ready_waits(1) [OF dev] by blast
  define i1 where "i1 = ata_command 0x20 lba cnt (io_note (In8 ATA_STATUS st) i)"
  obtain t0 where t0: "io_trace i1 = io_trace i @ t0" "bytes_out t0 = command_bytes 0x20 lba cnt" "data_in t0 = []" "data_out t0 = []"
    using ata_command_trace(2) [of "0x20" lba cnt "io_note (In8 ATA_STATUS st) i"] unfolding i1_def by auto
  have d1: "io_dev i1 = io_dev i" by (simp add: i1_def ata_command_trace)
  have h1: "honest dev (io_trace i1) \<longleftrightarrow> honest dev (io_trace i)" for dev
    by (simp add: i1_def ata_command_def del: io_note_simps outb_simps)
  let ?H = "\<lambda>t. honest (io_dev i) (io_trace i) \<longrightarrow> honest (io_dev i) t"
  let ?P = "\<lambda>(q :: u32) (b, j :: io). io_dev j = io_dev i \<and> ?H (io_trace j) \<and> (\<exists>t. io_trace j = io_trace i1 @ t \<and> bytes_out t = [] \<and> data_out t = [] \<and>
    length (data_in t) = 256 * unat q \<and> b = bytes_of (data_in t) @ drop (512 * unat q) buf)"
  have "\<exists>s'. for_up 0 cnt read_sector (buf, i1) = Inr s' \<and> ?P cnt s'"
  proof (rule for_up_total)
    show "?P 0 (buf, i1)" using d1 h1 by (simp add: exI [of _ "[]"] bytes_of_def)
    fix q s assume P: "?P q s" and q: "q < cnt"
    obtain b j where s: "s = (b, j)" by (cases s)
    from P have hj: "?H (io_trace j)" by (simp add: s)
    from P obtain t where t: "io_dev j = io_dev i" "io_trace j = io_trace i1 @ t" "bytes_out t = []" "data_out t = []"
      "length (data_in t) = 256 * unat q" "b = bytes_of (data_in t) @ drop (512 * unat q) buf" by (auto simp: s)
    note off = sector_offset [OF q n(2,3)]
    have "512 * unat q + 512 \<le> length b" using off(2) t(5,6) by simp
    moreover have "drive_ready (io_dev j)" using dev t(1) by simp
    ultimately obtain ws u j' where rs: "read_sector q (b, j) = Inr (take (512 * unat q) b @ bytes_of ws @ drop (512 * unat q + 512) b, j')"
        "length ws = 256" "io_dev j' = io_dev j" "io_trace j' = io_trace j @ u" "data_in u = ws" "data_out u = []" "bytes_out u = []"
        "honest (io_dev j) (io_trace j) \<longrightarrow> honest (io_dev j) (io_trace j')"
      using read_sector_spec [OF _ off(1)] by blast
    have "take (512 * unat q) b @ bytes_of ws @ drop (512 * unat q + 512) b = bytes_of (data_in (t @ u)) @ drop (512 * unat (q + 1)) buf"
      using t(5,6) rs(5) off(3) by (simp add: add.commute)
    moreover have "length (data_in (t @ u)) = 256 * unat (q + 1)" using t(5) rs(2,5) off(3) by simp
    moreover have "?H (io_trace j')" using rs(8) hj t(1) by simp
    ultimately show "\<exists>s'. read_sector q s = Inr s' \<and> ?P (q + 1) s'"
      using rs(1-7) t by (auto simp: s intro!: exI [of _ "t @ u"])
  qed simp
  then obtain b j t where e: "for_up 0 cnt read_sector (buf, i1) = Inr (b, j)" "io_dev j = io_dev i" "io_trace j = io_trace i1 @ t"
      "bytes_out t = []" "data_out t = []" "length (data_in t) = 256 * unat cnt" "b = bytes_of (data_in t) @ drop (512 * unat cnt) buf"
      "?H (io_trace j)"
    by auto
  then show ?thesis
    using n(1) r t0 honest_snoc [of "io_dev i" "io_trace i @ t0 @ t"]
    by (simp add: ata_read_sectors_def i1_def [symmetric] inb_def Let_def)
qed

lemma ata_write_spec:
  assumes dev: "drive_ready (io_dev i)" and n: "cnt \<noteq> 0" "unat cnt < 2 ^ 23" "512 * unat cnt \<le> length buf"
  shows "\<exists>ok i' t. ata_write_sectors lba (Some buf) cnt i = Inr (ok, i') \<and> io_dev i' = io_dev i \<and>
    io_trace i' = io_trace i @ t \<and> bytes_out t = command_bytes 0x30 lba cnt \<and> data_in t = [] \<and>
    data_out t = words_of (take (512 * unat cnt) buf)"
proof -
  obtain st where r: "ata_wait_ready i = Inr (io_note (In8 ATA_STATUS st) i)" using ata_ready_waits(1) [OF dev] by blast
  define i1 where "i1 = ata_command 0x30 lba cnt (io_note (In8 ATA_STATUS st) i)"
  obtain t0 where t0: "io_trace i1 = io_trace i @ t0" "bytes_out t0 = command_bytes 0x30 lba cnt" "data_in t0 = []" "data_out t0 = []"
    using ata_command_trace(2) [of "0x30" lba cnt "io_note (In8 ATA_STATUS st) i"] unfolding i1_def by auto
  have d1: "io_dev i1 = io_dev i" by (simp add: i1_def ata_command_trace)
  let ?P = "\<lambda>(q :: u32) (j :: io). io_dev j = io_dev i \<and> (\<exists>t. io_trace j = io_trace i1 @ t \<and> bytes_out t = [] \<and> data_in t = [] \<and>
    data_out t = words_of (take (512 * unat q) buf))"
  have "\<exists>s'. for_up 0 cnt (write_sector buf) i1 = Inr s' \<and> ?P cnt s'"
  proof (rule for_up_total)
    show "?P 0 i1" using d1 by (simp add: exI [of _ "[]"])
    fix q j assume P: "?P q j" and q: "q < cnt"
    then obtain t where t: "io_dev j = io_dev i" "io_trace j = io_trace i1 @ t" "bytes_out t = []" "data_in t = []"
      "data_out t = words_of (take (512 * unat q) buf)" by auto
    note off = sector_offset [OF q n(2,3)]
    have "drive_ready (io_dev j)" using dev t(1) by simp
    then obtain u j' where w: "write_sector buf q j = Inr j'" "io_dev j' = io_dev j" "io_trace j' = io_trace j @ u"
        "data_out u = words_of (take 512 (drop (512 * unat q) buf))" "data_in u = []" "bytes_out u = []"
      using write_sector_spec [OF _ off(1,2)] by blast
    have "take (512 * unat (q + 1)) buf = take (512 * unat q) buf @ take 512 (drop (512 * unat q) buf)"
      unfolding off(3) mult_Suc_right add.commute [of 512] by (rule take_add)
    moreover have "even (length (take (512 * unat q) buf))" using off(2) by simp
    ultimately have "data_out (t @ u) = words_of (take (512 * unat (q + 1)) buf)" using t(5) w(4) by (simp add: words_of_append)
    then show "\<exists>s'. write_sector buf q j = Inr s' \<and> ?P (q + 1) s'"
      using w t by (auto intro!: exI [of _ "t @ u"])
  qed simp
  then obtain j t where e: "for_up 0 cnt (write_sector buf) i1 = Inr j" "io_dev j = io_dev i" "io_trace j = io_trace i1 @ t"
      "bytes_out t = []" "data_in t = []" "data_out t = words_of (take (512 * unat cnt) buf)"
    by auto
  then show ?thesis
    using n(1) r t0 by (simp add: ata_write_sectors_def i1_def [symmetric] inb_def Let_def)
qed

text \<open>
  A drive that, on a fresh machine, gives back the words written to it in the order they were
  written: what a disk does when the sectors of the first write are read again.
\<close>

definition gives_back :: "(io_event list \<Rightarrow> u16 \<Rightarrow> u16) \<Rightarrow> bool" where
  "gives_back dev \<longleftrightarrow> (\<forall>t. length (data_in t) < length (data_out t) \<longrightarrow> dev t ATA_DATA = data_out t ! length (data_in t))"

lemma gives_back_data:
  assumes "gives_back dev" "honest dev (s @ t)" "data_in s = []" "data_out t = []" "length (data_in t) \<le> length (data_out s)"
  shows "data_in t = take (length (data_in t)) (data_out s)"
  using assms(2,4,5)
proof (induction t rule: rev_induct)
  case (snoc e t)
  have h: "honest dev (s @ t)" "case e of In16 p w \<Rightarrow> p = ATA_DATA \<longrightarrow> w = dev (s @ t) p | _ \<Rightarrow> True"
    using snoc.prems(1) honest_snoc [of dev "s @ t" e] by simp_all
  have IH: "data_in t = take (length (data_in t)) (data_out s)"
    using snoc.IH [OF h(1)] snoc.prems(2,3) by simp
  show ?case
  proof (cases "\<exists>w. e = In16 ATA_DATA w")
    case True
    then obtain w where e: "e = In16 ATA_DATA w" by blast
    have "length (data_in t) < length (data_out s)" using snoc.prems(3) e by simp
    moreover have "w = data_out s ! length (data_in t)"
      using h(2) assms(1,3) snoc.prems(2) e calculation unfolding gives_back_def by auto
    ultimately show ?thesis using IH e by (simp add: take_Suc_conv_app_nth)
  next
    case False
    then have "data_in [e] = []" by (cases e) auto
    then show ?thesis using IH by simp
  qed
qed simp


text \<open>A drive that is always ready and gives back what it got.\<close>

definition demo_drive :: io where
  "demo_drive = \<lparr>io_trace = [], io_dev = (\<lambda>t p. if p = ATA_STATUS then 0x48
     else if length (data_in t) < length (data_out t) then data_out t ! length (data_in t) else 0)\<rparr>"


lemma mac_roundtrip:
  assumes "length (net_mac n) = 6" "6 \<le> length m" "6 \<le> length r"
  shows "\<exists>n'. net_set_mac (Some m) n = Inr n' \<and> net_get_mac (Some r) n' = Inr (Some (take 6 m @ drop 6 r)) \<and> length (net_mac n') = 6"
  using assms by (simp add: net_set_mac_def net_get_mac_def copy6_def)

lemma net_never_receives: "fst (net_receive buffer sz n) = False"
  by (simp add: net_receive_def)

end
