(* ===== verification/Mira_Irq.thy ===== *)
theory Mira_Irq
  imports Mira_Dev Mira_Keyboard Mira_Process Mira_Fb
begin

text \<open>
  Interrupts from the processor tables to the drivers: the descriptor tables
  (\<open>arch/x86_64/gdt.c\<close>, \<open>arch/x86_64/idt.c\<close>), the interrupt entry in C (\<open>arch/x86_64/isr.c\<close>), the
  registry of drivers (\<open>drivers/driver.c\<close>) and the entry points of the registered drivers, on a
  machine state made of the states of the components. The addresses of the tables and of the
  assembly stubs are arguments.
\<close>

section \<open>Segment descriptors\<close>

record gdt_entry =
  g_limit_low :: u16
  g_base_low :: u16
  g_base_mid :: u8
  g_access :: u8
  g_granularity :: u8
  g_base_high :: u8

definition GDT_ENTRIES :: nat where "GDT_ENTRIES = 7"

definition gdt_empty :: gdt_entry where
  "gdt_empty = \<lparr>g_limit_low = 0, g_base_low = 0, g_base_mid = 0, g_access = 0, g_granularity = 0, g_base_high = 0\<rparr>"

definition gdt_set_entry :: "nat \<Rightarrow> u32 \<Rightarrow> u32 \<Rightarrow> u8 \<Rightarrow> u8 \<Rightarrow> gdt_entry list \<Rightarrow> gdt_entry list" where
  "gdt_set_entry k base limit access gran gdt = gdt[k :=
     \<lparr>g_limit_low = ucast (limit AND 0xFFFF), g_base_low = ucast (base AND 0xFFFF),
      g_base_mid = ucast (drop_bit 16 base AND 0xFF), g_access = access,
      g_granularity = ucast (drop_bit 16 limit AND 0x0F) OR (gran AND 0xF0),
      g_base_high = ucast (drop_bit 24 base AND 0xFF)\<rparr>]"

text \<open>
  The descriptor of the task state takes two entries; the second one holds the upper half of
  the address in the place of its first two fields, and zero.
\<close>

definition gdt_set_tss :: "nat \<Rightarrow> u64 \<Rightarrow> u32 \<Rightarrow> gdt_entry list \<Rightarrow> gdt_entry list" where
  "gdt_set_tss k base limit gdt = gdt
     [k := \<lparr>g_limit_low = ucast (limit AND 0xFFFF), g_base_low = ucast (base AND 0xFFFF),
        g_base_mid = ucast (drop_bit 16 base AND 0xFF), g_access = 0x89,
        g_granularity = ucast (drop_bit 16 limit AND 0x0F), g_base_high = ucast (drop_bit 24 base AND 0xFF)\<rparr>,
      Suc k := gdt_empty\<lparr>g_limit_low := ucast (drop_bit 32 base), g_base_low := ucast (drop_bit 48 base)\<rparr>]"

text \<open>\<open>sizeof(tss)\<close>, of a packed struct.\<close>

definition TSS_SIZE :: u32 where "TSS_SIZE = 104"

definition gdt_init :: "u64 \<Rightarrow> gdt_entry list \<Rightarrow> gdt_entry list" where
  "gdt_init tss gdt =
     gdt_set_tss 5 tss (TSS_SIZE - 1)
      (gdt_set_entry 4 0 0xFFFFF 0xF2 0xA0
        (gdt_set_entry 3 0 0xFFFFF 0xFA 0xA0
          (gdt_set_entry 2 0 0xFFFFF 0x92 0xA0
            (gdt_set_entry 1 0 0xFFFFF 0x9A 0xA0
              (gdt_set_entry 0 0 0 0 0 gdt)))))"

definition gdt_user_code_selector :: u16 where "gdt_user_code_selector = 0x18 OR 3"
definition gdt_user_data_selector :: u16 where "gdt_user_data_selector = 0x20 OR 3"
definition gdt_tss_selector :: u16 where "gdt_tss_selector = 0x28"

section \<open>Interrupt gates\<close>

record idt_entry =
  i_offset_low :: u16
  i_selector :: u16
  i_ist :: u8
  i_type_attr :: u8
  i_offset_mid :: u16
  i_offset_high :: u32
  i_zero :: u32

definition IDT_ENTRIES :: nat where "IDT_ENTRIES = 256"

definition idt_set_gate :: "u8 \<Rightarrow> u64 \<Rightarrow> u8 \<Rightarrow> idt_entry list \<Rightarrow> idt_entry list" where
  "idt_set_gate num handler type_attr idt = idt[unat num :=
     \<lparr>i_offset_low = ucast (handler AND 0xFFFF), i_selector = 0x08, i_ist = 0, i_type_attr = type_attr,
      i_offset_mid = ucast (drop_bit 16 handler AND 0xFFFF), i_offset_high = ucast (drop_bit 32 handler AND 0xFFFFFFFF),
      i_zero = 0\<rparr>]"

definition idt_init :: "idt_entry list \<Rightarrow> idt_entry list" where
  "idt_init idt = fold (\<lambda>i. idt_set_gate (word_of_nat i) 0 0) [0..<IDT_ENTRIES] idt"

text \<open>\<open>isr_stubs\<close> gives the addresses of the 48 assembly stubs.\<close>

definition isr_init :: "(nat \<Rightarrow> u64) \<Rightarrow> idt_entry list \<times> io \<Rightarrow> idt_entry list \<times> io" where
  "isr_init isr_stubs = (\<lambda>(idt, i).
     (fold (\<lambda>k. idt_set_gate (word_of_nat k) (isr_stubs k) 0x8E) [0..<48] idt, pic_remap i))"

section \<open>Driver registry\<close>

text \<open>
  A handler either returns, or leaves: the timer's handler can switch to another process, whose
  code then runs, and what follows in the interrupted call happens only when the process that
  was interrupted is resumed.
\<close>

datatype 's flow = Returns 's | Leaves 's

record 's driver =
  drv_name :: string
  drv_id :: u32
  drv_init :: "('s \<Rightarrow> 's res) option"
  drv_irq :: "(u8 \<Rightarrow> 's \<Rightarrow> 's flow res) option"

definition MAX_DRIVERS :: nat where "MAX_DRIVERS = 32"

text \<open>The used part of \<open>driver_list\<close>, whose length is \<open>driver_count\<close>.\<close>

definition driver_register :: "'s driver \<Rightarrow> 's driver list \<Rightarrow> int \<times> 's driver list" where
  "driver_register drv ds = (if length ds \<ge> MAX_DRIVERS then (-1, ds) else (0, ds @ [drv]))"

primrec register_section :: "'s driver option list \<Rightarrow> 's driver list \<Rightarrow> 's driver list" where
  "register_section [] ds = ds"
| "register_section (p # ps) ds =
     register_section ps (case p of None \<Rightarrow> ds | Some d \<Rightarrow> snd (driver_register d ds))"

primrec init_drivers :: "'s driver list \<Rightarrow> 's \<Rightarrow> 's res" where
  "init_drivers [] s = Inr s"
| "init_drivers (d # ds) s = bindR (case drv_init d of None \<Rightarrow> Inr s | Some f \<Rightarrow> f s) (init_drivers ds)"

text \<open>The argument is the contents of the linker section \<open>.drivers\<close>.\<close>

definition driver_subsystem_init :: "'s driver option list \<Rightarrow> 's \<Rightarrow> ('s driver list \<times> 's) res" where
  "driver_subsystem_init sect s =
     (let ds = register_section sect [] in bindR (init_drivers ds s) (\<lambda>s1. Inr (ds, s1)))"

definition driver_find :: "u32 \<Rightarrow> 's driver list \<Rightarrow> 's driver option" where
  "driver_find num ds = find (\<lambda>d. drv_id d = num) ds"

primrec driver_dispatch_irq :: "u8 \<Rightarrow> 's driver list \<Rightarrow> 's \<Rightarrow> 's flow res" where
  "driver_dispatch_irq irq [] s = Inr (Returns s)"
| "driver_dispatch_irq irq (d # ds) s =
     (case drv_irq d of None \<Rightarrow> driver_dispatch_irq irq ds s
      | Some f \<Rightarrow> bindR (f irq s) (\<lambda>r. case r of Returns s1 \<Rightarrow> driver_dispatch_irq irq ds s1 | Leaves s1 \<Rightarrow> Inr (Leaves s1)))"

section \<open>The drivers\<close>

record machine =
  m_io :: io
  m_ticks :: u64
  m_procs :: psys
  m_kbd :: kbd
  m_mouse :: mouse
  m_fb :: fbst

definition timer_driver_init :: "machine \<Rightarrow> machine res" where
  "timer_driver_init m = (let (t, i) = timer_init (m_io m) in Inr (m\<lparr>m_ticks := t, m_io := i\<rparr>))"

text \<open>
  \<open>resume\<close> is the address at which \<open>process_switch\<close> resumes the process it leaves; it has left it
  when another process has become the current one.
\<close>

definition timer_driver_irq :: "u64 \<Rightarrow> u8 \<Rightarrow> machine \<Rightarrow> machine flow res" where
  "timer_driver_irq resume irq m =
     (let m1 = m\<lparr>m_ticks := timer_on_irq (m_ticks m)\<rparr>
      in bindR (scheduler_tick resume (m_procs m1)) (\<lambda>p.
           Inr ((if current_process p = current_process (m_procs m1) then Returns else Leaves) (m1\<lparr>m_procs := p\<rparr>))))"

definition timer_driver :: "u64 \<Rightarrow> machine driver" where
  "timer_driver resume = \<lparr>drv_name = ''pit'', drv_id = 1, drv_init = Some timer_driver_init, drv_irq = Some (timer_driver_irq resume)\<rparr>"

text \<open>\<open>keyboard_init\<close> of \<open>Mira_Keyboard\<close> with its controller read through the ports.\<close>

partial_function (option) controller_drain :: "io \<Rightarrow> io option" where
  "controller_drain i =
     (let (st, i1) = inb 0x64 i in if st AND 1 \<noteq> 0 then controller_drain (snd (inb 0x60 i1)) else Some i1)"

definition keyboard_driver_init :: "machine \<Rightarrow> machine res" where
  "keyboard_driver_init m =
     (case controller_drain (m_io m) of
        None \<Rightarrow> Inl Diverges
      | Some i \<Rightarrow> Inr (m\<lparr>m_io := i, m_kbd := (m_kbd m)\<lparr>kbd_head := 0, kbd_tail := 0, shift_pressed := False, caps_lock := False\<rparr>\<rparr>))"

definition keyboard_driver_irq :: "u8 \<Rightarrow> machine \<Rightarrow> machine flow res" where
  "keyboard_driver_irq irq m = (let (sc, i) = inb 0x60 (m_io m) in Inr (Returns (m\<lparr>m_io := i, m_kbd := keyboard_on_irq sc (m_kbd m)\<rparr>)))"

definition keyboard_driver :: "machine driver" where
  "keyboard_driver = \<lparr>drv_name = ''ps2kbd'', drv_id = 2, drv_init = Some keyboard_driver_init, drv_irq = Some keyboard_driver_irq\<rparr>"

definition fb_driver :: "machine driver" where
  "fb_driver = \<lparr>drv_name = ''fb'', drv_id = 3, drv_init = Some (\<lambda>m. let r = fb_driver_init (m_fb m) in Inr m), drv_irq = None\<rparr>"

definition on_mouse :: "(mouse \<times> io \<Rightarrow> mouse \<times> io) \<Rightarrow> machine \<Rightarrow> machine" where
  "on_mouse f m = (let (s, i) = f (m_mouse m, m_io m) in m\<lparr>m_mouse := s, m_io := i\<rparr>)"

definition mouse_driver :: "machine driver" where
  "mouse_driver = \<lparr>drv_name = ''PS/2 Mouse'', drv_id = 4, drv_init = Some (\<lambda>m. Inr (on_mouse mouse_init_driver m)),
     drv_irq = Some (\<lambda>irq m. Inr (Returns (on_mouse mouse_irq_handler m)))\<rparr>"

definition ata_drv :: "machine driver" where
  "ata_drv = \<lparr>drv_name = ''ATA'', drv_id = 5, drv_init = None, drv_irq = None\<rparr>"

text \<open>The section in the order in which the files are linked.\<close>

definition drivers_section :: "u64 \<Rightarrow> machine driver option list" where
  "drivers_section resume = map Some [timer_driver resume, keyboard_driver, fb_driver, mouse_driver, ata_drv]"

section \<open>Interrupt entry\<close>

record registers =
  reg_r15 :: u64
  reg_r14 :: u64
  reg_r13 :: u64
  reg_r12 :: u64
  reg_r11 :: u64
  reg_r10 :: u64
  reg_r9 :: u64
  reg_r8 :: u64
  reg_rdi :: u64
  reg_rsi :: u64
  reg_rbp :: u64
  reg_rbx :: u64
  reg_rdx :: u64
  reg_rcx :: u64
  reg_rax :: u64
  int_no :: u64
  err_code :: u64
  reg_rip :: u64
  reg_cs :: u64
  reg_rflags :: u64
  reg_rsp :: u64
  reg_ss :: u64

type_synonym isr_table = "u8 \<Rightarrow> (registers \<Rightarrow> machine \<Rightarrow> machine flow res) option"

definition isr_register_handler :: "u8 \<Rightarrow> (registers \<Rightarrow> machine \<Rightarrow> machine flow res) \<Rightarrow> isr_table \<Rightarrow> isr_table" where
  "isr_register_handler num handler handlers = handlers(num := Some handler)"

definition run_isr :: "isr_table \<Rightarrow> machine driver list \<Rightarrow> registers \<Rightarrow> machine \<Rightarrow> machine flow res" where
  "run_isr handlers ds regs m =
     (if int_no regs \<ge> 256 then Inl OutOfBounds
      else case handlers (ucast (int_no regs)) of
             Some h \<Rightarrow> h regs m
           | None \<Rightarrow> if int_no regs < 48 then driver_dispatch_irq (ucast (int_no regs - 32)) ds m else Inr (Returns m))"

definition isr_handler :: "isr_table \<Rightarrow> machine driver list \<Rightarrow> registers \<Rightarrow> machine \<Rightarrow> machine flow res" where
  "isr_handler handlers ds regs m =
     (if int_no regs < 32 then Inl (Panic (if int_no regs = 14 then ''page fault'' else ''cpu exception''))
      else bindR (run_isr handlers ds regs m) (\<lambda>r.
             case r of
               Returns m1 \<Rightarrow>
                 Inr (Returns (if int_no regs < 48
                               then m1\<lparr>m_io := drivers_pic_send_eoi (ucast (int_no regs - 32)) (m_io m1)\<rparr> else m1))
             | Leaves m1 \<Rightarrow> Inr (Leaves m1)))"

section \<open>What the tables describe\<close>

text \<open>How the processor reads a descriptor and a gate.\<close>

definition descriptor_base :: "gdt_entry \<Rightarrow> u32" where
  "descriptor_base e = ucast (g_base_low e) OR push_bit 16 (ucast (g_base_mid e)) OR push_bit 24 (ucast (g_base_high e))"

definition descriptor_limit :: "gdt_entry \<Rightarrow> u32" where
  "descriptor_limit e = ucast (g_limit_low e) OR push_bit 16 (ucast (g_granularity e AND 0x0F))"

definition tss_base :: "gdt_entry \<Rightarrow> gdt_entry \<Rightarrow> u64" where
  "tss_base a b = ucast (descriptor_base a) OR push_bit 32 (ucast (g_limit_low b)) OR push_bit 48 (ucast (g_base_low b))"

definition gate_offset :: "idt_entry \<Rightarrow> u64" where
  "gate_offset e = ucast (i_offset_low e) OR push_bit 16 (ucast (i_offset_mid e)) OR push_bit 32 (ucast (i_offset_high e))"


lemma low_bits:
  "x AND 0x0F = take_bit 4 (x :: u8)" "y AND 0x0F = take_bit 4 (y :: u32)" "y AND 0xFF = take_bit 8 (y :: u32)"
  "y AND 0xFFFF = take_bit 16 (y :: u32)" "z AND 0xFF = take_bit 8 (z :: u64)" "z AND 0xFFFF = take_bit 16 (z :: u64)"
  "z AND 0xFFFFFFFF = take_bit 32 (z :: u64)"
  by (simp_all add: take_bit_eq_mask mask_eq_exp_minus_1)

text \<open>A bit of the high half of a byte is not one of the low half.\<close>

lemma high_nibble: "n < 4 \<Longrightarrow> \<not> bit (0xF0 :: u8) n"
  by (auto simp: numeral_eq_Suc less_Suc_eq)

lemma gdt_entry_roundtrip:
  assumes "k < length gdt"
  shows "descriptor_base (gdt_set_entry k base limit access gran gdt ! k) = base"
    and "limit < 2 ^ 20 \<Longrightarrow> descriptor_limit (gdt_set_entry k base limit access gran gdt ! k) = limit"
    and "g_access (gdt_set_entry k base limit access gran gdt ! k) = access"
proof -
  show "descriptor_base (gdt_set_entry k base limit access gran gdt ! k) = base"
  proof (rule bit_word_eqI)
    fix n assume "n < LENGTH(32)"
    then show "bit (descriptor_base (gdt_set_entry k base limit access gran gdt ! k)) n = bit base n"
      using assms by (cases "n < 16"; cases "n < 24") (auto simp: gdt_set_entry_def descriptor_base_def low_bits bit_simps)
  qed
  show "descriptor_limit (gdt_set_entry k base limit access gran gdt ! k) = limit" if "limit < 2 ^ 20"
  proof (rule bit_word_eqI)
    fix n assume n: "n < LENGTH(32)"
    have "\<not> bit limit n" if "20 \<le> n"
    proof -
      have "unat limit < 2 ^ 20" using \<open>limit < 2 ^ 20\<close> by (simp add: word_less_nat_alt)
      also have "(2 :: nat) ^ 20 \<le> 2 ^ n" using that by (rule power_increasing) simp
      finally have "\<not> bit (unat limit) n" by (simp add: bit_iff_odd)
      then show ?thesis by (simp add: bit_unsigned_iff)
    qed
    then show "bit (descriptor_limit (gdt_set_entry k base limit access gran gdt ! k)) n = bit limit n"
      using assms n by (cases "n < 16"; cases "n < 20") (auto simp: gdt_set_entry_def descriptor_limit_def low_bits high_nibble bit_simps)
  qed
  show "g_access (gdt_set_entry k base limit access gran gdt ! k) = access"
    using assms by (simp add: gdt_set_entry_def)
qed

lemma tss_roundtrip:
  assumes "Suc k < length gdt"
  shows "tss_base (gdt_set_tss k base limit gdt ! k) (gdt_set_tss k base limit gdt ! Suc k) = base"
proof (rule bit_word_eqI)
  fix n assume "n < LENGTH(64)"
  then show "bit (tss_base (gdt_set_tss k base limit gdt ! k) (gdt_set_tss k base limit gdt ! Suc k)) n = bit base n"
    using assms by (cases "n < 16"; cases "n < 24"; cases "n < 32"; cases "n < 48")
      (auto simp: gdt_set_tss_def tss_base_def descriptor_base_def low_bits bit_simps)
qed

lemma gate_roundtrip:
  assumes "unat num < length idt"
  shows "gate_offset (idt_set_gate num handler ty idt ! unat num) = handler"
proof (rule bit_word_eqI)
  fix n assume "n < LENGTH(64)"
  then show "bit (gate_offset (idt_set_gate num handler ty idt ! unat num)) n = bit handler n"
    using assms by (cases "n < 16"; cases "n < 32") (auto simp: idt_set_gate_def gate_offset_def low_bits bit_simps)
qed

text \<open>Setting the gates of the first \<open>k\<close> vectors.\<close>

lemma set_gates:
  assumes "length idt = 256" "k \<le> 256"
  shows "length (fold (\<lambda>i. idt_set_gate (word_of_nat i) (h i) ty) [0..<k] idt) = 256"
    and "n < 256 \<Longrightarrow> fold (\<lambda>i. idt_set_gate (word_of_nat i) (h i) ty) [0..<k] idt ! n =
      (if n < k then idt_set_gate (word_of_nat n) (h n) ty idt ! n else idt ! n)"
proof -
  have "length (fold (\<lambda>i. idt_set_gate (word_of_nat i) (h i) ty) [0..<k] idt) = 256 \<and>
    (\<forall>n < 256. fold (\<lambda>i. idt_set_gate (word_of_nat i) (h i) ty) [0..<k] idt ! n =
      (if n < k then idt_set_gate (word_of_nat n) (h n) ty idt ! n else idt ! n))"
    using assms(2)
  proof (induction k)
    case (Suc k)
    then have "unat (word_of_nat k :: u8) = k" by (simp add: unat_of_nat)
    with Suc show ?case by (auto simp: idt_set_gate_def nth_list_update assms(1) less_Suc_eq)
  qed (simp add: assms(1))
  then show "length (fold (\<lambda>i. idt_set_gate (word_of_nat i) (h i) ty) [0..<k] idt) = 256"
    and "n < 256 \<Longrightarrow> fold (\<lambda>i. idt_set_gate (word_of_nat i) (h i) ty) [0..<k] idt ! n =
      (if n < k then idt_set_gate (word_of_nat n) (h n) ty idt ! n else idt ! n)"
    by blast+
qed

text \<open>
  After \<open>idt_init\<close> and \<open>isr_init\<close> the first 48 gates lead, from the kernel code segment and
  present, to their own stubs, all others are absent, and the controller has no line masked.
\<close>

theorem interrupt_table:
  assumes "length idt = IDT_ENTRIES"
  shows "let (t, i') = isr_init isr_stubs (idt_init idt, i) in
    (\<forall>n < IDT_ENTRIES. if n < 48 then gate_offset (t ! n) = isr_stubs n \<and> i_selector (t ! n) = 0x08 \<and> i_type_attr (t ! n) = 0x8E
       else i_type_attr (t ! n) = 0) \<and> (\<forall>n < 16. \<not> masked i' n)"
proof -
  have l: "length idt = 256" using assms by (simp add: IDT_ENTRIES_def)
  define t0 where "t0 = idt_init idt"
  have t0: "length t0 = 256" "\<And>n. n < 256 \<Longrightarrow> t0 ! n = idt_set_gate (word_of_nat n) 0 0 idt ! n"
    using set_gates [OF l, where k = 256 and h = "\<lambda>_. 0" and ty = 0] by (simp_all add: t0_def idt_init_def IDT_ENTRIES_def)
  have u: "unat (word_of_nat n :: u8) = n" if "n < 256" for n using that by (simp add: unat_of_nat)
  have n0: "i_type_attr (t0 ! n) = 0" if "n < 256" for n using t0(2) [OF that] that l u [OF that] by (simp add: idt_set_gate_def)
  let ?t = "fold (\<lambda>k. idt_set_gate (word_of_nat k) (isr_stubs k) 0x8E) [0..<48] t0"
  have "if n < 48 then gate_offset (?t ! n) = isr_stubs n \<and> i_selector (?t ! n) = 0x08 \<and> i_type_attr (?t ! n) = 0x8E
      else i_type_attr (?t ! n) = 0" if n: "n < 256" for n
  proof (cases "n < 48")
    case True
    then have e: "?t ! n = idt_set_gate (word_of_nat n) (isr_stubs n) 0x8E t0 ! n"
      using set_gates(2) [OF t0(1), where k = 48 and n = n and h = isr_stubs and ty = "0x8E"] n by simp
    have "gate_offset (?t ! n) = isr_stubs n"
      using gate_roundtrip [of "word_of_nat n" t0 "isr_stubs n" "0x8E"] u [OF n] n t0(1) e by simp
    then show ?thesis using True e u [OF n] n t0(1) by (simp add: idt_set_gate_def)
  next
    case False
    then have "?t ! n = t0 ! n" using set_gates(2) [OF t0(1), where k = 48 and n = n and h = isr_stubs and ty = "0x8E"] n by simp
    then show ?thesis using False n0 [OF n] by simp
  qed
  then show ?thesis
    using pic_remap_unmasks(1) by (simp add: isr_init_def t0_def [symmetric] IDT_ENTRIES_def)
qed

section \<open>From an interrupt to the drivers\<close>

lemma all_drivers_registered:
  "register_section (drivers_section resume) [] = [timer_driver resume, keyboard_driver, fb_driver, mouse_driver, ata_drv]"
  by (simp add: drivers_section_def driver_register_def MAX_DRIVERS_def)

lemma register_section_bound: "length ds \<le> MAX_DRIVERS \<Longrightarrow> length (register_section ps ds) \<le> MAX_DRIVERS"
  by (induction ps arbitrary: ds) (auto simp: driver_register_def split: option.splits)

lemma driver_find_first: "driver_find num (ds @ d # es) = Some d \<longleftrightarrow> driver_find num ds = None \<and> drv_id d = num \<or> driver_find num ds = Some d
    \<or> driver_find num ds = None \<and> drv_id d \<noteq> num \<and> driver_find num es = Some d"
  by (induction ds) (auto simp: driver_find_def)

text \<open>The machine after the drivers ran on an interrupt that switches no process.\<close>

definition after_irq :: "u8 \<Rightarrow> psys \<Rightarrow> machine \<Rightarrow> machine" where
  "after_irq irq p m =
     (let (sc, i1) = inb 0x60 (m_io m); (s, i2) = mouse_irq_handler (m_mouse m, i1)
      in m\<lparr>m_ticks := m_ticks m + 1, m_procs := p, m_kbd := keyboard_on_irq sc (m_kbd m), m_mouse := s,
           m_io := drivers_pic_send_eoi irq i2\<rparr>)"

lemma isr_runs_drivers:
  assumes "32 \<le> int_no regs" "int_no regs < 48" "handlers (ucast (int_no regs)) = None"
    and "scheduler_tick resume (m_procs m) = Inr p" "current_process p = current_process (m_procs m)"
  shows "isr_handler handlers (register_section (drivers_section resume) []) regs m =
    Inr (Returns (after_irq (ucast (int_no regs - 32)) p m))"
proof -
  have n: "\<not> int_no regs < 32" "\<not> int_no regs \<ge> 256" using assms(1,2) by (auto simp: word_le_nat_alt word_less_nat_alt)
  then show ?thesis
    using assms(2-5)
    by (simp add: isr_handler_def run_isr_def all_drivers_registered timer_driver_def keyboard_driver_def fb_driver_def mouse_driver_def
        ata_drv_def timer_driver_irq_def timer_on_irq_def keyboard_driver_irq_def on_mouse_def after_irq_def Let_def split_def)
qed


text \<open>
  A timer interrupt while the controller still shows the scancode of the last key queues
  that key once more: an idle machine types on by itself, a hundred times a second.
\<close>

theorem timer_repeats_key:
  assumes "int_no regs = 32" "handlers 32 = None" "queue_of (m_procs m) []"
    and "ucast (io_dev (m_io m) (io_trace (m_io m)) 0x60) = sc" "is_key sc" "kbd_ok (m_kbd m)" "length (kbd_pending (m_kbd m)) < 127"
  shows "\<exists>m'. isr_handler handlers (register_section (drivers_section resume) []) regs m = Inr (Returns m') \<and>
    kbd_pending (m_kbd m') = kbd_pending (m_kbd m) @ [sc]"
proof -
  have "ready_queue (m_procs m) = 0" using assms(3) by (simp add: queue_of_def)
  then have tick: "scheduler_tick resume (m_procs m) = Inr (m_procs m)" by (simp add: scheduler_tick_def)
  have "handlers (ucast (int_no regs)) = None" using assms(1,2) by simp
  from isr_runs_drivers [where p = "m_procs m" and handlers = handlers, OF _ _ _ tick refl, of regs] this assms show ?thesis
    by (auto simp: after_irq_def inb_def split_def Let_def keyboard_on_irq_pending)
qed

text \<open>
  C33. When the timer interrupt switches to another process, it leaves for that process before
  the other drivers have run and before the interrupt is acknowledged: no port has been
  accessed, so the controller holds back further interrupts until the interrupted process is
  scheduled again.
\<close>

theorem switch_leaves_irq_open:
  assumes "int_no regs = 32" "handlers 32 = None" "queue_of (m_procs m) (x # y # ps)" "current_process (m_procs m) \<noteq> y"
  shows "\<exists>m'. isr_handler handlers (register_section (drivers_section resume) []) regs m = Inr (Leaves m') \<and>
    current_process (m_procs m') = y \<and> m_ticks m' = m_ticks m + 1 \<and>
    m_io m' = m_io m \<and> m_kbd m' = m_kbd m \<and> m_mouse m' = m_mouse m"
proof -
  obtain p where "scheduler_tick resume (m_procs m) = Inr p" "current_process p = y"
    using scheduler_tick_queue [OF assms(3), of resume] by auto
  then show ?thesis
    using assms(1,2,4)
    by (simp add: isr_handler_def run_isr_def all_drivers_registered timer_driver_def timer_driver_irq_def timer_on_irq_def Let_def)
qed

lemma exceptions_panic: "int_no regs < 32 \<Longrightarrow> \<exists>msg. isr_handler handlers ds regs m = Inl (Panic msg)"
  by (simp add: isr_handler_def)

section \<open>Witnesses\<close>

definition demo_machine :: "psys \<Rightarrow> machine" where
  "demo_machine p = \<lparr>m_io = \<lparr>io_trace = [], io_dev = (\<lambda>_ port. if port = 0x60 then 0x1E else 0)\<rparr>, m_ticks = 0, m_procs = p,
     m_kbd = kbd_boot, m_mouse = mouse_boot, m_fb = fb_demo\<rparr>"

definition demo_regs :: "u64 \<Rightarrow> registers" where
  "demo_regs n = \<lparr>reg_r15 = 0, reg_r14 = 0, reg_r13 = 0, reg_r12 = 0, reg_r11 = 0, reg_r10 = 0, reg_r9 = 0, reg_r8 = 0, reg_rdi = 0, reg_rsi = 0, reg_rbp = 0, reg_rbx = 0,
     reg_rdx = 0, reg_rcx = 0, reg_rax = 0, int_no = n, err_code = 0, reg_rip = 0, reg_cs = 0, reg_rflags = 0, reg_rsp = 0, reg_ss = 0\<rparr>"

theorem interrupt_table_witness:
  "let (t, i') = isr_init (\<lambda>n. 0x100000 + 16 * word_of_nat n) (idt_init (replicate 256 undefined), m_io (demo_machine demo_psys))
   in gate_offset (t ! 33) = 0x100210"
  using interrupt_table [of "replicate 256 undefined" "\<lambda>n. 0x100000 + 16 * word_of_nat n" "m_io (demo_machine demo_psys)"]
  by (auto simp: IDT_ENTRIES_def split_def Let_def dest!: spec [of _ 33])


theorem timer_repeats_key_witness:
  "\<exists>m'. isr_handler (\<lambda>_. None) (register_section (drivers_section 7) []) (demo_regs 32) (demo_machine demo_psys) = Inr (Returns m') \<and>
    kbd_pending (m_kbd m') = [0x1E]"
  using timer_repeats_key [of "demo_regs 32" "\<lambda>_. None" "demo_machine demo_psys" "0x1E" 7] demo_psys_queue kbd_boot_ok kbd_boot_pending
  by (simp add: demo_regs_def demo_machine_def is_key_def)

theorem switch_leaves_irq_open_witness:
  "\<exists>m'. isr_handler (\<lambda>_. None) (register_section (drivers_section 7) []) (demo_regs 32) (demo_machine demo_queued) = Inr (Leaves m') \<and>
    current_process (m_procs m') = 0x2000 \<and> io_trace (m_io m') = []"
  using switch_leaves_irq_open [of "demo_regs 32" "\<lambda>_. None" "demo_machine demo_queued" "0x1000" "0x2000" "[0x3000]" 7] demo_queued_queue
  by (auto simp: demo_regs_def demo_machine_def demo_queued_def demo_psys_def)

end
