(* ===== verification/Mira_Syscall.thy ===== *)
theory Mira_Syscall
  imports Mira_Draw Mira_Process Mira_Vfs
begin

text \<open>
  The system calls, \<open>kernel/syscall.c\<close>: the registers that enable them and the dispatcher, over
  the processes, the file system, the framebuffer and the memory of the caller. The dispatcher
  takes the caller's pointers as they come; strings and buffers are read from and written to
  the memory at whatever address it was given.
\<close>

section \<open>Start\<close>

record syscall_cpu =
  user_rsp :: u64
  kernel_rsp :: u64

text \<open>
  Model-specific registers as a function; the addresses of the stack, of the entry stub and of
  \<open>syscall_cpu_data\<close> are arguments.
\<close>

definition syscall_init :: "u64 \<Rightarrow> u64 \<Rightarrow> u64 \<Rightarrow> (u32 \<Rightarrow> u64) \<Rightarrow> syscall_cpu \<times> (u32 \<Rightarrow> u64)" where
  "syscall_init syscall_stack syscall_entry cpu_data msr =
     (\<lparr>user_rsp = 0, kernel_rsp = syscall_stack + 16384\<rparr>,
      msr(0xC0000080 := msr 0xC0000080 OR 1,
          0xC0000081 := push_bit 32 0x08 OR push_bit 48 (0x18 OR 3),
          0xC0000082 := syscall_entry,
          0xC0000084 := push_bit 9 1,
          0xC0000101 := cpu_data,
          0xC0000102 := cpu_data))"

section \<open>Dispatch\<close>

record kernel =
  sc_procs :: psys
  sc_vfs :: vfs
  sc_fb :: fbst
  sc_text :: text_state
  sc_ticks :: u64
  sc_mem :: mem

definition byte_char :: "u8 \<Rightarrow> char" where "byte_char b = char_of (unat b)"
definition char_byte :: "char \<Rightarrow> u8" where "char_byte c = word_of_nat (of_char c)"

text \<open>The string at an address; \<open>None\<close> if the memory holds no terminator.\<close>

partial_function (option) c_string :: "mem \<Rightarrow> addr \<Rightarrow> string option" where
  "c_string m a = (if m a = 0 then Some [] else Option.bind (c_string m (a + 1)) (\<lambda>s. Some (byte_char (m a) # s)))"

definition string_at :: "mem \<Rightarrow> addr \<Rightarrow> string res" where
  "string_at m a = (case c_string m a of None \<Rightarrow> Inl Diverges | Some s \<Rightarrow> Inr s)"

definition load_bytes :: "mem \<Rightarrow> addr \<Rightarrow> u64 \<Rightarrow> string" where
  "load_bytes m a n = map (\<lambda>i. byte_char (m (a + word_of_nat i))) [0..<unat n]"

definition put_string :: "string \<Rightarrow> addr \<Rightarrow> mem \<Rightarrow> mem" where
  "put_string bs a m = (\<lambda>x. if unat (x - a) < length bs then char_byte (bs ! unat (x - a)) else m x)"

definition SYSCALL_EXIT :: u64 where "SYSCALL_EXIT = 0"
definition SYSCALL_READ :: u64 where "SYSCALL_READ = 1"
definition SYSCALL_WRITE :: u64 where "SYSCALL_WRITE = 2"
definition SYSCALL_OPEN :: u64 where "SYSCALL_OPEN = 3"
definition SYSCALL_CLOSE :: u64 where "SYSCALL_CLOSE = 4"
definition SYSCALL_DRAW_RECT :: u64 where "SYSCALL_DRAW_RECT = 5"
definition SYSCALL_DRAW_TEXT :: u64 where "SYSCALL_DRAW_TEXT = 6"
definition SYSCALL_GET_TICKS :: u64 where "SYSCALL_GET_TICKS = 7"

lemmas syscall_numbers = SYSCALL_EXIT_def SYSCALL_READ_def SYSCALL_WRITE_def SYSCALL_OPEN_def SYSCALL_CLOSE_def
  SYSCALL_DRAW_RECT_def SYSCALL_DRAW_TEXT_def SYSCALL_GET_TICKS_def

definition syscall_exit :: "u64 \<Rightarrow> u64 \<Rightarrow> psys \<Rightarrow> psys res" where
  "syscall_exit resume a1 p =
     (let cur = process_get_current p
      in bindR (if cur \<noteq> 0
                then bindR (upd_proc cur (\<lambda>q. q\<lparr>p_exit_status := ucast a1, p_state := PROCESS_STATE_ZOMBIE\<rparr>) p) (\<lambda>p1.
                     bindR (scheduler_remove cur p1) (process_destroy cur))
                else Inr p) (scheduler_tick resume))"

text \<open>The file descriptor is the low 32 bits of the argument, as a signed number.\<close>

definition fd_arg :: "u64 \<Rightarrow> int" where "fd_arg a = sint (ucast a :: u32)"

definition syscall_dispatch :: "u64 \<Rightarrow> u64 \<Rightarrow> u64 \<Rightarrow> u64 \<Rightarrow> u64 \<Rightarrow> u64 \<Rightarrow> u64 \<Rightarrow> kernel \<Rightarrow> (int \<times> kernel) res" where
  "syscall_dispatch resume num a1 a2 a3 a4 a5 k =
     (if num = SYSCALL_EXIT then bindR (syscall_exit resume a1 (sc_procs k)) (\<lambda>p. Inr (0, k\<lparr>sc_procs := p\<rparr>))
      else if num = SYSCALL_READ then
        bindR (vfs_read (fd_arg a1) a3 (sc_vfs k)) (\<lambda>(r, bs, v). Inr (r, k\<lparr>sc_vfs := v, sc_mem := put_string bs a2 (sc_mem k)\<rparr>))
      else if num = SYSCALL_WRITE then
        bindR (vfs_write (fd_arg a1) (load_bytes (sc_mem k) a2 a3) a3 (sc_vfs k)) (\<lambda>(r, v). Inr (r, k\<lparr>sc_vfs := v\<rparr>))
      else if num = SYSCALL_OPEN then
        bindR (string_at (sc_mem k) a1) (\<lambda>path.
        bindR (vfs_open path (ucast a2) (sc_vfs k)) (\<lambda>(r, v). Inr (r, k\<lparr>sc_vfs := v\<rparr>)))
      else if num = SYSCALL_CLOSE then
        bindR (vfs_close (fd_arg a1) (sc_vfs k)) (\<lambda>(r, v). Inr (r, k\<lparr>sc_vfs := v\<rparr>))
      else if num = SYSCALL_DRAW_RECT then
        bindR (gfx_draw_rect (ucast a1) (ucast a2) (ucast a3) (ucast a4) (ucast a5) (sc_fb k)) (\<lambda>f. Inr (0, k\<lparr>sc_fb := f\<rparr>))
      else if num = SYSCALL_DRAW_TEXT then
        bindR (string_at (sc_mem k) a3) (\<lambda>str.
        bindR (text_draw (sc_text k) (ucast a1) (ucast a2) str (ucast a4) (ucast a5) (sc_fb k)) (\<lambda>f. Inr (0, k\<lparr>sc_fb := f\<rparr>)))
      else if num = SYSCALL_GET_TICKS then Inr (sint (sc_ticks k), k)
      else Inr (-1, k))"

text \<open>
  The selectors that \<open>sysretq\<close> loads are 16 and 8 above the value in bits 48 to 63 of the register
  STAR. With the user code selector there, code runs with the selector of the task state.
\<close>

lemma sysret_selectors:
  "drop_bit 48 (snd (syscall_init st e d msr) 0xC0000081) + 16 = 0x2B"
  "0x2B = (0x28 OR 3 :: u64)"
  by (simp_all add: syscall_init_def)

section \<open>Files\<close>

lemma byte_char_byte [simp]: "char_byte (byte_char b) = b"
proof -
  have "unat b < 256" using unsigned_less [of b] by simp
  then have "of_char (char_of (unat b)) = unat b" by simp
  then show ?thesis by (simp add: char_byte_def byte_char_def)
qed

lemma length_load_bytes [simp]: "length (load_bytes m a n) = unat n"
  by (simp add: load_bytes_def)

lemma put_load_bytes:
  "unat (x - b) < unat n \<Longrightarrow> put_string (load_bytes m a n) b m' x = m (a + (x - b))"
  "\<not> unat (x - b) < unat n \<Longrightarrow> put_string (load_bytes m a n) b m' x = m' x"
  by (simp_all add: put_string_def load_bytes_def)

text \<open>What one descriptor writes, another one on the same file reads.\<close>

lemma write_then_read:
  assumes wf: "vfs_wf s" and fd: "fd_ok fd s" "fd_ok fd' s" "fd \<noteq> fd'" and km: "kmem s = []" and n: "0 < n" "length buf = unat n"
    and same: "of_node (open_table s ! nat fd') = of_node (open_table s ! nat fd)"
      "of_offset (open_table s ! nat fd') = of_offset (open_table s ! nat fd)"
    and lim: "unat (of_offset (open_table s ! nat fd)) + unat n < 2 ^ 63"
  shows "\<exists>s1 s2. vfs_write fd buf n s = Inr (int (unat n), s1) \<and> vfs_read fd' n s1 = Inr (int (unat n), buf, s2)"
proof -
  let ?f = "open_table s ! nat fd" and ?off = "of_offset (open_table s ! nat fd)"
  obtain i where i: "of_node ?f = Some i" "i < length (vnodes s)" "?off \<le> vn_size (vnodes s ! i)" "file_node fd s = Inr i"
    using wf fd(1) by (auto simp: vfs_wf_def elim: fd_node)
  have w: "nodes_wf s" "nat fd < length (open_table s)" "nat fd' < length (open_table s)"
    using wf file_slot [OF fd(1)] file_slot [OF fd(2)] by (simp_all add: vfs_wf_def)
  have sn: "sint n = int (unat n)" using lim by (intro sint_small) simp
  have npos: "0 < uint n" using n(1) by (simp add: word_less_def)
  obtain nd where nd: "vfs_default_write i buf n ?off s = Inr (sint n, set_node i nd s)"
    "vn_data nd = Some (write_at (contents (vnodes s ! i)) (unat ?off) buf)"
    "unat (vn_size nd) = max (unat (vn_size (vnodes s ! i))) (unat ?off + unat n)"
    using vfs_default_write_wf [OF w(1) i(2,3) _ n(1,2) km] lim by auto
  define s1 where "s1 = set_file fd (?f\<lparr>of_offset := ?off + word_of_int (sint n)\<rparr>) (set_node i nd s)"
  have r1: "vfs_write fd buf n s = Inr (int (unat n), s1)"
    using fd(1) i nd(1) sn npos by (simp add: vfs_write_def s1_def Let_def)
  have ne: "nat fd \<noteq> nat fd'" using fd by (auto simp: fd_ok_def)
  have ok1: "fd_ok fd' s1" "open_table s1 ! nat fd' = open_table s ! nat fd'" "vnodes s1 = (vnodes s)[i := nd]"
    using fd(2) ne by (simp_all add: fd_ok_def s1_def set_file_def set_node_def)
  have le: "?off \<le> vn_size nd" using nd(3) by (simp add: word_le_nat_alt)
  have "vfs_wf s1" using vfs_write_wf [OF wf _ r1] lim by simp
  then have "\<exists>bs. vfs_default_read nd n ?off = Inr bs \<and> bs = take (unat n) (drop (unat ?off) (write_at (contents (vnodes s ! i)) (unat ?off) buf))"
    using vfs_default_read_wf [of s1 i ?off n] ok1 i(2) le lim nd(2) by (simp add: vfs_wf_def)
  moreover have "drop (unat ?off) (write_at (contents (vnodes s ! i)) (unat ?off) buf) = buf @ drop (unat ?off + length buf) (contents (vnodes s ! i))"
    using contents_length [OF w(1) i(2)] i(3) by (simp add: write_at_def word_le_nat_alt)
  ultimately have "vfs_default_read nd n ?off = Inr buf" using n(2) by simp
  then have "\<exists>s2. vfs_read fd' n s1 = Inr (int (unat n), buf, s2)"
    using ok1 i(1,2) n(2) same by (simp add: vfs_read_def file_node_def Let_def)
  then show ?thesis using r1 by blast
qed


section \<open>All calls\<close>

text \<open>
  A system call that returns, as a step. The writes are those whose end does not pass
  \<open>2\<^sup>6\<^sup>3\<close>, as in \<open>Mira_Vfs\<close>.
\<close>

inductive syscall_step :: "kernel \<Rightarrow> kernel \<Rightarrow> bool" where
  call: "syscall_dispatch resume num a1 a2 a3 a4 a5 k = Inr (r, k') \<Longrightarrow>
    (num = SYSCALL_WRITE \<Longrightarrow> transfer_ok (fd_arg a1) a3 (sc_vfs k)) \<Longrightarrow> syscall_step k k'"

inductive_cases syscall_stepE: "syscall_step k k'"

lemma syscall_step_files:
  assumes "syscall_step k k'"
  shows "(sc_vfs k' = sc_vfs k \<or> vfs_step (sc_vfs k) (sc_vfs k')) \<and> sc_text k' = sc_text k \<and> sc_ticks k' = sc_ticks k"
proof -
  obtain resume num a1 a2 a3 a4 a5 r where c: "syscall_dispatch resume num a1 a2 a3 a4 a5 k = Inr (r, k')"
      "num = SYSCALL_WRITE \<longrightarrow> transfer_ok (fd_arg a1) a3 (sc_vfs k)"
    using assms by (elim syscall_stepE) blast
  then show ?thesis
    by (auto simp: syscall_dispatch_def split: if_splits intro: vfs_step.intros)
qed

text \<open>
  Whatever system calls programs make, and in whichever order, the file system stays well
  formed and the clock is not set.
\<close>

theorem syscalls_keep_files:
  assumes "syscall_step\<^sup>*\<^sup>* k k'" "vfs_wf (sc_vfs k)"
  shows "vfs_wf (sc_vfs k') \<and> sc_ticks k' = sc_ticks k"
  using assms
proof (induction rule: rtranclp_induct)
  case (step y z)
  then show ?case using syscall_step_files [OF step.hyps(2)] vfs_step_wf by metis
qed simp

section \<open>Exit\<close>

lemma rotate_queue_current:
  "rotate_queue (s\<lparr>current_process := c\<rparr>) = bindR (rotate_queue s) (\<lambda>s'. Inr (s'\<lparr>current_process := c\<rparr>))"
  by (simp add: rotate_queue_def upd_proc_def get_proc_def bindR_def Let_def split: option.splits sum.splits)

lemma free_pages_frame:
  "free_pages_from n a s = Inr s' \<Longrightarrow> procs s' = procs s \<and> current_process s' = current_process s \<and>
    ready_queue s' = ready_queue s \<and> ready_queue_tail s' = ready_queue_tail s"
  by (induction n arbitrary: a s) (auto simp: set_proc_pmm_def)

lemma scheduler_remove_links:
  assumes "scheduler_remove x s = Inr s'" "x \<noteq> 0"
  shows "\<exists>q. procs s' x = Some q \<and> p_next q = 0 \<and> p_prev q = 0"
    and "map_option p_stack_bottom (procs s' a) = map_option p_stack_bottom (procs s a)"
  using assms by (auto simp: scheduler_remove_def upd_proc_def get_proc_def split: if_splits option.splits)

text \<open>A tick that has to leave a process that no longer exists.\<close>

lemma tick_of_freed_process:
  assumes x: "current_process s = x" "procs s x = None" "x \<noteq> 0"
    and q: "queue_of (s\<lparr>current_process := 0\<rparr>) zs" "zs \<noteq> []"
  shows "scheduler_tick resume s = Inl BadPointer"
proof -
  let ?s = "s\<lparr>current_process := 0\<rparr>"
  obtain s1 where s1: "rotate_queue ?s = Inr s1" "queue_of s1 (rotate1 zs)" "\<forall>y. (procs s1 y = None) = (procs ?s y = None)"
    using rotate_queue_spec [OF q] by blast
  have s: "s = ?s\<lparr>current_process := x\<rparr>" using x(1) by simp
  have rot: "rotate_queue s = Inr (s1\<lparr>current_process := x\<rparr>)"
    using rotate_queue_current [where s = ?s and c = x] s1(1) s by simp
  have ne: "rotate1 zs \<noteq> []" using q(2) by simp
  have d: "dseg (procs s1) 0 (rotate1 zs) 0" "ready_queue s1 = hd (rotate1 zs)" using s1(2) ne by (simp_all add: queue_of_def)
  have h: "hd (rotate1 zs) \<noteq> 0" "procs s1 (hd (rotate1 zs)) \<noteq> None" using dseg_nonzero [OF d(1) hd_in_set [OF ne]] by auto
  have px: "procs s1 x = None" using s1(3) x(2) by simp
  then have nx: "x \<noteq> hd (rotate1 zs)" using h(2) by auto
  have "ready_queue s \<noteq> 0"
    using q dseg_nonzero [of "procs s" 0 zs 0 "hd zs"] by (simp add: queue_of_def)
  then show ?thesis
    using rot d(2) h(1) nx px x(3) by (simp add: scheduler_tick_def process_switch_def upd_proc_def get_proc_def Let_def)
qed

lemma exit_frees_current:
  assumes q: "queue_of p (xs @ x # ys)" and cur: "current_process p = x"
    and run: "bindR (upd_proc x f p) (\<lambda>p1. bindR (scheduler_remove x p1) (process_destroy x)) = Inr p2"
    and f: "\<And>r. p_next (f r) = p_next r \<and> p_prev (f r) = p_prev r"
  shows "current_process p2 = x \<and> procs p2 x = None \<and> x \<noteq> 0 \<and> queue_of (p2\<lparr>current_process := 0\<rparr>) (xs @ ys)"
proof -
  have d: "dseg (procs p) 0 (xs @ x # ys) 0" "distinct (xs @ x # ys)" using q by (simp_all add: queue_of_def)
  then obtain r where r: "x \<noteq> 0" "procs p x = Some r" using dseg_nonzero [OF d(1), of x] by auto
  define p1 where "p1 = p\<lparr>procs := (procs p)(x := Some (f r))\<rparr>"
  have u: "upd_proc x f p = Inr p1" using r by (simp add: upd_proc_Inr p1_def)
  have "dseg (procs p1) 0 (xs @ x # ys) 0 = dseg (procs p) 0 (xs @ x # ys) 0"
    by (rule dseg_cong) (use r f in \<open>auto simp: p1_def\<close>)
  then have q1: "queue_of p1 (xs @ x # ys)" using q r by (auto simp: queue_of_def p1_def)
  obtain s where s: "scheduler_remove x p1 = Inr s" "queue_of s (xs @ ys)" "current_process s = x"
    using scheduler_remove_queue [OF q1] cur by (auto simp: p1_def)
  obtain t where t: "procs s x = Some t" "p_next t = 0" "p_prev t = 0" using scheduler_remove_links(1) [OF s(1) r(1)] by blast
  obtain s1 where s1: "procs s1 = procs s" "current_process s1 = x" "ready_queue s1 = ready_queue s" "ready_queue_tail s1 = ready_queue_tail s"
      "p2 = kfree_proc x (if process_list s1 = x then s1\<lparr>process_list := p_next t\<rparr> else s1)"
    using run u s(1,3) r(1) t
    by (auto simp: process_destroy_def get_proc_Inr Let_def dest!: free_pages_frame split: if_splits)
  have "dseg ((procs s)(x := None)) 0 (xs @ ys) 0 = dseg (procs s) 0 (xs @ ys) 0" using d(2) by (intro dseg_other) simp
  then have "queue_of (p2\<lparr>current_process := 0\<rparr>) (xs @ ys)"
    using s(2) s1 by (auto simp: queue_of_def kfree_proc_def)
  then show ?thesis using s1 r(1) by (auto simp: kfree_proc_def)
qed


section \<open>Witnesses\<close>

text \<open>Two descriptors on the file \<open>/version\<close>, and three queued processes of which the first one runs.\<close>

definition demo_kernel :: kernel where
  "demo_kernel = \<lparr>sc_procs = demo_queued\<lparr>current_process := 0x1000\<rparr>,
     sc_vfs = snd (take_slot VFS_MAX_OPEN 0 2 0 (snd (take_slot VFS_MAX_OPEN 0 2 0 ramfs_booted))),
     sc_fb = fb_demo, sc_text = text_init text_boot, sc_ticks = 0, sc_mem = (\<lambda>a. ucast a)\<rparr>"

lemma demo_kernel_files: "vfs_wf (sc_vfs demo_kernel)"
proof -
  have "2 < length (vnodes ramfs_booted)" "2 < length (vnodes (snd (take_slot VFS_MAX_OPEN 0 2 0 ramfs_booted)))" by code_simp+
  then show ?thesis by (simp add: demo_kernel_def take_slot_wf ramfs_booted_wf)
qed


theorem syscalls_keep_files_witness:
  "vfs_wf (sc_vfs (demo_kernel\<lparr>sc_mem := put_string [] 0 (sc_mem demo_kernel)\<rparr>))"
proof -
  have "syscall_dispatch 7 SYSCALL_READ 9 0 4 0 0 demo_kernel = Inr (-1, demo_kernel\<lparr>sc_mem := put_string [] 0 (sc_mem demo_kernel)\<rparr>)"
  proof -
    have "\<not> fd_ok (fd_arg 9) (sc_vfs demo_kernel)" unfolding demo_kernel_def kernel.simps fd_arg_def by code_simp
    then show ?thesis by (simp add: syscall_dispatch_def syscall_numbers vfs_read_def)
  qed
  then have "syscall_step demo_kernel (demo_kernel\<lparr>sc_mem := put_string [] 0 (sc_mem demo_kernel)\<rparr>)"
    by (rule syscall_step.call) (simp add: syscall_numbers)
  then show ?thesis using syscalls_keep_files [OF r_into_rtranclp demo_kernel_files] by blast
qed


end
