(* ===== verification/Mira_Ui.thy ===== *)
theory Mira_Ui
  imports Mira_Widget
begin

text \<open>
  The tree of user-interface widgets of \<open>ui/ui.c\<close>: first-child and sibling links in both
  directions, painting, event delivery and focus. Widgets live at numbered addresses, 0 being
  the null pointer, and a freed widget has none. The callbacks of a widget are function pointers
  that the sources never set; a call of one is recorded with its arguments, and whether an
  event callback reports the event as handled is the argument \<open>handles\<close>. Callbacks are taken
  not to change the tree.
\<close>

section \<open>State\<close>

datatype ui_event_type = UI_EVENT_NONE | UI_EVENT_MOUSE_MOVE | UI_EVENT_MOUSE_DOWN | UI_EVENT_MOUSE_UP
  | UI_EVENT_KEY_DOWN | UI_EVENT_KEY_UP | UI_EVENT_FOCUS | UI_EVENT_BLUR

record ui_event =
  ev_type :: ui_event_type
  ev_x :: u32
  ev_y :: u32
  ev_button :: u32
  ev_keycode :: u32
  ev_handled :: bool

record ui_widget =
  w_bounds :: ui_rect
  w_absolute :: ui_rect
  w_parent :: nat
  w_children :: nat
  w_next :: nat
  w_prev :: nat
  w_visible :: bool
  w_enabled :: bool
  w_focused :: bool
  w_user_data :: u64
  w_on_paint :: u64
  w_on_event :: u64
  w_on_focus :: u64

datatype ui_call = On_paint u64 nat | On_event u64 nat ui_event | On_focus u64 nat bool

record ui_state =
  ui_widgets :: "nat \<rightharpoonup> ui_widget"
  ui_fresh :: nat
  ui_allocs :: "bool list"
  root_widget :: nat
  focused_widget :: nat
  ui_dirty_flag :: bool
  ui_calls :: "ui_call list"

definition get_widget :: "nat \<Rightarrow> ui_state \<Rightarrow> ui_widget res" where
  "get_widget a s = (if a = 0 then Inl NullDeref else case ui_widgets s a of None \<Rightarrow> Inl BadPointer | Some w \<Rightarrow> Inr w)"

definition upd_widget :: "nat \<Rightarrow> (ui_widget \<Rightarrow> ui_widget) \<Rightarrow> ui_state \<Rightarrow> ui_state res" where
  "upd_widget a f s = bindR (get_widget a s) (\<lambda>w. Inr (s\<lparr>ui_widgets := (ui_widgets s)(a \<mapsto> f w)\<rparr>))"

definition ui_call_back :: "ui_call \<Rightarrow> ui_state \<Rightarrow> ui_state" where
  "ui_call_back c s = s\<lparr>ui_calls := ui_calls s @ [c]\<rparr>"

section \<open>Building the tree\<close>

definition shift_by :: "ui_rect \<Rightarrow> ui_widget \<Rightarrow> ui_widget" where
  "shift_by r w = w\<lparr>w_absolute := (w_absolute w)\<lparr>rect_x := rect_x (w_absolute w) + rect_x r, rect_y := rect_y (w_absolute w) + rect_y r\<rparr>\<rparr>"

partial_function (option) add_ancestors :: "nat \<Rightarrow> nat \<Rightarrow> ui_state \<Rightarrow> ui_state res option" where
  "add_ancestors child a s =
     (if a = 0 then Some (Inr s)
      else case get_widget a s of
             Inl e \<Rightarrow> Some (Inl e)
           | Inr w \<Rightarrow>
               (case upd_widget child (shift_by (w_bounds w)) s of
                  Inl e \<Rightarrow> Some (Inl e)
                | Inr s1 \<Rightarrow> add_ancestors child (w_parent w) s1))"

definition ui_add_child :: "nat \<Rightarrow> nat \<Rightarrow> ui_state \<Rightarrow> ui_state res" where
  "ui_add_child parent child s =
     (if parent = 0 \<or> child = 0 then Inr s
      else bindR (get_widget parent s) (\<lambda>p.
           bindR (upd_widget child (\<lambda>c. c\<lparr>w_parent := parent, w_next := w_children p, w_prev := 0\<rparr>) s) (\<lambda>s1.
           bindR (if w_children p \<noteq> 0 then upd_widget (w_children p) (\<lambda>c. c\<lparr>w_prev := child\<rparr>) s1 else Inr s1) (\<lambda>s2.
           bindR (upd_widget parent (\<lambda>q. q\<lparr>w_children := child\<rparr>) s2) (\<lambda>s3.
             case add_ancestors child parent s3 of None \<Rightarrow> Inl Diverges | Some r \<Rightarrow> r)))))"

definition new_widget :: "nat \<Rightarrow> ui_rect \<Rightarrow> ui_widget" where
  "new_widget parent b = \<lparr>w_bounds = b, w_absolute = b, w_parent = parent, w_children = 0, w_next = 0, w_prev = 0,
     w_visible = True, w_enabled = True, w_focused = False, w_user_data = 0, w_on_paint = 0, w_on_event = 0, w_on_focus = 0\<rparr>"

definition ui_create_widget :: "nat \<Rightarrow> ui_rect \<Rightarrow> ui_state \<Rightarrow> (nat \<times> ui_state) res" where
  "ui_create_widget parent b s =
     (let (ok, bs) = kmalloc_outcome 104 (ui_allocs s); s1 = s\<lparr>ui_allocs := bs\<rparr>
      in if \<not> ok then Inr (0, s1)
         else let a = ui_fresh s; s2 = s1\<lparr>ui_widgets := (ui_widgets s)(a \<mapsto> new_widget parent b), ui_fresh := Suc a\<rparr>
              in bindR (if parent \<noteq> 0 then ui_add_child parent a s2 else Inr s2) (\<lambda>s3. Inr (a, s3)))"

definition ui_remove_child :: "nat \<Rightarrow> nat \<Rightarrow> ui_state \<Rightarrow> ui_state res" where
  "ui_remove_child parent child s =
     (if parent = 0 \<or> child = 0 then Inr s
      else bindR (get_widget child s) (\<lambda>c.
           if w_parent c \<noteq> parent then Inr s
           else bindR (if w_prev c \<noteq> 0 then upd_widget (w_prev c) (\<lambda>w. w\<lparr>w_next := w_next c\<rparr>) s
                       else upd_widget parent (\<lambda>w. w\<lparr>w_children := w_next c\<rparr>) s) (\<lambda>s1.
                bindR (get_widget child s1) (\<lambda>c1.
                bindR (if w_next c1 \<noteq> 0 then upd_widget (w_next c1) (\<lambda>w. w\<lparr>w_prev := w_prev c1\<rparr>) s1 else Inr s1) (\<lambda>s2.
                  upd_widget child (\<lambda>w. w\<lparr>w_parent := 0, w_next := 0, w_prev := 0\<rparr>) s2)))))"

definition kfree_widget :: "nat \<Rightarrow> ui_state \<Rightarrow> ui_state" where
  "kfree_widget a s = s\<lparr>ui_widgets := (ui_widgets s)(a := None)\<rparr>"

text \<open>The fuel bounds the depth of calls and loops.\<close>

fun ui_destroy_widget :: "nat \<Rightarrow> nat \<Rightarrow> ui_state \<Rightarrow> ui_state res"
and destroy_children :: "nat \<Rightarrow> nat \<Rightarrow> ui_state \<Rightarrow> ui_state res" where
  "ui_destroy_widget 0 a s = Inl Diverges"
| "ui_destroy_widget (Suc n) a s =
     (if a = 0 then Inr s
      else bindR (get_widget a s) (\<lambda>w.
           bindR (if w_parent w \<noteq> 0 then ui_remove_child (w_parent w) a s else Inr s) (\<lambda>s1.
           bindR (destroy_children n a s1) (\<lambda>s2. Inr (kfree_widget a s2)))))"
| "destroy_children 0 a s = Inl Diverges"
| "destroy_children (Suc n) a s =
     bindR (get_widget a s) (\<lambda>w.
       if w_children w = 0 then Inr s
       else bindR (ui_destroy_widget n (w_children w) s) (destroy_children n a))"

section \<open>Painting, events and focus\<close>

fun ui_paint_widget :: "nat \<Rightarrow> nat \<Rightarrow> ui_state \<Rightarrow> ui_state res"
and paint_children :: "nat \<Rightarrow> nat \<Rightarrow> ui_state \<Rightarrow> ui_state res" where
  "ui_paint_widget 0 a s = Inl Diverges"
| "ui_paint_widget (Suc n) a s =
     (if a = 0 then Inr s
      else bindR (get_widget a s) (\<lambda>w.
           if \<not> w_visible w then Inr s
           else bindR (paint_children n (w_children w) s) (\<lambda>s1.
                  Inr (if w_on_paint w \<noteq> 0 then ui_call_back (On_paint (w_on_paint w) a) s1 else s1))))"
| "paint_children 0 a s = Inl Diverges"
| "paint_children (Suc n) a s =
     (if a = 0 then Inr s
      else bindR (ui_paint_widget n a s) (\<lambda>s1. bindR (get_widget a s1) (\<lambda>w. paint_children n (w_next w) s1)))"

text \<open>The first child from \<open>child\<close> on that lies under the event, or null.\<close>

partial_function (option) child_under :: "ui_event \<Rightarrow> nat \<Rightarrow> ui_state \<Rightarrow> nat res option" where
  "child_under ev child s =
     (if child = 0 then Some (Inr 0)
      else case get_widget child s of
             Inl e \<Rightarrow> Some (Inl e)
           | Inr c \<Rightarrow> if ui_rect_contains (w_absolute c) (ev_x ev) (ev_y ev) then Some (Inr child) else child_under ev (w_next c) s)"

text \<open>The widget an event at \<open>target\<close> is handed to: a child under it, else the widget itself.\<close>

definition event_target :: "ui_event \<Rightarrow> nat \<Rightarrow> ui_widget \<Rightarrow> ui_state \<Rightarrow> nat res option" where
  "event_target ev target t s =
     map_option (\<lambda>r. bindR r (\<lambda>c. Inr (if c = 0 then target else c))) (child_under ev (w_children t) s)"

partial_function (option) post_loop ::
    "(u64 \<Rightarrow> nat \<Rightarrow> ui_event \<Rightarrow> bool) \<Rightarrow> ui_event \<Rightarrow> nat \<Rightarrow> ui_state \<Rightarrow> (bool \<times> ui_state) res option" where
  "post_loop handles ev target s =
     (if target = 0 then Some (Inr (False, s))
      else case get_widget target s of
             Inl e \<Rightarrow> Some (Inl e)
           | Inr t \<Rightarrow>
               if \<not> ui_rect_contains (w_absolute t) (ev_x ev) (ev_y ev) then post_loop handles ev (w_next t) s
               else Option.bind (event_target ev target t s) (\<lambda>r.
                 case r of
                   Inl e \<Rightarrow> Some (Inl e)
                 | Inr u \<Rightarrow>
                     (case get_widget u s of
                        Inl e \<Rightarrow> Some (Inl e)
                      | Inr w \<Rightarrow>
                          let s1 = (if w_on_event w \<noteq> 0 then ui_call_back (On_event (w_on_event w) u ev) s else s)
                          in if w_on_event w \<noteq> 0 \<and> handles (w_on_event w) u ev then Some (Inr (True, s1))
                             else post_loop handles ev (w_next w) s1)))"

definition ui_post_event :: "(u64 \<Rightarrow> nat \<Rightarrow> ui_event \<Rightarrow> bool) \<Rightarrow> ui_event option \<Rightarrow> ui_state \<Rightarrow> (bool \<times> ui_state) res" where
  "ui_post_event handles evo s =
     (case evo of
        None \<Rightarrow> Inr (False, s)
      | Some ev \<Rightarrow> (case post_loop handles ev (root_widget s) s of None \<Rightarrow> Inl Diverges | Some r \<Rightarrow> r))"

definition notify_focus :: "bool \<Rightarrow> ui_state \<Rightarrow> ui_state res" where
  "notify_focus b s =
     (if focused_widget s = 0 then Inr s
      else bindR (get_widget (focused_widget s) s) (\<lambda>w.
             Inr (if w_on_focus w \<noteq> 0 then ui_call_back (On_focus (w_on_focus w) (focused_widget s) b) s else s)))"

definition ui_set_focus :: "nat \<Rightarrow> ui_state \<Rightarrow> ui_state res" where
  "ui_set_focus a s =
     (if focused_widget s = a then Inr s
      else bindR (notify_focus False s) (\<lambda>s1.
           bindR (notify_focus True (s1\<lparr>focused_widget := a\<rparr>)) (\<lambda>s2. Inr (s2\<lparr>ui_dirty_flag := True\<rparr>))))"

definition ui_get_focus :: "ui_state \<Rightarrow> nat" where "ui_get_focus s = focused_widget s"

definition ui_set_visible :: "nat \<Rightarrow> bool \<Rightarrow> ui_state \<Rightarrow> ui_state res" where
  "ui_set_visible a b s = (if a \<noteq> 0 then upd_widget a (\<lambda>w. w\<lparr>w_visible := b\<rparr>) s else Inr s)"

definition ui_set_enabled :: "nat \<Rightarrow> bool \<Rightarrow> ui_state \<Rightarrow> ui_state res" where
  "ui_set_enabled a b s = (if a \<noteq> 0 then upd_widget a (\<lambda>w. w\<lparr>w_enabled := b\<rparr>) s else Inr s)"

definition ui_dirty :: "ui_state \<Rightarrow> bool" where "ui_dirty s = ui_dirty_flag s"
definition ui_clear_dirty :: "ui_state \<Rightarrow> ui_state" where "ui_clear_dirty s = s\<lparr>ui_dirty_flag := False\<rparr>"

section \<open>The tree in the heap\<close>

text \<open>
  A forest of widgets: the first one, the forest of its children, and the forest of its later
  siblings. \<open>forest_at h par prev a f\<close> says that \<open>f\<close> is laid out in \<open>h\<close> from \<open>a\<close> on.
\<close>

datatype forest = No_widget | Widget nat forest forest

fun forest_nodes :: "forest \<Rightarrow> nat list" where
  "forest_nodes No_widget = []"
| "forest_nodes (Widget x cs ss) = x # forest_nodes cs @ forest_nodes ss"

fun forest_at :: "(nat \<rightharpoonup> ui_widget) \<Rightarrow> nat \<Rightarrow> nat \<Rightarrow> nat \<Rightarrow> forest \<Rightarrow> bool" where
  "forest_at h par prev a No_widget \<longleftrightarrow> a = 0"
| "forest_at h par prev a (Widget x cs ss) \<longleftrightarrow> a = x \<and> x \<noteq> 0 \<and>
     (\<exists>w. h x = Some w \<and> w_parent w = par \<and> w_prev w = prev \<and>
        forest_at h x 0 (w_children w) cs \<and> forest_at h par x (w_next w) ss)"

definition ui_tree :: "forest \<Rightarrow> ui_state \<Rightarrow> bool" where
  "ui_tree f s \<longleftrightarrow> forest_at (ui_widgets s) 0 0 (root_widget s) f \<and> distinct (forest_nodes f) \<and>
     (\<forall>a. ui_widgets s a \<noteq> None \<longrightarrow> 0 < a \<and> a < ui_fresh s)"

fun paint_order :: "(nat \<rightharpoonup> ui_widget) \<Rightarrow> forest \<Rightarrow> ui_call list" where
  "paint_order h No_widget = []"
| "paint_order h (Widget x cs ss) =
     (case h x of None \<Rightarrow> [] | Some w \<Rightarrow>
        if w_visible w then paint_order h cs @ (if w_on_paint w \<noteq> 0 then [On_paint (w_on_paint w) x] else []) else []) @
     paint_order h ss"

fun prune :: "nat \<Rightarrow> forest \<Rightarrow> forest" where
  "prune x No_widget = No_widget"
| "prune x (Widget y cs ss) = (if x = y then ss else Widget y (prune x cs) (prune x ss))"

fun graft :: "nat \<Rightarrow> nat \<Rightarrow> forest \<Rightarrow> forest" where
  "graft p a No_widget = No_widget"
| "graft p a (Widget y cs ss) = (if p = y then Widget y (Widget a No_widget cs) ss else Widget y (graft p a cs) (graft p a ss))"

lemma get_widget_simps [simp]: "ui_widgets s a = Some w \<Longrightarrow> a \<noteq> 0 \<Longrightarrow> get_widget a s = Inr w"
  by (simp add: get_widget_def)

lemma upd_widget_simps [simp]: "ui_widgets s a = Some w \<Longrightarrow> a \<noteq> 0 \<Longrightarrow>
    upd_widget a f s = Inr (s\<lparr>ui_widgets := (ui_widgets s)(a \<mapsto> f w)\<rparr>)"
  by (simp add: upd_widget_def)

lemma forest_heads: "forest_at h par prev a f \<Longrightarrow> a \<noteq> 0 \<Longrightarrow> a \<in> set (forest_nodes f)"
  by (cases f) auto

lemma forest_nonzero: "forest_at h par prev a f \<Longrightarrow> x \<in> set (forest_nodes f) \<Longrightarrow> x \<noteq> 0 \<and> h x \<noteq> None"
  by (induction f arbitrary: par prev a) auto

text \<open>The layout depends on the widgets of the forest only.\<close>

lemma forest_cong: "(\<And>x. x \<in> set (forest_nodes f) \<Longrightarrow> h' x = h x) \<Longrightarrow> forest_at h' par prev a f = forest_at h par prev a f"
  by (induction f arbitrary: par prev a) auto

lemma forest_other: "x \<notin> set (forest_nodes f) \<Longrightarrow> forest_at (h(x := v)) par prev a f = forest_at h par prev a f"
  by (rule forest_cong) auto

section \<open>Painting\<close>

lemma paint_forest:
  assumes "forest_at (ui_widgets s) par prev a f" "2 * length (forest_nodes f) < n"
  shows "paint_children n a s = Inr (s\<lparr>ui_calls := ui_calls s @ paint_order (ui_widgets s) f\<rparr>)"
  using assms
proof (induction f arbitrary: par prev a n s)
  case No_widget
  then show ?case by (cases n) auto
next
  case (Widget x cs ss)
  from Widget.prems obtain w where w: "a = x" "x \<noteq> 0" "ui_widgets s x = Some w"
    "forest_at (ui_widgets s) x 0 (w_children w) cs" "forest_at (ui_widgets s) par x (w_next w) ss" by auto
  from Widget.prems(2) obtain m where n: "n = Suc (Suc m)" and m: "2 * length (forest_nodes cs) < m" "2 * length (forest_nodes ss) < Suc m"
    by (cases n; cases "n - 1") auto
  define s1 where "s1 = s\<lparr>ui_calls := ui_calls s @ (if w_visible w then paint_order (ui_widgets s) cs @
      (if w_on_paint w \<noteq> 0 then [On_paint (w_on_paint w) x] else []) else [])\<rparr>"
  have p: "ui_paint_widget (Suc m) x s = Inr s1"
    using w Widget.IH(1) [OF w(4) m(1)] by (simp add: s1_def ui_call_back_def)
  have h: "ui_widgets s1 = ui_widgets s" by (simp add: s1_def)
  have c: "paint_children (Suc m) (w_next w) s1 = Inr (s1\<lparr>ui_calls := ui_calls s1 @ paint_order (ui_widgets s1) ss\<rparr>)"
    by (rule Widget.IH(2)) (use w m h in simp_all)
  have "paint_children n a s = paint_children (Suc m) (w_next w) s1"
    using p h w unfolding n paint_children.simps(2) [of "Suc m"] by (simp del: paint_children.simps ui_paint_widget.simps)
  then show ?case using w(3) by (simp add: c h del: paint_children.simps) (simp add: s1_def)
qed

lemma paint_tree:
  assumes "ui_tree (Widget r cs No_widget) s" "2 * length (forest_nodes cs) + 1 < n"
  shows "ui_paint_widget n (root_widget s) s =
    Inr (s\<lparr>ui_calls := ui_calls s @ paint_order (ui_widgets s) (Widget r cs No_widget)\<rparr>)"
proof -
  obtain w where w: "root_widget s = r" "r \<noteq> 0" "ui_widgets s r = Some w" "forest_at (ui_widgets s) r 0 (w_children w) cs"
    using assms(1) by (auto simp: ui_tree_def)
  obtain m where m: "n = Suc m" "2 * length (forest_nodes cs) < m" using assms(2) by (cases n) auto
  show ?thesis using w paint_forest [OF w(4) m(2)] by (simp add: m ui_call_back_def)
qed

text \<open>
  Painting a tree calls the paint callback of every widget whose ancestors and itself are
  visible exactly once, children before their parent and the most recently added child first;
  nothing else changes.
\<close>

theorem paint_postorder:
  assumes "ui_tree (Widget r cs No_widget) s" "2 * length (forest_nodes cs) + 1 < n"
  shows "ui_paint_widget n (root_widget s) s =
    Inr (s\<lparr>ui_calls := ui_calls s @ paint_order (ui_widgets s) (Widget r cs No_widget)\<rparr>)"
  by (rule paint_tree [OF assms])

section \<open>Creating widgets\<close>

text \<open>The ancestors of a widget, from itself on.\<close>

fun chain :: "(nat \<rightharpoonup> ui_widget) \<Rightarrow> nat \<Rightarrow> nat list \<Rightarrow> bool" where
  "chain h a [] \<longleftrightarrow> a = 0"
| "chain h a (q # qs) \<longleftrightarrow> a = q \<and> q \<noteq> 0 \<and> (\<exists>w. h q = Some w \<and> chain h (w_parent w) qs)"

definition offsets :: "(nat \<rightharpoonup> ui_widget) \<Rightarrow> nat list \<Rightarrow> ui_widget \<Rightarrow> ui_widget" where
  "offsets h qs c = fold (\<lambda>q. shift_by (w_bounds (the (h q)))) qs c"

lemma ancestors_cong: "(\<And>q. q \<in> set qs \<Longrightarrow> map_option w_parent (h' q) = map_option w_parent (h q)) \<Longrightarrow> chain h' a qs = chain h a qs"
proof (induction qs arbitrary: a)
  case (Cons q qs)
  have q: "map_option w_parent (h' q) = map_option w_parent (h q)" using Cons.prems by simp
  have "chain h' b qs = chain h b qs" for b by (rule Cons.IH) (simp add: Cons.prems)
  then show ?case using q by (cases "h q"; cases "h' q") auto
qed simp

lemma offsets_cong: "(\<And>q. q \<in> set qs \<Longrightarrow> w_bounds (the (h' q)) = w_bounds (the (h q))) \<Longrightarrow> offsets h' qs c = offsets h qs c"
  unfolding offsets_def by (induction qs arbitrary: c) simp_all

lemma offsets_fields [simp]:
  "w_parent (offsets h qs c) = w_parent c" "w_children (offsets h qs c) = w_children c" "w_next (offsets h qs c) = w_next c"
  "w_prev (offsets h qs c) = w_prev c" "w_bounds (offsets h qs c) = w_bounds c"
  unfolding offsets_def by (induction qs arbitrary: c) (simp_all add: shift_by_def)

lemma offsets_position:
  "rect_x (w_absolute (offsets h qs c)) = rect_x (w_absolute c) + sum_list (map (\<lambda>q. rect_x (w_bounds (the (h q)))) qs)"
  "rect_y (w_absolute (offsets h qs c)) = rect_y (w_absolute c) + sum_list (map (\<lambda>q. rect_y (w_bounds (the (h q)))) qs)"
  unfolding offsets_def by (induction qs arbitrary: c) (simp_all add: shift_by_def add_ac)

lemma add_ancestors_chain:
  assumes "chain (ui_widgets s) a qs" "child \<notin> set qs" "ui_widgets s child = Some c" "child \<noteq> 0"
  shows "add_ancestors child a s = Some (Inr (s\<lparr>ui_widgets := (ui_widgets s)(child \<mapsto> offsets (ui_widgets s) qs c)\<rparr>))"
  using assms
proof (induction qs arbitrary: a s c)
  case Nil
  then show ?case by (simp add: add_ancestors.simps offsets_def fun_upd_idem)
next
  case (Cons q qs)
  from Cons.prems obtain w where w: "a = q" "q \<noteq> 0" "ui_widgets s q = Some w" "chain (ui_widgets s) (w_parent w) qs" "child \<noteq> q" "child \<notin> set qs"
    by auto
  let ?h = "(ui_widgets s)(child \<mapsto> shift_by (w_bounds w) c)" and ?s = "s\<lparr>ui_widgets := (ui_widgets s)(child \<mapsto> shift_by (w_bounds w) c)\<rparr>"
  have "chain (ui_widgets ?s) (w_parent w) qs" using w by (subst ancestors_cong [where h = "ui_widgets s"]) auto
  from Cons.IH [OF this w(6), of "shift_by (w_bounds w) c"] Cons.prems(4)
  have "add_ancestors child (w_parent w) ?s = Some (Inr (s\<lparr>ui_widgets := (ui_widgets s)(child \<mapsto> offsets ?h qs (shift_by (w_bounds w) c))\<rparr>))"
    by (simp add: fun_upd_same del: fun_upd_apply)
  moreover have "offsets ?h qs (shift_by (w_bounds w) c) = offsets (ui_widgets s) (q # qs) c"
    using w(3) by (subst offsets_cong [where h = "ui_widgets s"]) (use w(6) in \<open>auto simp: offsets_def\<close>)
  ultimately show ?case using w Cons.prems(3,4) by (subst add_ancestors.simps) simp
qed

lemma forest_chain:
  assumes "forest_at h par prev a f" "chain h par qs" "x \<in> set (forest_nodes f)"
  shows "\<exists>ps. chain h x ps \<and> set ps \<subseteq> set (forest_nodes f) \<union> set qs"
  using assms
proof (induction f arbitrary: par prev a qs)
  case (Widget y cs ss)
  from Widget.prems obtain w where w: "y \<noteq> 0" "h y = Some w" "w_parent w = par" "forest_at h y 0 (w_children w) cs" "forest_at h par y (w_next w) ss"
    by auto
  have y: "chain h y (y # qs)" using w Widget.prems(2) by simp
  consider "x = y" | "x \<in> set (forest_nodes cs)" | "x \<in> set (forest_nodes ss)" using Widget.prems(3) by auto
  then show ?case
  proof cases
    case 1
    then show ?thesis using y by (intro exI [of _ "y # qs"]) auto
  next
    case 2
    then obtain ps where "chain h x ps" "set ps \<subseteq> set (forest_nodes cs) \<union> set (y # qs)" using Widget.IH(1) [OF w(4) y] by blast
    then show ?thesis by (intro exI [of _ ps]) auto
  next
    case 3
    then obtain ps where "chain h x ps" "set ps \<subseteq> set (forest_nodes ss) \<union> set qs"
      using Widget.IH(2) [OF w(5) Widget.prems(2)] by blast
    then show ?thesis by (intro exI [of _ ps]) auto
  qed
qed simp

lemma children_inside:
  "forest_at h par prev a f \<Longrightarrow> p \<in> set (forest_nodes f) \<Longrightarrow> h p = Some w \<Longrightarrow> w_children w \<noteq> 0 \<Longrightarrow> w_children w \<in> set (forest_nodes f)"
proof (induction f arbitrary: par prev a)
  case (Widget y cs ss)
  then show ?case using forest_heads [of h y 0 "w_children w" cs] by auto metis+
qed simp

lemma children_not_self:
  "forest_at h par prev a f \<Longrightarrow> distinct (forest_nodes f) \<Longrightarrow> p \<in> set (forest_nodes f) \<Longrightarrow> h p = Some w \<Longrightarrow> w_children w \<noteq> p"
proof (induction f arbitrary: par prev a)
  case (Widget y cs ss)
  then show ?case using forest_heads [of h y 0 "w_children w" cs] by auto metis+
qed simp

lemma relink_head:
  assumes "forest_at h par prev a f" "distinct (forest_nodes f)" "a \<noteq> 0"
  shows "forest_at (h(a \<mapsto> (the (h a))\<lparr>w_prev := q\<rparr>)) par q a f"
  using assms by (cases f) (auto simp: forest_other)

text \<open>Linking a widget in front of the children of another.\<close>

definition link_child :: "nat \<Rightarrow> nat \<Rightarrow> ui_widget \<Rightarrow> (nat \<rightharpoonup> ui_widget) \<Rightarrow> (nat \<rightharpoonup> ui_widget)" where
  "link_child p a c h =
     (let c0 = w_children (the (h p));
          h1 = (if c0 = 0 then h else h(c0 \<mapsto> (the (h c0))\<lparr>w_prev := a\<rparr>))
      in h1(a \<mapsto> c\<lparr>w_parent := p, w_next := c0, w_prev := 0\<rparr>, p \<mapsto> (the (h1 p))\<lparr>w_children := a\<rparr>))"

lemma link_child_other:
  "x \<noteq> a \<Longrightarrow> x \<noteq> p \<Longrightarrow> x \<noteq> w_children (the (h p)) \<Longrightarrow> link_child p a c h x = h x"
  by (simp add: link_child_def Let_def)

lemma link_child_parent:
  "p \<noteq> a \<Longrightarrow> w_children (the (h p)) \<noteq> p \<Longrightarrow> link_child p a c h p = Some ((the (h p))\<lparr>w_children := a\<rparr>)"
  by (simp add: link_child_def Let_def)

lemma link_child_new:
  "p \<noteq> a \<Longrightarrow> link_child p a c h a = Some (c\<lparr>w_parent := p, w_next := w_children (the (h p)), w_prev := 0\<rparr>)"
  by (simp add: link_child_def Let_def)

lemma graft_outside: "p \<notin> set (forest_nodes f) \<Longrightarrow> graft p a f = f"
  by (induction f) auto

lemma graft_nodes: "distinct (forest_nodes f) \<Longrightarrow> p \<in> set (forest_nodes f) \<Longrightarrow> mset (forest_nodes (graft p a f)) = add_mset a (mset (forest_nodes f))"
proof (induction f)
  case (Widget y cs ss)
  consider "p = y" | "p \<noteq> y" "p \<in> set (forest_nodes cs)" "p \<notin> set (forest_nodes ss)" | "p \<noteq> y" "p \<notin> set (forest_nodes cs)" "p \<in> set (forest_nodes ss)"
    using Widget.prems by auto
  then show ?case
  proof cases
    case 2
    then show ?thesis using Widget by (simp add: graft_outside)
  next
    case 3
    then show ?thesis using Widget by (simp add: graft_outside)
  qed simp
qed simp

lemma graft_forest:
  assumes "forest_at h par prev b f" "distinct (forest_nodes f)" "p \<in> set (forest_nodes f)" "a \<noteq> 0" "a \<notin> set (forest_nodes f)" "w_children c = 0"
  shows "forest_at (link_child p a c h) par prev b (graft p a f)"
  using assms
proof (induction f arbitrary: par prev b)
  case (Widget y cs ss)
  let ?h = "link_child p a c h"
  from Widget.prems obtain w where w: "b = y" "y \<noteq> 0" "h y = Some w" "w_parent w = par" "w_prev w = prev"
    "forest_at h y 0 (w_children w) cs" "forest_at h par y (w_next w) ss" by auto
  have d: "distinct (forest_nodes cs)" "distinct (forest_nodes ss)" "y \<notin> set (forest_nodes cs)" "y \<notin> set (forest_nodes ss)"
    "set (forest_nodes cs) \<inter> set (forest_nodes ss) = {}" "y \<noteq> a" "a \<notin> set (forest_nodes cs)" "a \<notin> set (forest_nodes ss)"
    using Widget.prems by auto
  have z: "0 \<notin> set (forest_nodes cs)" "0 \<notin> set (forest_nodes ss)" using forest_nonzero [OF w(6)] forest_nonzero [OF w(7)] by blast+
  consider "p = y" | "p \<noteq> y" "p \<in> set (forest_nodes cs)" | "p \<noteq> y" "p \<in> set (forest_nodes ss)" using Widget.prems(3) by auto
  then show ?case
  proof cases
    case 1
    have c0: "w_children w = 0 \<or> w_children w \<in> set (forest_nodes cs)" using forest_heads [OF w(6)] by blast
    then have n: "w_children w \<noteq> y" using w(2) d by auto
    have hy: "?h y = Some (w\<lparr>w_children := a\<rparr>)" using link_child_parent [of y a h c] d(6) w(3) n by (simp add: 1)
    have ha: "?h a = Some (c\<lparr>w_parent := y, w_next := w_children w, w_prev := 0\<rparr>)" using link_child_new [of y a c h] d(6) w(3) by (simp add: 1)
    have "forest_at ?h par y (w_next w) ss"
      by (rule forest_cong [THEN iffD2, OF _ w(7)], rule link_child_other) (use 1 w c0 d z in auto)
    moreover have "forest_at ?h y a (w_children w) cs"
    proof (cases "w_children w = 0")
      case True
      then have "cs = No_widget" using w(6) by (cases cs) auto
      then show ?thesis using True by simp
    next
      case False
      from relink_head [OF w(6) d(1) False, of a] show ?thesis
        by (rule forest_cong [THEN iffD2, rotated]) (use 1 False w d in \<open>auto simp: link_child_def Let_def\<close>)
    qed
    ultimately show ?thesis using 1 w hy ha assms(4,6) by auto
  next
    case 2
    obtain wp where wp: "h p = Some wp" using forest_nonzero [OF w(6) 2(2)] by auto
    have c0: "w_children wp = 0 \<or> w_children wp \<in> set (forest_nodes cs)" using children_inside [OF w(6) 2(2) wp] by blast
    have "?h y = Some w" using w c0 d 2 wp by (subst link_child_other) auto
    moreover have "forest_at ?h par y (w_next w) ss"
      by (rule forest_cong [THEN iffD2, OF _ w(7)], rule link_child_other) (use 2 wp c0 d z in auto)
    moreover have "forest_at ?h y 0 (w_children w) (graft p a cs)"
      by (rule Widget.IH(1)) (use w d 2 assms in simp_all)
    moreover have "graft p a ss = ss" by (rule graft_outside) (use 2 d in auto)
    ultimately show ?thesis using 2 w by auto
  next
    case 3
    obtain wp where wp: "h p = Some wp" using forest_nonzero [OF w(7) 3(2)] by auto
    have c0: "w_children wp = 0 \<or> w_children wp \<in> set (forest_nodes ss)" using children_inside [OF w(7) 3(2) wp] by blast
    have "?h y = Some w" using w c0 d 3 wp by (subst link_child_other) auto
    moreover have "forest_at ?h y 0 (w_children w) cs"
      by (rule forest_cong [THEN iffD2, OF _ w(6)], rule link_child_other) (use 3 wp c0 d z in auto)
    moreover have "forest_at ?h par y (w_next w) (graft p a ss)"
      by (rule Widget.IH(2)) (use w d 3 assms in simp_all)
    moreover have "graft p a cs = cs" by (rule graft_outside) (use 3 d in auto)
    ultimately show ?thesis using 3 w by auto
  qed
qed simp

lemma link_child_replace:
  "p \<noteq> a \<Longrightarrow> w_parent c' = p \<Longrightarrow> w_next c' = w_children (the (h p)) \<Longrightarrow> w_prev c' = 0 \<Longrightarrow>
    (link_child p a c h)(a \<mapsto> c') = link_child p a c' h"
  by (auto simp: link_child_def Let_def fun_eq_iff)

lemma add_child_links:
  assumes "p \<noteq> 0" "a \<noteq> 0" "p \<noteq> a" "ui_widgets s p = Some w" "ui_widgets s a = Some c"
    and "w_children w \<noteq> p" "w_children w \<noteq> a" "w_children w = 0 \<or> ui_widgets s (w_children w) \<noteq> None"
  shows "ui_add_child p a s =
    (case add_ancestors a p (s\<lparr>ui_widgets := link_child p a c (ui_widgets s)\<rparr>) of None \<Rightarrow> Inl Diverges | Some r \<Rightarrow> r)"
proof -
  let ?s1 = "s\<lparr>ui_widgets := (ui_widgets s)(a \<mapsto> c\<lparr>w_parent := p, w_next := w_children w, w_prev := 0\<rparr>)\<rparr>"
  have u: "upd_widget a (\<lambda>c. c\<lparr>w_parent := p, w_next := w_children w, w_prev := 0\<rparr>) s = Inr ?s1" using assms by simp
  show ?thesis
  proof (cases "w_children w = 0")
    case True
    have "upd_widget p (\<lambda>q. q\<lparr>w_children := a\<rparr>) ?s1 = Inr (s\<lparr>ui_widgets := link_child p a c (ui_widgets s)\<rparr>)"
      using assms True by (simp add: upd_widget_def link_child_def)
    then show ?thesis using assms True u by (simp add: ui_add_child_def)
  next
    case False
    obtain d where d: "ui_widgets s (w_children w) = Some d" using False assms(8) by auto
    let ?s2 = "s\<lparr>ui_widgets := (ui_widgets s)(a \<mapsto> c\<lparr>w_parent := p, w_next := w_children w, w_prev := 0\<rparr>, w_children w \<mapsto> d\<lparr>w_prev := a\<rparr>)\<rparr>"
    have "upd_widget (w_children w) (\<lambda>c. c\<lparr>w_prev := a\<rparr>) ?s1 = Inr ?s2" using assms False d by (simp add: upd_widget_def get_widget_def)
    moreover have heap: "(ui_widgets ?s2)(p \<mapsto> w\<lparr>w_children := a\<rparr>) = link_child p a c (ui_widgets s)"
      using assms False d by (auto simp: link_child_def Let_def fun_eq_iff)
    then have "upd_widget p (\<lambda>q. q\<lparr>w_children := a\<rparr>) ?s2 = Inr (s\<lparr>ui_widgets := link_child p a c (ui_widgets s)\<rparr>)"
      using assms heap by (simp add: upd_widget_def get_widget_def)
    ultimately show ?thesis using assms False u by (simp add: ui_add_child_def)
  qed
qed

text \<open>
  C21. Creating a widget under a widget of the tree returns a fresh one that has become its first
  child, every other link being as before, and whose absolute position is its own plus those of
  all its ancestors.
\<close>

theorem create_grafts:
  assumes "ui_tree f s" "p \<in> set (forest_nodes f)" "fst (kmalloc_outcome 104 (ui_allocs s))"
  shows "\<exists>s' w qs. ui_create_widget p b s = Inr (ui_fresh s, s') \<and> ui_tree (graft p (ui_fresh s) f) s' \<and>
    ui_widgets s' (ui_fresh s) = Some w \<and> w_bounds w = b \<and> chain (ui_widgets s) p qs \<and>
    rect_x (w_absolute w) = rect_x b + sum_list (map (\<lambda>q. rect_x (w_bounds (the (ui_widgets s q)))) qs) \<and>
    rect_y (w_absolute w) = rect_y b + sum_list (map (\<lambda>q. rect_y (w_bounds (the (ui_widgets s q)))) qs)"
proof -
  let ?a = "ui_fresh s" and ?h = "ui_widgets s" and ?n = "new_widget p b"
  have f: "forest_at ?h 0 0 (root_widget s) f" "distinct (forest_nodes f)" and fresh: "\<And>x. ?h x \<noteq> None \<Longrightarrow> 0 < x \<and> x < ?a"
    using assms(1) by (auto simp: ui_tree_def)
  obtain w where w: "?h p = Some w" "p \<noteq> 0" using forest_nonzero [OF f(1) assms(2)] by auto
  have p: "p < ?a" using fresh [of p] w by simp
  have out: "?a \<notin> set (forest_nodes f)" using forest_nonzero [OF f(1)] fresh by fastforce
  have c0: "w_children w \<noteq> 0 \<Longrightarrow> w_children w \<in> set (forest_nodes f)" by (rule children_inside [OF f(1) assms(2) w(1)])
  have kid: "w_children w \<noteq> ?a" "w_children w = 0 \<or> ?h (w_children w) \<noteq> None"
  proof -
    show "w_children w \<noteq> ?a" using c0 out p by (cases "w_children w = 0") auto
    show "w_children w = 0 \<or> ?h (w_children w) \<noteq> None" using c0 forest_nonzero [OF f(1), of "w_children w"] by (cases "w_children w = 0") auto
  qed
  have self: "w_children w \<noteq> p"
    using children_not_self [OF f assms(2) w(1)] .
  obtain qs where qs: "chain ?h p qs" "set qs \<subseteq> set (forest_nodes f)" using forest_chain [OF f(1), of "[]"] assms(2) by auto
  define s2 where "s2 = s\<lparr>ui_allocs := snd (kmalloc_outcome 104 (ui_allocs s)), ui_widgets := ?h(?a \<mapsto> ?n), ui_fresh := Suc ?a\<rparr>"
  define L where "L = link_child p ?a ?n ?h"
  define s3 where "s3 = s2\<lparr>ui_widgets := L\<rparr>"
  define c where "c = offsets L qs (?n\<lparr>w_parent := p, w_next := w_children w, w_prev := 0\<rparr>)"
  have a: "0 < ?a" "p \<noteq> ?a" using p by auto
  have "link_child p ?a ?n (?h(?a \<mapsto> ?n)) = L" using a(2) kid w by (auto simp: L_def link_child_def Let_def fun_eq_iff)
  then have add: "ui_add_child p ?a s2 = (case add_ancestors ?a p s3 of None \<Rightarrow> Inl Diverges | Some r \<Rightarrow> r)"
    using add_child_links [of p ?a s2 w ?n] a w kid self by (simp add: s2_def s3_def)
  have La: "L ?a = Some (?n\<lparr>w_parent := p, w_next := w_children w, w_prev := 0\<rparr>)" using link_child_new [of p ?a ?n ?h] a(2) w(1) by (simp add: L_def)
  have same: "map_option w_parent (L q) = map_option w_parent (?h q)" "w_bounds (the (L q)) = w_bounds (the (?h q))" if "q \<in> set qs" for q
    using that qs(2) out w self kid by (auto simp: L_def link_child_def Let_def)
  have "chain L p qs" using qs(1) ancestors_cong [where h = ?h and h' = L and qs = qs] same(1) by blast
  from add_ancestors_chain [of s3 p qs ?a] this La a(1) qs(2) out
  have "add_ancestors ?a p s3 = Some (Inr (s3\<lparr>ui_widgets := L(?a \<mapsto> c)\<rparr>))" by (auto simp: s3_def c_def)
  moreover have "L(?a \<mapsto> c) = link_child p ?a c ?h" unfolding L_def by (rule link_child_replace) (use a w in \<open>simp_all add: c_def\<close>)
  ultimately have created: "ui_create_widget p b s = Inr (?a, s3\<lparr>ui_widgets := link_child p ?a c ?h\<rparr>)"
    using add assms(3) w(2) by (simp add: ui_create_widget_def Let_def split_def s2_def)
  have pos: "w_bounds c = b" "rect_x (w_absolute c) = rect_x b + sum_list (map (\<lambda>q. rect_x (w_bounds (the (?h q)))) qs)"
    "rect_y (w_absolute c) = rect_y b + sum_list (map (\<lambda>q. rect_y (w_bounds (the (?h q)))) qs)"
    using same(2) by (simp_all add: c_def offsets_position new_widget_def cong: map_cong)
  have "w_children c = 0" by (simp add: c_def new_widget_def)
  from graft_forest [OF f assms(2) _ out this] a(1)
  have "forest_at (link_child p ?a c ?h) 0 0 (root_widget s) (graft p ?a f)" by simp
  moreover have "distinct (forest_nodes (graft p ?a f))"
    using mset_eq_imp_distinct_iff [of "?a # forest_nodes f"] graft_nodes [OF f(2) assms(2), of ?a] out f(2) by auto
  moreover have "0 < x \<and> x < Suc ?a" if "link_child p ?a c ?h x \<noteq> None" for x
    using that fresh [of x] fresh [of "w_children w"] kid w p by (auto simp: link_child_def Let_def less_Suc_eq split: if_splits)
  ultimately have "ui_tree (graft p ?a f) (s3\<lparr>ui_widgets := link_child p ?a c ?h\<rparr>)" by (simp add: ui_tree_def s3_def s2_def)
  moreover have "link_child p ?a c ?h ?a = Some c" using link_child_new [of p ?a c ?h] a(2) w(1) by (simp add: c_def)
  ultimately show ?thesis using created qs(1) pos by (intro exI conjI) (assumption | simp)+
qed

section \<open>Destroying widgets\<close>

text \<open>The place that holds the link to a widget: the sibling before it, or its parent.\<close>

definition holder :: "ui_widget \<Rightarrow> nat" where "holder w = (if w_prev w \<noteq> 0 then w_prev w else w_parent w)"

definition unlink :: "nat \<Rightarrow> (nat \<rightharpoonup> ui_widget) \<Rightarrow> (nat \<rightharpoonup> ui_widget)" where
  "unlink x h =
     (let w = the (h x); q = the (h (holder w));
          h1 = h(holder w \<mapsto> (if w_prev w \<noteq> 0 then q\<lparr>w_next := w_next w\<rparr> else q\<lparr>w_children := w_next w\<rparr>));
          h2 = (if w_next w \<noteq> 0 then h1(w_next w \<mapsto> (the (h (w_next w)))\<lparr>w_prev := w_prev w\<rparr>) else h1)
      in h2(x \<mapsto> w\<lparr>w_parent := 0, w_next := 0, w_prev := 0\<rparr>))"

lemma unlink_other:
  "h x = Some w \<Longrightarrow> y \<noteq> x \<Longrightarrow> y \<noteq> holder w \<Longrightarrow> y \<noteq> w_next w \<or> w_next w = 0 \<Longrightarrow> unlink x h y = h y"
  by (auto simp: unlink_def Let_def)

lemma unlink_self: "h x = Some w \<Longrightarrow> unlink x h x = Some (w\<lparr>w_parent := 0, w_next := 0, w_prev := 0\<rparr>)"
  by (simp add: unlink_def Let_def)

lemma unlink_holder:
  "h x = Some w \<Longrightarrow> h (holder w) = Some q \<Longrightarrow> holder w \<noteq> x \<Longrightarrow> holder w \<noteq> w_next w \<or> w_next w = 0 \<Longrightarrow>
    unlink x h (holder w) = Some (if w_prev w \<noteq> 0 then q\<lparr>w_next := w_next w\<rparr> else q\<lparr>w_children := w_next w\<rparr>)"
  by (auto simp: unlink_def Let_def)

lemma next_inside:
  assumes "forest_at h par prev a f" "distinct (forest_nodes f)" "x \<in> set (forest_nodes f)" "h x = Some w" "w_next w \<noteq> 0"
  shows "w_next w \<in> set (forest_nodes f) \<and> w_next w \<noteq> x"
  using assms
proof (induction f arbitrary: par prev a)
  case (Widget y cs ss)
  then show ?case using forest_heads [of h par y "w_next w" ss] by auto metis+
qed simp

lemma holder_inside:
  assumes "forest_at h par prev a f" "x \<in> set (forest_nodes f)" "h x = Some w" "x \<noteq> a"
  shows "holder w \<in> set (forest_nodes f)"
  using assms
proof (induction f arbitrary: par prev a)
  case (Widget y cs ss)
  from Widget.prems obtain v where v: "a = y" "y \<noteq> 0" "h y = Some v" "forest_at h y 0 (w_children v) cs" "forest_at h par y (w_next v) ss" by auto
  consider "x \<in> set (forest_nodes cs)" | "x \<in> set (forest_nodes ss)" using Widget.prems v by auto
  then show ?case
  proof cases
    case 1
    then show ?thesis
    proof (cases "x = w_children v")
      case True
      then have "holder w = y" using v 1 Widget.prems(3) by (cases cs) (auto simp: holder_def)
      then show ?thesis by simp
    qed (use Widget.IH(1) [OF v(4) 1 Widget.prems(3)] in auto)
  next
    case 2
    then show ?thesis
    proof (cases "x = w_next v")
      case True
      then have "holder w = y" using v 2 Widget.prems(3) by (cases ss) (auto simp: holder_def)
      then show ?thesis by simp
    qed (use Widget.IH(2) [OF v(5) 2 Widget.prems(3)] in auto)
  qed
qed simp

lemma prune_outside: "x \<notin> set (forest_nodes f) \<Longrightarrow> prune x f = f"
  by (induction f) auto

lemma prune_nodes: "set (forest_nodes (prune x f)) \<subseteq> set (forest_nodes f)"
  by (induction f) auto

lemma prune_distinct: "distinct (forest_nodes f) \<Longrightarrow> distinct (forest_nodes (prune x f))"
  using prune_nodes by (induction f) (fastforce simp: disjoint_iff)+

text \<open>Unlinking the first widget of a forest leaves its siblings behind and its children below it.\<close>

lemma unlink_head:
  assumes "forest_at h par prev x (Widget x cs ss)" "distinct (forest_nodes (Widget x cs ss))" "h x = Some w"
    and "par \<notin> set (forest_nodes (Widget x cs ss))" "prev \<notin> set (forest_nodes (Widget x cs ss))"
  shows "forest_at (unlink x h) par prev (w_next w) ss" "forest_at (unlink x h) x 0 (w_children w) cs"
proof -
  have w: "w_parent w = par" "w_prev w = prev" "forest_at h x 0 (w_children w) cs" "forest_at h par x (w_next w) ss" "x \<noteq> 0" using assms(1,3) by auto
  have hold: "holder w \<notin> set (forest_nodes (Widget x cs ss))" using assms(4,5) w by (simp add: holder_def)
  have n: "w_next w \<noteq> 0 \<Longrightarrow> w_next w \<in> set (forest_nodes ss)" using forest_heads [OF w(4)] .
  have z: "0 \<notin> set (forest_nodes cs)" "0 \<notin> set (forest_nodes ss)" using forest_nonzero w(3,4) by blast+
  have "unlink x h y = h y" if "y \<in> set (forest_nodes cs)" for y
    by (rule unlink_other [where w = w]) (use that n hold assms(2,3) in auto)
  then show "forest_at (unlink x h) x 0 (w_children w) cs" using forest_cong [of cs "unlink x h" h] w(3) by blast
  show "forest_at (unlink x h) par prev (w_next w) ss"
  proof (cases "w_next w = 0")
    case True
    then show ?thesis using w(4) by (cases ss) auto
  next
    case False
    have "unlink x h y = (h(w_next w \<mapsto> (the (h (w_next w)))\<lparr>w_prev := prev\<rparr>)) y" if "y \<in> set (forest_nodes ss)" for y
      using that hold assms(2,3) False w by (auto simp: unlink_def Let_def)
    then show ?thesis using relink_head [OF w(4) _ False, of prev] assms(2)
      forest_cong [of ss "unlink x h" "h(w_next w \<mapsto> (the (h (w_next w)))\<lparr>w_prev := prev\<rparr>)"] by auto
  qed
qed

lemma unlink_forest:
  assumes "forest_at h par prev a f" "distinct (forest_nodes f)" "x \<in> set (forest_nodes f)" "x \<noteq> a" "h x = Some w"
    and "par \<notin> set (forest_nodes f)" "prev \<notin> set (forest_nodes f)"
  shows "forest_at (unlink x h) par prev a (prune x f)"
  using assms
proof (induction f arbitrary: par prev a)
  case (Widget y cs ss)
  let ?h = "unlink x h"
  from Widget.prems obtain v where v: "a = y" "y \<noteq> 0" "h y = Some v" "w_parent v = par" "w_prev v = prev"
    "forest_at h y 0 (w_children v) cs" "forest_at h par y (w_next v) ss" by auto
  have d: "distinct (forest_nodes cs)" "distinct (forest_nodes ss)" "y \<notin> set (forest_nodes cs)" "y \<notin> set (forest_nodes ss)"
    "set (forest_nodes cs) \<inter> set (forest_nodes ss) = {}" "x \<noteq> y" "par \<notin> set (forest_nodes cs)" "par \<notin> set (forest_nodes ss)"
    "par \<noteq> y" "prev \<noteq> y" using Widget.prems v(1) by auto
  have z: "0 \<notin> set (forest_nodes cs)" "0 \<notin> set (forest_nodes ss)" using forest_nonzero v(6,7) by blast+
  have w: "h x = Some w" using Widget.prems(5) .
  consider "x \<in> set (forest_nodes cs)" | "x \<in> set (forest_nodes ss)" using Widget.prems(3) d(6) by auto
  then show ?case
  proof cases
    case 1
    then have out: "x \<notin> set (forest_nodes ss)" using d by auto
    have n: "w_next w \<noteq> 0 \<Longrightarrow> w_next w \<in> set (forest_nodes cs)" using next_inside [OF v(6) d(1) 1 w] by blast
    have hold: "holder w = y \<and> x = w_children v \<and> w_prev w = 0 \<or> holder w \<in> set (forest_nodes cs) \<and> x \<noteq> w_children v"
    proof (cases "x = w_children v")
      case True
      then show ?thesis using v 1 w by (cases cs) (auto simp: holder_def)
    qed (use holder_inside [OF v(6) 1 w] in auto)
    have "?h u = h u" if "u \<in> set (forest_nodes ss)" for u
      by (rule unlink_other [where w = w]) (use that n hold d out w in auto)
    then have ss: "forest_at ?h par y (w_next v) ss" using forest_cong [of ss ?h h] v(7) by blast
    show ?thesis
    proof (cases "x = w_children v")
      case True
      then obtain cs' ss' where cs: "cs = Widget x cs' ss'" using v(6) 1 z(1) by (cases cs) auto
      have "forest_at ?h y 0 (w_next w) ss'"
        by (rule unlink_head(1) [of h y 0 x cs' ss' w]) (use v(6) d z w True in \<open>auto simp: cs\<close>)
      moreover have ne: "holder w \<noteq> w_next w \<or> w_next w = 0" "holder w = y" using hold n d(3) True by (cases "w_next w = 0"; auto)+
      moreover from this have "?h y = Some (v\<lparr>w_children := w_next w\<rparr>)"
        using unlink_holder [where h = h and x = x and w = w and q = v] w hold True v(3) d(6) by auto
      ultimately show ?thesis using v d(6) ss by (auto simp: cs prune_outside out)
    next
      case False
      have "?h y = Some v" using unlink_other [where h = h and x = x and w = w and y = y] w d hold n False v by auto
      moreover have "forest_at ?h y 0 (w_children v) (prune x cs)"
        by (rule Widget.IH(1)) (use v d 1 False w z in simp_all)
      ultimately show ?thesis using v d(6) ss by (auto simp: prune_outside out)
    qed
  next
    case 2
    then have out: "x \<notin> set (forest_nodes cs)" using d by auto
    have n: "w_next w \<noteq> 0 \<Longrightarrow> w_next w \<in> set (forest_nodes ss)" using next_inside [OF v(7) d(2) 2 w] by blast
    have hold: "holder w = y \<and> x = w_next v \<and> w_prev w \<noteq> 0 \<or> holder w \<in> set (forest_nodes ss) \<and> x \<noteq> w_next v"
    proof (cases "x = w_next v")
      case True
      then show ?thesis using v 2 w by (cases ss) (auto simp: holder_def)
    qed (use holder_inside [OF v(7) 2 w] in auto)
    have "?h u = h u" if "u \<in> set (forest_nodes cs)" for u
      by (rule unlink_other [where w = w]) (use that n hold d out w in auto)
    then have cs: "forest_at ?h y 0 (w_children v) cs" using forest_cong [of cs ?h h] v(6) by blast
    show ?thesis
    proof (cases "x = w_next v")
      case True
      then obtain cs' ss' where ss: "ss = Widget x cs' ss'" using v(7) 2 z(2) by (cases ss) auto
      have "forest_at ?h par y (w_next w) ss'"
        by (rule unlink_head(1) [of h par y x cs' ss' w]) (use v(7) d z w True in \<open>auto simp: ss\<close>)
      moreover have ne: "holder w \<noteq> w_next w \<or> w_next w = 0" "holder w = y" using hold n d(4) True by (cases "w_next w = 0"; auto)+
      moreover from this have "?h y = Some (v\<lparr>w_next := w_next w\<rparr>)"
        using unlink_holder [where h = h and x = x and w = w and q = v] w hold True v(3) d(6) by auto
      ultimately show ?thesis using v d(6) cs by (auto simp: ss prune_outside out)
    next
      case False
      have "?h y = Some v" using unlink_other [where h = h and x = x and w = w and y = y] w d hold n False v by auto
      moreover have "forest_at ?h par y (w_next v) (prune x ss)"
        by (rule Widget.IH(2)) (use v d 2 False w z in simp_all)
      ultimately show ?thesis using v d(6) cs by (auto simp: prune_outside out)
    qed
  qed
qed simp

lemma remove_child_unlinks:
  assumes "ui_widgets s x = Some w" "x \<noteq> 0" "w_parent w \<noteq> 0" "ui_widgets s (holder w) \<noteq> None" "holder w \<noteq> x"
    and "w_next w \<noteq> x" "w_next w \<noteq> 0 \<Longrightarrow> ui_widgets s (w_next w) \<noteq> None \<and> w_next w \<noteq> holder w"
  shows "ui_remove_child (w_parent w) x s = Inr (s\<lparr>ui_widgets := unlink x (ui_widgets s)\<rparr>)"
proof -
  obtain q where q: "ui_widgets s (holder w) = Some q" using assms(4) by auto
  have h0: "holder w \<noteq> 0" using assms(3) by (simp add: holder_def)
  let ?h1 = "(ui_widgets s)(holder w \<mapsto> (if w_prev w \<noteq> 0 then q\<lparr>w_next := w_next w\<rparr> else q\<lparr>w_children := w_next w\<rparr>))"
  have one: "(if w_prev w \<noteq> 0 then upd_widget (w_prev w) (\<lambda>v. v\<lparr>w_next := w_next w\<rparr>) s
      else upd_widget (w_parent w) (\<lambda>v. v\<lparr>w_children := w_next w\<rparr>) s) = Inr (s\<lparr>ui_widgets := ?h1\<rparr>)"
    using q h0 assms(3) by (simp add: holder_def split: if_splits)
  have self: "get_widget x (s\<lparr>ui_widgets := ?h1\<rparr>) = Inr w" using assms by simp
  show ?thesis
  proof (cases "w_next w = 0")
    case True
    then show ?thesis using assms(1-3,5) one self q by (simp add: ui_remove_child_def upd_widget_def unlink_def)
  next
    case False
    obtain n where n: "ui_widgets s (w_next w) = Some n" "w_next w \<noteq> holder w" using assms(7) False by auto
    have "upd_widget (w_next w) (\<lambda>v. v\<lparr>w_prev := w_prev w\<rparr>) (s\<lparr>ui_widgets := ?h1\<rparr>) =
        Inr (s\<lparr>ui_widgets := ?h1(w_next w \<mapsto> n\<lparr>w_prev := w_prev w\<rparr>)\<rparr>)"
      using n False by (simp add: upd_widget_def get_widget_def)
    then show ?thesis using assms(1-3,5,6) one self q n False by (simp add: ui_remove_child_def upd_widget_def get_widget_def unlink_def Let_def)
  qed
qed

lemma unlink_dom:
  assumes "h x = Some w" "h (holder w) \<noteq> None" "w_next w \<noteq> 0 \<Longrightarrow> h (w_next w) \<noteq> None"
  shows "unlink x h a \<noteq> None \<longleftrightarrow> h a \<noteq> None"
  using assms by (auto simp: unlink_def Let_def)

lemma destroy_forest:
  assumes "ui_widgets s p = Some w" "p \<noteq> 0" "forest_at (ui_widgets s) p 0 (w_children w) f" "distinct (p # forest_nodes f)"
    and "2 * length (forest_nodes f) < n"
  shows "destroy_children n p s = Inr (s\<lparr>ui_widgets := (\<lambda>a. if a \<in> set (forest_nodes f) then None
      else if a = p then Some (w\<lparr>w_children := 0\<rparr>) else ui_widgets s a)\<rparr>)"
  using assms
proof (induction f arbitrary: p w s n)
  case No_widget
  then obtain m where m: "n = Suc m" by (cases n) auto
  have "(\<lambda>a. if a = p then Some (w\<lparr>w_children := 0\<rparr>) else ui_widgets s a) = ui_widgets s" using No_widget by auto
  then show ?case using No_widget by (simp add: m)
next
  case (Widget c cs ss)
  let ?h = "ui_widgets s"
  from Widget.prems obtain v where v: "w_children w = c" "c \<noteq> 0" "?h c = Some v" "w_parent v = p" "w_prev v = 0"
    "forest_at ?h p c (w_next v) ss" by auto
  obtain m where m: "n = Suc (Suc m)" "2 * length (forest_nodes cs) < m" "2 * length (forest_nodes ss) < Suc m"
    using Widget.prems(5) by (cases n; cases "n - 1") auto
  have d: "p \<noteq> c" "p \<notin> set (forest_nodes cs)" "p \<notin> set (forest_nodes ss)" "c \<notin> set (forest_nodes cs)" "c \<notin> set (forest_nodes ss)"
    "set (forest_nodes cs) \<inter> set (forest_nodes ss) = {}" "distinct (forest_nodes cs)" "distinct (forest_nodes ss)" using Widget.prems(4) by auto
  have z: "0 \<notin> set (forest_nodes (Widget c cs ss))" using forest_nonzero [OF Widget.prems(3)] by blast
  have n: "w_next v \<in> set (forest_nodes ss)" "?h (w_next v) \<noteq> None" if "w_next v \<noteq> 0"
    using forest_heads [OF v(6)] forest_nonzero [OF v(6), of "w_next v"] that by auto
  have hold: "holder v = p" using v by (simp add: holder_def)
  have ne: "w_next v \<noteq> c" "w_next v \<noteq> p \<or> w_next v = 0" using n(1) d v(2) by (cases "w_next v = 0"; auto)+
  let ?h1 = "unlink c ?h"
  have rm: "ui_remove_child p c s = Inr (s\<lparr>ui_widgets := ?h1\<rparr>)"
    using remove_child_unlinks [OF v(3,2)] v(4) hold ne n(2) Widget.prems(1,2) d(1) by auto
  have split: "forest_at ?h1 p 0 (w_next v) ss" "forest_at ?h1 c 0 (w_children v) cs"
    using unlink_head [of ?h p 0 c cs ss v] Widget.prems v(1,3) d z by auto
  let ?v1 = "v\<lparr>w_parent := 0, w_next := 0, w_prev := 0\<rparr>"
  let ?s1 = "s\<lparr>ui_widgets := ?h1\<rparr>"
  have one: "destroy_children m c ?s1 = Inr (?s1\<lparr>ui_widgets := (\<lambda>a. if a \<in> set (forest_nodes cs) then None
      else if a = c then Some (?v1\<lparr>w_children := 0\<rparr>) else ?h1 a)\<rparr>)"
    using Widget.IH(1) [of ?s1 c ?v1 m] unlink_self [where h = ?h, OF v(3)] v(2) split(2) d m(2) by (simp cong: if_cong)
  define s2 where "s2 = s\<lparr>ui_widgets := (\<lambda>a. if a \<in> set (forest_nodes cs) \<or> a = c then None else ?h1 a)\<rparr>"
  have "(\<lambda>a. if a \<in> set (forest_nodes cs) then None else if a = c then Some (?v1\<lparr>w_children := 0\<rparr>) else ?h1 a)(c := None) =
      (\<lambda>a. if a \<in> set (forest_nodes cs) \<or> a = c then None else ?h1 a)" by auto
  then have two: "ui_destroy_widget (Suc m) c s = Inr s2"
    using one rm v(2-4) Widget.prems(2) by (simp add: kfree_widget_def s2_def)
  have "?h1 p = Some (w\<lparr>w_children := w_next v\<rparr>)"
    using unlink_holder [where h = ?h and x = c and w = v and q = w] v hold Widget.prems(1) d(1) ne by auto
  then have p: "ui_widgets s2 p = Some (w\<lparr>w_children := w_next v\<rparr>)" using d by (simp add: s2_def)
  have "forest_at (ui_widgets s2) p 0 (w_next v) ss"
    using split(1) d by (subst forest_cong [where h = ?h1]) (auto simp: s2_def)
  then have three: "destroy_children (Suc m) p s2 = Inr (s2\<lparr>ui_widgets := (\<lambda>a. if a \<in> set (forest_nodes ss) then None
      else if a = p then Some (w\<lparr>w_children := 0\<rparr>) else ui_widgets s2 a)\<rparr>)"
    using Widget.IH(2) [OF p Widget.prems(2), of "Suc m"] d m(3) by (simp del: destroy_children.simps cong: if_cong)
  have rest: "?h1 a = ?h a" if "a \<notin> set (forest_nodes ss)" "a \<noteq> c" "a \<noteq> p" for a
    using unlink_other [where h = ?h and x = c and w = v and y = a] v(3) that hold n(1) by auto
  have "destroy_children n p s = destroy_children (Suc m) p s2"
    using Widget.prems(1,2) v(1,2) two unfolding m(1) destroy_children.simps(2) [of "Suc m"]
    by (simp del: destroy_children.simps ui_destroy_widget.simps)
  also note three
  also have "s2\<lparr>ui_widgets := (\<lambda>a. if a \<in> set (forest_nodes ss) then None
      else if a = p then Some (w\<lparr>w_children := 0\<rparr>) else ui_widgets s2 a)\<rparr> =
    s\<lparr>ui_widgets := (\<lambda>a. if a \<in> set (forest_nodes (Widget c cs ss)) then None
      else if a = p then Some (w\<lparr>w_children := 0\<rparr>) else ?h a)\<rparr>"
    using d rest by (auto simp: s2_def fun_eq_iff intro!: arg_cong [where f = "\<lambda>h. s\<lparr>ui_widgets := h\<rparr>"])
  finally show ?case .
qed

fun below :: "nat \<Rightarrow> forest \<Rightarrow> forest" where
  "below x No_widget = No_widget"
| "below x (Widget y cs ss) = (if x = y then cs else if x \<in> set (forest_nodes cs) then below x cs else below x ss)"

lemma prune_below:
  "distinct (forest_nodes f) \<Longrightarrow> x \<in> set (forest_nodes f) \<Longrightarrow>
    mset (forest_nodes f) = add_mset x (mset (forest_nodes (below x f)) + mset (forest_nodes (prune x f)))"
proof (induction f)
  case (Widget y cs ss)
  consider "x = y" | "x \<noteq> y" "x \<in> set (forest_nodes cs)" "x \<notin> set (forest_nodes ss)" | "x \<noteq> y" "x \<notin> set (forest_nodes cs)" "x \<in> set (forest_nodes ss)"
    using Widget.prems by auto
  then show ?case using Widget by cases (simp_all add: prune_outside)
qed simp

lemma unlink_below:
  assumes "forest_at h par prev a f" "distinct (forest_nodes f)" "x \<in> set (forest_nodes f)" "h x = Some w"
    and "par \<notin> set (forest_nodes f)" "prev \<notin> set (forest_nodes f)"
  shows "forest_at (unlink x h) x 0 (w_children w) (below x f)"
  using assms
proof (induction f arbitrary: par prev a)
  case (Widget y cs ss)
  from Widget.prems obtain v where v: "a = y" "y \<noteq> 0" "h y = Some v"
    "forest_at h y 0 (w_children v) cs" "forest_at h par y (w_next v) ss" by auto
  have z: "0 \<notin> set (forest_nodes cs)" using forest_nonzero v(4) by blast
  show ?case
  proof (cases "x = y")
    case True
    then show ?thesis using unlink_head(2) [of h par prev x cs ss w] Widget.prems v(1) by simp
  next
    case False
    then show ?thesis using Widget.IH(1) [OF v(4)] Widget.IH(2) [OF v(5)] Widget.prems z by auto
  qed
qed simp

lemma forest_parents: "forest_at h par prev a f \<Longrightarrow> par \<noteq> 0 \<Longrightarrow> x \<in> set (forest_nodes f) \<Longrightarrow> h x = Some w \<Longrightarrow> w_parent w \<noteq> 0"
  by (induction f arbitrary: par prev a) auto

lemma holder_not_next:
  assumes "forest_at h par prev a f" "distinct (forest_nodes f)" "x \<in> set (forest_nodes f)" "h x = Some w"
    and "par \<notin> set (forest_nodes f)" "prev \<notin> set (forest_nodes f)"
  shows "holder w \<noteq> x \<and> (w_next w \<noteq> 0 \<longrightarrow> w_next w \<noteq> holder w)"
  using assms
proof (induction f arbitrary: par prev a)
  case (Widget y cs ss)
  from Widget.prems obtain v where v: "y \<noteq> 0" "h y = Some v" "w_parent v = par" "w_prev v = prev"
    "forest_at h y 0 (w_children v) cs" "forest_at h par y (w_next v) ss" by auto
  have z: "0 \<notin> set (forest_nodes cs)" using forest_nonzero v(5) by blast
  show ?case
  proof (cases "x = y")
    case True
    then have "w = v" using Widget.prems(4) v(2) by simp
    then show ?thesis using True v Widget.prems(2,5,6) forest_heads [OF v(6)] by (auto simp: holder_def)
  next
    case False
    then show ?thesis using Widget.IH(1) [OF v(5)] Widget.IH(2) [OF v(6)] Widget.prems z by auto
  qed
qed simp

lemma destroy_subtree:
  assumes "ui_tree (Widget r cs No_widget) s" "x \<in> set (forest_nodes cs)" "2 * length (forest_nodes cs) < n"
  shows "\<exists>s'. ui_destroy_widget n x s = Inr s' \<and> ui_tree (prune x (Widget r cs No_widget)) s' \<and> focused_widget s' = focused_widget s \<and>
    (\<forall>a. ui_widgets s' a \<noteq> None \<longleftrightarrow> ui_widgets s a \<noteq> None \<and> a \<notin> set (x # forest_nodes (below x cs)))"
proof -
  let ?f = "Widget r cs No_widget" and ?h = "ui_widgets s"
  have f: "forest_at ?h 0 0 r ?f" "distinct (forest_nodes ?f)" "root_widget s = r" using assms(1) by (auto simp: ui_tree_def)
  then obtain v where v: "r \<noteq> 0" "?h r = Some v" "forest_at ?h r 0 (w_children v) cs" by auto
  have d: "distinct (forest_nodes cs)" "r \<notin> set (forest_nodes cs)" "x \<noteq> r" using f(2) assms(2) by auto
  have z: "0 \<notin> set (forest_nodes ?f)" using forest_nonzero [OF f(1)] by blast
  obtain w where w: "?h x = Some w" "x \<noteq> 0" using forest_nonzero [OF v(3) assms(2)] by auto
  have n: "w_next w \<noteq> x" "w_next w \<noteq> 0 \<Longrightarrow> ?h (w_next w) \<noteq> None"
    using next_inside [OF v(3) d(1) assms(2) w(1)] forest_nonzero [OF v(3)] w(2) by (cases "w_next w = 0"; blast)+
  have hold: "holder w \<noteq> x" "w_next w \<noteq> 0 \<Longrightarrow> w_next w \<noteq> holder w" "?h (holder w) \<noteq> None"
    using holder_not_next [OF f(1,2) _ w(1)] holder_inside [OF f(1) _ w(1) d(3)] forest_nonzero [OF f(1), of "holder w"] z assms(2) by auto
  define h1 where "h1 = unlink x ?h"
  have rm: "ui_remove_child (w_parent w) x s = Inr (s\<lparr>ui_widgets := h1\<rparr>)"
    unfolding h1_def by (rule remove_child_unlinks) (use w hold n forest_parents [OF v(3) v(1) assms(2)] in auto)
  have below: "forest_at h1 x 0 (w_children w) (below x cs)"
    using unlink_below [OF v(3) d(1) assms(2) w(1)] d(2) z by (simp add: h1_def)
  have pruned: "forest_at h1 0 0 r (prune x ?f)"
    using unlink_forest [OF f(1,2) _ d(3) w(1)] assms(2) z by (auto simp: h1_def)
  have parts: "mset (forest_nodes cs) = add_mset x (mset (forest_nodes (below x cs)) + mset (forest_nodes (prune x cs)))"
    by (rule prune_below [OF d(1) assms(2)])
  have "distinct (x # forest_nodes (below x cs) @ forest_nodes (prune x cs))"
    using mset_eq_imp_distinct_iff [of "x # forest_nodes (below x cs) @ forest_nodes (prune x cs)" "forest_nodes cs"] parts d(1) by auto
  then have apart: "x \<notin> set (forest_nodes (below x cs))" "distinct (forest_nodes (below x cs))" "x \<notin> set (forest_nodes (prune x cs))"
    "set (forest_nodes (below x cs)) \<inter> set (forest_nodes (prune x cs)) = {}" by auto
  have len: "length (forest_nodes (below x cs)) < length (forest_nodes cs)"
    using arg_cong [OF parts, of size] by simp
  have rb: "r \<notin> set (forest_nodes (below x cs))" using d(2) arg_cong [OF parts, of set_mset] by auto
  obtain m where m: "n = Suc m" using assms(3) by (cases n) auto
  let ?s1 = "s\<lparr>ui_widgets := h1\<rparr>" and ?w1 = "w\<lparr>w_parent := 0, w_next := 0, w_prev := 0\<rparr>"
  let ?h2 = "\<lambda>a. if a \<in> set (forest_nodes (below x cs)) then None else if a = x then Some (?w1\<lparr>w_children := 0\<rparr>) else h1 a"
  have "destroy_children m x ?s1 = Inr (?s1\<lparr>ui_widgets := ?h2\<rparr>)"
    using destroy_forest [of ?s1 x ?w1 "below x cs" m] unlink_self [where h = ?h, OF w(1)] w(2) below apart len assms(3) m
    by (simp add: h1_def cong: if_cong)
  then have run: "ui_destroy_widget n x s = Inr (s\<lparr>ui_widgets := ?h2(x := None)\<rparr>)"
    using rm w forest_parents [OF v(3) v(1) assms(2) w(1)] by (simp add: m kfree_widget_def)
  have dom: "(?h2(x := None)) a \<noteq> None \<longleftrightarrow> ?h a \<noteq> None \<and> a \<notin> set (x # forest_nodes (below x cs))" for a
    using unlink_dom [where h = ?h, OF w(1) hold(3) n(2), of a] by (auto simp: h1_def)
  have "forest_at (?h2(x := None)) 0 0 r (prune x ?f)"
    using pruned by (rule forest_cong [THEN iffD2, rotated]) (use apart rb d(3) in auto)
  then have "ui_tree (prune x ?f) (s\<lparr>ui_widgets := ?h2(x := None)\<rparr>)"
    using prune_distinct [OF f(2)] f(3) dom assms(1) by (auto simp: ui_tree_def simp del: fun_upd_apply)
  then show ?thesis using run dom by (intro exI [of _ "s\<lparr>ui_widgets := ?h2(x := None)\<rparr>"]) (simp del: fun_upd_apply)
qed

text \<open>
  C10. Destroying a widget of the tree returns, frees exactly the widget and those below it, and
  leaves the tree without them, all links of the remaining widgets being consistent.
\<close>

theorem destroy_frees_subtree:
  assumes "ui_tree (Widget r cs No_widget) s" "x \<in> set (forest_nodes cs)" "2 * length (forest_nodes cs) < n"
  shows "\<exists>s'. ui_destroy_widget n x s = Inr s' \<and> ui_tree (prune x (Widget r cs No_widget)) s' \<and>
    (\<forall>a. ui_widgets s' a \<noteq> None \<longleftrightarrow> ui_widgets s a \<noteq> None \<and> a \<notin> set (x # forest_nodes (below x cs)))"
  using destroy_subtree [OF assms] by blast

text \<open>
  Destroying the widget that has the focus does not take the focus away: setting the focus
  to any other widget afterwards reads the freed one.
\<close>

theorem focus_dangles:
  assumes "ui_tree (Widget r cs No_widget) s" "x \<in> set (forest_nodes cs)" "2 * length (forest_nodes cs) < n"
    and "focused_widget s = x" "y \<noteq> x"
  shows "\<exists>s'. ui_destroy_widget n x s = Inr s' \<and> ui_get_focus s' = x \<and> ui_set_focus y s' = Inl BadPointer"
proof -
  have "x \<noteq> 0" using assms(1,2) forest_nonzero [of "ui_widgets s" 0 0 "root_widget s" "Widget r cs No_widget" x] by (auto simp: ui_tree_def)
  moreover obtain s' where "ui_destroy_widget n x s = Inr s'" "focused_widget s' = x" "ui_widgets s' x = None"
    using destroy_subtree [OF assms(1-3)] assms(4) by fastforce
  ultimately show ?thesis using assms(5)
    by (intro exI [of _ s']) (simp add: ui_get_focus_def ui_set_focus_def notify_focus_def get_widget_def)
qed

section \<open>Events\<close>

fun siblings :: "forest \<Rightarrow> nat list" where
  "siblings No_widget = []"
| "siblings (Widget x cs ss) = x # siblings ss"

definition is_under :: "(nat \<rightharpoonup> ui_widget) \<Rightarrow> ui_event \<Rightarrow> nat \<Rightarrow> bool" where
  "is_under h ev a \<longleftrightarrow> (case h a of None \<Rightarrow> False | Some w \<Rightarrow> ui_rect_contains (w_absolute w) (ev_x ev) (ev_y ev))"

lemma is_under_Some: "h a = Some w \<Longrightarrow> is_under h ev a = ui_rect_contains (w_absolute w) (ev_x ev) (ev_y ev)"
  by (simp add: is_under_def)

lemma child_under_find:
  "forest_at (ui_widgets s) par prev a f \<Longrightarrow>
    child_under ev a s = Some (Inr (case find (is_under (ui_widgets s) ev) (siblings f) of None \<Rightarrow> 0 | Some c \<Rightarrow> c))"
proof (induction f arbitrary: par prev a)
  case (Widget x cs ss)
  then show ?case by (subst child_under.simps) (auto simp: is_under_Some)
qed (simp add: child_under.simps)

lemma find_holds: "find P xs = Some y \<Longrightarrow> P y \<and> y \<in> set xs"
  by (auto simp: find_Some_iff)

lemma siblings_nodes: "set (siblings f) \<subseteq> set (forest_nodes f)"
  by (induction f) auto

lemma sibling_rest:
  "forest_at h par prev a f \<Longrightarrow> c \<in> set (siblings f) \<Longrightarrow>
    \<exists>w ss. c \<noteq> 0 \<and> h c = Some w \<and> forest_at h par c (w_next w) ss \<and> length (forest_nodes ss) < length (forest_nodes f)"
proof (induction f arbitrary: par prev a)
  case (Widget x cs ss)
  then obtain w where w: "x \<noteq> 0" "h x = Some w" "forest_at h par x (w_next w) ss" by auto
  show ?case
  proof (cases "c = x")
    case True
    then show ?thesis using w by (intro exI [of _ w] exI [of _ ss]) simp
  next
    case False
    then show ?thesis using Widget.IH(2) [OF w(3)] Widget.prems(2) by fastforce
  qed
qed simp

text \<open>The widget that gets the event at \<open>y\<close>, and the forest that follows it.\<close>

lemma event_step:
  assumes "forest_at (ui_widgets s) par prev a (Widget y cs ss)" "is_under (ui_widgets s) ev y"
  shows "\<exists>u w g par'. post_loop handles ev a s =
      (let s1 = (if w_on_event w \<noteq> 0 then ui_call_back (On_event (w_on_event w) u ev) s else s)
       in if w_on_event w \<noteq> 0 \<and> handles (w_on_event w) u ev then Some (Inr (True, s1)) else post_loop handles ev (w_next w) s1) \<and>
    u = (case find (is_under (ui_widgets s) ev) (siblings cs) of None \<Rightarrow> y | Some c \<Rightarrow> c) \<and> is_under (ui_widgets s) ev u \<and>
    ui_widgets s u = Some w \<and> forest_at (ui_widgets s) par' u (w_next w) g \<and> length (forest_nodes g) < length (forest_nodes (Widget y cs ss))"
proof -
  let ?h = "ui_widgets s"
  from assms(1) obtain v where v: "a = y" "y \<noteq> 0" "?h y = Some v" "forest_at ?h y 0 (w_children v) cs" "forest_at ?h par y (w_next v) ss" by auto
  have c: "ui_rect_contains (w_absolute v) (ev_x ev) (ev_y ev)" using assms(2) v(3) by (simp add: is_under_Some)
  have t: "event_target ev y v s = Some (Inr (case find (is_under ?h ev) (siblings cs) of None \<Rightarrow> y | Some c \<Rightarrow> c))"
  proof (cases "find (is_under ?h ev) (siblings cs)")
    case (Some d)
    then have "d \<noteq> 0" using find_holds [OF Some] sibling_rest [OF v(4), of d] by blast
    then show ?thesis using Some child_under_find [OF v(4), of ev] by (simp add: event_target_def)
  qed (simp add: event_target_def child_under_find [OF v(4)])
  show ?thesis
  proof (cases "find (is_under ?h ev) (siblings cs)")
    case None
    then show ?thesis using v c t assms(2)
      by (intro exI [of _ y] exI [of _ v] exI [of _ ss] exI [of _ par]) (subst post_loop.simps, simp add: Let_def)
  next
    case (Some d)
    then obtain w g where g: "d \<noteq> 0" "?h d = Some w" "forest_at ?h y d (w_next w) g" "length (forest_nodes g) < length (forest_nodes cs)" "is_under ?h ev d"
      using find_holds [OF Some] sibling_rest [OF v(4), of d] by blast
    then show ?thesis using v c t Some
      by (intro exI [of _ d] exI [of _ w] exI [of _ g] exI [of _ y]) (subst post_loop.simps, simp add: Let_def)
  qed
qed

text \<open>
  C27. Delivering an event ends in every tree, whatever the callbacks answer, and calls only event
  callbacks of widgets whose rectangle contains the event's position.
\<close>

theorem event_delivery_ends:
  assumes "ui_tree f s"
  shows "\<exists>b calls. ui_post_event handles (Some ev) s = Inr (b, s\<lparr>ui_calls := ui_calls s @ calls\<rparr>) \<and>
    (\<forall>c \<in> set calls. \<exists>a w. c = On_event (w_on_event w) a ev \<and> ui_widgets s a = Some w \<and>
       ui_rect_contains (w_absolute w) (ev_x ev) (ev_y ev))"
proof -
  have "\<exists>b calls. post_loop handles ev a s = Some (Inr (b, s\<lparr>ui_calls := ui_calls s @ calls\<rparr>)) \<and>
    (\<forall>c \<in> set calls. \<exists>a w. c = On_event (w_on_event w) a ev \<and> ui_widgets s a = Some w \<and>
       ui_rect_contains (w_absolute w) (ev_x ev) (ev_y ev))" if "forest_at (ui_widgets s) par prev a f" for par prev a f
    using that
  proof (induction f arbitrary: par prev a s rule: measure_induct_rule [where f = "\<lambda>f. length (forest_nodes f)"])
    case (less f)
    let ?h = "ui_widgets s"
    let ?good = "\<lambda>c. \<exists>a w. c = On_event (w_on_event w) a ev \<and> ?h a = Some w \<and> ui_rect_contains (w_absolute w) (ev_x ev) (ev_y ev)"
    show ?case
    proof (cases f)
      case No_widget
      then show ?thesis using less.prems by (intro exI [of _ False] exI [of _ "[]"]) (simp add: post_loop.simps)
    next
      case (Widget y cs ss)
      then obtain v where v: "a = y" "y \<noteq> 0" "?h y = Some v" "forest_at ?h par y (w_next v) ss" using less.prems by auto
      show ?thesis
      proof (cases "is_under ?h ev y")
        case False
        then have "post_loop handles ev a s = post_loop handles ev (w_next v) s"
          using v by (subst post_loop.simps) (simp add: is_under_Some)
        then show ?thesis using less.IH [OF _ v(4)] Widget by simp
      next
        case True
        obtain u w g par' where u: "post_loop handles ev a s =
            (let s1 = (if w_on_event w \<noteq> 0 then ui_call_back (On_event (w_on_event w) u ev) s else s)
             in if w_on_event w \<noteq> 0 \<and> handles (w_on_event w) u ev then Some (Inr (True, s1)) else post_loop handles ev (w_next w) s1)"
          "is_under ?h ev u" "?h u = Some w" "forest_at ?h par' u (w_next w) g" "length (forest_nodes g) < length (forest_nodes f)"
          using event_step [OF less.prems [unfolded Widget] True, of handles] Widget by metis
        define calls1 where "calls1 = (if w_on_event w \<noteq> 0 then [On_event (w_on_event w) u ev] else [])"
        let ?s1 = "s\<lparr>ui_calls := ui_calls s @ calls1\<rparr>"
        have s1: "(if w_on_event w \<noteq> 0 then ui_call_back (On_event (w_on_event w) u ev) s else s) = ?s1"
          by (simp add: calls1_def ui_call_back_def)
        have good: "\<forall>c \<in> set calls1. ?good c" using u(2,3) by (auto simp: calls1_def is_under_Some)
        obtain b calls where r: "post_loop handles ev (w_next w) ?s1 = Some (Inr (b, ?s1\<lparr>ui_calls := ui_calls ?s1 @ calls\<rparr>))" "\<forall>c \<in> set calls. ?good c"
          using less.IH [OF u(5), of ?s1 par' u "w_next w"] u(4) by auto
        show ?thesis
        proof (cases "w_on_event w \<noteq> 0 \<and> handles (w_on_event w) u ev")
          case True
          then show ?thesis using u(1) s1 good by (intro exI [of _ True] exI [of _ calls1]) simp
        next
          case False
          then show ?thesis using u(1) s1 good r by (intro exI [of _ b] exI [of _ "calls1 @ calls"]) auto
        qed
      qed
    qed
  qed
  from this [of 0 0 "root_widget s" f] show ?thesis using assms by (auto simp: ui_tree_def ui_post_event_def)
qed

text \<open>
  An event on the root widget goes to the most recently added child under its position, also
  when that child is hidden or disabled or has itself a child there.
\<close>

theorem event_first_child:
  assumes "ui_tree (Widget r cs No_widget) s" "is_under (ui_widgets s) ev r" "find (is_under (ui_widgets s) ev) (siblings cs) = Some c"
    and "ui_widgets s c = Some w" "w_on_event w \<noteq> 0" "handles (w_on_event w) c ev"
  shows "ui_post_event handles (Some ev) s = Inr (True, s\<lparr>ui_calls := ui_calls s @ [On_event (w_on_event w) c ev]\<rparr>)"
proof -
  have "forest_at (ui_widgets s) 0 0 (root_widget s) (Widget r cs No_widget)" using assms(1) by (simp add: ui_tree_def)
  from event_step [OF this assms(2), of handles] assms(3-6)
  have "post_loop handles ev (root_widget s) s = Some (Inr (True, s\<lparr>ui_calls := ui_calls s @ [On_event (w_on_event w) c ev]\<rparr>))"
    by (auto simp: ui_call_back_def Let_def)
  then show ?thesis by (simp add: ui_post_event_def)
qed

section \<open>A small tree\<close>

text \<open>A root with two children, the second of them hidden and with a child of its own.\<close>

definition demo_widget :: "nat \<Rightarrow> nat \<Rightarrow> nat \<Rightarrow> nat \<Rightarrow> bool \<Rightarrow> ui_widget" where
  "demo_widget par kids nxt prv vis =
     (new_widget par \<lparr>rect_x = 5, rect_y = 7, rect_w = 50, rect_h = 50\<rparr>)\<lparr>w_children := kids, w_next := nxt, w_prev := prv,
       w_visible := vis, w_on_paint := 9, w_on_event := 8\<rparr>"

definition demo_ui :: ui_state where
  "demo_ui = \<lparr>ui_widgets = [1 \<mapsto> demo_widget 0 3 0 0 True, 2 \<mapsto> demo_widget 1 0 0 3 True, 3 \<mapsto> demo_widget 1 4 2 0 False,
     4 \<mapsto> demo_widget 3 0 0 0 True], ui_fresh = 5, ui_allocs = [], root_widget = 1, focused_widget = 3, ui_dirty_flag = False, ui_calls = []\<rparr>"

definition demo_kids :: forest where
  "demo_kids = Widget 3 (Widget 4 No_widget No_widget) (Widget 2 No_widget No_widget)"

lemma demo_ui_tree: "ui_tree (Widget 1 demo_kids No_widget) demo_ui"
  by (auto simp: ui_tree_def demo_ui_def demo_kids_def demo_widget_def new_widget_def split: if_splits)

definition demo_click :: ui_event where
  "demo_click = \<lparr>ev_type = UI_EVENT_MOUSE_DOWN, ev_x = 20, ev_y = 20, ev_button = 1, ev_keycode = 0, ev_handled = False\<rparr>"

theorem paint_postorder_witness:
  "\<exists>s. ui_paint_widget 8 (root_widget demo_ui) demo_ui = Inr s \<and> ui_calls s = [On_paint 9 2, On_paint 9 1]"
  using paint_postorder [OF demo_ui_tree, of 8] by (simp add: demo_kids_def demo_ui_def demo_widget_def new_widget_def)

theorem create_grafts_witness:
  "\<exists>s' w. ui_create_widget 4 \<lparr>rect_x = 1, rect_y = 2, rect_w = 3, rect_h = 4\<rparr> demo_ui = Inr (5, s') \<and>
    ui_tree (Widget 1 (Widget 3 (Widget 4 (Widget 5 No_widget No_widget) No_widget) (Widget 2 No_widget No_widget)) No_widget) s' \<and>
    ui_widgets s' 5 = Some w \<and> rect_x (w_absolute w) = 16"
proof -
  have c: "chain (ui_widgets demo_ui) 4 qs \<Longrightarrow> qs = [4, 3, 1]" for qs
    by (cases qs; cases "tl qs"; cases "tl (tl qs)"; cases "tl (tl (tl qs))") (auto simp: demo_ui_def demo_widget_def new_widget_def)
  have "4 \<in> set (forest_nodes (Widget 1 demo_kids No_widget))" "fst (kmalloc_outcome 104 (ui_allocs demo_ui))" "ui_fresh demo_ui = 5"
    by (simp_all add: demo_kids_def demo_ui_def)
  from create_grafts [OF demo_ui_tree this(1,2), of "\<lparr>rect_x = 1, rect_y = 2, rect_w = 3, rect_h = 4\<rparr>"] this(3)
  obtain s' w qs where r: "ui_create_widget 4 \<lparr>rect_x = 1, rect_y = 2, rect_w = 3, rect_h = 4\<rparr> demo_ui = Inr (5, s')"
    "ui_tree (graft 4 5 (Widget 1 demo_kids No_widget)) s'" "ui_widgets s' 5 = Some w" "chain (ui_widgets demo_ui) 4 qs"
    "rect_x (w_absolute w) = 1 + sum_list (map (\<lambda>q. rect_x (w_bounds (the (ui_widgets demo_ui q)))) qs)" by auto
  then have "rect_x (w_absolute w) = 16" using c [OF r(4)] by (simp add: demo_ui_def demo_widget_def new_widget_def)
  then show ?thesis using r(1-3) by (simp add: demo_kids_def)
qed

theorem destroy_frees_subtree_witness:
  "\<exists>s'. ui_destroy_widget 7 3 demo_ui = Inr s' \<and> ui_tree (Widget 1 (Widget 2 No_widget No_widget) No_widget) s' \<and>
    ui_widgets s' 4 = None \<and> ui_widgets s' 2 \<noteq> None"
proof -
  have "3 \<in> set (forest_nodes demo_kids)" "2 * length (forest_nodes demo_kids) < 7" by (simp_all add: demo_kids_def)
  from destroy_frees_subtree [OF demo_ui_tree this] obtain s' where s': "ui_destroy_widget 7 3 demo_ui = Inr s'"
    "ui_tree (prune 3 (Widget 1 demo_kids No_widget)) s'"
    "\<forall>a. ui_widgets s' a \<noteq> None \<longleftrightarrow> ui_widgets demo_ui a \<noteq> None \<and> a \<notin> set (3 # forest_nodes (below 3 demo_kids))" by blast
  have "ui_widgets s' 4 = None" "ui_widgets s' 2 \<noteq> None" using s'(3) [rule_format, of 4] s'(3) [rule_format, of 2]
    by (auto simp: demo_kids_def demo_ui_def)
  then show ?thesis using s'(1,2) by (simp add: demo_kids_def)
qed

theorem focus_dangles_witness:
  "\<exists>s'. ui_destroy_widget 7 3 demo_ui = Inr s' \<and> ui_set_focus 2 s' = Inl BadPointer"
proof -
  have "3 \<in> set (forest_nodes demo_kids)" "2 * length (forest_nodes demo_kids) < 7" "focused_widget demo_ui = 3" "(2::nat) \<noteq> 3"
    by (simp_all add: demo_kids_def demo_ui_def)
  from focus_dangles [OF demo_ui_tree this] show ?thesis by blast
qed

theorem event_delivery_ends_witness:
  "\<exists>b calls. ui_post_event (\<lambda>_ _ _. False) (Some demo_click) demo_ui = Inr (b, demo_ui\<lparr>ui_calls := calls\<rparr>)"
  using event_delivery_ends [OF demo_ui_tree, of "\<lambda>_ _ _. False" demo_click] by (auto simp: demo_ui_def)

theorem event_first_child_witness:
  "\<exists>s'. ui_post_event (\<lambda>_ _ _. True) (Some demo_click) demo_ui = Inr (True, s') \<and> ui_calls s' = [On_event 8 3 demo_click]"
proof -
  have "is_under (ui_widgets demo_ui) demo_click 1" "find (is_under (ui_widgets demo_ui) demo_click) (siblings demo_kids) = Some 3"
    "ui_widgets demo_ui 3 = Some (demo_widget 1 4 2 0 False)" "w_on_event (demo_widget 1 4 2 0 False) \<noteq> 0"
    by (simp_all add: is_under_def demo_ui_def demo_kids_def demo_widget_def new_widget_def ui_rect_contains_def demo_click_def)
  from event_first_child [OF demo_ui_tree this, of "\<lambda>_ _ _. True"] show ?thesis
    by (simp add: demo_ui_def demo_widget_def new_widget_def)
qed

end
