(* ===== verification/Mira_Shell_Lex.thy ===== *)
theory Mira_Shell_Lex
  imports Mira_Prelude
begin

text \<open>
  The lexical part of the shell, \<open>ui/shell.c\<close>: the number conversions and the tokenizer.
  A C string is the list of its characters before the terminator; characters are bytes. The
  tokens of a line are a list in place of the linked list, and a fixed buffer that the source
  overruns is a fault. Signed 32-bit arithmetic wraps.
\<close>

type_synonym i32 = "32 word"

section \<open>Numbers\<close>

definition in_range :: "char \<Rightarrow> char \<Rightarrow> char \<Rightarrow> bool" where
  "in_range lo hi c \<longleftrightarrow> of_char lo \<le> (of_char c :: nat) \<and> (of_char c :: nat) \<le> of_char hi"

definition is_digit :: "char \<Rightarrow> bool" where "is_digit c = in_range (CHR ''0'') (CHR ''9'') c"

definition is_blank :: "char \<Rightarrow> bool" where "is_blank c \<longleftrightarrow> c = CHR '' '' \<or> c = CHR 0x09"

fun atoi_digits :: "i32 \<Rightarrow> string \<Rightarrow> i32" where
  "atoi_digits result [] = result"
| "atoi_digits result (c # str) =
     (if is_digit c then atoi_digits (result * 10 + (word_of_nat (of_char c) - 48)) str else result)"

definition atoi_simple :: "string \<Rightarrow> i32" where
  "atoi_simple str =
     (case dropWhile is_blank str of
        [] \<Rightarrow> 0
      | c # r \<Rightarrow> if c = CHR ''-'' then atoi_digits 0 r * -1
                 else if c = CHR ''+'' then atoi_digits 0 r * 1
                 else atoi_digits 0 (c # r) * 1)"

text \<open>The digits of a positive number, the last one first, as they are stored in \<open>tmp\<close>.\<close>

fun tmp_digits :: "nat \<Rightarrow> string" where
  "tmp_digits n = (if n = 0 then [] else char_of (48 + n mod 10) # tmp_digits (n div 10))"

declare tmp_digits.simps [simp del]

definition int_to_str :: "i32 \<Rightarrow> string" where
  "int_to_str v =
     (if v = 0 then ''0''
      else let neg = sint v < 0; a = (if neg then - v else v);
               tmp = (if sint a > 0 then tmp_digits (unat a) else [])
           in rev (tmp @ (if neg then ''-'' else [])))"

definition uint64_to_str :: "u64 \<Rightarrow> string" where
  "uint64_to_str v = (if v = 0 then ''0'' else rev (tmp_digits (unat v)))"

section \<open>Tokens\<close>

datatype token_type =
  TOKEN_WORD | TOKEN_STRING | TOKEN_NUMBER | TOKEN_OPERATOR | TOKEN_PIPE | TOKEN_REDIRECT_IN | TOKEN_REDIRECT_OUT
| TOKEN_REDIRECT_APPEND | TOKEN_BACKGROUND | TOKEN_SEMICOLON | TOKEN_AND | TOKEN_OR | TOKEN_LPAREN | TOKEN_RPAREN
| TOKEN_EOF | TOKEN_ERROR

record token =
  tok_type :: token_type
  tok_value :: string
  tok_line :: u32
  tok_column :: u32

text \<open>\<open>sizeof(token_t)\<close>, and the size of the tokenizer's buffer.\<close>

definition TOKEN_SIZE :: u64 where "TOKEN_SIZE = 32"
definition LEX_BUF :: nat where "LEX_BUF = 1024"

definition tokenizer_create_token :: "token_type \<Rightarrow> string \<Rightarrow> u32 \<Rightarrow> u32 \<Rightarrow> bool list \<Rightarrow> token option \<times> bool list" where
  "tokenizer_create_token ty v line column km =
     (let (ok, km1) = kmalloc_outcome TOKEN_SIZE km
      in if \<not> ok then (None, km1)
         else let (ok2, km2) = kmalloc_outcome (word_of_nat (length v) + 1) km1
              in if \<not> ok2 then (None, km2)
                 else (Some \<lparr>tok_type = ty, tok_value = v, tok_line = line, tok_column = column\<rparr>, km2))"

definition is_name_char :: "char \<Rightarrow> bool" where
  "is_name_char c \<longleftrightarrow> in_range (CHR ''a'') (CHR ''z'') c \<or> in_range (CHR ''A'') (CHR ''Z'') c \<or> is_digit c \<or> c = CHR ''_''"

definition is_word_start :: "char \<Rightarrow> bool" where
  "is_word_start c \<longleftrightarrow> in_range (CHR ''a'') (CHR ''z'') c \<or> in_range (CHR ''A'') (CHR ''Z'') c \<or> c = CHR ''_'' \<or> c = CHR ''.''"

definition is_word_char :: "char \<Rightarrow> bool" where
  "is_word_char c \<longleftrightarrow> is_name_char c \<or> c = CHR ''.'' \<or> c = CHR ''-'' \<or> c = CHR ''/''"

definition unescape :: "char \<Rightarrow> char" where
  "unescape c = (if c = CHR ''n'' then CHR 0x0A else if c = CHR ''t'' then CHR 0x09
                 else if c = CHR 0x5C then CHR 0x5C else if c = CHR 0x22 then CHR 0x22
                 else if c = CHR 0x27 then CHR 0x27 else c)"

text \<open>
  The loop over the body of a quoted string with \<open>bi\<close> characters in the buffer: what it
  stores, one character and one column per round, and the input left.
\<close>

fun lex_quoted :: "char \<Rightarrow> nat \<Rightarrow> string \<Rightarrow> string \<times> string" where
  "lex_quoted quote bi [] = ([], [])"
| "lex_quoted quote bi (c # p) =
     (if c = quote \<or> \<not> bi < 1023 then ([], c # p)
      else if c = CHR 0x5C
           then (case p of
                   [] \<Rightarrow> let (b, r) = lex_quoted quote (bi + 1) p in (c # b, r)
                 | d # p' \<Rightarrow> let (b, r) = lex_quoted quote (bi + 1) p' in (unescape d # b, r))
           else let (b, r) = lex_quoted quote (bi + 1) p in (c # b, r))"

text \<open>The loop over the body of \<open>${...}\<close>.\<close>

fun lex_braced :: "nat \<Rightarrow> string \<Rightarrow> string \<times> string" where
  "lex_braced bi [] = ([], [])"
| "lex_braced bi (c # p) =
     (if c = CHR ''}'' \<or> \<not> bi < 1023 then ([], c # p)
      else let (b, r) = lex_braced (bi + 1) p in (c # b, r))"

text \<open>The loops without a bound on the buffer: writing the terminator too, they need one more byte.\<close>

definition lex_span :: "(char \<Rightarrow> bool) \<Rightarrow> string \<Rightarrow> (string \<times> string) res" where
  "lex_span P p = (let b = takeWhile P p in if length b < LEX_BUF then Inr (b, dropWhile P p) else Inl OutOfBounds)"

text \<open>A token of fixed text, of \<open>k\<close> characters.\<close>

definition lex_fixed :: "token_type \<Rightarrow> string \<Rightarrow> nat \<Rightarrow> string \<Rightarrow> u32 \<Rightarrow> u32 \<Rightarrow> bool list \<Rightarrow>
    (token option \<times> string \<times> u32 \<times> bool list) res" where
  "lex_fixed ty v k p line column km =
     (let (t, km1) = tokenizer_create_token ty v line column km in Inr (t, drop k p, column + word_of_nat k, km1))"

text \<open>A token whose text, the buffer \<open>b\<close>, ends at \<open>column\<close>.\<close>

definition lex_buffer :: "token_type \<Rightarrow> string \<Rightarrow> string \<Rightarrow> u32 \<Rightarrow> u32 \<Rightarrow> bool list \<Rightarrow>
    (token option \<times> string \<times> u32 \<times> bool list) res" where
  "lex_buffer ty b r line column km =
     (let (t, km1) = tokenizer_create_token ty b line (column - word_of_nat (length b)) km in Inr (t, r, column, km1))"

definition lex_string :: "char \<Rightarrow> string \<Rightarrow> u32 \<Rightarrow> u32 \<Rightarrow> bool list \<Rightarrow> (token option \<times> string \<times> u32 \<times> bool list) res" where
  "lex_string quote p line column km =
     (let (b, r) = lex_quoted quote 0 p; column1 = column + word_of_nat (length b)
      in if r \<noteq> [] \<and> hd r = quote then lex_buffer TOKEN_STRING b (tl r) line (column1 + 1) km
         else lex_buffer TOKEN_STRING b r line column1 km)"

definition lex_dollar :: "string \<Rightarrow> u32 \<Rightarrow> u32 \<Rightarrow> bool list \<Rightarrow> (token option \<times> string \<times> u32 \<times> bool list) res" where
  "lex_dollar p line column km =
     (if p \<noteq> [] \<and> hd p = CHR 0x7B
      then let (b, r) = lex_braced 0 (tl p); column1 = column + 1 + word_of_nat (length b)
           in if r \<noteq> [] \<and> hd r = CHR 0x7D then lex_buffer TOKEN_WORD b (tl r) line (column1 + 1) km
              else lex_buffer TOKEN_WORD b r line column1 km
      else bindR (lex_span is_name_char p) (\<lambda>(b, r).
             lex_buffer TOKEN_WORD b r line (column + word_of_nat (length b)) km))"

definition lex_run :: "token_type \<Rightarrow> (char \<Rightarrow> bool) \<Rightarrow> string \<Rightarrow> u32 \<Rightarrow> u32 \<Rightarrow> bool list \<Rightarrow>
    (token option \<times> string \<times> u32 \<times> bool list) res" where
  "lex_run ty P p line column km =
     bindR (lex_span P p) (\<lambda>(b, r). lex_buffer ty b r line (column + word_of_nat (length b)) km)"

text \<open>One token, from the character \<open>c\<close> followed by \<open>p\<close>; \<open>d\<close> is the character after it, or the terminator.\<close>

definition lex_one :: "char \<Rightarrow> string \<Rightarrow> u32 \<Rightarrow> u32 \<Rightarrow> bool list \<Rightarrow> (token option \<times> string \<times> u32 \<times> bool list) res" where
  "lex_one c p line column km =
     (let d = (case p of [] \<Rightarrow> CHR 0x00 | x # _ \<Rightarrow> x)
      in if c = CHR ''|'' \<and> d = CHR ''|'' then lex_fixed TOKEN_OR ''||'' 2 (c # p) line column km
         else if c = CHR ''&'' \<and> d = CHR ''&'' then lex_fixed TOKEN_AND ''&&'' 2 (c # p) line column km
         else if c = CHR ''>'' \<and> d = CHR ''>'' then lex_fixed TOKEN_REDIRECT_APPEND ''>>'' 2 (c # p) line column km
         else if c = CHR ''<'' \<and> d = CHR ''<'' then lex_fixed TOKEN_REDIRECT_IN ''<<'' 2 (c # p) line column km
         else if c = CHR ''|'' then lex_fixed TOKEN_PIPE ''|'' 1 (c # p) line column km
         else if c = CHR ''>'' then lex_fixed TOKEN_REDIRECT_OUT ''>'' 1 (c # p) line column km
         else if c = CHR ''<'' then lex_fixed TOKEN_REDIRECT_IN ''<'' 1 (c # p) line column km
         else if c = CHR ''&'' then lex_fixed TOKEN_BACKGROUND ''&'' 1 (c # p) line column km
         else if c = CHR '';'' then lex_fixed TOKEN_SEMICOLON '';'' 1 (c # p) line column km
         else if c = CHR ''('' then lex_fixed TOKEN_LPAREN ''('' 1 (c # p) line column km
         else if c = CHR '')'' then lex_fixed TOKEN_RPAREN '')'' 1 (c # p) line column km
         else if c = CHR 0x22 \<or> c = CHR 0x27 then lex_string c p line (column + 1) km
         else if c = CHR ''$'' then lex_dollar p line (column + 1) km
         else if is_word_start c then lex_run TOKEN_WORD is_word_char (c # p) line column km
         else if is_digit c then lex_run TOKEN_NUMBER is_digit (c # p) line column km
         else if c = CHR ''='' then lex_fixed TOKEN_OPERATOR ''='' 1 (c # p) line column km
         else if c = CHR ''+'' \<or> c = CHR ''-'' \<or> c = CHR ''*'' \<or> c = CHR ''/'' \<or> c = CHR ''%''
         then lex_fixed TOKEN_OPERATOR [c] 1 (c # p) line column km
         else if c = CHR ''!'' \<and> d = CHR ''='' then lex_fixed TOKEN_OPERATOR ''!='' 2 (c # p) line column km
         else lex_fixed TOKEN_ERROR (''Unexpected character: '' @ [c]) 1 (c # p) line column km)"

text \<open>Every token consumes input, so the loop ends.\<close>

lemma lex_quoted_length: "lex_quoted q bi p = (b, r) \<Longrightarrow> length r \<le> length p"
  by (induction q bi p arbitrary: b r rule: lex_quoted.induct) (fastforce split: if_splits prod.splits list.splits)+

lemma lex_braced_length: "lex_braced bi p = (b, r) \<Longrightarrow> length r \<le> length p"
  by (induction bi p arbitrary: b r rule: lex_braced.induct) (fastforce split: if_splits prod.splits)+

lemma lex_span_length: "lex_span P p = Inr (b, r) \<Longrightarrow> length r \<le> length p"
  by (auto simp: lex_span_def Let_def length_dropWhile_le split: if_splits)

lemma lex_fixed_rest: "lex_fixed ty v k p line column km = Inr (t, r, col, km') \<Longrightarrow> r = drop k p"
  by (auto simp: lex_fixed_def split: prod.splits)

lemma lex_buffer_rest: "lex_buffer ty b r' line column km = Inr (t, r, col, km') \<Longrightarrow> r = r'"
  by (auto simp: lex_buffer_def split: prod.splits)

lemma lex_string_length: "lex_string q p line column km = Inr (t, r, col, km') \<Longrightarrow> length r \<le> length p"
  by (auto simp: lex_string_def Let_def split: prod.splits if_splits dest!: lex_buffer_rest lex_quoted_length)

lemma lex_dollar_length: "lex_dollar p line column km = Inr (t, r, col, km') \<Longrightarrow> length r \<le> length p"
  by (cases p) (auto simp: lex_dollar_def Let_def split: prod.splits if_splits
      dest!: lex_buffer_rest lex_braced_length lex_span_length)

lemma lex_run_length:
  assumes "lex_run ty P (c # p) line column km = Inr (t, r, col, km')" "P c"
  shows "length r \<le> length p"
  using assms by (auto simp: lex_run_def lex_span_def Let_def length_dropWhile_le split: if_splits dest!: lex_buffer_rest)

lemma word_start_char: "is_word_start c \<Longrightarrow> is_word_char c"
  by (auto simp: is_word_start_def is_word_char_def is_name_char_def)

lemma if_caseE: "(if b then x else y) = z \<Longrightarrow> (b \<Longrightarrow> x = z \<Longrightarrow> P) \<Longrightarrow> (\<not> b \<Longrightarrow> y = z \<Longrightarrow> P) \<Longrightarrow> P"
  by (cases b) simp_all

lemma lex_fixed_length: "lex_fixed ty v k (c # p) line column km = Inr (t, r, col, km') \<Longrightarrow> 0 < k \<Longrightarrow> length r \<le> length p"
  by (cases k) (auto dest!: lex_fixed_rest)

lemma lex_one_length: "lex_one c p line column km = Inr (t, r, col, km') \<Longrightarrow> length r \<le> length p"
  unfolding lex_one_def Let_def
  by (elim if_caseE) (erule lex_fixed_length lex_string_length lex_dollar_length lex_run_length, simp add: word_start_char)+

function tokenize_from :: "string \<Rightarrow> u32 \<Rightarrow> u32 \<Rightarrow> bool list \<Rightarrow> (token list \<times> u32 \<times> u32 \<times> bool list) res" where
  "tokenize_from [] line column km = Inr ([], line, column, km)"
| "tokenize_from (c # p) line column km =
     (if c = CHR 0x0A then tokenize_from p (line + 1) 1 km
      else if is_blank c then tokenize_from p line (column + 1) km
      else bindR (lex_one c p line column km) (\<lambda>(t, r, column1, km1).
           bindR (tokenize_from r line column1 km1) (\<lambda>(ts, line2, column2, km2).
             Inr (case t of None \<Rightarrow> ts | Some x \<Rightarrow> x # ts, line2, column2, km2))))"
  by pat_completeness auto
termination
  by (relation "measure (\<lambda>(p, line, column, km). length p)") (auto dest: lex_one_length simp: le_imp_less_Suc)

definition tokenize :: "string \<Rightarrow> bool list \<Rightarrow> (token list \<times> bool list) res" where
  "tokenize input km =
     bindR (tokenize_from input 1 1 km) (\<lambda>(ts, line, column, km1).
       let (eof, km2) = tokenizer_create_token TOKEN_EOF [] line column km1
       in Inr (case eof of None \<Rightarrow> ts | Some e \<Rightarrow> ts @ [e], km2))"

section \<open>Properties of the number conversions\<close>

lemma tmp_digits_0 [simp]: "tmp_digits 0 = []"
  by (simp add: tmp_digits.simps)

lemma tmp_digits_pos: "0 < n \<Longrightarrow> tmp_digits n = char_of (48 + n mod 10) # tmp_digits (n div 10)"
  by (simp add: tmp_digits.simps)

lemma digit_code: "of_char (char_of (48 + n mod 10) :: char) = (48 + n mod 10 :: nat)"
  by (simp add: of_char_of)

lemma digit_is_digit [simp]: "is_digit (char_of (48 + n mod 10 :: nat))"
  by (simp add: is_digit_def in_range_def digit_code)

lemma tmp_digits_digits: "list_all is_digit (tmp_digits n)"
proof (induction n rule: less_induct)
  case (less n)
  then show ?case by (cases "n = 0") (simp_all add: tmp_digits_pos)
qed

lemma tmp_digits_nonempty: "0 < n \<Longrightarrow> tmp_digits n \<noteq> []"
  by (simp add: tmp_digits_pos)

lemma atoi_digits_append: "list_all is_digit xs \<Longrightarrow> atoi_digits r (xs @ ys) = atoi_digits (atoi_digits r xs) ys"
  by (induction xs arbitrary: r) auto

lemma atoi_digits_rev: "atoi_digits 0 (rev (tmp_digits n)) = word_of_nat n"
proof (induction n rule: less_induct)
  case (less n)
  show ?case
  proof (cases "n = 0")
    case False
    then have IH: "atoi_digits 0 (rev (tmp_digits (n div 10))) = word_of_nat (n div 10)" using less by simp
    have "(word_of_nat (n div 10) :: i32) * 10 + word_of_nat (n mod 10) = word_of_nat (n div 10 * 10 + n mod 10)"
      by (simp only: of_nat_add of_nat_mult of_nat_numeral)
    also have "\<dots> = word_of_nat n" by (simp only: div_mult_mod_eq)
    finally have "(word_of_nat (n div 10) :: i32) * 10 + word_of_nat (n mod 10) = word_of_nat n" .
    then show ?thesis
      using False IH tmp_digits_digits [of "n div 10"]
      by (simp add: tmp_digits_pos atoi_digits_append list_all_rev digit_code)
  qed simp
qed

lemma digit_not_special: "is_digit c \<Longrightarrow> \<not> is_blank c \<and> c \<noteq> CHR ''-'' \<and> c \<noteq> CHR ''+''"
  by (auto simp: is_digit_def in_range_def is_blank_def)

lemma atoi_of_digits:
  assumes "xs \<noteq> []" "list_all is_digit xs"
  shows "atoi_simple xs = atoi_digits 0 xs" "atoi_simple (CHR ''-'' # xs) = - atoi_digits 0 xs"
  using assms digit_not_special [of "hd xs"] by (cases xs; simp add: atoi_simple_def is_blank_def)+

lemma sint_pos_i32: "0 < sint (v :: i32) \<Longrightarrow> 0 < unat v"
  by (cases "v = 0") (auto simp: unat_gt_0)

lemma sint_i32: "sint (v :: i32) = (if uint v < 2 ^ 31 then uint v else uint v - 2 ^ 32)"
proof -
  have lt: "uint v < 2 ^ 32" using uint_lt2p [of v] by simp
  have eq: "sint v = (uint v + 2 ^ 31) mod 2 ^ 32 - 2 ^ 31"
    by (simp add: sint_uint signed_take_bit_eq_take_bit_shift take_bit_eq_mod)
  show ?thesis
  proof (cases "uint v < 2 ^ 31")
    case True
    then have "(uint v + 2 ^ 31) mod 2 ^ 32 = uint v + 2 ^ 31" by (intro mod_pos_pos_trivial) simp_all
    then show ?thesis using eq True by simp
  next
    case False
    have "(uint v + 2 ^ 31) mod 2 ^ 32 = (uint v - 2 ^ 31 + 2 ^ 32) mod 2 ^ 32" by (simp add: add.commute)
    also have "\<dots> = (uint v - 2 ^ 31) mod 2 ^ 32" by (rule mod_add_self2)
    also have "\<dots> = uint v - 2 ^ 31" using False lt by (intro mod_pos_pos_trivial) simp_all
    finally show ?thesis using eq False by simp
  qed
qed

lemma neg_sint_pos:
  assumes "sint (v :: i32) < 0" "v \<noteq> 0x80000000"
  shows "0 < sint (- v)"
proof -
  have lt: "uint v < 2 ^ 32" using uint_lt2p [of v] by simp
  have ge: "2 ^ 31 \<le> uint v" using assms(1) by (auto simp: sint_i32 split: if_splits)
  have ne: "uint v \<noteq> 2 ^ 31"
  proof
    assume "uint v = 2 ^ 31"
    then have "word_of_int (uint v) = (word_of_int (2 ^ 31) :: i32)" by (rule arg_cong)
    then show False using assms(2) by simp
  qed
  have "uint (- v) = (- uint v) mod 2 ^ 32" by (simp add: uint_word_ariths)
  also have "\<dots> = 2 ^ 32 - uint v" using lt ge by (simp add: zmod_zminus1_eq_if)
  finally show ?thesis using lt ge ne by (simp add: sint_i32)
qed

text \<open>
  \<open>atoi_simple\<close> reads back what \<open>int_to_str\<close> prints, for every 32-bit integer but the
  smallest, which is its own negation and is printed as a lone minus sign.
\<close>
theorem int_to_str_atoi:
  "(v \<noteq> 0x80000000 \<longrightarrow> atoi_simple (int_to_str v) = v) \<and> int_to_str 0x80000000 = ''-''"
proof (intro conjI impI)
  assume v: "v \<noteq> 0x80000000"
  consider "v = 0" | "0 < sint v" | "sint v < 0" by (metis linorder_neqE signed_0 signed_word_eqI)
  then show "atoi_simple (int_to_str v) = v"
  proof cases
    case 1
    then show ?thesis by (simp add: int_to_str_def atoi_simple_def is_blank_def is_digit_def in_range_def)
  next
    case 2
    then have "rev (tmp_digits (unat v)) \<noteq> []" "list_all is_digit (rev (tmp_digits (unat v)))"
      using tmp_digits_nonempty [OF sint_pos_i32 [OF 2]] tmp_digits_digits by (simp_all add: list_all_rev)
    moreover have "int_to_str v = rev (tmp_digits (unat v))" using 2 by (auto simp: int_to_str_def)
    ultimately show ?thesis by (simp add: atoi_of_digits atoi_digits_rev)
  next
    case 3
    note p = neg_sint_pos [OF 3 v]
    then have "rev (tmp_digits (unat (- v))) \<noteq> []" "list_all is_digit (rev (tmp_digits (unat (- v))))"
      using tmp_digits_nonempty [OF sint_pos_i32 [OF p]] tmp_digits_digits by (simp_all add: list_all_rev)
    moreover have "int_to_str v = CHR ''-'' # rev (tmp_digits (unat (- v)))" using 3 p by (auto simp: int_to_str_def)
    ultimately show ?thesis by (simp add: atoi_of_digits atoi_digits_rev)
  qed
qed (simp add: int_to_str_def)

theorem int_to_str_atoi_witness: "atoi_simple (int_to_str (- 42)) = - 42"
  using int_to_str_atoi [of "- 42"] by simp

section \<open>Properties of the tokenizer\<close>

definition lexed :: "(token option \<times> string \<times> u32 \<times> bool list) res \<Rightarrow> bool" where
  "lexed x \<longleftrightarrow> (\<exists>t r col km. x = Inr (t, r, col, km) \<and> (\<forall>u. t = Some u \<longrightarrow> tok_type u \<noteq> TOKEN_EOF))"

lemma lexed_if [intro]: "(b \<Longrightarrow> lexed x) \<Longrightarrow> (\<not> b \<Longrightarrow> lexed y) \<Longrightarrow> lexed (if b then x else y)"
  by simp

lemma create_token_type: "tokenizer_create_token ty v line column km = (Some t, km') \<Longrightarrow> tok_type t = ty"
  by (auto simp: tokenizer_create_token_def Let_def split: prod.splits if_splits)

lemma create_token_ok [simp]: "length v < 2 ^ 64 - 1 \<Longrightarrow> tokenizer_create_token ty v line column [] =
    (Some \<lparr>tok_type = ty, tok_value = v, tok_line = line, tok_column = column\<rparr>, [])"
proof -
  assume "length v < 2 ^ 64 - 1"
  then have "unat (word_of_nat (Suc (length v)) :: u64) = Suc (length v)" by (simp only: unat_of_nat) simp
  then have "(word_of_nat (Suc (length v)) :: u64) \<noteq> 0" by (metis nat.distinct(1) unat_0)
  then have "word_of_nat (length v) + 1 \<noteq> (0 :: u64)" by (simp add: add.commute)
  moreover have "TOKEN_SIZE \<noteq> 0" by (simp add: TOKEN_SIZE_def)
  ultimately show ?thesis by (simp add: tokenizer_create_token_def)
qed

lemma lexed_fixed: "ty \<noteq> TOKEN_EOF \<Longrightarrow> lexed (lex_fixed ty v k p line column km)"
  by (auto simp: lexed_def lex_fixed_def split: prod.splits dest: create_token_type)

lemma lexed_buffer: "ty \<noteq> TOKEN_EOF \<Longrightarrow> lexed (lex_buffer ty b r line column km)"
  by (auto simp: lexed_def lex_buffer_def split: prod.splits dest: create_token_type)

lemma lex_span_ok: "length p < LEX_BUF \<Longrightarrow> \<exists>b r. lex_span P p = Inr (b, r)"
  using length_takeWhile_le [of P p] by (simp add: lex_span_def Let_def)

lemma lexed_string: "lexed (lex_string q p line column km)"
  by (simp add: lex_string_def Let_def lexed_buffer split: prod.splits)

lemma lexed_dollar: "length p < LEX_BUF \<Longrightarrow> lexed (lex_dollar p line column km)"
  using lex_span_ok [of p is_name_char] by (auto simp: lex_dollar_def Let_def lexed_buffer split: prod.splits)

lemma lexed_run: "length p < LEX_BUF \<Longrightarrow> ty \<noteq> TOKEN_EOF \<Longrightarrow> lexed (lex_run ty P p line column km)"
  using lex_span_ok [of p P] by (auto simp: lex_run_def lexed_buffer)

lemma lexed_one: "length (c # p) < LEX_BUF \<Longrightarrow> lexed (lex_one c p line column km)"
  unfolding lex_one_def Let_def
  by (intro lexed_if lexed_fixed lexed_string lexed_dollar lexed_run) simp_all

lemma tokenize_from_ok:
  assumes "length p < LEX_BUF"
  shows "\<exists>ts l c km'. tokenize_from p line column km = Inr (ts, l, c, km') \<and> (\<forall>t \<in> set ts. tok_type t \<noteq> TOKEN_EOF)"
  using assms
proof (induction p line column km rule: tokenize_from.induct)
  case (2 c p line column km)
  consider "c = CHR 0x0A" | "c \<noteq> CHR 0x0A" "is_blank c" | "c \<noteq> CHR 0x0A" "\<not> is_blank c" by blast
  then show ?case
  proof cases
    case 3
    obtain t r col km' where lx: "lex_one c p line column km = Inr (t, r, col, km')" "\<And>u. t = Some u \<Longrightarrow> tok_type u \<noteq> TOKEN_EOF"
      using lexed_one [OF "2.prems", of line column km] by (auto simp: lexed_def)
    obtain ts l2 c2 km2 where "tokenize_from r line col km' = Inr (ts, l2, c2, km2)" "\<forall>t \<in> set ts. tok_type t \<noteq> TOKEN_EOF"
      using "2.IH"(3) [OF 3 lx(1) refl refl refl] lex_one_length [OF lx(1)] "2.prems" by auto
    then show ?thesis using 3 lx by (cases t) auto
  qed (use 2 in simp_all)
qed simp

text \<open>Without a failure recorded, none is left over.\<close>

lemma kmalloc_outcome_nil: "snd (kmalloc_outcome n []) = []"
  by simp

lemma create_token_km: "snd (tokenizer_create_token ty v line column []) = []"
  by (simp add: tokenizer_create_token_def Let_def split: prod.splits)

definition keeps_nil :: "(token option \<times> string \<times> u32 \<times> bool list) res \<Rightarrow> bool" where
  "keeps_nil x \<longleftrightarrow> (\<forall>t r col km. x = Inr (t, r, col, km) \<longrightarrow> km = [])"

lemma keeps_nil_if: "keeps_nil x \<Longrightarrow> keeps_nil y \<Longrightarrow> keeps_nil (if b then x else y)"
  by simp

lemma keeps_nil_fixed: "keeps_nil (lex_fixed ty v k p line column [])"
  using create_token_km [of ty v line column] by (auto simp: keeps_nil_def lex_fixed_def split: prod.splits)

lemma keeps_nil_buffer: "keeps_nil (lex_buffer ty b r line column [])"
  using create_token_km [of ty b line] by (auto simp: keeps_nil_def lex_buffer_def split: prod.splits) (metis snd_conv)

lemma keeps_nil_bind: "(\<And>b r. keeps_nil (f (b, r))) \<Longrightarrow> keeps_nil (bindR m f)"
  by (auto simp: keeps_nil_def)

lemma keeps_nil_one: "keeps_nil (lex_one c p line column [])"
  unfolding lex_one_def Let_def lex_string_def lex_dollar_def lex_run_def
  by (intro keeps_nil_if keeps_nil_fixed)
    (auto simp: keeps_nil_buffer split: prod.splits intro!: keeps_nil_bind)

lemma tokenize_from_km: "tokenize_from p line column [] = Inr (ts, l, c, km') \<Longrightarrow> km' = []"
proof (induction p line column "[] :: bool list" arbitrary: ts l c km' rule: tokenize_from.induct)
  case (2 x p line column)
  then show ?case using keeps_nil_one [of x p line column] by (fastforce simp: keeps_nil_def split: if_splits)
qed simp

text \<open>
  The tokenizer always comes back: a line of fewer than 1024 characters is turned into
  tokens whatever its characters and whichever allocations fail, and when none fails the
  last token is the end marker and no other one is.
\<close>
theorem tokenize_total:
  assumes "length p < LEX_BUF"
  shows "\<exists>ts km'. tokenize p km = Inr (ts, km') \<and>
    (km = [] \<longrightarrow> (\<exists>ts' e. ts = ts' @ [e] \<and> tok_type e = TOKEN_EOF \<and> (\<forall>t \<in> set ts'. tok_type t \<noteq> TOKEN_EOF)))"
proof -
  obtain ts l c km1 where ts: "tokenize_from p 1 1 km = Inr (ts, l, c, km1)" "\<forall>t \<in> set ts. tok_type t \<noteq> TOKEN_EOF"
    using tokenize_from_ok [OF assms, of 1 1 km] by blast
  obtain eof km2 where eof: "tokenizer_create_token TOKEN_EOF [] l c km1 = (eof, km2)" by fastforce
  have "km1 = []" if "km = []" using tokenize_from_km [of p 1 1] ts(1) that by auto
  then have "\<exists>e. eof = Some e \<and> tok_type e = TOKEN_EOF" if "km = []" using eof that by auto
  then show ?thesis using ts eof by (auto simp: tokenize_def)
qed

theorem tokenize_total_witness:
  "\<exists>ts km'. tokenize ''ls | cat; echo $'' [False] = Inr (ts, km')"
  using tokenize_total [of "''ls | cat; echo $''" "[False]"] by (auto simp: LEX_BUF_def)

definition plain_word :: "string \<Rightarrow> bool" where
  "plain_word w \<longleftrightarrow> w \<noteq> [] \<and> is_word_start (hd w) \<and> list_all is_word_char w \<and> length w < LEX_BUF"

fun unwords :: "string list \<Rightarrow> string" where
  "unwords [] = []"
| "unwords [w] = w"
| "unwords (w # ws) = w @ CHR '' '' # unwords ws"

lemma word_start_special:
  "is_word_start c \<Longrightarrow> c \<notin> {CHR ''|'', CHR ''&'', CHR ''>'', CHR ''<'', CHR '';'', CHR ''('', CHR '')'', CHR 0x22, CHR 0x27, CHR ''$'',
     CHR 0x0A, CHR '' '', CHR 0x09}"
  by (auto simp: is_word_start_def in_range_def)

lemma lex_one_word:
  assumes "plain_word (c # w)" "r = [] \<or> \<not> is_word_char (hd r)"
  shows "lex_one c (w @ r) line column [] =
    Inr (Some \<lparr>tok_type = TOKEN_WORD, tok_value = c # w, tok_line = line, tok_column = column\<rparr>,
         r, column + word_of_nat (length (c # w)), [])"
proof -
  have s: "is_word_start c" "list_all is_word_char (c # w)" "length (c # w) < LEX_BUF"
    using assms(1) by (simp_all add: plain_word_def)
  then have "takeWhile is_word_char (c # w @ r) = c # w" "dropWhile is_word_char (c # w @ r) = r"
    using assms(2) by (cases r; simp add: takeWhile_append2 dropWhile_append2 list_all_iff)+
  then have "lex_span is_word_char (c # w @ r) = Inr (c # w, r)" using s(3) by (simp add: lex_span_def)
  moreover have "length (c # w) < 2 ^ 64 - 1" using s(3) by (simp add: LEX_BUF_def)
  ultimately show ?thesis
    using s(1) word_start_special [OF s(1)] unfolding lex_one_def Let_def
    by (simp add: lex_run_def lex_buffer_def)
qed

lemma tokenize_from_word:
  assumes "plain_word w" "r = [] \<or> \<not> is_word_char (hd r)"
    "tokenize_from r line (column + word_of_nat (length w)) [] = Inr (ts, l2, c2, km)"
  shows "tokenize_from (w @ r) line column [] =
    Inr (\<lparr>tok_type = TOKEN_WORD, tok_value = w, tok_line = line, tok_column = column\<rparr> # ts, l2, c2, km)"
proof -
  obtain c v where w: "w = c # v" using assms(1) by (cases w) (auto simp: plain_word_def)
  have "c \<noteq> CHR 0x0A" "\<not> is_blank c"
    using word_start_special [of c] assms(1) w by (auto simp: plain_word_def is_blank_def)
  then show ?thesis using lex_one_word [of c v r line column] assms w by simp
qed

lemma tokenize_from_words:
  assumes "list_all plain_word ws"
  shows "\<exists>ts c. tokenize_from (unwords ws) line column [] = Inr (ts, line, c, []) \<and> map tok_value ts = ws \<and>
    (\<forall>t \<in> set ts. tok_type t = TOKEN_WORD)"
  using assms
proof (induction ws arbitrary: column rule: unwords.induct)
  case (2 w)
  then show ?case using tokenize_from_word [of w "[]" line column "[]"] by simp
next
  case (3 w v ws)
  let ?r = "CHR '' '' # unwords (v # ws)"
  have "plain_word w" "list_all plain_word (v # ws)" using "3.prems" by simp_all
  then obtain ts c where ts: "tokenize_from ?r line (column + word_of_nat (length w)) [] = Inr (ts, line, c, [])"
      "map tok_value ts = v # ws" "\<forall>t \<in> set ts. tok_type t = TOKEN_WORD"
    using "3.IH" [of "column + word_of_nat (length w) + 1"] by (auto simp: is_blank_def)
  have "\<not> is_word_char (hd ?r)" by (simp add: is_word_char_def is_name_char_def is_digit_def in_range_def)
  then have "tokenize_from (w @ ?r) line column [] =
      Inr (\<lparr>tok_type = TOKEN_WORD, tok_value = w, tok_line = line, tok_column = column\<rparr> # ts, line, c, [])"
    using tokenize_from_word [OF \<open>plain_word w\<close> _ ts(1)] by simp
  then show ?case using ts by simp
qed simp

text \<open>
  C36. Printing words with a blank between them and tokenizing the line gives the words back,
  each as one word token in order, followed by the end marker.
\<close>
theorem tokenize_unwords:
  assumes "list_all plain_word ws"
  shows "\<exists>ts e. tokenize (unwords ws) [] = Inr (ts @ [e], []) \<and> map tok_value ts = ws \<and>
    (\<forall>t \<in> set ts. tok_type t = TOKEN_WORD) \<and> tok_type e = TOKEN_EOF"
proof -
  obtain ts c where ts: "tokenize_from (unwords ws) 1 1 [] = Inr (ts, 1, c, [])" "map tok_value ts = ws"
    "\<forall>t \<in> set ts. tok_type t = TOKEN_WORD" using tokenize_from_words [OF assms] by blast
  then have "tokenize (unwords ws) [] = Inr (ts @ [\<lparr>tok_type = TOKEN_EOF, tok_value = [], tok_line = 1, tok_column = c\<rparr>], [])"
    by (simp add: tokenize_def)
  then show ?thesis using ts(2,3) by fastforce
qed

theorem tokenize_unwords_witness:
  "\<exists>ts e. tokenize ''cat notes.txt a-b'' [] = Inr (ts @ [e], []) \<and> map tok_value ts = [''cat'', ''notes.txt'', ''a-b'']"
  using tokenize_unwords [of "[''cat'', ''notes.txt'', ''a-b'']"]
  by (auto simp: plain_word_def LEX_BUF_def is_word_start_def is_word_char_def is_name_char_def is_digit_def in_range_def)

text \<open>
  A word has no length limit in the tokenizer's 1024-byte buffer: a line that starts with
  1024 or more word characters overruns it.
\<close>
theorem tokenize_overruns_buffer:
  assumes "is_word_start c" "list_all is_word_char w" "LEX_BUF \<le> length (c # w)"
  shows "tokenize (c # w @ r) km = Inl OutOfBounds"
proof -
  have "list_all is_word_char (c # w)" using assms(1,2) word_start_char by simp
  then have "length (c # w) \<le> length (takeWhile is_word_char (c # w @ r))"
    by (simp add: takeWhile_append list_all_iff)
  then have "lex_span is_word_char (c # w @ r) = Inl OutOfBounds" using assms(3) by (simp add: lex_span_def Let_def)
  then have "lex_one c (w @ r) 1 1 km = Inl OutOfBounds"
    using assms(1) word_start_special [OF assms(1)] unfolding lex_one_def Let_def by (simp add: lex_run_def)
  moreover have "c \<noteq> CHR 0x0A" "\<not> is_blank c"
    using word_start_special [OF assms(1)] by (auto simp: is_blank_def)
  ultimately show ?thesis by (simp add: tokenize_def)
qed

theorem tokenize_overruns_buffer_witness: "tokenize (CHR ''x'' # replicate 1023 (CHR ''x'') @ ''; ls'') [] = Inl OutOfBounds"
proof (rule tokenize_overruns_buffer)
  show "is_word_start (CHR ''x'')" by (simp add: is_word_start_def in_range_def)
  show "list_all is_word_char (replicate 1023 (CHR ''x''))"
    by (simp only: list_all_iff set_replicate_conv_if) (simp add: is_word_char_def is_name_char_def in_range_def)
  show "LEX_BUF \<le> length (CHR ''x'' # replicate 1023 (CHR ''x''))" by (simp add: LEX_BUF_def)
qed

end
