(* ===== verification/Mira_Shell_Parse.thy ===== *)
theory Mira_Shell_Parse
  imports Mira_Shell_Lex
begin

text \<open>
  The parser of the shell, \<open>ui/shell.c\<close>: tokens to syntax tree. A tree node is a value of a
  datatype with the fields of \<open>ast_node_t\<close>; a null node pointer is \<open>None\<close>. The token cursor
  \<open>*tokens\<close> is the list of tokens left. Allocation outcomes are threaded through; releasing
  memory has no effect on values.
\<close>

section \<open>Syntax trees\<close>

datatype ast_node_type =
  NODE_COMMAND | NODE_PIPELINE | NODE_REDIRECT | NODE_BACKGROUND | NODE_SEQUENCE | NODE_AND | NODE_OR | NODE_SUBSHELL
| NODE_FOR | NODE_WHILE | NODE_IF | NODE_FUNCTION | NODE_VAR_ASSIGN | NODE_EXPORT | NODE_ALIAS

datatype var_type = VAR_TYPE_STRING | VAR_TYPE_NUMBER | VAR_TYPE_ARRAY | VAR_TYPE_ASSOC

text \<open>The member \<open>cmd\<close> of the union, the only one the shell uses.\<close>

record cmd_data =
  cmd_args :: "string list"
  input_redirect :: "string option"
  output_redirect :: "string option"
  error_redirect :: "string option"
  append_output :: bool
  append_error :: bool
  cmd_background :: bool

definition zero_cmd :: cmd_data where
  "zero_cmd = \<lparr>cmd_args = [], input_redirect = None, output_redirect = None, error_redirect = None,
     append_output = False, append_error = False, cmd_background = False\<rparr>"

datatype ast_node =
  AstNode (node_type: ast_node_type) (children: "ast_node list") (node_value: "string option") (node_var_type: var_type)
    (node_cmd: cmd_data)

fun set_children :: "ast_node list \<Rightarrow> ast_node \<Rightarrow> ast_node" where
  "set_children cs (AstNode ty _ v vt d) = AstNode ty cs v vt d"

fun set_cmd :: "cmd_data \<Rightarrow> ast_node \<Rightarrow> ast_node" where
  "set_cmd d (AstNode ty cs v vt _) = AstNode ty cs v vt d"

text \<open>\<open>sizeof(ast_node_t)\<close> on x86-64.\<close>

definition AST_NODE_SIZE :: u64 where "AST_NODE_SIZE = 88"

definition ast_create_node :: "ast_node_type \<Rightarrow> bool list \<Rightarrow> ast_node option \<times> bool list" where
  "ast_create_node ty km =
     (let (ok, km1) = kmalloc_outcome AST_NODE_SIZE km
      in if \<not> ok then (None, km1) else (Some (AstNode ty [] None VAR_TYPE_STRING zero_cmd), km1))"

text \<open>The parent after the call, unchanged when the new array cannot be allocated.\<close>

definition ast_add_child :: "ast_node option \<Rightarrow> ast_node option \<Rightarrow> bool list \<Rightarrow> ast_node option \<times> bool list" where
  "ast_add_child parent c km =
     (case (parent, c) of
        (Some p, Some n) \<Rightarrow>
          let (ok, km1) = kmalloc_outcome (word_of_nat (length (children p) + 1) * 8) km
          in if \<not> ok then (parent, km1) else (Some (set_children (children p @ [n]) p), km1)
      | _ \<Rightarrow> (parent, km))"

section \<open>Commands\<close>

definition stop_tokens :: "token_type set" where
  "stop_tokens = {TOKEN_EOF, TOKEN_PIPE, TOKEN_REDIRECT_IN, TOKEN_REDIRECT_OUT, TOKEN_REDIRECT_APPEND, TOKEN_SEMICOLON,
     TOKEN_AND, TOKEN_OR, TOKEN_BACKGROUND}"

text \<open>
  The argument loop, with the capacity of the argument array and the command data. The
  branches for redirections are those of the source; the loop condition excludes them.
\<close>

fun parse_args :: "nat \<Rightarrow> string list \<Rightarrow> cmd_data \<Rightarrow> token list \<Rightarrow> bool list \<Rightarrow>
    string list \<times> cmd_data \<times> token list \<times> bool list" where
  "parse_args cap args d [] km = (args, d, [], km)"
| "parse_args cap args d (t # ts) km =
     (if tok_type t \<in> stop_tokens then (args, d, t # ts, km)
      else if tok_type t \<in> {TOKEN_WORD, TOKEN_STRING, TOKEN_NUMBER}
      then if length args \<ge> cap
           then let (ok, km1) = kmalloc_outcome (word_of_nat (cap * 2) * 8) km
                in if \<not> ok then (args, d, t # ts, km1)
                   else parse_args (cap * 2) (args @ [tok_value t]) d ts km1
           else parse_args cap (args @ [tok_value t]) d ts km
      else if tok_type t = TOKEN_REDIRECT_IN
      then (case ts of
              u # us \<Rightarrow> if tok_type u = TOKEN_WORD
                        then parse_args cap args (d\<lparr>input_redirect := Some (tok_value u)\<rparr>) us km
                        else parse_args cap args d ts km
            | [] \<Rightarrow> parse_args cap args d ts km)
      else if tok_type t = TOKEN_REDIRECT_OUT
      then (case ts of
              u # us \<Rightarrow> if tok_type u = TOKEN_WORD
                        then parse_args cap args (d\<lparr>output_redirect := Some (tok_value u), append_output := False\<rparr>) us km
                        else parse_args cap args d ts km
            | [] \<Rightarrow> parse_args cap args d ts km)
      else if tok_type t = TOKEN_REDIRECT_APPEND
      then (case ts of
              u # us \<Rightarrow> if tok_type u = TOKEN_WORD
                        then parse_args cap args (d\<lparr>output_redirect := Some (tok_value u), append_output := True\<rparr>) us km
                        else parse_args cap args d ts km
            | [] \<Rightarrow> parse_args cap args d ts km)
      else (args, d, t # ts, km))"

definition parse_command :: "token list \<Rightarrow> bool list \<Rightarrow> ast_node option \<times> token list \<times> bool list" where
  "parse_command ts km =
     (case ts of
        [] \<Rightarrow> (None, ts, km)
      | t # _ \<Rightarrow>
          if tok_type t = TOKEN_EOF then (None, ts, km)
          else let (cmd, km1) = ast_create_node NODE_COMMAND km
               in case cmd of
                    None \<Rightarrow> (None, ts, km1)
                  | Some c \<Rightarrow>
                      let (ok, km2) = kmalloc_outcome (8 * 8) km1
                      in if \<not> ok then (None, ts, km2)
                         else let (args, d, ts', km3) = parse_args 8 [] (node_cmd c) ts km2
                              in (Some (set_cmd (d\<lparr>cmd_args := args\<rparr>) c), ts', km3))"

text \<open>The redirection branches are dead: the loop stops at those tokens.\<close>

lemma parse_args_step:
  "parse_args cap args d (t # ts) km =
     (if tok_type t \<in> {TOKEN_WORD, TOKEN_STRING, TOKEN_NUMBER}
      then if length args \<ge> cap
           then if fst (kmalloc_outcome (word_of_nat (cap * 2) * 8) km)
                then parse_args (cap * 2) (args @ [tok_value t]) d ts (snd (kmalloc_outcome (word_of_nat (cap * 2) * 8) km))
                else (args, d, t # ts, snd (kmalloc_outcome (word_of_nat (cap * 2) * 8) km))
           else parse_args cap (args @ [tok_value t]) d ts km
      else (args, d, t # ts, km))"
  by (cases "tok_type t") (simp_all add: stop_tokens_def split: prod.splits)

declare parse_args.simps(2) [simp del]

text \<open>The cursor only moves forward, and the redirections are left alone.\<close>

lemma parse_args_length:
  "parse_args cap args d ts km = (a, d', ts', km') \<Longrightarrow> length ts' \<le> length ts \<and> d' = d"
proof (induction ts arbitrary: cap args km)
  case (Cons t ts)
  show ?case
  proof (cases "tok_type t \<in> {TOKEN_WORD, TOKEN_STRING, TOKEN_NUMBER}")
    case True
    then show ?thesis
      using Cons.prems Cons.IH [of "cap * 2" "args @ [tok_value t]"] Cons.IH [of cap "args @ [tok_value t]" km]
      by (fastforce simp: parse_args_step split: if_splits)
  next
    case False
    then show ?thesis using Cons.prems by (auto simp: parse_args_step)
  qed
qed simp

lemma parse_command_length: "parse_command ts km = (c, ts', km') \<Longrightarrow> length ts' \<le> length ts"
  by (cases ts) (auto simp: parse_command_def Let_def split: if_splits prod.splits option.splits dest: parse_args_length)

section \<open>Pipelines, expressions and sequences\<close>

function pipe_loop :: "ast_node option \<Rightarrow> token list \<Rightarrow> bool list \<Rightarrow> ast_node option \<times> token list \<times> bool list" where
  "pipe_loop pl [] km = (pl, [], km)"
| "pipe_loop pl (t # ts) km =
     (if tok_type t = TOKEN_PIPE
      then let (cmd, ts1, km1) = parse_command ts km
           in case cmd of
                None \<Rightarrow> (pl, ts1, km1)
              | Some c \<Rightarrow> let (pl1, km2) = ast_add_child pl cmd km1 in pipe_loop pl1 ts1 km2
      else (pl, t # ts, km))"
  by pat_completeness auto
termination
  by (relation "measure (\<lambda>(pl, ts, km). length ts)") (auto dest!: parse_command_length [OF sym])

definition parse_pipeline :: "token list \<Rightarrow> bool list \<Rightarrow> ast_node option \<times> token list \<times> bool list" where
  "parse_pipeline ts km =
     (let (pl, km1) = ast_create_node NODE_PIPELINE km
      in if pl = None then (None, ts, km1)
         else let (cmd, ts1, km2) = parse_command ts km1
              in if cmd = None then (None, ts1, km2)
                 else let (pl1, km3) = ast_add_child pl cmd km2 in pipe_loop pl1 ts1 km3)"

fun parse_expression :: "token list \<Rightarrow> bool list \<Rightarrow> ast_node option \<times> token list \<times> bool list" where
  "parse_expression [] km = (None, [], km)"
| "parse_expression (t # ts) km =
     (if tok_type t = TOKEN_LPAREN
      then let (subshell, km1) = ast_create_node NODE_SUBSHELL km;
               (inner, ts1, km2) = parse_expression ts km1;
               (subshell1, km3) = (if inner \<noteq> None then ast_add_child subshell inner km2 else (subshell, km2));
               ts2 = (case ts1 of u # us \<Rightarrow> if tok_type u = TOKEN_RPAREN then us else ts1 | [] \<Rightarrow> ts1)
           in (subshell1, ts2, km3)
      else parse_pipeline (t # ts) km)"

lemma pipe_loop_length: "pipe_loop pl ts km = (n, ts', km') \<Longrightarrow> length ts' \<le> length ts"
proof (induction pl ts km arbitrary: n ts' km' rule: pipe_loop.induct)
  case (2 pl t ts km)
  then show ?case
    by (fastforce simp: Let_def split: if_splits prod.splits option.splits dest: parse_command_length)
qed simp

lemma parse_pipeline_length: "parse_pipeline ts km = (n, ts', km') \<Longrightarrow> length ts' \<le> length ts"
  by (auto simp: parse_pipeline_def Let_def split: if_splits prod.splits dest!: parse_command_length pipe_loop_length)

lemma parse_expression_length: "parse_expression ts km = (n, ts', km') \<Longrightarrow> length ts' \<le> length ts"
proof (induction ts km arbitrary: n ts' km' rule: parse_expression.induct)
  case (2 t ts km)
  obtain sub km1 where s: "ast_create_node NODE_SUBSHELL km = (sub, km1)" by fastforce
  obtain inner ts1 km2 where i: "parse_expression ts km1 = (inner, ts1, km2)" by (metis surj_pair)
  show ?case
  proof (cases "tok_type t = TOKEN_LPAREN")
    case True
    then have "length ts1 \<le> length ts" using "2.IH" [OF True s [symmetric] refl, of inner ts1 km2] i by simp
    then show ?thesis using "2.prems" True s i by (auto simp: Let_def split: prod.splits list.splits if_splits)
  next
    case False
    then show ?thesis using "2.prems" parse_pipeline_length [of "t # ts" km n ts' km'] by simp
  qed
qed simp

function sequence_loop :: "ast_node option \<Rightarrow> token list \<Rightarrow> bool list \<Rightarrow> ast_node option \<times> token list \<times> bool list" where
  "sequence_loop seq [] km = (seq, [], km)"
| "sequence_loop seq (t # ts) km =
     (if tok_type t \<in> {TOKEN_SEMICOLON, TOKEN_AND, TOKEN_OR}
      then let (next_expr, ts1, km1) = parse_expression ts km
           in if next_expr = None then (seq, ts1, km1)
              else if tok_type t = TOKEN_AND
              then let (n, km2) = ast_create_node NODE_AND km1;
                       (n1, km3) = ast_add_child n seq km2;
                       (n2, km4) = ast_add_child n1 next_expr km3
                   in sequence_loop n2 ts1 km4
              else if tok_type t = TOKEN_OR
              then let (n, km2) = ast_create_node NODE_OR km1;
                       (n1, km3) = ast_add_child n seq km2;
                       (n2, km4) = ast_add_child n1 next_expr km3
                   in sequence_loop n2 ts1 km4
              else let (seq1, km2) = ast_add_child seq next_expr km1
                   in sequence_loop seq1 ts1 km2
      else (seq, t # ts, km))"
  by pat_completeness auto
termination
  by (relation "measure (\<lambda>(seq, ts, km). length ts)") (auto dest!: parse_expression_length [OF sym])

definition parse_sequence :: "token list \<Rightarrow> bool list \<Rightarrow> (ast_node option \<times> token list \<times> bool list) res" where
  "parse_sequence ts km =
     (let (seq, km1) = ast_create_node NODE_SEQUENCE km
      in if seq = None then Inr (None, ts, km1)
         else let (expr, ts1, km2) = parse_expression ts km1
              in if expr = None then Inr (None, ts1, km2)
                 else let (seq1, km3) = ast_add_child seq expr km2;
                          (seq2, ts2, km4) = sequence_loop seq1 ts1 km3
                      in case ts2 of
                           t # ts3 \<Rightarrow>
                             if tok_type t = TOKEN_BACKGROUND
                             then case seq2 of
                                    None \<Rightarrow> Inl NullDeref
                                  | Some n \<Rightarrow> Inr (Some (set_cmd ((node_cmd n)\<lparr>cmd_background := True\<rparr>) n), ts3, km4)
                             else Inr (seq2, ts2, km4)
                         | [] \<Rightarrow> Inr (seq2, ts2, km4))"

definition parse_tokens :: "token list \<Rightarrow> bool list \<Rightarrow> (ast_node option \<times> bool list) res" where
  "parse_tokens ts km = bindR (parse_sequence ts km) (\<lambda>(n, ts', km'). Inr (n, km'))"

section \<open>Parsing without allocation failures\<close>

text \<open>Sizes of arrays of fewer than \<open>2\<^sup>3\<^sup>2\<close> pointers do not wrap to zero.\<close>

lemma array_size_nonzero: "0 < k \<Longrightarrow> k \<le> 2 ^ 34 \<Longrightarrow> (word_of_nat k :: u64) * 8 \<noteq> 0"
proof -
  assume k: "0 < k" "k \<le> 2 ^ 34"
  have "unat ((word_of_nat k :: u64) * 8) = k * 8 mod 2 ^ 64" using k by (simp add: unat_word_ariths unat_of_nat)
  also have "\<dots> = k * 8" using k by simp
  finally show ?thesis using k by auto
qed

lemma create_node_ok [simp]: "ast_create_node ty [] = (Some (AstNode ty [] None VAR_TYPE_STRING zero_cmd), [])"
proof -
  have "AST_NODE_SIZE \<noteq> 0" by (simp add: AST_NODE_SIZE_def)
  then show ?thesis by (simp add: ast_create_node_def)
qed

lemma add_child_ok [simp]:
  assumes "length cs < 2 ^ 33"
  shows "ast_add_child (Some (AstNode ty cs v vt d)) (Some n) [] = (Some (AstNode ty (cs @ [n]) v vt d), [])"
proof -
  have "(word_of_nat (length cs + 1) :: u64) * 8 \<noteq> 0" using assms by (intro array_size_nonzero) auto
  then show ?thesis by (simp add: ast_add_child_def)
qed

definition arg_types :: "token_type set" where "arg_types = {TOKEN_WORD, TOKEN_STRING, TOKEN_NUMBER}"

text \<open>The argument loop takes the longest run of words, strings and numbers.\<close>

lemma parse_args_ok:
  assumes "0 < cap" "length args + length ts < 2 ^ 32"
  shows "parse_args cap args d ts [] =
    (args @ map tok_value (takeWhile (\<lambda>t. tok_type t \<in> arg_types) ts), d, dropWhile (\<lambda>t. tok_type t \<in> arg_types) ts, [])"
  using assms
proof (induction ts arbitrary: cap args)
  case (Cons t ts)
  show ?case
  proof (cases "tok_type t \<in> arg_types")
    case True
    have "(word_of_nat (cap * 2) :: u64) * 8 \<noteq> 0" if "cap \<le> length args"
      using Cons.prems that by (intro array_size_nonzero) auto
    then show ?thesis
      using True Cons.prems Cons.IH [of "cap * 2" "args @ [tok_value t]"] Cons.IH [of cap "args @ [tok_value t]"]
      by (auto simp: parse_args_step arg_types_def)
  next
    case False
    then show ?thesis by (simp add: parse_args_step arg_types_def)
  qed
qed simp

definition command_node :: "string list \<Rightarrow> ast_node" where
  "command_node ws = AstNode NODE_COMMAND [] None VAR_TYPE_STRING (zero_cmd\<lparr>cmd_args := ws\<rparr>)"

lemma parse_command_ok:
  assumes "length ts < 2 ^ 32"
  shows "parse_command ts [] =
    (if ts = [] \<or> tok_type (hd ts) = TOKEN_EOF then (None, ts, [])
     else (Some (command_node (map tok_value (takeWhile (\<lambda>t. tok_type t \<in> arg_types) ts))),
           dropWhile (\<lambda>t. tok_type t \<in> arg_types) ts, []))"
  using assms by (cases ts) (simp_all add: parse_command_def parse_args_ok command_node_def Let_def)

section \<open>Well-formed trees\<close>

text \<open>
  The shapes the parser builds: commands are leaves, pipelines consist of commands, subshells
  hold at most one expression, and conjunctions and disjunctions have a left operand, a right
  operand and perhaps further expressions.
\<close>

fun ast_ok :: "ast_node \<Rightarrow> bool" where
  "ast_ok (AstNode ty cs v vt d) \<longleftrightarrow>
     (case ty of
        NODE_COMMAND \<Rightarrow> cs = []
      | NODE_PIPELINE \<Rightarrow> cs \<noteq> [] \<and> (\<forall>c \<in> set cs. node_type c = NODE_COMMAND \<and> ast_ok c)
      | NODE_SUBSHELL \<Rightarrow> length cs \<le> 1 \<and> (\<forall>c \<in> set cs. node_type c \<in> {NODE_PIPELINE, NODE_SUBSHELL} \<and> ast_ok c)
      | NODE_SEQUENCE \<Rightarrow> cs \<noteq> [] \<and> (\<forall>c \<in> set cs. node_type c \<in> {NODE_PIPELINE, NODE_SUBSHELL} \<and> ast_ok c)
      | NODE_AND \<Rightarrow> 2 \<le> length cs \<and> node_type (hd cs) \<in> {NODE_SEQUENCE, NODE_AND, NODE_OR} \<and>
          (\<forall>c \<in> set (tl cs). node_type c \<in> {NODE_PIPELINE, NODE_SUBSHELL}) \<and> (\<forall>c \<in> set cs. ast_ok c)
      | NODE_OR \<Rightarrow> 2 \<le> length cs \<and> node_type (hd cs) \<in> {NODE_SEQUENCE, NODE_AND, NODE_OR} \<and>
          (\<forall>c \<in> set (tl cs). node_type c \<in> {NODE_PIPELINE, NODE_SUBSHELL}) \<and> (\<forall>c \<in> set cs. ast_ok c)
      | _ \<Rightarrow> False)"

definition expr_ok :: "ast_node \<Rightarrow> bool" where
  "expr_ok n \<longleftrightarrow> node_type n \<in> {NODE_PIPELINE, NODE_SUBSHELL} \<and> ast_ok n"

definition seq_ok :: "ast_node \<Rightarrow> bool" where
  "seq_ok n \<longleftrightarrow> node_type n \<in> {NODE_SEQUENCE, NODE_AND, NODE_OR} \<and> ast_ok n"

lemma command_node_ok: "ast_ok (command_node ws)" "node_type (command_node ws) = NODE_COMMAND"
  by (simp_all add: command_node_def)

lemma pipe_loop_ok:
  assumes "ast_ok (AstNode NODE_PIPELINE cs v vt d)" "length cs + length ts \<le> 2 ^ 32"
  shows "\<exists>n ts'. pipe_loop (Some (AstNode NODE_PIPELINE cs v vt d)) ts [] = (Some n, ts', []) \<and> expr_ok n"
  using assms
proof (induction "length ts" arbitrary: cs ts rule: less_induct)
  case less
  show ?case
  proof (cases ts)
    case Nil
    then show ?thesis using less.prems by (simp add: expr_ok_def)
  next
    case (Cons t us)
    show ?thesis
    proof (cases "tok_type t = TOKEN_PIPE")
      case True
      have lt: "length us < 2 ^ 32" using less.prems(2) Cons by simp
      let ?r = "dropWhile (\<lambda>t. tok_type t \<in> arg_types) us"
      have l: "length ?r \<le> length us" by (rule length_dropWhile_le)
      show ?thesis
      proof (cases "us = [] \<or> tok_type (hd us) = TOKEN_EOF")
        case True
        then show ?thesis using less.prems Cons \<open>tok_type t = TOKEN_PIPE\<close> lt by (simp add: parse_command_ok expr_ok_def)
      next
        case False
        let ?c = "command_node (map tok_value (takeWhile (\<lambda>t. tok_type t \<in> arg_types) us))"
        have "\<exists>n ts'. pipe_loop (Some (AstNode NODE_PIPELINE (cs @ [?c]) v vt d)) ?r [] = (Some n, ts', []) \<and> expr_ok n"
          by (rule less.hyps) (use l Cons less.prems command_node_ok in \<open>auto simp: le_imp_less_Suc\<close>)
        then show ?thesis using less.prems(2) Cons \<open>tok_type t = TOKEN_PIPE\<close> lt False by (simp add: parse_command_ok)
      qed
    qed (use less.prems Cons in \<open>simp add: expr_ok_def\<close>)
  qed
qed

lemma parse_pipeline_ok:
  assumes "length ts < 2 ^ 32"
  shows "\<exists>r ts'. parse_pipeline ts [] = (r, ts', []) \<and> (\<forall>n. r = Some n \<longrightarrow> expr_ok n)"
proof (cases "ts = [] \<or> tok_type (hd ts) = TOKEN_EOF")
  case True
  then show ?thesis using assms by (auto simp: parse_pipeline_def parse_command_ok)
next
  case False
  let ?c = "command_node (map tok_value (takeWhile (\<lambda>t. tok_type t \<in> arg_types) ts))"
    and ?r = "dropWhile (\<lambda>t. tok_type t \<in> arg_types) ts"
  have "length ?r \<le> length ts" by (rule length_dropWhile_le)
  then have "\<exists>n ts'. pipe_loop (Some (AstNode NODE_PIPELINE [?c] None VAR_TYPE_STRING zero_cmd)) ?r [] = (Some n, ts', []) \<and> expr_ok n"
    using assms by (intro pipe_loop_ok) (simp_all add: command_node_ok)
  then show ?thesis using assms False by (fastforce simp: parse_pipeline_def parse_command_ok)
qed

lemma parse_expression_ok:
  assumes "length ts < 2 ^ 32"
  shows "\<exists>r ts'. parse_expression ts [] = (r, ts', []) \<and> (\<forall>n. r = Some n \<longrightarrow> expr_ok n)"
  using assms
proof (induction ts)
  case (Cons t ts)
  show ?case
  proof (cases "tok_type t = TOKEN_LPAREN")
    case True
    obtain r ts' where r: "parse_expression ts [] = (r, ts', [])" "\<And>n. r = Some n \<Longrightarrow> expr_ok n"
      using Cons by fastforce
    then show ?thesis using True by (cases r) (auto simp: expr_ok_def Let_def)
  next
    case False
    then show ?thesis using parse_pipeline_ok [OF Cons.prems] by simp
  qed
qed simp

text \<open>A node the sequence loop extends: it has a place for another expression.\<close>

lemma seq_ok_add: "seq_ok (AstNode ty cs v vt d) \<Longrightarrow> expr_ok e \<Longrightarrow> seq_ok (AstNode ty (cs @ [e]) v vt d)"
  by (cases ty; cases cs) (auto simp: seq_ok_def expr_ok_def)

lemma seq_ok_binary: "seq_ok n \<Longrightarrow> expr_ok e \<Longrightarrow> ty \<in> {NODE_AND, NODE_OR} \<Longrightarrow> seq_ok (AstNode ty [n, e] v vt d)"
  by (auto simp: seq_ok_def expr_ok_def)

lemma sequence_loop_ok:
  assumes "seq_ok n" "length (children n) + length ts \<le> 2 ^ 32"
  shows "\<exists>n' ts'. sequence_loop (Some n) ts [] = (Some n', ts', []) \<and> seq_ok n'"
  using assms
proof (induction "length ts" arbitrary: n ts rule: less_induct)
  case less
  show ?case
  proof (cases ts)
    case Nil
    then show ?thesis using less.prems by simp
  next
    case (Cons t us)
    have lt: "length us < 2 ^ 32" using less.prems(2) Cons by simp
    obtain r ts1 where r: "parse_expression us [] = (r, ts1, [])" "\<And>e. r = Some e \<Longrightarrow> expr_ok e"
      using parse_expression_ok [OF lt] by blast
    have l: "length ts1 \<le> length us" by (rule parse_expression_length [OF r(1)])
    obtain ty cs v vt d where n: "n = AstNode ty cs v vt d" by (cases n)
    show ?thesis
    proof (cases "tok_type t \<in> {TOKEN_SEMICOLON, TOKEN_AND, TOKEN_OR} \<and> r \<noteq> None")
      case True
      then obtain e where e: "r = Some e" "expr_ok e" using r(2) by auto
      have c1: "1 \<le> length cs" using less.prems(1) n by (cases cs; cases ty) (auto simp: seq_ok_def)
      have IH: "\<exists>n' ts'. sequence_loop (Some m) ts1 [] = (Some n', ts', []) \<and> seq_ok n'"
        if "seq_ok m" "length (children m) \<le> length cs + 1 \<or> length (children m) \<le> 2" for m
        by (rule less.hyps) (use that l less.prems Cons n c1 in \<open>auto simp: le_imp_less_Suc\<close>)
      consider "tok_type t = TOKEN_AND" | "tok_type t = TOKEN_OR" | "tok_type t = TOKEN_SEMICOLON" using True by blast
      then show ?thesis
      proof cases
        case 1
        then show ?thesis using r e Cons IH [OF seq_ok_binary [OF less.prems(1) e(2)], of NODE_AND None VAR_TYPE_STRING zero_cmd] by simp
      next
        case 2
        then show ?thesis using r e Cons IH [OF seq_ok_binary [OF less.prems(1) e(2)], of NODE_OR None VAR_TYPE_STRING zero_cmd] by simp
      next
        case 3
        then show ?thesis
          using r e Cons n less.prems(2) IH [OF seq_ok_add [OF less.prems(1) [unfolded n] e(2)]] by simp
      qed
    next
      case False
      then show ?thesis using r Cons less.prems(1) by auto
    qed
  qed
qed

text \<open>
  C35. The parser is total and builds well-formed trees only: with memory available, every
  token list of fewer than \<open>2\<^sup>3\<^sup>2\<close> tokens is parsed without a fault, and a tree that comes back
  is a sequence, a conjunction or a disjunction whose parts have the shapes of \<open>ast_ok\<close>.
\<close>
theorem parse_tokens_ok:
  assumes "length ts < 2 ^ 32"
  shows "\<exists>r. parse_tokens ts [] = Inr (r, []) \<and> (\<forall>n. r = Some n \<longrightarrow> seq_ok n)"
proof -
  obtain r ts1 where r: "parse_expression ts [] = (r, ts1, [])" "\<And>e. r = Some e \<Longrightarrow> expr_ok e"
    using parse_expression_ok [OF assms] by blast
  show ?thesis
  proof (cases r)
    case None
    then show ?thesis using r by (simp add: parse_tokens_def parse_sequence_def)
  next
    case (Some e)
    have "seq_ok (AstNode NODE_SEQUENCE [e] None VAR_TYPE_STRING zero_cmd)"
      using r(2) [OF Some] by (auto simp: seq_ok_def expr_ok_def)
    then obtain n ts2 where "sequence_loop (Some (AstNode NODE_SEQUENCE [e] None VAR_TYPE_STRING zero_cmd)) ts1 [] = (Some n, ts2, [])"
        "seq_ok n"
      using sequence_loop_ok [of "AstNode NODE_SEQUENCE [e] None VAR_TYPE_STRING zero_cmd" ts1] parse_expression_length [OF r(1)] assms
      by auto
    then show ?thesis
      using r Some by (cases n) (auto simp: parse_tokens_def parse_sequence_def seq_ok_def split: list.splits)
  qed
qed

theorem parse_tokens_ok_witness:
  "\<exists>r. parse_tokens [\<lparr>tok_type = TOKEN_WORD, tok_value = ''ls'', tok_line = 1, tok_column = 1\<rparr>] [] = Inr (r, []) \<and>
     (\<forall>n. r = Some n \<longrightarrow> seq_ok n)"
  by (rule parse_tokens_ok) simp

text \<open>Tokens at which a command ends although no operator of the shell follows.\<close>

definition dead_end :: "token_type set" where
  "dead_end = {TOKEN_OPERATOR, TOKEN_REDIRECT_IN, TOKEN_REDIRECT_OUT, TOKEN_REDIRECT_APPEND, TOKEN_LPAREN, TOKEN_RPAREN,
     TOKEN_EOF, TOKEN_ERROR}"

definition simple_ast :: "string list \<Rightarrow> ast_node" where
  "simple_ast ws = AstNode NODE_SEQUENCE [AstNode NODE_PIPELINE [command_node ws] None VAR_TYPE_STRING zero_cmd]
     None VAR_TYPE_STRING zero_cmd"

lemma parse_simple:
  assumes "ws \<noteq> []" "\<forall>w \<in> set ws. tok_type w \<in> arg_types" "tok_type t \<in> dead_end" "length ws + length rest < 2 ^ 32 - 1"
  shows "parse_tokens (ws @ t # rest) [] = Inr (Some (simple_ast (map tok_value ws)), [])"
proof -
  have t: "tok_type t \<notin> arg_types" "tok_type t \<noteq> TOKEN_PIPE" "tok_type t \<notin> {TOKEN_SEMICOLON, TOKEN_AND, TOKEN_OR}"
      "tok_type t \<noteq> TOKEN_BACKGROUND"
    using assms(3) by (auto simp: dead_end_def arg_types_def)
  have tk: "takeWhile (\<lambda>t. tok_type t \<in> arg_types) (ws @ t # rest) = ws"
      "dropWhile (\<lambda>t. tok_type t \<in> arg_types) (ws @ t # rest) = t # rest"
    using assms(2) t(1) by (simp_all add: takeWhile_append2 dropWhile_append2)
  obtain w us where ws: "ws = w # us" using assms(1) by (cases ws) auto
  then have w: "tok_type w \<noteq> TOKEN_EOF" "tok_type w \<noteq> TOKEN_LPAREN" using assms(2) by (auto simp: arg_types_def)
  have "parse_command (ws @ t # rest) [] = (Some (command_node (map tok_value ws)), t # rest, [])"
    using parse_command_ok [of "ws @ t # rest"] tk w(1) ws assms(4) by simp
  then have "parse_pipeline (ws @ t # rest) [] =
      (Some (AstNode NODE_PIPELINE [command_node (map tok_value ws)] None VAR_TYPE_STRING zero_cmd), t # rest, [])"
    using t by (simp add: parse_pipeline_def)
  then have "parse_expression (ws @ t # rest) [] =
      (Some (AstNode NODE_PIPELINE [command_node (map tok_value ws)] None VAR_TYPE_STRING zero_cmd), t # rest, [])"
    using ws w(2) by simp
  then show ?thesis using t by (simp add: parse_tokens_def parse_sequence_def simple_ast_def)
qed

text \<open>
  A command ends at the first token that is neither an argument nor one of the operators
  of the shell, and the rest of the line is dropped without an error. Redirections,
  assignments such as \<open>X=1\<close>, options such as \<open>-n\<close> and absolute paths are such tokens: whatever
  follows, the line is parsed as if it ended there.
\<close>
theorem parse_drops_rest:
  assumes "ws \<noteq> []" "\<forall>w \<in> set ws. tok_type w \<in> arg_types" "tok_type t \<in> dead_end" "tok_type e = TOKEN_EOF"
    "length ws + length rest < 2 ^ 32 - 1"
  shows "parse_tokens (ws @ t # rest) [] = parse_tokens (ws @ [e]) []"
  using parse_simple [OF assms(1,2,3,5)] parse_simple [OF assms(1,2), of e "[]"] assms(4,5) by (simp add: dead_end_def)

definition line_tokens :: "string \<Rightarrow> token list" where
  "line_tokens l = (case tokenize l [] of Inl e \<Rightarrow> [] | Inr (ts, km) \<Rightarrow> ts)"

theorem parse_drops_rest_witness:
  "parse_tokens (line_tokens ''echo a > f; echo b'') [] = parse_tokens (line_tokens ''echo a'') []"
proof -
  let ?ts = "line_tokens ''echo a > f; echo b''" and ?us = "line_tokens ''echo a''"
  have "?ts = take 2 ?ts @ ?ts ! 2 # drop 3 ?ts" "take 2 ?ts = take 2 ?us" "?us = take 2 ?us @ [?us ! 2]" by code_simp+
  moreover have "take 2 ?us \<noteq> []" "\<forall>w \<in> set (take 2 ?us). tok_type w \<in> arg_types" "tok_type (?ts ! 2) \<in> dead_end"
    "tok_type (?us ! 2) = TOKEN_EOF" by code_simp+
  moreover have "length (take 2 ?us) + length (drop 3 ?ts) = 7" by code_simp
  then have "length (take 2 ?us) + length (drop 3 ?ts) < 2 ^ 32 - 1" by simp
  ultimately show ?thesis using parse_drops_rest [of "take 2 ?us" "?ts ! 2" "?us ! 2" "drop 3 ?ts"] by metis
qed

end
