(* ===== verification/Mira_Shell_Env.thy ===== *)
theory Mira_Shell_Env
  imports Mira_Shell_Parse Mira_Vfs Mira_Input Mira_Widget
begin

text \<open>
  The state of the shell and the operations on its tables, \<open>ui/shell.c\<close>: variables,
  aliases, history, jobs and functions, the expansion of variables and the text output. Each
  table is the list of its used entries, so its counter is the length. A name or value that
  does not fit its field overruns it, which is a fault. The allocation outcomes are those of
  the file system's state, as both use the one heap.
\<close>

section \<open>State\<close>

definition SHELL_MAX_CMD_LEN :: nat where "SHELL_MAX_CMD_LEN = 4096"
definition SHELL_MAX_VARS :: nat where "SHELL_MAX_VARS = 1024"
definition SHELL_MAX_ALIASES :: nat where "SHELL_MAX_ALIASES = 256"
definition SHELL_MAX_HISTORY :: nat where "SHELL_MAX_HISTORY = 1024"
definition SHELL_MAX_SCRIPTS :: nat where "SHELL_MAX_SCRIPTS = 64"
definition SHELL_MAX_JOBS :: nat where "SHELL_MAX_JOBS = 32"

record shell_var =
  sv_name :: string
  sv_value :: string
  sv_type :: var_type
  sv_exported :: bool
  sv_readonly :: bool

record shell_alias =
  sa_name :: string
  sa_value :: string

record shell_function =
  fn_name :: string
  fn_ast :: "ast_node option"
  fn_running :: bool
  fn_suspended :: bool
  fn_exit_status :: i32

record shell_job =
  job_id :: u32
  job_command :: string
  job_pid :: u32
  job_running :: bool
  job_stopped :: bool
  job_exit_status :: i32

text \<open>The fields of \<open>shell_ctx_t\<close> that the shell reads or sets after clearing the structure.\<close>

record shell_ctx =
  interactive :: bool
  exit_requested :: bool
  last_exit_status :: i32
  current_dir :: string
  home_dir :: string
  search_path :: string
  uid :: u32
  gid :: u32
  start_time :: u64
  command_count :: u64
  debug_mode :: bool

text \<open>
  The static variables of \<open>shell_draw_char\<close> and the calls of \<open>text_draw_char\<close> made so far,
  each with its position, character and colours.
\<close>

record console =
  cursor_x :: int
  cursor_y :: int
  max_x :: int
  max_y :: int
  needs_layout :: bool
  drawn :: "(int \<times> int \<times> char \<times> u32 \<times> u32) list"

text \<open>The static widgets of the desktop; \<open>cmd_buf\<close> is the text its field points to.\<close>

record shell_ui =
  main_panel :: ui_panel
  sidebar_panel :: ui_panel
  btn_clear :: ui_button
  btn_about :: ui_button
  btn_files :: ui_button
  btn_style :: ui_button
  cmd_field :: ui_textfield
  cmd_buf :: string
  dirty :: bool

text \<open>
  The shell with what it reaches: the file system, the framebuffer's size and the drawing
  calls made, the keyboard and the line being edited, and the values that successive calls of
  \<open>timer_ticks\<close> observe.
\<close>

record shell =
  sh_ctx :: shell_ctx
  global_vars :: "shell_var list"
  global_aliases :: "shell_alias list"
  global_functions :: "shell_function list"
  global_jobs :: "shell_job list"
  global_history :: "string option list"
  global_history_index :: nat
  con :: console
  fs :: vfs
  fb_ready :: bool
  fb_width :: u32
  fb_height :: u32
  gfx :: "gfx_op list"
  ui :: shell_ui
  sh_kbd :: kbd
  sh_input :: input_state
  clock :: "nat \<Rightarrow> u64"
  clock_reads :: nat

definition timer_ticks :: "shell \<Rightarrow> u64 \<times> shell" where
  "timer_ticks s = (clock s (clock_reads s), s\<lparr>clock_reads := clock_reads s + 1\<rparr>)"

definition heap_outcomes :: "shell \<Rightarrow> bool list" where "heap_outcomes s = kmem (fs s)"

definition set_heap_outcomes :: "bool list \<Rightarrow> shell \<Rightarrow> shell" where
  "set_heap_outcomes km s = s\<lparr>fs := (fs s)\<lparr>kmem := km\<rparr>\<rparr>"

section \<open>Text output\<close>

definition shell_draw_char :: "char \<Rightarrow> u32 \<Rightarrow> u32 \<Rightarrow> shell \<Rightarrow> shell" where
  "shell_draw_char c fg bg s =
     (let k0 = con s;
          k = (if needs_layout k0
               then k0\<lparr>max_x := uint (fb_width s div 8), max_y := uint (fb_height s div 16), needs_layout := False\<rparr>
               else k0)
      in if c = CHR 0x0A
         then let y = cursor_y k + 1
              in s\<lparr>con := k\<lparr>cursor_x := 0, cursor_y := (if y \<ge> max_y k then max_y k - 1 else y)\<rparr>\<rparr>
         else if c = CHR 0x0D then s\<lparr>con := k\<lparr>cursor_x := 0\<rparr>\<rparr>
         else if c = CHR 0x09 then s\<lparr>con := k\<lparr>cursor_x := (cursor_x k + 8) AND NOT 7\<rparr>\<rparr>
         else let k1 = k\<lparr>drawn := drawn k @ [(cursor_x k * 8, cursor_y k * 16, c, fg, bg)], cursor_x := cursor_x k + 1\<rparr>
              in if cursor_x k1 \<ge> max_x k1
                 then let y = cursor_y k1 + 1
                      in s\<lparr>con := k1\<lparr>cursor_x := 0, cursor_y := (if y \<ge> max_y k1 then max_y k1 - 1 else y)\<rparr>\<rparr>
                 else s\<lparr>con := k1\<rparr>)"

primrec shell_draw_string :: "string \<Rightarrow> u32 \<Rightarrow> u32 \<Rightarrow> shell \<Rightarrow> shell" where
  "shell_draw_string [] fg bg s = s"
| "shell_draw_string (c # str) fg bg s = shell_draw_string str fg bg (shell_draw_char c fg bg s)"

definition shell_print_error :: "string \<Rightarrow> shell \<Rightarrow> shell" where
  "shell_print_error msg s =
     shell_draw_char (CHR 0x0A) 0xE94560 0x000000
       (shell_draw_string msg 0xE94560 0x000000 (shell_draw_string ''Error: '' 0xE94560 0x000000 s))"

definition shell_print_warning :: "string \<Rightarrow> shell \<Rightarrow> shell" where
  "shell_print_warning msg s =
     shell_draw_char (CHR 0x0A) 0xFFFF00 0x000000
       (shell_draw_string msg 0xFFFF00 0x000000 (shell_draw_string ''Warning: '' 0xFFFF00 0x000000 s))"

definition shell_print_debug :: "string \<Rightarrow> shell \<Rightarrow> shell" where
  "shell_print_debug msg s =
     (if debug_mode (sh_ctx s)
      then shell_draw_char (CHR 0x0A) 0x888888 0x000000
             (shell_draw_string msg 0x888888 0x000000 (shell_draw_string ''Debug: '' 0x888888 0x000000 s))
      else s)"

section \<open>Variables\<close>

text \<open>The first entry of that name changed by \<open>f\<close>, if there is one.\<close>

fun update_first :: "('a \<Rightarrow> bool) \<Rightarrow> ('a \<Rightarrow> 'a) \<Rightarrow> 'a list \<Rightarrow> 'a list option" where
  "update_first P f [] = None"
| "update_first P f (x # xs) = (if P x then Some (f x # xs) else map_option ((#) x) (update_first P f xs))"

text \<open>The list without the first such entry, as \<open>memcpy\<close> of the entries behind it leaves it.\<close>

fun remove_first :: "('a \<Rightarrow> bool) \<Rightarrow> 'a list \<Rightarrow> 'a list" where
  "remove_first P [] = []"
| "remove_first P (x # xs) = (if P x then xs else x # remove_first P xs)"

definition shell_set_variable :: "string \<Rightarrow> string \<Rightarrow> shell \<Rightarrow> shell res" where
  "shell_set_variable name v s =
     (case update_first (\<lambda>e. sv_name e = name) (\<lambda>e. e\<lparr>sv_value := v\<rparr>) (global_vars s) of
        Some vs \<Rightarrow> if length v \<ge> 256 then Inl OutOfBounds else Inr (s\<lparr>global_vars := vs\<rparr>)
      | None \<Rightarrow>
          if length (global_vars s) < SHELL_MAX_VARS
          then if length name \<ge> 64 \<or> length v \<ge> 256 then Inl OutOfBounds
               else Inr (s\<lparr>global_vars := global_vars s @
                      [\<lparr>sv_name = name, sv_value = v, sv_type = VAR_TYPE_STRING, sv_exported = False, sv_readonly = False\<rparr>]\<rparr>)
          else Inr s)"

definition shell_get_variable :: "string \<Rightarrow> shell \<Rightarrow> string" where
  "shell_get_variable name s =
     (case find (\<lambda>e. sv_name e = name) (global_vars s) of Some e \<Rightarrow> sv_value e | None \<Rightarrow> '''')"

definition shell_export_variable :: "string \<Rightarrow> shell \<Rightarrow> shell" where
  "shell_export_variable name s =
     (case update_first (\<lambda>e. sv_name e = name) (\<lambda>e. e\<lparr>sv_exported := True\<rparr>) (global_vars s) of
        Some vs \<Rightarrow> s\<lparr>global_vars := vs\<rparr>
      | None \<Rightarrow> s)"

definition shell_set_variable_int :: "string \<Rightarrow> i32 \<Rightarrow> shell \<Rightarrow> shell res" where
  "shell_set_variable_int name v s = shell_set_variable name (int_to_str v) s"

section \<open>Expansion of variables\<close>

fun scan_braced :: "nat \<Rightarrow> string \<Rightarrow> string \<times> string" where
  "scan_braced vi [] = ([], [])"
| "scan_braced vi (c # p) =
     (if c = CHR 0x7D \<or> \<not> vi < 255 then ([], c # p) else let (b, r) = scan_braced (vi + 1) p in (c # b, r))"

text \<open>The name after a dollar sign and the input behind it.\<close>

definition variable_name :: "string \<Rightarrow> (string \<times> string) res" where
  "variable_name p =
     (if p \<noteq> [] \<and> hd p = CHR 0x7B
      then let (b, r) = scan_braced 0 (tl p) in Inr (b, if r \<noteq> [] \<and> hd r = CHR 0x7D then tl r else r)
      else let b = takeWhile is_name_char p
           in if length b < 256 then Inr (b, dropWhile is_name_char p) else Inl OutOfBounds)"

lemma scan_braced_length: "scan_braced vi p = (b, r) \<Longrightarrow> length r \<le> length p"
  by (induction vi p arbitrary: b r rule: scan_braced.induct) (fastforce split: if_splits prod.splits)+

lemma variable_name_length: "variable_name p = Inr (b, r) \<Longrightarrow> length r \<le> length p"
  by (cases p) (auto simp: variable_name_def Let_def length_dropWhile_le le_SucI split: prod.splits if_splits
      dest!: scan_braced_length)

definition RESOLVED_MAX :: nat where "RESOLVED_MAX = 8191"

text \<open>\<open>out\<close> is what the buffer holds; the copying loops stop when it is full.\<close>

definition append_value :: "string \<Rightarrow> string \<Rightarrow> string" where
  "append_value out v = out @ take (RESOLVED_MAX - length out) v"

function resolve_from :: "string \<Rightarrow> string \<Rightarrow> shell \<Rightarrow> string res" where
  "resolve_from out [] s = Inr out"
| "resolve_from out (c # p) s =
     (if \<not> length out < RESOLVED_MAX then Inr out
      else if c = CHR ''$''
      then bindR (variable_name p) (\<lambda>(name, r). resolve_from (append_value out (shell_get_variable name s)) r s)
      else if c = CHR 0x7E \<and> (p = [] \<or> hd p = CHR ''/'')
      then resolve_from (append_value out (shell_get_variable ''HOME'' s)) p s
      else resolve_from (out @ [c]) p s)"
  by pat_completeness auto
termination
  by (relation "measure (\<lambda>(out, p, s). length p)") (auto dest: variable_name_length simp: le_imp_less_Suc)

definition shell_resolve_variables :: "string \<Rightarrow> shell \<Rightarrow> string res" where
  "shell_resolve_variables input s = resolve_from [] input s"

section \<open>Aliases, history, jobs and functions\<close>

definition shell_add_alias :: "string \<Rightarrow> string \<Rightarrow> shell \<Rightarrow> shell res" where
  "shell_add_alias name v s =
     (if length (global_aliases s) < SHELL_MAX_ALIASES
      then if length name \<ge> 64 \<or> length v \<ge> 256 then Inl OutOfBounds
           else Inr (s\<lparr>global_aliases := global_aliases s @ [\<lparr>sa_name = name, sa_value = v\<rparr>]\<rparr>)
      else Inr s)"

definition shell_resolve_alias :: "string \<Rightarrow> shell \<Rightarrow> string" where
  "shell_resolve_alias name s =
     (case find (\<lambda>a. sa_name a = name) (global_aliases s) of Some a \<Rightarrow> sa_value a | None \<Rightarrow> name)"

text \<open>\<open>ds_strdup\<close>: the copy, or null.\<close>

definition ds_strdup :: "string \<Rightarrow> shell \<Rightarrow> string option \<times> shell" where
  "ds_strdup str s =
     (let (ok, km) = kmalloc_outcome (word_of_nat (length str) + 1) (heap_outcomes s)
      in (if ok then Some str else None, set_heap_outcomes km s))"

definition shell_add_history :: "string \<Rightarrow> shell \<Rightarrow> shell" where
  "shell_add_history cmd s =
     (let s1 = (if length (global_history s) \<ge> SHELL_MAX_HISTORY then s\<lparr>global_history := tl (global_history s)\<rparr> else s);
          (d, s2) = ds_strdup cmd s1
      in s2\<lparr>global_history := global_history s2 @ [d], global_history_index := length (global_history s2) + 1\<rparr>)"

definition shell_get_history :: "nat \<Rightarrow> shell \<Rightarrow> string option" where
  "shell_get_history i s = (if i < length (global_history s) then global_history s ! i else Some '''')"

definition shell_job_add :: "shell_job \<Rightarrow> shell \<Rightarrow> shell" where
  "shell_job_add job s =
     (if length (global_jobs s) < SHELL_MAX_JOBS
      then s\<lparr>global_jobs := global_jobs s @ [job\<lparr>job_id := word_of_nat (length (global_jobs s)) + 1\<rparr>]\<rparr>
      else s)"

definition shell_job_remove :: "u32 \<Rightarrow> shell \<Rightarrow> shell" where
  "shell_job_remove j s = s\<lparr>global_jobs := remove_first (\<lambda>e. job_id e = j) (global_jobs s)\<rparr>"

definition shell_job_get :: "u32 \<Rightarrow> shell \<Rightarrow> shell_job option" where
  "shell_job_get j s = find (\<lambda>e. job_id e = j) (global_jobs s)"

text \<open>A change of the job a predicate finds first.\<close>

definition update_job :: "(shell_job \<Rightarrow> bool) \<Rightarrow> (shell_job \<Rightarrow> shell_job) \<Rightarrow> shell \<Rightarrow> shell option" where
  "update_job P f s = map_option (\<lambda>js. s\<lparr>global_jobs := js\<rparr>) (update_first P f (global_jobs s))"

definition shell_job_foreground :: "u32 \<Rightarrow> shell \<Rightarrow> shell" where
  "shell_job_foreground j s =
     (case update_job (\<lambda>e. job_id e = j) (\<lambda>e. e\<lparr>job_running := True, job_stopped := False\<rparr>) s of Some s' \<Rightarrow> s' | None \<Rightarrow> s)"

definition shell_job_background :: "u32 \<Rightarrow> shell \<Rightarrow> shell" where
  "shell_job_background j s =
     (case update_job (\<lambda>e. job_id e = j) (\<lambda>e. e\<lparr>job_running := True, job_stopped := False\<rparr>) s of Some s' \<Rightarrow> s' | None \<Rightarrow> s)"

definition shell_job_kill :: "u32 \<Rightarrow> shell \<Rightarrow> shell" where
  "shell_job_kill j s =
     (case update_job (\<lambda>e. job_id e = j) (\<lambda>e. e\<lparr>job_running := False\<rparr>) s of
        Some s' \<Rightarrow> shell_job_remove j s'
      | None \<Rightarrow> s)"

text \<open>The line shown for a job, built in a buffer of 256 bytes.\<close>

definition job_line :: "shell_job \<Rightarrow> string res" where
  "job_line j =
     (let buf = int_to_str (job_id j) @ '' '' @ (if job_running j then ''Running'' else ''Stopped'') @ '' '' @
                job_command j @ [CHR 0x0A]
      in if length buf < 256 then Inr buf else Inl OutOfBounds)"

primrec list_jobs :: "shell_job list \<Rightarrow> shell \<Rightarrow> shell res" where
  "list_jobs [] s = Inr s"
| "list_jobs (j # js) s = bindR (job_line j) (\<lambda>buf. list_jobs js (shell_draw_string buf 0xFFFFFF 0x000000 s))"

definition shell_job_list :: "shell \<Rightarrow> shell res" where "shell_job_list s = list_jobs (global_jobs s) s"

definition shell_function_register :: "string \<Rightarrow> ast_node option \<Rightarrow> shell \<Rightarrow> shell res" where
  "shell_function_register name body s =
     (if length (global_functions s) < SHELL_MAX_SCRIPTS
      then if length name \<ge> 64 then Inl OutOfBounds
           else Inr (s\<lparr>global_functions := global_functions s @
                  [\<lparr>fn_name = name, fn_ast = body, fn_running = False, fn_suspended = False, fn_exit_status = 0\<rparr>]\<rparr>)
      else Inr s)"

definition shell_function_get :: "string \<Rightarrow> shell \<Rightarrow> shell_function option" where
  "shell_function_get name s = find (\<lambda>f. fn_name f = name) (global_functions s)"

definition shell_signal_handler :: "i32 \<Rightarrow> shell \<Rightarrow> shell" where "shell_signal_handler sig s = s"

section \<open>Lookup tables\<close>

lemma update_first_None: "update_first P f xs = None \<longleftrightarrow> (\<forall>x \<in> set xs. \<not> P x)"
  by (induction xs) auto

lemma update_first_Some: "update_first P f xs = Some ys \<Longrightarrow>
    length ys = length xs \<and> set ys \<subseteq> set xs \<union> f ` {x \<in> set xs. P x}"
proof (induction xs arbitrary: ys)
  case (Cons a xs)
  then show ?case by (cases "P a") (fastforce split: option.splits)+
qed simp

lemma find_update_first:
  assumes "update_first P f xs = Some ys" "\<And>x. P x \<Longrightarrow> P (f x)"
  shows "\<exists>x \<in> set xs. P x \<and> find P ys = Some (f x)"
  using assms(1)
proof (induction xs arbitrary: ys)
  case (Cons a xs)
  then show ?case using assms(2) [of a] by (cases "P a") auto
qed simp

lemma find_update_other:
  assumes "update_first P f xs = Some ys" "\<And>x. P x \<Longrightarrow> \<not> Q x \<and> \<not> Q (f x)"
  shows "find Q ys = find Q xs"
  using assms(1)
proof (induction xs arbitrary: ys)
  case (Cons a xs)
  then show ?case using assms(2) [of a] by (cases "P a") auto
qed simp

lemma find_append: "find P (xs @ ys) = (case find P xs of None \<Rightarrow> find P ys | Some x \<Rightarrow> Some x)"
  by (induction xs) auto

lemma remove_first_subset: "set (remove_first P xs) \<subseteq> set xs \<and> length (remove_first P xs) \<le> length xs"
  by (induction xs) auto

section \<open>The interface of the variable store\<close>

text \<open>
  What the other parts of the shell rely on: a variable that fits keeps the value it was last
  given, and setting one leaves all others alone.
\<close>

locale variable_store =
  fixes get :: "string \<Rightarrow> 's \<Rightarrow> string"
    and set_var :: "string \<Rightarrow> string \<Rightarrow> 's \<Rightarrow> 's res"
    and room :: "string \<Rightarrow> string \<Rightarrow> 's \<Rightarrow> bool"
  assumes set_ok: "room n v s \<Longrightarrow> \<exists>s'. set_var n v s = Inr s'"
    and get_set: "room n v s \<Longrightarrow> set_var n v s = Inr s' \<Longrightarrow> get n s' = v"
    and get_other: "m \<noteq> n \<Longrightarrow> set_var n v s = Inr s' \<Longrightarrow> get m s' = get m s"
    and room_again: "room n v s \<Longrightarrow> set_var n v s = Inr s' \<Longrightarrow> length w < 256 \<Longrightarrow> room n w s'"
begin

lemma last_wins:
  assumes "room n v s" "length w < 256"
  shows "\<exists>s1 s2. set_var n v s = Inr s1 \<and> set_var n w s1 = Inr s2 \<and> get n s2 = w"
proof -
  obtain s1 where s1: "set_var n v s = Inr s1" using set_ok [OF assms(1)] by blast
  have r: "room n w s1" by (rule room_again [OF assms(1) s1 assms(2)])
  obtain s2 where s2: "set_var n w s1 = Inr s2" using set_ok [OF r] by blast
  show ?thesis using s1 s2 get_set [OF r s2] by blast
qed

lemma independent:
  assumes "m \<noteq> n" "room n v s" "\<And>s'. set_var n v s = Inr s' \<Longrightarrow> room m w s'"
  shows "\<exists>s1 s2. set_var n v s = Inr s1 \<and> set_var m w s1 = Inr s2 \<and> get n s2 = v \<and> get m s2 = w"
proof -
  obtain s1 where s1: "set_var n v s = Inr s1" using set_ok [OF assms(2)] by blast
  obtain s2 where s2: "set_var m w s1 = Inr s2" using set_ok [OF assms(3) [OF s1]] by blast
  have "get n s2 = get n s1" using get_other [of n m] assms(1) s2 by auto
  then show ?thesis using s1 s2 get_set [OF assms(2) s1] get_set [OF assms(3) [OF s1] s2] by auto
qed

end

definition var_fits :: "string \<Rightarrow> string \<Rightarrow> shell \<Rightarrow> bool" where
  "var_fits n v s \<longleftrightarrow> length v < 256 \<and>
     (n \<in> sv_name ` set (global_vars s) \<or> length (global_vars s) < SHELL_MAX_VARS \<and> length n < 64)"

lemma set_variable_cases:
  assumes "shell_set_variable n v s = Inr s'"
  obtains (old) vs where "update_first (\<lambda>e. sv_name e = n) (\<lambda>e. e\<lparr>sv_value := v\<rparr>) (global_vars s) = Some vs"
      "s' = s\<lparr>global_vars := vs\<rparr>" "length v < 256"
  | (new) "n \<notin> sv_name ` set (global_vars s)" "length (global_vars s) < SHELL_MAX_VARS" "length n < 64" "length v < 256"
      "s' = s\<lparr>global_vars := global_vars s @
         [\<lparr>sv_name = n, sv_value = v, sv_type = VAR_TYPE_STRING, sv_exported = False, sv_readonly = False\<rparr>]\<rparr>"
  | (full) "n \<notin> sv_name ` set (global_vars s)" "\<not> length (global_vars s) < SHELL_MAX_VARS" "s' = s"
  using assms update_first_None [of "\<lambda>e. sv_name e = n" "\<lambda>e. e\<lparr>sv_value := v\<rparr>" "global_vars s"]
  by (fastforce simp: shell_set_variable_def split: option.splits if_splits)

interpretation shell_vars: variable_store shell_get_variable shell_set_variable var_fits
proof unfold_locales
  fix n v s assume "var_fits n v s"
  then show "\<exists>s'. shell_set_variable n v s = Inr s'"
    using update_first_None [of "\<lambda>e. sv_name e = n" "\<lambda>e. e\<lparr>sv_value := v\<rparr>" "global_vars s"]
    by (auto simp: shell_set_variable_def var_fits_def split: option.splits)
next
  fix n v s s' assume f: "var_fits n v s" and e: "shell_set_variable n v s = Inr s'"
  from e show "shell_get_variable n s' = v"
  proof (cases rule: set_variable_cases)
    case (old vs)
    then show ?thesis using find_update_first [OF old(1)] by (auto simp: shell_get_variable_def)
  next
    case new
    then have "find (\<lambda>e. sv_name e = n) (global_vars s) = None" by (auto simp: find_None_iff)
    then show ?thesis using new by (simp add: shell_get_variable_def find_append)
  next
    case full
    then show ?thesis using f by (auto simp: var_fits_def)
  qed
next
  fix m n v s s' assume mn: "m \<noteq> n" and e: "shell_set_variable n v s = Inr s'"
  from e show "shell_get_variable m s' = shell_get_variable m s"
  proof (cases rule: set_variable_cases)
    case (old vs)
    then show ?thesis using mn find_update_other [OF old(1), of "\<lambda>e. sv_name e = m"] by (auto simp: shell_get_variable_def)
  qed (use mn in \<open>auto simp: shell_get_variable_def find_append split: option.splits\<close>)
next
  fix n v w :: string and s s' assume f: "var_fits n v s" and e: "shell_set_variable n v s = Inr s'" and w: "length w < 256"
  from e show "var_fits n w s'"
  proof (cases rule: set_variable_cases)
    case (old vs)
    obtain x where "find (\<lambda>e. sv_name e = n) vs = Some x" using find_update_first [OF old(1)] by auto
    then have "x \<in> set vs" "sv_name x = n" by (auto simp: find_Some_iff)
    then have "n \<in> sv_name ` set vs" by blast
    then show ?thesis using old w by (simp add: var_fits_def)
  qed (use f w in \<open>auto simp: var_fits_def\<close>)
qed

text \<open>
  C26. Shell variables: when there is room for a variable, \<open>shell_set_variable\<close> returns, reading
  the variable back gives the value set last, also when it is set again, and every other
  variable keeps its value. The room is a free entry of the table of 1024, or an entry of that
  name already in it.
\<close>

theorem shell_variable_roundtrip:
  assumes "var_fits n v s" "length w < 256"
  shows "\<exists>s1 s2. shell_set_variable n v s = Inr s1 \<and> shell_get_variable n s1 = v \<and>
    shell_set_variable n w s1 = Inr s2 \<and> shell_get_variable n s2 = w \<and>
    (\<forall>m. m \<noteq> n \<longrightarrow> shell_get_variable m s2 = shell_get_variable m s)"
proof -
  obtain s1 s2 where e: "shell_set_variable n v s = Inr s1" "shell_set_variable n w s1 = Inr s2" "shell_get_variable n s2 = w"
    using shell_vars.last_wins [OF assms] by blast
  have "\<forall>m. m \<noteq> n \<longrightarrow> shell_get_variable m s2 = shell_get_variable m s"
    using shell_vars.get_other e by metis
  then show ?thesis using e shell_vars.get_set [OF assms(1) e(1)] by blast
qed

text \<open>A shell with empty tables, as it is before \<open>shell_init\<close>.\<close>

definition blank_ctx :: shell_ctx where
  "blank_ctx = \<lparr>interactive = False, exit_requested = False, last_exit_status = 0, current_dir = '''', home_dir = '''',
     search_path = '''', uid = 0, gid = 0, start_time = 0, command_count = 0, debug_mode = False\<rparr>"

definition blank_console :: console where
  "blank_console = \<lparr>cursor_x = 0, cursor_y = 0, max_x = 0, max_y = 0, needs_layout = True, drawn = []\<rparr>"

definition blank_shell :: "shell_ui \<Rightarrow> kbd \<Rightarrow> input_state \<Rightarrow> vfs \<Rightarrow> (nat \<Rightarrow> u64) \<Rightarrow> shell" where
  "blank_shell u k i f c = \<lparr>sh_ctx = blank_ctx, global_vars = [], global_aliases = [], global_functions = [], global_jobs = [],
     global_history = [], global_history_index = 0, con = blank_console, fs = f, fb_ready = False, fb_width = 0, fb_height = 0,
     gfx = [], ui = u, sh_kbd = k, sh_input = i, clock = c, clock_reads = 0\<rparr>"

theorem shell_variable_roundtrip_witness:
  "\<forall>u k i f c. var_fits ''PS1'' ''$'' (blank_shell u k i f c) \<and>
    (\<exists>s1 s2. shell_set_variable ''PS1'' ''$'' (blank_shell u k i f c) = Inr s1 \<and> shell_get_variable ''PS1'' s1 = ''$'' \<and>
      shell_set_variable ''PS1'' ''>'' s1 = Inr s2 \<and> shell_get_variable ''PS1'' s2 = ''>'' \<and>
      (\<forall>m. m \<noteq> ''PS1'' \<longrightarrow> shell_get_variable m s2 = shell_get_variable m (blank_shell u k i f c)))"
proof (intro allI conjI)
  fix u k i f c
  show fits: "var_fits ''PS1'' ''$'' (blank_shell u k i f c)"
    by (simp add: var_fits_def blank_shell_def SHELL_MAX_VARS_def)
  show "\<exists>s1 s2. shell_set_variable ''PS1'' ''$'' (blank_shell u k i f c) = Inr s1 \<and> shell_get_variable ''PS1'' s1 = ''$'' \<and>
      shell_set_variable ''PS1'' ''>'' s1 = Inr s2 \<and> shell_get_variable ''PS1'' s2 = ''>'' \<and>
      (\<forall>m. m \<noteq> ''PS1'' \<longrightarrow> shell_get_variable m s2 = shell_get_variable m (blank_shell u k i f c))"
    by (rule shell_variable_roundtrip [OF fits]) simp
qed

end
