(* ===== verification/Mira_Shell_Stubs.thy ===== *)
theory Mira_Shell_Stubs
  imports Mira_Shell_Env
begin

text \<open>
  The builtin commands of \<open>ui/shell.c\<close> that only print fixed text: those that report that the
  command is not available and those with a fixed answer. Each ignores its arguments.
\<close>

definition say :: "string \<Rightarrow> shell \<Rightarrow> shell" where "say str s = shell_draw_string str 0xFFFFFF 0x000000 s"
definition sayc :: "char \<Rightarrow> shell \<Rightarrow> shell" where "sayc c s = shell_draw_char c 0xFFFFFF 0x000000 s"

named_theorems stub_defs \<open>definitions of the fixed builtins\<close>

definition builtin_true :: "ast_node \<Rightarrow> shell \<Rightarrow> (i32 \<times> shell) res" where [stub_defs]:
  "builtin_true node s = Inr (0, s)"

definition builtin_false :: "ast_node \<Rightarrow> shell \<Rightarrow> (i32 \<times> shell) res" where [stub_defs]:
  "builtin_false node s = Inr (1, s)"

definition builtin_ulimit :: "ast_node \<Rightarrow> shell \<Rightarrow> (i32 \<times> shell) res" where [stub_defs]:
  "builtin_ulimit node s = Inr (0, say (''  stack size: 8388608'' @ [CHR 0x0A]) (say (''  open files: 1024'' @ [CHR 0x0A]) (say (''  max user processes: 1024'' @ [CHR 0x0A]) (say (''ulimit settings:'' @ [CHR 0x0A]) s))))"

definition builtin_trap :: "ast_node \<Rightarrow> shell \<Rightarrow> (i32 \<times> shell) res" where [stub_defs]:
  "builtin_trap node s = Inr (0, s)"

definition builtin_umount :: "ast_node \<Rightarrow> shell \<Rightarrow> (i32 \<times> shell) res" where [stub_defs]:
  "builtin_umount node s = Inr (1, shell_print_error ''umount: operation not supported'' s)"

definition builtin_mount :: "ast_node \<Rightarrow> shell \<Rightarrow> (i32 \<times> shell) res" where [stub_defs]:
  "builtin_mount node s = Inr (1, shell_print_error ''mount: operation not supported'' s)"

definition builtin_df :: "ast_node \<Rightarrow> shell \<Rightarrow> (i32 \<times> shell) res" where [stub_defs]:
  "builtin_df node s = Inr (0, say (''ramfs          1M    128K  896K   12%'' @ [CHR 0x0A]) (say (''Filesystem     Size  Used  Avail  Use%'' @ [CHR 0x0A]) s))"

definition builtin_ps :: "ast_node \<Rightarrow> shell \<Rightarrow> (i32 \<times> shell) res" where [stub_defs]:
  "builtin_ps node s = Inr (0, say (''    2 ?        00:00:00 kthreadd'' @ [CHR 0x0A]) (say (''    1 ?        00:00:00 init'' @ [CHR 0x0A]) (say (''  PID TTY          TIME CMD'' @ [CHR 0x0A]) s)))"

definition builtin_head :: "ast_node \<Rightarrow> shell \<Rightarrow> (i32 \<times> shell) res" where [stub_defs]:
  "builtin_head node s = Inr (1, shell_print_error ''head: unsupported in this build'' s)"

definition builtin_tail :: "ast_node \<Rightarrow> shell \<Rightarrow> (i32 \<times> shell) res" where [stub_defs]:
  "builtin_tail node s = Inr (1, shell_print_error ''tail: unsupported in this build'' s)"

definition builtin_wc :: "ast_node \<Rightarrow> shell \<Rightarrow> (i32 \<times> shell) res" where [stub_defs]:
  "builtin_wc node s = Inr (1, shell_print_error ''wc: unsupported in this build'' s)"

definition builtin_grep :: "ast_node \<Rightarrow> shell \<Rightarrow> (i32 \<times> shell) res" where [stub_defs]:
  "builtin_grep node s = Inr (1, shell_print_error ''grep: unsupported in this build'' s)"

definition builtin_sed :: "ast_node \<Rightarrow> shell \<Rightarrow> (i32 \<times> shell) res" where [stub_defs]:
  "builtin_sed node s = Inr (1, shell_print_error ''sed: unsupported in this build'' s)"

definition builtin_awk :: "ast_node \<Rightarrow> shell \<Rightarrow> (i32 \<times> shell) res" where [stub_defs]:
  "builtin_awk node s = Inr (1, shell_print_error ''awk: unsupported in this build'' s)"

definition builtin_rmdir :: "ast_node \<Rightarrow> shell \<Rightarrow> (i32 \<times> shell) res" where [stub_defs]:
  "builtin_rmdir node s = Inr (1, shell_print_error ''rmdir: unsupported in this build'' s)"

definition builtin_rm :: "ast_node \<Rightarrow> shell \<Rightarrow> (i32 \<times> shell) res" where [stub_defs]:
  "builtin_rm node s = Inr (1, shell_print_error ''rm: unsupported in this build'' s)"

definition builtin_cp :: "ast_node \<Rightarrow> shell \<Rightarrow> (i32 \<times> shell) res" where [stub_defs]:
  "builtin_cp node s = Inr (1, shell_print_error ''cp: unsupported in this build'' s)"

definition builtin_mv :: "ast_node \<Rightarrow> shell \<Rightarrow> (i32 \<times> shell) res" where [stub_defs]:
  "builtin_mv node s = Inr (1, shell_print_error ''mv: unsupported in this build'' s)"

definition builtin_chmod :: "ast_node \<Rightarrow> shell \<Rightarrow> (i32 \<times> shell) res" where [stub_defs]:
  "builtin_chmod node s = Inr (1, shell_print_error ''chmod: unsupported in this build'' s)"

definition builtin_chown :: "ast_node \<Rightarrow> shell \<Rightarrow> (i32 \<times> shell) res" where [stub_defs]:
  "builtin_chown node s = Inr (1, shell_print_error ''chown: unsupported in this build'' s)"

definition builtin_whoami :: "ast_node \<Rightarrow> shell \<Rightarrow> (i32 \<times> shell) res" where [stub_defs]:
  "builtin_whoami node s = Inr (0, say (''root'' @ [CHR 0x0A]) s)"

definition builtin_id :: "ast_node \<Rightarrow> shell \<Rightarrow> (i32 \<times> shell) res" where [stub_defs]:
  "builtin_id node s = Inr (0, say (''uid=0(root) gid=0(root)'' @ [CHR 0x0A]) s)"

definition builtin_time :: "ast_node \<Rightarrow> shell \<Rightarrow> (i32 \<times> shell) res" where [stub_defs]:
  "builtin_time node s = Inr (0, say (''real 0m0.001s'' @ [CHR 0x0A]) s)"

definition builtin_xargs :: "ast_node \<Rightarrow> shell \<Rightarrow> (i32 \<times> shell) res" where [stub_defs]:
  "builtin_xargs node s = Inr (1, shell_print_error ''xargs: unsupported in this build'' s)"

definition builtin_find :: "ast_node \<Rightarrow> shell \<Rightarrow> (i32 \<times> shell) res" where [stub_defs]:
  "builtin_find node s = Inr (1, shell_print_error ''find: unsupported in this build'' s)"

definition builtin_sort :: "ast_node \<Rightarrow> shell \<Rightarrow> (i32 \<times> shell) res" where [stub_defs]:
  "builtin_sort node s = Inr (1, shell_print_error ''sort: unsupported in this build'' s)"

definition builtin_uniq :: "ast_node \<Rightarrow> shell \<Rightarrow> (i32 \<times> shell) res" where [stub_defs]:
  "builtin_uniq node s = Inr (1, shell_print_error ''uniq: unsupported in this build'' s)"

definition builtin_tr :: "ast_node \<Rightarrow> shell \<Rightarrow> (i32 \<times> shell) res" where [stub_defs]:
  "builtin_tr node s = Inr (1, shell_print_error ''tr: unsupported in this build'' s)"

definition builtin_cut :: "ast_node \<Rightarrow> shell \<Rightarrow> (i32 \<times> shell) res" where [stub_defs]:
  "builtin_cut node s = Inr (1, shell_print_error ''cut: unsupported in this build'' s)"

definition builtin_paste :: "ast_node \<Rightarrow> shell \<Rightarrow> (i32 \<times> shell) res" where [stub_defs]:
  "builtin_paste node s = Inr (1, shell_print_error ''paste: unsupported in this build'' s)"

definition builtin_join :: "ast_node \<Rightarrow> shell \<Rightarrow> (i32 \<times> shell) res" where [stub_defs]:
  "builtin_join node s = Inr (1, shell_print_error ''join: unsupported in this build'' s)"

definition builtin_comm :: "ast_node \<Rightarrow> shell \<Rightarrow> (i32 \<times> shell) res" where [stub_defs]:
  "builtin_comm node s = Inr (1, shell_print_error ''comm: unsupported in this build'' s)"

definition builtin_diff :: "ast_node \<Rightarrow> shell \<Rightarrow> (i32 \<times> shell) res" where [stub_defs]:
  "builtin_diff node s = Inr (1, shell_print_error ''diff: unsupported in this build'' s)"

definition builtin_patch :: "ast_node \<Rightarrow> shell \<Rightarrow> (i32 \<times> shell) res" where [stub_defs]:
  "builtin_patch node s = Inr (1, shell_print_error ''patch: unsupported in this build'' s)"

definition builtin_tar :: "ast_node \<Rightarrow> shell \<Rightarrow> (i32 \<times> shell) res" where [stub_defs]:
  "builtin_tar node s = Inr (1, shell_print_error ''tar: unsupported in this build'' s)"

definition builtin_gzip :: "ast_node \<Rightarrow> shell \<Rightarrow> (i32 \<times> shell) res" where [stub_defs]:
  "builtin_gzip node s = Inr (1, shell_print_error ''gzip: unsupported in this build'' s)"

definition builtin_gunzip :: "ast_node \<Rightarrow> shell \<Rightarrow> (i32 \<times> shell) res" where [stub_defs]:
  "builtin_gunzip node s = Inr (1, shell_print_error ''gunzip: unsupported in this build'' s)"

definition builtin_bzip2 :: "ast_node \<Rightarrow> shell \<Rightarrow> (i32 \<times> shell) res" where [stub_defs]:
  "builtin_bzip2 node s = Inr (1, shell_print_error ''bzip2: unsupported in this build'' s)"

definition builtin_xz :: "ast_node \<Rightarrow> shell \<Rightarrow> (i32 \<times> shell) res" where [stub_defs]:
  "builtin_xz node s = Inr (1, shell_print_error ''xz: unsupported in this build'' s)"

definition builtin_zip :: "ast_node \<Rightarrow> shell \<Rightarrow> (i32 \<times> shell) res" where [stub_defs]:
  "builtin_zip node s = Inr (1, shell_print_error ''zip: unsupported in this build'' s)"

definition builtin_unzip :: "ast_node \<Rightarrow> shell \<Rightarrow> (i32 \<times> shell) res" where [stub_defs]:
  "builtin_unzip node s = Inr (1, shell_print_error ''unzip: unsupported in this build'' s)"

definition builtin_ssh :: "ast_node \<Rightarrow> shell \<Rightarrow> (i32 \<times> shell) res" where [stub_defs]:
  "builtin_ssh node s = Inr (1, shell_print_error ''ssh: network not available'' s)"

definition builtin_scp :: "ast_node \<Rightarrow> shell \<Rightarrow> (i32 \<times> shell) res" where [stub_defs]:
  "builtin_scp node s = Inr (1, shell_print_error ''scp: network not available'' s)"

definition builtin_wget :: "ast_node \<Rightarrow> shell \<Rightarrow> (i32 \<times> shell) res" where [stub_defs]:
  "builtin_wget node s = Inr (1, shell_print_error ''wget: network not available'' s)"

definition builtin_curl :: "ast_node \<Rightarrow> shell \<Rightarrow> (i32 \<times> shell) res" where [stub_defs]:
  "builtin_curl node s = Inr (1, shell_print_error ''curl: network not available'' s)"

definition builtin_ping :: "ast_node \<Rightarrow> shell \<Rightarrow> (i32 \<times> shell) res" where [stub_defs]:
  "builtin_ping node s = Inr (1, shell_print_error ''ping: network not available'' s)"

definition builtin_ifconfig :: "ast_node \<Rightarrow> shell \<Rightarrow> (i32 \<times> shell) res" where [stub_defs]:
  "builtin_ifconfig node s = Inr (0, say (''eth0: flags=4163<UP,BROADCAST,RUNNING,MULTICAST>'' @ [CHR 0x0A]) s)"

definition builtin_route :: "ast_node \<Rightarrow> shell \<Rightarrow> (i32 \<times> shell) res" where [stub_defs]:
  "builtin_route node s = Inr (1, shell_print_error ''route: unsupported in this build'' s)"

definition builtin_netstat :: "ast_node \<Rightarrow> shell \<Rightarrow> (i32 \<times> shell) res" where [stub_defs]:
  "builtin_netstat node s = Inr (1, shell_print_error ''netstat: unsupported in this build'' s)"

definition builtin_ss :: "ast_node \<Rightarrow> shell \<Rightarrow> (i32 \<times> shell) res" where [stub_defs]:
  "builtin_ss node s = Inr (1, shell_print_error ''ss: unsupported in this build'' s)"

definition builtin_iptables :: "ast_node \<Rightarrow> shell \<Rightarrow> (i32 \<times> shell) res" where [stub_defs]:
  "builtin_iptables node s = Inr (1, shell_print_error ''iptables: unsupported in this build'' s)"

definition builtin_systemctl :: "ast_node \<Rightarrow> shell \<Rightarrow> (i32 \<times> shell) res" where [stub_defs]:
  "builtin_systemctl node s = Inr (1, shell_print_error ''systemctl: unsupported in this build'' s)"

definition builtin_service :: "ast_node \<Rightarrow> shell \<Rightarrow> (i32 \<times> shell) res" where [stub_defs]:
  "builtin_service node s = Inr (1, shell_print_error ''service: unsupported in this build'' s)"

definition builtin_journalctl :: "ast_node \<Rightarrow> shell \<Rightarrow> (i32 \<times> shell) res" where [stub_defs]:
  "builtin_journalctl node s = Inr (1, shell_print_error ''journalctl: unsupported in this build'' s)"

definition builtin_dmesg :: "ast_node \<Rightarrow> shell \<Rightarrow> (i32 \<times> shell) res" where [stub_defs]:
  "builtin_dmesg node s = Inr (0, say (''[    0.000000] Command line: BOOT_IMAGE=/boot/kernel.elf'' @ [CHR 0x0A]) (say (''[    0.000000] MiraOS 1.0.0 x86_64'' @ [CHR 0x0A]) s))"

definition builtin_logger :: "ast_node \<Rightarrow> shell \<Rightarrow> (i32 \<times> shell) res" where [stub_defs]:
  "builtin_logger node s = Inr (1, shell_print_error ''logger: unsupported in this build'' s)"

definition builtin_wall :: "ast_node \<Rightarrow> shell \<Rightarrow> (i32 \<times> shell) res" where [stub_defs]:
  "builtin_wall node s = Inr (1, shell_print_error ''wall: unsupported in this build'' s)"

definition builtin_write :: "ast_node \<Rightarrow> shell \<Rightarrow> (i32 \<times> shell) res" where [stub_defs]:
  "builtin_write node s = Inr (1, shell_print_error ''write: unsupported in this build'' s)"

definition builtin_tee :: "ast_node \<Rightarrow> shell \<Rightarrow> (i32 \<times> shell) res" where [stub_defs]:
  "builtin_tee node s = Inr (1, shell_print_error ''tee: unsupported in this build'' s)"

definition builtin_less :: "ast_node \<Rightarrow> shell \<Rightarrow> (i32 \<times> shell) res" where [stub_defs]:
  "builtin_less node s = Inr (1, shell_print_error ''less: unsupported in this build'' s)"

definition builtin_more :: "ast_node \<Rightarrow> shell \<Rightarrow> (i32 \<times> shell) res" where [stub_defs]:
  "builtin_more node s = Inr (1, shell_print_error ''more: unsupported in this build'' s)"

definition builtin_vi :: "ast_node \<Rightarrow> shell \<Rightarrow> (i32 \<times> shell) res" where [stub_defs]:
  "builtin_vi node s = Inr (1, shell_print_error ''vi: unsupported in this build'' s)"

definition builtin_nano :: "ast_node \<Rightarrow> shell \<Rightarrow> (i32 \<times> shell) res" where [stub_defs]:
  "builtin_nano node s = Inr (1, shell_print_error ''nano: unsupported in this build'' s)"

definition builtin_emacs :: "ast_node \<Rightarrow> shell \<Rightarrow> (i32 \<times> shell) res" where [stub_defs]:
  "builtin_emacs node s = Inr (1, shell_print_error ''emacs: unsupported in this build'' s)"

definition builtin_vim :: "ast_node \<Rightarrow> shell \<Rightarrow> (i32 \<times> shell) res" where [stub_defs]:
  "builtin_vim node s = Inr (1, shell_print_error ''vim: unsupported in this build'' s)"

definition builtin_gcc :: "ast_node \<Rightarrow> shell \<Rightarrow> (i32 \<times> shell) res" where [stub_defs]:
  "builtin_gcc node s = Inr (1, shell_print_error ''gcc: unsupported in this build'' s)"

definition builtin_make :: "ast_node \<Rightarrow> shell \<Rightarrow> (i32 \<times> shell) res" where [stub_defs]:
  "builtin_make node s = Inr (1, shell_print_error ''make: unsupported in this build'' s)"

definition builtin_git :: "ast_node \<Rightarrow> shell \<Rightarrow> (i32 \<times> shell) res" where [stub_defs]:
  "builtin_git node s = Inr (1, shell_print_error ''git: unsupported in this build'' s)"

definition builtin_python :: "ast_node \<Rightarrow> shell \<Rightarrow> (i32 \<times> shell) res" where [stub_defs]:
  "builtin_python node s = Inr (1, shell_print_error ''python: unsupported in this build'' s)"

definition builtin_perl :: "ast_node \<Rightarrow> shell \<Rightarrow> (i32 \<times> shell) res" where [stub_defs]:
  "builtin_perl node s = Inr (1, shell_print_error ''perl: unsupported in this build'' s)"

definition builtin_ruby :: "ast_node \<Rightarrow> shell \<Rightarrow> (i32 \<times> shell) res" where [stub_defs]:
  "builtin_ruby node s = Inr (1, shell_print_error ''ruby: unsupported in this build'' s)"

definition builtin_node :: "ast_node \<Rightarrow> shell \<Rightarrow> (i32 \<times> shell) res" where [stub_defs]:
  "builtin_node node s = Inr (1, shell_print_error ''node: unsupported in this build'' s)"

definition builtin_rustc :: "ast_node \<Rightarrow> shell \<Rightarrow> (i32 \<times> shell) res" where [stub_defs]:
  "builtin_rustc node s = Inr (1, shell_print_error ''rustc: unsupported in this build'' s)"

definition builtin_go :: "ast_node \<Rightarrow> shell \<Rightarrow> (i32 \<times> shell) res" where [stub_defs]:
  "builtin_go node s = Inr (1, shell_print_error ''go: unsupported in this build'' s)"

definition builtin_zig :: "ast_node \<Rightarrow> shell \<Rightarrow> (i32 \<times> shell) res" where [stub_defs]:
  "builtin_zig node s = Inr (1, shell_print_error ''zig: unsupported in this build'' s)"

definition builtin_docker :: "ast_node \<Rightarrow> shell \<Rightarrow> (i32 \<times> shell) res" where [stub_defs]:
  "builtin_docker node s = Inr (1, shell_print_error ''docker: unsupported in this build'' s)"

definition builtin_kubectl :: "ast_node \<Rightarrow> shell \<Rightarrow> (i32 \<times> shell) res" where [stub_defs]:
  "builtin_kubectl node s = Inr (1, shell_print_error ''kubectl: unsupported in this build'' s)"

definition builtin_helm :: "ast_node \<Rightarrow> shell \<Rightarrow> (i32 \<times> shell) res" where [stub_defs]:
  "builtin_helm node s = Inr (1, shell_print_error ''helm: unsupported in this build'' s)"

definition builtin_terraform :: "ast_node \<Rightarrow> shell \<Rightarrow> (i32 \<times> shell) res" where [stub_defs]:
  "builtin_terraform node s = Inr (1, shell_print_error ''terraform: unsupported in this build'' s)"

definition builtin_ansible :: "ast_node \<Rightarrow> shell \<Rightarrow> (i32 \<times> shell) res" where [stub_defs]:
  "builtin_ansible node s = Inr (1, shell_print_error ''ansible: unsupported in this build'' s)"

definition builtin_puppet :: "ast_node \<Rightarrow> shell \<Rightarrow> (i32 \<times> shell) res" where [stub_defs]:
  "builtin_puppet node s = Inr (1, shell_print_error ''puppet: unsupported in this build'' s)"

definition builtin_chef :: "ast_node \<Rightarrow> shell \<Rightarrow> (i32 \<times> shell) res" where [stub_defs]:
  "builtin_chef node s = Inr (1, shell_print_error ''chef: unsupported in this build'' s)"

definition builtin_salt :: "ast_node \<Rightarrow> shell \<Rightarrow> (i32 \<times> shell) res" where [stub_defs]:
  "builtin_salt node s = Inr (1, shell_print_error ''salt: unsupported in this build'' s)"

definition builtin_vagrant :: "ast_node \<Rightarrow> shell \<Rightarrow> (i32 \<times> shell) res" where [stub_defs]:
  "builtin_vagrant node s = Inr (1, shell_print_error ''vagrant: unsupported in this build'' s)"

definition builtin_virtualbox :: "ast_node \<Rightarrow> shell \<Rightarrow> (i32 \<times> shell) res" where [stub_defs]:
  "builtin_virtualbox node s = Inr (1, shell_print_error ''virtualbox: unsupported in this build'' s)"

definition builtin_qemu :: "ast_node \<Rightarrow> shell \<Rightarrow> (i32 \<times> shell) res" where [stub_defs]:
  "builtin_qemu node s = Inr (1, shell_print_error ''qemu: unsupported in this build'' s)"

definition builtin_vmware :: "ast_node \<Rightarrow> shell \<Rightarrow> (i32 \<times> shell) res" where [stub_defs]:
  "builtin_vmware node s = Inr (1, shell_print_error ''vmware: unsupported in this build'' s)"

definition builtin_parallel :: "ast_node \<Rightarrow> shell \<Rightarrow> (i32 \<times> shell) res" where [stub_defs]:
  "builtin_parallel node s = Inr (1, shell_print_error ''parallel: unsupported in this build'' s)"

definition builtin_nice :: "ast_node \<Rightarrow> shell \<Rightarrow> (i32 \<times> shell) res" where [stub_defs]:
  "builtin_nice node s = Inr (1, s)"

definition builtin_renice :: "ast_node \<Rightarrow> shell \<Rightarrow> (i32 \<times> shell) res" where [stub_defs]:
  "builtin_renice node s = Inr (1, s)"

definition builtin_pgrep :: "ast_node \<Rightarrow> shell \<Rightarrow> (i32 \<times> shell) res" where [stub_defs]:
  "builtin_pgrep node s = Inr (1, s)"

definition builtin_pkill :: "ast_node \<Rightarrow> shell \<Rightarrow> (i32 \<times> shell) res" where [stub_defs]:
  "builtin_pkill node s = Inr (1, s)"

definition builtin_top :: "ast_node \<Rightarrow> shell \<Rightarrow> (i32 \<times> shell) res" where [stub_defs]:
  "builtin_top node s = Inr (1, shell_print_error ''top: unsupported in this build'' s)"

definition builtin_htop :: "ast_node \<Rightarrow> shell \<Rightarrow> (i32 \<times> shell) res" where [stub_defs]:
  "builtin_htop node s = Inr (1, shell_print_error ''htop: unsupported in this build'' s)"

definition builtin_free :: "ast_node \<Rightarrow> shell \<Rightarrow> (i32 \<times> shell) res" where [stub_defs]:
  "builtin_free node s = Inr (0, say (''Mem:        256000      128000      128000           0          0      128000'' @ [CHR 0x0A]) (say (''              total        used        free      shared  buff/cache   available'' @ [CHR 0x0A]) s))"

definition builtin_vmstat :: "ast_node \<Rightarrow> shell \<Rightarrow> (i32 \<times> shell) res" where [stub_defs]:
  "builtin_vmstat node s = Inr (1, shell_print_error ''vmstat: unsupported in this build'' s)"

definition builtin_iostat :: "ast_node \<Rightarrow> shell \<Rightarrow> (i32 \<times> shell) res" where [stub_defs]:
  "builtin_iostat node s = Inr (1, shell_print_error ''iostat: unsupported in this build'' s)"

definition builtin_mpstat :: "ast_node \<Rightarrow> shell \<Rightarrow> (i32 \<times> shell) res" where [stub_defs]:
  "builtin_mpstat node s = Inr (1, shell_print_error ''mpstat: unsupported in this build'' s)"

definition builtin_sar :: "ast_node \<Rightarrow> shell \<Rightarrow> (i32 \<times> shell) res" where [stub_defs]:
  "builtin_sar node s = Inr (1, shell_print_error ''sar: unsupported in this build'' s)"

definition builtin_strace :: "ast_node \<Rightarrow> shell \<Rightarrow> (i32 \<times> shell) res" where [stub_defs]:
  "builtin_strace node s = Inr (1, shell_print_error ''strace: unsupported in this build'' s)"

definition builtin_ltrace :: "ast_node \<Rightarrow> shell \<Rightarrow> (i32 \<times> shell) res" where [stub_defs]:
  "builtin_ltrace node s = Inr (1, shell_print_error ''ltrace: unsupported in this build'' s)"

definition builtin_gdb :: "ast_node \<Rightarrow> shell \<Rightarrow> (i32 \<times> shell) res" where [stub_defs]:
  "builtin_gdb node s = Inr (1, shell_print_error ''gdb: unsupported in this build'' s)"

definition builtin_valgrind :: "ast_node \<Rightarrow> shell \<Rightarrow> (i32 \<times> shell) res" where [stub_defs]:
  "builtin_valgrind node s = Inr (1, shell_print_error ''valgrind: unsupported in this build'' s)"

definition builtin_perf :: "ast_node \<Rightarrow> shell \<Rightarrow> (i32 \<times> shell) res" where [stub_defs]:
  "builtin_perf node s = Inr (1, shell_print_error ''perf: unsupported in this build'' s)"

definition builtin_sysctl :: "ast_node \<Rightarrow> shell \<Rightarrow> (i32 \<times> shell) res" where [stub_defs]:
  "builtin_sysctl node s = Inr (1, shell_print_error ''sysctl: unsupported in this build'' s)"

definition builtin_modprobe :: "ast_node \<Rightarrow> shell \<Rightarrow> (i32 \<times> shell) res" where [stub_defs]:
  "builtin_modprobe node s = Inr (1, shell_print_error ''modprobe: unsupported in this build'' s)"

definition builtin_insmod :: "ast_node \<Rightarrow> shell \<Rightarrow> (i32 \<times> shell) res" where [stub_defs]:
  "builtin_insmod node s = Inr (1, shell_print_error ''insmod: unsupported in this build'' s)"

definition builtin_rmmod :: "ast_node \<Rightarrow> shell \<Rightarrow> (i32 \<times> shell) res" where [stub_defs]:
  "builtin_rmmod node s = Inr (1, shell_print_error ''rmmod: unsupported in this build'' s)"

definition builtin_lsmod :: "ast_node \<Rightarrow> shell \<Rightarrow> (i32 \<times> shell) res" where [stub_defs]:
  "builtin_lsmod node s = Inr (0, say (''Module                  Size  Used by'' @ [CHR 0x0A]) s)"

definition builtin_lspci :: "ast_node \<Rightarrow> shell \<Rightarrow> (i32 \<times> shell) res" where [stub_defs]:
  "builtin_lspci node s = Inr (0, say (''00:00.0 Host bridge: Intel Corporation 440FX - 82441FX PMC [Natoma]'' @ [CHR 0x0A]) s)"

definition builtin_lsusb :: "ast_node \<Rightarrow> shell \<Rightarrow> (i32 \<times> shell) res" where [stub_defs]:
  "builtin_lsusb node s = Inr (0, say (''Bus 001 Device 001: ID 1d6b:0001 Linux Foundation 1.1 root hub'' @ [CHR 0x0A]) s)"

definition builtin_lsblk :: "ast_node \<Rightarrow> shell \<Rightarrow> (i32 \<times> shell) res" where [stub_defs]:
  "builtin_lsblk node s = Inr (0, say (''sr0     11:0    1  1024M  0 rom  '' @ [CHR 0x0A]) (say (''NAME   MAJ:MIN RM  SIZE RO TYPE MOUNTPOINT'' @ [CHR 0x0A]) s))"

definition builtin_fdisk :: "ast_node \<Rightarrow> shell \<Rightarrow> (i32 \<times> shell) res" where [stub_defs]:
  "builtin_fdisk node s = Inr (1, shell_print_error ''fdisk: unsupported in this build'' s)"

definition builtin_partprobe :: "ast_node \<Rightarrow> shell \<Rightarrow> (i32 \<times> shell) res" where [stub_defs]:
  "builtin_partprobe node s = Inr (0, s)"

definition builtin_mkfs :: "ast_node \<Rightarrow> shell \<Rightarrow> (i32 \<times> shell) res" where [stub_defs]:
  "builtin_mkfs node s = Inr (1, shell_print_error ''mkfs: unsupported in this build'' s)"

definition builtin_fsck :: "ast_node \<Rightarrow> shell \<Rightarrow> (i32 \<times> shell) res" where [stub_defs]:
  "builtin_fsck node s = Inr (1, shell_print_error ''fsck: unsupported in this build'' s)"

definition builtin_dd :: "ast_node \<Rightarrow> shell \<Rightarrow> (i32 \<times> shell) res" where [stub_defs]:
  "builtin_dd node s = Inr (1, shell_print_error ''dd: unsupported in this build'' s)"

definition builtin_mkswap :: "ast_node \<Rightarrow> shell \<Rightarrow> (i32 \<times> shell) res" where [stub_defs]:
  "builtin_mkswap node s = Inr (1, shell_print_error ''mkswap: unsupported in this build'' s)"

definition builtin_swapon :: "ast_node \<Rightarrow> shell \<Rightarrow> (i32 \<times> shell) res" where [stub_defs]:
  "builtin_swapon node s = Inr (1, shell_print_error ''swapon: unsupported in this build'' s)"

definition builtin_swapoff :: "ast_node \<Rightarrow> shell \<Rightarrow> (i32 \<times> shell) res" where [stub_defs]:
  "builtin_swapoff node s = Inr (1, shell_print_error ''swapoff: unsupported in this build'' s)"

definition builtin_brctl :: "ast_node \<Rightarrow> shell \<Rightarrow> (i32 \<times> shell) res" where [stub_defs]:
  "builtin_brctl node s = Inr (1, shell_print_error ''brctl: unsupported in this build'' s)"

definition builtin_ip :: "ast_node \<Rightarrow> shell \<Rightarrow> (i32 \<times> shell) res" where [stub_defs]:
  "builtin_ip node s = Inr (1, shell_print_error ''ip: unsupported in this build'' s)"

definition builtin_ifup :: "ast_node \<Rightarrow> shell \<Rightarrow> (i32 \<times> shell) res" where [stub_defs]:
  "builtin_ifup node s = Inr (1, shell_print_error ''ifup: unsupported in this build'' s)"

definition builtin_ifdown :: "ast_node \<Rightarrow> shell \<Rightarrow> (i32 \<times> shell) res" where [stub_defs]:
  "builtin_ifdown node s = Inr (1, shell_print_error ''ifdown: unsupported in this build'' s)"

definition builtin_host :: "ast_node \<Rightarrow> shell \<Rightarrow> (i32 \<times> shell) res" where [stub_defs]:
  "builtin_host node s = Inr (1, shell_print_error ''host: unsupported in this build'' s)"

definition builtin_dig :: "ast_node \<Rightarrow> shell \<Rightarrow> (i32 \<times> shell) res" where [stub_defs]:
  "builtin_dig node s = Inr (1, shell_print_error ''dig: unsupported in this build'' s)"

definition builtin_nslookup :: "ast_node \<Rightarrow> shell \<Rightarrow> (i32 \<times> shell) res" where [stub_defs]:
  "builtin_nslookup node s = Inr (1, shell_print_error ''nslookup: unsupported in this build'' s)"

definition builtin_traceroute :: "ast_node \<Rightarrow> shell \<Rightarrow> (i32 \<times> shell) res" where [stub_defs]:
  "builtin_traceroute node s = Inr (1, shell_print_error ''traceroute: unsupported in this build'' s)"

definition builtin_mtr :: "ast_node \<Rightarrow> shell \<Rightarrow> (i32 \<times> shell) res" where [stub_defs]:
  "builtin_mtr node s = Inr (1, shell_print_error ''mtr: unsupported in this build'' s)"

definition builtin_tcpdump :: "ast_node \<Rightarrow> shell \<Rightarrow> (i32 \<times> shell) res" where [stub_defs]:
  "builtin_tcpdump node s = Inr (1, shell_print_error ''tcpdump: unsupported in this build'' s)"

definition builtin_wireshark :: "ast_node \<Rightarrow> shell \<Rightarrow> (i32 \<times> shell) res" where [stub_defs]:
  "builtin_wireshark node s = Inr (1, shell_print_error ''wireshark: unsupported in this build'' s)"

definition builtin_tshark :: "ast_node \<Rightarrow> shell \<Rightarrow> (i32 \<times> shell) res" where [stub_defs]:
  "builtin_tshark node s = Inr (1, shell_print_error ''tshark: unsupported in this build'' s)"

definition builtin_nmap :: "ast_node \<Rightarrow> shell \<Rightarrow> (i32 \<times> shell) res" where [stub_defs]:
  "builtin_nmap node s = Inr (1, shell_print_error ''nmap: unsupported in this build'' s)"

definition builtin_netcat :: "ast_node \<Rightarrow> shell \<Rightarrow> (i32 \<times> shell) res" where [stub_defs]:
  "builtin_netcat node s = Inr (1, shell_print_error ''netcat: unsupported in this build'' s)"

definition builtin_socat :: "ast_node \<Rightarrow> shell \<Rightarrow> (i32 \<times> shell) res" where [stub_defs]:
  "builtin_socat node s = Inr (1, shell_print_error ''socat: unsupported in this build'' s)"

definition builtin_screen :: "ast_node \<Rightarrow> shell \<Rightarrow> (i32 \<times> shell) res" where [stub_defs]:
  "builtin_screen node s = Inr (1, shell_print_error ''screen: unsupported in this build'' s)"

definition builtin_tmux :: "ast_node \<Rightarrow> shell \<Rightarrow> (i32 \<times> shell) res" where [stub_defs]:
  "builtin_tmux node s = Inr (1, shell_print_error ''tmux: unsupported in this build'' s)"

definition builtin_byobu :: "ast_node \<Rightarrow> shell \<Rightarrow> (i32 \<times> shell) res" where [stub_defs]:
  "builtin_byobu node s = Inr (1, shell_print_error ''byobu: unsupported in this build'' s)"

definition builtin_dbus :: "ast_node \<Rightarrow> shell \<Rightarrow> (i32 \<times> shell) res" where [stub_defs]:
  "builtin_dbus node s = Inr (1, shell_print_error ''dbus: unsupported in this build'' s)"

definition builtin_systemd :: "ast_node \<Rightarrow> shell \<Rightarrow> (i32 \<times> shell) res" where [stub_defs]:
  "builtin_systemd node s = Inr (1, shell_print_error ''systemd: unsupported in this build'' s)"

end
