(* ===== verification/Mira_Shell_Ui.thy ===== *)
theory Mira_Shell_Ui
  imports Mira_Shell_Env
begin

text \<open>
  The desktop of the shell, \<open>ui/shell.c\<close>: placing the widgets and drawing the background,
  the status bar and the content as sequences of graphics calls. Coordinates are unsigned
  32-bit values that wrap.
\<close>

definition SHELL_SIDEBAR_W :: u32 where "SHELL_SIDEBAR_W = 212"
definition SHELL_DOCK_H :: u32 where "SHELL_DOCK_H = 58"
definition SHELL_TOP_H :: u32 where "SHELL_TOP_H = 46"

definition draw :: "gfx_op list \<Rightarrow> shell \<Rightarrow> shell" where "draw ops s = s\<lparr>gfx := gfx s @ ops\<rparr>"

section \<open>Layout\<close>

text \<open>A button of the sidebar at the given height; the pointer position does not matter.\<close>

definition side_button :: "u32 \<Rightarrow> string \<Rightarrow> ui_button" where
  "side_button y label = \<lparr>bt_bounds = \<lparr>rect_x = 16, rect_y = y, rect_w = SHELL_SIDEBAR_W - 32, rect_h = 32\<rparr>,
     bt_fill = 0xFF75C8, bt_border = 0xFFFFFF, bt_text_color = 0xFFFFFF, bt_label = Some label, bt_pressed = False\<rparr>"

definition shell_layout :: "shell \<Rightarrow> shell" where
  "shell_layout s =
     (if \<not> fb_ready s then s
      else let sw = fb_width s; sh = fb_height s; top = SHELL_TOP_H; bottom = SHELL_DOCK_H; u = ui s
           in s\<lparr>ui := u\<lparr>
                sidebar_panel := \<lparr>pn_bounds = \<lparr>rect_x = 0, rect_y = top, rect_w = SHELL_SIDEBAR_W, rect_h = sh - top - bottom\<rparr>,
                  pn_fill = 0xFFD1EA, pn_border = 0xFF5DB8, pn_title_bg = 0xFF8AD8, pn_title = Some ''Sweet Apps''\<rparr>,
                main_panel := \<lparr>pn_bounds = \<lparr>rect_x = SHELL_SIDEBAR_W + 12, rect_y = top + 12, rect_w = sw - SHELL_SIDEBAR_W - 24,
                    rect_h = sh - top - bottom - 24\<rparr>,
                  pn_fill = 0xFFE3F2, pn_border = 0xFF4FB3, pn_title_bg = 0xFF9EDD, pn_title = Some ''Dream Desktop''\<rparr>,
                btn_clear := side_button (top + 40) ''Clean'',
                btn_about := side_button (top + 80) ''About'',
                btn_files := side_button (top + 120) ''Files'',
                btn_style := side_button (top + 160) ''Style'',
                cmd_field := (cmd_field u)\<lparr>
                  tf_bounds := \<lparr>rect_x = 16, rect_y = sh - bottom + 8, rect_w = sw - 32, rect_h = 32\<rparr>,
                  tf_fill := 0xFFF5FB, tf_border := 0xFF75C8, tf_text_color := 0x9B005D, tf_buffer := Some (cmd_buf u),
                  tf_buflen := 256, tf_focused := True\<rparr>\<rparr>\<rparr>)"

section \<open>Drawing\<close>

definition shell_draw_statusbar :: "shell \<Rightarrow> shell" where
  "shell_draw_statusbar s =
     (let s1 = draw [Draw_rect 0 0 (fb_width s) SHELL_TOP_H 0xFF6FBC, Draw_rect 0 (SHELL_TOP_H - 6) (fb_width s) 6 0xFFC3E6,
                     Draw_text 16 14 ''MiraOS  *  Rose Shell'' 0xFFFFFF 0xFF6FBC] s;
          (t, s2) = timer_ticks s1;
          tickbuf = ''t='' @ (if t = 0 then ''0'' else rev (tmp_digits (unat t)))
      in draw [Draw_text (fb_width s - 116) 14 tickbuf 0xFFFFFF 0xFF6FBC] s2)"

definition band_color :: "u64 \<Rightarrow> u32 \<Rightarrow> u32" where
  "band_color t y =
     (let band = (y + ucast (t AND 63)) AND 127
      in if band < 42 then 0xFFEAF6 else if band < 84 then 0xFFD4EC else 0xFFF8FC)"

definition shell_draw_fluid_background :: "shell \<Rightarrow> shell" where
  "shell_draw_fluid_background s =
     (let (t, s1) = timer_ticks s;
          rows = map (\<lambda>y. Draw_rect 0 (word_of_nat y) (fb_width s) 1 (band_color t (word_of_nat y))) [0..<unat (fb_height s)];
          w = (if fb_width s \<noteq> 0 then fb_width s else 1);
          h = (if fb_height s \<noteq> 0 then fb_height s else 1);
          a = ucast (t mod ucast w) :: u32;
          b = ucast ((t * 2 + 120) mod ucast w) :: u32
      in draw (rows @
           [Draw_circle a (120 + ucast (t mod ucast (h div 3 + 1))) 96 0xFFC1E1 True,
            Draw_circle b (if h > 160 then h - 130 else h div 2) 124 0xFF9EDD True,
            Draw_circle ((a + b) div 2) (h div 2) 72 0xFFF7B8 True]) s1)"

definition shell_draw_sparkle :: "u32 \<Rightarrow> u32 \<Rightarrow> u32 \<Rightarrow> shell \<Rightarrow> shell" where
  "shell_draw_sparkle x y color s =
     draw [Draw_line x (y - 6) x (y + 6) color, Draw_line (x - 6) y (x + 6) y color,
           Draw_line (x - 4) (y - 4) (x + 4) (y + 4) color, Draw_line (x - 4) (y + 4) (x + 4) (y - 4) color] s"

definition draw_card :: "u32 \<Rightarrow> u32 \<Rightarrow> nat \<Rightarrow> string \<Rightarrow> gfx_op list" where
  "draw_card cx cy i label =
     (let x = cx + word_of_nat i * 154; y = cy + 124; bg = (if i = 1 then 0xFFF7B8 else 0xFFF5FB)
      in [Draw_rect (x + 4) (y + 6) 136 88 0xECA7CF, Draw_rect x y 136 88 bg, Draw_outline x y 136 88 0xFF75C8 2,
          Draw_circle (x + 28) (y + 30) 14 0xFF75C8 True, Draw_text (x + 18) (y + 58) label 0x9B005D bg])"

definition shell_draw_main_content :: "shell \<Rightarrow> shell" where
  "shell_draw_main_content s =
     (let p = main_panel (ui s); b = pn_bounds p; bg = pn_fill p; cx = rect_x b + 16; cy = rect_y b + 32;
          s1 = draw [Draw_text cx cy ''MiraOS Pink Edition'' 0x9B005D bg,
                     Draw_text cx (cy + 24) ''A soft desktop shell with fluid motion, dock, apps and sparkle UI.'' 0xB8006E bg] s;
          s2 = shell_draw_sparkle (rect_x b + rect_w b - 38) (cy + 12) 0xFF4FB3 s1;
          (t, s3) = timer_ticks s2;
          uptime = ''Uptime: '' @ (if t = 0 then ''0'' else rev (tmp_digits (unat t)));
          dims = ''Framebuffer: '' @ int_to_str (fb_width s) @ ''x'' @ int_to_str (fb_height s)
      in draw ([Draw_text cx (cy + 56) uptime 0xE40087 bg, Draw_text cx (cy + 88) dims 0x9B005D bg] @
               draw_card cx cy 0 ''Notes'' @ draw_card cx cy 1 ''Photos'' @ draw_card cx cy 2 ''Terminal'') s3)"

definition shell_render :: "shell \<Rightarrow> shell" where
  "shell_render s =
     (if \<not> fb_ready s then s
      else let s1 = shell_layout s;
               s2 = shell_draw_statusbar (shell_draw_fluid_background s1);
               u = ui s2;
               s3 = draw (ui_panel_draw (sidebar_panel u) @ ui_panel_draw (main_panel u) @ ui_button_draw (btn_clear u) @
                      ui_button_draw (btn_about u) @ ui_button_draw (btn_files u) @ ui_button_draw (btn_style u)) s2;
               s4 = shell_draw_main_content s3;
               s5 = draw (ui_textfield_draw (cmd_field (ui s4)) @
                      [Draw_rect 0 (fb_height s - SHELL_DOCK_H) (fb_width s) SHELL_DOCK_H 0xFFB6DE,
                       Draw_rect 0 (fb_height s - SHELL_DOCK_H) (fb_width s) 4 0xFFFFFF,
                       Draw_text 16 (fb_height s - 42)
                         ''Type a command, press Enter.  Backspace edits.  Pink dock is always alive.'' 0x9B005D 0xFFB6DE]) s4
           in s5\<lparr>ui := (ui s5)\<lparr>dirty := False\<rparr>\<rparr>)"

definition shell_dirty :: "shell \<Rightarrow> bool" where "shell_dirty s \<longleftrightarrow> dirty (ui s) \<or> input_dirty (sh_input s)"

definition shell_clear_dirty :: "shell \<Rightarrow> shell" where
  "shell_clear_dirty s = s\<lparr>ui := (ui s)\<lparr>dirty := False\<rparr>, sh_input := input_clear_dirty (sh_input s)\<rparr>"

section \<open>Properties\<close>

text \<open>Drawing leaves the tables, the file system, the keyboard and the input line alone.\<close>

definition same_tables :: "shell \<Rightarrow> shell \<Rightarrow> bool" where
  "same_tables s s' \<longleftrightarrow> global_vars s' = global_vars s \<and> global_aliases s' = global_aliases s \<and>
     global_functions s' = global_functions s \<and> global_jobs s' = global_jobs s \<and> global_history s' = global_history s \<and>
     fs s' = fs s \<and> sh_ctx s' = sh_ctx s \<and> sh_kbd s' = sh_kbd s \<and> sh_input s' = sh_input s"

lemma draw_tables [kernel_frame]: "same_tables s (draw ops s)"
  by (simp add: same_tables_def draw_def)

lemma background_tables [kernel_frame]: "same_tables s (shell_draw_fluid_background s)"
  by (simp add: same_tables_def shell_draw_fluid_background_def draw_def timer_ticks_def Let_def)

lemma layout_tables [kernel_frame]: "same_tables s (shell_layout s)"
  by (simp add: same_tables_def shell_layout_def Let_def)

lemma same_tables_trans: "same_tables s t \<Longrightarrow> same_tables t u \<Longrightarrow> same_tables s u"
  by (simp add: same_tables_def)

lemma statusbar_tables [kernel_frame]: "same_tables s (shell_draw_statusbar s)"
  by (simp add: same_tables_def shell_draw_statusbar_def draw_def timer_ticks_def Let_def)

lemma content_tables [kernel_frame]: "same_tables s (shell_draw_main_content s)"
  by (simp add: same_tables_def shell_draw_main_content_def shell_draw_sparkle_def draw_def timer_ticks_def Let_def)

lemma dirty_tables [kernel_frame]: "same_tables s (s\<lparr>ui := u\<rparr>)"
  by (simp add: same_tables_def)

lemma render_tables [kernel_frame]: "same_tables s (shell_render s)"
proof (cases "fb_ready s")
  case True
  then show ?thesis
    unfolding shell_render_def Let_def
    by (simp only: simp_thms if_False) (intro same_tables_trans [OF _ dirty_tables] same_tables_trans [OF _ draw_tables]
        same_tables_trans [OF _ content_tables] same_tables_trans [OF _ statusbar_tables] same_tables_trans [OF _ background_tables]
        layout_tables)
qed (simp add: shell_render_def same_tables_def)

text \<open>
  On a screen of at least 800 by 600 pixels the main panel ends 12 pixels before the right
  edge: none of the subtractions wraps.
\<close>

lemma layout_on_screen:
  assumes "fb_ready s" "800 \<le> fb_width s" "600 \<le> fb_height s"
  shows "unat (rect_x (pn_bounds (main_panel (ui (shell_layout s))))) +
      unat (rect_w (pn_bounds (main_panel (ui (shell_layout s))))) = unat (fb_width s) - 12"
proof -
  have "236 \<le> fb_width s" using assms(2) by (simp add: word_le_nat_alt)
  then have "unat (fb_width s - 236) = unat (fb_width s) - 236" by (simp add: unat_sub)
  moreover have "fb_width s - SHELL_SIDEBAR_W - 24 = fb_width s - 236" by (simp add: SHELL_SIDEBAR_W_def)
  ultimately show ?thesis using assms by (simp add: shell_layout_def Let_def SHELL_SIDEBAR_W_def word_le_nat_alt)
qed

end
