(* ===== verification/Mira_Shell_Builtins.thy ===== *)
theory Mira_Shell_Builtins
  imports Mira_Shell_Stubs Mira_Shell_Ui
begin

text \<open>
  The builtin commands of \<open>ui/shell.c\<close> that change the state of the shell or inspect it. A
  handler takes the command node and returns its exit status; one that waits takes fuel, and
  one that reads the table of builtins takes the names and descriptions in it. Local buffers
  that a long argument overruns are faults.
\<close>

definition args :: "ast_node \<Rightarrow> string list" where "args node = cmd_args (node_cmd node)"

definition fits :: "nat \<Rightarrow> string \<Rightarrow> string res" where
  "fits k buf = (if length buf < k then Inr buf else Inl OutOfBounds)"

section \<open>Output, directories and variables\<close>

fun echo_chars :: "string \<Rightarrow> shell \<Rightarrow> shell" where
  "echo_chars [] s = s"
| "echo_chars [c] s = sayc c s"
| "echo_chars (c # d # r) s =
     (if c = CHR 0x5C
      then echo_chars r (if d = CHR ''n'' then sayc (CHR 0x0A) s else if d = CHR ''t'' then sayc (CHR 0x09) s
                         else if d = CHR 0x5C then sayc (CHR 0x5C) s else sayc d s)
      else echo_chars (d # r) (sayc c s))"

primrec echo_args :: "string list \<Rightarrow> shell \<Rightarrow> shell res" where
  "echo_args [] s = Inr s"
| "echo_args (a # as) s =
     bindR (shell_resolve_variables a s) (\<lambda>r.
       let s1 = echo_chars r s in echo_args as (if as \<noteq> [] then sayc (CHR '' '') s1 else s1))"

definition builtin_echo :: "ast_node \<Rightarrow> shell \<Rightarrow> (i32 \<times> shell) res" where
  "builtin_echo node s =
     (let no_newline = (length (args node) > 1 \<and> args node ! 1 = ''-n''); start = (if no_newline then 2 else 1)
      in bindR (echo_args (drop start (args node)) s) (\<lambda>s1.
           Inr (0, if no_newline then s1 else sayc (CHR 0x0A) s1)))"

definition builtin_cd :: "ast_node \<Rightarrow> shell \<Rightarrow> (i32 \<times> shell) res" where
  "builtin_cd node s =
     (let path = (if length (args node) > 1 then args node ! 1 else shell_get_variable ''HOME'' s)
      in bindR (shell_resolve_variables path s) (\<lambda>resolved.
         bindR (fits 256 resolved) (\<lambda>dir.
         bindR (shell_set_variable ''PWD'' dir (s\<lparr>sh_ctx := (sh_ctx s)\<lparr>current_dir := dir\<rparr>\<rparr>)) (\<lambda>s1. Inr (0, s1)))))"

definition builtin_pwd :: "ast_node \<Rightarrow> shell \<Rightarrow> (i32 \<times> shell) res" where
  "builtin_pwd node s = Inr (0, sayc (CHR 0x0A) (say (current_dir (sh_ctx s)) s))"

text \<open>The text before and after the first equals sign.\<close>

definition split_eq :: "string \<Rightarrow> (string \<times> string) option" where
  "split_eq a = (if CHR ''='' \<in> set a
                 then Some (takeWhile (\<lambda>c. c \<noteq> CHR ''='') a, tl (dropWhile (\<lambda>c. c \<noteq> CHR ''='') a)) else None)"

primrec export_args :: "string list \<Rightarrow> shell \<Rightarrow> shell res" where
  "export_args [] s = Inr s"
| "export_args (a # as) s =
     (case split_eq a of
        Some (n, v) \<Rightarrow> bindR (shell_set_variable n v s) (\<lambda>s1. export_args as (shell_export_variable n s1))
      | None \<Rightarrow> export_args as (shell_export_variable a s))"

definition builtin_export :: "ast_node \<Rightarrow> shell \<Rightarrow> (i32 \<times> shell) res" where
  "builtin_export node s = bindR (export_args (tl (args node)) s) (\<lambda>s1. Inr (0, s1))"

primrec set_args :: "string list \<Rightarrow> shell \<Rightarrow> shell res" where
  "set_args [] s = Inr s"
| "set_args (a # as) s =
     (case split_eq a of
        Some (n, v) \<Rightarrow> bindR (shell_set_variable n v s) (set_args as)
      | None \<Rightarrow> set_args as s)"

definition builtin_set :: "ast_node \<Rightarrow> shell \<Rightarrow> (i32 \<times> shell) res" where
  "builtin_set node s = bindR (set_args (tl (args node)) s) (\<lambda>s1. Inr (0, s1))"

definition builtin_unset :: "ast_node \<Rightarrow> shell \<Rightarrow> (i32 \<times> shell) res" where
  "builtin_unset node s =
     Inr (0, s\<lparr>global_vars := fold (\<lambda>a. remove_first (\<lambda>v. sv_name v = a)) (tl (args node)) (global_vars s)\<rparr>)"

definition builtin_env :: "ast_node \<Rightarrow> shell \<Rightarrow> (i32 \<times> shell) res" where
  "builtin_env node s =
     Inr (0, fold (\<lambda>v s. if sv_exported v
                          then sayc (CHR 0x0A) (say (sv_value v) (sayc (CHR ''='') (say (sv_name v) s))) else s)
               (global_vars s) s)"

text \<open>The lines from index \<open>i\<close> on; a null entry is dereferenced.\<close>

fun history_lines :: "nat \<Rightarrow> string option list \<Rightarrow> shell \<Rightarrow> shell res" where
  "history_lines i [] s = Inr s"
| "history_lines i (h # hs) s =
     (case h of
        None \<Rightarrow> Inl NullDeref
      | Some l \<Rightarrow> history_lines (i + 1) hs (sayc (CHR 0x0A) (say l (say (int_to_str (word_of_nat (i + 1)) @ ''  '') s))))"

text \<open>The start index wraps to a negative one, in front of the array, for counts near the smallest integer.\<close>

definition builtin_history :: "ast_node \<Rightarrow> shell \<Rightarrow> (i32 \<times> shell) res" where
  "builtin_history node s =
     (let n = int (length (global_history s));
          c0 = (if length (args node) > 1 then sint (atoi_simple (args node ! 1)) else n);
          c = (if c0 > n then n else c0);
          start = sint (word_of_int (n - c) :: i32)
      in if start < 0 then Inl OutOfBounds
         else bindR (history_lines (nat start) (drop (nat start) (global_history s)) s) (\<lambda>s1. Inr (0, s1)))"

section \<open>Aliases and jobs\<close>

definition alias_line :: "shell_alias \<Rightarrow> shell \<Rightarrow> shell" where
  "alias_line a s = sayc (CHR 0x0A) (say (sa_value a) (sayc (CHR ''='') (say (sa_name a) (say ''alias '' s))))"

primrec alias_args :: "string list \<Rightarrow> shell \<Rightarrow> shell res" where
  "alias_args [] s = Inr s"
| "alias_args (a # as) s =
     (case split_eq a of
        Some (n, v) \<Rightarrow> bindR (shell_add_alias n v s) (alias_args as)
      | None \<Rightarrow> alias_args as s)"

definition builtin_alias :: "ast_node \<Rightarrow> shell \<Rightarrow> (i32 \<times> shell) res" where
  "builtin_alias node s =
     (if length (args node) = 1 then Inr (0, fold alias_line (global_aliases s) s)
      else bindR (alias_args (tl (args node)) s) (\<lambda>s1. Inr (0, s1)))"

definition builtin_unalias :: "ast_node \<Rightarrow> shell \<Rightarrow> (i32 \<times> shell) res" where
  "builtin_unalias node s =
     Inr (0, s\<lparr>global_aliases := fold (\<lambda>a. remove_first (\<lambda>e. sa_name e = a)) (tl (args node)) (global_aliases s)\<rparr>)"

definition builtin_jobs :: "ast_node \<Rightarrow> shell \<Rightarrow> (i32 \<times> shell) res" where
  "builtin_jobs node s = bindR (list_jobs (global_jobs s) s) (\<lambda>s1. Inr (0, s1))"

definition builtin_fg :: "ast_node \<Rightarrow> shell \<Rightarrow> (i32 \<times> shell) res" where
  "builtin_fg node s =
     (if length (args node) < 2 then Inr (1, shell_print_error ''fg: missing job spec'' s)
      else let j = atoi_simple (args node ! 1)
           in case update_job (\<lambda>e. job_id e = j) (\<lambda>e. e\<lparr>job_running := True, job_stopped := False\<rparr>) s of
                Some s1 \<Rightarrow> Inr (0, s1)
              | None \<Rightarrow> Inr (1, shell_print_error ''fg: job not found'' s))"

definition builtin_bg :: "ast_node \<Rightarrow> shell \<Rightarrow> (i32 \<times> shell) res" where
  "builtin_bg node s =
     (if length (args node) < 2 then Inr (1, shell_print_error ''bg: missing job spec'' s)
      else let j = atoi_simple (args node ! 1)
           in case update_job (\<lambda>e. job_id e = j) (\<lambda>e. e\<lparr>job_running := True, job_stopped := False\<rparr>) s of
                Some s1 \<Rightarrow> Inr (0, s1)
              | None \<Rightarrow> Inr (1, shell_print_error ''bg: job not found'' s))"

definition builtin_kill :: "ast_node \<Rightarrow> shell \<Rightarrow> (i32 \<times> shell) res" where
  "builtin_kill node s =
     (if length (args node) < 2 then Inr (1, shell_print_error ''kill: missing operand'' s)
      else let pid = atoi_simple (args node ! 1)
           in case update_job (\<lambda>e. job_pid e = pid) (\<lambda>e. e\<lparr>job_running := False\<rparr>) s of
                Some s1 \<Rightarrow> Inr (0, s1)
              | None \<Rightarrow> Inr (1, shell_print_error ''kill: no such process'' s))"

text \<open>\<open>strstr\<close> finds the needle somewhere.\<close>

fun has_substring :: "string \<Rightarrow> string \<Rightarrow> bool" where
  "has_substring n [] \<longleftrightarrow> n = []"
| "has_substring n (c # h) \<longleftrightarrow> take (length n) (c # h) = n \<or> has_substring n h"

definition builtin_killall :: "ast_node \<Rightarrow> shell \<Rightarrow> (i32 \<times> shell) res" where
  "builtin_killall node s =
     (if length (args node) < 2 then Inr (1, s)
      else Inr (0, s\<lparr>global_jobs := map (\<lambda>j. if has_substring (args node ! 1) (job_command j) then j\<lparr>job_running := False\<rparr> else j)
                       (global_jobs s)\<rparr>))"

text \<open>Nothing ends a job while the loop waits for it.\<close>

definition builtin_wait :: "ast_node \<Rightarrow> shell \<Rightarrow> (i32 \<times> shell) res" where
  "builtin_wait node s = (if list_ex job_running (global_jobs s) then Inl Diverges else Inr (0, s))"

section \<open>Shell control\<close>

definition builtin_clear :: "ast_node \<Rightarrow> shell \<Rightarrow> (i32 \<times> shell) res" where
  "builtin_clear node s = Inr (0, shell_layout (shell_draw_fluid_background s))"

definition builtin_exit :: "ast_node \<Rightarrow> shell \<Rightarrow> (i32 \<times> shell) res" where
  "builtin_exit node s =
     Inr (if length (args node) > 1 then atoi_simple (args node ! 1) else last_exit_status (sh_ctx s),
          s\<lparr>sh_ctx := (sh_ctx s)\<lparr>exit_requested := True\<rparr>\<rparr>)"

primrec help_lines :: "(string \<times> string) list \<Rightarrow> shell \<Rightarrow> shell res" where
  "help_lines [] s = Inr s"
| "help_lines (b # bs) s =
     bindR (fits 128 (''  '' @ fst b @ '' - '' @ snd b @ [CHR 0x0A])) (\<lambda>buf. help_lines bs (say buf s))"

definition builtin_help :: "(string \<times> string) list \<Rightarrow> ast_node \<Rightarrow> shell \<Rightarrow> (i32 \<times> shell) res" where
  "builtin_help bt node s =
     bindR (help_lines bt (say (''==========================================='' @ [CHR 0x0A])
              (say (''MiraOS Shell (msh.mex) - Built-in Commands:'' @ [CHR 0x0A]) s))) (\<lambda>s1. Inr (0, s1))"

primrec type_args :: "string list \<Rightarrow> (string \<times> string) list \<Rightarrow> shell \<Rightarrow> shell res" where
  "type_args [] bt s = Inr s"
| "type_args (a # as) bt s =
     (if a \<in> set (map fst bt) then type_args as bt (say ('' is a shell builtin'' @ [CHR 0x0A]) (say a s))
      else bindR (fits 128 (a @ '' is not a builtin'' @ [CHR 0x0A])) (\<lambda>buf. type_args as bt (say buf s)))"

definition builtin_type :: "(string \<times> string) list \<Rightarrow> ast_node \<Rightarrow> shell \<Rightarrow> (i32 \<times> shell) res" where
  "builtin_type bt node s = bindR (type_args (tl (args node)) bt s) (\<lambda>s1. Inr (0, s1))"

definition builtin_which :: "(string \<times> string) list \<Rightarrow> ast_node \<Rightarrow> shell \<Rightarrow> (i32 \<times> shell) res" where
  "builtin_which bt node s =
     (if length (args node) < 2 then Inr (1, s)
      else if args node ! 1 \<in> set (map fst bt)
      then Inr (0, sayc (CHR 0x0A) (say (args node ! 1) (say ''/usr/bin/'' s)))
      else Inr (1, shell_print_error ''which: not found'' s))"

text \<open>The typed line up to its terminator.\<close>

definition typed_line :: "shell \<Rightarrow> string" where
  "typed_line s = map (\<lambda>b. char_of (unat b)) (takeWhile (\<lambda>b. b \<noteq> 0) (input_buffer (sh_input s)))"

definition builtin_read :: "ast_node \<Rightarrow> shell \<Rightarrow> (i32 \<times> shell) res" where
  "builtin_read node s =
     (if length (args node) < 2 then Inr (1, shell_print_error ''read: missing variable name'' s)
      else bindR (shell_set_variable (args node ! 1) (take 255 (typed_line s)) s) (\<lambda>s1. Inr (0, s1)))"

definition status :: "bool \<Rightarrow> i32" where "status b = (if b then 0 else 1)"

definition builtin_test :: "ast_node \<Rightarrow> shell \<Rightarrow> (i32 \<times> shell) res" where
  "builtin_test node s =
     (let a = args node
      in if length a < 2 then Inr (1, s)
         else let op = (if length a > 2 then a ! 1 else '''')
              in Inr (if op = ''-z'' then status (length (a ! 2) = 0)
                      else if op = ''-n'' then status (length (a ! 2) > 0)
                      else if op = ''='' \<or> op = ''=='' then status (a ! 1 = a ! 2)
                      else if op = ''!='' then status (a ! 1 \<noteq> a ! 2)
                      else if op = ''-eq'' then status (atoi_simple (a ! 1) = atoi_simple (a ! 2))
                      else if op = ''-ne'' then status (atoi_simple (a ! 1) \<noteq> atoi_simple (a ! 2))
                      else if op = ''-lt'' then status (sint (atoi_simple (a ! 1)) < sint (atoi_simple (a ! 2)))
                      else if op = ''-gt'' then status (sint (atoi_simple (a ! 1)) > sint (atoi_simple (a ! 2)))
                      else 1, s))"

definition builtin_bracket :: "ast_node \<Rightarrow> shell \<Rightarrow> (i32 \<times> shell) res" where
  "builtin_bracket node s = builtin_test node s"

primrec printf_args :: "string \<Rightarrow> string list \<Rightarrow> shell \<Rightarrow> shell" where
  "printf_args fmt [] s = s"
| "printf_args fmt (a # as) s =
     printf_args fmt as
       (if fmt = ''%s'' then say a s
        else if fmt = ''%d'' \<or> fmt = ''%i'' then say (int_to_str (atoi_simple a)) s
        else if fmt = ''%c'' then sayc (char_of (unat (ucast (atoi_simple a) :: u8))) s
        else s)"

definition builtin_printf :: "ast_node \<Rightarrow> shell \<Rightarrow> (i32 \<times> shell) res" where
  "builtin_printf node s =
     (if length (args node) < 2 then Inr (0, s)
      else Inr (0, sayc (CHR 0x0A) (printf_args (args node ! 1) (drop 2 (args node)) s)))"

section \<open>Time\<close>

text \<open>The busy loop that polls the tick counter, with fuel for its turns.\<close>

primrec wait_ticks :: "nat \<Rightarrow> u64 \<Rightarrow> shell \<Rightarrow> shell res" where
  "wait_ticks 0 target s = Inl Diverges"
| "wait_ticks (Suc n) target s =
     (let (t, s1) = timer_ticks s in if t < target then wait_ticks n target s1 else Inr s1)"

definition deadline :: "string \<Rightarrow> u64 \<Rightarrow> u64" where
  "deadline a t = t + scast (atoi_simple a) * 100"

definition builtin_sleep :: "nat \<Rightarrow> ast_node \<Rightarrow> shell \<Rightarrow> (i32 \<times> shell) res" where
  "builtin_sleep fuel node s =
     (if length (args node) < 2 then Inr (0, s)
      else let (t, s1) = timer_ticks s
           in bindR (wait_ticks fuel (deadline (args node ! 1) t) s1) (\<lambda>s2. Inr (0, s2)))"

definition builtin_date :: "ast_node \<Rightarrow> shell \<Rightarrow> (i32 \<times> shell) res" where
  "builtin_date node s =
     (let (t, s1) = timer_ticks s in Inr (0, say (''Uptime: '' @ uint64_to_str t @ '' ticks'' @ [CHR 0x0A]) s1))"

definition builtin_uptime :: "ast_node \<Rightarrow> shell \<Rightarrow> (i32 \<times> shell) res" where
  "builtin_uptime node s =
     (let (t, s1) = timer_ticks s in Inr (0, say ('' '' @ uint64_to_str (t div 100) @ [CHR 0x0A]) s1))"

primrec yes_loop :: "nat \<Rightarrow> string \<Rightarrow> shell \<Rightarrow> (i32 \<times> shell) res" where
  "yes_loop 0 str s = Inl Diverges"
| "yes_loop (Suc n) str s = yes_loop n str (sayc (CHR 0x0A) (say str s))"

definition builtin_yes :: "nat \<Rightarrow> ast_node \<Rightarrow> shell \<Rightarrow> (i32 \<times> shell) res" where
  "builtin_yes fuel node s = yes_loop fuel (if length (args node) > 1 then args node ! 1 else ''y'') s"

section \<open>Settings and arithmetic\<close>

definition set_or_show :: "string \<Rightarrow> ast_node \<Rightarrow> shell \<Rightarrow> (i32 \<times> shell) res" where
  "set_or_show name node s =
     (if length (args node) > 1 then bindR (shell_set_variable name (args node ! 1) s) (\<lambda>s1. Inr (0, s1))
      else Inr (0, sayc (CHR 0x0A) (say (shell_get_variable name s) s)))"

definition builtin_umask :: "ast_node \<Rightarrow> shell \<Rightarrow> (i32 \<times> shell) res" where
  "builtin_umask node s = set_or_show ''UMASK'' node s"

definition builtin_hostname :: "ast_node \<Rightarrow> shell \<Rightarrow> (i32 \<times> shell) res" where
  "builtin_hostname node s = set_or_show ''HOSTNAME'' node s"

primrec shift_vars :: "nat list \<Rightarrow> i32 \<Rightarrow> shell \<Rightarrow> shell res" where
  "shift_vars [] n s = Inr s"
| "shift_vars (j # js) n s = bindR (shell_set_variable_int [char_of (48 + j)] (word_of_nat j + n) s) (shift_vars js n)"

primrec shift_times :: "nat \<Rightarrow> i32 \<Rightarrow> shell \<Rightarrow> shell res" where
  "shift_times 0 n s = Inr s"
| "shift_times (Suc k) n s = bindR (shift_vars [1..<10] n s) (shift_times k n)"

definition builtin_shift :: "ast_node \<Rightarrow> shell \<Rightarrow> (i32 \<times> shell) res" where
  "builtin_shift node s =
     (let n = (if length (args node) > 1 then atoi_simple (args node ! 1) else 1)
      in bindR (shift_times (nat (sint n)) n s) (\<lambda>s1. Inr (0, s1)))"

definition builtin_uname :: "ast_node \<Rightarrow> shell \<Rightarrow> (i32 \<times> shell) res" where
  "builtin_uname node s =
     Inr (0, if ''-a'' \<in> set (tl (args node)) then say (''MiraOS msh.mex 1.0.0 x86_64 GNU/MiraOS'' @ [CHR 0x0A]) s
             else say (''MiraOS'' @ [CHR 0x0A]) s)"

text \<open>
  Signed division, truncated towards zero; the processor raises an exception, on which the
  kernel panics, for a zero divisor and for the one quotient that does not fit.
\<close>

definition sdiv_i32 :: "i32 \<Rightarrow> i32 \<Rightarrow> i32 res" where
  "sdiv_i32 a b =
     (if b = 0 \<or> (a = 0x80000000 \<and> b = -1) then Inl (Panic ''cpu exception'')
      else let q = \<bar>sint a\<bar> div \<bar>sint b\<bar> in Inr (word_of_int (if (sint a < 0) = (sint b < 0) then q else - q)))"

fun let_eval :: "string \<Rightarrow> i32 \<Rightarrow> i32 res" where
  "let_eval [] result = Inr result"
| "let_eval (c # e) result =
     (if c = CHR ''+'' then let_eval e (result + atoi_simple e)
      else if c = CHR ''-'' then let_eval e (result - atoi_simple e)
      else if c = CHR ''*'' then let_eval e (result * atoi_simple e)
      else if c = CHR ''/'' then bindR (sdiv_i32 result (atoi_simple e)) (let_eval e)
      else let_eval e result)"

definition builtin_let :: "ast_node \<Rightarrow> shell \<Rightarrow> (i32 \<times> shell) res" where
  "builtin_let node s =
     (if length (args node) < 2 then Inr (1, s)
      else bindR (let_eval (args node ! 1) 0) (\<lambda>result.
           bindR (shell_set_variable ''?'' (int_to_str result) s) (\<lambda>s1. Inr (if result = 0 then 0 else 1, s1))))"

section \<open>Files\<close>

text \<open>A buffer read as a C string ends at the first zero byte.\<close>

definition c_str :: "string \<Rightarrow> string" where "c_str b = takeWhile (\<lambda>c. c \<noteq> CHR 0x00) b"

primrec cat_loop :: "nat \<Rightarrow> int \<Rightarrow> shell \<Rightarrow> shell res" where
  "cat_loop 0 fd s = Inl Diverges"
| "cat_loop (Suc k) fd s =
     bindR (vfs_read fd 255 (fs s)) (\<lambda>(n, buf, f).
       let s1 = s\<lparr>fs := f\<rparr> in if n > 0 then cat_loop k fd (say (c_str buf) s1) else Inr s1)"

definition cat_file :: "nat \<Rightarrow> string \<Rightarrow> shell \<Rightarrow> shell res" where
  "cat_file fuel a s =
     bindR (vfs_open a VFS_O_RDONLY (fs s)) (\<lambda>(fd, f).
       let s1 = s\<lparr>fs := f\<rparr>
       in if fd < 0
          then bindR (fits 128 (''cat: '' @ a @ '': No such file or directory'' @ [CHR 0x0A])) (\<lambda>buf. Inr (say buf s1))
          else bindR (cat_loop fuel fd s1) (\<lambda>s2.
               bindR (vfs_close fd (fs s2)) (\<lambda>(r, f2). Inr (sayc (CHR 0x0A) (s2\<lparr>fs := f2\<rparr>)))))"

primrec cat_files :: "nat \<Rightarrow> string list \<Rightarrow> shell \<Rightarrow> shell res" where
  "cat_files fuel [] s = Inr s"
| "cat_files fuel (a # as) s = bindR (cat_file fuel a s) (cat_files fuel as)"

definition builtin_cat :: "nat \<Rightarrow> ast_node \<Rightarrow> shell \<Rightarrow> (i32 \<times> shell) res" where
  "builtin_cat fuel node s = bindR (cat_files fuel (tl (args node)) s) (\<lambda>s1. Inr (0, s1))"

text \<open>
  The line of a directory entry: the size is printed into the buffer at offset 20, over the
  last characters of the fixed text.
\<close>

definition ls_line :: "vfs_node \<Rightarrow> string res" where
  "ls_line c =
     fits 256 (take 20 ''drwxr-xr-x 1 root root '' @ int_to_str (ucast (vn_size c)) @ '' '' @ vn_name c @ [CHR 0x0A])"

fun ls_children :: "nat \<Rightarrow> nat option \<Rightarrow> shell \<Rightarrow> shell res" where
  "ls_children k None s = Inr s"
| "ls_children 0 (Some c) s = Inl Diverges"
| "ls_children (Suc k) (Some c) s =
     bindR (get_node c (fs s)) (\<lambda>nd. bindR (ls_line nd) (\<lambda>buf. ls_children k (vn_next_sibling nd) (say buf s)))"

definition builtin_ls :: "ast_node \<Rightarrow> shell \<Rightarrow> (i32 \<times> shell) res" where
  "builtin_ls node s =
     (let path = (if length (args node) > 1 then args node ! 1 else ''/'');
          missing = bindR (fits 128 (''ls: cannot access '' @ [CHR 0x27] @ path @ [CHR 0x27] @ '': No such directory'' @ [CHR 0x0A]))
                      (\<lambda>buf. Inr (1, say buf s))
      in bindR (vfs_lookup path (fs s)) (\<lambda>r.
           case r of
             None \<Rightarrow> missing
           | Some i \<Rightarrow>
               bindR (get_node i (fs s)) (\<lambda>d.
                 if vn_type d \<noteq> VFS_TYPE_DIR then missing
                 else bindR (ls_children (length (vnodes (fs s))) (vn_children d) (say (''total 0'' @ [CHR 0x0A]) s)) (\<lambda>s1.
                        Inr (0, s1)))))"

definition create_empty :: "string option \<Rightarrow> string \<Rightarrow> shell \<Rightarrow> (i32 \<times> shell) res" where
  "create_empty data path s = bindR (vfs_create_file path data 0 (fs s)) (\<lambda>(r, f). Inr (0, s\<lparr>fs := f\<rparr>))"

definition builtin_mkdir :: "ast_node \<Rightarrow> shell \<Rightarrow> (i32 \<times> shell) res" where
  "builtin_mkdir node s =
     (if length (args node) < 2 then Inr (1, shell_print_error ''mkdir: missing operand'' s)
      else create_empty None (args node ! 1) s)"

definition builtin_touch :: "ast_node \<Rightarrow> shell \<Rightarrow> (i32 \<times> shell) res" where
  "builtin_touch node s =
     (if length (args node) < 2 then Inr (1, shell_print_error ''touch: missing file operand'' s)
      else create_empty (Some []) (args node ! 1) s)"

end
