(* ===== verification/Mira_Shell_Exec.thy ===== *)
theory Mira_Shell_Exec
  imports Mira_Shell_Builtins
begin

text \<open>
  The interpreter of the shell, \<open>ui/shell.c\<close>: executing syntax trees and command lines,
  the builtins that call it again, and the table of builtins. A handler pointer is a value
  of the type \<open>handler\<close>, which also tells what the handler reaches besides the state. The
  interpreter takes fuel for its depth of recursion and for the waiting loops.
\<close>

datatype handler =
  Native "ast_node \<Rightarrow> shell \<Rightarrow> (i32 \<times> shell) res"
| Looping "nat \<Rightarrow> ast_node \<Rightarrow> shell \<Rightarrow> (i32 \<times> shell) res"
| Table "(string \<times> string) list \<Rightarrow> ast_node \<Rightarrow> shell \<Rightarrow> (i32 \<times> shell) res"
| Nohup | Exec | Dot | Source | Eval | Timeout

record builtin_cmd =
  bc_name :: string
  bc_handler :: handler
  bc_description :: string
  bc_flags :: u32

definition MAX_BUILTINS :: nat where "MAX_BUILTINS = 128"

section \<open>Builtins that run commands\<close>

text \<open>In this section \<open>exec\<close> is the interpreter for trees, with the fuel that is left.\<close>

definition execute_line :: "(ast_node \<Rightarrow> shell \<Rightarrow> (i32 \<times> shell) res) \<Rightarrow> string \<Rightarrow> shell \<Rightarrow> shell res" where
  "execute_line exec cmd s =
     (if cmd = [] then Inr s
      else bindR (shell_resolve_variables cmd s) (\<lambda>resolved.
           bindR (tokenize resolved (heap_outcomes s)) (\<lambda>(tokens, km).
           bindR (parse_tokens tokens km) (\<lambda>(ast, km1).
             let s1 = set_heap_outcomes km1 s
             in case ast of
                  None \<Rightarrow> Inr s1
                | Some n \<Rightarrow> bindR (exec n s1) (\<lambda>(r, s2). Inr s2)))))"

definition run_script :: "(ast_node \<Rightarrow> shell \<Rightarrow> (i32 \<times> shell) res) \<Rightarrow> string \<Rightarrow> shell \<Rightarrow> shell res" where
  "run_script exec path s =
     bindR (vfs_open path VFS_O_RDONLY (fs s)) (\<lambda>(fd, f).
       let s1 = s\<lparr>fs := f\<rparr>
       in if fd < 0 then Inr (shell_print_error ''script not found'' s1)
          else bindR (vfs_read fd (word_of_nat SHELL_MAX_CMD_LEN - 1) (fs s1)) (\<lambda>(n, buf, f2).
               let s2 = s1\<lparr>fs := f2\<rparr>
               in bindR (if n > 0 then execute_line exec (c_str buf) s2 else Inr s2) (\<lambda>s3.
                  bindR (vfs_close fd (fs s3)) (\<lambda>(r, f4). Inr (s3\<lparr>fs := f4\<rparr>)))))"

text \<open>The first child; a command node has no array of children to read it from.\<close>

definition first_child :: "ast_node \<Rightarrow> ast_node res" where
  "first_child node = (case children node of [] \<Rightarrow> Inl NullDeref | c # _ \<Rightarrow> Inr c)"

definition builtin_nohup :: "(ast_node \<Rightarrow> shell \<Rightarrow> (i32 \<times> shell) res) \<Rightarrow> ast_node \<Rightarrow> shell \<Rightarrow> (i32 \<times> shell) res" where
  "builtin_nohup exec node s =
     (if length (args node) < 2 then Inr (1, s)
      else bindR (shell_set_variable ''HUP_IGNORED'' ''1'' s) (\<lambda>s1. bindR (first_child node) (\<lambda>c. exec c s1)))"

definition builtin_exec :: "(ast_node \<Rightarrow> shell \<Rightarrow> (i32 \<times> shell) res) \<Rightarrow> ast_node \<Rightarrow> shell \<Rightarrow> (i32 \<times> shell) res" where
  "builtin_exec exec node s =
     (if length (args node) < 2 then Inr (0, s) else bindR (first_child node) (\<lambda>c. exec c s))"

definition builtin_dot :: "(ast_node \<Rightarrow> shell \<Rightarrow> (i32 \<times> shell) res) \<Rightarrow> ast_node \<Rightarrow> shell \<Rightarrow> (i32 \<times> shell) res" where
  "builtin_dot exec node s =
     (if length (args node) < 2 then Inr (1, shell_print_error ''. : filename argument required'' s)
      else bindR (run_script exec (args node ! 1) s) (\<lambda>s1. Inr (0, s1)))"

definition builtin_source :: "(ast_node \<Rightarrow> shell \<Rightarrow> (i32 \<times> shell) res) \<Rightarrow> ast_node \<Rightarrow> shell \<Rightarrow> (i32 \<times> shell) res" where
  "builtin_source exec node s = builtin_dot exec node s"

text \<open>The arguments joined with blanks in a buffer of \<open>SHELL_MAX_CMD_LEN\<close> bytes.\<close>

fun eval_join :: "string \<Rightarrow> string list \<Rightarrow> string" where
  "eval_join out [] = out"
| "eval_join out (a # as) =
     (if \<not> length out < SHELL_MAX_CMD_LEN - 1 then out
      else let o1 = out @ take (SHELL_MAX_CMD_LEN - 1 - length out) a
           in eval_join (if as \<noteq> [] \<and> length o1 < SHELL_MAX_CMD_LEN - 1 then o1 @ '' '' else o1) as)"

definition builtin_eval :: "(ast_node \<Rightarrow> shell \<Rightarrow> (i32 \<times> shell) res) \<Rightarrow> ast_node \<Rightarrow> shell \<Rightarrow> (i32 \<times> shell) res" where
  "builtin_eval exec node s =
     (if length (args node) < 2 then Inr (0, s)
      else bindR (execute_line exec (eval_join [] (tl (args node))) s) (\<lambda>s1. Inr (0, s1)))"

primrec timeout_loop :: "nat \<Rightarrow> (ast_node \<Rightarrow> shell \<Rightarrow> (i32 \<times> shell) res) \<Rightarrow> u64 \<Rightarrow> ast_node \<Rightarrow> shell \<Rightarrow> shell res" where
  "timeout_loop 0 exec end_time cmd s = Inl Diverges"
| "timeout_loop (Suc k) exec end_time cmd s =
     (let (t, s1) = timer_ticks s
      in if t < end_time then bindR (exec cmd s1) (\<lambda>(r, s2). timeout_loop k exec end_time cmd s2) else Inr s1)"

definition builtin_timeout :: "nat \<Rightarrow> (ast_node \<Rightarrow> shell \<Rightarrow> (i32 \<times> shell) res) \<Rightarrow> ast_node \<Rightarrow> shell \<Rightarrow> (i32 \<times> shell) res" where
  "builtin_timeout fuel exec node s =
     (if length (args node) < 3 then Inr (1, s)
      else let (t, s1) = timer_ticks s;
               cmd = AstNode NODE_COMMAND [] None VAR_TYPE_STRING (zero_cmd\<lparr>cmd_args := drop 2 (args node)\<rparr>)
           in bindR (timeout_loop fuel exec (deadline (args node ! 1) t) cmd s1) (\<lambda>s2. Inr (0, s2)))"

section \<open>The interpreter\<close>

definition run_handler :: "nat \<Rightarrow> (ast_node \<Rightarrow> shell \<Rightarrow> (i32 \<times> shell) res) \<Rightarrow> builtin_cmd list \<Rightarrow> handler \<Rightarrow> ast_node \<Rightarrow> shell \<Rightarrow>
    (i32 \<times> shell) res" where
  "run_handler fuel exec bt h node s =
     (case h of
        Native f \<Rightarrow> f node s
      | Looping f \<Rightarrow> f fuel node s
      | Table f \<Rightarrow> f (map (\<lambda>b. (bc_name b, bc_description b)) bt) node s
      | Nohup \<Rightarrow> builtin_nohup exec node s
      | Exec \<Rightarrow> builtin_exec exec node s
      | Dot \<Rightarrow> builtin_dot exec node s
      | Source \<Rightarrow> builtin_source exec node s
      | Eval \<Rightarrow> builtin_eval exec node s
      | Timeout \<Rightarrow> builtin_timeout fuel exec node s)"

definition execute_command :: "nat \<Rightarrow> (ast_node \<Rightarrow> shell \<Rightarrow> (i32 \<times> shell) res) \<Rightarrow> builtin_cmd list \<Rightarrow> ast_node \<Rightarrow> shell \<Rightarrow>
    (i32 \<times> shell) res" where
  "execute_command fuel exec bt node s =
     (case args node of
        [] \<Rightarrow> Inr (0, s)
      | cmd_name # _ \<Rightarrow>
          bindR (shell_resolve_variables cmd_name s) (\<lambda>resolved.
            case find (\<lambda>b. bc_name b = shell_resolve_alias resolved s) bt of
              Some b \<Rightarrow> run_handler fuel exec bt (bc_handler b) node s
            | None \<Rightarrow> Inr (127, shell_print_error '': command not found'' (shell_print_error resolved s))))"

text \<open>The loop of a sequence records every status, the loop of a pipeline only returns the last.\<close>

primrec execute_sequence :: "(ast_node \<Rightarrow> shell \<Rightarrow> (i32 \<times> shell) res) \<Rightarrow> ast_node list \<Rightarrow> i32 \<Rightarrow> shell \<Rightarrow> (i32 \<times> shell) res" where
  "execute_sequence exec [] last_status s = Inr (last_status, s)"
| "execute_sequence exec (c # cs) last_status s =
     bindR (exec c s) (\<lambda>(r, s1). execute_sequence exec cs r (s1\<lparr>sh_ctx := (sh_ctx s1)\<lparr>last_exit_status := r\<rparr>\<rparr>))"

primrec execute_pipeline :: "(ast_node \<Rightarrow> shell \<Rightarrow> (i32 \<times> shell) res) \<Rightarrow> ast_node list \<Rightarrow> i32 \<Rightarrow> shell \<Rightarrow> (i32 \<times> shell) res" where
  "execute_pipeline exec [] last_status s = Inr (last_status, s)"
| "execute_pipeline exec (c # cs) last_status s = bindR (exec c s) (\<lambda>(r, s1). execute_pipeline exec cs r s1)"

definition execute_node :: "nat \<Rightarrow> (ast_node \<Rightarrow> shell \<Rightarrow> (i32 \<times> shell) res) \<Rightarrow> builtin_cmd list \<Rightarrow> ast_node \<Rightarrow> shell \<Rightarrow>
    (i32 \<times> shell) res" where
  "execute_node fuel exec bt node s =
     (let cs = children node
      in case node_type node of
           NODE_SEQUENCE \<Rightarrow> execute_sequence exec cs 0 s
         | NODE_AND \<Rightarrow>
             if length cs \<ge> 2
             then bindR (exec (cs ! 0) s) (\<lambda>(r, s1). if r = 0 then exec (cs ! 1) s1 else Inr (r, s1))
             else Inr (1, s)
         | NODE_OR \<Rightarrow>
             if length cs \<ge> 2
             then bindR (exec (cs ! 0) s) (\<lambda>(r, s1). if r \<noteq> 0 then exec (cs ! 1) s1 else Inr (r, s1))
             else Inr (0, s)
         | NODE_PIPELINE \<Rightarrow> execute_pipeline exec cs 0 s
         | NODE_COMMAND \<Rightarrow> execute_command fuel exec bt node s
         | NODE_SUBSHELL \<Rightarrow> if length cs > 0 then exec (cs ! 0) s else Inr (0, s)
         | _ \<Rightarrow> Inr (0, s))"

primrec shell_execute_ast :: "nat \<Rightarrow> builtin_cmd list \<Rightarrow> ast_node \<Rightarrow> shell \<Rightarrow> (i32 \<times> shell) res" where
  "shell_execute_ast 0 bt node s = Inl Diverges"
| "shell_execute_ast (Suc n) bt node s = execute_node n (shell_execute_ast n bt) bt node s"

definition shell_execute_command :: "nat \<Rightarrow> builtin_cmd list \<Rightarrow> string \<Rightarrow> shell \<Rightarrow> shell res" where
  "shell_execute_command fuel bt cmd s = execute_line (shell_execute_ast fuel bt) cmd s"

definition shell_run_script :: "nat \<Rightarrow> builtin_cmd list \<Rightarrow> string \<Rightarrow> shell \<Rightarrow> shell res" where
  "shell_run_script fuel bt path s = run_script (shell_execute_ast fuel bt) path s"

definition shell_evaluate_expression :: "nat \<Rightarrow> builtin_cmd list \<Rightarrow> ast_node \<Rightarrow> shell \<Rightarrow> (i32 \<times> shell) res" where
  "shell_evaluate_expression fuel bt node s = shell_execute_ast fuel bt node s"

section \<open>The table of builtins\<close>

definition shell_register_builtin :: "string \<Rightarrow> handler \<Rightarrow> string \<Rightarrow> builtin_cmd list \<Rightarrow> builtin_cmd list" where
  "shell_register_builtin name h desc bt =
     (if length bt < MAX_BUILTINS then bt @ [\<lparr>bc_name = name, bc_handler = h, bc_description = desc, bc_flags = 0\<rparr>] else bt)"

definition register_all :: "(string \<times> handler \<times> string) list \<Rightarrow> builtin_cmd list \<Rightarrow> builtin_cmd list" where
  "register_all es bt = fold (\<lambda>(name, h, desc). shell_register_builtin name h desc) es bt"

definition builtin_entries :: "(string \<times> handler \<times> string) list" where
  "builtin_entries =
     [(''echo'', Native builtin_echo, ''Display a line of text''),
      (''cd'', Native builtin_cd, ''Change the shell working directory''),
      (''pwd'', Native builtin_pwd, ''Print name of current/working directory''),
      (''export'', Native builtin_export, ''Set export attribute for variables''),
      (''set'', Native builtin_set, ''Set or unset values of shell attributes''),
      (''unset'', Native builtin_unset, ''Unset values and attributes of variables''),
      (''env'', Native builtin_env, ''Display environment variables''),
      (''history'', Native builtin_history, ''Display or manipulate the history list''),
      (''alias'', Native builtin_alias, ''Define or display aliases''),
      (''unalias'', Native builtin_unalias, ''Remove each NAME from the list of defined aliases''),
      (''jobs'', Native builtin_jobs, ''List active jobs''),
      (''fg'', Native builtin_fg, ''Put job in foreground''),
      (''bg'', Native builtin_bg, ''Put job in background''),
      (''clear'', Native builtin_clear, ''Clear the terminal screen''),
      (''exit'', Native builtin_exit, ''Exit the shell''),
      (''help'', Table builtin_help, ''Display help for builtin commands''),
      (''type'', Table builtin_type, ''Display information about command type''),
      (''read'', Native builtin_read, ''Read a line from standard input''),
      (''test'', Native builtin_test, ''Check file types and compare values''),
      (''['', Native builtin_bracket, ''Evaluate conditional expression''),
      (''printf'', Native builtin_printf, ''Format and print data''),
      (''true'', Native builtin_true, ''Return a successful result''),
      (''false'', Native builtin_false, ''Return an unsuccessful result''),
      (''sleep'', Looping builtin_sleep, ''Delay for a specified time''),
      (''date'', Native builtin_date, ''Display or set date and time''),
      (''umask'', Native builtin_umask, ''Get or set the file creation mask''),
      (''ulimit'', Native builtin_ulimit, ''Control resources available to the shell''),
      (''shift'', Native builtin_shift, ''Shift positional parameters''),
      (''trap'', Native builtin_trap, ''Trap signals and other events''),
      (''umount'', Native builtin_umount, ''Unmount file systems''),
      (''mount'', Native builtin_mount, ''Mount a file system''),
      (''df'', Native builtin_df, ''Report file system disk space usage''),
      (''ps'', Native builtin_ps, ''Report process status''),
      (''kill'', Native builtin_kill, ''Send a signal to a process''),
      (''nohup'', Nohup, ''Run a command immune to hangups''),
      (''wait'', Native builtin_wait, ''Wait for process completion''),
      (''exec'', Exec, ''Execute a command''),
      (''.'', Dot, ''Execute commands from a file''),
      (''source'', Source, ''Execute commands from a file''),
      (''eval'', Eval, ''Evaluate several commands/arguments''),
      (''let'', Native builtin_let, ''Evaluate arithmetic expressions''),
      (''yes'', Looping builtin_yes, ''Output a string repeatedly''),
      (''head'', Native builtin_head, ''Output the first part of files''),
      (''tail'', Native builtin_tail, ''Output the last part of files''),
      (''wc'', Native builtin_wc, ''Print newline, word, and byte counts''),
      (''grep'', Native builtin_grep, ''Print lines matching a pattern''),
      (''sed'', Native builtin_sed, ''Stream editor for filtering text''),
      (''awk'', Native builtin_awk, ''Pattern scanning and processing language''),
      (''cat'', Looping builtin_cat, ''Concatenate files and print''),
      (''ls'', Native builtin_ls, ''List directory contents''),
      (''mkdir'', Native builtin_mkdir, ''Make directories''),
      (''rmdir'', Native builtin_rmdir, ''Remove empty directories''),
      (''rm'', Native builtin_rm, ''Remove files or directories''),
      (''touch'', Native builtin_touch, ''Change file timestamps''),
      (''cp'', Native builtin_cp, ''Copy files and directories''),
      (''mv'', Native builtin_mv, ''Move or rename files''),
      (''chmod'', Native builtin_chmod, ''Change file mode bits''),
      (''chown'', Native builtin_chown, ''Change file owner and group''),
      (''whoami'', Native builtin_whoami, ''Print effective user name''),
      (''id'', Native builtin_id, ''Print user and group information''),
      (''uptime'', Native builtin_uptime, ''Show how long the system has been running''),
      (''uname'', Native builtin_uname, ''Print system information''),
      (''hostname'', Native builtin_hostname, ''Show or set the system host name''),
      (''which'', Table builtin_which, ''Locate a command''),
      (''time'', Native builtin_time, ''Run a command and report time used''),
      (''xargs'', Native builtin_xargs, ''Build and execute command lines''),
      (''find'', Native builtin_find, ''Search for files in a directory hierarchy''),
      (''sort'', Native builtin_sort, ''Sort lines of text files''),
      (''uniq'', Native builtin_uniq, ''Report or omit repeated lines''),
      (''tr'', Native builtin_tr, ''Translate or delete characters''),
      (''cut'', Native builtin_cut, ''Remove sections from each line''),
      (''paste'', Native builtin_paste, ''Merge lines of files''),
      (''join'', Native builtin_join, ''Join lines on a common field''),
      (''comm'', Native builtin_comm, ''Compare two sorted files line by line''),
      (''diff'', Native builtin_diff, ''Compare files line by line''),
      (''patch'', Native builtin_patch, ''Apply a diff file to an original''),
      (''tar'', Native builtin_tar, ''Archive files''),
      (''gzip'', Native builtin_gzip, ''Compress or expand files''),
      (''gunzip'', Native builtin_gunzip, ''Compress or expand files''),
      (''bzip2'', Native builtin_bzip2, ''Compress or expand files''),
      (''xz'', Native builtin_xz, ''Compress or expand files''),
      (''zip'', Native builtin_zip, ''Package and compress files''),
      (''unzip'', Native builtin_unzip, ''Extract compressed files''),
      (''ssh'', Native builtin_ssh, ''OpenSSH remote login client''),
      (''scp'', Native builtin_scp, ''Secure copy remote file transfer''),
      (''wget'', Native builtin_wget, ''Network downloader''),
      (''curl'', Native builtin_curl, ''Transfer data from or to a server''),
      (''ping'', Native builtin_ping, ''Send ICMP packets to network hosts''),
      (''ifconfig'', Native builtin_ifconfig, ''Configure network interfaces''),
      (''route'', Native builtin_route, ''Show or manipulate the IP routing table''),
      (''netstat'', Native builtin_netstat, ''Print network connections''),
      (''ss'', Native builtin_ss, ''Another netstat implementation''),
      (''iptables'', Native builtin_iptables, ''IP firewall administration''),
      (''systemctl'', Native builtin_systemctl, ''Control the systemd system''),
      (''service'', Native builtin_service, ''Run a System V init script''),
      (''journalctl'', Native builtin_journalctl, ''Query the systemd journal''),
      (''dmesg'', Native builtin_dmesg, ''Print or control the kernel ring buffer''),
      (''logger'', Native builtin_logger, ''Add entries to the system log''),
      (''wall'', Native builtin_wall, ''Send a message to every user''),
      (''write'', Native builtin_write, ''Send a message to another user''),
      (''tee'', Native builtin_tee, ''Read from stdin and write to stdout and files''),
      (''less'', Native builtin_less, ''View file content with pagination''),
      (''more'', Native builtin_more, ''File perusal filter for crt viewing''),
      (''vi'', Native builtin_vi, ''Vi editor''),
      (''nano'', Native builtin_nano, ''Nano editor''),
      (''emacs'', Native builtin_emacs, ''Emacs editor''),
      (''vim'', Native builtin_vim, ''Vim editor''),
      (''gcc'', Native builtin_gcc, ''GNU C compiler''),
      (''make'', Native builtin_make, ''GNU make utility''),
      (''git'', Native builtin_git, ''Distributed version control''),
      (''python'', Native builtin_python, ''Python interpreter''),
      (''perl'', Native builtin_perl, ''Perl interpreter''),
      (''ruby'', Native builtin_ruby, ''Ruby interpreter''),
      (''node'', Native builtin_node, ''Node.js runtime''),
      (''rustc'', Native builtin_rustc, ''Rust compiler''),
      (''go'', Native builtin_go, ''Go compiler''),
      (''zig'', Native builtin_zig, ''Zig compiler''),
      (''docker'', Native builtin_docker, ''Container platform''),
      (''kubectl'', Native builtin_kubectl, ''Kubernetes command-line tool''),
      (''helm'', Native builtin_helm, ''Kubernetes package manager''),
      (''terraform'', Native builtin_terraform, ''Infrastructure as code''),
      (''ansible'', Native builtin_ansible, ''IT automation platform''),
      (''puppet'', Native builtin_puppet, ''Configuration management''),
      (''chef'', Native builtin_chef, ''Configuration management''),
      (''salt'', Native builtin_salt, ''Configuration management''),
      (''vagrant'', Native builtin_vagrant, ''Development environment management''),
      (''virtualbox'', Native builtin_virtualbox, ''Virtualization software''),
      (''qemu'', Native builtin_qemu, ''Machine emulator and virtualizer''),
      (''vmware'', Native builtin_vmware, ''Virtualization platform''),
      (''parallel'', Native builtin_parallel, ''Execute commands in parallel''),
      (''timeout'', Timeout, ''Run a command with time limit''),
      (''nice'', Native builtin_nice, ''Run a program with modified priority''),
      (''renice'', Native builtin_renice, ''Alter priority of running processes''),
      (''killall'', Native builtin_killall, ''Kill processes by name''),
      (''pgrep'', Native builtin_pgrep, ''Look up processes''),
      (''pkill'', Native builtin_pkill, ''Kill processes by name''),
      (''top'', Native builtin_top, ''Display dynamic real-time information''),
      (''htop'', Native builtin_htop, ''Interactive process viewer''),
      (''free'', Native builtin_free, ''Display amount of free and used memory''),
      (''vmstat'', Native builtin_vmstat, ''Virtual memory statistics''),
      (''iostat'', Native builtin_iostat, ''Report CPU and I/O statistics''),
      (''mpstat'', Native builtin_mpstat, ''Report processor statistics''),
      (''sar'', Native builtin_sar, ''Collect and report system activity''),
      (''strace'', Native builtin_strace, ''Trace system calls and signals''),
      (''ltrace'', Native builtin_ltrace, ''Trace library calls''),
      (''gdb'', Native builtin_gdb, ''GNU debugger''),
      (''valgrind'', Native builtin_valgrind, ''Memory debugging tool''),
      (''perf'', Native builtin_perf, ''Performance analysis tool''),
      (''sysctl'', Native builtin_sysctl, ''Configure kernel parameters''),
      (''modprobe'', Native builtin_modprobe, ''Add/remove kernel modules''),
      (''insmod'', Native builtin_insmod, ''Insert module into the kernel''),
      (''rmmod'', Native builtin_rmmod, ''Remove module from the kernel''),
      (''lsmod'', Native builtin_lsmod, ''Show kernel module status''),
      (''lspci'', Native builtin_lspci, ''List PCI devices''),
      (''lsusb'', Native builtin_lsusb, ''List USB devices''),
      (''lsblk'', Native builtin_lsblk, ''List block devices''),
      (''fdisk'', Native builtin_fdisk, ''Disk partition manipulator''),
      (''partprobe'', Native builtin_partprobe, ''Inform OS of partition changes''),
      (''mkfs'', Native builtin_mkfs, ''Build a Linux filesystem''),
      (''fsck'', Native builtin_fsck, ''Check and repair filesystem''),
      (''dd'', Native builtin_dd, ''Convert and copy files''),
      (''mkswap'', Native builtin_mkswap, ''Set up a swap area''),
      (''swapon'', Native builtin_swapon, ''Enable devices and files for swapping''),
      (''swapoff'', Native builtin_swapoff, ''Disable devices and files for swapping''),
      (''brctl'', Native builtin_brctl, ''Ethernet bridge administration''),
      (''ip'', Native builtin_ip, ''Show or manipulate routing and devices''),
      (''ifup'', Native builtin_ifup, ''Bring a network interface up''),
      (''ifdown'', Native builtin_ifdown, ''Take a network interface down''),
      (''host'', Native builtin_host, ''DNS lookup utility''),
      (''dig'', Native builtin_dig, ''DNS lookup utility''),
      (''nslookup'', Native builtin_nslookup, ''Query Internet name servers''),
      (''traceroute'', Native builtin_traceroute, ''Trace route to host''),
      (''mtr'', Native builtin_mtr, ''Network diagnostic tool''),
      (''tcpdump'', Native builtin_tcpdump, ''Dump traffic on a network''),
      (''wireshark'', Native builtin_wireshark, ''Network protocol analyzer''),
      (''tshark'', Native builtin_tshark, ''Network protocol analyzer''),
      (''nmap'', Native builtin_nmap, ''Network exploration and security auditing''),
      (''netcat'', Native builtin_netcat, ''TCP/IP swiss army knife''),
      (''socat'', Native builtin_socat, ''Multipurpose relay''),
      (''screen'', Native builtin_screen, ''Screen manager with VT100/ANSI emulation''),
      (''tmux'', Native builtin_tmux, ''Terminal multiplexer''),
      (''byobu'', Native builtin_byobu, ''Text-based window manager''),
      (''dbus'', Native builtin_dbus, ''Interprocess messaging system''),
      (''systemd'', Native builtin_systemd, ''System and service manager'')]"

definition shell_register_builtins :: "builtin_cmd list \<Rightarrow> builtin_cmd list" where
  "shell_register_builtins bt = register_all builtin_entries bt"

text \<open>A second registration with other descriptions, which nothing calls.\<close>

definition extended_entries :: "(string \<times> handler \<times> string) list" where
  "extended_entries =
     [(''echo'', Native builtin_echo, ''Display a line of text''),
      (''cd'', Native builtin_cd, ''Change the shell working directory''),
      (''pwd'', Native builtin_pwd, ''Print name of current/working directory''),
      (''export'', Native builtin_export, ''Set export attribute for variables''),
      (''set'', Native builtin_set, ''Set or unset values of shell attributes''),
      (''unset'', Native builtin_unset, ''Unset values and attributes of variables''),
      (''env'', Native builtin_env, ''Display environment variables''),
      (''history'', Native builtin_history, ''Display or manipulate the history list''),
      (''alias'', Native builtin_alias, ''Define or display aliases''),
      (''unalias'', Native builtin_unalias, ''Remove each NAME from the list of defined aliases''),
      (''jobs'', Native builtin_jobs, ''List active jobs''),
      (''fg'', Native builtin_fg, ''Put job in foreground''),
      (''bg'', Native builtin_bg, ''Put job in background''),
      (''clear'', Native builtin_clear, ''Clear the terminal screen''),
      (''exit'', Native builtin_exit, ''Exit the shell''),
      (''help'', Table builtin_help, ''Display help for builtin commands''),
      (''type'', Table builtin_type, ''Display information about command type''),
      (''read'', Native builtin_read, ''Read a line from standard input''),
      (''test'', Native builtin_test, ''Check file types and compare values''),
      (''['', Native builtin_bracket, ''Evaluate conditional expression''),
      (''printf'', Native builtin_printf, ''Format and print data''),
      (''true'', Native builtin_true, ''Return a successful result''),
      (''false'', Native builtin_false, ''Return an unsuccessful result''),
      (''sleep'', Looping builtin_sleep, ''Delay for a specified time''),
      (''date'', Native builtin_date, ''Display or set date and time''),
      (''umask'', Native builtin_umask, ''Get or set the file creation mask''),
      (''ulimit'', Native builtin_ulimit, ''Control resources available to the shell''),
      (''shift'', Native builtin_shift, ''Shift positional parameters''),
      (''trap'', Native builtin_trap, ''Trap signals and other events''),
      (''umount'', Native builtin_umount, ''Unmount file systems''),
      (''mount'', Native builtin_mount, ''Mount a file system''),
      (''df'', Native builtin_df, ''Report file system disk space usage''),
      (''ps'', Native builtin_ps, ''Report process status''),
      (''kill'', Native builtin_kill, ''Send a signal to a process''),
      (''nohup'', Nohup, ''Run a command immune to hangups''),
      (''wait'', Native builtin_wait, ''Wait for process completion''),
      (''exec'', Exec, ''Execute a command''),
      (''.'', Dot, ''Execute commands from a file''),
      (''source'', Source, ''Execute commands from a file''),
      (''eval'', Eval, ''Evaluate several commands/arguments''),
      (''let'', Native builtin_let, ''Evaluate arithmetic expressions''),
      (''yes'', Looping builtin_yes, ''Output a string repeatedly''),
      (''head'', Native builtin_head, ''Output the first part of files''),
      (''tail'', Native builtin_tail, ''Output the last part of files''),
      (''wc'', Native builtin_wc, ''Print newline, word, and byte counts''),
      (''grep'', Native builtin_grep, ''Print lines matching a pattern''),
      (''sed'', Native builtin_sed, ''Stream editor for filtering text''),
      (''awk'', Native builtin_awk, ''Pattern scanning and processing language''),
      (''cat'', Looping builtin_cat, ''Concatenate files and print''),
      (''ls'', Native builtin_ls, ''List directory contents''),
      (''mkdir'', Native builtin_mkdir, ''Make directories''),
      (''rmdir'', Native builtin_rmdir, ''Remove empty directories''),
      (''rm'', Native builtin_rm, ''Remove files or directories''),
      (''touch'', Native builtin_touch, ''Change file timestamps''),
      (''cp'', Native builtin_cp, ''Copy files and directories''),
      (''mv'', Native builtin_mv, ''Move or rename files''),
      (''chmod'', Native builtin_chmod, ''Change file mode bits''),
      (''chown'', Native builtin_chown, ''Change file owner and group''),
      (''whoami'', Native builtin_whoami, ''Print effective user name''),
      (''id'', Native builtin_id, ''Print user and group information''),
      (''uptime'', Native builtin_uptime, ''Show how long the system has been running''),
      (''uname'', Native builtin_uname, ''Print system information''),
      (''hostname'', Native builtin_hostname, ''Show or set the system host name''),
      (''which'', Table builtin_which, ''Locate a command''),
      (''time'', Native builtin_time, ''Run a command and report time used''),
      (''xargs'', Native builtin_xargs, ''Build and execute command lines''),
      (''find'', Native builtin_find, ''Search for files in a directory hierarchy''),
      (''sort'', Native builtin_sort, ''Sort lines of text files''),
      (''uniq'', Native builtin_uniq, ''Report or omit repeated lines''),
      (''tr'', Native builtin_tr, ''Translate or delete characters''),
      (''cut'', Native builtin_cut, ''Remove sections from each line''),
      (''paste'', Native builtin_paste, ''Merge lines of files''),
      (''join'', Native builtin_join, ''Join lines on a common field''),
      (''comm'', Native builtin_comm, ''Compare two sorted files line by line''),
      (''diff'', Native builtin_diff, ''Compare files line by line''),
      (''patch'', Native builtin_patch, ''Apply a diff file to an original''),
      (''tar'', Native builtin_tar, ''Archive files''),
      (''gzip'', Native builtin_gzip, ''Compress or expand files''),
      (''gunzip'', Native builtin_gunzip, ''Compress or expand files''),
      (''bzip2'', Native builtin_bzip2, ''Compress or expand files''),
      (''xz'', Native builtin_xz, ''Compress or expand files''),
      (''zip'', Native builtin_zip, ''Package and compress files''),
      (''unzip'', Native builtin_unzip, ''Extract compressed files''),
      (''ssh'', Native builtin_ssh, ''OpenSSH remote login client''),
      (''scp'', Native builtin_scp, ''Secure copy remote file transfer''),
      (''wget'', Native builtin_wget, ''Network downloader''),
      (''curl'', Native builtin_curl, ''Transfer data from or to a server''),
      (''ping'', Native builtin_ping, ''Send ICMP packets to network hosts''),
      (''ifconfig'', Native builtin_ifconfig, ''Configure network interfaces''),
      (''route'', Native builtin_route, ''Show or manipulate the IP routing table''),
      (''netstat'', Native builtin_netstat, ''Print network connections''),
      (''ss'', Native builtin_ss, ''Another netstat implementation''),
      (''iptables'', Native builtin_iptables, ''IP firewall administration''),
      (''systemctl'', Native builtin_systemctl, ''Control the systemd system''),
      (''service'', Native builtin_service, ''Run a System V init script''),
      (''journalctl'', Native builtin_journalctl, ''Query the systemd journal''),
      (''dmesg'', Native builtin_dmesg, ''Print or control the kernel ring buffer''),
      (''logger'', Native builtin_logger, ''Add entries to the system log''),
      (''wall'', Native builtin_wall, ''Send a message to every user''),
      (''write'', Native builtin_write, ''Send a message to another user''),
      (''tee'', Native builtin_tee, ''Read from stdin and write to stdout and files''),
      (''less'', Native builtin_less, ''View file content with pagination''),
      (''more'', Native builtin_more, ''File perusal filter for crt viewing''),
      (''vi'', Native builtin_vi, ''Vi IMproved text editor''),
      (''nano'', Native builtin_nano, ''Nano'' @ [CHR 0x27] @ ''s ANOther editor''),
      (''emacs'', Native builtin_emacs, ''GNU Emacs editor''),
      (''vim'', Native builtin_vim, ''Vi IMproved text editor''),
      (''gcc'', Native builtin_gcc, ''GNU C compiler''),
      (''make'', Native builtin_make, ''GNU make utility''),
      (''git'', Native builtin_git, ''Distributed version control''),
      (''python'', Native builtin_python, ''Python interpreter''),
      (''perl'', Native builtin_perl, ''Perl interpreter''),
      (''ruby'', Native builtin_ruby, ''Ruby interpreter''),
      (''node'', Native builtin_node, ''Node.js JavaScript runtime''),
      (''rustc'', Native builtin_rustc, ''Rust compiler''),
      (''go'', Native builtin_go, ''Go programming language compiler''),
      (''zig'', Native builtin_zig, ''Zig compiler''),
      (''docker'', Native builtin_docker, ''Container platform''),
      (''kubectl'', Native builtin_kubectl, ''Kubernetes command-line tool''),
      (''helm'', Native builtin_helm, ''Kubernetes package manager''),
      (''terraform'', Native builtin_terraform, ''Infrastructure as code''),
      (''ansible'', Native builtin_ansible, ''IT automation platform''),
      (''puppet'', Native builtin_puppet, ''Configuration management''),
      (''chef'', Native builtin_chef, ''Configuration management''),
      (''salt'', Native builtin_salt, ''Configuration management''),
      (''vagrant'', Native builtin_vagrant, ''Development environment management''),
      (''virtualbox'', Native builtin_virtualbox, ''Virtualization software''),
      (''qemu'', Native builtin_qemu, ''Machine emulator and virtualizer''),
      (''vmware'', Native builtin_vmware, ''Virtualization platform''),
      (''parallel'', Native builtin_parallel, ''Execute commands in parallel''),
      (''timeout'', Timeout, ''Run a command with time limit''),
      (''nice'', Native builtin_nice, ''Run a program with modified priority''),
      (''renice'', Native builtin_renice, ''Alter priority of running processes''),
      (''killall'', Native builtin_killall, ''Kill processes by name''),
      (''pgrep'', Native builtin_pgrep, ''Look up processes''),
      (''pkill'', Native builtin_pkill, ''Kill processes by name''),
      (''top'', Native builtin_top, ''Display dynamic real-time information''),
      (''htop'', Native builtin_htop, ''Interactive process viewer''),
      (''free'', Native builtin_free, ''Display amount of free and used memory''),
      (''vmstat'', Native builtin_vmstat, ''Virtual memory statistics''),
      (''iostat'', Native builtin_iostat, ''Report CPU and I/O statistics''),
      (''mpstat'', Native builtin_mpstat, ''Report processor statistics''),
      (''sar'', Native builtin_sar, ''Collect and report system activity''),
      (''strace'', Native builtin_strace, ''Trace system calls and signals''),
      (''ltrace'', Native builtin_ltrace, ''Trace library calls''),
      (''gdb'', Native builtin_gdb, ''GNU debugger''),
      (''valgrind'', Native builtin_valgrind, ''Memory debugging tool''),
      (''perf'', Native builtin_perf, ''Performance analysis tool''),
      (''sysctl'', Native builtin_sysctl, ''Configure kernel parameters''),
      (''modprobe'', Native builtin_modprobe, ''Add/remove kernel modules''),
      (''insmod'', Native builtin_insmod, ''Insert module into the kernel''),
      (''rmmod'', Native builtin_rmmod, ''Remove module from the kernel''),
      (''lsmod'', Native builtin_lsmod, ''Show kernel module status''),
      (''lspci'', Native builtin_lspci, ''List PCI devices''),
      (''lsusb'', Native builtin_lsusb, ''List USB devices''),
      (''lsblk'', Native builtin_lsblk, ''List block devices''),
      (''fdisk'', Native builtin_fdisk, ''Disk partition manipulator''),
      (''partprobe'', Native builtin_partprobe, ''Inform OS of partition changes''),
      (''mkfs'', Native builtin_mkfs, ''Build a Linux filesystem''),
      (''fsck'', Native builtin_fsck, ''Check and repair filesystem''),
      (''dd'', Native builtin_dd, ''Convert and copy files''),
      (''mkswap'', Native builtin_mkswap, ''Set up a swap area''),
      (''swapon'', Native builtin_swapon, ''Enable devices and files for swapping''),
      (''swapoff'', Native builtin_swapoff, ''Disable devices and files for swapping''),
      (''brctl'', Native builtin_brctl, ''Ethernet bridge administration''),
      (''ip'', Native builtin_ip, ''Show or manipulate routing and devices''),
      (''ifup'', Native builtin_ifup, ''Bring a network interface up''),
      (''ifdown'', Native builtin_ifdown, ''Take a network interface down''),
      (''host'', Native builtin_host, ''DNS lookup utility''),
      (''dig'', Native builtin_dig, ''DNS lookup utility''),
      (''nslookup'', Native builtin_nslookup, ''Query Internet name servers''),
      (''traceroute'', Native builtin_traceroute, ''Trace route to host''),
      (''mtr'', Native builtin_mtr, ''Network diagnostic tool''),
      (''tcpdump'', Native builtin_tcpdump, ''Dump traffic on a network''),
      (''wireshark'', Native builtin_wireshark, ''Network protocol analyzer''),
      (''tshark'', Native builtin_tshark, ''Network protocol analyzer''),
      (''nmap'', Native builtin_nmap, ''Network exploration and security auditing''),
      (''netcat'', Native builtin_netcat, ''TCP/IP swiss army knife''),
      (''socat'', Native builtin_socat, ''Multipurpose relay''),
      (''screen'', Native builtin_screen, ''Screen manager with VT100/ANSI emulation''),
      (''tmux'', Native builtin_tmux, ''Terminal multiplexer''),
      (''byobu'', Native builtin_byobu, ''Text-based window manager''),
      (''dbus'', Native builtin_dbus, ''Interprocess messaging system''),
      (''systemd'', Native builtin_systemd, ''System and service manager'')]"

definition shell_register_builtins_extended :: "builtin_cmd list \<Rightarrow> builtin_cmd list" where
  "shell_register_builtins_extended bt = register_all extended_entries bt"

end
