(* ===== verification/Mira_Shell_Inv.thy ===== *)
theory Mira_Shell_Inv
  imports Mira_Shell_Exec
begin

text \<open>
  The invariant of the shell: its tables stay within their arrays, the strings stored in them
  within their fields, and the file system, the keyboard queue and the input line it works on
  stay well formed. Every builtin keeps it, so every syntax tree and every command line does, whatever the fuel.
\<close>

section \<open>The invariant\<close>

definition vars_ok :: "shell_var list \<Rightarrow> bool" where
  "vars_ok vs \<longleftrightarrow> length vs \<le> SHELL_MAX_VARS \<and> (\<forall>v \<in> set vs. length (sv_name v) < 64 \<and> length (sv_value v) < 256)"

definition aliases_ok :: "shell_alias list \<Rightarrow> bool" where
  "aliases_ok as \<longleftrightarrow> length as \<le> SHELL_MAX_ALIASES \<and> (\<forall>a \<in> set as. length (sa_name a) < 64 \<and> length (sa_value a) < 256)"

definition shell_ok :: "shell \<Rightarrow> bool" where
  "shell_ok s \<longleftrightarrow> vars_ok (global_vars s) \<and> aliases_ok (global_aliases s) \<and> length (global_functions s) \<le> SHELL_MAX_SCRIPTS \<and>
     length (global_jobs s) \<le> SHELL_MAX_JOBS \<and> length (global_history s) \<le> SHELL_MAX_HISTORY \<and>
     length (current_dir (sh_ctx s)) < 256 \<and> vfs_wf (fs s) \<and> kbd_ok (sh_kbd s) \<and> input_ok (sh_input s)"

lemma shell_ok_fields [simp]:
  "shell_ok (s\<lparr>con := x1\<rparr>) = shell_ok s" "shell_ok (s\<lparr>gfx := x2\<rparr>) = shell_ok s" "shell_ok (s\<lparr>ui := x3\<rparr>) = shell_ok s"
  "shell_ok (s\<lparr>clock_reads := x4\<rparr>) = shell_ok s"
  "shell_ok (s\<lparr>global_history_index := x7\<rparr>) = shell_ok s"
  "shell_ok (s\<lparr>fb_ready := x8\<rparr>) = shell_ok s" "shell_ok (s\<lparr>fb_width := x9\<rparr>) = shell_ok s" "shell_ok (s\<lparr>fb_height := x10\<rparr>) = shell_ok s"
  by (simp_all add: shell_ok_def)

lemma shell_ok_ctx: "shell_ok s \<Longrightarrow> length (current_dir c) < 256 \<Longrightarrow> shell_ok (s\<lparr>sh_ctx := c\<rparr>)"
  by (simp add: shell_ok_def)

lemma shell_ok_status [simp]:
  "shell_ok (s\<lparr>sh_ctx := (sh_ctx s)\<lparr>last_exit_status := r\<rparr>\<rparr>) = shell_ok s"
  "shell_ok (s\<lparr>sh_ctx := (sh_ctx s)\<lparr>exit_requested := e\<rparr>\<rparr>) = shell_ok s"
  by (simp_all add: shell_ok_def)

lemma shell_ok_fs: "shell_ok s \<Longrightarrow> vfs_wf f \<Longrightarrow> shell_ok (s\<lparr>fs := f\<rparr>)"
  by (simp add: shell_ok_def)

lemma shell_ok_wf: "shell_ok s \<Longrightarrow> vfs_wf (fs s)"
  by (simp add: shell_ok_def)

lemma shell_ok_heap [simp]: "shell_ok (set_heap_outcomes km s) = shell_ok s"
  by (simp add: set_heap_outcomes_def shell_ok_def)

lemma shell_ok_ticks: "timer_ticks s = (t, s') \<Longrightarrow> shell_ok s' = shell_ok s"
  by (auto simp: timer_ticks_def)

lemma shell_ok_jobs: "shell_ok s \<Longrightarrow> length js \<le> length (global_jobs s) \<Longrightarrow> shell_ok (s\<lparr>global_jobs := js\<rparr>)"
  by (simp add: shell_ok_def)

lemma shell_ok_tables: "same_tables s s' \<Longrightarrow> shell_ok s' = shell_ok s"
  by (simp add: same_tables_def shell_ok_def)

section \<open>Output and tables\<close>

lemma draw_char_ok [simp]: "shell_ok (shell_draw_char c fg bg s) = shell_ok s"
  by (simp add: shell_draw_char_def Let_def)

lemma draw_string_ok [simp]: "shell_ok (shell_draw_string str fg bg s) = shell_ok s"
  by (induction str arbitrary: s) simp_all

lemma output_ok [simp]:
  "shell_ok (say str s) = shell_ok s" "shell_ok (sayc c s) = shell_ok s"
  "shell_ok (shell_print_error str s) = shell_ok s" "shell_ok (shell_print_warning str s) = shell_ok s"
  "shell_ok (shell_print_debug str s) = shell_ok s"
  by (simp_all add: say_def sayc_def shell_print_error_def shell_print_warning_def shell_print_debug_def)

lemma set_variable_ok [kernel_inv]: "shell_ok s \<Longrightarrow> shell_set_variable n v s = Inr s' \<Longrightarrow> shell_ok s'"
proof (erule set_variable_cases)
  fix vs assume ok: "shell_ok s" and v: "length v < 256" and s': "s' = s\<lparr>global_vars := vs\<rparr>"
    and u: "update_first (\<lambda>e. sv_name e = n) (\<lambda>e. e\<lparr>sv_value := v\<rparr>) (global_vars s) = Some vs"
  have "set vs \<subseteq> set (global_vars s) \<union> (\<lambda>e. e\<lparr>sv_value := v\<rparr>) ` {x \<in> set (global_vars s). sv_name x = n}"
    "length vs = length (global_vars s)"
    using update_first_Some [OF u] by auto
  then have "vars_ok vs" using ok v by (fastforce simp: shell_ok_def vars_ok_def)
  then show ?thesis using ok s' by (simp add: shell_ok_def)
qed (auto simp: shell_ok_def vars_ok_def)

lemma export_variable_ok [kernel_inv]: "shell_ok s \<Longrightarrow> shell_ok (shell_export_variable n s)"
proof (cases "update_first (\<lambda>e. sv_name e = n) (\<lambda>e. e\<lparr>sv_exported := True\<rparr>) (global_vars s)")
  case (Some vs)
  assume ok: "shell_ok s"
  have "set vs \<subseteq> set (global_vars s) \<union> (\<lambda>e. e\<lparr>sv_exported := True\<rparr>) ` {x \<in> set (global_vars s). sv_name x = n}"
    "length vs = length (global_vars s)"
    using update_first_Some [OF Some] by auto
  then have "vars_ok vs" using ok by (fastforce simp: shell_ok_def vars_ok_def)
  then show ?thesis using ok Some by (simp add: shell_ok_def shell_export_variable_def)
qed (simp add: shell_export_variable_def)

lemma add_alias_ok [kernel_inv]: "shell_ok s \<Longrightarrow> shell_add_alias n v s = Inr s' \<Longrightarrow> shell_ok s'"
  by (auto simp: shell_add_alias_def shell_ok_def aliases_ok_def split: if_splits)

lemma add_history_ok [kernel_inv]: "shell_ok s \<Longrightarrow> shell_ok (shell_add_history cmd s)"
  by (auto simp: shell_add_history_def ds_strdup_def set_heap_outcomes_def shell_ok_def SHELL_MAX_HISTORY_def Let_def split: prod.splits)

lemma update_job_ok [kernel_inv]: "shell_ok s \<Longrightarrow> update_job P f s = Some s' \<Longrightarrow> shell_ok s'"
  by (auto simp: update_job_def intro!: shell_ok_jobs dest: update_first_Some)

lemma job_add_ok [kernel_inv]: "shell_ok s \<Longrightarrow> shell_ok (shell_job_add job s)"
  by (auto simp: shell_job_add_def shell_ok_def)

lemma job_remove_ok [kernel_inv]: "shell_ok s \<Longrightarrow> shell_ok (shell_job_remove j s)"
  using remove_first_subset [of _ "global_jobs s"] by (simp add: shell_job_remove_def shell_ok_jobs)

lemma job_state_ok [kernel_inv]:
  "shell_ok s \<Longrightarrow> shell_ok (shell_job_kill j s)"
  "shell_ok s \<Longrightarrow> shell_ok (shell_job_foreground j s)"
  "shell_ok s \<Longrightarrow> shell_ok (shell_job_background j s)"
  by (auto simp: shell_job_kill_def shell_job_foreground_def shell_job_background_def split: option.splits
      intro: job_remove_ok update_job_ok)

lemma function_register_ok [kernel_inv]: "shell_ok s \<Longrightarrow> shell_function_register n b s = Inr s' \<Longrightarrow> shell_ok s'"
  by (auto simp: shell_function_register_def shell_ok_def split: if_splits)

lemma fold_remove_first:
  "set (fold (\<lambda>a. remove_first (\<lambda>v. f v = a)) as vs) \<subseteq> set vs \<and> length (fold (\<lambda>a. remove_first (\<lambda>v. f v = a)) as vs) \<le> length vs"
proof (induction as arbitrary: vs)
  case (Cons a as)
  from Cons [of "remove_first (\<lambda>v. f v = a) vs"] remove_first_subset [of "\<lambda>v. f v = a" vs] show ?case by auto
qed simp

section \<open>Results that satisfy a predicate\<close>

text \<open>
  \<open>on_result P m\<close> says that \<open>P\<close> holds of what \<open>m\<close> returns, if it returns; it is computed
  along the code by \<open>simp\<close>, and \<open>shell_wp\<close> holds the rules for the operations.
\<close>

named_theorems shell_wp \<open>introduction rules for on_result\<close>

definition on_result :: "('a \<Rightarrow> bool) \<Rightarrow> 'a res \<Rightarrow> bool" where
  "on_result P m \<longleftrightarrow> (\<forall>x. m = Inr x \<longrightarrow> P x)"

lemma on_result_simps [simp]:
  "on_result P (Inr x) = P x"
  "on_result P (Inl e)"
  "on_result P (bindR m f) = on_result (\<lambda>x. on_result P (f x)) m"
  by (auto simp: on_result_def)

lemma on_resultD: "on_result P m \<Longrightarrow> m = Inr x \<Longrightarrow> P x"
  by (simp add: on_result_def)

lemma on_result_mono: "on_result Q m \<Longrightarrow> (\<And>x. Q x \<Longrightarrow> P x) \<Longrightarrow> on_result P m"
  by (simp add: on_result_def)

lemma on_result_pure [shell_wp]:
  "(\<And>x. P x) \<Longrightarrow> on_result P (shell_resolve_variables a s)"
  "(\<And>y. Q y) \<Longrightarrow> on_result Q (fits k b)"
  "(\<And>j. R j) \<Longrightarrow> on_result R (job_line jb)"
  "(\<And>w. W w) \<Longrightarrow> on_result W (let_eval e acc)"
  "(\<And>n. N n) \<Longrightarrow> on_result N (get_node i f)"
  "(\<And>b. B b) \<Longrightarrow> on_result B (ls_line c)"
  "(\<And>l. L l) \<Longrightarrow> on_result L (vfs_lookup p f)"
  by (simp_all add: on_result_def)

lemma on_result_vfs [shell_wp]:
  "vfs_wf f \<Longrightarrow> (\<And>r f'. vfs_wf f' \<Longrightarrow> P (r, f')) \<Longrightarrow> on_result P (vfs_open path flags f)"
  "vfs_wf f \<Longrightarrow> (\<And>r f'. vfs_wf f' \<Longrightarrow> P (r, f')) \<Longrightarrow> on_result P (vfs_close fd f)"
  "vfs_wf f \<Longrightarrow> (\<And>r b f'. vfs_wf f' \<Longrightarrow> Q (r, b, f')) \<Longrightarrow> on_result Q (vfs_read fd n f)"
  "vfs_wf f \<Longrightarrow> (\<And>r f'. vfs_wf f' \<Longrightarrow> W (r, f')) \<Longrightarrow> on_result W (vfs_create_file path data k f)"
  by (auto simp: on_result_def intro: vfs_open_wf vfs_close_wf vfs_read_wf vfs_create_file_wf)

lemma on_result_tables [shell_wp]:
  "shell_ok s \<Longrightarrow> (\<And>s'. shell_ok s' \<Longrightarrow> P s') \<Longrightarrow> on_result P (shell_set_variable n v s)"
  "shell_ok s \<Longrightarrow> (\<And>s'. shell_ok s' \<Longrightarrow> P s') \<Longrightarrow> on_result P (shell_set_variable_int n w s)"
  "shell_ok s \<Longrightarrow> (\<And>s'. shell_ok s' \<Longrightarrow> P s') \<Longrightarrow> on_result P (shell_add_alias n v s)"
  by (auto simp: on_result_def shell_set_variable_int_def intro: set_variable_ok add_alias_ok)

section \<open>Builtins\<close>

text \<open>What an operation that changes the shell, or a command, has to satisfy.\<close>

definition keeps_op :: "(shell \<Rightarrow> shell res) \<Rightarrow> bool" where
  "keeps_op f \<longleftrightarrow> (\<forall>s. shell_ok s \<longrightarrow> on_result shell_ok (f s))"

definition keeps :: "(shell \<Rightarrow> (i32 \<times> shell) res) \<Rightarrow> bool" where
  "keeps f \<longleftrightarrow> (\<forall>s. shell_ok s \<longrightarrow> on_result (\<lambda>(r, s'). shell_ok s') (f s))"

lemma keeps_op_wp: "keeps_op f \<Longrightarrow> shell_ok s \<Longrightarrow> (\<And>s'. shell_ok s' \<Longrightarrow> P s') \<Longrightarrow> on_result P (f s)"
  by (auto simp: keeps_op_def on_result_def)

lemma keeps_wp: "keeps f \<Longrightarrow> shell_ok s \<Longrightarrow> (\<And>r s'. shell_ok s' \<Longrightarrow> P (r, s')) \<Longrightarrow> on_result P (f s)"
  by (fastforce simp: keeps_def on_result_def)

lemma echo_chars_ok [simp]: "shell_ok (echo_chars a s) = shell_ok s"
  by (induction a s rule: echo_chars.induct) simp_all

lemma printf_args_ok [simp]: "shell_ok (printf_args fmt as s) = shell_ok s"
  by (induction as arbitrary: s) simp_all

lemma fold_ok [simp]: "(\<And>x s. shell_ok (f x s) = shell_ok s) \<Longrightarrow> shell_ok (fold f xs s) = shell_ok s"
  by (induction xs arbitrary: s) simp_all

lemma echo_args_ok [shell_wp]: "shell_ok s \<Longrightarrow> (\<And>s'. shell_ok s' \<Longrightarrow> P s') \<Longrightarrow> on_result P (echo_args as s)"
  by (induction as arbitrary: s) (simp_all add: Let_def shell_wp)

lemma export_args_ok [shell_wp]: "shell_ok s \<Longrightarrow> (\<And>s'. shell_ok s' \<Longrightarrow> P s') \<Longrightarrow> on_result P (export_args as s)"
  by (induction as arbitrary: s) (simp_all add: shell_wp export_variable_ok split: option.splits)

lemma set_args_ok [shell_wp]: "shell_ok s \<Longrightarrow> (\<And>s'. shell_ok s' \<Longrightarrow> P s') \<Longrightarrow> on_result P (set_args as s)"
  by (induction as arbitrary: s) (simp_all add: shell_wp split: option.splits)

lemma alias_args_ok [shell_wp]: "shell_ok s \<Longrightarrow> (\<And>s'. shell_ok s' \<Longrightarrow> P s') \<Longrightarrow> on_result P (alias_args as s)"
  by (induction as arbitrary: s) (simp_all add: shell_wp split: option.splits)

lemma history_lines_ok [shell_wp]: "shell_ok s \<Longrightarrow> (\<And>s'. shell_ok s' \<Longrightarrow> P s') \<Longrightarrow> on_result P (history_lines i hs s)"
  by (induction hs arbitrary: i s) (simp_all split: option.splits)

lemma list_jobs_ok [shell_wp]: "shell_ok s \<Longrightarrow> (\<And>s'. shell_ok s' \<Longrightarrow> P s') \<Longrightarrow> on_result P (list_jobs js s)"
  by (induction js arbitrary: s) (simp_all add: shell_wp)

lemma help_lines_ok [shell_wp]: "shell_ok s \<Longrightarrow> (\<And>s'. shell_ok s' \<Longrightarrow> P s') \<Longrightarrow> on_result P (help_lines bs s)"
  by (induction bs arbitrary: s) (simp_all add: shell_wp)

lemma type_args_ok [shell_wp]: "shell_ok s \<Longrightarrow> (\<And>s'. shell_ok s' \<Longrightarrow> P s') \<Longrightarrow> on_result P (type_args as bt s)"
  by (induction as arbitrary: s) (simp_all add: shell_wp)

lemma shift_vars_ok [shell_wp]: "shell_ok s \<Longrightarrow> (\<And>s'. shell_ok s' \<Longrightarrow> P s') \<Longrightarrow> on_result P (shift_vars js n s)"
  by (induction js arbitrary: s) (simp_all add: shell_wp)

lemma shift_times_ok [shell_wp]: "shell_ok s \<Longrightarrow> (\<And>s'. shell_ok s' \<Longrightarrow> P s') \<Longrightarrow> on_result P (shift_times k n s)"
  by (induction k arbitrary: s) (simp_all add: shell_wp)

lemma wait_ticks_ok [shell_wp]: "shell_ok s \<Longrightarrow> (\<And>s'. shell_ok s' \<Longrightarrow> P s') \<Longrightarrow> on_result P (wait_ticks k target s)"
  by (induction k arbitrary: s) (simp_all add: timer_ticks_def)

lemma cat_loop_ok [shell_wp]: "shell_ok s \<Longrightarrow> (\<And>s'. shell_ok s' \<Longrightarrow> P s') \<Longrightarrow> on_result P (cat_loop k fd s)"
  by (induction k arbitrary: s) (simp_all add: Let_def shell_wp shell_ok_wf shell_ok_fs)

lemma cat_file_ok [shell_wp]: "shell_ok s \<Longrightarrow> (\<And>s'. shell_ok s' \<Longrightarrow> P s') \<Longrightarrow> on_result P (cat_file k a s)"
  by (simp add: cat_file_def Let_def shell_wp shell_ok_wf shell_ok_fs)

lemma cat_files_ok [shell_wp]: "shell_ok s \<Longrightarrow> (\<And>s'. shell_ok s' \<Longrightarrow> P s') \<Longrightarrow> on_result P (cat_files k as s)"
  by (induction as arbitrary: s) (auto intro!: shell_wp)

lemma ls_children_ok [shell_wp]: "shell_ok s \<Longrightarrow> (\<And>s'. shell_ok s' \<Longrightarrow> P s') \<Longrightarrow> on_result P (ls_children k c s)"
proof (induction k arbitrary: c s)
  case 0
  then show ?case by (cases c) simp_all
next
  case (Suc k)
  then show ?case by (cases c) (simp_all add: shell_wp)
qed

definition handler_ok :: "handler \<Rightarrow> bool" where
  "handler_ok h \<longleftrightarrow>
     (case h of
        Native f \<Rightarrow> \<forall>node. keeps (f node)
      | Looping f \<Rightarrow> \<forall>k node. keeps (f k node)
      | Table f \<Rightarrow> \<forall>bt node. keeps (f bt node)
      | _ \<Rightarrow> True)"

lemma unset_ok: "shell_ok s \<Longrightarrow> shell_ok (s\<lparr>global_vars := fold (\<lambda>a. remove_first (\<lambda>v. sv_name v = a)) as (global_vars s)\<rparr>)"
  using fold_remove_first [of sv_name as "global_vars s"] by (auto simp: shell_ok_def vars_ok_def)

lemma unalias_ok: "shell_ok s \<Longrightarrow> shell_ok (s\<lparr>global_aliases := fold (\<lambda>a. remove_first (\<lambda>v. sa_name v = a)) as (global_aliases s)\<rparr>)"
  using fold_remove_first [of sa_name as "global_aliases s"] by (auto simp: shell_ok_def aliases_ok_def)

lemma cd_ok: "keeps (builtin_cd node)"
  by (auto simp: keeps_def builtin_cd_def fits_def Let_def intro!: shell_wp shell_ok_ctx)

lemma variable_builtins_ok:
  "keeps (builtin_echo node)" "keeps (builtin_pwd node)" "keeps (builtin_export node)" "keeps (builtin_set node)"
  "keeps (builtin_unset node)" "keeps (builtin_env node)" "keeps (builtin_history node)" "keeps (builtin_read node)"
  "keeps (builtin_umask node)" "keeps (builtin_hostname node)" "keeps (builtin_shift node)" "keeps (builtin_let node)"
  by (simp_all add: keeps_def builtin_echo_def builtin_pwd_def builtin_export_def builtin_set_def builtin_unset_def builtin_env_def
      builtin_history_def builtin_read_def builtin_umask_def builtin_hostname_def set_or_show_def builtin_shift_def builtin_let_def
      Let_def shell_wp unset_ok)

lemma job_builtins_ok:
  "keeps (builtin_jobs node)" "keeps (builtin_fg node)" "keeps (builtin_bg node)" "keeps (builtin_kill node)"
  "keeps (builtin_killall node)" "keeps (builtin_wait node)"
  by (auto simp: keeps_def builtin_jobs_def builtin_fg_def builtin_bg_def builtin_kill_def builtin_killall_def builtin_wait_def
      Let_def split: option.splits intro: update_job_ok intro!: shell_wp shell_ok_jobs)

lemma alias_builtins_ok: "keeps (builtin_alias node)" "keeps (builtin_unalias node)"
  by (auto simp: keeps_def builtin_alias_def builtin_unalias_def alias_line_def unalias_ok intro!: shell_wp)

lemma control_builtins_ok:
  "keeps (builtin_clear node)" "keeps (builtin_exit node)" "keeps (builtin_help bt node)" "keeps (builtin_type bt node)"
  "keeps (builtin_which bt node)" "keeps (builtin_test node)" "keeps (builtin_bracket node)" "keeps (builtin_printf node)"
  "keeps (builtin_sleep k node)" "keeps (builtin_date node)" "keeps (builtin_uptime node)" "keeps (builtin_uname node)"
  by (simp_all add: keeps_def builtin_clear_def builtin_exit_def builtin_help_def builtin_type_def builtin_which_def
      builtin_bracket_def builtin_test_def builtin_printf_def builtin_sleep_def builtin_date_def builtin_uptime_def builtin_uname_def
      Let_def timer_ticks_def shell_wp shell_ok_tables [OF layout_tables] shell_ok_tables [OF background_tables])

lemma yes_ok: "keeps (builtin_yes k node)"
proof -
  have "yes_loop k str s = Inl Diverges" for str s by (induction k arbitrary: s) simp_all
  then show ?thesis by (simp add: keeps_def builtin_yes_def)
qed

lemma file_builtins_ok:
  "keeps (builtin_cat k node)" "keeps (builtin_ls node)" "keeps (builtin_mkdir node)" "keeps (builtin_touch node)"
  by (simp_all add: keeps_def builtin_cat_def builtin_ls_def builtin_mkdir_def builtin_touch_def create_empty_def Let_def
      shell_wp shell_ok_wf shell_ok_fs split: option.splits)

lemmas builtins_ok = cd_ok variable_builtins_ok job_builtins_ok alias_builtins_ok control_builtins_ok yes_ok file_builtins_ok

lemma stubs_ok:
  "keeps (builtin_true node)" "keeps (builtin_false node)" "keeps (builtin_ulimit node)" "keeps (builtin_trap node)"
  "keeps (builtin_umount node)" "keeps (builtin_mount node)" "keeps (builtin_df node)" "keeps (builtin_ps node)"
  "keeps (builtin_head node)" "keeps (builtin_tail node)" "keeps (builtin_wc node)" "keeps (builtin_grep node)"
  "keeps (builtin_sed node)" "keeps (builtin_awk node)" "keeps (builtin_rmdir node)" "keeps (builtin_rm node)"
  "keeps (builtin_cp node)" "keeps (builtin_mv node)" "keeps (builtin_chmod node)" "keeps (builtin_chown node)"
  "keeps (builtin_whoami node)" "keeps (builtin_id node)" "keeps (builtin_time node)" "keeps (builtin_xargs node)"
  "keeps (builtin_find node)" "keeps (builtin_sort node)" "keeps (builtin_uniq node)" "keeps (builtin_tr node)"
  "keeps (builtin_cut node)" "keeps (builtin_paste node)" "keeps (builtin_join node)" "keeps (builtin_comm node)"
  "keeps (builtin_diff node)" "keeps (builtin_patch node)" "keeps (builtin_tar node)" "keeps (builtin_gzip node)"
  "keeps (builtin_gunzip node)" "keeps (builtin_bzip2 node)" "keeps (builtin_xz node)" "keeps (builtin_zip node)"
  "keeps (builtin_unzip node)" "keeps (builtin_ssh node)" "keeps (builtin_scp node)" "keeps (builtin_wget node)"
  "keeps (builtin_curl node)" "keeps (builtin_ping node)" "keeps (builtin_ifconfig node)" "keeps (builtin_route node)"
  "keeps (builtin_netstat node)" "keeps (builtin_ss node)" "keeps (builtin_iptables node)" "keeps (builtin_systemctl node)"
  "keeps (builtin_service node)" "keeps (builtin_journalctl node)" "keeps (builtin_dmesg node)" "keeps (builtin_logger node)"
  "keeps (builtin_wall node)" "keeps (builtin_write node)" "keeps (builtin_tee node)" "keeps (builtin_less node)"
  "keeps (builtin_more node)" "keeps (builtin_vi node)" "keeps (builtin_nano node)" "keeps (builtin_emacs node)"
  "keeps (builtin_vim node)" "keeps (builtin_gcc node)" "keeps (builtin_make node)" "keeps (builtin_git node)"
  "keeps (builtin_python node)" "keeps (builtin_perl node)" "keeps (builtin_ruby node)" "keeps (builtin_node node)"
  "keeps (builtin_rustc node)" "keeps (builtin_go node)" "keeps (builtin_zig node)" "keeps (builtin_docker node)"
  "keeps (builtin_kubectl node)" "keeps (builtin_helm node)" "keeps (builtin_terraform node)" "keeps (builtin_ansible node)"
  "keeps (builtin_puppet node)" "keeps (builtin_chef node)" "keeps (builtin_salt node)" "keeps (builtin_vagrant node)"
  "keeps (builtin_virtualbox node)" "keeps (builtin_qemu node)" "keeps (builtin_vmware node)" "keeps (builtin_parallel node)"
  "keeps (builtin_nice node)" "keeps (builtin_renice node)" "keeps (builtin_pgrep node)" "keeps (builtin_pkill node)"
  "keeps (builtin_top node)" "keeps (builtin_htop node)" "keeps (builtin_free node)" "keeps (builtin_vmstat node)"
  "keeps (builtin_iostat node)" "keeps (builtin_mpstat node)" "keeps (builtin_sar node)" "keeps (builtin_strace node)"
  "keeps (builtin_ltrace node)" "keeps (builtin_gdb node)" "keeps (builtin_valgrind node)" "keeps (builtin_perf node)"
  "keeps (builtin_sysctl node)" "keeps (builtin_modprobe node)" "keeps (builtin_insmod node)" "keeps (builtin_rmmod node)"
  "keeps (builtin_lsmod node)" "keeps (builtin_lspci node)" "keeps (builtin_lsusb node)" "keeps (builtin_lsblk node)"
  "keeps (builtin_fdisk node)" "keeps (builtin_partprobe node)" "keeps (builtin_mkfs node)" "keeps (builtin_fsck node)"
  "keeps (builtin_dd node)" "keeps (builtin_mkswap node)" "keeps (builtin_swapon node)" "keeps (builtin_swapoff node)"
  "keeps (builtin_brctl node)" "keeps (builtin_ip node)" "keeps (builtin_ifup node)" "keeps (builtin_ifdown node)"
  "keeps (builtin_host node)" "keeps (builtin_dig node)" "keeps (builtin_nslookup node)" "keeps (builtin_traceroute node)"
  "keeps (builtin_mtr node)" "keeps (builtin_tcpdump node)" "keeps (builtin_wireshark node)" "keeps (builtin_tshark node)"
  "keeps (builtin_nmap node)" "keeps (builtin_netcat node)" "keeps (builtin_socat node)" "keeps (builtin_screen node)"
  "keeps (builtin_tmux node)" "keeps (builtin_byobu node)" "keeps (builtin_dbus node)" "keeps (builtin_systemd node)"
  by (simp_all only: keeps_def stub_defs on_result_simps prod.case output_ok HOL.simp_thms)

lemma handler_ok_simps:
  "handler_ok (Native f) \<longleftrightarrow> (\<forall>node. keeps (f node))"
  "handler_ok (Looping g) \<longleftrightarrow> (\<forall>k node. keeps (g k node))"
  "handler_ok (Table h) \<longleftrightarrow> (\<forall>bt node. keeps (h bt node))"
  "handler_ok Nohup" "handler_ok Exec" "handler_ok Dot" "handler_ok Source" "handler_ok Eval" "handler_ok Timeout"
  by (simp_all add: handler_ok_def)

lemma entries_ok: "list_all (\<lambda>e. handler_ok (fst (snd e))) builtin_entries"
  by (simp only: builtin_entries_def list.pred_inject fst_conv snd_conv handler_ok_simps builtins_ok stubs_ok HOL.simp_thms)

section \<open>The interpreter\<close>

lemma execute_line_ok [shell_wp]:
  assumes "\<And>node. keeps (exec node)" "shell_ok s" "\<And>s'. shell_ok s' \<Longrightarrow> P s'"
  shows "on_result P (execute_line exec cmd s)"
proof -
  have "on_result P (case ast of None \<Rightarrow> Inr (set_heap_outcomes km s) | Some n \<Rightarrow> bindR (exec n (set_heap_outcomes km s)) (\<lambda>(r, s2). Inr s2))"
    for ast km
    using assms(2,3) by (cases ast) (auto intro!: keeps_wp [OF assms(1)])
  then show ?thesis using assms(2,3) by (auto simp: execute_line_def Let_def on_result_def [of _ "tokenize _ _"]
      on_result_def [of _ "parse_tokens _ _"] on_result_def [of _ "shell_resolve_variables _ _"])
qed

lemma run_script_ok [shell_wp]:
  assumes "\<And>node. keeps (exec node)" "shell_ok s" "\<And>s'. shell_ok s' \<Longrightarrow> P s'"
  shows "on_result P (run_script exec path s)"
  using assms(2,3) by (simp add: run_script_def Let_def shell_wp shell_ok_wf shell_ok_fs assms(1))

lemma timeout_loop_ok [shell_wp]:
  assumes "\<And>node. keeps (exec node)" "shell_ok s" "\<And>s'. shell_ok s' \<Longrightarrow> P s'"
  shows "on_result P (timeout_loop k exec t cmd s)"
  using assms(2)
proof (induction k arbitrary: s)
  case (Suc k)
  then show ?case using assms(3) by (auto simp: timer_ticks_def intro!: keeps_wp [OF assms(1)])
qed simp

lemma run_handler_ok:
  assumes "\<And>node. keeps (exec node)" "handler_ok h"
  shows "keeps (run_handler k exec bt h node)"
proof -
  have child: "shell_ok s \<Longrightarrow> on_result (\<lambda>(r, s'). shell_ok s') (bindR (first_child node) (\<lambda>c. exec c s))" for s
    by (auto simp: on_result_def [of _ "first_child _"] intro!: keeps_wp [OF assms(1)])
  then show ?thesis
    using assms(2)
    by (cases h) (auto simp: run_handler_def handler_ok_def builtin_nohup_def builtin_exec_def builtin_dot_def builtin_source_def
        builtin_eval_def builtin_timeout_def keeps_def timer_ticks_def Let_def intro!: shell_wp assms(1))
qed

definition table_ok :: "builtin_cmd list \<Rightarrow> bool" where
  "table_ok bt \<longleftrightarrow> (\<forall>b \<in> set bt. handler_ok (bc_handler b))"

lemma execute_command_ok:
  assumes "\<And>node. keeps (exec node)" "table_ok bt"
  shows "keeps (execute_command k exec bt node)"
proof -
  have "shell_ok s \<Longrightarrow> on_result (\<lambda>(r, s'). shell_ok s')
      (case find (\<lambda>b. bc_name b = x) bt of Some b \<Rightarrow> run_handler k exec bt (bc_handler b) node s | None \<Rightarrow> Inr (127, shell_print_error e1 (shell_print_error e2 s)))"
    for s x e1 e2
    using assms(2) by (auto simp: table_ok_def find_Some_iff split: option.splits intro!: keeps_wp [OF run_handler_ok [OF assms(1)]])
  then show ?thesis by (auto simp: keeps_def execute_command_def split: list.splits intro!: shell_wp)
qed

lemma execute_list_ok:
  assumes "\<And>node. keeps (exec node)"
  shows "keeps (execute_sequence exec cs r)" "keeps (execute_pipeline exec cs r)"
proof -
  show "keeps (execute_sequence exec cs r)"
    unfolding keeps_def by (induction cs arbitrary: r) (auto intro!: keeps_wp [OF assms])
  show "keeps (execute_pipeline exec cs r)"
    unfolding keeps_def by (induction cs arbitrary: r) (auto intro!: keeps_wp [OF assms])
qed

lemma execute_node_ok:
  assumes "\<And>node. keeps (exec node)" "table_ok bt"
  shows "keeps (execute_node k exec bt node)"
proof -
  note rules = keeps_wp [OF assms(1)] keeps_wp [OF execute_command_ok [OF assms]] keeps_wp [OF execute_list_ok(1) [OF assms(1)]]
    keeps_wp [OF execute_list_ok(2) [OF assms(1)]]
  show ?thesis by (auto simp: keeps_def execute_node_def Let_def split: ast_node_type.splits intro!: rules)
qed

lemma execute_ast_ok:
  assumes "table_ok bt"
  shows "keeps (shell_execute_ast fuel bt node)"
  using assms
proof (induction fuel arbitrary: node)
  case (Suc n)
  have "keeps (execute_node n (shell_execute_ast n bt) bt node)" by (rule execute_node_ok) (use Suc in auto)
  then show ?case by (simp add: keeps_def)
qed (simp add: keeps_def)

definition table_entry :: "string \<times> handler \<times> string \<Rightarrow> builtin_cmd" where
  "table_entry e = (case e of (name, h, desc) \<Rightarrow> \<lparr>bc_name = name, bc_handler = h, bc_description = desc, bc_flags = 0\<rparr>)"

text \<open>Registering stops silently when the table is full.\<close>

lemma register_all_eq: "register_all es bt = bt @ map table_entry (take (MAX_BUILTINS - length bt) es)"
  unfolding register_all_def
proof (induction es arbitrary: bt)
  case (Cons e es)
  have step: "(case e of (name, h, desc) \<Rightarrow> shell_register_builtin name h desc) bt =
      (if length bt < MAX_BUILTINS then bt @ [table_entry e] else bt)"
    by (cases e) (simp add: shell_register_builtin_def table_entry_def)
  show ?case
  proof (cases "length bt < MAX_BUILTINS")
    case True
    then obtain k where "MAX_BUILTINS - length bt = Suc k" "MAX_BUILTINS - Suc (length bt) = k" by (metis Suc_diff_Suc)
    with True show ?thesis by (simp add: step Cons)
  qed (simp add: step Cons)
qed simp

lemma builtins_table_ok: "table_ok (shell_register_builtins [])"
proof -
  have "\<forall>e \<in> set builtin_entries. handler_ok (bc_handler (table_entry e))"
    using entries_ok by (auto simp: list_all_iff table_entry_def)
  then show ?thesis
    by (auto simp: table_ok_def shell_register_builtins_def register_all_eq dest: in_set_takeD)
qed

lemma execute_line_command_ok:
  assumes "shell_ok s" "shell_execute_command fuel (shell_register_builtins []) cmd s = Inr s'"
  shows "shell_ok s'"
proof -
  have "on_result shell_ok (shell_execute_command fuel (shell_register_builtins []) cmd s)"
    unfolding shell_execute_command_def by (rule execute_line_ok [OF execute_ast_ok [OF builtins_table_ok] assms(1)])
  then show ?thesis using assms(2) by (simp add: on_result_def)
qed

end
