(* ===== verification/Mira_Shell_Fuel.thy ===== *)
theory Mira_Shell_Fuel
  imports Mira_Shell_Exec
begin

text \<open>
  The fuel of the shell's interpreter only bounds the computation: with more fuel the result
  is the same, unless the fuel ran out. Results are compared in the flat order whose least
  element is \<open>Inl Diverges\<close>, and every builtin and every loop is monotone in it.
\<close>

definition fuel_le :: "'a res \<Rightarrow> 'a res \<Rightarrow> bool" where
  "fuel_le x y \<longleftrightarrow> x = Inl Diverges \<or> x = y"

lemma fuel_le_refl [simp, intro]: "fuel_le x x"
  by (simp add: fuel_le_def)

lemma fuel_le_bot [simp]: "fuel_le (Inl Diverges) x"
  by (simp add: fuel_le_def)

lemma fuel_le_trans: "fuel_le x y \<Longrightarrow> fuel_le y z \<Longrightarrow> fuel_le x z"
  by (auto simp: fuel_le_def)

lemma fuel_le_bind [intro]: "fuel_le m m' \<Longrightarrow> (\<And>x. m = Inr x \<Longrightarrow> fuel_le (f x) (f' x)) \<Longrightarrow> fuel_le (bindR m f) (bindR m' f')"
  by (cases m) (auto simp: fuel_le_def)

lemma fuel_le_if [intro]: "(b \<Longrightarrow> fuel_le x x') \<Longrightarrow> (\<not> b \<Longrightarrow> fuel_le y y') \<Longrightarrow> fuel_le (if b then x else y) (if b then x' else y')"
  by simp

type_synonym executor = "ast_node \<Rightarrow> shell \<Rightarrow> (i32 \<times> shell) res"

definition exec_le :: "executor \<Rightarrow> executor \<Rightarrow> bool" where
  "exec_le e e' \<longleftrightarrow> (\<forall>node s. fuel_le (e node s) (e' node s))"

lemma exec_leD: "exec_le e e' \<Longrightarrow> fuel_le (e node s) (e' node s)"
  by (simp add: exec_le_def)

section \<open>Builtins that wait\<close>

lemma wait_ticks_fuel: "fuel_le (wait_ticks k target s) (wait_ticks (Suc k) target s)"
proof (induction k arbitrary: s)
  case (Suc k)
  then show ?case unfolding wait_ticks.simps(2) by (auto simp: split_beta Let_def)
qed simp

lemma yes_loop_diverges: "yes_loop k str s = Inl Diverges"
  by (induction k arbitrary: s) simp_all

lemma cat_loop_fuel: "k \<le> m \<Longrightarrow> fuel_le (cat_loop k fd s) (cat_loop m fd s)"
proof (induction k arbitrary: m s)
  case (Suc k)
  then obtain j where "m = Suc j" "k \<le> j" by (cases m) auto
  then show ?case using Suc.IH by (auto simp: Let_def intro!: fuel_le_bind)
qed simp

lemma cat_files_fuel: "fuel_le (cat_files k as s) (cat_files (Suc k) as s)"
proof (induction as arbitrary: s)
  case (Cons a as)
  have "fuel_le (cat_file k a s) (cat_file (Suc k) a s)" for s
    unfolding cat_file_def
    by (rule fuel_le_bind) (auto simp: split_beta Let_def simp del: cat_loop.simps intro!: cat_loop_fuel fuel_le_bind)
  then show ?case using Cons by auto
qed simp

lemma looping_fuel:
  "fuel_le (builtin_sleep k node s) (builtin_sleep (Suc k) node s)"
  "fuel_le (builtin_yes k node s) (builtin_yes (Suc k) node s)"
  "fuel_le (builtin_cat k node s) (builtin_cat (Suc k) node s)"
  by (auto simp: builtin_sleep_def builtin_yes_def builtin_cat_def yes_loop_diverges split_beta Let_def
      simp del: wait_ticks.simps yes_loop.simps intro!: wait_ticks_fuel cat_files_fuel fuel_le_bind)

definition handler_fuel :: "handler \<Rightarrow> bool" where
  "handler_fuel h \<longleftrightarrow> (case h of Looping f \<Rightarrow> \<forall>k node s. fuel_le (f k node s) (f (Suc k) node s) | _ \<Rightarrow> True)"

lemma handler_fuel_simps:
  "handler_fuel (Native f)" "handler_fuel (Table g)" "handler_fuel Nohup" "handler_fuel Exec" "handler_fuel Dot"
  "handler_fuel Source" "handler_fuel Eval" "handler_fuel Timeout"
  "handler_fuel (Looping builtin_sleep)" "handler_fuel (Looping builtin_yes)" "handler_fuel (Looping builtin_cat)"
  by (simp_all add: handler_fuel_def looping_fuel)

lemma entries_fuel: "list_all (\<lambda>e. handler_fuel (fst (snd e))) builtin_entries"
  by (simp only: builtin_entries_def list.pred_inject fst_conv snd_conv handler_fuel_simps HOL.simp_thms)

section \<open>The interpreter\<close>

lemma execute_line_fuel: "exec_le e e' \<Longrightarrow> fuel_le (execute_line e cmd s) (execute_line e' cmd s)"
  by (auto simp: execute_line_def Let_def split: option.splits intro!: exec_leD fuel_le_bind)

lemma run_script_fuel: "exec_le e e' \<Longrightarrow> fuel_le (run_script e path s) (run_script e' path s)"
  by (auto simp: run_script_def Let_def intro!: execute_line_fuel fuel_le_bind)

lemma timeout_loop_fuel: "exec_le e e' \<Longrightarrow> k \<le> m \<Longrightarrow> fuel_le (timeout_loop k e t cmd s) (timeout_loop m e' t cmd s)"
proof (induction k arbitrary: m s)
  case (Suc k)
  then obtain j where "m = Suc j" "k \<le> j" by (cases m) auto
  then show ?case using Suc.IH [OF Suc.prems(1)] by (auto simp: split_beta intro!: exec_leD [OF Suc.prems(1)] fuel_le_bind)
qed simp

lemma run_handler_fuel:
  assumes "exec_le e e'" "handler_fuel h"
  shows "fuel_le (run_handler k e bt h node s) (run_handler (Suc k) e' bt h node s)"
  using assms(2)
  by (cases h) (auto simp: run_handler_def handler_fuel_def builtin_nohup_def builtin_exec_def builtin_dot_def builtin_source_def
      builtin_eval_def builtin_timeout_def split_beta Let_def simp del: timeout_loop.simps
      intro!: exec_leD [OF assms(1)] run_script_fuel [OF assms(1)] execute_line_fuel [OF assms(1)] timeout_loop_fuel [OF assms(1)] fuel_le_bind)

lemma find_in_set: "find P xs = Some x \<Longrightarrow> x \<in> set xs"
  by (auto simp: find_Some_iff)

lemma execute_command_fuel:
  assumes "exec_le e e'" "\<forall>b \<in> set bt. handler_fuel (bc_handler b)"
  shows "fuel_le (execute_command k e bt node s) (execute_command (Suc k) e' bt node s)"
  using assms(2) unfolding execute_command_def
  by (auto dest!: find_in_set split: list.splits option.splits intro!: run_handler_fuel [OF assms(1)] fuel_le_bind)

lemma execute_lists_fuel:
  assumes "exec_le e e'"
  shows "fuel_le (execute_sequence e cs r s) (execute_sequence e' cs r s)" "fuel_le (execute_pipeline e cs r s) (execute_pipeline e' cs r s)"
  by (induction cs arbitrary: r s) (auto intro!: exec_leD [OF assms] fuel_le_bind)

lemma execute_node_fuel:
  assumes "exec_le e e'" "\<forall>b \<in> set bt. handler_fuel (bc_handler b)"
  shows "fuel_le (execute_node k e bt node s) (execute_node (Suc k) e' bt node s)"
  unfolding execute_node_def Let_def
  by (auto split: ast_node_type.splits intro!: exec_leD [OF assms(1)] execute_command_fuel [OF assms] execute_lists_fuel [OF assms(1)] fuel_le_bind)

lemma execute_ast_fuel:
  assumes "\<forall>b \<in> set bt. handler_fuel (bc_handler b)"
  shows "exec_le (shell_execute_ast n bt) (shell_execute_ast (Suc n) bt)"
proof (induction n)
  case (Suc n)
  then show ?case unfolding exec_le_def shell_execute_ast.simps(2)
    using execute_node_fuel [OF Suc assms] by (simp add: exec_le_def)
qed (simp add: exec_le_def)

lemma execute_ast_fuel_add:
  assumes "\<forall>b \<in> set bt. handler_fuel (bc_handler b)"
  shows "exec_le (shell_execute_ast n bt) (shell_execute_ast (n + k) bt)"
proof (induction k)
  case (Suc k)
  then show ?case using execute_ast_fuel [OF assms, of "n + k"] fuel_le_trans unfolding exec_le_def by (metis add_Suc_right)
qed (simp add: exec_le_def)

end
