(* ===== verification/Mira_Shell.thy ===== *)
theory Mira_Shell
  imports Mira_Shell_Inv Mira_Shell_Fuel
begin

text \<open>
  The shell as \<open>ui.c\<close> drives it, \<open>ui/shell.c\<close>: starting it, the tick that polls the keyboard
  and runs a finished line, and freeing the history; with the properties of the interpreter
  and of the whole shell.
\<close>

section \<open>Start\<close>

primrec set_all :: "(string \<times> string) list \<Rightarrow> shell \<Rightarrow> shell res" where
  "set_all [] s = Inr s"
| "set_all (p # ps) s = bindR (shell_set_variable (fst p) (snd p) s) (set_all ps)"

definition initial_variables :: "(string \<times> string) list" where
  "initial_variables =
     [(''HOME'', ''/home/root''), (''PATH'', ''/bin:/usr/bin:/usr/local/bin''), (''PWD'', ''/''), (''SHELL'', ''/bin/msh.mex''),
      (''USER'', ''root''), (''LOGNAME'', ''root''), (''HOSTNAME'', ''miraos''), (''TERM'', ''xterm-256color''),
      (''LANG'', ''en_US.UTF-8''), (''LC_ALL'', ''en_US.UTF-8''), (''EDITOR'', ''vi''), (''VISUAL'', ''vi''), (''PAGER'', ''less''),
      (''UMASK'', ''0022''), (''PS1'', ''root@miraos:/# ''), (''PS2'', ''> ''), (''PS4'', ''+ ''), (''IFS'', [CHR '' '', CHR 0x09, CHR 0x0A]),
      (''0'', ''msh.mex''), (''?'', ''0''), (''$'', ''1''), (''!'', ''0''), (''HUP_IGNORED'', ''0'')]"

definition exported_variables :: "string list" where
  "exported_variables =
     [''HOME'', ''PATH'', ''PWD'', ''SHELL'', ''USER'', ''LOGNAME'', ''HOSTNAME'', ''TERM'', ''LANG'', ''LC_ALL'']"

definition shell_init_context :: "shell \<Rightarrow> shell res" where
  "shell_init_context s =
     (let (t, s1) = timer_ticks s;
          ctx = blank_ctx\<lparr>interactive := True, last_exit_status := 0, uid := 0, gid := 0, start_time := t, command_count := 0,
            current_dir := ''/'', home_dir := ''/home/root'', search_path := ''/bin:/usr/bin:/usr/local/bin''\<rparr>
      in bindR (set_all initial_variables (s1\<lparr>sh_ctx := ctx\<rparr>)) (\<lambda>s2. Inr (fold shell_export_variable exported_variables s2)))"

definition set_command :: "string \<Rightarrow> nat \<Rightarrow> shell \<Rightarrow> shell" where
  "set_command txt n s = s\<lparr>ui := (ui s)\<lparr>cmd_buf := txt, cmd_field := (cmd_field (ui s))\<lparr>tf_len := word_of_nat n\<rparr>\<rparr>\<rparr>"

definition mark_dirty :: "shell \<Rightarrow> shell" where "mark_dirty s = s\<lparr>ui := (ui s)\<lparr>dirty := True\<rparr>\<rparr>"

definition shell_init :: "builtin_cmd list \<Rightarrow> shell \<Rightarrow> (builtin_cmd list \<times> shell) res" where
  "shell_init bt s =
     (let s1 = mark_dirty s; s2 = s1\<lparr>sh_input := input_init (sh_input s1)\<rparr>
      in bindR (shell_init_context (shell_layout (set_command [] 0 s2))) (\<lambda>s3. Inr (shell_register_builtins bt, s3)))"

section \<open>Tick\<close>

text \<open>The first \<open>n\<close> bytes of the line as a C string.\<close>

definition line_text :: "nat \<Rightarrow> u8 list \<Rightarrow> string" where
  "line_text n buf = c_str (map (\<lambda>b. char_of (unat b)) (take n buf))"

definition shell_tick :: "nat \<Rightarrow> builtin_cmd list \<Rightarrow> shell \<Rightarrow> shell res" where
  "shell_tick fuel bt s =
     (let prev = input_length (sh_input s);
          snapshot = line_text (if prev < INPUT_MAX then prev else INPUT_MAX - 1) (input_buffer (sh_input s))
      in case input_poll (sh_kbd s) (sh_input s) of
           None \<Rightarrow> Inl Diverges
         | Some (k, i) \<Rightarrow>
             let len = (if input_length i \<ge> INPUT_MAX then INPUT_MAX - 1 else input_length i);
                 s1 = set_command (line_text len (input_buffer i)) len ((mark_dirty s)\<lparr>sh_kbd := k, sh_input := i\<rparr>)
             in if prev > 0 \<and> len = 0
                then bindR (if snapshot \<noteq> []
                            then bindR (shell_execute_command fuel bt snapshot s1) (\<lambda>s2. Inr (shell_add_history snapshot s2))
                            else Inr s1) (\<lambda>s3. Inr (mark_dirty (set_command [] 0 s3)))
                else Inr s1)"

text \<open>The history's strings are freed; the table keeps the dangling pointers.\<close>

definition shell_cleanup :: "shell \<Rightarrow> string option list" where "shell_cleanup s = global_history s"

section \<open>The table of builtins\<close>

definition registered_names :: "string list" where
  "registered_names =
     [''echo'', ''cd'', ''pwd'', ''export'', ''set'', ''unset'', ''env'', ''history'', ''alias'', ''unalias'', ''jobs'',
      ''fg'', ''bg'', ''clear'', ''exit'', ''help'', ''type'', ''read'', ''test'', ''['', ''printf'', ''true'', ''false'',
      ''sleep'', ''date'', ''umask'', ''ulimit'', ''shift'', ''trap'', ''umount'', ''mount'', ''df'', ''ps'', ''kill'',
      ''nohup'', ''wait'', ''exec'', ''.'', ''source'', ''eval'', ''let'', ''yes'', ''head'', ''tail'', ''wc'', ''grep'',
      ''sed'', ''awk'', ''cat'', ''ls'', ''mkdir'', ''rmdir'', ''rm'', ''touch'', ''cp'', ''mv'', ''chmod'', ''chown'',
      ''whoami'', ''id'', ''uptime'', ''uname'', ''hostname'', ''which'', ''time'', ''xargs'', ''find'', ''sort'', ''uniq'',
      ''tr'', ''cut'', ''paste'', ''join'', ''comm'', ''diff'', ''patch'', ''tar'', ''gzip'', ''gunzip'', ''bzip2'', ''xz'',
      ''zip'', ''unzip'', ''ssh'', ''scp'', ''wget'', ''curl'', ''ping'', ''ifconfig'', ''route'', ''netstat'', ''ss'',
      ''iptables'', ''systemctl'', ''service'', ''journalctl'', ''dmesg'', ''logger'', ''wall'', ''write'', ''tee'',
      ''less'', ''more'', ''vi'', ''nano'', ''emacs'', ''vim'', ''gcc'', ''make'', ''git'', ''python'', ''perl'', ''ruby'',
      ''node'', ''rustc'', ''go'', ''zig'', ''docker'', ''kubectl'', ''helm'', ''terraform'', ''ansible'', ''puppet'',
      ''chef'', ''salt'', ''vagrant'', ''virtualbox'', ''qemu'']"

definition dropped_names :: "string list" where
  "dropped_names =
     [''vmware'', ''parallel'', ''timeout'', ''nice'', ''renice'', ''killall'', ''pgrep'', ''pkill'', ''top'', ''htop'',
      ''free'', ''vmstat'', ''iostat'', ''mpstat'', ''sar'', ''strace'', ''ltrace'', ''gdb'', ''valgrind'', ''perf'',
      ''sysctl'', ''modprobe'', ''insmod'', ''rmmod'', ''lsmod'', ''lspci'', ''lsusb'', ''lsblk'', ''fdisk'', ''partprobe'',
      ''mkfs'', ''fsck'', ''dd'', ''mkswap'', ''swapon'', ''swapoff'', ''brctl'', ''ip'', ''ifup'', ''ifdown'', ''host'',
      ''dig'', ''nslookup'', ''traceroute'', ''mtr'', ''tcpdump'', ''wireshark'', ''tshark'', ''nmap'', ''netcat'',
      ''socat'', ''screen'', ''tmux'', ''byobu'', ''dbus'', ''systemd'']"

lemma entry_names: "map fst builtin_entries = registered_names @ dropped_names"
  by (simp only: builtin_entries_def registered_names_def dropped_names_def list.map fst_conv append_Cons append_Nil)

lemma names_counts: "length registered_names = 128" "length dropped_names = 56"
  by (simp_all add: registered_names_def dropped_names_def)

lemma names_disjoint: "list_all (\<lambda>n. \<not> List.member registered_names n) dropped_names"
  by code_simp

lemma table_names: "map bc_name (shell_register_builtins []) = registered_names"
proof -
  have "map bc_name (shell_register_builtins []) = take 128 (map fst builtin_entries)"
    by (simp add: shell_register_builtins_def register_all_eq MAX_BUILTINS_def take_map table_entry_def comp_def split_beta)
  then show ?thesis by (simp add: entry_names names_counts)
qed

lemma table_lookup_None: "n \<notin> set registered_names \<Longrightarrow> find (\<lambda>b. bc_name b = n) (shell_register_builtins []) = None"
  unfolding find_None_iff table_names [symmetric] by auto

section \<open>Running a line of plain words\<close>

definition no_expansion :: "char \<Rightarrow> bool" where "no_expansion c \<longleftrightarrow> c \<noteq> CHR ''$'' \<and> c \<noteq> CHR 0x7E"

lemma resolve_from_plain: "list_all no_expansion p \<Longrightarrow> length out + length p \<le> RESOLVED_MAX \<Longrightarrow> resolve_from out p s = Inr (out @ p)"
  by (induction p arbitrary: out) (simp_all add: no_expansion_def)

lemma resolve_plain: "list_all no_expansion p \<Longrightarrow> length p \<le> RESOLVED_MAX \<Longrightarrow> shell_resolve_variables p s = Inr p"
  using resolve_from_plain [of p "[]" s] by (simp add: shell_resolve_variables_def)

lemma word_char_no_expansion: "is_word_char c \<Longrightarrow> no_expansion c"
  by (auto simp: is_word_char_def is_name_char_def is_digit_def in_range_def no_expansion_def)

lemma plain_word_no_expansion: "plain_word w \<Longrightarrow> list_all no_expansion w"
  by (auto simp: plain_word_def list_all_iff word_char_no_expansion)

lemma unwords_no_expansion: "list_all plain_word ws \<Longrightarrow> list_all no_expansion (unwords ws)"
proof (induction ws rule: unwords.induct)
  case (3 w v ws)
  have "no_expansion (CHR '' '')" by (simp add: no_expansion_def)
  then show ?case using 3 plain_word_no_expansion [of w] by simp
qed (auto dest: plain_word_no_expansion)

lemma unwords_length: "w \<in> set ws \<Longrightarrow> length w \<le> length (unwords ws)"
  by (induction ws rule: unwords.induct) auto

lemma unwords_count: "list_all plain_word ws \<Longrightarrow> length ws \<le> length (unwords ws)"
proof (induction ws rule: unwords.induct)
  case (2 w)
  then show ?case by (cases w) (auto simp: plain_word_def)
next
  case (3 w v ws)
  then show ?case by simp
qed simp

lemma idle_heap: "heap_outcomes s = [] \<Longrightarrow> set_heap_outcomes [] s = s"
  by (simp add: heap_outcomes_def set_heap_outcomes_def kmem_idle)

text \<open>The line goes through the tokenizer and the parser to one command.\<close>

lemma execute_line_words:
  assumes "list_all plain_word ws" "ws \<noteq> []" "length (unwords ws) \<le> RESOLVED_MAX" "heap_outcomes s = []"
  shows "execute_line exec (unwords ws) s = bindR (exec (simple_ast ws) s) (\<lambda>(r, s1). Inr s1)"
proof -
  obtain ts c where ts: "tokenize_from (unwords ws) 1 1 [] = Inr (ts, 1, c, [])" "map tok_value ts = ws"
    "\<forall>t \<in> set ts. tok_type t = TOKEN_WORD" using tokenize_from_words [OF assms(1)] by blast
  let ?e = "\<lparr>tok_type = TOKEN_EOF, tok_value = [], tok_line = 1, tok_column = c\<rparr>"
  have "length ws \<le> 8191" using unwords_count [OF assms(1)] assms(3) by (simp add: RESOLVED_MAX_def)
  then have "length ts < 2 ^ 32 - 1" "ts \<noteq> []" using ts(2) assms(2) by auto
  then have p: "parse_tokens (ts @ [?e]) [] = Inr (Some (simple_ast ws), [])"
    using parse_simple [of ts ?e "[]"] ts(2,3) by (simp add: arg_types_def dead_end_def)
  have "unwords ws \<noteq> []" using unwords_count [OF assms(1)] assms(2) by auto
  then show ?thesis
    using resolve_plain [OF unwords_no_expansion [OF assms(1)] assms(3)] ts(1) p assms(4)
    by (simp add: execute_line_def tokenize_def idle_heap Let_def)
qed

definition set_status :: "i32 \<Rightarrow> shell \<Rightarrow> shell" where
  "set_status r s = s\<lparr>sh_ctx := (sh_ctx s)\<lparr>last_exit_status := r\<rparr>\<rparr>"

lemma args_command_node [simp]: "args (command_node ws) = ws"
  by (simp add: args_def command_node_def)

lemma execute_simple:
  "shell_execute_ast (Suc (Suc (Suc n))) bt (simple_ast ws) s =
     bindR (execute_command n (shell_execute_ast n bt) bt (command_node ws) s) (\<lambda>(r, s1). Inr (r, set_status r s1))"
  by (simp add: simple_ast_def command_node_def execute_node_def set_status_def bindR_def split: sum.splits prod.splits)

lemma run_words:
  assumes "list_all plain_word (w # ws)" "length (unwords (w # ws)) \<le> RESOLVED_MAX" "heap_outcomes s = []"
  shows "shell_execute_command (Suc (Suc (Suc n))) bt (unwords (w # ws)) s =
    (case find (\<lambda>b. bc_name b = shell_resolve_alias w s) bt of
       Some b \<Rightarrow> bindR (run_handler n (shell_execute_ast n bt) bt (bc_handler b) (command_node (w # ws)) s)
                   (\<lambda>(r, s1). Inr (set_status r s1))
     | None \<Rightarrow> Inr (set_status 127 (shell_print_error '': command not found'' (shell_print_error w s))))"
proof -
  have "length w \<le> RESOLVED_MAX" using assms(2) unwords_length [of w "w # ws"] by simp
  then have "shell_resolve_variables w s = Inr w" using assms(1) by (simp add: resolve_plain plain_word_no_expansion)
  then have "execute_command n (shell_execute_ast n bt) bt (command_node (w # ws)) s =
      (case find (\<lambda>b. bc_name b = shell_resolve_alias w s) bt of
         Some b \<Rightarrow> run_handler n (shell_execute_ast n bt) bt (bc_handler b) (command_node (w # ws)) s
       | None \<Rightarrow> Inr (127, shell_print_error '': command not found'' (shell_print_error w s)))"
    by (simp add: execute_command_def)
  then show ?thesis
    using execute_line_words [OF assms(1) _ assms(2,3), of "shell_execute_ast (Suc (Suc (Suc n))) bt"]
    by (simp only: shell_execute_command_def execute_simple) (simp add: bindR_def split: option.splits sum.splits prod.splits)
qed


text \<open>The static memory before the shell starts, on the booted file system.\<close>

definition blank_rect :: ui_rect where "blank_rect = \<lparr>rect_x = 0, rect_y = 0, rect_w = 0, rect_h = 0\<rparr>"
definition blank_panel :: ui_panel where
  "blank_panel = \<lparr>pn_bounds = blank_rect, pn_fill = 0, pn_border = 0, pn_title_bg = 0, pn_title = None\<rparr>"
definition blank_button :: ui_button where
  "blank_button = \<lparr>bt_bounds = blank_rect, bt_fill = 0, bt_border = 0, bt_text_color = 0, bt_label = None, bt_pressed = False\<rparr>"
definition blank_field :: ui_textfield where
  "blank_field = \<lparr>tf_bounds = blank_rect, tf_fill = 0, tf_border = 0, tf_text_color = 0, tf_buffer = None, tf_buflen = 0,
     tf_len = 0, tf_focused = False\<rparr>"
definition blank_ui :: shell_ui where
  "blank_ui = \<lparr>main_panel = blank_panel, sidebar_panel = blank_panel, btn_clear = blank_button, btn_about = blank_button,
     btn_files = blank_button, btn_style = blank_button, cmd_field = blank_field, cmd_buf = [], dirty = False\<rparr>"

definition booted_shell :: shell where
  "booted_shell = blank_shell blank_ui kbd_boot input_boot ramfs_booted (\<lambda>n. word_of_nat n)"


lemma dropped_plain: "list_all plain_word dropped_names"
  by code_simp

text \<open>
  The table of builtins is full after 128 of the 184 registrations, and the others are
  dropped silently: each of the 56 commands from \<open>vmware\<close> to \<open>systemd\<close>, among them
  \<open>timeout\<close> and \<open>killall\<close>, is reported as not found.
\<close>
theorem builtin_table_full:
  assumes "n \<in> set dropped_names" "heap_outcomes s = []" "shell_resolve_alias n s = n"
  shows "length (shell_register_builtins []) = MAX_BUILTINS \<and>
    n \<in> fst ` set builtin_entries \<and>
    shell_execute_command (Suc (Suc (Suc k))) (shell_register_builtins []) n s =
      Inr (set_status 127 (shell_print_error '': command not found'' (shell_print_error n s)))"
proof (intro conjI)
  show "length (shell_register_builtins []) = MAX_BUILTINS"
    using arg_cong [OF table_names, of length] by (simp add: names_counts MAX_BUILTINS_def)
  show "n \<in> fst ` set builtin_entries" using assms(1) arg_cong [OF entry_names, of set] by simp
  have w: "plain_word n" using assms(1) dropped_plain by (simp add: list_all_iff)
  have "n \<notin> set registered_names" using assms(1) names_disjoint by (simp add: list_all_iff)
  then show "shell_execute_command (Suc (Suc (Suc k))) (shell_register_builtins []) n s =
      Inr (set_status 127 (shell_print_error '': command not found'' (shell_print_error n s)))"
    using run_words [of n "[]" s k "shell_register_builtins []"] assms(2,3) w
    by (simp add: table_lookup_None plain_word_def LEX_BUF_def RESOLVED_MAX_def)
qed

theorem builtin_table_full_witness:
  "shell_execute_command 3 (shell_register_builtins []) ''timeout'' booted_shell =
      Inr (set_status 127 (shell_print_error '': command not found'' (shell_print_error ''timeout'' booted_shell)))"
proof -
  have "List.member dropped_names ''timeout''" by code_simp
  moreover have "shell_resolve_alias ''timeout'' booted_shell = ''timeout''" "heap_outcomes booted_shell = []"
    by (simp_all add: shell_resolve_alias_def heap_outcomes_def booted_shell_def blank_shell_def ramfs_booted_def vfs_blank_def)
  ultimately show ?thesis using builtin_table_full [of "''timeout''" booted_shell 0] by (simp add: numeral_3_eq_3)
qed

text \<open>
  Descriptions apart, the second registration routine of the source registers what the
  first one does: under the same names, in the same order, the same handlers.
\<close>
theorem registrations_agree:
  "map (\<lambda>b. (bc_name b, bc_handler b)) (shell_register_builtins_extended bt) =
   map (\<lambda>b. (bc_name b, bc_handler b)) (shell_register_builtins bt)"
proof -
  have "map (\<lambda>e. (fst e, fst (snd e))) extended_entries = map (\<lambda>e. (fst e, fst (snd e))) builtin_entries"
    by (simp only: extended_entries_def builtin_entries_def list.map fst_conv snd_conv)
  then have "map (\<lambda>e. (fst e, fst (snd e))) (take k extended_entries) = map (\<lambda>e. (fst e, fst (snd e))) (take k builtin_entries)" for k
    by (simp add: take_map [symmetric])
  then show ?thesis
    by (simp add: shell_register_builtins_extended_def shell_register_builtins_def register_all_eq table_entry_def comp_def split_beta)
qed

section \<open>Fuel and waiting\<close>

lemma builtins_table_fuel: "\<forall>b \<in> set (shell_register_builtins []). handler_fuel (bc_handler b)"
proof -
  have "\<forall>e \<in> set builtin_entries. handler_fuel (bc_handler (table_entry e))"
    using entries_fuel by (auto simp: list_all_iff table_entry_def)
  then show ?thesis by (auto simp: shell_register_builtins_def register_all_eq dest: in_set_takeD)
qed



lemma wait_ticks_returns:
  assumes "target \<le> clock s (clock_reads s + n)"
  shows "\<exists>k. k \<le> n \<and> wait_ticks (Suc n) target s = Inr (s\<lparr>clock_reads := clock_reads s + k + 1\<rparr>) \<and>
    target \<le> clock s (clock_reads s + k) \<and> (\<forall>j < k. clock s (clock_reads s + j) < target)"
  using assms
proof (induction n arbitrary: s)
  case 0
  then show ?case by (simp add: timer_ticks_def not_less)
next
  case (Suc n)
  show ?case
  proof (cases "clock s (clock_reads s) < target")
    case True
    let ?s = "s\<lparr>clock_reads := clock_reads s + 1\<rparr>"
    obtain k where k: "k \<le> n" "wait_ticks (Suc n) target ?s = Inr (s\<lparr>clock_reads := clock_reads s + k + 2\<rparr>)"
      "target \<le> clock s (clock_reads s + Suc k)" "\<forall>j < k. clock s (clock_reads s + Suc j) < target"
      using Suc.IH [of ?s] Suc.prems by auto
    have "wait_ticks (Suc (Suc n)) target s = wait_ticks (Suc n) target ?s"
      using True by (simp add: timer_ticks_def)
    moreover have "\<forall>j < Suc k. clock s (clock_reads s + j) < target"
      using k(4) True by (auto simp: less_Suc_eq_0_disj)
    ultimately show ?thesis using k by (intro exI [of _ "Suc k"]) simp
  next
    case False
    then show ?thesis by (intro exI [of _ 0]) (auto simp: timer_ticks_def)
  qed
qed

text \<open>
  \<open>sleep\<close> returns as soon as the timer has advanced far enough: if some reading of the tick
  counter reaches the deadline, the command ends with status 0 at the first one that does,
  having changed nothing.
\<close>
theorem sleep_returns:
  assumes "2 \<le> length (args node)" "deadline (args node ! 1) (clock s (clock_reads s)) \<le> clock s (Suc (clock_reads s) + n)"
  shows "\<exists>k. builtin_sleep (Suc n) node s = Inr (0, s\<lparr>clock_reads := clock_reads s + k + 2\<rparr>) \<and>
    deadline (args node ! 1) (clock s (clock_reads s)) \<le> clock s (Suc (clock_reads s) + k) \<and>
    (\<forall>j < k. clock s (Suc (clock_reads s) + j) < deadline (args node ! 1) (clock s (clock_reads s)))"
proof -
  let ?s = "s\<lparr>clock_reads := clock_reads s + 1\<rparr>"
  obtain k where "wait_ticks (Suc n) (deadline (args node ! 1) (clock s (clock_reads s))) ?s =
      Inr (s\<lparr>clock_reads := clock_reads s + k + 2\<rparr>)"
    "deadline (args node ! 1) (clock s (clock_reads s)) \<le> clock s (Suc (clock_reads s) + k)"
    "\<forall>j < k. clock s (Suc (clock_reads s) + j) < deadline (args node ! 1) (clock s (clock_reads s))"
    using wait_ticks_returns [of "deadline (args node ! 1) (clock s (clock_reads s))" ?s n] assms(2) by auto
  then show ?thesis using assms(1) by (auto simp: builtin_sleep_def timer_ticks_def)
qed

theorem sleep_returns_witness:
  "\<exists>k. builtin_sleep 100 (command_node [''sleep'', ''1'']) booted_shell =
      Inr (0, booted_shell\<lparr>clock_reads := clock_reads booted_shell + k + 2\<rparr>)"
proof -
  have "deadline ''1'' 0 = 100" by code_simp
  then show ?thesis
    using sleep_returns [of "command_node [''sleep'', ''1'']" booted_shell 99]
    by (auto simp: booted_shell_def blank_shell_def)
qed

section \<open>Directories\<close>

lemma draw_char_fs [simp]: "fs (shell_draw_char c fg bg s) = fs s"
  by (simp add: shell_draw_char_def Let_def)

lemma say_fs [simp]: "fs (say str s) = fs s"
  unfolding say_def by (induction str arbitrary: s) simp_all

lemma booted_shell_ok: "shell_ok booted_shell"
  using ramfs_booted_wf kbd_boot_ok input_boot_ok
  by (simp add: shell_ok_def booted_shell_def blank_shell_def blank_ctx_def vars_ok_def aliases_ok_def)

text \<open>
  \<open>mkdir\<close> does not make a directory: given a new path it succeeds, and afterwards \<open>ls\<close> of
  that path reports that there is no such directory, because the node made is an empty file.
\<close>
theorem mkdir_makes_file:
  assumes "shell_ok s" "root_node (fs s) = Some r" "heap_outcomes s = []" "vfs_lookup path (fs s) = Inr None"
    and "last path \<noteq> CHR ''/''" "length path \<le> 80"
  shows "\<exists>s1 s2. builtin_mkdir (command_node [''mkdir'', path]) s = Inr (0, s1) \<and>
    builtin_ls (command_node [''ls'', path]) s1 = Inr (1, s2) \<and> fs s2 = fs s1"
proof -
  obtain x f where f: "vfs_create_file path None 0 (fs s) = Inr (Some x, f)" "vfs_lookup path f = Inr (Some x)" "vfs_wf f"
    "holds_file (vnodes f ! x) None 0"
    using create_file_lookup [of "fs s" r 0 None path] assms by (auto simp: shell_ok_def heap_outcomes_def)
  have c: "builtin_mkdir (command_node [''mkdir'', path]) s = Inr (0, s\<lparr>fs := f\<rparr>)"
    using f(1) by (simp add: builtin_mkdir_def create_empty_def)
  obtain r' where root: "root_node f = Some r'" using f(2) by (auto simp: vfs_lookup_def split: option.splits)
  then have "r' < length (vnodes f)" using f(3) by (auto simp: vfs_wf_def nodes_wf_def)
  then have x: "x < length (vnodes f)"
    using lookup_from_total [of f r' "skip_slash path"] f(2,3) root by (auto simp: vfs_lookup_def vfs_wf_def split: if_splits)
  obtain buf where "fits 128 (''ls: cannot access '' @ [CHR 0x27] @ path @ [CHR 0x27] @ '': No such directory'' @ [CHR 0x0A]) = Inr buf"
    using assms(6) by (auto simp: fits_def)
  then have "builtin_ls (command_node [''ls'', path]) (s\<lparr>fs := f\<rparr>) = Inr (1, say buf (s\<lparr>fs := f\<rparr>))"
    using f(2,4) x by (simp add: builtin_ls_def holds_file_def VFS_TYPE_FILE_def VFS_TYPE_DIR_def)
  moreover have "fs (say buf (s\<lparr>fs := f\<rparr>)) = f" by simp
  ultimately show ?thesis using c by auto
qed

theorem mkdir_makes_file_witness:
  "\<exists>s1 s2. builtin_mkdir (command_node [''mkdir'', ''notes'']) booted_shell = Inr (0, s1) \<and>
    builtin_ls (command_node [''ls'', ''notes'']) s1 = Inr (1, s2) \<and> fs s2 = fs s1"
proof (rule mkdir_makes_file [OF booted_shell_ok])
  have "fs booted_shell = ramfs_booted" by (simp add: booted_shell_def blank_shell_def)
  moreover have "vfs_lookup ''notes'' ramfs_booted = Inr None" "root_node ramfs_booted = Some 0" "kmem ramfs_booted = []" by code_simp+
  ultimately show "vfs_lookup ''notes'' (fs booted_shell) = Inr None" "root_node (fs booted_shell) = Some 0" "heap_outcomes booted_shell = []"
    by (simp_all add: heap_outcomes_def)
qed simp_all

section \<open>Ticks\<close>

definition line_of :: "shell \<Rightarrow> u8 list" where "line_of s = input_line (sh_input s)"

definition line_string :: "u8 list \<Rightarrow> string" where "line_string l = c_str (map (\<lambda>b. char_of (unat b)) l)"

definition keys_of :: "shell \<Rightarrow> u8 list" where
  "keys_of s = map (keyboard_scancode_to_ascii (sh_kbd s)) (kbd_pending (sh_kbd s))"

text \<open>The state after polling, before a command runs.\<close>

definition polled :: "kbd \<Rightarrow> input_state \<Rightarrow> shell \<Rightarrow> shell" where
  "polled k i s = set_command (line_string (input_line i)) (input_len i) ((mark_dirty s)\<lparr>sh_kbd := k, sh_input := i\<rparr>)"

lemma tick_cases:
  assumes "kbd_ok (sh_kbd s)" "input_ok (sh_input s)"
  shows "\<exists>k i. kbd_ok k \<and> input_ok i \<and> kbd_pending k = [] \<and> input_line i = foldl edit_line (line_of s) (keys_of s) \<and>
    shell_tick fuel bt s =
      (if line_of s \<noteq> [] \<and> input_line i = []
       then bindR (if line_string (line_of s) \<noteq> []
                   then bindR (shell_execute_command fuel bt (line_string (line_of s)) (polled k i s))
                     (\<lambda>s2. Inr (shell_add_history (line_string (line_of s)) s2))
                   else Inr (polled k i s)) (\<lambda>s3. Inr (mark_dirty (set_command [] 0 s3)))
       else Inr (polled k i s))"
proof -
  obtain k i where p: "input_poll (sh_kbd s) (sh_input s) = Some (k, i)" "kbd_ok k" "input_ok i" "kbd_pending k = []"
    "input_line i = foldl edit_line (line_of s) (keys_of s)"
    using input_poll_drains [OF assms] by (auto simp: line_of_def keys_of_def)
  have l: "input_length j = input_len j" "\<not> input_len j \<ge> INPUT_MAX" "line_text (input_len j) (input_buffer j) = line_string (input_line j)"
    "0 < input_len j \<longleftrightarrow> input_line j \<noteq> []" "input_len j = 0 \<longleftrightarrow> input_line j = []" if "input_ok j" for j
    using that by (auto simp: input_length_def input_ok_def line_text_def line_string_def input_line_def input_buffer_def)
  note l1 = l [OF assms(2)] and l2 = l [OF p(3)]
  have "shell_tick fuel bt s =
      (if line_of s \<noteq> [] \<and> input_line i = []
       then bindR (if line_string (line_of s) \<noteq> []
                   then bindR (shell_execute_command fuel bt (line_string (line_of s)) (polled k i s))
                     (\<lambda>s2. Inr (shell_add_history (line_string (line_of s)) s2))
                   else Inr (polled k i s)) (\<lambda>s3. Inr (mark_dirty (set_command [] 0 s3)))
       else Inr (polled k i s))"
    unfolding shell_tick_def Let_def p(1) option.case prod.case
    using l1 l2 by (simp add: polled_def line_of_def)
  then show ?thesis using p by blast
qed

text \<open>
  A tick edits the line with all keys waiting in the keyboard's queue and runs a command
  exactly when the line held something before and is empty afterwards. The command is the line
  as it was before polling, not as it was when Enter was pressed: keys typed before Enter in the
  same tick are lost, a line typed and entered within one tick is not run, and erasing the last
  character with Backspace runs the line.
\<close>
theorem shell_tick_runs_line:
  assumes "kbd_ok (sh_kbd s)" "input_ok (sh_input s)"
  shows "\<exists>k i. kbd_pending k = [] \<and> input_line i = foldl edit_line (line_of s) (keys_of s) \<and>
    shell_tick fuel bt s =
      (if line_of s \<noteq> [] \<and> input_line i = []
       then bindR (if line_string (line_of s) \<noteq> []
                   then bindR (shell_execute_command fuel bt (line_string (line_of s)) (polled k i s))
                     (\<lambda>s2. Inr (shell_add_history (line_string (line_of s)) s2))
                   else Inr (polled k i s)) (\<lambda>s3. Inr (mark_dirty (set_command [] 0 s3)))
       else Inr (polled k i s))"
  using tick_cases [OF assms] by blast

text \<open>The line holds one character and Backspace waits in the queue.\<close>

definition erasing_shell :: shell where
  "erasing_shell = booted_shell\<lparr>sh_kbd := keyboard_on_irq 0x0E kbd_boot, sh_input := input_key 0x78 input_boot\<rparr>"

theorem shell_tick_runs_line_witness:
  "\<exists>k i. shell_tick 3 (shell_register_builtins []) erasing_shell =
     bindR (shell_execute_command 3 (shell_register_builtins []) ''x'' (polled k i erasing_shell))
       (\<lambda>s2. Inr (mark_dirty (set_command [] 0 (shell_add_history ''x'' s2))))"
proof -
  have key: "is_key 0x0E" by (simp add: is_key_def)
  have k: "kbd_ok (sh_kbd erasing_shell)" "kbd_pending (sh_kbd erasing_shell) = [0x0E]"
    using keyboard_irqs_pending [OF kbd_boot_ok, of "[0x0E]"] key by (simp_all add: erasing_shell_def kbd_boot_pending)
  have i: "input_ok (sh_input erasing_shell)" "line_of erasing_shell = [0x78]"
    using input_key_ok [OF input_boot_ok] input_key_line [OF input_boot_ok]
    by (simp_all add: erasing_shell_def line_of_def edit_line_def input_boot_def input_line_def)
  have "\<not> shift_pressed (sh_kbd erasing_shell)" "\<not> caps_lock (sh_kbd erasing_shell)"
    by (simp_all add: erasing_shell_def keyboard_on_irq_key [OF key] kbd_push_def Let_def kbd_boot_def)
  then have "keys_of erasing_shell = [0x08]"
    using k(2) by (simp add: keys_of_def keyboard_scancode_to_ascii_def scancode_map_def Let_def scancode_normal_def)
  moreover have "line_string [0x78] = ''x''" by code_simp
  ultimately show ?thesis
    using shell_tick_runs_line [OF k(1) i(1), of 3 "shell_register_builtins []"] i(2)
    by (fastforce simp: edit_line_def bindR_assoc)
qed

section \<open>The invariant\<close>

text \<open>What happens to a running shell: keyboard interrupts, ticks and redrawing.\<close>

inductive shell_step :: "shell \<Rightarrow> shell \<Rightarrow> bool" where
  irq: "shell_step s (s\<lparr>sh_kbd := keyboard_on_irq b (sh_kbd s)\<rparr>)"
| tick: "shell_tick fuel (shell_register_builtins []) s = Inr s' \<Longrightarrow> shell_step s s'"
| render: "shell_step s (shell_render s)"
| clear: "shell_step s (shell_clear_dirty s)"

lemma render_ok [kernel_inv]: "shell_ok (shell_render s) = shell_ok s"
  by (rule shell_ok_tables [OF render_tables])

lemma shell_ok_input: "shell_ok s \<Longrightarrow> kbd_ok k \<Longrightarrow> input_ok i \<Longrightarrow> shell_ok (s\<lparr>sh_kbd := k, sh_input := i\<rparr>)"
  by (simp add: shell_ok_def)

lemma shell_ok_parts: "shell_ok s \<Longrightarrow> kbd_ok (sh_kbd s) \<and> input_ok (sh_input s)"
  by (simp add: shell_ok_def)

lemma set_command_ok [simp]: "shell_ok (set_command txt n s) = shell_ok s" "shell_ok (mark_dirty s) = shell_ok s"
  by (simp_all add: set_command_def mark_dirty_def)

lemma polled_ok: "shell_ok s \<Longrightarrow> kbd_ok k \<Longrightarrow> input_ok i \<Longrightarrow> shell_ok (polled k i s)"
  by (simp add: polled_def shell_ok_input)

lemma clear_dirty_ok [kernel_inv]: "shell_ok s \<Longrightarrow> shell_ok (shell_clear_dirty s)"
  by (simp add: shell_clear_dirty_def input_clear_dirty_def shell_ok_def input_ok_def)

lemma irq_ok [kernel_inv]: "shell_ok s \<Longrightarrow> shell_ok (s\<lparr>sh_kbd := keyboard_on_irq b (sh_kbd s)\<rparr>)"
  by (simp add: shell_ok_def keyboard_on_irq_ok)

lemma tick_ok [kernel_inv]:
  assumes "shell_ok s" "shell_tick fuel (shell_register_builtins []) s = Inr s'"
  shows "shell_ok s'"
proof -
  obtain k i where p: "kbd_ok k" "input_ok i"
    "shell_tick fuel (shell_register_builtins []) s =
      (if line_of s \<noteq> [] \<and> input_line i = []
       then bindR (if line_string (line_of s) \<noteq> []
                   then bindR (shell_execute_command fuel (shell_register_builtins []) (line_string (line_of s)) (polled k i s))
                     (\<lambda>s2. Inr (shell_add_history (line_string (line_of s)) s2))
                   else Inr (polled k i s)) (\<lambda>s3. Inr (mark_dirty (set_command [] 0 s3)))
       else Inr (polled k i s))"
    using tick_cases [of s] shell_ok_parts [OF assms(1)] by blast
  have ok: "shell_ok (polled k i s)" using assms(1) p by (simp add: polled_ok)
  note ran = add_history_ok [OF execute_line_command_ok [OF ok]]
  show ?thesis using assms(2) p(3) ok by (auto split: if_splits intro: ran)
qed

lemma step_ok: "shell_step s s' \<Longrightarrow> shell_ok s \<Longrightarrow> shell_ok s'"
  by (induction rule: shell_step.induct) (auto intro: irq_ok tick_ok clear_dirty_ok simp: render_ok)

lemma set_all_ok: "shell_ok s \<Longrightarrow> (\<And>s'. shell_ok s' \<Longrightarrow> P s') \<Longrightarrow> on_result P (set_all ps s)"
  by (induction ps arbitrary: s) (simp_all add: shell_wp)

lemma fold_export_ok: "shell_ok s \<Longrightarrow> shell_ok (fold shell_export_variable ns s)"
  by (induction ns arbitrary: s) (simp_all add: export_variable_ok)

lemma shell_init_ok:
  assumes "shell_ok s" "shell_init bt s = Inr (bt', s')"
  shows "shell_ok s'" "bt' = shell_register_builtins bt"
proof -
  have "input_ok (input_init (sh_input s))"
    using assms(1) by (simp add: shell_ok_def input_ok_def input_init_def INPUT_MAX_def)
  then have "shell_ok ((mark_dirty s)\<lparr>sh_input := input_init (sh_input s)\<rparr>)"
    using assms(1) by (simp add: shell_ok_def mark_dirty_def)
  then have l: "shell_ok (shell_layout (set_command [] 0 ((mark_dirty s)\<lparr>sh_input := input_init (sh_input s)\<rparr>)))"
    by (simp add: shell_ok_tables [OF layout_tables])
  have "on_result shell_ok (shell_init_context t)" if "shell_ok t" for t
    using that by (simp add: shell_init_context_def timer_ticks_def Let_def set_all_ok fold_export_ok shell_ok_ctx)
  from on_resultD [OF this [OF l]] show "shell_ok s'" "bt' = shell_register_builtins bt"
    using assms(2) by (auto simp: shell_init_def Let_def mark_dirty_def)
qed


lemma set_all_returns:
  "length (global_vars s) + length ps \<le> SHELL_MAX_VARS \<Longrightarrow> list_all (\<lambda>p. length (fst p) < 64 \<and> length (snd p) < 256) ps \<Longrightarrow>
     \<exists>s'. set_all ps s = Inr s'"
proof (induction ps arbitrary: s)
  case (Cons p ps)
  have "var_fits (fst p) (snd p) s" using Cons.prems by (simp add: var_fits_def)
  then obtain s1 where s1: "shell_set_variable (fst p) (snd p) s = Inr s1" using shell_vars.set_ok by blast
  then have "length (global_vars s1) \<le> Suc (length (global_vars s))"
    by (rule set_variable_cases) (auto dest: update_first_Some)
  then show ?case using Cons s1 by simp
qed simp

lemma shell_init_returns:
  assumes "global_vars s = []"
  shows "\<exists>s'. shell_init [] s = Inr (shell_register_builtins [], s')"
proof -
  have "\<exists>t'. set_all initial_variables t = Inr t'" if "global_vars t = []" for t
    using that by (intro set_all_returns) (simp_all add: initial_variables_def SHELL_MAX_VARS_def)
  then have "\<exists>t'. shell_init_context t = Inr t'" if "global_vars t = []" for t
    using that by (simp add: shell_init_context_def timer_ticks_def Let_def)
  moreover have "global_vars (shell_layout (set_command [] 0 ((mark_dirty s)\<lparr>sh_input := i\<rparr>))) = []" for i
    using assms layout_tables by (simp add: same_tables_def set_command_def mark_dirty_def)
  ultimately show ?thesis by (simp add: shell_init_def Let_def)
qed


end
