(* ===== verification/Mira_Desktop.thy ===== *)
theory Mira_Desktop
  imports Mira_Draw Mira_Dev Mira_Ui Mira_Shell
begin

text \<open>
  The desktop: \<open>ui_init\<close>, \<open>ui_tick\<close> and \<open>ui_render\<close> of \<open>ui/ui.c\<close>, which put the shell, the widget
  tree, the mouse and the framebuffer together, and the turn of \<open>kernel_idle\<close> of \<open>kernel/main.c\<close>
  that drives them. The graphics calls of the shell are carried out on the framebuffer.
\<close>

section \<open>State\<close>

record desktop =
  d_ui :: ui_state
  d_shell :: shell
  d_builtins :: "builtin_cmd list"
  d_windows :: window_table
  d_text :: text_state
  d_mouse :: mouse
  d_fb :: fbst

text \<open>The shell asks the framebuffer driver for its state; its calls are collected from here on.\<close>

definition see_fb :: "fbst \<Rightarrow> shell \<Rightarrow> shell" where
  "see_fb s sh = sh\<lparr>shell.fb_ready := Mira_Fb.fb_ready s, shell.fb_width := framebuffer.fb_width (fb_info s),
     shell.fb_height := framebuffer.fb_height (fb_info s), gfx := [], con := (con sh)\<lparr>drawn := []\<rparr>\<rparr>"

text \<open>The characters a command has put out, drawn by \<open>text_draw_char\<close>.\<close>

fun show_chars :: "text_state \<Rightarrow> (int \<times> int \<times> char \<times> u32 \<times> u32) list \<Rightarrow> fbst \<Rightarrow> fbst res" where
  "show_chars t [] s = Inr s"
| "show_chars t ((x, y, c, fg, bg) # cs) s = bindR (text_draw_char t (word_of_int x) (word_of_int y) c fg bg s) (show_chars t cs)"

section \<open>The pointer\<close>

definition cursor_shape :: "u16 list" where
  "cursor_shape = [0xFFFF, 0x7FFF, 0x3FFF, 0x1FFF, 0x0FFF, 0x07FF, 0x03FF, 0x01FF, 0x00FF, 0x007F, 0x003F, 0x001F]"

definition cursor_at :: "u32 \<Rightarrow> u32 \<Rightarrow> u32" where
  "cursor_at m n = (let m1 = (if sint m < 0 then 0 else m) in if m1 \<ge> n then n - 1 else m1)"

definition cursor_cells :: "(nat \<times> nat) list" where
  "cursor_cells = concat (map (\<lambda>row. map (\<lambda>col. (row, col))
     (List.filter (\<lambda>col. (ucast (cursor_shape ! row) :: u32) AND drop_bit col 0x8000 \<noteq> 0) [0..<12])) [0..<12])"

definition ui_draw_cursor :: "mouse \<Rightarrow> fbst \<Rightarrow> fbst res" where
  "ui_draw_cursor m s =
     (let w = framebuffer.fb_width (fb_info s); h = framebuffer.fb_height (fb_info s);
          mx = cursor_at (mouse_get_x m) w; my = cursor_at (mouse_get_y m) h;
          ps = map (\<lambda>(row, col). (mx + word_of_nat col, my + word_of_nat row)) cursor_cells
      in put_pixels (List.filter (\<lambda>p. fst p < w \<and> snd p < h) ps) 0xFFFFFF s)"

section \<open>Start, tick and rendering\<close>

definition ui_init :: "desktop \<Rightarrow> desktop res" where
  "ui_init d =
     (let d1 = d\<lparr>d_text := text_init (d_text d), d_windows := window_init (d_windows d)\<rparr>
      in bindR (shell_init (d_builtins d1) (see_fb (d_fb d1) (d_shell d1))) (\<lambda>(bt, sh).
         bindR (ui_create_widget 0 \<lparr>rect_x = 0, rect_y = 0, rect_w = framebuffer.fb_width (fb_info (d_fb d1)),
                  rect_h = framebuffer.fb_height (fb_info (d_fb d1))\<rparr> (d_ui d1)) (\<lambda>(root, u).
         bindR (upd_widget root (\<lambda>w. w\<lparr>w_visible := True\<rparr>) (u\<lparr>root_widget := root\<rparr>)) (\<lambda>u1.
           Inr (d1\<lparr>d_shell := sh, d_builtins := bt, d_ui := u1\<lparr>ui_dirty_flag := True\<rparr>\<rparr>)))))"

definition ui_tick :: "nat \<Rightarrow> desktop \<Rightarrow> desktop res" where
  "ui_tick fuel d =
     bindR (shell_tick fuel (d_builtins d) (see_fb (d_fb d) (d_shell d))) (\<lambda>sh.
     bindR (show_chars (d_text d) (drawn (con sh)) (d_fb d)) (\<lambda>s.
       let d1 = d\<lparr>d_shell := sh, d_fb := s\<rparr>;
           d2 = (if mouse_has_moved (d_mouse d1)
                 then d1\<lparr>d_mouse := mouse_clear_moved (d_mouse d1), d_ui := (d_ui d1)\<lparr>ui_dirty_flag := True\<rparr>\<rparr> else d1)
       in Inr (if shell_dirty (d_shell d2) then d2\<lparr>d_ui := (d_ui d2)\<lparr>ui_dirty_flag := True\<rparr>\<rparr> else d2)))"

definition ui_render :: "nat \<Rightarrow> desktop \<Rightarrow> desktop res" where
  "ui_render fuel d =
     (if \<not> Mira_Fb.fb_ready (d_fb d) then Inr d
      else let sh = shell_render (see_fb (d_fb d) (d_shell d))
           in bindR (gfx_runs (d_text d) (gfx sh) (d_fb d)) (\<lambda>s1.
              bindR (ui_paint_widget fuel (root_widget (d_ui d)) (d_ui d)) (\<lambda>u.
              bindR (ui_draw_cursor (d_mouse d) s1) (\<lambda>s2.
              bindR (fb_swap_buffers s2) (\<lambda>s3.
                Inr (d\<lparr>d_shell := shell_clear_dirty sh, d_ui := ui_clear_dirty u, d_fb := s3\<rparr>))))))"

text \<open>One turn of \<open>kernel_idle\<close> with the reading of the clock in it; the state is the tick of the last redraw.\<close>

definition idle_turn :: "nat \<Rightarrow> u64 \<Rightarrow> u64 \<times> desktop \<Rightarrow> (u64 \<times> desktop) res" where
  "idle_turn fuel t = (\<lambda>(last_tick, d).
     bindR (ui_tick fuel d) (\<lambda>d1.
       if ui_dirty (d_ui d1) \<or> t \<noteq> last_tick then bindR (ui_render fuel d1) (\<lambda>d2. Inr (t, d2)) else Inr (last_tick, d1)))"

section \<open>The desktop's graphics calls\<close>

definition calls_ok :: "shell \<Rightarrow> bool" where "calls_ok s \<longleftrightarrow> (\<forall>op \<in> set (gfx s). op_ok op)"

definition big_screen :: "shell \<Rightarrow> bool" where
  "big_screen s \<longleftrightarrow> 800 \<le> unat (shell.fb_width s) \<and> unat (shell.fb_width s) < 2 ^ 28 \<and>
     600 \<le> unat (shell.fb_height s) \<and> unat (shell.fb_height s) < 2 ^ 28"

lemma big_screen_words:
  assumes "big_screen s"
  shows "shell.fb_width s < 2 ^ 31" "shell.fb_height s < 2 ^ 31" "shell.fb_width s < 2 ^ 29" "shell.fb_height s < 2 ^ 29"
  using assms by (simp_all add: big_screen_def word_less_nat_alt)

lemma draw_fields [simp]:
  "shell.fb_width (draw ops s) = shell.fb_width s" "shell.fb_height (draw ops s) = shell.fb_height s"
  "shell.fb_ready (draw ops s) = shell.fb_ready s" "ui (draw ops s) = ui s" "calls_ok (draw ops s) \<longleftrightarrow> calls_ok s \<and> (\<forall>op \<in> set ops. op_ok op)"
  by (auto simp: draw_def calls_ok_def)

lemma draw_screen [simp]: "big_screen (draw ops s) = big_screen s"
  by (simp add: big_screen_def)

lemma ticks_fields [simp]:
  "calls_ok (snd (timer_ticks s)) = calls_ok s" "ui (snd (timer_ticks s)) = ui s" "shell.fb_width (snd (timer_ticks s)) = shell.fb_width s"
  "shell.fb_height (snd (timer_ticks s)) = shell.fb_height s" "shell.fb_ready (snd (timer_ticks s)) = shell.fb_ready s"
  "big_screen (snd (timer_ticks s)) = big_screen s"
  by (simp_all add: timer_ticks_def calls_ok_def big_screen_def)

lemma statusbar_calls [simp]:
  "big_screen s \<Longrightarrow> calls_ok (shell_draw_statusbar s) = calls_ok s" "ui (shell_draw_statusbar s) = ui s"
  "shell.fb_width (shell_draw_statusbar s) = shell.fb_width s" "shell.fb_height (shell_draw_statusbar s) = shell.fb_height s"
  "big_screen (shell_draw_statusbar s) = big_screen s"
  using big_screen_words [of s] by (auto simp: shell_draw_statusbar_def Let_def split_def op_ok_def SHELL_TOP_H_def)

lemma mod_below:
  fixes w :: u32
  assumes "0 < unat w" "unat w < 2 ^ 28"
  shows "unat (ucast ((t :: u64) mod ucast w) :: u32) < unat w"
proof -
  have "unat (ucast w :: u64) = unat w" using assms(2) by (simp add: unsigned_ucast_eq take_bit_nat_eq_self_iff)
  then have "unat (t mod ucast w) = unat t mod unat w" by (simp add: unat_mod)
  moreover have "unat t mod unat w < unat w" using assms(1) by simp
  ultimately show ?thesis using assms(2) by (simp add: unsigned_ucast_eq take_bit_nat_eq_self)
qed

lemma background_calls [simp]:
  "big_screen s \<Longrightarrow> calls_ok (shell_draw_fluid_background s) = calls_ok s" "ui (shell_draw_fluid_background s) = ui s"
  "shell.fb_width (shell_draw_fluid_background s) = shell.fb_width s" "shell.fb_height (shell_draw_fluid_background s) = shell.fb_height s"
  "big_screen (shell_draw_fluid_background s) = big_screen s"
proof -
  show "ui (shell_draw_fluid_background s) = ui s" "big_screen (shell_draw_fluid_background s) = big_screen s"
    "shell.fb_width (shell_draw_fluid_background s) = shell.fb_width s" "shell.fb_height (shell_draw_fluid_background s) = shell.fb_height s"
    by (simp_all add: shell_draw_fluid_background_def Let_def split_def)
  assume big: "big_screen s"
  let ?w = "shell.fb_width s" and ?t = "fst (timer_ticks s)"
  have w: "?w \<noteq> 0" "0 < unat ?w" "unat ?w < 2 ^ 28" using big by (auto simp: big_screen_def)
  let ?a = "ucast (?t mod ucast ?w) :: u32" and ?b = "ucast ((?t * 2 + 120) mod ucast ?w) :: u32"
  have ab: "unat ?a < 2 ^ 28" "unat ?b < 2 ^ 28" using mod_below [OF w(2,3)] w(3) by (meson order.strict_trans)+
  then have "unat ((?a + ?b) div 2) < 2 ^ 29" by (simp add: unat_div unat_word_ariths)
  then have "?a < 2 ^ 29" "?b < 2 ^ 29" "(?a + ?b) div 2 < 2 ^ 29" using ab by (simp_all add: word_less_nat_alt)
  then show "calls_ok (shell_draw_fluid_background s) = calls_ok s"
    using w(1) big_screen_words [OF big] by (auto simp: shell_draw_fluid_background_def Let_def split_def op_ok_def)
qed

lemma word_minus_less:
  fixes x c :: u32
  assumes "unat c \<le> unat x" "unat x < 2 ^ 28"
  shows "unat (x - c) = unat x - unat c" "x - c < 2 ^ 29" "x - c < 2 ^ 31"
proof -
  show u: "unat (x - c) = unat x - unat c" using assms(1) by (simp add: unat_sub word_le_nat_alt)
  have "unat (x - c) < 2 ^ 28" using assms(2) u by simp
  then show "x - c < 2 ^ 29" "x - c < 2 ^ 31" by (simp_all add: word_less_nat_alt)
qed

lemma layout_rects:
  assumes "big_screen s" "shell.fb_ready s"
  shows "rect_ok (pn_bounds (sidebar_panel (ui (shell_layout s))))" "rect_ok (pn_bounds (main_panel (ui (shell_layout s))))"
    "rect_ok (bt_bounds (btn_clear (ui (shell_layout s))))" "rect_ok (bt_bounds (btn_about (ui (shell_layout s))))"
    "rect_ok (bt_bounds (btn_files (ui (shell_layout s))))" "rect_ok (bt_bounds (btn_style (ui (shell_layout s))))"
    "rect_ok (tf_bounds (cmd_field (ui (shell_layout s))))"
proof -
  let ?w = "shell.fb_width s" and ?h = "shell.fb_height s"
  have big: "800 \<le> unat ?w" "unat ?w < 2 ^ 28" "600 \<le> unat ?h" "unat ?h < 2 ^ 28" using assms(1) by (simp_all add: big_screen_def)
  have d: "4 \<le> ?h - 104" "?h - 104 < 2 ^ 31" "4 \<le> ?h - 128" "?h - 128 < 2 ^ 31" "4 \<le> ?w - 236" "?w - 236 < 2 ^ 31"
      "4 \<le> ?w - 32" "?w - 32 < 2 ^ 31"
    using big word_minus_less [of _ ?h] word_minus_less [of _ ?w] by (simp_all add: word_le_nat_alt)
  show "rect_ok (pn_bounds (sidebar_panel (ui (shell_layout s))))" "rect_ok (pn_bounds (main_panel (ui (shell_layout s))))"
    "rect_ok (bt_bounds (btn_clear (ui (shell_layout s))))" "rect_ok (bt_bounds (btn_about (ui (shell_layout s))))"
    "rect_ok (bt_bounds (btn_files (ui (shell_layout s))))" "rect_ok (bt_bounds (btn_style (ui (shell_layout s))))"
    "rect_ok (tf_bounds (cmd_field (ui (shell_layout s))))"
    using d assms(2) by (simp_all add: shell_layout_def Let_def rect_ok_def side_button_def SHELL_SIDEBAR_W_def SHELL_TOP_H_def SHELL_DOCK_H_def)
qed

lemma layout_fields [simp]:
  "calls_ok (shell_layout s) = calls_ok s" "big_screen (shell_layout s) = big_screen s" "gfx (shell_layout s) = gfx s"
  "shell.fb_width (shell_layout s) = shell.fb_width s" "shell.fb_height (shell_layout s) = shell.fb_height s"
  "clock (shell_layout s) = clock s" "clock_reads (shell_layout s) = clock_reads s"
  by (simp_all add: shell_layout_def calls_ok_def big_screen_def Let_def)

lemma cards_ok: "i < 3 \<Longrightarrow> op \<in> set (draw_card 240 90 i label) \<Longrightarrow> op_ok op"
  by (auto simp: draw_card_def Let_def op_ok_def less_Suc_eq numeral_3_eq_3)

lemma content_calls:
  assumes "big_screen s" "rect_x (pn_bounds (main_panel (ui s))) = 224" "rect_y (pn_bounds (main_panel (ui s))) = 58"
    and "rect_w (pn_bounds (main_panel (ui s))) = shell.fb_width s - 236"
  shows "calls_ok (shell_draw_main_content s) = calls_ok s" "ui (shell_draw_main_content s) = ui s"
proof -
  let ?w = "shell.fb_width s"
  have big: "800 \<le> unat ?w" "unat ?w < 2 ^ 28" using assms(1) by (simp_all add: big_screen_def)
  have d: "?w - 50 < 2 ^ 29" "?w - 56 < 2 ^ 29" "?w - 44 < 2 ^ 29" "?w - 54 < 2 ^ 29" "?w - 46 < 2 ^ 29"
    using big word_minus_less(2) [of _ ?w] by simp_all
  show "calls_ok (shell_draw_main_content s) = calls_ok s"
    using assms(2-4) d cards_ok [of 0 _ "''Notes''"] cards_ok [of 1 _ "''Photos''"] cards_ok [of 2 _ "''Terminal''"]
    by (auto simp: shell_draw_main_content_def Let_def split_def shell_draw_sparkle_def op_ok_def)
  show "ui (shell_draw_main_content s) = ui s"
    by (simp add: shell_draw_main_content_def Let_def split_def shell_draw_sparkle_def)
qed

lemma render_calls:
  assumes "big_screen s" "shell.fb_ready s" "gfx s = []"
  shows "calls_ok (shell_render s)"
proof -
  let ?s1 = "shell_layout s" and ?u = "ui (shell_layout s)"
  define s2 where "s2 = shell_draw_statusbar (shell_draw_fluid_background ?s1)"
  have c: "calls_ok s" using assms(3) by (simp add: calls_ok_def)
  have s2: "calls_ok s2" "ui s2 = ?u" "big_screen s2" "shell.fb_width s2 = shell.fb_width s"
    using assms by (simp_all add: s2_def c)
  define ops where "ops = ui_panel_draw (sidebar_panel ?u) @ ui_panel_draw (main_panel ?u) @ ui_button_draw (btn_clear ?u) @
    ui_button_draw (btn_about ?u) @ ui_button_draw (btn_files ?u) @ ui_button_draw (btn_style ?u)"
  note rects = layout_rects [OF assms(1,2)]
  have ops: "\<forall>op \<in> set ops. op_ok op"
    using panel_draw_ok [OF rects(1)] panel_draw_ok [OF rects(2)] button_draw_ok [OF rects(3)] button_draw_ok [OF rects(4)]
      button_draw_ok [OF rects(5)] button_draw_ok [OF rects(6)] by (auto simp: ops_def)
  have main: "rect_x (pn_bounds (main_panel ?u)) = 224" "rect_y (pn_bounds (main_panel ?u)) = 58" "rect_w (pn_bounds (main_panel ?u)) = shell.fb_width s - 236"
    using assms(2) by (simp_all add: shell_layout_def Let_def SHELL_SIDEBAR_W_def SHELL_TOP_H_def)
  have s4: "calls_ok (shell_draw_main_content (draw ops s2))" "ui (shell_draw_main_content (draw ops s2)) = ?u"
    using content_calls [of "draw ops s2"] s2 ops main by simp_all
  have "shell_render s = (let s5 = draw (ui_textfield_draw (cmd_field ?u) @
      [Draw_rect 0 (shell.fb_height s - SHELL_DOCK_H) (shell.fb_width s) SHELL_DOCK_H 0xFFB6DE,
       Draw_rect 0 (shell.fb_height s - SHELL_DOCK_H) (shell.fb_width s) 4 0xFFFFFF,
       Draw_text 16 (shell.fb_height s - 42)
         ''Type a command, press Enter.  Backspace edits.  Pink dock is always alive.'' 0x9B005D 0xFFB6DE])
      (shell_draw_main_content (draw ops s2)) in s5\<lparr>ui := (ui s5)\<lparr>dirty := False\<rparr>\<rparr>)"
    using assms(2) s2(2) s4(2) by (simp add: shell_render_def Let_def s2_def ops_def)
  moreover have "calls_ok (t\<lparr>ui := v\<rparr>) = calls_ok t" for t v by (simp add: calls_ok_def)
  ultimately show ?thesis
    using s4(1) textfield_draw_ok [OF rects(7)] big_screen_words [OF assms(1)] by (auto simp: Let_def op_ok_def SHELL_DOCK_H_def)
qed

section \<open>Rendering\<close>

lemma cursor_cells_set: "(row, col) \<in> set cursor_cells \<longleftrightarrow> row \<le> col \<and> col < 12"
proof -
  have "\<forall>row \<in> set [0..<12]. \<forall>col \<in> set [0..<12]. (ucast (cursor_shape ! row) :: u32) AND drop_bit col 0x8000 \<noteq> 0 \<longleftrightarrow> row \<le> col"
    by code_simp
  then have "(row, col) \<in> set cursor_cells \<longleftrightarrow> row < 12 \<and> col < 12 \<and> row \<le> col" unfolding cursor_cells_def by (auto intro!: bexI [of _ row])
  then show ?thesis by auto
qed

lemma fits_big:
  assumes "fb_fits f" "800 \<le> framebuffer.fb_width f" "600 \<le> framebuffer.fb_height f"
  shows "800 \<le> unat (framebuffer.fb_width f)" "unat (framebuffer.fb_width f) < 2 ^ 28"
    "600 \<le> unat (framebuffer.fb_height f)" "unat (framebuffer.fb_height f) < 2 ^ 28"
proof -
  let ?w = "unat (framebuffer.fb_width f)" and ?h = "unat (framebuffer.fb_height f)" and ?p = "unat (fb_pitch f)"
  show w: "800 \<le> ?w" and h: "600 \<le> ?h" using assms(2,3) by (simp_all add: word_le_nat_alt)
  have p: "4 * ?w \<le> ?p" "?h * ?p < 2 ^ 32" using assms(1) by (simp_all add: fb_fits_def)
  have "600 * (4 * ?w) \<le> ?h * ?p" using h p(1) by (rule mult_le_mono)
  then show "?w < 2 ^ 28" using p(2) by simp
  have "?h * 3200 \<le> ?h * ?p" using w p(1) by (intro mult_le_mono) simp_all
  from le_less_trans [OF this p(2)] show "?h < 2 ^ 28" by simp
qed

lemma cursor_on_screen:
  assumes "n \<noteq> 0"
  shows "unat (cursor_at m n) < unat n"
proof -
  have "1 \<le> n" using assms by (simp add: word_le_nat_alt Suc_le_eq unat_gt_0)
  then have "unat (n - 1) < unat n" using assms by (simp add: unat_sub unat_gt_0)
  then show ?thesis by (auto simp: cursor_at_def Let_def not_le word_less_nat_alt)
qed

text \<open>The mouse position as a signed number, moved into the screen.\<close>

definition clamp_into :: "u32 \<Rightarrow> u32 \<Rightarrow> nat" where
  "clamp_into m n = nat (min (max 0 (sint m)) (int (unat n) - 1))"

lemma sint_u32: "sint (x :: u32) = (if uint x < 2147483648 then uint x else uint x - 4294967296)"
proof -
  have "sint x = (uint x + 2147483648) mod 4294967296 - 2147483648"
    by (simp add: sint_uint signed_take_bit_eq_take_bit_shift take_bit_eq_mod)
  moreover have "0 \<le> uint x" "uint x < 4294967296" using uint_lt2p [of x] by simp_all
  moreover have "(uint x + 2147483648) mod 4294967296 = uint x - 2147483648" if "2147483648 \<le> uint x"
    using that calculation(2,3) by (simp add: mod_pos_geq mod_pos_pos_trivial)
  ultimately show ?thesis by (simp add: mod_pos_pos_trivial)
qed

lemma cursor_at_clamps:
  assumes "n \<noteq> 0"
  shows "unat (cursor_at m n) = clamp_into m n"
proof -
  have n: "1 \<le> n" "0 < unat n" using assms by (simp_all add: word_le_nat_alt Suc_le_eq unat_gt_0)
  then have u: "unat (n - 1) = unat n - 1" by (simp add: unat_sub)
  show ?thesis
  proof (cases "sint m < 0")
    case True
    then show ?thesis using n assms by (simp add: cursor_at_def clamp_into_def)
  next
    case False
    then have m: "sint m = uint m" using uint_lt2p [of m] by (simp add: sint_u32 split: if_splits)
    have "nat (min (int a) (int b - 1)) = (if b \<le> a then b - 1 else a)" if "0 < b" for a b :: nat using that by (auto simp: min_def)
    from this [OF n(2), of "unat m"] have "nat (min (uint m) (int (unat n) - 1)) = (if unat n \<le> unat m then unat n - 1 else unat m)"
      unfolding uint_nat .
    then show ?thesis using u False by (simp add: cursor_at_def clamp_into_def m word_le_nat_alt)
  qed
qed

lemma draw_cursor_paints:
  assumes "fb_ok f s" "800 \<le> framebuffer.fb_width f" "600 \<le> framebuffer.fb_height f"
    and "X = clamp_into (mouse_get_x m) (framebuffer.fb_width f)" "Y = clamp_into (mouse_get_y m) (framebuffer.fb_height f)"
  shows "\<exists>s'. ui_draw_cursor m s = Inr s' \<and> fb_ok f s' \<and> length (screen s') = length (screen s) \<and>
    (\<forall>row col. row \<le> col \<and> col < 12 \<and> (X + col, Y + row) \<in> points f \<longrightarrow> picture s' (X + col, Y + row) = Some (bytes32 0xFFFFFF))"
proof -
  have fb: "fb_info s = f" "fb_fits f" using assms(1) by (simp_all add: fb_ok_def fb_info_def)
  note big = fits_big [OF fb(2) assms(2,3)]
  let ?w = "framebuffer.fb_width f" and ?h = "framebuffer.fb_height f"
  define mx where "mx = cursor_at (mouse_get_x m) ?w"
  define my where "my = cursor_at (mouse_get_y m) ?h"
  have nz: "?w \<noteq> 0" "?h \<noteq> 0" using big by auto
  have xy: "X < unat ?w" "Y < unat ?h" "unat mx = X" "unat my = Y"
    using cursor_on_screen [OF nz(1)] cursor_on_screen [OF nz(2)] assms(4,5) by (simp_all add: mx_def my_def cursor_at_clamps nz)
  define ps where "ps = List.filter (\<lambda>p. fst p < ?w \<and> snd p < ?h) (map (\<lambda>(row, col). (mx + word_of_nat col, my + word_of_nat row)) cursor_cells)"
  have u: "unat (mx + word_of_nat col) = X + col" "unat (my + word_of_nat row) = Y + row" if "row \<le> col" "col < 12" for row col
    using that xy big by (simp_all add: unat_word_ariths unat_of_nat)
  have draw: "ui_draw_cursor m s = put_pixels ps 0xFFFFFF s" by (simp add: ui_draw_cursor_def Let_def fb ps_def mx_def my_def)
  have cell: "(X + col, Y + row) \<in> (\<lambda>q. (unat (fst q), unat (snd q))) ` set ps"
    if "row \<le> col" "col < 12" "(X + col, Y + row) \<in> points f" for row col
  proof (rule image_eqI)
    show "(X + col, Y + row) = (\<lambda>q. (unat (fst q), unat (snd q))) (mx + word_of_nat col, my + word_of_nat row)" using u [OF that(1,2)] by simp
    have "mx + word_of_nat col < ?w" "my + word_of_nat row < ?h" using that(3) u [OF that(1,2)] by (simp_all add: points_def word_less_nat_alt)
    moreover have "(row, col) \<in> set cursor_cells" using that(1,2) by (simp add: cursor_cells_set)
    ultimately show "(mx + word_of_nat col, my + word_of_nat row) \<in> set ps" by (force simp: ps_def)
  qed
  obtain s' where s': "put_pixels ps 0xFFFFFF s = Inr s'" "fb_ok f s'" "picture s' = picture s ++
      (\<lambda>p. if p \<in> points f \<and> p \<in> (\<lambda>q. (unat (fst q), unat (snd q))) ` set ps then Some (bytes32 0xFFFFFF) else None)"
    using paintsD [OF put_pixels_paints assms(1)] by blast
  have "length (screen s') = length (screen s)" by (rule keepsD [OF keeps_puts s'(1)])
  moreover have "\<forall>row col. row \<le> col \<and> col < 12 \<and> (X + col, Y + row) \<in> points f \<longrightarrow> picture s' (X + col, Y + row) = Some (bytes32 0xFFFFFF)"
    using cell s'(3) by (auto simp: map_add_def)
  ultimately show ?thesis using draw s'(1,2) by auto
qed

lemma render_desktop:
  assumes "fb_ok f (d_fb d)" "800 \<le> framebuffer.fb_width f" "600 \<le> framebuffer.fb_height f"
    and "length (screen (d_fb d)) = unat (framebuffer.fb_height f) * unat (fb_pitch f)" "d_text d = text_init t"
    and "ui_tree (Widget r cs No_widget) (d_ui d)" "2 * length (forest_nodes cs) + 1 < fuel"
    and "X = clamp_into (mouse_get_x (d_mouse d)) (framebuffer.fb_width f)"
    and "Y = clamp_into (mouse_get_y (d_mouse d)) (framebuffer.fb_height f)"
  shows "\<exists>d'. ui_render fuel d = Inr d' \<and> fb_ok f (d_fb d') \<and> screen (d_fb d') = surface (d_fb d') \<and>
    \<not> ui_dirty (d_ui d') \<and> \<not> shell_dirty (d_shell d') \<and>
    (\<forall>row col. row \<le> col \<and> col < 12 \<and> (X + col, Y + row) \<in> points f \<longrightarrow>
       picture (d_fb d') (X + col, Y + row) = Some (bytes32 0xFFFFFF))"
proof -
  have fb: "fb_info (d_fb d) = f" "fb_fits f" "Mira_Fb.fb_ready (d_fb d)"
    using assms(1) by (simp_all add: fb_ok_def fb_info_def Mira_Fb.fb_ready_def fb_fits_def)
  define sh where "sh = shell_render (see_fb (d_fb d) (d_shell d))"
  have "calls_ok sh" unfolding sh_def
    by (rule render_calls) (use fits_big [OF fb(2) assms(2,3)] fb in \<open>simp_all add: see_fb_def big_screen_def\<close>)
  then obtain s1 where s1: "gfx_runs (d_text d) (gfx sh) (d_fb d) = Inr s1" "fb_ok f s1"
    using gfx_runs_total [OF assms(1), of "gfx sh" t] assms(5) by (auto simp: calls_ok_def)
  have n1: "length (screen s1) = length (screen (d_fb d))" by (rule keepsD [OF keeps_runs s1(1)])
  obtain w where w: "root_widget (d_ui d) = r" "r \<noteq> 0" "ui_widgets (d_ui d) r = Some w" "forest_at (ui_widgets (d_ui d)) r 0 (w_children w) cs"
    using assms(6) by (auto simp: ui_tree_def)
  obtain u where u: "ui_paint_widget fuel (root_widget (d_ui d)) (d_ui d) = Inr u"
    using paint_tree [OF assms(6,7)] by blast
  obtain s2 where s2: "ui_draw_cursor (d_mouse d) s1 = Inr s2" "fb_ok f s2" "length (screen s2) = length (screen s1)"
    "\<forall>row col. row \<le> col \<and> col < 12 \<and> (X + col, Y + row) \<in> points f \<longrightarrow> picture s2 (X + col, Y + row) = Some (bytes32 0xFFFFFF)"
    using draw_cursor_paints [OF s1(2) assms(2,3,8,9)] by blast
  obtain s3 where s3: "fb_swap_buffers s2 = Inr s3" "fb_ok f s3" "picture s3 = picture s2" "screen s3 = surface s3"
    using swap_runs [OF s2(2)] s2(3) n1 assms(4) by auto
  have "ui_render fuel d = Inr (d\<lparr>d_shell := shell_clear_dirty sh, d_ui := ui_clear_dirty u, d_fb := s3\<rparr>)"
    using fb(3) s1(1) u s2(1) s3(1) by (simp add: ui_render_def Let_def sh_def)
  then show ?thesis using s3 s2(4)
    by (simp add: ui_dirty_def ui_clear_dirty_def shell_dirty_def shell_clear_dirty_def input_dirty_def input_clear_dirty_def)
qed

text \<open>
  C9. On a screen of at least 800 by 600 pixels rendering the desktop never faults, wherever the
  mouse is and whatever the shell's state, leaves nothing marked for redrawing, and brings the
  drawn picture to the screen; the arrow of the pointer is white on top of everything, at the
  mouse position moved into the screen.
\<close>

theorem render_shows_pointer:
  assumes "fb_ok f (d_fb d)" "800 \<le> framebuffer.fb_width f" "600 \<le> framebuffer.fb_height f"
    and "length (screen (d_fb d)) = unat (framebuffer.fb_height f) * unat (fb_pitch f)" "d_text d = text_init t"
    and "ui_tree (Widget r cs No_widget) (d_ui d)" "2 * length (forest_nodes cs) + 1 < fuel"
    and "X = clamp_into (mouse_get_x (d_mouse d)) (framebuffer.fb_width f)"
    and "Y = clamp_into (mouse_get_y (d_mouse d)) (framebuffer.fb_height f)"
  shows "\<exists>d'. ui_render fuel d = Inr d' \<and> fb_ok f (d_fb d') \<and> screen (d_fb d') = surface (d_fb d') \<and>
    \<not> ui_dirty (d_ui d') \<and> \<not> shell_dirty (d_shell d') \<and>
    (\<forall>row col. row \<le> col \<and> col < 12 \<and> (X + col, Y + row) \<in> points f \<longrightarrow>
       picture (d_fb d') (X + col, Y + row) = Some (bytes32 0xFFFFFF))"
  by (rule render_desktop [OF assms])

section \<open>Start and turns\<close>

definition ui_fresh_ok :: "ui_state \<Rightarrow> bool" where
  "ui_fresh_ok u \<longleftrightarrow> 0 < ui_fresh u \<and> (\<forall>a. ui_widgets u a \<noteq> None \<longrightarrow> 0 < a \<and> a < ui_fresh u)"

lemma ui_init_returns:
  assumes "global_vars (d_shell d) = []" "d_builtins d = []" "ui_fresh_ok (d_ui d)" "fst (kmalloc_outcome 104 (ui_allocs (d_ui d)))"
  shows "\<exists>d'. ui_init d = Inr d' \<and> d_fb d' = d_fb d \<and> d_mouse d' = d_mouse d \<and> d_text d' = text_init (d_text d) \<and>
    ui_tree (Widget (ui_fresh (d_ui d)) No_widget No_widget) (d_ui d')"
proof -
  let ?u = "d_ui d" and ?r = "\<lparr>rect_x = 0, rect_y = 0, rect_w = framebuffer.fb_width (fb_info (d_fb d)), rect_h = framebuffer.fb_height (fb_info (d_fb d))\<rparr>"
  let ?u1 = "?u\<lparr>ui_allocs := snd (kmalloc_outcome 104 (ui_allocs ?u)), ui_widgets := (ui_widgets ?u)(ui_fresh ?u \<mapsto> new_widget 0 ?r), ui_fresh := Suc (ui_fresh ?u)\<rparr>"
  let ?u2 = "?u1\<lparr>root_widget := ui_fresh ?u\<rparr>"
  have "global_vars (see_fb (d_fb d) (d_shell d)) = []" using assms(1) by (simp add: see_fb_def)
  then obtain sh where sh: "shell_init [] (see_fb (d_fb d) (d_shell d)) = Inr (shell_register_builtins [], sh)" using shell_init_returns by blast
  have c: "ui_create_widget 0 ?r ?u = Inr (ui_fresh ?u, ?u1)" using assms(4) by (simp add: ui_create_widget_def Let_def split_def)
  have nz: "ui_fresh ?u \<noteq> 0" using assms(3) by (simp add: ui_fresh_ok_def)
  have v: "upd_widget (ui_fresh ?u) (\<lambda>w. w\<lparr>w_visible := True\<rparr>) ?u2 =
      Inr (?u2\<lparr>ui_widgets := (ui_widgets ?u)(ui_fresh ?u \<mapsto> (new_widget 0 ?r)\<lparr>w_visible := True\<rparr>)\<rparr>)"
    using nz by (simp add: upd_widget_def get_widget_def)
  have "ui_init d = Inr (d\<lparr>d_text := text_init (d_text d), d_windows := window_init (d_windows d), d_shell := sh, d_builtins := shell_register_builtins [],
      d_ui := ?u2\<lparr>ui_widgets := (ui_widgets ?u)(ui_fresh ?u \<mapsto> (new_widget 0 ?r)\<lparr>w_visible := True\<rparr>), ui_dirty_flag := True\<rparr>\<rparr>)"
    using sh c v by (simp add: ui_init_def Let_def assms(2) del: fun_upd_apply)
  moreover have "ui_tree (Widget (ui_fresh ?u) No_widget No_widget)
      (?u2\<lparr>ui_widgets := (ui_widgets ?u)(ui_fresh ?u \<mapsto> (new_widget 0 ?r)\<lparr>w_visible := True\<rparr>), ui_dirty_flag := True\<rparr>)"
    using assms(3) by (auto simp: ui_tree_def ui_fresh_ok_def new_widget_def less_Suc_eq)
  ultimately show ?thesis by simp
qed

text \<open>
  Starting the desktop and drawing it for the first time returns without a fault, on every
  screen of at least 800 by 600 pixels.
\<close>

theorem desktop_starts:
  assumes "global_vars (d_shell d) = []" "d_builtins d = []" "ui_fresh_ok (d_ui d)" "fst (kmalloc_outcome 104 (ui_allocs (d_ui d)))"
    and "fb_ok f (d_fb d)" "800 \<le> framebuffer.fb_width f" "600 \<le> framebuffer.fb_height f"
    and "length (screen (d_fb d)) = unat (framebuffer.fb_height f) * unat (fb_pitch f)" "1 < fuel"
  shows "\<exists>d1 d2. ui_init d = Inr d1 \<and> ui_render fuel d1 = Inr d2 \<and> fb_ok f (d_fb d2) \<and> screen (d_fb d2) = surface (d_fb d2)"
proof -
  obtain d1 where d1: "ui_init d = Inr d1" "d_fb d1 = d_fb d" "d_mouse d1 = d_mouse d" "d_text d1 = text_init (d_text d)"
    "ui_tree (Widget (ui_fresh (d_ui d)) No_widget No_widget) (d_ui d1)" using ui_init_returns [OF assms(1-4)] by blast
  have "\<exists>d2. ui_render fuel d1 = Inr d2 \<and> fb_ok f (d_fb d2) \<and> screen (d_fb d2) = surface (d_fb d2)"
    using render_desktop [OF _ assms(6,7) _ d1(4,5) _ refl refl, of fuel] assms(5,8,9) d1(2) by auto
  then show ?thesis using d1(1) by blast
qed

lemma tick_dirty: "shell_tick fuel bt s = Inr s' \<Longrightarrow> shell_dirty s'"
  by (auto simp: shell_tick_def Let_def shell_dirty_def mark_dirty_def set_command_def split: option.splits if_splits)

lemma ui_tick_dirty: "ui_tick fuel d = Inr d' \<Longrightarrow> ui_dirty (d_ui d')"
  using tick_dirty by (fastforce simp: ui_tick_def Let_def ui_dirty_def split: if_splits)

lemma gfx_runs_append: "gfx_runs t (xs @ ys) s = bindR (gfx_runs t xs s) (gfx_runs t ys)"
proof (induction xs arbitrary: s)
  case (Cons x xs)
  then show ?case by (cases "gfx_run t x s") simp_all
qed simp

text \<open>The rows of the moving background.\<close>

definition background_rows :: "u64 \<Rightarrow> u32 \<Rightarrow> nat \<Rightarrow> gfx_op list" where
  "background_rows t w n = map (\<lambda>y. Draw_rect 0 (word_of_nat y) w 1 (band_color t (word_of_nat y))) [0..<n]"

lemma draw_gfx [simp]: "gfx (draw ops s) = gfx s @ ops"
  by (simp add: draw_def)

lemma render_rows_first:
  assumes "shell.fb_ready s" "gfx s = []"
  shows "\<exists>rest. gfx (shell_render s) =
    background_rows (clock s (clock_reads s)) (shell.fb_width s) (unat (shell.fb_height s)) @ rest"
proof -
  have ticks [simp]: "gfx (snd (timer_ticks s)) = gfx s" for s by (simp add: timer_ticks_def)
  have "\<exists>rest. gfx (shell_draw_fluid_background (shell_layout s)) =
    background_rows (clock s (clock_reads s)) (shell.fb_width s) (unat (shell.fb_height s)) @ rest"
    using assms(2) by (simp add: shell_draw_fluid_background_def background_rows_def Let_def timer_ticks_def)
  moreover have "\<exists>rest. gfx (shell_draw_statusbar v) = gfx v @ rest" for v
    by (simp add: shell_draw_statusbar_def Let_def split_def)
  moreover have "\<exists>rest. gfx (shell_draw_main_content v) = gfx v @ rest" for v
    by (simp add: shell_draw_main_content_def shell_draw_sparkle_def Let_def split_def)
  moreover have "\<exists>v ops. gfx (shell_render s) = gfx (shell_draw_main_content v) @ ops \<and>
      (\<exists>ops. v = draw ops (shell_draw_statusbar (shell_draw_fluid_background (shell_layout s))))"
    using assms(1) unfolding shell_render_def Let_def by auto
  ultimately show ?thesis by (metis append.assoc draw_gfx)
qed

lemma rows_cover:
  assumes "fb_ok f s" "unat (framebuffer.fb_width f) < 2 ^ 28" "n \<le> unat (framebuffer.fb_height f)" "unat (framebuffer.fb_height f) < 2 ^ 28"
  shows "\<exists>s'. gfx_runs x (background_rows t (framebuffer.fb_width f) n) s = Inr s' \<and> fb_ok f s' \<and>
    (\<forall>p \<in> points f. snd p < n \<longrightarrow> picture s' p = Some (bytes32 (band_color t (word_of_nat (snd p)))))"
  using assms(3)
proof (induction n)
  case 0
  then show ?case using assms(1) by (simp add: background_rows_def)
next
  case (Suc n)
  let ?w = "framebuffer.fb_width f" and ?c = "band_color t (word_of_nat n)"
  obtain s1 where s1: "gfx_runs x (background_rows t ?w n) s = Inr s1" "fb_ok f s1"
    "\<forall>p \<in> points f. snd p < n \<longrightarrow> picture s1 p = Some (bytes32 (band_color t (word_of_nat (snd p))))" using Suc by auto
  have n: "unat (word_of_nat n :: u32) = n" using Suc.prems assms(4) by (simp add: unat_of_nat)
  have "unat (0 :: u32) + unat ?w < 2 ^ 32" "unat (word_of_nat n :: u32) + unat (1 :: u32) < 2 ^ 32"
    using assms(2,4) Suc.prems n by simp_all
  then have "paints (fb_ok f) picture (fb_fill_rect 0 (word_of_nat n) ?w 1 ?c) (rect_picture f (unat (0 :: u32)) (unat (word_of_nat n :: u32)) (unat ?w) (unat (1 :: u32)) ?c)"
    by (rule fill_rect_total)
  from paintsD [OF this s1(2)] obtain s2 where s2: "fb_fill_rect 0 (word_of_nat n) ?w 1 ?c s1 = Inr s2" "fb_ok f s2"
    "picture s2 = picture s1 ++ rect_picture f 0 n (unat ?w) 1 ?c" using n by auto
  have "gfx_runs x (background_rows t ?w (Suc n)) s = Inr s2"
    using s1(1) s2(1) by (simp add: background_rows_def gfx_runs_append gfx_draw_rect_def fb_draw_rect_def)
  moreover have "picture s2 p = Some (bytes32 (band_color t (word_of_nat (snd p))))" if "p \<in> points f" "snd p < Suc n" for p
  proof (cases "snd p = n")
    case True
    then show ?thesis using that(1) s2(3) by (simp add: rect_picture_def map_add_def) (simp add: points_def)
  next
    case False
    then show ?thesis using that s1(3) s2(3) by (simp add: rect_picture_def map_add_def)
  qed
  ultimately show ?case using s2(2) by blast
qed


section \<open>A machine\<close>

definition demo_fb :: fbst where
  "demo_fb = \<lparr>fb = \<lparr>fb_addr = 0xE0000000, fb_pitch = 3200, fb_width = 800, fb_height = 600, fb_bpp = 32\<rparr>, back_buffer = None,
     use_double_buffer = False, screen = replicate 1920000 0, fb_heap = (\<lambda>_. 0), fb_allocs = []\<rparr>"

lemma demo_fb_ok: "fb_ok (fb demo_fb) demo_fb"
  "800 \<le> framebuffer.fb_width (fb demo_fb)" "600 \<le> framebuffer.fb_height (fb demo_fb)"
  "length (screen demo_fb) = unat (framebuffer.fb_height (fb demo_fb)) * unat (fb_pitch (fb demo_fb))"
  by (simp_all add: fb_ok_def fb_fits_def demo_fb_def surface_def)

definition demo_desktop :: "ui_state \<Rightarrow> text_state \<Rightarrow> desktop" where
  "demo_desktop u t = \<lparr>d_ui = u, d_shell = booted_shell, d_builtins = [],
     d_windows = \<lparr>windows = [], focused_window = 0, drag_window_idx = 0\<rparr>, d_text = t,
     d_mouse = \<lparr>mouse_x = 795, mouse_y = -3, mouse_buttons = 0, mouse_moved = False, mouse_cycle = 0, mouse_packet = [0, 0, 0]\<rparr>, d_fb = demo_fb\<rparr>"

theorem render_shows_pointer_witness:
  "\<exists>d'. ui_render 8 (demo_desktop demo_ui (text_init text_boot)) = Inr d' \<and> picture (d_fb d') (798, 2) = Some (bytes32 0xFFFFFF)"
proof -
  let ?d = "demo_desktop demo_ui (text_init text_boot)" and ?f = "fb demo_fb"
  have d: "d_fb ?d = demo_fb" "d_text ?d = text_init text_boot" "d_ui ?d = demo_ui" by (simp_all add: demo_desktop_def)
  have tree: "ui_tree (Widget 1 demo_kids No_widget) (d_ui ?d)" "2 * length (forest_nodes demo_kids) + 1 < 8"
    using demo_ui_tree by (simp_all add: d demo_kids_def)
  have pos: "795 = clamp_into (mouse_get_x (d_mouse ?d)) (framebuffer.fb_width ?f)"
    "0 = clamp_into (mouse_get_y (d_mouse ?d)) (framebuffer.fb_height ?f)"
    by (simp_all add: demo_desktop_def mouse_get_x_def mouse_get_y_def clamp_into_def demo_fb_def)
  obtain d' where d': "ui_render 8 ?d = Inr d'" "\<forall>row col. row \<le> col \<and> col < 12 \<and> (795 + col, 0 + row) \<in> points ?f \<longrightarrow>
      picture (d_fb d') (795 + col, 0 + row) = Some (bytes32 0xFFFFFF)"
    using render_shows_pointer [of ?f ?d, OF _ demo_fb_ok(2,3) _ d(2) tree pos] demo_fb_ok(1,4) by (auto simp: d)
  have "(798, 2) \<in> points ?f" by (simp add: points_def demo_fb_def)
  then show ?thesis using d'(1) d'(2) [rule_format, of 2 3] by (auto simp: numeral_2_eq_2)
qed

definition empty_ui :: ui_state where
  "empty_ui = \<lparr>ui_widgets = Map.empty, ui_fresh = 1, ui_allocs = [], root_widget = 0, focused_widget = 0, ui_dirty_flag = False, ui_calls = []\<rparr>"

theorem desktop_starts_witness:
  "\<exists>d1 d2. ui_init (demo_desktop empty_ui text_boot) = Inr d1 \<and> ui_render 2 d1 = Inr d2"
proof -
  let ?d = "demo_desktop empty_ui text_boot"
  have "global_vars (d_shell ?d) = []" "d_builtins ?d = []" "ui_fresh_ok (d_ui ?d)" "fst (kmalloc_outcome 104 (ui_allocs (d_ui ?d)))"
    by (simp_all add: demo_desktop_def booted_shell_def blank_shell_def ui_fresh_ok_def empty_ui_def)
  moreover have "d_fb ?d = demo_fb" by (simp add: demo_desktop_def)
  ultimately show ?thesis using desktop_starts [of ?d "fb demo_fb" 2] demo_fb_ok by auto
qed


end
