(* ===== verification/Mira_Safemode.thy ===== *)
theory Mira_Safemode
  imports Mira_Draw Mira_Dev Mira_Vfs Mira_Shell_Lex
begin

text \<open>
  The safe-mode screen, \<open>kernel/safemode.c\<close>: the diagnostics log, the layout and drawing of the
  screen, and the turns of its endless loop. Strings in the fixed-size buffers are lists of
  characters without the terminator. An action of a button never returns; a turn ends in it
  together with the port accesses it has made.
\<close>

section \<open>State\<close>

definition SM_BG :: u32 where "SM_BG = 0x0A0A0A"
definition SM_HEADER_BG :: u32 where "SM_HEADER_BG = 0x1A0000"
definition SM_HEADER_FG :: u32 where "SM_HEADER_FG = 0xFF4444"
definition SM_TEXT_FG :: u32 where "SM_TEXT_FG = 0xCCCCCC"
definition SM_DIM_FG :: u32 where "SM_DIM_FG = 0x666666"
definition SM_GREEN_FG :: u32 where "SM_GREEN_FG = 0x44FF88"
definition SM_BTN_BG :: u32 where "SM_BTN_BG = 0x1E1E1E"
definition SM_BTN_BG_HOVER :: u32 where "SM_BTN_BG_HOVER = 0x2A2A2A"
definition SM_BTN_BORDER :: u32 where "SM_BTN_BORDER = 0x444444"
definition SM_BTN_BORDER_HOVER :: u32 where "SM_BTN_BORDER_HOVER = 0x888888"
definition SM_BTN_TEXT :: u32 where "SM_BTN_TEXT = 0xFFFFFF"
definition SM_FONT_W :: u32 where "SM_FONT_W = 8"
definition SM_FONT_H :: u32 where "SM_FONT_H = 16"
definition SM_HEADER_H :: u32 where "SM_HEADER_H = 48"
definition SM_STATUS_H :: u32 where "SM_STATUS_H = 24"
definition SM_MAX_LINES :: nat where "SM_MAX_LINES = 64"
definition SM_LINE_LEN :: nat where "SM_LINE_LEN = 256"
definition SM_BTN_W :: u32 where "SM_BTN_W = 220"
definition SM_BTN_H :: u32 where "SM_BTN_H = 48"
definition SM_BTN_GAP :: u32 where "SM_BTN_GAP = 24"

lemmas sm_sizes = SM_FONT_W_def SM_FONT_H_def SM_HEADER_H_def SM_STATUS_H_def SM_MAX_LINES_def SM_LINE_LEN_def
  SM_BTN_W_def SM_BTN_H_def SM_BTN_GAP_def

datatype sm_action = Restart | Shutdown

record sm_button =
  sb_label :: string
  sb_x :: u32
  sb_y :: u32
  sb_w :: u32
  sb_h :: u32
  sb_action :: sm_action

text \<open>The used lines of the log with their colours; their number is \<open>sm_line_count\<close>.\<close>

record safemode =
  sm_active :: bool
  sm_reason :: string
  sm_lines :: "(string \<times> u32) list"
  sm_buttons :: "sm_button list"

definition sm_buttons_boot :: "sm_button list" where
  "sm_buttons_boot =
     [\<lparr>sb_label = ''Restart MiraOS'', sb_x = 0, sb_y = 0, sb_w = SM_BTN_W, sb_h = SM_BTN_H, sb_action = Restart\<rparr>,
      \<lparr>sb_label = ''Shutdown MiraOS'', sb_x = 0, sb_y = 0, sb_w = SM_BTN_W, sb_h = SM_BTN_H, sb_action = Shutdown\<rparr>]"

definition safemode_boot :: safemode where
  "safemode_boot = \<lparr>sm_active = False, sm_reason = [], sm_lines = [], sm_buttons = sm_buttons_boot\<rparr>"

section \<open>Strings\<close>

text \<open>The loops copy up to the terminator of the source or to the room left, one byte being kept for the terminator.\<close>

definition sm_str_copy :: "string \<Rightarrow> nat \<Rightarrow> string" where "sm_str_copy src n = take (n - 1) src"

definition sm_str_len :: "string \<Rightarrow> nat" where "sm_str_len s = length s"

definition sm_str_cat :: "string \<Rightarrow> string \<Rightarrow> nat \<Rightarrow> string" where
  "sm_str_cat dst src n = dst @ take (n - 1 - sm_str_len dst) src"

definition sm_uint_to_str :: "u64 \<Rightarrow> string" where
  "sm_uint_to_str v = (if v = 0 then ''0'' else rev (tmp_digits (unat v)))"

definition sm_point_in_rect :: "u32 \<Rightarrow> u32 \<Rightarrow> u32 \<Rightarrow> u32 \<Rightarrow> u32 \<Rightarrow> u32 \<Rightarrow> bool" where
  "sm_point_in_rect px py x y w h \<longleftrightarrow>
     sint px \<ge> sint x \<and> sint px < sint (x + w) \<and> sint py \<ge> sint y \<and> sint py < sint (y + h)"

section \<open>Diagnostics\<close>

definition sm_print :: "string \<Rightarrow> u32 \<Rightarrow> safemode \<Rightarrow> safemode" where
  "sm_print msg color st =
     (if length (sm_lines st) \<ge> SM_MAX_LINES then st
      else st\<lparr>sm_lines := sm_lines st @ [(sm_str_copy msg SM_LINE_LEN, color)]\<rparr>)"

definition file_line :: "vfs_node \<Rightarrow> string" where
  "file_line nd =
     (let line = sm_str_cat (sm_str_copy ''    '' SM_LINE_LEN) (vn_name nd) SM_LINE_LEN
      in if vn_type nd = VFS_TYPE_DIR then sm_str_cat line ''/'' SM_LINE_LEN else line)"

text \<open>The walk along the siblings; the number of nodes is enough fuel.\<close>

fun list_files :: "nat \<Rightarrow> nat option \<Rightarrow> vfs \<Rightarrow> safemode \<Rightarrow> safemode res" where
  "list_files k None v st = Inr st"
| "list_files 0 (Some c) v st = Inl Diverges"
| "list_files (Suc k) (Some c) v st =
     bindR (get_node c v) (\<lambda>nd. list_files k (vn_next_sibling nd) v (sm_print (file_line nd) SM_TEXT_FG st))"

definition display_line :: "fbst \<Rightarrow> string \<times> u32" where
  "display_line s =
     (if fb_ready s
      then (sm_str_cat (sm_str_cat (sm_str_cat (sm_str_cat (sm_str_copy ''  Display: '' 128)
              (sm_uint_to_str (ucast (fb_width (fb_info s)))) 128) ''x'' 128) (sm_uint_to_str (ucast (fb_height (fb_info s)))) 128) '' 32bpp'' 128,
            SM_TEXT_FG)
      else (''  Display: not available'', SM_HEADER_FG))"

definition sm_collect_diagnostics :: "u64 \<Rightarrow> fbst \<Rightarrow> vfs \<Rightarrow> safemode \<Rightarrow> safemode res" where
  "sm_collect_diagnostics ticks s v st =
     (let st1 = sm_print ''  System diagnostics'' SM_GREEN_FG st;
          st2 = sm_print (sm_str_cat (sm_str_cat (sm_str_copy ''  Uptime : '' 128) (sm_uint_to_str (ticks div 100)) 128) '' seconds'' 128)
                  SM_TEXT_FG st1;
          (line, color) = display_line s;
          st3 = sm_print line color st2;
          st4 = sm_print (sm_str_cat (sm_str_copy ''  Reason : '' 128) (sm_reason st3) 128) SM_HEADER_FG st3
      in case vfs_root v of
           None \<Rightarrow> Inr st4
         | Some root \<Rightarrow>
             let st5 = sm_print ''  Files in /:'' SM_GREEN_FG (sm_print [] SM_TEXT_FG st4)
             in bindR (get_node root v) (\<lambda>nd.
                  list_files (length (vnodes v)) (vn_children nd) v
                    (if vn_children nd = None then sm_print ''    (empty)'' SM_DIM_FG st5 else st5)))"

section \<open>Actions\<close>

text \<open>Restarting loads an unusable interrupt table and raises an interrupt; it accesses no port.\<close>

definition sm_action_restart :: "io \<Rightarrow> io" where "sm_action_restart i = i"

definition sm_action_shutdown :: "io \<Rightarrow> io" where
  "sm_action_shutdown i = outw 0xB004 0x2000 (outw 0x604 0x2000 i)"

fun sm_run_action :: "sm_action \<Rightarrow> io \<Rightarrow> io" where
  "sm_run_action Restart i = sm_action_restart i"
| "sm_run_action Shutdown i = sm_action_shutdown i"

section \<open>Drawing\<close>

definition sm_layout_buttons :: "u32 \<Rightarrow> u32 \<Rightarrow> sm_button list \<Rightarrow> sm_button list" where
  "sm_layout_buttons sw sh bs =
     (let n = word_of_nat (length bs); total_w = n * SM_BTN_W + (n - 1) * SM_BTN_GAP;
          start_x = (if sw > total_w then (sw - total_w) div 2 else 0);
          y = sh - SM_STATUS_H - SM_BTN_H - 24
      in map (\<lambda>(i, b). b\<lparr>sb_x := start_x + word_of_nat i * (SM_BTN_W + SM_BTN_GAP), sb_y := y\<rparr>) (enumerate 0 bs))"

fun log_ops :: "u32 \<Rightarrow> u32 \<Rightarrow> (string \<times> u32) list \<Rightarrow> gfx_op list" where
  "log_ops sh i [] = []"
| "log_ops sh i ((line, color) # ls) =
     (let y = SM_HEADER_H + 12 + i * SM_FONT_H
      in if y + SM_FONT_H > sh - SM_STATUS_H - SM_BTN_H - 40 then []
         else Draw_text 8 y line color SM_BG # log_ops sh (i + 1) ls)"

definition button_ops :: "text_state \<Rightarrow> u32 \<Rightarrow> u32 \<Rightarrow> sm_button \<Rightarrow> gfx_op list" where
  "button_ops t mx my b =
     (let hover = sm_point_in_rect mx my (sb_x b) (sb_y b) (sb_w b) (sb_h b);
          bg = (if hover then SM_BTN_BG_HOVER else SM_BTN_BG);
          label_w = ucast (text_width t (Some (sb_label b))) * SM_FONT_W;
          tx = sb_x b + (if sb_w b > label_w then (sb_w b - label_w) div 2 else 0);
          ty = sb_y b + (sb_h b - SM_FONT_H) div 2
      in [Draw_rect (sb_x b) (sb_y b) (sb_w b) (sb_h b) bg,
          Draw_outline (sb_x b) (sb_y b) (sb_w b) (sb_h b) (if hover then SM_BTN_BORDER_HOVER else SM_BTN_BORDER) 2,
          Draw_text tx ty (sb_label b) SM_BTN_TEXT bg])"

definition screen_ops :: "text_state \<Rightarrow> u32 \<Rightarrow> u32 \<Rightarrow> u32 \<Rightarrow> u32 \<Rightarrow> safemode \<Rightarrow> gfx_op list" where
  "screen_ops t sw sh mx my st =
     [Draw_rect 0 0 sw sh SM_BG,
      Draw_rect 0 0 sw SM_HEADER_H SM_HEADER_BG,
      Draw_text 16 8 ''MiraOS  SAFE MODE'' SM_HEADER_FG SM_HEADER_BG,
      Draw_text 16 26 (sm_reason st) SM_DIM_FG SM_HEADER_BG] @
     log_ops sh 0 (sm_lines st) @
     concat (map (button_ops t mx my) (sm_buttons st)) @
     [Draw_rect mx my 3 12 0xFFFFFF,
      Draw_rect mx my 12 3 0xFFFFFF,
      Draw_rect 0 (sh - SM_STATUS_H) sw SM_STATUS_H 0x110000,
      Draw_text 8 (sh - SM_STATUS_H + 4) ''Click a button to continue  |  safe mode  |  no apps loaded'' SM_DIM_FG 0x110000]"

definition sm_render :: "text_state \<Rightarrow> u32 \<Rightarrow> u32 \<Rightarrow> safemode \<Rightarrow> fbst \<Rightarrow> (safemode \<times> fbst) res" where
  "sm_render t mx my st s =
     (if \<not> fb_ready s then Inr (st, s)
      else let sw = fb_width (fb_info s); sh = fb_height (fb_info s);
               st1 = st\<lparr>sm_buttons := sm_layout_buttons sw sh (sm_buttons st)\<rparr>
           in bindR (gfx_runs t (screen_ops t sw sh mx my st1) s) (\<lambda>s1.
              bindR (fb_swap_buffers s1) (\<lambda>s2. Inr (st1, s2))))"

section \<open>The loop\<close>

definition safemode_is_active :: "safemode \<Rightarrow> bool" where "safemode_is_active st = sm_active st"

text \<open>\<open>safemode_enter\<close> up to its loop.\<close>

definition safemode_enter :: "string option \<Rightarrow> u64 \<Rightarrow> fbst \<Rightarrow> vfs \<Rightarrow> safemode \<Rightarrow> safemode res" where
  "safemode_enter reason ticks s v st =
     (let r = (case reason of Some cs \<Rightarrow> if cs \<noteq> [] then sm_str_copy cs 128 else sm_str_copy ''unknown'' 128
                            | None \<Rightarrow> sm_str_copy ''unknown'' 128)
      in sm_collect_diagnostics ticks s v (st\<lparr>sm_active := True, sm_reason := r, sm_lines := []\<rparr>))"

datatype 's sm_flow = Sm_runs 's | Sm_halts sm_action io

text \<open>A turn of the loop; the flag is \<open>prev_button_down\<close>.\<close>

definition safemode_turn :: "text_state \<Rightarrow> mouse \<Rightarrow> io \<Rightarrow> safemode \<times> bool \<times> fbst \<Rightarrow> (safemode \<times> bool \<times> fbst) sm_flow res" where
  "safemode_turn t m i = (\<lambda>(st, prev, s).
     let m1 = mouse_poll m; mx = mouse_get_x m1; my = mouse_get_y m1; down = mouse_get_button 0 m1;
         hit = (if down \<and> \<not> prev
                then find (\<lambda>b. sm_point_in_rect mx my (sb_x b) (sb_y b) (sb_w b) (sb_h b)) (sm_buttons st) else None)
     in case hit of
          Some b \<Rightarrow> Inr (Sm_halts (sb_action b) (sm_run_action (sb_action b) i))
        | None \<Rightarrow> bindR (sm_render t mx my st s) (\<lambda>(st1, s1). Inr (Sm_runs (st1, down, s1))))"

section \<open>Buffers\<close>

lemma digits_length: "n < 10 ^ k \<Longrightarrow> length (tmp_digits n) \<le> k"
proof (induction k arbitrary: n)
  case (Suc k)
  then show ?case by (cases "n = 0") (simp_all add: tmp_digits_pos)
qed simp

text \<open>Numbers fit the buffers of 24 bytes, and 32-bit numbers those of 12 bytes, with their terminator.\<close>

lemma sm_numbers_fit: "length (sm_uint_to_str v) < 24" "length (sm_uint_to_str (ucast (x :: u32))) < 12"
proof -
  have "unat v < 10 ^ 20" using unat_u64_less [of v] by simp
  from digits_length [OF this] show "length (sm_uint_to_str v) < 24" by (auto simp: sm_uint_to_str_def)
  have "unat (ucast x :: u64) = unat x" using unat_u32_less [of x] by (simp add: unsigned_ucast_eq take_bit_nat_eq_self_iff)
  then have "unat (ucast x :: u64) < 10 ^ 10" using unat_u32_less [of x] by simp
  from digits_length [OF this] show "length (sm_uint_to_str (ucast x)) < 12" by (auto simp: sm_uint_to_str_def)
qed

definition sm_ok :: "safemode \<Rightarrow> bool" where
  "sm_ok st \<longleftrightarrow> length (sm_lines st) \<le> SM_MAX_LINES \<and> (\<forall>l \<in> set (sm_lines st). length (fst l) < SM_LINE_LEN) \<and>
     length (sm_reason st) < 128 \<and>
     map (\<lambda>b. (sb_label b, sb_w b, sb_h b, sb_action b)) (sm_buttons st) =
     map (\<lambda>b. (sb_label b, sb_w b, sb_h b, sb_action b)) sm_buttons_boot"

lemma sm_print_ok: "sm_ok st \<Longrightarrow> sm_ok (sm_print msg color st)"
  by (auto simp: sm_ok_def sm_print_def sm_str_copy_def sm_sizes)

lemma list_files_ok:
  assumes "nodes_wf v" "\<And>c. start = Some c \<Longrightarrow> c < k" "k \<le> length (vnodes v)" "sm_ok st"
  shows "\<exists>st'. list_files k start v st = Inr st' \<and> sm_ok st' \<and> sm_active st' = sm_active st"
  using assms(2-)
proof (induction k arbitrary: start st)
  case 0
  then show ?case by (cases start) auto
next
  case (Suc k)
  show ?case
  proof (cases start)
    case (Some c)
    then have c: "c \<le> k" "c < length (vnodes v)" using Suc.prems by auto
    let ?nd = "vnodes v ! c"
    have "\<exists>st'. list_files k (vn_next_sibling ?nd) v (sm_print (file_line ?nd) SM_TEXT_FG st) = Inr st' \<and> sm_ok st' \<and>
        sm_active st' = sm_active (sm_print (file_line ?nd) SM_TEXT_FG st)"
    proof (rule Suc.IH)
      show "c' < k" if "vn_next_sibling ?nd = Some c'" for c'
        using next_sibling_less [OF assms(1) c(2) that] c(1) by simp
    qed (use Suc.prems sm_print_ok in simp_all)
    then show ?thesis using Some c(2) by (auto simp: sm_print_def split: if_splits)
  qed (use Suc.prems in simp)
qed

lemma sm_print_active [simp]: "sm_active (sm_print msg color st) = sm_active st" "sm_reason (sm_print msg color st) = sm_reason st"
  by (simp_all add: sm_print_def)

lemma collect_ok:
  assumes "nodes_wf v" "sm_ok st"
  shows "\<exists>st'. sm_collect_diagnostics ticks s v st = Inr st' \<and> sm_ok st' \<and> sm_active st' = sm_active st"
proof (cases "vfs_root v")
  case None
  then show ?thesis using assms(2) by (auto simp: sm_collect_diagnostics_def Let_def split_def intro!: sm_print_ok)
next
  case (Some root)
  then have r: "root < length (vnodes v)" using assms(1) by (simp add: nodes_wf_def vfs_root_def)
  let ?nd = "vnodes v ! root"
  have "\<exists>st'. list_files (length (vnodes v)) (vn_children ?nd) v st1 = Inr st' \<and> sm_ok st' \<and> sm_active st' = sm_active st1" if "sm_ok st1" for st1
    by (rule list_files_ok [OF assms(1) _ order_refl that]) (rule children_less [OF assms(1) r])
  then show ?thesis using assms(2) Some r
    by (simp add: sm_collect_diagnostics_def Let_def split_def) (metis sm_print_ok sm_print_active(1))
qed

lemma enter_ok:
  assumes "vfs_wf v" "sm_buttons st = sm_buttons_boot"
  shows "\<exists>st'. safemode_enter reason ticks s v st = Inr st' \<and> sm_ok st' \<and> sm_active st'"
proof -
  have "sm_ok (st\<lparr>sm_active := True, sm_reason := r, sm_lines := []\<rparr>)" if "length r < 128" for r
    using that assms(2) by (simp add: sm_ok_def)
  from collect_ok [OF _ this] assms(1)
  have "\<exists>st'. sm_collect_diagnostics ticks s v (st\<lparr>sm_active := True, sm_reason := r, sm_lines := []\<rparr>) = Inr st' \<and> sm_ok st' \<and> sm_active st'"
    if "length r < 128" for r using that by (fastforce simp: vfs_wf_def)
  moreover have "length (sm_str_copy cs 128) < 128" for cs by (simp add: sm_str_copy_def)
  ultimately show ?thesis by (simp add: safemode_enter_def Let_def split: option.split)
qed

text \<open>
  C37. Entering safe mode always gets as far as its loop, for every reason, screen and well-formed
  file system: at most 64 lines are logged, however many files there are, every line and the
  reason fit their buffers with the terminator, long names and reasons being cut.
\<close>

theorem safemode_log_fits:
  assumes "vfs_wf v" "sm_buttons st = sm_buttons_boot"
  shows "\<exists>st'. safemode_enter reason ticks s v st = Inr st' \<and> safemode_is_active st' \<and> length (sm_lines st') \<le> SM_MAX_LINES \<and>
    (\<forall>l \<in> set (sm_lines st'). length (fst l) < SM_LINE_LEN) \<and> length (sm_reason st') < 128"
  using enter_ok [OF assms, of reason ticks s] by (auto simp: sm_ok_def safemode_is_active_def)

section \<open>The screen\<close>

lemma layout_keeps: "length (sm_layout_buttons sw sh bs) = length bs"
  "map (\<lambda>b. (sb_label b, sb_w b, sb_h b, sb_action b)) (sm_layout_buttons sw sh bs) = map (\<lambda>b. (sb_label b, sb_w b, sb_h b, sb_action b)) bs"
  by (simp_all add: sm_layout_buttons_def Let_def list_eq_iff_nth_eq nth_enumerate_eq)

lemma rect_text_ok: "op_ok (Draw_rect x y w h c) \<longleftrightarrow> w < 2 ^ 31 \<and> h < 2 ^ 31" "op_ok (Draw_text x y str fg bg)"
  by (simp_all add: op_ok_def)

lemma log_ops_ok: "op \<in> set (log_ops sh i ls) \<Longrightarrow> op_ok op"
  by (induction sh i ls rule: log_ops.induct) (auto simp: Let_def op_ok_def split: if_splits)

lemma button_ops_ok: "sb_w b = SM_BTN_W \<Longrightarrow> sb_h b = SM_BTN_H \<Longrightarrow> op \<in> set (button_ops t mx my b) \<Longrightarrow> op_ok op"
  by (auto simp: button_ops_def Let_def op_ok_def sm_sizes)

lemma boot_sizes:
  assumes "sm_ok st" "b \<in> set (sm_buttons st)"
  shows "sb_w b = SM_BTN_W \<and> sb_h b = SM_BTN_H"
proof -
  have "(sb_label b, sb_w b, sb_h b, sb_action b) \<in> set (map (\<lambda>b. (sb_label b, sb_w b, sb_h b, sb_action b)) (sm_buttons st))"
    using assms(2) by auto
  also have "\<dots> = set (map (\<lambda>b. (sb_label b, sb_w b, sb_h b, sb_action b)) sm_buttons_boot)" using assms(1) by (simp only: sm_ok_def)
  finally show ?thesis by (auto simp: sm_buttons_boot_def)
qed

lemma sm_render_runs:
  assumes "fb_ok f s" "fb_width f \<noteq> 0" "fb_height f \<noteq> 0" "length (screen s) = unat (fb_height f) * unat (fb_pitch f)" "sm_ok st"
  shows "\<exists>s'. sm_render (text_init t) mx my st s =
      Inr (st\<lparr>sm_buttons := sm_layout_buttons (fb_width f) (fb_height f) (sm_buttons st)\<rparr>, s') \<and> fb_ok f s' \<and>
    length (screen s') = length (screen s) \<and> screen s' = surface s' \<and>
    sm_ok (st\<lparr>sm_buttons := sm_layout_buttons (fb_width f) (fb_height f) (sm_buttons st)\<rparr>)"
proof -
  let ?st = "st\<lparr>sm_buttons := sm_layout_buttons (fb_width f) (fb_height f) (sm_buttons st)\<rparr>"
  have fb: "fb_info s = f" "fb_fits f" "fb_ready s" using assms(1) by (simp_all add: fb_ok_def fb_info_def fb_ready_def fb_fits_def)
  have ok: "sm_ok ?st" using assms(5) by (simp add: sm_ok_def layout_keeps)
  have dims: "fb_width f < 2 ^ 31" "fb_height f < 2 ^ 31"
    using fb_fits_width [OF fb(2) assms(3)] fb_fits_height [OF fb(2) assms(2)] by (simp_all add: word_less_nat_alt)
  have buttons: "op_ok op" if "b \<in> set (sm_buttons ?st)" "op \<in> set (button_ops (text_init t) mx my b)" for b op
    using button_ops_ok boot_sizes [OF ok that(1)] that(2) by blast
  have "\<forall>op \<in> set (screen_ops (text_init t) (fb_width f) (fb_height f) mx my ?st). op_ok op"
    using dims log_ops_ok buttons by (auto simp: screen_ops_def rect_text_ok sm_sizes)
  from gfx_runs_total [OF assms(1) this] obtain s1 where
    s1: "gfx_runs (text_init t) (screen_ops (text_init t) (fb_width f) (fb_height f) mx my ?st) s = Inr s1" "fb_ok f s1" by blast
  have n1: "length (screen s1) = length (screen s)" by (rule keepsD [OF keeps_runs s1(1)])
  obtain s2 where s2: "fb_swap_buffers s1 = Inr s2" "fb_ok f s2" "screen s2 = surface s2"
    using swap_runs [OF s1(2)] n1 assms(4) by auto
  have "length (screen s2) = unat (fb_height f) * unat (fb_pitch f)" using s2(2,3) by (simp add: fb_ok_def)
  then show ?thesis using s1 s2 fb ok assms(4) by (simp add: sm_render_def)
qed

fun sm_turns :: "text_state \<Rightarrow> io \<Rightarrow> mouse list \<Rightarrow> safemode \<times> bool \<times> fbst \<Rightarrow> (safemode \<times> bool \<times> fbst) sm_flow res" where
  "sm_turns t i [] x = Inr (Sm_runs x)"
| "sm_turns t i (m # ms) x =
     bindR (safemode_turn t m i x) (\<lambda>r. case r of Sm_runs y \<Rightarrow> sm_turns t i ms y | Sm_halts a j \<Rightarrow> Inr (Sm_halts a j))"

lemma turn_ok:
  assumes "fb_ok f s" "fb_width f \<noteq> 0" "fb_height f \<noteq> 0" "length (screen s) = unat (fb_height f) * unat (fb_pitch f)" "sm_ok st"
  shows "(\<exists>st' s'. safemode_turn (text_init t) m i (st, prev, s) = Inr (Sm_runs (st', mouse_get_button 0 m, s')) \<and> fb_ok f s' \<and>
      length (screen s') = length (screen s) \<and> sm_ok st') \<or>
    (\<exists>a. safemode_turn (text_init t) m i (st, prev, s) = Inr (Sm_halts a (sm_run_action a i)) \<and> mouse_get_button 0 m \<and> \<not> prev)"
proof -
  obtain st' s' where r: "sm_render (text_init t) (mouse_get_x m) (mouse_get_y m) st s = Inr (st', s')" "fb_ok f s'"
    "length (screen s') = length (screen s)" "sm_ok st'" using sm_render_runs [OF assms] by blast
  then show ?thesis by (auto simp: safemode_turn_def Let_def mouse_poll_def split: option.splits)
qed

text \<open>
  C22. Safe mode never faults: from entering it on, whatever the mouse does, every turn of the loop
  draws the screen, until the button is pressed (not merely held) on one of the buttons, whose
  action then ends it.
\<close>

theorem safemode_never_faults:
  assumes "vfs_wf v" "safemode_enter reason ticks s v safemode_boot = Inr st"
    and "fb_ok f s" "fb_width f \<noteq> 0" "fb_height f \<noteq> 0" "length (screen s) = unat (fb_height f) * unat (fb_pitch f)"
  shows "(\<exists>st' b s'. sm_turns (text_init t) i ms (st, False, s) = Inr (Sm_runs (st', b, s')) \<and> fb_ok f s' \<and> length (sm_lines st') \<le> SM_MAX_LINES) \<or>
    (\<exists>a k. sm_turns (text_init t) i ms (st, False, s) = Inr (Sm_halts a (sm_run_action a i)) \<and> k < length ms \<and>
       mouse_get_button 0 (ms ! k) \<and> (k = 0 \<or> \<not> mouse_get_button 0 (ms ! (k - 1))))"
proof -
  have ok: "sm_ok st" using enter_ok [OF assms(1), of safemode_boot reason ticks s] assms(2) by (simp add: safemode_boot_def)
  have "(\<exists>st' b s'. sm_turns (text_init t) i ms (st, prev, s) = Inr (Sm_runs (st', b, s')) \<and> fb_ok f s' \<and> sm_ok st') \<or>
    (\<exists>a k. sm_turns (text_init t) i ms (st, prev, s) = Inr (Sm_halts a (sm_run_action a i)) \<and> k < length ms \<and>
       mouse_get_button 0 (ms ! k) \<and> \<not> (prev # map (mouse_get_button 0) ms) ! k)"
    if "fb_ok f s" "length (screen s) = unat (fb_height f) * unat (fb_pitch f)" "sm_ok st" for st prev s
    using that
  proof (induction ms arbitrary: st prev s)
    case (Cons m ms)
    from turn_ok [OF Cons.prems(1) assms(4,5) Cons.prems(2,3), where t = t and m = m and i = i and prev = prev]
    show ?case
    proof (elim disjE exE conjE)
      fix st' s' assume r: "safemode_turn (text_init t) m i (st, prev, s) = Inr (Sm_runs (st', mouse_get_button 0 m, s'))" "fb_ok f s'"
        "length (screen s') = length (screen s)" "sm_ok st'"
      from Cons.IH [OF r(2) trans [OF r(3) Cons.prems(2)] r(4), of "mouse_get_button 0 m"] show ?thesis
      proof (elim disjE exE conjE)
        fix a k assume h: "sm_turns (text_init t) i ms (st', mouse_get_button 0 m, s') = Inr (Sm_halts a (sm_run_action a i))" "k < length ms"
          "mouse_get_button 0 (ms ! k)" "\<not> (mouse_get_button 0 m # map (mouse_get_button 0) ms) ! k"
        show ?thesis by (intro disjI2 exI [of _ a] exI [of _ "Suc k"]) (use r(1) h in simp)
      qed (use r(1) in auto)
    next
      fix a assume "safemode_turn (text_init t) m i (st, prev, s) = Inr (Sm_halts a (sm_run_action a i))" "mouse_get_button 0 m" "\<not> prev"
      then show ?thesis by (intro disjI2 exI [of _ a] exI [of _ 0]) simp
    qed
  qed simp
  from this [OF assms(3,6) ok, of False] show ?thesis
  proof (elim disjE exE conjE)
    fix a k assume h: "sm_turns (text_init t) i ms (st, False, s) = Inr (Sm_halts a (sm_run_action a i))" "k < length ms"
      "mouse_get_button 0 (ms ! k)" "\<not> (False # map (mouse_get_button 0) ms) ! k"
    then have "k = 0 \<or> \<not> mouse_get_button 0 (ms ! (k - 1))" by (cases k) simp_all
    then show ?thesis using h by blast
  qed (auto simp: sm_ok_def)
qed

section \<open>Layout and clicks\<close>

lemma small_sum:
  fixes a :: u32
  assumes "unat a + unat b < 2 ^ 31"
  shows "unat (a + b) = unat a + unat b"
  using assms by (simp add: unat_word_ariths)

text \<open>Where the buttons are on a screen wide and high enough for them.\<close>

definition button_left :: "nat \<Rightarrow> nat \<Rightarrow> nat" where "button_left sw k = (sw - 464) div 2 + k * 244"
definition button_top :: "nat \<Rightarrow> nat" where "button_top sh = sh - 96"

lemma layout_positions:
  assumes "464 < unat sw" "unat sw < 2 ^ 30" "96 \<le> unat sh" "unat sh < 2 ^ 30" "bs = sm_layout_buttons sw sh sm_buttons_boot"
  shows "length bs = 2" "k < 2 \<Longrightarrow> unat (sb_x (bs ! k)) = button_left (unat sw) k" "k < 2 \<Longrightarrow> unat (sb_y (bs ! k)) = button_top (unat sh)"
    "k < 2 \<Longrightarrow> sb_w (bs ! k) = 220 \<and> sb_h (bs ! k) = 48 \<and> sb_action (bs ! k) = [Restart, Shutdown] ! k"
proof -
  have w: "464 < sw" "96 \<le> sh" using assms by (simp_all add: word_less_nat_alt word_le_nat_alt)
  then have u: "unat ((sw - 464) div 2) = (unat sw - 464) div 2" "unat (sh - 96) = unat sh - 96" by (simp_all add: unat_div unat_sub)
  have bs: "bs = [(sm_buttons_boot ! 0)\<lparr>sb_x := (sw - 464) div 2, sb_y := sh - 96\<rparr>, (sm_buttons_boot ! 1)\<lparr>sb_x := (sw - 464) div 2 + 244, sb_y := sh - 96\<rparr>]"
    using w(1) by (simp add: assms(5) sm_layout_buttons_def Let_def sm_buttons_boot_def sm_sizes)
  have "unat ((sw - 464) div 2 + 244) = (unat sw - 464) div 2 + 244"
    using u(1) assms(2) by (subst small_sum) simp_all
  then show "length bs = 2" "k < 2 \<Longrightarrow> unat (sb_x (bs ! k)) = button_left (unat sw) k" "k < 2 \<Longrightarrow> unat (sb_y (bs ! k)) = button_top (unat sh)"
    "k < 2 \<Longrightarrow> sb_w (bs ! k) = 220 \<and> sb_h (bs ! k) = 48 \<and> sb_action (bs ! k) = [Restart, Shutdown] ! k"
    using u by (auto simp: bs button_left_def button_top_def sm_buttons_boot_def sm_sizes less_2_cases_iff)
qed

lemma point_in_small_rect:
  assumes "unat x + unat w < 2 ^ 31" "unat y + unat h < 2 ^ 31" "unat px < 2 ^ 31" "unat py < 2 ^ 31"
  shows "sm_point_in_rect px py x y w h \<longleftrightarrow>
    unat x \<le> unat px \<and> unat px < unat x + unat w \<and> unat y \<le> unat py \<and> unat py < unat y + unat h"
proof -
  have s: "sint (a :: u32) = int (unat a)" if "unat a < 2 ^ 31" for a
  proof -
    have "int (unat a) < int (2 ^ 31)" using that by (simp only: of_nat_less_iff)
    then have "uint a < 2 ^ 31" by simp
    moreover have "- (2 ^ 31) \<le> uint a" by (rule order_trans [of _ 0]) simp_all
    ultimately show ?thesis using sint_bounded [of "uint a"] by simp
  qed
  note u = small_sum [OF assms(1)] small_sum [OF assms(2)]
  have "unat x < 2 ^ 31" "unat y < 2 ^ 31" "unat (x + w) < 2 ^ 31" "unat (y + h) < 2 ^ 31" using assms(1,2) u by simp_all
  from this [THEN s] assms(3,4) [THEN s] show ?thesis unfolding sm_point_in_rect_def by (simp only: u of_nat_le_iff of_nat_less_iff)
qed

text \<open>
  Once the screen has been drawn, pressing the mouse button on one of the two buttons performs
  its action, and pressing it beside them, or holding it down, performs none.
\<close>

theorem click_hits_button:
  assumes "464 < unat (fb_width f)" "unat (fb_width f) < 2 ^ 30" "96 \<le> unat (fb_height f)" "unat (fb_height f) < 2 ^ 30"
    and "sm_buttons st = sm_layout_buttons (fb_width f) (fb_height f) sm_buttons_boot"
    and "unat (mouse_get_x m) < 2 ^ 31" "unat (mouse_get_y m) < 2 ^ 31"
    and "inside = (\<lambda>k. button_left (unat (fb_width f)) k \<le> unat (mouse_get_x m) \<and> unat (mouse_get_x m) < button_left (unat (fb_width f)) k + 220 \<and>
      button_top (unat (fb_height f)) \<le> unat (mouse_get_y m) \<and> unat (mouse_get_y m) < button_top (unat (fb_height f)) + 48)"
  shows "safemode_turn t m i (st, prev, s) =
    (if mouse_get_button 0 m \<and> \<not> prev \<and> inside 0 then Inr (Sm_halts Restart i)
     else if mouse_get_button 0 m \<and> \<not> prev \<and> inside 1 then Inr (Sm_halts Shutdown (sm_action_shutdown i))
     else bindR (sm_render t (mouse_get_x m) (mouse_get_y m) st s) (\<lambda>(st1, s1). Inr (Sm_runs (st1, mouse_get_button 0 m, s1))))"
proof -
  let ?bs = "sm_buttons st"
  note l = layout_positions [OF assms(1-5)]
  have hit: "sm_point_in_rect (mouse_get_x m) (mouse_get_y m) (sb_x (?bs ! k)) (sb_y (?bs ! k)) (sb_w (?bs ! k)) (sb_h (?bs ! k)) \<longleftrightarrow> inside k"
    if "k < 2" for k
  proof -
    have "button_left (unat (fb_width f)) k + 220 < 2 ^ 31" "button_top (unat (fb_height f)) + 48 < 2 ^ 31"
      using that assms(2,4) by (auto simp: button_left_def button_top_def less_2_cases_iff)
    then show ?thesis using l(2-4) [OF that] assms(6-8) by (subst point_in_small_rect) simp_all
  qed
  have bs: "?bs = [?bs ! 0, ?bs ! 1]" using l(1) by (cases ?bs; cases "tl ?bs") auto
  have "find (\<lambda>b. sm_point_in_rect (mouse_get_x m) (mouse_get_y m) (sb_x b) (sb_y b) (sb_w b) (sb_h b)) ?bs =
      (if inside 0 then Some (?bs ! 0) else if inside 1 then Some (?bs ! 1) else None)"
    by (subst bs) (use hit [of 0] hit [of 1] in simp)
  moreover have "sb_action (?bs ! 0) = Restart" "sb_action (?bs ! 1) = Shutdown" using l(4) [of 0] l(4) [of 1] by simp_all
  ultimately show ?thesis by (simp add: safemode_turn_def Let_def mouse_poll_def sm_action_restart_def)
qed

lemma sm_print_buttons [simp]: "sm_buttons (sm_print msg color st) = sm_buttons st"
  by (simp add: sm_print_def)

lemma list_files_buttons: "list_files k c v st = Inr st' \<Longrightarrow> sm_buttons st' = sm_buttons st"
  by (induction k c v st rule: list_files.induct) auto

lemma enter_buttons: "safemode_enter reason ticks s v st = Inr st' \<Longrightarrow> sm_buttons st' = sm_buttons st"
  by (auto simp: safemode_enter_def sm_collect_diagnostics_def Let_def split_def dest!: list_files_buttons split: option.splits if_splits)

text \<open>
  Before the first drawing both buttons lie in the upper left corner of the screen: when safe
  mode is entered with the mouse button down and the pointer there, it restarts the machine at
  once, without having shown anything.
\<close>

theorem first_press_restarts:
  assumes "safemode_enter reason ticks s v safemode_boot = Inr st" "vfs_wf v"
    and "mouse_get_button 0 m" "unat (mouse_get_x m) < 220" "unat (mouse_get_y m) < 48"
  shows "safemode_turn t m i (st, False, s) = Inr (Sm_halts Restart i)"
proof -
  have "sm_point_in_rect (mouse_get_x m) (mouse_get_y m) 0 0 SM_BTN_W SM_BTN_H"
    using assms(4,5) by (subst point_in_small_rect) (simp_all add: sm_sizes)
  moreover have "sm_buttons st = sm_buttons_boot"
    using enter_buttons [OF assms(1)] by (simp add: safemode_boot_def)
  ultimately show ?thesis using assms(3) by (simp add: safemode_turn_def Let_def mouse_poll_def sm_buttons_boot_def sm_action_restart_def)
qed

lemma log_above:
  assumes "112 \<le> unat sh" "Draw_text x y str fg bg \<in> set (log_ops sh i ls)" "unat i + length ls \<le> 64"
  shows "unat y + 16 \<le> unat sh - 112"
  using assms(2,3)
proof (induction ls arbitrary: i)
  case (Cons l ls)
  obtain line color where l: "l = (line, color)" by (cases l)
  let ?y = "SM_HEADER_H + 12 + i * SM_FONT_H"
  have i: "unat i \<le> 63" using Cons.prems(2) by simp
  then have "unat (i * 16) = unat i * 16" by (simp add: unat_word_ariths)
  then have y: "unat ?y = 60 + unat i * 16" "unat (?y + SM_FONT_H) = 76 + unat i * 16" using i by (simp_all add: sm_sizes unat_word_ariths)
  have sh: "unat (sh - 112) = unat sh - 112" using assms(1) by (simp add: unat_sub word_le_nat_alt)
  have sub: "sh - SM_STATUS_H - SM_BTN_H - 40 = sh - 112" by (simp add: sm_sizes)
  have no: "\<not> ?y + SM_FONT_H > sh - SM_STATUS_H - SM_BTN_H - 40" "Draw_text x y str fg bg \<in> insert (Draw_text 8 ?y line color SM_BG) (set (log_ops sh (i + 1) ls))"
    using Cons.prems(1) by (auto simp: l Let_def split: if_splits)
  have le: "76 + unat i * 16 \<le> unat sh - 112" using no(1) [unfolded sub] y(2) sh by (simp add: word_less_nat_alt)
  from no(2) show ?case
  proof (elim insertE)
    assume "Draw_text x y str fg bg = Draw_text 8 ?y line color SM_BG"
    then show ?thesis using y(1) le by simp
  next
    assume "Draw_text x y str fg bg \<in> set (log_ops sh (i + 1) ls)"
    moreover have "unat (i + 1) = unat i + 1" using i by (simp add: unat_word_ariths)
    ultimately show ?thesis using Cons.IH [of "i + 1"] Cons.prems(2) by simp
  qed
qed simp

text \<open>
  On a screen of at least 600 pixels in height the log ends above the buttons, the buttons lie
  side by side above the status bar, and all of it is on the screen.
\<close>

theorem safemode_layout:
  assumes "464 < unat sw" "unat sw < 2 ^ 30" "600 \<le> unat sh" "unat sh < 2 ^ 30" "bs = sm_layout_buttons sw sh sm_buttons_boot"
    and "length ls \<le> SM_MAX_LINES"
  shows "(\<forall>x y str fg bg. Draw_text x y str fg bg \<in> set (log_ops sh 0 ls) \<longrightarrow> unat y + 16 \<le> unat (sb_y (bs ! 0))) \<and>
    unat (sb_x (bs ! 0)) + 220 < unat (sb_x (bs ! 1)) \<and> unat (sb_x (bs ! 1)) + 220 \<le> unat sw \<and>
    sb_y (bs ! 1) = sb_y (bs ! 0) \<and> unat (sb_y (bs ! 0)) + 48 \<le> unat sh - 24"
proof -
  have "96 \<le> unat sh" using assms(3) by simp
  note l = layout_positions [OF assms(1,2) this assms(4,5)]
  have b: "unat (sb_x (bs ! 0)) = button_left (unat sw) 0" "unat (sb_x (bs ! 1)) = button_left (unat sw) 1"
    "unat (sb_y (bs ! 0)) = button_top (unat sh)" "unat (sb_y (bs ! 1)) = button_top (unat sh)"
    using l(2) [of 0] l(2) [of 1] l(3) [of 0] l(3) [of 1] by simp_all
  show ?thesis
  proof (intro conjI allI impI)
    fix x y str fg bg assume "Draw_text x y str fg bg \<in> set (log_ops sh 0 ls)"
    from log_above [OF _ this] assms(3,6) show "unat y + 16 \<le> unat (sb_y (bs ! 0))" by (simp add: b button_top_def sm_sizes)
  next
    show "sb_y (bs ! 1) = sb_y (bs ! 0)" using b(3,4) by (metis word_unat_eq_iff)
  qed (use b assms(1,3) in \<open>simp_all add: button_left_def button_top_def\<close>)
qed

section \<open>A session\<close>

definition demo_screen :: fbst where
  "demo_screen = \<lparr>fb = \<lparr>fb_addr = 0xE0000000, fb_pitch = 3200, fb_width = 800, fb_height = 600, fb_bpp = 32\<rparr>, back_buffer = None,
     use_double_buffer = False, screen = replicate 1920000 0, fb_heap = (\<lambda>_. 0), fb_allocs = []\<rparr>"

lemma demo_screen_ok:
  "fb_ok (fb demo_screen) demo_screen" "fb_width (fb demo_screen) = 800" "fb_height (fb demo_screen) = 600"
  "length (screen demo_screen) = unat (fb_height (fb demo_screen)) * unat (fb_pitch (fb demo_screen))"
  by (simp_all add: fb_ok_def fb_fits_def demo_screen_def surface_def)

definition demo_mouse :: "u32 \<Rightarrow> u32 \<Rightarrow> u8 \<Rightarrow> mouse" where
  "demo_mouse x y b = \<lparr>mouse_x = x, mouse_y = y, mouse_buttons = b, mouse_moved = False, mouse_cycle = 0, mouse_packet = [0, 0, 0]\<rparr>"

lemma demo_button [simp]: "mouse_get_button 0 (demo_mouse x y 1)" "mouse_get_x (demo_mouse x y b) = x" "mouse_get_y (demo_mouse x y b) = y"
  by (simp_all add: mouse_get_button_def demo_mouse_def mouse_get_x_def mouse_get_y_def)

definition quiet_io :: io where "quiet_io = \<lparr>io_trace = [], io_dev = (\<lambda>_ _. 0)\<rparr>"

theorem safemode_log_fits_witness:
  "\<exists>st'. safemode_enter (Some ''kernel panic'') 250 demo_screen ramfs_booted safemode_boot = Inr st' \<and> length (sm_lines st') \<le> SM_MAX_LINES"
  using safemode_log_fits [OF ramfs_booted_wf, of safemode_boot "Some ''kernel panic''" 250 demo_screen] by (auto simp: safemode_boot_def)

theorem safemode_never_faults_witness:
  "\<exists>st r. safemode_enter None 0 demo_screen ramfs_booted safemode_boot = Inr st \<and>
    sm_turns (text_init text_boot) quiet_io [demo_mouse 9 9 1, demo_mouse 300 7 0] (st, False, demo_screen) = Inr r"
proof -
  obtain st where st: "safemode_enter None 0 demo_screen ramfs_booted safemode_boot = Inr st"
    using enter_ok [OF ramfs_booted_wf, of safemode_boot None 0 demo_screen] by (auto simp: safemode_boot_def)
  have "fb_width (fb demo_screen) \<noteq> 0" "fb_height (fb demo_screen) \<noteq> 0" by (simp_all add: demo_screen_ok)
  from safemode_never_faults [OF ramfs_booted_wf st demo_screen_ok(1) this demo_screen_ok(4)] st show ?thesis by blast
qed

theorem click_hits_button_witness:
  "safemode_turn (text_init text_boot) (demo_mouse 500 520 1) quiet_io
     (safemode_boot\<lparr>sm_buttons := sm_layout_buttons 800 600 sm_buttons_boot\<rparr>, False, demo_screen) = Inr (Sm_halts Shutdown (sm_action_shutdown quiet_io))"
  using click_hits_button [of "fb demo_screen" "safemode_boot\<lparr>sm_buttons := sm_layout_buttons 800 600 sm_buttons_boot\<rparr>" "demo_mouse 500 520 1"
    "\<lambda>k. button_left 800 k \<le> 500 \<and> 500 < button_left 800 k + 220 \<and> button_top 600 \<le> 520 \<and> 520 < button_top 600 + 48"
    "text_init text_boot" quiet_io False demo_screen]
  by (simp add: demo_screen_ok button_left_def button_top_def)

theorem first_press_restarts_witness:
  "\<exists>st. safemode_enter None 0 demo_screen ramfs_booted safemode_boot = Inr st \<and>
    safemode_turn (text_init text_boot) (demo_mouse 9 9 1) quiet_io (st, False, demo_screen) = Inr (Sm_halts Restart quiet_io)"
proof -
  obtain st where st: "safemode_enter None 0 demo_screen ramfs_booted safemode_boot = Inr st"
    using enter_ok [OF ramfs_booted_wf, of safemode_boot None 0 demo_screen] by (auto simp: safemode_boot_def)
  from first_press_restarts [OF this ramfs_booted_wf, of "demo_mouse 9 9 1"] st show ?thesis by simp
qed

theorem safemode_layout_witness:
  "unat (sb_x (sm_layout_buttons 800 600 sm_buttons_boot ! 0)) + 220 < unat (sb_x (sm_layout_buttons 800 600 sm_buttons_boot ! 1))"
  using safemode_layout [of 800 600 "sm_layout_buttons 800 600 sm_buttons_boot" "[(''x'', 0)]"] by (simp add: sm_sizes)

end
