(* ===== verification/Spec2Isabelle.thy ===== *)
theory Spec2Isabelle
  imports Mira_Keyboard Mira_Input Mira_Pmm Mira_Paging Mira_Loader Mira_Heap Mira_Lib Mira_Ds Mira_Process Mira_Vfs Mira_Widget Mira_Draw Mira_Dev Mira_Irq Mira_Syscall Mira_Desktop Mira_Safemode
begin

text \<open>
  Verification of MiraOS, a small x86-64 kernel with a graphical shell, written in C.

  \<^bold>\<open>The program.\<close> The kernel boots from Multiboot (\<open>kernel/main.c\<close>), sets up a physical page
  allocator (\<open>kernel/mem.c\<close>), page tables (\<open>arch/x86_64/paging.c\<close>), a heap (\<open>kernel/heap.c\<close>) that
  takes its memory from both, descriptor tables and interrupt gates (\<open>arch/x86_64\<close>), processes with
  a round-robin scheduler (\<open>kernel/process.c\<close>), drivers (\<open>drivers\<close>), a file system in memory
  (\<open>fs/vfs.c\<close>, \<open>fs/backend/ramfs.c\<close>) and a desktop (\<open>ui/ui.c\<close>) with a command shell (\<open>ui/shell.c\<close>).
  Interrupts run the handlers of all drivers, of which the keyboard's fills a ring buffer and the
  mouse's assembles packets; the desktop's tick drains the keys into a line buffer (\<open>ui/input.c\<close>), a
  finished line is tokenized, parsed and executed by the shell, and rendering draws the desktop
  into the framebuffer (\<open>drivers/framebuffer.c\<close>). Programs are loaded by \<open>kernel/elf.c\<close> and
  \<open>kernel/bin\<close> and use the system calls of \<open>kernel/syscall.c\<close>.

  \<^bold>\<open>Conventions.\<close> Every C function of a modelled file is one definition of the same name. A struct
  or the static variables of a file are a record; C integers are words of their width and wrap;
  a C \<open>char\<close> of a string is a HOL character and strings are lists without the terminator, except
  in \<open>Mira_Lib\<close>, \<open>Mira_Loader\<close> and \<open>Mira_Syscall\<close>, which work on byte memory. A fault of the machine
  (null or wild pointer, access out of bounds, panic, endless loop) is a value \<open>Inl\<close> of the result
  type of \<open>Mira_Prelude\<close>, so every theorem that says \<open>= Inr\<close> also says that no fault happens. A
  device is a function of the port accesses made so far; what \<open>inb\<close> returns is its answer, and
  the accesses are recorded. Linked structures are maps from addresses, or numbered cells, to
  records. Allocation by code above the heap is a list of outcomes: an empty list means that every
  allocation succeeds, and theorems without that hypothesis hold whichever allocations fail. A
  handler that switches to another process leaves, as a value \<open>Leaves\<close>, instead of returning.

  \<^bold>\<open>Theories.\<close>

  \<^item> \<open>Mira_Prelude\<close>: words, results and faults, loops, byte memory, allocation outcomes, the
    collections \<open>kernel_inv\<close>, \<open>kernel_frame\<close> and \<open>kernel_abs\<close>.
  \<^item> \<open>Mira_Keyboard\<close>, \<open>Mira_Input\<close>: the scancode ring implements a bounded queue (locale
    \<open>bounded_queue\<close>, interpreted on the ring), and polling implements a line editor.
  \<^item> \<open>Mira_Pmm\<close>: the bitmap allocator, its initialisation from the Multiboot memory map, freshness
    and distinctness of allocated pages (locale for page allocators, interpreted on it).
  \<^item> \<open>Mira_Paging\<close>: four-level tables in physical memory; mapping and unmapping against the
    translation of all addresses, out-of-memory behaviour, the boot tables.
  \<^item> \<open>Mira_Heap\<close>: slabs and the block list in physical memory: fresh and disjoint objects,
    the failure of large requests and of merging across gaps.
  \<^item> \<open>Mira_Lib\<close>: \<open>memcpy\<close>, \<open>memmove\<close>, \<open>strlen\<close>, \<open>strcmp\<close>, \<open>strcat\<close>, \<open>strstr\<close> and relatives on memory.
    \<open>Mira_Ds\<close>: the growing array, the linked list and the hash map of \<open>lib/common/ds.c\<close> against
    sequences and association lists (locale for sequences, interpreted on both containers).
  \<^item> \<open>Mira_Process\<close>: the process table as linked records, the ready queue (locale \<open>run_queue\<close>,
    interpreted on the linked queue), fairness and register save and restore.
  \<^item> \<open>Mira_Loader\<close>: validation, checksum and loading of MEX and ELF images into mapped pages.
  \<^item> \<open>Mira_Vfs\<close>: nodes, paths, open files; lookup after creation, the well-formedness invariant,
    read after write, and the overflow in the read bound.
  \<^item> \<open>Mira_Dev\<close>: port accesses, interrupt controller, timer, mouse, disk and network layer.
    \<open>Mira_Irq\<close>: descriptor tables, driver registry and interrupt dispatch.
    \<open>Mira_Syscall\<close>: the system calls over processes, files, drawing and the clock.
  \<^item> \<open>Mira_Fb\<close>: the framebuffer as bytes; what each drawing operation paints, as a picture from
    points to pixels (locale for canvases, interpreted on the framebuffer). \<open>Mira_Text\<close>: the font
    and text. \<open>Mira_Widget\<close>: widgets and windows as sequences of graphics calls, which \<open>Mira_Draw\<close>
    carries out on the framebuffer.
  \<^item> \<open>Mira_Shell_Lex\<close>, \<open>Mira_Shell_Parse\<close>: number conversion, tokenizer, parser; totality, round
    trips and the shape of the trees.
  \<^item> \<open>Mira_Shell_Env\<close>: the shell's state and tables, variable expansion (locale \<open>variable_store\<close>,
    interpreted on the table of variables). \<open>Mira_Shell_Ui\<close>: layout and drawing of the desktop.
  \<^item> \<open>Mira_Shell_Stubs\<close>, \<open>Mira_Shell_Builtins\<close>: the 184 builtin commands.
  \<^item> \<open>Mira_Shell_Exec\<close>: the interpreter and the table of builtins. \<open>Mira_Shell_Inv\<close>: the invariant,
    kept by every builtin and so by every command. \<open>Mira_Shell_Fuel\<close>: the fuel only bounds.
  \<^item> \<open>Mira_Shell\<close>: start and tick, and the properties of the whole shell.
  \<^item> \<open>Mira_Ui\<close>: the tree of widgets in the heap implements trees; painting, events, focus.
    \<open>Mira_Desktop\<close>: starting, ticking and rendering the desktop over shell, tree, mouse and
    framebuffer. \<open>Mira_Safemode\<close>: the safe-mode screen and its loop.

  \<^bold>\<open>Fuel and bounds.\<close> Creating a page table can recurse into mapping its page; each level takes
  a page, so \<open>TABLE_DEPTH\<close>, one more than the number of physical pages, is deep enough, and
  \<open>MAP_FUEL\<close> likewise for the heap. \<open>BLOCK_FUEL\<close> exceeds the number of blocks that fit the heap's
  address range (lemma \<open>heap_inv_fuel\<close>). Sibling lists of the file system have fuel for all nodes,
  which suffices as every sibling is older. Walking a Multiboot structure takes fuel for its tags.
  Painting and destroying widgets needs twice the number of widgets. The interpreter of the shell
  takes fuel for its depth and its waiting loops; \<open>Mira_Shell_Fuel\<close> shows that a result does not
  depend on it, and lines of plain words need three levels. Loops whose end depends on a device
  or on the links of a structure are partial functions, and not returning is the fault \<open>Diverges\<close>.

  \<^bold>\<open>Not modelled.\<close> The assembly files (boot code, interrupt and system-call entry); the instructions
  that load segment registers, flush the TLB, or stop and resume interrupts, which have no state
  here; the C++ runtime stubs of \<open>lib/common/cxxrt.c\<close>. The effect of freeing memory is modelled in
  \<open>Mira_Heap\<close>, for processes and for widgets; elsewhere a freed object is simply not used again.
\<close>

end
